(* ===== verification/Prelude.thy ===== *)
theory Prelude
  imports Main "HOL-Library.Word" "HOL-Library.Monad_Syntax"
begin

text \<open>
  Shared vocabulary of the development: the machine types of the C code, blocks of memory
  with bounds-checked accesses, decimal numerals, and the generic facts on words and lists the
  component theories use.

  A C \<open>char\<close> is an Isabelle \<^typ>\<open>char\<close> (both have 256 values), a \<open>size_t\<close>, \<open>uintptr_t\<close> or
  \<open>uint64_t\<close> is a 64 bit word and a \<open>uint32_t\<close> a 32 bit word. A block of memory is a list of
  cells; a cell is \<^term>\<open>None\<close> while the program has not written it. An access outside
  of the block makes the operation return \<^term>\<open>None\<close>: undefined behaviour is a value of the model,
  and a theorem that an operation returns \<^term>\<open>Some r\<close> says that it does not happen.
  Allocation is assumed to succeed.
\<close>

unbundle bit_operations_syntax

type_synonym u32 = "32 word"
type_synonym u64 = "64 word"
type_synonym cell = "char option"
type_synonym block = "cell list"

named_theorems word_nat \<open>equations that read word operations as operations on naturals\<close>
named_theorems mem_simps \<open>equations of the block operations\<close>

section \<open>Blocks of memory\<close>

definition mem_read :: "'a list \<Rightarrow> nat \<Rightarrow> nat \<Rightarrow> 'a list option" where
  "mem_read b off n = (if off + n \<le> length b then Some (take n (drop off b)) else None)"

definition mem_write :: "'a list \<Rightarrow> nat \<Rightarrow> 'a list \<Rightarrow> 'a list option" where
  "mem_write b off xs =
     (if off + length xs \<le> length b
      then Some (take off b @ xs @ drop (off + length xs) b) else None)"

definition mem_move :: "'a list \<Rightarrow> nat \<Rightarrow> nat \<Rightarrow> nat \<Rightarrow> 'a list option" where
  "mem_move b dst src n = Option.bind (mem_read b src n) (mem_write b dst)"

text \<open>\<open>realloc\<close> keeps the common prefix; the cells it adds are not written yet.\<close>

definition mem_realloc :: "block \<Rightarrow> nat \<Rightarrow> block" where
  "mem_realloc b n = take n b @ replicate (n - length b) None"

lemma mem_read_ok [mem_simps]:
  "off + n \<le> length b \<Longrightarrow> mem_read b off n = Some (take n (drop off b))"
  by (simp add: mem_read_def)

lemma those_map_Some [mem_simps]: "those (map Some xs) = Some xs"
  by (induction xs) simp_all

lemma mem_write_ok [mem_simps]:
  "off + length xs \<le> length b \<Longrightarrow>
   mem_write b off xs = Some (take off b @ xs @ drop (off + length xs) b)"
  by (simp add: mem_write_def)

lemma mem_move_ok [mem_simps]:
  "src + n \<le> length b \<Longrightarrow> dst + n \<le> length b \<Longrightarrow>
   mem_move b dst src n = Some (take dst b @ take n (drop src b) @ drop (dst + n) b)"
  by (simp add: mem_move_def mem_read_def mem_write_def min_absorb2)

lemma mem_write_length: "mem_write b off xs = Some b' \<Longrightarrow> length b' = length b"
  by (auto simp: mem_write_def split: if_splits)

lemma length_mem_realloc [simp]: "length (mem_realloc b n) = n"
  by (simp add: mem_realloc_def)

lemma take_mem_realloc: "k \<le> n \<Longrightarrow> k \<le> length b \<Longrightarrow> take k (mem_realloc b n) = take k b"
  by (simp add: mem_realloc_def min_absorb1)

section \<open>Lists\<close>

lemma length_concat_same: "(\<And>x. x \<in> set xs \<Longrightarrow> length x = k) \<Longrightarrow> length (concat xs) = length xs * k"
  by (induction xs) auto

section \<open>Words\<close>

lemma unat_less_64 [simp]: "unat (x :: u64) < 18446744073709551616"
  using unsigned_less [of x] by simp

lemma unat_less_32 [simp]: "unat (x :: u32) < 4294967296"
  using unsigned_less [of x] by simp

lemma unat_add_64 [word_nat]:
  "unat (x :: u64) + unat y < 18446744073709551616 \<Longrightarrow> unat (x + y) = unat x + unat y"
  by (simp add: unat_word_ariths)

lemma unat_mult_64 [word_nat]:
  "unat (x :: u64) * unat y < 18446744073709551616 \<Longrightarrow> unat (x * y) = unat x * unat y"
  by (simp add: unat_word_ariths)

lemma unat_diff_64 [word_nat]: "unat (y :: u64) \<le> unat x \<Longrightarrow> unat (x - y) = unat x - unat y"
  by (simp add: unat_sub word_le_nat_alt)

lemma unat_of_nat_64 [word_nat]:
  "n < 18446744073709551616 \<Longrightarrow> unat (word_of_nat n :: u64) = n"
  by (simp add: unsigned_of_nat take_bit_nat_eq_self_iff)

lemma unat_of_nat_32 [word_nat]: "n < 4294967296 \<Longrightarrow> unat (word_of_nat n :: u32) = n"
  by (simp add: unsigned_of_nat take_bit_nat_eq_self_iff)

lemma word_of_nat_unat_64 [simp]: "word_of_nat (unat (x :: u64)) = x"
  by simp

lemma unat_and_mask_64:
  assumes "unat c = 2 ^ k"
  shows "unat ((i :: u64) AND (c - 1)) = unat i mod 2 ^ k"
proof -
  have c: "c = 2 ^ k"
  proof -
    have "c = word_of_nat (unat c)" by simp
    also have "\<dots> = 2 ^ k" by (simp add: assms)
    finally show ?thesis .
  qed
  have "i AND (c - 1) = take_bit k i"
    by (simp add: c take_bit_eq_mask mask_eq_decr_exp)
  then have "unat (i AND (c - 1)) = take_bit k (unat i)"
    by (simp only: unsigned_take_bit_eq)
  then show ?thesis by (simp only: take_bit_eq_mod)
qed

lemma unat_le_exp_64: "unat (c :: u64) = 2 ^ k \<Longrightarrow> k < 64"
  using unat_less_64 [of c] power_strict_increasing_iff [of "2::nat" k 64] by simp

section \<open>The bit-smearing round-up to a power of two\<close>

text \<open>
  \<open>buffer_roundup\<close> and \<open>map_roundup\<close> decrement, smear the top bit downwards in six steps and
  increment. One smearing step doubles the distance every bit has been copied down.
\<close>

lemma smear_step:
  fixes x y :: u64
  assumes "\<And>n. n < 64 \<Longrightarrow> bit y n \<longleftrightarrow> (\<exists>m. n \<le> m \<and> m < n + k \<and> bit x m)"
    and "n < 64"
  shows "bit (y OR drop_bit k y) n \<longleftrightarrow> (\<exists>m. n \<le> m \<and> m < n + 2 * k \<and> bit x m)"
proof -
  have hi: "\<And>m. bit x m \<Longrightarrow> m < 64" using bit_imp_le_length [of x] by simp
  have hy: "bit y (n + k) \<longleftrightarrow> (\<exists>m. n + k \<le> m \<and> m < n + 2 * k \<and> bit x m)"
  proof (cases "n + k < 64")
    case True
    then show ?thesis unfolding assms(1) [OF True] by (simp add: mult_2 add.assoc)
  next
    case False
    then have "\<not> bit y (n + k)" using bit_imp_le_length [of y "n + k"] by auto
    moreover have "\<not> (\<exists>m. n + k \<le> m \<and> m < n + 2 * k \<and> bit x m)"
      using False hi by fastforce
    ultimately show ?thesis by blast
  qed
  have split: "n \<le> m \<and> m < n + 2 * k \<longleftrightarrow> n \<le> m \<and> m < n + k \<or> n + k \<le> m \<and> m < n + 2 * k" for m
    by linarith
  have "bit (y OR drop_bit k y) n \<longleftrightarrow> bit y n \<or> bit y (n + k)"
    by (simp add: bit_or_iff bit_drop_bit_eq add.commute)
  also have "\<dots> \<longleftrightarrow> (\<exists>m. n \<le> m \<and> m < n + 2 * k \<and> bit x m)"
    unfolding hy assms(1) [OF assms(2)] using split by blast
  finally show ?thesis .
qed

definition smear :: "u64 \<Rightarrow> u64" where
  "smear x =
     (let x = x OR drop_bit 1 x; x = x OR drop_bit 2 x; x = x OR drop_bit 4 x;
          x = x OR drop_bit 8 x; x = x OR drop_bit 16 x in x OR drop_bit 32 x)"

lemma bit_smear:
  assumes "n < 64" shows "bit (smear x) n \<longleftrightarrow> (\<exists>m\<ge>n. bit x m)"
proof -
  let ?I = "\<lambda>k y. \<forall>n<64. bit y n \<longleftrightarrow> (\<exists>m. n \<le> m \<and> m < n + k \<and> bit x m)"
  have step: "?I (2 * k) (y OR drop_bit k y)" if "?I k y" for k and y :: u64
    using that smear_step [of y k x] by (intro allI impI) blast
  have eq: "(n \<le> m \<and> m < n + 1) = (m = n)" for n m :: nat by auto
  have "?I 1 x" by (simp only: conj_assoc [symmetric] eq) simp
  note I2 = step [OF this]
  note I4 = step [OF I2] note I8 = step [OF I4] note I16 = step [OF I8]
  note I32 = step [OF I16] note I64 = step [OF I32]
  have "bit (smear x) n \<longleftrightarrow> (\<exists>m. n \<le> m \<and> m < n + 64 \<and> bit x m)"
    using I64 [rule_format, OF assms] unfolding smear_def Let_def by simp
  also have "\<dots> \<longleftrightarrow> (\<exists>m\<ge>n. bit x m)"
    using bit_imp_le_length [of x] by fastforce
  finally show ?thesis .
qed

lemma smear_eq_mask:
  assumes "unat x < 2 ^ j" "j \<le> 64" "0 < j \<Longrightarrow> 2 ^ (j - 1) \<le> unat x"
  shows "smear x = mask j"
proof (rule bit_word_eqI)
  fix n assume n: "n < LENGTH(64)"
  have above: "\<not> bit x m" if "j \<le> m" for m
  proof
    assume "bit x m"
    then have "bit (unat x) m" by (simp add: bit_unsigned_iff)
    then have "2 ^ m \<le> unat x" by (metis bit_iff_odd div_less even_zero not_le)
    then have "(2::nat) ^ j \<le> unat x"
      using that power_increasing [of j m "2::nat"] by linarith
    with assms(1) show False by simp
  qed
  have top: "bit x (j - 1)" if "0 < j"
  proof -
    have "unat x div 2 ^ (j - 1) = 1"
      using assms(1,3) that by (cases j) (auto simp: div_nat_eqI)
    then have "bit (unat x) (j - 1)" by (simp add: bit_iff_odd)
    then show ?thesis by (simp add: bit_unsigned_iff)
  qed
  show "bit (smear x) n \<longleftrightarrow> bit (mask j :: u64) n"
  proof (cases "n < j")
    case True
    then have "\<exists>m\<ge>n. bit x m" using top by (intro exI [of _ "j - 1"]) auto
    then show ?thesis using True n by (simp add: bit_smear bit_mask_iff)
  next
    case False
    then show ?thesis using above n by (auto simp: bit_smear bit_mask_iff)
  qed
qed

text \<open>The least power of two that is at least the argument, for arguments up to \<open>2^63\<close>.\<close>

lemma smear_power_of_two:
  assumes "0 < unat s" "unat s \<le> 2 ^ 63"
  obtains j where "j \<le> 63" "unat (smear (s - 1) + 1) = 2 ^ j" "unat s \<le> 2 ^ j"
    "j = 0 \<or> 2 ^ (j - 1) < unat s"
proof -
  have u: "unat (s - 1) = unat s - 1" using assms(1) by (simp add: unat_diff_64)
  define j where "j = (LEAST j. unat (s - 1) < 2 ^ j)"
  have ex: "unat (s - 1) < 2 ^ 63" using u assms by simp
  then have j63: "j \<le> 63" unfolding j_def by (rule Least_le)
  from ex have lt: "unat (s - 1) < 2 ^ j" unfolding j_def by (rule LeastI)
  have lo: "2 ^ (j - 1) \<le> unat (s - 1)" if "0 < j"
    using not_less_Least [of "j - 1" "\<lambda>j. unat (s - 1) < 2 ^ j"] that
    unfolding j_def [symmetric] by simp
  have m: "smear (s - 1) = mask j" using lt j63 lo by (intro smear_eq_mask) auto
  have "smear (s - 1) + 1 = 2 ^ j" by (simp add: m mask_eq_decr_exp)
  moreover have "(2::nat) ^ j < 2 ^ 64" using j63 by (intro power_strict_increasing) auto
  ultimately have "unat (smear (s - 1) + 1) = 2 ^ j"
    using unat_of_nat_64 [of "2 ^ j"] by simp
  moreover have "j = 0 \<or> 2 ^ (j - 1) < unat s" using lo u assms(1) by (cases "j = 0") auto
  ultimately show thesis using that j63 lt u assms(1) by simp
qed

section \<open>Decimal numerals\<close>

definition digit_char :: "nat \<Rightarrow> char" where
  "digit_char d = char_of (48 + d)"

fun decimal :: "nat \<Rightarrow> string" where
  "decimal n = (if n < 10 then [digit_char n] else decimal (n div 10) @ [digit_char (n mod 10)])"

declare decimal.simps [simp del]

lemma decimal_small: "n < 10 \<Longrightarrow> decimal n = [digit_char n]"
  by (simp add: decimal.simps)

lemma decimal_step: "10 \<le> n \<Longrightarrow> decimal n = decimal (n div 10) @ [digit_char (n mod 10)]"
  by (simp add: decimal.simps)

lemma decimal_nonempty [simp]: "decimal n \<noteq> []"
  by (subst decimal.simps) simp

lemma length_decimal_eq: "0 < d \<Longrightarrow> n < 10 ^ d \<Longrightarrow> d = 1 \<or> 10 ^ (d - 1) \<le> n \<Longrightarrow> length (decimal n) = d"
proof (induction d arbitrary: n)
  case 0
  then show ?case by simp
next
  case (Suc d)
  show ?case
  proof (cases "d = 0")
    case True
    then show ?thesis using Suc.prems by (simp add: decimal_small)
  next
    case False
    then have ge: "10 ^ d \<le> n" using Suc.prems by simp
    moreover have "(10::nat) \<le> 10 ^ d" using False by (cases d) auto
    ultimately have n10: "10 \<le> n" by linarith
    have "length (decimal (n div 10)) = d"
    proof (rule Suc.IH)
      show "n div 10 < 10 ^ d" using Suc.prems(2) by (simp add: less_mult_imp_div_less mult.commute)
      show "d = 1 \<or> 10 ^ (d - 1) \<le> n div 10"
        using ge False by (cases d) (auto simp: less_eq_div_iff_mult_less_eq mult.commute)
    qed (use False in simp)
    then show ?thesis using n10 by (simp add: decimal_step)
  qed
qed

end
