(* ===== verification/Utility.thy ===== *)
theory Utility
  imports Prelude
begin

text \<open>
  \<^verbatim>\<open>src/reactor/utility.c\<close>: the branch-free length of a 32 bit number in decimal, and the
  two-digits-at-a-time printer. The specification of both is \<^const>\<open>decimal\<close> of the prelude.
  What the processor's time stamp counter reads is an argument of \<open>utility_tsc\<close>.
\<close>

section \<open>\<open>utility_u32_len\<close>\<close>

text \<open>The number of bits of a number, and with it the compiler's \<open>__builtin_clz\<close> on 32 bits.\<close>

fun bit_length :: "nat \<Rightarrow> nat" where
  "bit_length n = (if n = 0 then 0 else Suc (bit_length (n div 2)))"

declare bit_length.simps [simp del]

definition builtin_clz :: "u32 \<Rightarrow> nat" where
  "builtin_clz n = 32 - bit_length (unat n)"

definition pow_10 :: "u32 list" where
  "pow_10 = [0, 10, 100, 1000, 10000, 100000, 1000000, 10000000, 100000000, 1000000000]"

definition utility_u32_len :: "u32 \<Rightarrow> u64" where
  "utility_u32_len n =
     (let t = drop_bit 12 ((32 - word_of_nat (builtin_clz (n OR 1))) * 1233) :: u32
      in ucast (t - (if n < pow_10 ! unat t then 1 else 0) + 1))"

lemma bit_length_bounds: "n < 2 ^ bit_length n \<and> (0 < n \<longrightarrow> 2 ^ (bit_length n - 1) \<le> n)"
proof (induction n rule: bit_length.induct)
  case (1 n)
  show ?case
  proof (cases "n = 0")
    case True
    then show ?thesis by (simp add: bit_length.simps)
  next
    case False
    let ?b = "bit_length (n div 2)"
    from 1 False have IH: "n div 2 < 2 ^ ?b" "0 < n div 2 \<longrightarrow> 2 ^ (?b - 1) \<le> n div 2" by auto
    have b: "bit_length n = Suc ?b" using False by (simp add: bit_length.simps [of n])
    have "2 ^ ?b \<le> n"
    proof (cases "n div 2 = 0")
      case True
      then have "?b = 0" by (simp add: bit_length.simps)
      then show ?thesis using False by simp
    next
      case False
      then have "0 < ?b" using IH(1) by (cases ?b) auto
      then have "(2::nat) ^ ?b = 2 * 2 ^ (?b - 1)" by (cases ?b) auto
      then show ?thesis using IH(2) False by linarith
    qed
    then show ?thesis using IH(1) by (simp add: b)
  qed
qed

lemma bit_length_le_32: "bit_length (unat (n :: u32)) \<le> 32"
proof (rule ccontr)
  assume big: "\<not> ?thesis"
  then have "32 \<le> bit_length (unat n) - 1" by simp
  then have "(2::nat) ^ 32 \<le> 2 ^ (bit_length (unat n) - 1)" by (rule power_increasing) simp
  moreover have "0 < unat n"
    using big by (cases "unat n") (auto simp: bit_length.simps)
  ultimately have "2 ^ 32 \<le> unat n" using bit_length_bounds [of "unat n"] by linarith
  then show False using unat_less_32 [of n] by simp
qed

text \<open>
  For every bit length the multiplication by 1233/4096 gives the decimal length or one less,
  and the table corrects it.
\<close>

definition len_guess :: "nat \<Rightarrow> nat" where
  "len_guess b = b * 1233 div 4096"

definition guess_ok :: "nat \<Rightarrow> bool" where
  "guess_ok b \<longleftrightarrow>
     len_guess b < 10 \<and> 2 ^ b \<le> (10::nat) ^ Suc (len_guess b) \<and>
     (0 < len_guess b \<longrightarrow> 10 ^ (len_guess b - 1) \<le> (2::nat) ^ (b - 1)) \<and>
     unat (pow_10 ! len_guess b) = (if len_guess b = 0 then 0 else 10 ^ len_guess b) \<and>
     drop_bit 12 ((32 - word_of_nat (32 - b)) * 1233) = (word_of_nat (len_guess b) :: u32)"

lemma guess_ok_all: "\<forall>b \<in> set [1..<33]. guess_ok b"
  by (simp add: upt_rec guess_ok_def len_guess_def pow_10_def)

lemma unat_ucast_of_nat: "unat (ucast (word_of_nat m :: u32) :: u64) = m" if "m < 4294967296"
  using that by (simp add: unsigned_ucast_eq unat_of_nat_32 take_bit_nat_eq_self_iff)

lemma utility_u32_len_decimal: "unat (utility_u32_len n) = length (decimal (unat n))"
proof -
  define b where "b = bit_length (unat (n OR 1))"
  define t where "t = len_guess b"
  have or1: "unat (n OR 1) = (if even (unat n) then Suc (unat n) else unat n)"
  proof -
    have "unat (n OR 1) = unat n OR unat (1 :: u32)" by (rule unsigned_or_eq)
    also have "\<dots> = unat n + of_bool (even (unat n))" by (simp only: unsigned_1 or_one_eq)
    finally show ?thesis by simp
  qed
  have bb: "unat (n OR 1) < 2 ^ b" "2 ^ (b - 1) \<le> unat (n OR 1)"
    using bit_length_bounds [of "unat (n OR 1)"] or1 unfolding b_def
    by (auto split: if_splits intro: ccontr)
  have "b \<noteq> 0" using bb or1 by (cases b) (auto split: if_splits)
  moreover have "b \<le> 32" unfolding b_def by (rule bit_length_le_32)
  ultimately have "b \<in> set [1..<33]" by simp
  with guess_ok_all have ok: "guess_ok b" by blast
  note ok = ok [unfolded guess_ok_def, folded t_def]
  have w: "drop_bit 12 ((32 - word_of_nat (builtin_clz (n OR 1))) * 1233) = (word_of_nat t :: u32)"
    unfolding builtin_clz_def using ok b_def by simp
  have ut: "unat (word_of_nat t :: u32) = t" using ok by (intro unat_of_nat_32) simp
  have len: "unat (utility_u32_len n) = t - (if unat n < unat (pow_10 ! t) then 1 else 0) + 1"
    if "unat n < unat (pow_10 ! t) \<Longrightarrow> 0 < t"
  proof -
    have "utility_u32_len n = ucast ((word_of_nat t :: u32) - (if n < pow_10 ! t then 1 else 0) + 1)"
      unfolding utility_u32_len_def Let_def w ut ..
    also have "(word_of_nat t :: u32) - (if n < pow_10 ! t then 1 else 0) + 1
        = word_of_nat (t - (if unat n < unat (pow_10 ! t) then 1 else 0) + 1)"
      using that by (auto simp: word_less_nat_alt of_nat_diff)
    finally have "utility_u32_len n =
        ucast (word_of_nat (t - (if unat n < unat (pow_10 ! t) then 1 else 0) + 1) :: u32)" .
    moreover have "t - (if unat n < unat (pow_10 ! t) then 1 else 0) + 1 < 4294967296"
    proof -
      have "t < 10" using ok by simp
      then show ?thesis by linarith
    qed
    ultimately show ?thesis by (simp only: unat_ucast_of_nat)
  qed
  show ?thesis
  proof (cases "t = 0")
    case True
    then have "unat n < 10" using ok bb(1) or1 by (auto split: if_splits)
    then show ?thesis using ok True len by (simp add: decimal_small)
  next
    case False
    have p: "unat (pow_10 ! t) = 10 ^ t" using ok False by simp
    have lo: "10 ^ (t - 1) \<le> unat (n OR 1)" using ok False bb(2) by linarith
    have lo': "t = 1 \<or> 10 ^ (t - 1) \<le> unat n"
    proof (cases "t = 1")
      case False
      then have "even ((10::nat) ^ (t - 1))" using \<open>t \<noteq> 0\<close> by simp
      then have "10 ^ (t - 1) \<noteq> unat (n OR 1)" using or1 by (metis even_Suc)
      then show ?thesis using lo or1 by (auto split: if_splits)
    qed simp
    have hi: "unat n < 10 ^ Suc t" using ok bb(1) or1 by (auto split: if_splits)
    have "length (decimal (unat n)) = t - (if unat n < 10 ^ t then 1 else 0) + 1"
    proof (cases "unat n < 10 ^ t")
      case True
      then show ?thesis using False lo' length_decimal_eq [of t "unat n"] by simp
    next
      case lt: False
      then show ?thesis using hi length_decimal_eq [of "Suc t" "unat n"] by simp
    qed
    then show ?thesis using len False p by simp
  qed
qed

section \<open>\<open>utility_u32_sprint\<close> and \<open>utility_u32_toa\<close>\<close>

text \<open>
  The printer receives a pointer one past the last digit and writes downwards
  (\<open>*--string = c\<close>). A pointer is an offset into a block.
\<close>

definition digits :: string where
  "digits =
     ''0001020304050607080910111213141516171819'' @
     ''2021222324252627282930313233343536373839'' @
     ''4041424344454647484950515253545556575859'' @
     ''6061626364656667686970717273747576777879'' @
     ''8081828384858687888990919293949596979899''"

definition push_down :: "char \<Rightarrow> block \<times> nat \<Rightarrow> (block \<times> nat) option" where
  "push_down c bp =
     (case bp of (b, p) \<Rightarrow>
       if p = 0 then None
       else map_option (\<lambda>b'. (b', p - 1)) (mem_write b (p - 1) [Some c]))"

function utility_u32_sprint :: "u32 \<Rightarrow> block \<times> nat \<Rightarrow> (block \<times> nat) option" where
  "utility_u32_sprint n bp =
     (if 100 \<le> n then
        let i = 2 * unat (n mod 100) in
        Option.bind (push_down (digits ! (i + 1)) bp) (\<lambda>bp.
        Option.bind (push_down (digits ! i) bp) (\<lambda>bp.
        utility_u32_sprint (n div 100) bp))
      else if n < 10 then push_down (char_of (unat n + 48)) bp
      else
        let i = 2 * unat n in
        Option.bind (push_down (digits ! (i + 1)) bp) (push_down (digits ! i)))"
  by pat_completeness auto
termination
proof (relation "measure (\<lambda>(n, bp). unat n)")
  fix n :: u32 and bp x xa xb and a :: "block \<times> nat"
  assume "100 \<le> n"
  then have "0 < unat n" by (simp add: word_le_nat_alt)
  then show "((n div 100, a), n, bp) \<in> measure (\<lambda>(n, bp). unat n)"
    by (simp add: unat_div)
qed simp

declare utility_u32_sprint.simps [simp del]

definition utility_u32_toa :: "u32 \<Rightarrow> block \<Rightarrow> nat \<Rightarrow> block option" where
  "utility_u32_toa n b p =
     (let length = unat (utility_u32_len n); p = p + length in
      Option.bind (mem_write b p [Some (CHR 0x00)]) (\<lambda>b.
      map_option fst (utility_u32_sprint n (b, p))))"

lemma digits_pair:
  assumes "k < 100"
  shows "digits ! (2 * k) = digit_char (k div 10)" "digits ! Suc (2 * k) = digit_char (k mod 10)"
proof -
  have "\<forall>k \<in> set [0..<100]. digits ! (2 * k) = digit_char (k div 10)
      \<and> digits ! Suc (2 * k) = digit_char (k mod 10)"
    by code_simp
  with assms show "digits ! (2 * k) = digit_char (k div 10)"
    "digits ! Suc (2 * k) = digit_char (k mod 10)" by auto
qed

definition put_before :: "string \<Rightarrow> block \<times> nat \<Rightarrow> block \<times> nat" where
  "put_before s bp =
     (case bp of (b, p) \<Rightarrow>
       (take (p - length s) b @ map Some s @ drop p b, p - length s))"

lemma push_down_ok:
  "0 < p \<Longrightarrow> p \<le> length b \<Longrightarrow> push_down c (b, p) = Some (put_before [c] (b, p))"
  by (simp add: push_down_def put_before_def mem_simps)

lemma put_before_put_before:
  assumes "length s + length t \<le> p" "p \<le> length b"
  shows "put_before s (put_before t (b, p)) = put_before (s @ t) (b, p)"
  using assms by (auto simp: put_before_def min_absorb2 add.commute)

lemma push_two:
  assumes "k < 100" "2 \<le> p" "p \<le> length b"
  shows "Option.bind (push_down (digits ! (2 * k + 1)) (b, p)) (\<lambda>bp.
           Option.bind (push_down (digits ! (2 * k)) bp) f)
         = f (put_before [digit_char (k div 10), digit_char (k mod 10)] (b, p))"
proof -
  obtain b1 p1 where bp1: "put_before [digit_char (k mod 10)] (b, p) = (b1, p1)" by fastforce
  then have "p1 = p - 1" "length b1 = length b"
    using assms by (auto simp: put_before_def)
  then have "push_down (digits ! (2 * k)) (b1, p1) = Some (put_before [digit_char (k div 10)] (b1, p1))"
    using assms digits_pair [OF assms(1)] by (simp add: push_down_ok)
  moreover have "push_down (digits ! (2 * k + 1)) (b, p) = Some (b1, p1)"
    using assms digits_pair [OF assms(1)] by (simp add: push_down_ok bp1)
  ultimately show ?thesis
    using assms by (simp add: bp1 [symmetric] put_before_put_before)
qed

lemma decimal_two:
  assumes "10 \<le> n"
  shows "decimal n = (if n < 100 then [] else decimal (n div 100)) @
    [digit_char (n mod 100 div 10), digit_char (n mod 100 mod 10)]"
proof -
  have a: "n div 10 div 10 = n div 100" by (simp add: div_mult2_eq [symmetric])
  have b: "n mod 100 div 10 = n div 10 mod 10" "n mod 100 mod 10 = n mod 10"
    using mod_mult2_eq [of n 10 10] by simp_all
  show ?thesis
  proof (cases "n < 100")
    case True
    then show ?thesis using assms by (simp add: decimal_step [of n] decimal_small)
  next
    case False
    then show ?thesis
      using assms decimal_step [of n] decimal_step [of "n div 10"] by (simp add: a b)
  qed
qed

lemma utility_u32_sprint_ok:
  assumes "length (decimal (unat n)) \<le> p" "p \<le> length b"
  shows "utility_u32_sprint n (b, p) = Some (put_before (decimal (unat n)) (b, p))"
  using assms
proof (induction "unat n" arbitrary: n b p rule: less_induct)
  case less
  let ?n = "unat n"
  have k: "unat (n mod 100) = ?n mod 100" by (simp add: unat_mod)
  consider "?n < 10" | "10 \<le> ?n" "?n < 100" | "100 \<le> ?n" by linarith
  then show ?case
  proof cases
    case 1
    then have "\<not> 100 \<le> n" "n < 10" by (simp_all add: word_le_nat_alt word_less_nat_alt)
    then show ?thesis
      using less.prems 1 by (subst utility_u32_sprint.simps)
        (simp add: decimal_small push_down_ok digit_char_def add.commute)
  next
    case 2
    then have "\<not> 100 \<le> n" "\<not> n < 10" by (simp_all add: word_le_nat_alt word_less_nat_alt)
    then show ?thesis
      using less.prems 2 push_two [of ?n p b Some] decimal_two [of ?n]
      by (subst utility_u32_sprint.simps) (simp add: Let_def)
  next
    case 3
    then have n100: "100 \<le> n" by (simp add: word_le_nat_alt)
    let ?ds = "[digit_char (?n mod 100 div 10), digit_char (?n mod 100 mod 10)]"
    obtain b' p' where bp: "put_before ?ds (b, p) = (b', p')" by fastforce
    have d: "decimal ?n = decimal (?n div 100) @ ?ds" using 3 decimal_two [of ?n] by simp
    have len: "length (decimal (?n div 100)) + 2 \<le> p" using less.prems(1) d by simp
    then have p': "p' = p - 2" "length b' = length b"
      using bp less.prems(2) by (auto simp: put_before_def)
    have u: "unat (n div 100) = ?n div 100" by (simp add: unat_div)
    have "utility_u32_sprint n (b, p) = utility_u32_sprint (n div 100) (b', p')"
      using n100 push_two [of "?n mod 100" p b "utility_u32_sprint (n div 100)"] len less.prems(2)
      by (subst utility_u32_sprint.simps) (simp add: Let_def k bp)
    also have "\<dots> = Some (put_before (decimal (?n div 100)) (b', p'))"
      using less.hyps [of "n div 100" p' b'] 3 u len p' less.prems(2) by simp
    also have "put_before (decimal (?n div 100)) (b', p') = put_before (decimal ?n) (b, p)"
      using len less.prems(2) unfolding bp [symmetric] by (subst put_before_put_before) (simp_all add: d)
    finally show ?thesis .
  qed
qed

section \<open>Properties\<close>

text \<open>
  C37. Printing a 32 bit integer writes exactly its decimal numeral and a terminating zero at
  the given place, inside of any block that has room for them, and leaves every other cell alone.
  In particular \<open>utility_u32_len\<close> is the number of decimal digits, for all \<open>2^32\<close> arguments.
\<close>

theorem utility_u32_toa_decimal:
  assumes "p + length (decimal (unat n)) < length b"
  shows "utility_u32_toa n b p =
    Some (take p b @ map Some (decimal (unat n) @ [CHR 0x00]) @ drop (Suc (p + length (decimal (unat n)))) b)"
proof -
  let ?d = "decimal (unat n)"
  define b' where "b' = take (p + length ?d) b @ Some (CHR 0x00) # drop (Suc (p + length ?d)) b"
  have len: "unat (utility_u32_len n) = length ?d" by (simp add: utility_u32_len_decimal)
  have w: "mem_write b (p + length ?d) [Some (CHR 0x00)] = Some b'"
    using assms by (simp add: mem_write_ok b'_def)
  have "length ?d \<le> p + length ?d" "p + length ?d \<le> length b'" using assms by (simp_all add: b'_def)
  from utility_u32_sprint_ok [OF this]
  have "utility_u32_toa n b p = Some (fst (put_before ?d (b', p + length ?d)))"
    by (simp add: utility_u32_toa_def len w Let_def)
  also have "fst (put_before ?d (b', p + length ?d)) =
      take p b @ map Some (?d @ [CHR 0x00]) @ drop (Suc (p + length ?d)) b"
    using assms by (simp add: put_before_def b'_def min_absorb1)
  finally show ?thesis .
qed

lemma utility_u32_toa_decimal_witness:
  "utility_u32_toa 4096 [None, None, None, None, None, None] 1 =
    Some [None, Some (CHR ''4''), Some (CHR ''0''), Some (CHR ''9''), Some (CHR ''6''), Some (CHR 0x00)]"
proof -
  have d: "decimal 4096 = ''4096''" by (simp add: decimal.simps digit_char_def) code_simp
  have "unat (4096 :: u32) = 4096" by simp
  then show ?thesis
    using utility_u32_toa_decimal [of 1 4096 "[None, None, None, None, None, None]"] by (simp add: d)
qed

section \<open>The time stamp counter\<close>

text \<open>\<open>rdtsc\<close> is what the instruction leaves in the two registers, \<^term>\<open>None\<close> on a machine without it.\<close>

definition utility_tsc :: "(u32 \<times> u32) option \<Rightarrow> u64" where
  "utility_tsc rdtsc = (case rdtsc of None \<Rightarrow> 0 | Some (lo, hi) \<Rightarrow> push_bit 32 (ucast hi) OR ucast lo)"

lemma utility_tsc_value: "unat (utility_tsc (Some (lo, hi))) = unat hi * 2 ^ 32 + unat lo"
proof -
  have "push_bit 32 (ucast hi :: u64) OR ucast lo = push_bit 32 (ucast hi) + ucast lo"
    by (rule disjunctive_add_eq_or [symmetric], rule bit_word_eqI) (auto simp: bit_simps dest: bit_imp_le_length)
  moreover have u: "unat (ucast v :: u64) = unat v" for v :: u32
    using order.strict_trans [OF unat_less_32 [of v], of 18446744073709551616] by (simp add: unsigned_ucast_eq take_bit_nat_eq_self_iff)
  moreover have "unat (push_bit 32 (ucast hi :: u64)) = unat hi * 2 ^ 32"
    using unat_less_32 [of hi] unat_mult_64 [of "ucast hi" 4294967296] u [of hi] by (simp add: push_bit_eq_mult)
  moreover have "unat hi * 4294967296 + unat lo < 18446744073709551616" using unat_less_32 [of hi] unat_less_32 [of lo] by linarith
  ultimately show ?thesis using unat_add_64 [of "push_bit 32 (ucast hi)" "ucast lo"] by (simp add: utility_tsc_def)
qed

end
