(* ===== verification/Buffer.thy ===== *)
theory Buffer
  imports Prelude
begin

text \<open>
  \<^verbatim>\<open>src/reactor/buffer.c\<close>: the growable byte buffer under the vector, the stream and the HTTP
  writer. The buffer owns a block of \<open>capacity\<close> cells (the null pointer is the empty block) of
  which the first \<open>size\<close> are its contents. Bytes copied into it come from outside of the
  buffer (no source pointer into the buffer itself, which \<open>realloc\<close> could move).
  The contract of the component is the locale \<open>cell_store\<close>, interpreted at the end.
\<close>

record buffer =
  buf_data :: block
  buf_size :: u64
  buf_capacity :: u64

definition buffer_roundup :: "u64 \<Rightarrow> u64" where
  "buffer_roundup s =
     (let s = s - 1;
          s = s OR drop_bit 1 s; s = s OR drop_bit 2 s; s = s OR drop_bit 4 s;
          s = s OR drop_bit 8 s; s = s OR drop_bit 16 s; s = s OR drop_bit 32 s
      in s + 1)"

definition buffer_construct :: buffer where
  "buffer_construct = \<lparr>buf_data = [], buf_size = 0, buf_capacity = 0\<rparr>"

definition buffer_clear :: "buffer \<Rightarrow> buffer" where
  "buffer_clear b = buffer_construct"

definition buffer_destruct :: "buffer \<Rightarrow> buffer" where
  "buffer_destruct b = buffer_clear b"

definition buffer_size :: "buffer \<Rightarrow> u64" where "buffer_size b = buf_size b"

definition buffer_capacity :: "buffer \<Rightarrow> u64" where "buffer_capacity b = buf_capacity b"

definition buffer_data :: "buffer \<Rightarrow> block" where "buffer_data b = buf_data b"

definition buffer_reserve :: "buffer \<Rightarrow> u64 \<Rightarrow> buffer" where
  "buffer_reserve b capacity =
     (if buf_capacity b < capacity then
        let capacity = buffer_roundup capacity in
        b\<lparr>buf_data := mem_realloc (buf_data b) (unat capacity), buf_capacity := capacity\<rparr>
      else b)"

definition buffer_resize :: "buffer \<Rightarrow> u64 \<Rightarrow> buffer" where
  "buffer_resize b n =
     (let b = (if buffer_capacity b < n then buffer_reserve b n else b)
      in b\<lparr>buf_size := n\<rparr>)"

definition buffer_compact :: "buffer \<Rightarrow> buffer" where
  "buffer_compact b =
     (if buf_size b < buf_capacity b
      then b\<lparr>buf_data := mem_realloc (buf_data b) (unat (buf_size b)), buf_capacity := buf_size b\<rparr>
      else b)"

text \<open>The source of a copy is the list of its bytes; its length is the C argument \<open>size\<close>.\<close>

definition buffer_insert :: "buffer \<Rightarrow> u64 \<Rightarrow> string \<Rightarrow> buffer option" where
  "buffer_insert b position data =
     (let n = word_of_nat (length data); b = buffer_reserve b (buf_size b + n) in
      Option.bind
        (if position < buf_size b
         then mem_move (buf_data b) (unat (position + n)) (unat position) (unat (buf_size b - position))
         else Some (buf_data b)) (\<lambda>d.
      Option.bind (mem_write d (unat position) (map Some data)) (\<lambda>d.
      Some (b\<lparr>buf_data := d, buf_size := buf_size b + n\<rparr>))))"

primrec fill_loop :: "block \<Rightarrow> u64 \<Rightarrow> string \<Rightarrow> nat \<Rightarrow> block option" where
  "fill_loop d position data 0 = Some d"
| "fill_loop d position data (Suc i) =
     Option.bind (fill_loop d position data i) (\<lambda>d.
       mem_write d (unat (position + word_of_nat i * word_of_nat (length data))) (map Some data))"

definition buffer_insert_fill :: "buffer \<Rightarrow> u64 \<Rightarrow> u64 \<Rightarrow> string \<Rightarrow> buffer option" where
  "buffer_insert_fill b position count data =
     (let n = word_of_nat (length data); b = buffer_reserve b (buf_size b + count * n) in
      Option.bind
        (if position < buf_size b
         then mem_move (buf_data b) (unat (position + count * n)) (unat position)
                (unat (buf_size b - position))
         else Some (buf_data b)) (\<lambda>d.
      Option.bind (fill_loop d position data (unat count)) (\<lambda>d.
      Some (b\<lparr>buf_data := d, buf_size := buf_size b + count * n\<rparr>))))"

definition buffer_erase :: "buffer \<Rightarrow> u64 \<Rightarrow> u64 \<Rightarrow> buffer option" where
  "buffer_erase b position n =
     Option.bind
       (mem_move (buf_data b) (unat position) (unat (position + n))
          (unat (buf_size b - position - n))) (\<lambda>d.
     Some (b\<lparr>buf_data := d, buf_size := buf_size b - n\<rparr>))"

section \<open>Invariant and contents\<close>

definition buffer_inv :: "buffer \<Rightarrow> bool" where
  "buffer_inv b \<longleftrightarrow> length (buf_data b) = unat (buf_capacity b) \<and>
     unat (buf_size b) \<le> unat (buf_capacity b) \<and> unat (buf_capacity b) \<le> 2 ^ 63"

definition buffer_cells :: "buffer \<Rightarrow> cell list" where
  "buffer_cells b = take (unat (buf_size b)) (buf_data b)"

lemma length_buffer_cells [simp]:
  "buffer_inv b \<Longrightarrow> length (buffer_cells b) = unat (buf_size b)"
  by (simp add: buffer_inv_def buffer_cells_def min_absorb2)

lemma buffer_roundup_smear: "buffer_roundup s = smear (s - 1) + 1"
  by (simp add: buffer_roundup_def smear_def Let_def)

lemma buffer_roundup_bounds:
  assumes "0 < unat c" "unat c \<le> 2 ^ 63"
  shows "unat c \<le> unat (buffer_roundup c)" "unat (buffer_roundup c) \<le> 2 ^ 63"
proof -
  obtain j where "j \<le> 63" "unat (buffer_roundup c) = 2 ^ j" "unat c \<le> 2 ^ j"
    using smear_power_of_two [OF assms] buffer_roundup_smear by metis
  moreover have "(2::nat) ^ j \<le> 2 ^ 63" using \<open>j \<le> 63\<close> by (intro power_increasing) auto
  ultimately show "unat c \<le> unat (buffer_roundup c)" "unat (buffer_roundup c) \<le> 2 ^ 63"
    by simp_all
qed

lemma buffer_reserve_ok:
  assumes "buffer_inv b" "unat c \<le> 2 ^ 63"
  shows "buffer_inv (buffer_reserve b c)" "buffer_cells (buffer_reserve b c) = buffer_cells b"
    "buf_size (buffer_reserve b c) = buf_size b" "unat c \<le> unat (buf_capacity (buffer_reserve b c))"
proof -
  have "unat c \<le> unat (buffer_roundup c) \<and> unat (buffer_roundup c) \<le> 2 ^ 63"
    if "buf_capacity b < c"
  proof -
    have "0 < unat c" using that by (simp add: word_less_nat_alt)
    then show ?thesis using assms(2) buffer_roundup_bounds by simp
  qed
  then show "buffer_inv (buffer_reserve b c)" "buffer_cells (buffer_reserve b c) = buffer_cells b"
    "buf_size (buffer_reserve b c) = buf_size b" "unat c \<le> unat (buf_capacity (buffer_reserve b c))"
    using assms(1)
    by (auto simp: buffer_reserve_def buffer_inv_def buffer_cells_def Let_def word_less_nat_alt
        take_mem_realloc)
qed

lemma buffer_construct_ok [simp]: "buffer_inv buffer_construct" "buffer_cells buffer_construct = []"
  by (simp_all add: buffer_construct_def buffer_inv_def buffer_cells_def)

lemma buffer_clear_ok [simp]: "buffer_inv (buffer_clear b)" "buffer_cells (buffer_clear b) = []"
  by (simp_all add: buffer_clear_def)

lemma buffer_compact_ok:
  assumes "buffer_inv b"
  shows "buffer_inv (buffer_compact b)" "buffer_cells (buffer_compact b) = buffer_cells b"
    "buf_capacity (buffer_compact b) = buf_size b"
  using assms by (auto simp: buffer_compact_def buffer_inv_def buffer_cells_def word_less_nat_alt
      mem_realloc_def word_unat_eq_iff)

lemma buffer_resize_ok:
  assumes "buffer_inv b" "unat n \<le> 2 ^ 63"
  shows "buffer_inv (buffer_resize b n)" "buf_size (buffer_resize b n) = n"
    "take (unat (buf_size b)) (buffer_cells (buffer_resize b n)) = take (unat n) (buffer_cells b)"
proof -
  define b1 where "b1 = (if buffer_capacity b < n then buffer_reserve b n else b)"
  have b1: "buffer_inv b1" "buffer_cells b1 = buffer_cells b" "buf_size b1 = buf_size b"
    "unat n \<le> unat (buf_capacity b1)"
    using buffer_reserve_ok [OF assms] assms
    by (auto simp: b1_def buffer_capacity_def word_le_nat_alt not_less)
  have r: "buffer_resize b n = b1\<lparr>buf_size := n\<rparr>" by (simp add: buffer_resize_def b1_def)
  from b1 show "buffer_inv (buffer_resize b n)" "buf_size (buffer_resize b n) = n"
    by (simp_all add: r buffer_inv_def)
  have "buffer_cells b = take (unat (buf_size b)) (buf_data b1)"
    using b1(2,3) by (simp add: buffer_cells_def [of b1])
  moreover have "buffer_cells (buffer_resize b n) = take (unat n) (buf_data b1)"
    by (simp add: r buffer_cells_def)
  ultimately show
    "take (unat (buf_size b)) (buffer_cells (buffer_resize b n)) = take (unat n) (buffer_cells b)"
    by (simp only: take_take min.commute)
qed

text \<open>Opening a gap of \<open>g\<close> cells at a position, as the two inserting operations do.\<close>

lemma open_gap:
  assumes "buffer_inv b" "unat p \<le> unat (buf_size b)" "unat (buf_size b) + unat g \<le> 2 ^ 63"
    "b' = buffer_reserve b (buf_size b + g)"
  obtains d where
    "(if p < buf_size b'
      then mem_move (buf_data b') (unat (p + g)) (unat p) (unat (buf_size b' - p))
      else Some (buf_data b')) = Some d"
    "length d = unat (buf_capacity b')"
    "take (unat p) d = take (unat p) (buffer_cells b)"
    "take (unat (buf_size b) - unat p) (drop (unat p + unat g) d) = drop (unat p) (buffer_cells b)"
    "buf_size b' = buf_size b" "unat (buf_size b) + unat g \<le> unat (buf_capacity b')"
    "unat (buf_capacity b') \<le> 2 ^ 63"
proof -
  let ?p = "unat p" and ?g = "unat g" and ?s = "unat (buf_size b)" and ?d = "buf_data b'"
  have sg: "unat (buf_size b + g) = ?s + ?g" using assms(3) by (simp add: unat_add_64)
  have b': "buffer_inv b'" "buffer_cells b' = buffer_cells b" "buf_size b' = buf_size b"
    "?s + ?g \<le> unat (buf_capacity b')"
    using buffer_reserve_ok [OF assms(1), of "buf_size b + g"] assms(3,4) sg by auto
  then have len: "length ?d = unat (buf_capacity b')" "unat (buf_capacity b') \<le> 2 ^ 63"
    by (auto simp: buffer_inv_def)
  have cells: "take ?s ?d = buffer_cells b" using b'(2,3) by (simp add: buffer_cells_def)
  have pg: "unat (p + g) = ?p + ?g" using assms(2,3) by (simp add: unat_add_64)
  have sp: "unat (buf_size b - p) = ?s - ?p" using assms(2) by (simp add: unat_diff_64)
  have p1: "take ?p ?d = take ?p (buffer_cells b)"
    using assms(2) by (simp add: cells [symmetric] min_absorb1)
  have p2: "take (?s - ?p) (drop ?p ?d) = drop ?p (buffer_cells b)"
    by (simp add: cells [symmetric] drop_take)
  show thesis
  proof (cases "p < buf_size b'")
    case True
    define d' where "d' = take (?p + ?g) ?d @ take (?s - ?p) (drop ?p ?d) @ drop (?p + ?g + (?s - ?p)) ?d"
    have le: "?p + ?g \<le> length ?d" "?p + ?g + (?s - ?p) \<le> length ?d" "?p \<le> length ?d" "?s \<le> length ?d"
      using b'(4) len(1) assms(2) by linarith+
    have mv: "mem_move ?d (unat (p + g)) ?p (unat (buf_size b' - p)) = Some d'"
      using le assms(2) by (simp add: pg sp b'(3) mem_move_ok d'_def)
    have q: "take (?s - ?p) (drop (?p + ?g) d') = drop ?p (buffer_cells b)"
      using le assms(2) by (simp add: d'_def p2 [symmetric] min_absorb2)
    have l: "length d' = unat (buf_capacity b')" using le len(1) by (simp add: d'_def min_absorb2)
    have "take ?p d' = take ?p (buffer_cells b)" using le p1 by (simp add: d'_def min_absorb1)
    with True mv l q b'(3,4) len(2) show ?thesis by (intro that [of d']) simp_all
  next
    case False
    then have "?s \<le> ?p" using b'(3) by (simp add: word_less_nat_alt)
    then have "?p = ?s" using assms(2) by simp
    with False b'(3,4) len p1 assms(1) show ?thesis by (intro that [of ?d]) simp_all
  qed
qed

lemma buffer_insert_ok:
  assumes "buffer_inv b" "unat p \<le> unat (buf_size b)" "unat (buf_size b) + length xs \<le> 2 ^ 63"
  obtains b' where "buffer_insert b p xs = Some b'" "buffer_inv b'"
    "buffer_cells b' = take (unat p) (buffer_cells b) @ map Some xs @ drop (unat p) (buffer_cells b)"
    "unat (buf_size b') = unat (buf_size b) + length xs"
proof -
  let ?g = "word_of_nat (length xs) :: u64"
  have g: "unat ?g = length xs" using assms(3) by (simp add: unat_of_nat_64)
  define b1 where "b1 = buffer_reserve b (buf_size b + ?g)"
  obtain d where d: "(if p < buf_size b1
      then mem_move (buf_data b1) (unat (p + ?g)) (unat p) (unat (buf_size b1 - p))
      else Some (buf_data b1)) = Some d"
    "length d = unat (buf_capacity b1)" "take (unat p) d = take (unat p) (buffer_cells b)"
    "take (unat (buf_size b) - unat p) (drop (unat p + unat ?g) d) = drop (unat p) (buffer_cells b)"
    "buf_size b1 = buf_size b" "unat (buf_size b) + unat ?g \<le> unat (buf_capacity b1)"
    "unat (buf_capacity b1) \<le> 2 ^ 63"
    using open_gap [OF assms(1,2), of ?g b1] assms(3) g b1_def by metis
  define d' where "d' = take (unat p) d @ map Some xs @ drop (unat p + length xs) d"
  have w: "mem_write d (unat p) (map Some xs) = Some d'"
    using d(2,6) g assms(2) by (simp add: d'_def mem_write_ok)
  define b' where "b' = b1\<lparr>buf_data := d', buf_size := buf_size b1 + ?g\<rparr>"
  have s: "unat (buf_size b1 + ?g) = unat (buf_size b) + length xs"
    using assms(3) g d(5) by (simp add: unat_add_64)
  have c: "length (take (unat p) (buffer_cells b)) = unat p"
    using assms(1,2) by (simp add: min_absorb2)
  have le: "unat p + length xs \<le> unat (buf_capacity b1)" using d(6) g assms(2) by linarith
  have l: "length d' = unat (buf_capacity b1)" using le d(2) by (simp add: d'_def min_absorb2)
  have "buffer_insert b p xs = Some b'"
    unfolding buffer_insert_def Let_def b1_def [symmetric] d(1) by (simp add: w b'_def)
  moreover have "buffer_inv b'"
    using d(6,7) g s l by (simp add: b'_def buffer_inv_def)
  moreover have "buffer_cells b' = take (unat p) (buffer_cells b) @ map Some xs @ drop (unat p) (buffer_cells b)"
  proof -
    have "buffer_cells b' = take (unat (buf_size b) + length xs) d'"
      using s by (simp add: b'_def buffer_cells_def)
    also have "\<dots> = take (unat p) d @ map Some xs
        @ take (unat (buf_size b) - unat p) (drop (unat p + length xs) d)"
      using le d(2) assms(2) by (simp add: d'_def min_absorb2)
    finally show ?thesis using d(3,4) g by simp
  qed
  ultimately show thesis using that s by (simp add: b'_def)
qed

text \<open>After \<open>i\<close> rounds of the filling loop, \<open>i\<close> copies stand at the position.\<close>

lemma fill_loop_ok:
  assumes "unat p + i * length xs \<le> length d" "length d \<le> 2 ^ 63"
  shows "fill_loop d p xs i =
    Some (take (unat p) d @ concat (replicate i (map Some xs)) @ drop (unat p + i * length xs) d)"
  using assms(1)
proof (induction i)
  case 0
  then show ?case by simp
next
  case (Suc i)
  let ?l = "length xs" and ?r = "concat (replicate i (map Some xs))"
  have le: "unat p + i * ?l + ?l \<le> length d" using Suc.prems by simp
  have lr: "length ?r = i * ?l" by (simp add: length_concat sum_list_replicate)
  have at: "unat (p + word_of_nat i * word_of_nat ?l) = unat p + i * ?l"
  proof -
    have "word_of_nat i * word_of_nat ?l = (word_of_nat (i * ?l) :: u64)" by simp
    moreover have "unat (word_of_nat (i * ?l) :: u64) = i * ?l"
      using le assms(2) by (intro unat_of_nat_64) simp
    ultimately show ?thesis using le assms(2) by (simp add: unat_add_64)
  qed
  have rep: "concat (replicate (Suc i) (map Some xs)) = ?r @ map Some xs"
  proof -
    have "replicate (Suc i) (map Some xs) = replicate i (map Some xs) @ [map Some xs]"
      by (simp add: replicate_append_same)
    then show ?thesis by (simp del: replicate_Suc)
  qed
  show ?case
    using Suc le lr by (simp add: at mem_write_ok rep add.commute add.left_commute min_absorb2
        del: replicate_Suc)
qed

lemma buffer_insert_fill_ok:
  assumes "buffer_inv b" "unat p \<le> unat (buf_size b)"
    "unat (buf_size b) + unat n * length xs \<le> 2 ^ 63" "length xs \<le> 2 ^ 63"
  obtains b' where "buffer_insert_fill b p n xs = Some b'" "buffer_inv b'"
    "buffer_cells b' = take (unat p) (buffer_cells b) @
       concat (replicate (unat n) (map Some xs)) @ drop (unat p) (buffer_cells b)"
proof -
  let ?l = "length xs" and ?g = "n * word_of_nat (length xs)" and ?r = "concat (replicate (unat n) (map Some xs))"
  have g: "unat ?g = unat n * ?l" using assms(3,4) by (simp add: unat_mult_64 unat_of_nat_64)
  have lr: "length ?r = unat n * ?l" by (simp add: length_concat sum_list_replicate)
  define b1 where "b1 = buffer_reserve b (buf_size b + ?g)"
  obtain d where d: "(if p < buf_size b1
      then mem_move (buf_data b1) (unat (p + ?g)) (unat p) (unat (buf_size b1 - p))
      else Some (buf_data b1)) = Some d"
    "length d = unat (buf_capacity b1)" "take (unat p) d = take (unat p) (buffer_cells b)"
    "take (unat (buf_size b) - unat p) (drop (unat p + unat ?g) d) = drop (unat p) (buffer_cells b)"
    "buf_size b1 = buf_size b" "unat (buf_size b) + unat ?g \<le> unat (buf_capacity b1)"
    "unat (buf_capacity b1) \<le> 2 ^ 63"
    using open_gap [OF assms(1,2), of ?g b1] assms(3) g b1_def by metis
  define d' where "d' = take (unat p) d @ ?r @ drop (unat p + unat n * ?l) d"
  have le: "unat p + unat n * ?l \<le> unat (buf_capacity b1)" using d(6) g assms(2) by linarith
  have w: "fill_loop d p xs (unat n) = Some d'"
    using fill_loop_ok [of p "unat n" xs d] le d(2,7) by (simp add: d'_def)
  define b' where "b' = b1\<lparr>buf_data := d', buf_size := buf_size b1 + ?g\<rparr>"
  have s: "unat (buf_size b1 + ?g) = unat (buf_size b) + unat n * ?l"
    using assms(3) g d(5) by (simp add: unat_add_64)
  have "length d' = unat (buf_capacity b1)" using le d(2) lr by (simp add: d'_def min_absorb2)
  then have "buffer_inv b'" using d(6,7) g s by (simp add: b'_def buffer_inv_def)
  moreover have "buffer_insert_fill b p n xs = Some b'"
    unfolding buffer_insert_fill_def Let_def b1_def [symmetric] d(1) by (simp add: w b'_def)
  moreover have "buffer_cells b' = take (unat p) (buffer_cells b) @ ?r @ drop (unat p) (buffer_cells b)"
  proof -
    have "buffer_cells b' = take (unat (buf_size b) + unat n * ?l) d'"
      using s by (simp add: b'_def buffer_cells_def)
    also have "\<dots> = take (unat p) d @ ?r
        @ take (unat (buf_size b) - unat p) (drop (unat p + unat n * ?l) d)"
      using le d(2) lr assms(2) by (simp add: d'_def min_absorb2)
    finally show ?thesis using d(3,4) g by simp
  qed
  ultimately show thesis using that by blast
qed

lemma buffer_erase_ok:
  assumes "buffer_inv b" "unat p + unat n \<le> unat (buf_size b)"
  obtains b' where "buffer_erase b p n = Some b'" "buffer_inv b'"
    "buffer_cells b' = take (unat p) (buffer_cells b) @ drop (unat p + unat n) (buffer_cells b)"
    "buf_size b' = buf_size b - n"
proof -
  let ?p = "unat p" and ?n = "unat n" and ?s = "unat (buf_size b)" and ?d = "buf_data b"
  have pn: "unat (p + n) = ?p + ?n" using assms(2) unat_less_64 [of "buf_size b"]
    by (intro unat_add_64) linarith
  have rest: "unat (buf_size b - p - n) = ?s - (?p + ?n)"
    using assms(2) by (simp add: unat_diff_64)
  have sn: "unat (buf_size b - n) = ?s - ?n" using assms(2) by (simp add: unat_diff_64)
  have le: "?s \<le> length ?d" using assms(1) by (simp add: buffer_inv_def)
  define d' where "d' = take ?p ?d @ take (?s - (?p + ?n)) (drop (?p + ?n) ?d)
      @ drop (?p + (?s - (?p + ?n))) ?d"
  define b' where "b' = b\<lparr>buf_data := d', buf_size := buf_size b - n\<rparr>"
  have m: "mem_move ?d ?p (unat (p + n)) (unat (buf_size b - p - n)) = Some d'"
    unfolding pn rest d'_def using le assms(2) by (intro mem_move_ok) linarith+
  have l: "length d' = length ?d" using mem_write_length m
    by (auto simp: mem_move_def split: Option.bind_splits)
  have "buffer_erase b p n = Some b'" by (simp add: buffer_erase_def m b'_def)
  moreover have "buffer_inv b'"
    using assms l sn by (auto simp: buffer_inv_def b'_def)
  moreover have "buffer_cells b' = take ?p (buffer_cells b) @ drop (?p + ?n) (buffer_cells b)"
    using le assms(2) by (simp add: b'_def buffer_cells_def sn d'_def drop_take min_absorb1 min_absorb2 add.commute)
  ultimately show thesis using that by (simp add: b'_def)
qed

section \<open>The contract of the buffer\<close>

text \<open>
  What the clients of the buffer rely on: contents as a list of cells, insertion and removal at
  a position inside of the contents, appending and dropping a prefix as special cases. The
  vector, the stream and the HTTP writer use these facts only.
\<close>

locale cell_store =
  fixes inv :: "'b \<Rightarrow> bool" and cells :: "'b \<Rightarrow> cell list" and used :: "'b \<Rightarrow> u64"
    and ins :: "'b \<Rightarrow> u64 \<Rightarrow> string \<Rightarrow> 'b option" and del :: "'b \<Rightarrow> u64 \<Rightarrow> u64 \<Rightarrow> 'b option"
  assumes used: "inv b \<Longrightarrow> unat (used b) = length (cells b)"
    and ins: "inv b \<Longrightarrow> unat p \<le> length (cells b) \<Longrightarrow> length (cells b) + length xs \<le> 2 ^ 63 \<Longrightarrow>
      \<exists>b'. ins b p xs = Some b' \<and> inv b' \<and>
        cells b' = take (unat p) (cells b) @ map Some xs @ drop (unat p) (cells b)"
    and del: "inv b \<Longrightarrow> unat p + unat n \<le> length (cells b) \<Longrightarrow>
      \<exists>b'. del b p n = Some b' \<and> inv b' \<and>
        cells b' = take (unat p) (cells b) @ drop (unat p + unat n) (cells b)"
begin

lemma append:
  assumes "inv b" "length (cells b) + length xs \<le> 2 ^ 63"
  shows "\<exists>b'. ins b (used b) xs = Some b' \<and> inv b' \<and> cells b' = cells b @ map Some xs"
  using ins [of b "used b" xs] used [of b] assms by simp

lemma consume:
  assumes "inv b" "unat n \<le> length (cells b)"
  shows "\<exists>b'. del b 0 n = Some b' \<and> inv b' \<and> cells b' = drop (unat n) (cells b)"
  using del [of b 0 n] assms by simp

lemma ins_del:
  assumes "inv b" "unat p \<le> length (cells b)" "length (cells b) + length xs \<le> 2 ^ 63"
    "ins b p xs = Some b1" "unat n = length xs"
  shows "\<exists>b2. del b1 p n = Some b2 \<and> inv b2 \<and> cells b2 = cells b"
proof -
  from ins [OF assms(1-3)] assms(4)
  have b1: "inv b1" "cells b1 = take (unat p) (cells b) @ map Some xs @ drop (unat p) (cells b)"
    by auto
  with del [of b1 p n] assms(2,5) show ?thesis by (auto simp: min_absorb2)
qed

text \<open>Contents that are objects of one width: insertion and removal at a multiple of it.\<close>

lemma ins_object:
  assumes "inv b" "cells b = concat os" "\<And>x. x \<in> set os \<Longrightarrow> length x = k"
    "i \<le> length os" "unat p = i * k" "length (cells b) + length xs \<le> 2 ^ 63"
  shows "\<exists>b'. ins b p xs = Some b' \<and> inv b' \<and>
    cells b' = concat (take i os) @ map Some xs @ concat (drop i os)"
proof -
  have "length (concat (take i os)) = i * k"
    using assms(3,4) by (subst length_concat_same [where k = k]) (auto dest: in_set_takeD)
  moreover have "cells b = concat (take i os) @ concat (drop i os)"
    by (metis assms(2) append_take_drop_id concat_append)
  ultimately show ?thesis using ins [OF assms(1), of p xs] assms(5,6) by auto
qed

lemma del_objects:
  assumes "inv b" "cells b = concat os" "\<And>x. x \<in> set os \<Longrightarrow> length x = k"
    "i \<le> j" "j \<le> length os" "unat p = i * k" "unat n = (j - i) * k"
  shows "\<exists>b'. del b p n = Some b' \<and> inv b' \<and> cells b' = concat (take i os @ drop j os)"
proof -
  have l: "length (concat (take m os)) = m * k" if "m \<le> length os" for m
    using assms(3) that by (subst length_concat_same [where k = k]) (auto dest: in_set_takeD)
  have c: "cells b = concat (take m os) @ concat (drop m os)" for m
    by (metis assms(2) append_take_drop_id concat_append)
  have j: "unat p + unat n = j * k"
    using assms(4,6,7) by (simp add: add_mult_distrib [symmetric])
  then have "unat p + unat n \<le> length (cells b)" using l [of j] c [of j] assms(5) by simp
  moreover have "take (unat p) (cells b) = concat (take i os)"
    using l [of i] c [of i] assms(4,5,6) by simp
  moreover have "drop (unat p + unat n) (cells b) = concat (drop j os)"
    using l [of j] c [of j] assms(5) j by simp
  ultimately show ?thesis using del [OF assms(1), of p n] by auto
qed

end

interpretation store: cell_store buffer_inv buffer_cells buffer_size buffer_insert buffer_erase
proof (unfold_locales, goal_cases)
  case (1 b)
  then show ?case by (simp add: buffer_size_def)
next
  case (2 b p xs)
  then show ?case by (metis buffer_insert_ok length_buffer_cells)
next
  case (3 b p n)
  then show ?case by (metis buffer_erase_ok length_buffer_cells)
qed

section \<open>Histories of operations\<close>

datatype buffer_call =
    Buf_insert u64 string | Buf_fill u64 u64 string | Buf_erase u64 u64 | Buf_reserve u64 | Buf_resize u64 | Buf_compact | Buf_clear

definition buffer_step :: "buffer \<Rightarrow> buffer_call \<Rightarrow> buffer option" where
  "buffer_step b c = (case c of
     Buf_insert p xs \<Rightarrow> buffer_insert b p xs
   | Buf_fill p n xs \<Rightarrow> buffer_insert_fill b p n xs
   | Buf_erase p n \<Rightarrow> buffer_erase b p n
   | Buf_reserve n \<Rightarrow> Some (buffer_reserve b n)
   | Buf_resize n \<Rightarrow> Some (buffer_resize b n)
   | Buf_compact \<Rightarrow> Some (buffer_compact b)
   | Buf_clear \<Rightarrow> Some (buffer_clear b))"

primrec buffer_run :: "buffer \<Rightarrow> buffer_call list \<Rightarrow> buffer option" where
  "buffer_run b [] = Some b"
| "buffer_run b (c # cs) = do { b \<leftarrow> buffer_step b c; buffer_run b cs }"

text \<open>
  The same history on a list of cells. An operation outside of its contract (a position behind
  the contents, contents of more than \<open>2^63\<close> bytes) has no result; neither has a resize that
  would uncover cells nobody has written.
\<close>

definition cells_step :: "cell list \<Rightarrow> buffer_call \<Rightarrow> cell list option" where
  "cells_step cs c = (case c of
     Buf_insert p xs \<Rightarrow> if unat p \<le> length cs \<and> length cs + length xs \<le> 2 ^ 63
       then Some (take (unat p) cs @ map Some xs @ drop (unat p) cs) else None
   | Buf_fill p n xs \<Rightarrow> if unat p \<le> length cs \<and> length xs \<le> 2 ^ 63 \<and> length cs + unat n * length xs \<le> 2 ^ 63
       then Some (take (unat p) cs @ concat (replicate (unat n) (map Some xs)) @ drop (unat p) cs) else None
   | Buf_erase p n \<Rightarrow> if unat p + unat n \<le> length cs
       then Some (take (unat p) cs @ drop (unat p + unat n) cs) else None
   | Buf_reserve n \<Rightarrow> if unat n \<le> 2 ^ 63 then Some cs else None
   | Buf_resize n \<Rightarrow> if unat n \<le> length cs then Some (take (unat n) cs) else None
   | Buf_compact \<Rightarrow> Some cs
   | Buf_clear \<Rightarrow> Some [])"

primrec cells_run :: "cell list \<Rightarrow> buffer_call list \<Rightarrow> cell list option" where
  "cells_run cs [] = Some cs"
| "cells_run cs (c # calls) = do { cs \<leftarrow> cells_step cs c; cells_run cs calls }"

lemma buffer_step_ok:
  assumes b: "buffer_inv b" and spec: "cells_step (buffer_cells b) c = Some cs"
  shows "\<exists>b'. buffer_step b c = Some b' \<and> buffer_inv b' \<and> buffer_cells b' = cs"
proof (cases c)
  case (Buf_insert p xs)
  with spec have *: "unat p \<le> length (buffer_cells b)" "length (buffer_cells b) + length xs \<le> 2 ^ 63"
    "cs = take (unat p) (buffer_cells b) @ map Some xs @ drop (unat p) (buffer_cells b)"
    by (simp_all add: cells_step_def split: if_splits)
  from store.ins [OF b *(1,2)] *(3) Buf_insert show ?thesis by (auto simp: buffer_step_def)
next
  case (Buf_fill p n xs)
  with spec b have *: "unat p \<le> unat (buf_size b)" "unat (buf_size b) + unat n * length xs \<le> 2 ^ 63"
    "length xs \<le> 2 ^ 63"
    "cs = take (unat p) (buffer_cells b) @ concat (replicate (unat n) (map Some xs)) @ drop (unat p) (buffer_cells b)"
    by (simp_all add: cells_step_def split: if_splits)
  obtain b' where "buffer_insert_fill b p n xs = Some b'" "buffer_inv b'" "buffer_cells b' = cs"
    unfolding *(4) by (rule buffer_insert_fill_ok [OF b *(1-3)])
  then show ?thesis using Buf_fill by (simp add: buffer_step_def)
next
  case (Buf_erase p n)
  with spec have *: "unat p + unat n \<le> length (buffer_cells b)"
    "cs = take (unat p) (buffer_cells b) @ drop (unat p + unat n) (buffer_cells b)"
    by (simp_all add: cells_step_def split: if_splits)
  from store.del [OF b *(1)] *(2) Buf_erase show ?thesis by (auto simp: buffer_step_def)
next
  case (Buf_reserve n)
  with spec buffer_reserve_ok [OF b, of n] show ?thesis
    by (simp add: cells_step_def buffer_step_def split: if_splits)
next
  case (Buf_resize n)
  with spec b have *: "unat n \<le> unat (buf_size b)" "cs = take (unat n) (buffer_cells b)"
    by (simp_all add: cells_step_def split: if_splits)
  then have "unat n \<le> 2 ^ 63" using b by (simp add: buffer_inv_def)
  from buffer_resize_ok [OF b this] have r: "buffer_inv (buffer_resize b n)"
    "take (unat (buf_size b)) (buffer_cells (buffer_resize b n)) = cs" "buf_size (buffer_resize b n) = n"
    by (simp_all add: *(2))
  then have "buffer_cells (buffer_resize b n) = cs" using *(1) by simp
  with r(1) Buf_resize show ?thesis by (simp add: buffer_step_def)
next
  case Buf_compact
  with spec buffer_compact_ok [OF b] show ?thesis by (simp add: cells_step_def buffer_step_def)
next
  case Buf_clear
  with spec show ?thesis by (simp add: cells_step_def buffer_step_def)
qed

lemma buffer_run_ok:
  assumes "buffer_inv b" "cells_run (buffer_cells b) calls = Some cs"
  shows "\<exists>b'. buffer_run b calls = Some b' \<and> buffer_inv b' \<and> buffer_cells b' = cs"
  using assms
proof (induction calls arbitrary: b)
  case (Cons c calls)
  then obtain c1 where "cells_step (buffer_cells b) c = Some c1" "cells_run c1 calls = Some cs"
    by (auto split: Option.bind_splits)
  with buffer_step_ok [OF Cons.prems(1)] Cons.IH show ?case by fastforce
qed simp

section \<open>Properties\<close>

text \<open>
  C25. Every history of buffer operations that starts from a constructed buffer and keeps their
  contracts runs without an access outside of the buffer's block and without wrap-around, keeps
  the invariant (the block is \<open>capacity\<close> long and \<open>size \<le> capacity\<close>), and leaves the contents the
  same history of list operations gives.
\<close>

theorem buffer_history:
  assumes "cells_run [] calls = Some cs"
  shows "\<exists>b. buffer_run buffer_construct calls = Some b \<and> buffer_inv b \<and> buffer_cells b = cs"
  using buffer_run_ok [of buffer_construct calls cs] assms by simp

lemma buffer_history_witness:
  "\<exists>b. buffer_run buffer_construct
      [Buf_insert 0 ''hello'', Buf_insert 2 ''xy'', Buf_fill 0 3 ''-'', Buf_erase 1 2, Buf_resize 6, Buf_compact] = Some b \<and>
    buffer_inv b \<and> buffer_cells b = map Some ''-hexyl''"
  by (rule buffer_history) (simp add: cells_step_def)

text \<open>
  \<open>buffer_roundup\<close> gives the least power of two that is not less than its argument, for every
  argument from 1 to \<open>2^63\<close>.
\<close>

theorem buffer_roundup_power:
  assumes "0 < unat c" "unat c \<le> 2 ^ 63"
  shows "\<exists>j. unat (buffer_roundup c) = 2 ^ j \<and> c \<le> buffer_roundup c \<and> (\<forall>i. unat c \<le> 2 ^ i \<longrightarrow> j \<le> i)"
proof -
  obtain j where j: "unat (buffer_roundup c) = 2 ^ j" "unat c \<le> 2 ^ j" "j = 0 \<or> 2 ^ (j - 1) < unat c"
    using smear_power_of_two [OF assms] buffer_roundup_smear by metis
  have "j \<le> i" if "unat c \<le> 2 ^ i" for i
  proof (rule ccontr)
    assume "\<not> j \<le> i"
    then have "(2::nat) ^ i \<le> 2 ^ (j - 1)" "j \<noteq> 0" by (auto intro: power_increasing)
    then show False using that j(3) by linarith
  qed
  with j show ?thesis by (auto simp: word_le_nat_alt)
qed

lemma buffer_roundup_power_witness:
  "\<exists>j. unat (buffer_roundup 4097) = 2 ^ j \<and> 4097 \<le> buffer_roundup 4097 \<and> (\<forall>i. unat (4097 :: u64) \<le> 2 ^ i \<longrightarrow> j \<le> i)"
  by (rule buffer_roundup_power) simp_all

end
