(* ===== verification/Vector.thy ===== *)
theory Vector
  imports Buffer
begin

text \<open>
  \<^verbatim>\<open>src/reactor/vector.c\<close>: objects of one width side by side in a buffer. A vector represents a
  list of objects (\<open>vector_rep\<close>), and every operation refines the list operation. The release
  callback is observed: an operation returns the objects it was called on, in order; the null
  callback is \<^term>\<open>False\<close>. A zero \<open>object_size\<close> makes \<open>vector_size\<close> a division by zero.
\<close>

record vector =
  vec_buffer :: buffer
  object_size :: u64

definition vector_construct :: "u64 \<Rightarrow> vector" where
  "vector_construct width = \<lparr>vec_buffer = buffer_construct, object_size = width\<rparr>"

definition vector_size :: "vector \<Rightarrow> u64 option" where
  "vector_size v = (if object_size v = 0 then None
     else Some (buffer_size (vec_buffer v) div object_size v))"

definition vector_capacity :: "vector \<Rightarrow> u64 option" where
  "vector_capacity v = (if object_size v = 0 then None
     else Some (buffer_capacity (vec_buffer v) div object_size v))"

definition vector_empty :: "vector \<Rightarrow> bool option" where
  "vector_empty v = map_option (\<lambda>n. n = 0) (vector_size v)"

definition vector_reserve :: "vector \<Rightarrow> u64 \<Rightarrow> vector" where
  "vector_reserve v capacity =
     v\<lparr>vec_buffer := buffer_reserve (vec_buffer v) (capacity * object_size v)\<rparr>"

definition vector_shrink_to_fit :: "vector \<Rightarrow> vector" where
  "vector_shrink_to_fit v = v\<lparr>vec_buffer := buffer_compact (vec_buffer v)\<rparr>"

text \<open>The accessors return addresses, that is offsets into the buffer's block.\<close>

definition vector_at :: "vector \<Rightarrow> u64 \<Rightarrow> u64" where
  "vector_at v position = position * object_size v"

definition vector_data :: "vector \<Rightarrow> u64" where "vector_data v = 0"

definition vector_front :: "vector \<Rightarrow> u64" where "vector_front v = vector_data v"

definition vector_back :: "vector \<Rightarrow> u64" where
  "vector_back v = buffer_size (vec_buffer v) - object_size v"

definition object_at :: "vector \<Rightarrow> u64 \<Rightarrow> cell list option" where
  "object_at v p = mem_read (buffer_data (vec_buffer v)) (unat p) (unat (object_size v))"

text \<open>An object is copied from a pointer: as many bytes as the objects have, of those that are there.\<close>

definition vector_insert :: "vector \<Rightarrow> u64 \<Rightarrow> string \<Rightarrow> vector option" where
  "vector_insert v position object =
     (if unat (object_size v) \<le> length object
      then map_option (\<lambda>b. v\<lparr>vec_buffer := b\<rparr>)
        (buffer_insert (vec_buffer v) (position * object_size v) (take (unat (object_size v)) object))
      else None)"

definition vector_insert_range :: "vector \<Rightarrow> u64 \<Rightarrow> string \<Rightarrow> vector option" where
  "vector_insert_range v position objects = map_option (\<lambda>b. v\<lparr>vec_buffer := b\<rparr>)
     (buffer_insert (vec_buffer v) (position * object_size v) objects)"

definition vector_insert_fill :: "vector \<Rightarrow> u64 \<Rightarrow> u64 \<Rightarrow> string \<Rightarrow> vector option" where
  "vector_insert_fill v position count object =
     (if unat (object_size v) \<le> length object
      then map_option (\<lambda>b. v\<lparr>vec_buffer := b\<rparr>)
        (buffer_insert_fill (vec_buffer v) (position * object_size v) count (take (unat (object_size v)) object))
      else None)"

definition vector_erase :: "vector \<Rightarrow> u64 \<Rightarrow> bool \<Rightarrow> (vector \<times> cell list list) option" where
  "vector_erase v position release =
     Option.bind (if release then map_option (\<lambda>x. [x]) (object_at v (vector_at v position)) else Some [])
       (\<lambda>released. map_option (\<lambda>b. (v\<lparr>vec_buffer := b\<rparr>, released))
          (buffer_erase (vec_buffer v) (position * object_size v) (object_size v)))"

primrec release_loop :: "vector \<Rightarrow> u64 \<Rightarrow> nat \<Rightarrow> cell list list option" where
  "release_loop v i 0 = Some []"
| "release_loop v i (Suc n) =
     Option.bind (object_at v (vector_at v i)) (\<lambda>x. map_option ((#) x) (release_loop v (i + 1) n))"

definition vector_erase_range ::
    "vector \<Rightarrow> u64 \<Rightarrow> u64 \<Rightarrow> bool \<Rightarrow> (vector \<times> cell list list) option" where
  "vector_erase_range v i j release =
     Option.bind (if release then release_loop v i (unat j - unat i) else Some [])
       (\<lambda>released. map_option (\<lambda>b. (v\<lparr>vec_buffer := b\<rparr>, released))
          (buffer_erase (vec_buffer v) (i * object_size v) ((j - i) * object_size v)))"

definition vector_clear :: "vector \<Rightarrow> bool \<Rightarrow> (vector \<times> cell list list) option" where
  "vector_clear v release =
     Option.bind (vector_size v) (\<lambda>n.
     Option.bind (vector_erase_range v 0 n release) (\<lambda>(v, released).
     Some (v\<lparr>vec_buffer := buffer_clear (vec_buffer v)\<rparr>, released)))"

definition vector_destruct :: "vector \<Rightarrow> bool \<Rightarrow> (vector \<times> cell list list) option" where
  "vector_destruct v release = vector_clear v release"

definition vector_push_back :: "vector \<Rightarrow> string \<Rightarrow> vector option" where
  "vector_push_back v object =
     (if unat (object_size v) \<le> length object
      then map_option (\<lambda>b. v\<lparr>vec_buffer := b\<rparr>)
        (buffer_insert (vec_buffer v) (buffer_size (vec_buffer v)) (take (unat (object_size v)) object))
      else None)"

definition vector_pop_back :: "vector \<Rightarrow> bool \<Rightarrow> (vector \<times> cell list list) option" where
  "vector_pop_back v release = Option.bind (vector_size v) (\<lambda>n. vector_erase v (n - 1) release)"

section \<open>Representation\<close>

definition vector_rep :: "vector \<Rightarrow> cell list list \<Rightarrow> bool" where
  "vector_rep v os \<longleftrightarrow> buffer_inv (vec_buffer v) \<and> 0 < unat (object_size v) \<and>
     (\<forall>x \<in> set os. length x = unat (object_size v)) \<and> buffer_cells (vec_buffer v) = concat os"

lemma vector_repD:
  assumes "vector_rep v os"
  shows "buffer_inv (vec_buffer v)" "0 < unat (object_size v)"
    "x \<in> set os \<Longrightarrow> length x = unat (object_size v)" "buffer_cells (vec_buffer v) = concat os"
    "unat (buf_size (vec_buffer v)) = length os * unat (object_size v)"
    "length os * unat (object_size v) \<le> 2 ^ 63"
proof -
  show r: "buffer_inv (vec_buffer v)" "0 < unat (object_size v)"
    "x \<in> set os \<Longrightarrow> length x = unat (object_size v)" "buffer_cells (vec_buffer v) = concat os" for x
    using assms by (auto simp: vector_rep_def)
  have "length (concat os) = length os * unat (object_size v)"
    using r(3) by (rule length_concat_same)
  then show "unat (buf_size (vec_buffer v)) = length os * unat (object_size v)"
    using r(1,4) by (metis length_buffer_cells)
  then show "length os * unat (object_size v) \<le> 2 ^ 63"
    using r(1) by (simp add: buffer_inv_def)
qed

lemma vector_offset:
  assumes "vector_rep v os" "i \<le> length os"
  shows "unat (word_of_nat i * object_size v) = i * unat (object_size v)"
proof -
  have "i * unat (object_size v) \<le> 9223372036854775808"
    using order.trans [OF mult_le_mono1 [OF assms(2)] vector_repD(6) [OF assms(1)]] by simp
  moreover have "i \<le> i * unat (object_size v)" using vector_repD(2) [OF assms(1)] by simp
  ultimately have "i < 18446744073709551616" "i * unat (object_size v) < 18446744073709551616"
    by linarith+
  then show ?thesis by (simp only: unat_mult_64 unat_of_nat_64)
qed

lemma vector_size_ok: "vector_rep v os \<Longrightarrow> vector_size v = Some (word_of_nat (length os))"
proof -
  assume r: "vector_rep v os"
  have "unat (buffer_size (vec_buffer v) div object_size v) = length os"
    using vector_repD(2,5) [OF r] by (simp add: unat_div buffer_size_def)
  then have "word_of_nat (unat (buffer_size (vec_buffer v) div object_size v)) = (word_of_nat (length os) :: u64)"
    by (simp only:)
  then have "buffer_size (vec_buffer v) div object_size v = word_of_nat (length os)"
    by (simp only: word_of_nat_unat_64)
  then show ?thesis using vector_repD(2) [OF r] by (auto simp: vector_size_def)
qed

lemma vector_insert_ok:
  assumes "vector_rep v os" "i \<le> length os" "length x = unat (object_size v)"
    "Suc (length os) * unat (object_size v) \<le> 2 ^ 63"
  obtains v' where "vector_insert v (word_of_nat i) x = Some v'"
    "vector_rep v' (take i os @ [map Some x] @ drop i os)"
proof -
  let ?b = "vec_buffer v"
  note D = vector_repD [OF assms(1)]
  have "length (buffer_cells ?b) + length x \<le> 2 ^ 63"
    using D(1,5) assms(3,4) by simp
  then obtain b' where b': "buffer_insert ?b (word_of_nat i * object_size v) x = Some b'"
    "buffer_inv b'" "buffer_cells b' = concat (take i os) @ map Some x @ concat (drop i os)"
    using store.ins_object [OF D(1,4), of "unat (object_size v)" i "word_of_nat i * object_size v" x]
      D(3) assms(2) vector_offset [OF assms(1,2)] by auto
  show thesis
  proof (rule that)
    show "vector_insert v (word_of_nat i) x = Some (v\<lparr>vec_buffer := b'\<rparr>)"
      using assms(3) by (simp add: vector_insert_def b')
    show "vector_rep (v\<lparr>vec_buffer := b'\<rparr>) (take i os @ [map Some x] @ drop i os)"
      using b' D(2,3) assms(3) by (auto simp: vector_rep_def dest: in_set_takeD in_set_dropD)
  qed
qed

lemma vector_push_back_ok:
  assumes "vector_rep v os" "length x = unat (object_size v)"
    "Suc (length os) * unat (object_size v) \<le> 2 ^ 63"
  obtains v' where "vector_push_back v x = Some v'" "vector_rep v' (os @ [map Some x])"
proof -
  let ?b = "vec_buffer v"
  note D = vector_repD [OF assms(1)]
  have "length (buffer_cells ?b) + length x \<le> 2 ^ 63" using D(1,5) assms(2,3) by simp
  then obtain b' where b': "buffer_insert ?b (buffer_size ?b) x = Some b'" "buffer_inv b'"
    "buffer_cells b' = concat os @ map Some x"
    using store.append [OF D(1), of x] D(4) by auto
  show thesis
  proof (rule that)
    show "vector_push_back v x = Some (v\<lparr>vec_buffer := b'\<rparr>)"
      using assms(2) by (simp add: vector_push_back_def b')
    show "vector_rep (v\<lparr>vec_buffer := b'\<rparr>) (os @ [map Some x])"
      using b' D(2,3) assms(2) by (auto simp: vector_rep_def)
  qed
qed

lemma object_at_ok:
  assumes "vector_rep v os" "i < length os"
  shows "object_at v (vector_at v (word_of_nat i)) = Some (os ! i)"
proof -
  let ?k = "unat (object_size v)" and ?b = "vec_buffer v"
  note D = vector_repD [OF assms(1)]
  have off: "unat (vector_at v (word_of_nat i)) = i * ?k"
    using vector_offset [OF assms(1), of i] assms(2) by (simp add: vector_at_def)
  have le: "i * ?k + ?k \<le> unat (buf_size ?b)"
    using mult_le_mono1 [of "Suc i" "length os" ?k] assms(2) D(5) by simp
  have os: "os = take i os @ os ! i # drop (Suc i) os" using assms(2) by (rule id_take_nth_drop)
  have l: "length (concat (take i os)) = i * ?k"
    using D(3) assms(2) by (subst length_concat_same [where k = ?k]) (auto dest: in_set_takeD)
  have "take ?k (drop (i * ?k) (concat os)) = os ! i"
    using l D(3) assms(2) by (subst os) simp
  then have "take ?k (drop (i * ?k) (buffer_cells ?b)) = os ! i" by (simp add: D(4))
  moreover have "take ?k (drop (i * ?k) (buffer_cells ?b)) = take ?k (drop (i * ?k) (buf_data ?b))"
    using le by (simp add: buffer_cells_def drop_take min_absorb1)
  moreover have "i * ?k + ?k \<le> length (buf_data ?b)"
    using le D(1) by (simp add: buffer_inv_def)
  ultimately show ?thesis by (simp add: object_at_def off buffer_data_def mem_read_ok)
qed

lemma release_loop_ok:
  assumes "vector_rep v os" "i + n \<le> length os"
  shows "release_loop v (word_of_nat i) n = Some (take n (drop i os))"
  using assms(2)
proof (induction n arbitrary: i)
  case (Suc n)
  have "(word_of_nat i :: u64) + 1 = word_of_nat (Suc i)" by simp
  moreover have "release_loop v (word_of_nat (Suc i)) n = Some (take n (drop (Suc i) os))"
    using Suc.prems by (intro Suc.IH) simp
  moreover have "drop i os = os ! i # drop (Suc i) os"
    using Suc.prems by (simp add: Cons_nth_drop_Suc)
  ultimately show ?case
    using object_at_ok [OF assms(1), of i] Suc.prems by (simp del: of_nat_Suc)
qed simp

lemma vector_erase_range_ok:
  assumes "vector_rep v os" "i \<le> j" "j \<le> length os"
  obtains v' where
    "vector_erase_range v (word_of_nat i) (word_of_nat j) release =
       Some (v', if release then take (j - i) (drop i os) else [])"
    "vector_rep v' (take i os @ drop j os)"
proof -
  let ?b = "vec_buffer v" and ?k = "unat (object_size v)"
  note D = vector_repD [OF assms(1)]
  have j64: "j < 18446744073709551616"
  proof -
    have "length os \<le> length os * ?k" using D(2) by simp
    moreover have "length os * ?k \<le> 9223372036854775808" using D(6) by simp
    ultimately show ?thesis using assms(3) by linarith
  qed
  then have u: "unat (word_of_nat i :: u64) = i" "unat (word_of_nat j :: u64) = j"
    using assms(2) by (simp_all add: unat_of_nat_64)
  have ji: "(word_of_nat j :: u64) - word_of_nat i = word_of_nat (j - i)"
    using assms(2) by simp
  obtain b' where b': "buffer_erase ?b (word_of_nat i * object_size v)
      (word_of_nat (j - i) * object_size v) = Some b'" "buffer_inv b'"
    "buffer_cells b' = concat (take i os @ drop j os)"
    using store.del_objects [OF D(1,4), of ?k i j "word_of_nat i * object_size v"
        "word_of_nat (j - i) * object_size v"] D(3) assms(2,3)
      vector_offset [OF assms(1), of i] vector_offset [OF assms(1), of "j - i"] by auto
  show thesis
  proof (rule that)
    show "vector_erase_range v (word_of_nat i) (word_of_nat j) release =
       Some (v\<lparr>vec_buffer := b'\<rparr>, if release then take (j - i) (drop i os) else [])"
      using release_loop_ok [OF assms(1), of i "j - i"] assms(2,3)
      unfolding vector_erase_range_def u ji b'(1) by simp
    show "vector_rep (v\<lparr>vec_buffer := b'\<rparr>) (take i os @ drop j os)"
      using b' D(2,3) by (auto simp: vector_rep_def dest: in_set_takeD in_set_dropD)
  qed
qed

lemma vector_erase_ok:
  assumes "vector_rep v os" "i < length os"
  obtains v' where
    "vector_erase v (word_of_nat i) release = Some (v', if release then [os ! i] else [])"
    "vector_rep v' (take i os @ drop (Suc i) os)"
proof -
  let ?b = "vec_buffer v" and ?k = "unat (object_size v)"
  note D = vector_repD [OF assms(1)]
  obtain b' where b': "buffer_erase ?b (word_of_nat i * object_size v) (object_size v) = Some b'"
    "buffer_inv b'" "buffer_cells b' = concat (take i os @ drop (Suc i) os)"
    using store.del_objects [OF D(1,4), of ?k i "Suc i" "word_of_nat i * object_size v" "object_size v"]
      D(3) assms(2) vector_offset [OF assms(1), of i] by auto
  show thesis
  proof (rule that)
    show "vector_erase v (word_of_nat i) release =
        Some (v\<lparr>vec_buffer := b'\<rparr>, if release then [os ! i] else [])"
      using object_at_ok [OF assms] by (simp add: vector_erase_def b')
    show "vector_rep (v\<lparr>vec_buffer := b'\<rparr>) (take i os @ drop (Suc i) os)"
      using b' D(2,3) by (auto simp: vector_rep_def dest: in_set_takeD in_set_dropD)
  qed
qed

lemma vector_pop_back_ok:
  assumes "vector_rep v (os @ [x])"
  obtains v' where "vector_pop_back v release = Some (v', if release then [x] else [])"
    "vector_rep v' os"
proof -
  have m: "(word_of_nat (Suc (length os)) :: u64) - 1 = word_of_nat (length os)" by simp
  have lt: "length os < length (os @ [x])" by simp
  obtain v' where v': "vector_erase v (word_of_nat (length os)) release =
      Some (v', if release then [(os @ [x]) ! length os] else [])"
    "vector_rep v' (take (length os) (os @ [x]) @ drop (Suc (length os)) (os @ [x]))"
    by (rule vector_erase_ok [OF assms lt, of release])
  show thesis
  proof (rule that)
    show "vector_pop_back v release = Some (v', if release then [x] else [])"
      unfolding vector_pop_back_def vector_size_ok [OF assms] length_append_singleton
      by (simp add: m v'(1) nth_append del: of_nat_Suc)
    show "vector_rep v' os" using v'(2) by simp
  qed
qed

lemma vector_clear_ok:
  assumes "vector_rep v os"
  obtains v' where "vector_clear v release = Some (v', if release then os else [])" "vector_rep v' []"
proof -
  obtain v1 where v1: "vector_erase_range v (word_of_nat 0) (word_of_nat (length os)) release =
      Some (v1, if release then take (length os - 0) (drop 0 os) else [])"
    "vector_rep v1 (take 0 os @ drop (length os) os)"
    by (rule vector_erase_range_ok [OF assms le0 order.refl])
  show thesis
  proof (rule that)
    show "vector_clear v release =
        Some (v1\<lparr>vec_buffer := buffer_clear (vec_buffer v1)\<rparr>, if release then os else [])"
      using v1(1) by (simp add: vector_clear_def vector_size_ok [OF assms])
    show "vector_rep (v1\<lparr>vec_buffer := buffer_clear (vec_buffer v1)\<rparr>) []"
      using v1(2) by (simp add: vector_rep_def)
  qed
qed

lemma vector_construct_ok: "0 < n \<Longrightarrow> vector_rep (vector_construct n) []"
  by (simp add: vector_rep_def vector_construct_def word_less_nat_alt)

text \<open>A range of objects is inserted as their concatenation, copies of one object by filling.\<close>

lemma concat_take:
  assumes "vector_rep v os" "i \<le> length os"
  shows "length (concat (take i os)) = i * unat (object_size v)"
    "concat os = concat (take i os) @ concat (drop i os)"
proof -
  show "length (concat (take i os)) = i * unat (object_size v)"
    using vector_repD(3) [OF assms(1)] assms(2) length_concat_same [of "take i os" "unat (object_size v)"]
    by (auto dest: in_set_takeD)
  show "concat os = concat (take i os) @ concat (drop i os)"
    by (metis append_take_drop_id concat_append)
qed

lemma vector_insert_range_ok:
  assumes "vector_rep v os" "i \<le> length os" "\<forall>x \<in> set xs. length x = unat (object_size v)"
    "(length os + length xs) * unat (object_size v) \<le> 2 ^ 63"
  shows "\<exists>v'. vector_insert_range v (word_of_nat i) (concat xs) = Some v' \<and>
    vector_rep v' (take i os @ map (map Some) xs @ drop i os)"
proof -
  let ?b = "vec_buffer v"
  note D = vector_repD [OF assms(1)] and t = concat_take [OF assms(1,2)] and o = vector_offset [OF assms(1,2)]
  have l: "length (concat xs) = length xs * unat (object_size v)"
    using assms(3) by (intro length_concat_same) blast
  have p: "unat (word_of_nat i * object_size v) \<le> length (buffer_cells ?b)"
    using D(1,5) assms(2) by (simp add: o)
  have s: "length (buffer_cells ?b) + length (concat xs) \<le> 2 ^ 63"
    using D(1,5) assms(4) l by (simp add: add_mult_distrib)
  obtain b' where b': "buffer_insert ?b (word_of_nat i * object_size v) (concat xs) = Some b'"
    "buffer_inv b'" "buffer_cells b' = concat (take i os) @ map Some (concat xs) @ concat (drop i os)"
    using store.ins [OF D(1) p s] t by (auto simp: D(4) o)
  then show ?thesis
    using D(2,3) assms(3)
    by (auto simp: vector_insert_range_def vector_rep_def map_concat dest: in_set_takeD in_set_dropD)
qed

lemma vector_insert_fill_ok:
  assumes "vector_rep v os" "i \<le> length os" "length x = unat (object_size v)" "unat (object_size v) \<le> 2 ^ 63"
    "(length os + unat n) * unat (object_size v) \<le> 2 ^ 63"
  shows "\<exists>v'. vector_insert_fill v (word_of_nat i) n x = Some v' \<and>
    vector_rep v' (take i os @ replicate (unat n) (map Some x) @ drop i os)"
proof -
  let ?b = "vec_buffer v"
  note D = vector_repD [OF assms(1)] and t = concat_take [OF assms(1,2)] and o = vector_offset [OF assms(1,2)]
  have p: "unat (word_of_nat i * object_size v) \<le> unat (buf_size ?b)"
    using D(5) assms(2) by (simp add: o)
  have s: "unat (buf_size ?b) + unat n * length x \<le> 2 ^ 63" "length x \<le> 2 ^ 63"
    using D(5) assms(3,4,5) by (simp_all add: add_mult_distrib)
  obtain b' where b': "buffer_insert_fill ?b (word_of_nat i * object_size v) n x = Some b'" "buffer_inv b'"
    "buffer_cells b' = take (unat (word_of_nat i * object_size v)) (buffer_cells ?b) @
       concat (replicate (unat n) (map Some x)) @ drop (unat (word_of_nat i * object_size v)) (buffer_cells ?b)"
    by (rule buffer_insert_fill_ok [OF D(1) p s])
  then have "buffer_cells b' = concat (take i os) @ concat (replicate (unat n) (map Some x)) @ concat (drop i os)"
    using t by (simp add: D(4) o)
  then show ?thesis
    using b'(1,2) D(2,3) assms(3) by (auto simp: vector_insert_fill_def vector_rep_def dest: in_set_takeD in_set_dropD)
qed

lemma vector_reserve_ok:
  assumes "vector_rep v os" "unat n * unat (object_size v) \<le> 2 ^ 63"
  shows "vector_rep (vector_reserve v n) os"
proof -
  have "unat (n * object_size v) = unat n * unat (object_size v)" using assms(2) by (intro unat_mult_64) simp
  with buffer_reserve_ok [of "vec_buffer v" "n * object_size v"] assms show ?thesis
    by (simp add: vector_rep_def vector_reserve_def)
qed

lemma vector_shrink_ok: "vector_rep v os \<Longrightarrow> vector_rep (vector_shrink_to_fit v) os"
  using buffer_compact_ok [of "vec_buffer v"] by (simp add: vector_rep_def vector_shrink_to_fit_def)

section \<open>Histories of operations\<close>

datatype vector_call =
    Vec_insert u64 string | Vec_insert_range u64 "string list" | Vec_insert_fill u64 u64 string
  | Vec_push_back string | Vec_erase u64 bool | Vec_erase_range u64 u64 bool | Vec_pop_back bool
  | Vec_clear bool | Vec_reserve u64 | Vec_shrink

definition vector_step :: "vector \<Rightarrow> vector_call \<Rightarrow> (vector \<times> cell list list) option" where
  "vector_step v c = (case c of
     Vec_insert i x \<Rightarrow> map_option (\<lambda>v. (v, [])) (vector_insert v i x)
   | Vec_insert_range i xs \<Rightarrow> map_option (\<lambda>v. (v, [])) (vector_insert_range v i (concat xs))
   | Vec_insert_fill i n x \<Rightarrow> map_option (\<lambda>v. (v, [])) (vector_insert_fill v i n x)
   | Vec_push_back x \<Rightarrow> map_option (\<lambda>v. (v, [])) (vector_push_back v x)
   | Vec_erase i release \<Rightarrow> vector_erase v i release
   | Vec_erase_range i j release \<Rightarrow> vector_erase_range v i j release
   | Vec_pop_back release \<Rightarrow> vector_pop_back v release
   | Vec_clear release \<Rightarrow> vector_clear v release
   | Vec_reserve n \<Rightarrow> Some (vector_reserve v n, [])
   | Vec_shrink \<Rightarrow> Some (vector_shrink_to_fit v, []))"

primrec vector_run :: "vector \<Rightarrow> vector_call list \<Rightarrow> (vector \<times> cell list list) option" where
  "vector_run v [] = Some (v, [])"
| "vector_run v (c # cs) = do {
     (v, released) \<leftarrow> vector_step v c;
     (v, more) \<leftarrow> vector_run v cs;
     Some (v, released @ more) }"

text \<open>The same history on a list of objects of width \<open>w\<close>, with the objects it releases.\<close>

definition objects_step ::
    "nat \<Rightarrow> cell list list \<Rightarrow> vector_call \<Rightarrow> (cell list list \<times> cell list list) option" where
  "objects_step w os c = (case c of
     Vec_insert i x \<Rightarrow> if unat i \<le> length os \<and> length x = w \<and> Suc (length os) * w \<le> 2 ^ 63
       then Some (take (unat i) os @ [map Some x] @ drop (unat i) os, []) else None
   | Vec_insert_range i xs \<Rightarrow> if unat i \<le> length os \<and> (\<forall>x \<in> set xs. length x = w) \<and>
         (length os + length xs) * w \<le> 2 ^ 63
       then Some (take (unat i) os @ map (map Some) xs @ drop (unat i) os, []) else None
   | Vec_insert_fill i n x \<Rightarrow> if unat i \<le> length os \<and> length x = w \<and> w \<le> 2 ^ 63 \<and> (length os + unat n) * w \<le> 2 ^ 63
       then Some (take (unat i) os @ replicate (unat n) (map Some x) @ drop (unat i) os, []) else None
   | Vec_push_back x \<Rightarrow> if length x = w \<and> Suc (length os) * w \<le> 2 ^ 63
       then Some (os @ [map Some x], []) else None
   | Vec_erase i release \<Rightarrow> if unat i < length os
       then Some (take (unat i) os @ drop (Suc (unat i)) os, if release then [os ! unat i] else []) else None
   | Vec_erase_range i j release \<Rightarrow> if i \<le> j \<and> unat j \<le> length os
       then Some (take (unat i) os @ drop (unat j) os,
         if release then take (unat j - unat i) (drop (unat i) os) else []) else None
   | Vec_pop_back release \<Rightarrow> if os \<noteq> [] then Some (butlast os, if release then [last os] else []) else None
   | Vec_clear release \<Rightarrow> Some ([], if release then os else [])
   | Vec_reserve n \<Rightarrow> if unat n * w \<le> 2 ^ 63 then Some (os, []) else None
   | Vec_shrink \<Rightarrow> Some (os, []))"

primrec objects_run ::
    "nat \<Rightarrow> cell list list \<Rightarrow> vector_call list \<Rightarrow> (cell list list \<times> cell list list) option" where
  "objects_run w os [] = Some (os, [])"
| "objects_run w os (c # cs) = do {
     (os, released) \<leftarrow> objects_step w os c;
     (os, more) \<leftarrow> objects_run w os cs;
     Some (os, released @ more) }"

text \<open>No operation changes the width of the objects.\<close>

lemma object_size_kept:
  "vector_step v c = Some (v', released) \<Longrightarrow> object_size v' = object_size v"
  by (cases c) (auto simp: vector_step_def vector_insert_def vector_insert_range_def
      vector_insert_fill_def vector_push_back_def vector_erase_def vector_erase_range_def
      vector_pop_back_def vector_clear_def vector_reserve_def vector_shrink_to_fit_def
      split: Option.bind_splits if_splits)

lemma vector_step_rep:
  assumes v: "vector_rep v os" and spec: "objects_step (unat (object_size v)) os c = Some (os', released)"
  shows "\<exists>v'. vector_step v c = Some (v', released) \<and> vector_rep v' os'"
proof (cases c)
  case (Vec_insert i x)
  with spec have *: "unat i \<le> length os" "length x = unat (object_size v)"
    "Suc (length os) * unat (object_size v) \<le> 2 ^ 63"
    and os': "os' = take (unat i) os @ [map Some x] @ drop (unat i) os" "released = []"
    by (auto simp: objects_step_def split: if_splits)
  obtain v' where "vector_insert v (word_of_nat (unat i)) x = Some v'" "vector_rep v' os'"
    unfolding os' by (rule vector_insert_ok [OF v *])
  then show ?thesis using Vec_insert os'(2) by (simp add: vector_step_def)
next
  case (Vec_insert_range i xs)
  with spec have *: "unat i \<le> length os" "\<forall>x \<in> set xs. length x = unat (object_size v)"
    "(length os + length xs) * unat (object_size v) \<le> 2 ^ 63"
    and os': "os' = take (unat i) os @ map (map Some) xs @ drop (unat i) os" "released = []"
    by (auto simp: objects_step_def split: if_splits)
  from vector_insert_range_ok [OF v *] Vec_insert_range os' show ?thesis by (auto simp: vector_step_def)
next
  case (Vec_insert_fill i n x)
  with spec have *: "unat i \<le> length os" "length x = unat (object_size v)"
    "unat (object_size v) \<le> 2 ^ 63" "(length os + unat n) * unat (object_size v) \<le> 2 ^ 63"
    and os': "os' = take (unat i) os @ replicate (unat n) (map Some x) @ drop (unat i) os" "released = []"
    by (auto simp: objects_step_def split: if_splits)
  from vector_insert_fill_ok [OF v *] Vec_insert_fill os' show ?thesis by (auto simp: vector_step_def)
next
  case (Vec_push_back x)
  with spec have *: "length x = unat (object_size v)" "Suc (length os) * unat (object_size v) \<le> 2 ^ 63"
    and os': "os' = os @ [map Some x]" "released = []"
    by (auto simp: objects_step_def split: if_splits)
  obtain v' where "vector_push_back v x = Some v'" "vector_rep v' os'"
    unfolding os' by (rule vector_push_back_ok [OF v *])
  then show ?thesis using Vec_push_back os'(2) by (simp add: vector_step_def)
next
  case (Vec_erase i release)
  with spec have *: "unat i < length os" "os' = take (unat i) os @ drop (Suc (unat i)) os"
    "released = (if release then [os ! unat i] else [])"
    by (auto simp: objects_step_def split: if_splits)
  obtain v' where "vector_erase v (word_of_nat (unat i)) release = Some (v', released)" "vector_rep v' os'"
    unfolding *(2,3) by (rule vector_erase_ok [OF v *(1)])
  then show ?thesis using Vec_erase by (simp add: vector_step_def)
next
  case (Vec_erase_range i j release)
  with spec have *: "unat i \<le> unat j" "unat j \<le> length os" "os' = take (unat i) os @ drop (unat j) os"
    "released = (if release then take (unat j - unat i) (drop (unat i) os) else [])"
    by (auto simp: objects_step_def word_le_nat_alt split: if_splits)
  obtain v' where "vector_erase_range v (word_of_nat (unat i)) (word_of_nat (unat j)) release = Some (v', released)"
    "vector_rep v' os'"
    unfolding *(3,4) by (rule vector_erase_range_ok [OF v *(1,2)])
  then show ?thesis using Vec_erase_range by (simp add: vector_step_def)
next
  case (Vec_pop_back release)
  with spec obtain us x where *: "os = us @ [x]" "os' = us" "released = (if release then [x] else [])"
    by (cases os rule: rev_cases) (auto simp: objects_step_def split: if_splits)
  obtain v' where "vector_pop_back v release = Some (v', released)" "vector_rep v' os'"
    unfolding *(2,3) by (rule vector_pop_back_ok [OF v [unfolded *(1)]])
  then show ?thesis using Vec_pop_back by (simp add: vector_step_def)
next
  case (Vec_clear release)
  with spec have *: "os' = []" "released = (if release then os else [])" by (auto simp: objects_step_def)
  obtain v' where "vector_clear v release = Some (v', released)" "vector_rep v' os'"
    unfolding * by (rule vector_clear_ok [OF v])
  then show ?thesis using Vec_clear by (simp add: vector_step_def)
next
  case (Vec_reserve n)
  with spec vector_reserve_ok [OF v, of n] show ?thesis
    by (auto simp: objects_step_def vector_step_def split: if_splits)
next
  case Vec_shrink
  with spec vector_shrink_ok [OF v] show ?thesis by (auto simp: objects_step_def vector_step_def)
qed

lemma vector_run_ok:
  assumes "vector_rep v os" "objects_run (unat (object_size v)) os calls = Some (os', released)"
  shows "\<exists>v'. vector_run v calls = Some (v', released) \<and> vector_rep v' os'"
  using assms
proof (induction calls arbitrary: v os os' released)
  case (Cons c calls)
  from Cons.prems(2) obtain os1 r1 r2 where s: "objects_step (unat (object_size v)) os c = Some (os1, r1)"
    "objects_run (unat (object_size v)) os1 calls = Some (os', r2)" "released = r1 @ r2"
    by (auto split: Option.bind_splits)
  obtain v1 where v1: "vector_step v c = Some (v1, r1)" "vector_rep v1 os1"
    using vector_step_rep [OF Cons.prems(1) s(1)] by blast
  have "objects_run (unat (object_size v1)) os1 calls = Some (os', r2)"
    using s(2) object_size_kept [OF v1(1)] by simp
  from Cons.IH [OF v1(2) this] v1(1) s(3) show ?case by auto
qed simp

section \<open>Properties\<close>

text \<open>
  C26. Every history of vector operations that starts from a constructed vector and keeps their
  contracts runs without undefined behaviour; afterwards the vector holds the list of objects
  the same history of list operations gives, and the release callback was called on exactly the
  objects taken out, in order.
\<close>

theorem vector_history:
  assumes "0 < w" "objects_run (unat w) [] calls = Some (os, released)"
  shows "\<exists>v. vector_run (vector_construct w) calls = Some (v, released) \<and> vector_rep v os \<and>
    vector_size v = Some (word_of_nat (length os))"
  using vector_run_ok [OF vector_construct_ok [OF assms(1)]] assms(2) vector_size_ok
  by (fastforce simp: vector_construct_def)

lemma vector_history_witness:
  "\<exists>v. vector_run (vector_construct 2) [Vec_push_back ''ab'', Vec_insert 0 ''cd'',
      Vec_insert_range 1 [''ef'', ''gh''], Vec_erase_range 1 3 True, Vec_pop_back True] =
        Some (v, [map Some ''ef'', map Some ''gh'', map Some ''ab'']) \<and>
    vector_rep v [map Some ''cd''] \<and> vector_size v = Some (word_of_nat (length [map Some ''cd'']))"
  by (rule vector_history) (simp_all add: objects_step_def)

end
