(* ===== verification/Linked_List.thy ===== *)
theory Linked_List
  imports Prelude
begin

text \<open>
  \<^verbatim>\<open>src/reactor/list.c\<close>: the intrusive doubly linked ring with a sentinel, over an explicit heap.
  A \<open>list\<close> and a \<open>list_item\<close> share their first two fields, so both are nodes of the heap; the
  sentinel holds no object. An object pointer and its item differ by a constant offset
  (\<open>list_object_item\<close>), so both are the node's address here. The address \<open>calloc\<close> returns is
  an argument of the operation. A dereference of an address that is not allocated is
  \<^term>\<open>None\<close>. The calls of the release callback are returned.

  \<open>ring h l xs\<close> says that the nodes \<open>xs\<close> hang in this order on the sentinel \<open>l\<close>; the lemmas
  state each operation as an operation on \<open>xs\<close>.
\<close>

type_synonym addr = nat

record 'a node =
  nd_next :: addr
  nd_previous :: addr
  nd_object :: "'a option"

type_synonym 'a heap = "addr \<Rightarrow> 'a node option"

definition set_next :: "'a heap \<Rightarrow> addr \<Rightarrow> addr \<Rightarrow> 'a heap option" where
  "set_next h a n = do { it \<leftarrow> h a; Some (h(a \<mapsto> it\<lparr>nd_next := n\<rparr>)) }"

definition set_previous :: "'a heap \<Rightarrow> addr \<Rightarrow> addr \<Rightarrow> 'a heap option" where
  "set_previous h a p = do { it \<leftarrow> h a; Some (h(a \<mapsto> it\<lparr>nd_previous := p\<rparr>)) }"

definition list_construct :: "'a heap \<Rightarrow> addr \<Rightarrow> 'a heap" where
  "list_construct h l = h(l \<mapsto> \<lparr>nd_next = l, nd_previous = l, nd_object = None\<rparr>)"

definition list_next :: "'a heap \<Rightarrow> addr \<Rightarrow> addr option" where
  "list_next h a = map_option nd_next (h a)"

definition list_previous :: "'a heap \<Rightarrow> addr \<Rightarrow> addr option" where
  "list_previous h a = map_option nd_previous (h a)"

definition list_front :: "'a heap \<Rightarrow> addr \<Rightarrow> addr option" where
  "list_front h l = map_option nd_next (h l)"

definition list_back :: "'a heap \<Rightarrow> addr \<Rightarrow> addr option" where
  "list_back h l = map_option nd_previous (h l)"

definition list_end :: "addr \<Rightarrow> addr" where "list_end l = l"

definition list_empty :: "'a heap \<Rightarrow> addr \<Rightarrow> bool option" where
  "list_empty h l = map_option (\<lambda>it. nd_next it = l) (h l)"

text \<open>\<open>calloc\<close> clears the two links; the object is copied in unless the pointer is null.\<close>

definition list_item_new :: "'a heap \<Rightarrow> addr \<Rightarrow> 'a \<Rightarrow> 'a heap" where
  "list_item_new h a object = h(a \<mapsto> \<lparr>nd_next = 0, nd_previous = 0, nd_object = Some object\<rparr>)"

text \<open>The four assignments that hang an item before another, shared by insert and splice.\<close>

definition link_before :: "'a heap \<Rightarrow> addr \<Rightarrow> addr \<Rightarrow> 'a heap option" where
  "link_before h item after = do {
     p \<leftarrow> list_previous h after;
     h \<leftarrow> set_previous h item p;
     h \<leftarrow> set_next h item after;
     q \<leftarrow> list_previous h item;
     h \<leftarrow> set_next h q item;
     n \<leftarrow> list_next h item;
     set_previous h n item }"

text \<open>The two assignments that take an item out, shared by erase and splice.\<close>

definition unlink :: "'a heap \<Rightarrow> addr \<Rightarrow> 'a heap option" where
  "unlink h item = do {
     p \<leftarrow> list_previous h item;
     n \<leftarrow> list_next h item;
     h \<leftarrow> set_next h p n;
     n \<leftarrow> list_next h item;
     p \<leftarrow> list_previous h item;
     set_previous h n p }"

definition list_insert :: "'a heap \<Rightarrow> addr \<Rightarrow> 'a \<Rightarrow> addr \<Rightarrow> ('a heap \<times> addr) option" where
  "list_insert h list_object object new = do {
     h \<leftarrow> link_before (list_item_new h new object) new list_object;
     Some (h, new) }"

definition list_push_front :: "'a heap \<Rightarrow> addr \<Rightarrow> 'a \<Rightarrow> addr \<Rightarrow> ('a heap \<times> addr) option" where
  "list_push_front h l object new = do { f \<leftarrow> list_front h l; list_insert h f object new }"

definition list_push_back :: "'a heap \<Rightarrow> addr \<Rightarrow> 'a \<Rightarrow> addr \<Rightarrow> ('a heap \<times> addr) option" where
  "list_push_back h l object new = list_insert h (list_end l) object new"

definition list_splice :: "'a heap \<Rightarrow> addr \<Rightarrow> addr \<Rightarrow> 'a heap option" where
  "list_splice h to from =
     (if to = from then Some h
      else do { h \<leftarrow> unlink h from; link_before h from to })"

definition list_erase :: "'a heap \<Rightarrow> addr \<Rightarrow> bool \<Rightarrow> ('a heap \<times> 'a list) option" where
  "list_erase h item release = do {
     h \<leftarrow> unlink h item;
     it \<leftarrow> h item;
     Some (h(item := None), if release then (case nd_object it of None \<Rightarrow> [] | Some x \<Rightarrow> [x]) else []) }"

partial_function (option) list_clear :: "'a heap \<Rightarrow> addr \<Rightarrow> bool \<Rightarrow> 'a list \<Rightarrow> ('a heap \<times> 'a list) option" where
  "list_clear h l release log = do {
     e \<leftarrow> list_empty h l;
     (if e then Some (h, log)
      else do {
        f \<leftarrow> list_front h l;
        r \<leftarrow> list_erase h f release;
        list_clear (fst r) l release (log @ snd r) }) }"

definition list_destruct :: "'a heap \<Rightarrow> addr \<Rightarrow> bool \<Rightarrow> ('a heap \<times> 'a list) option" where
  "list_destruct h l release = list_clear h l release []"

text \<open>\<open>list_find\<close> walks from the front until the sentinel; the answer \<open>Some None\<close> is the null pointer.\<close>

partial_function (option) find_from :: "'a heap \<Rightarrow> addr \<Rightarrow> ('a \<Rightarrow> bool) \<Rightarrow> addr \<Rightarrow> addr option option" where
  "find_from h l compare a =
     (if a = list_end l then Some None
      else do {
        it \<leftarrow> h a;
        x \<leftarrow> nd_object it;
        (if compare x then Some (Some a)
         else do { n \<leftarrow> list_next h a; find_from h l compare n }) })"

definition list_find :: "'a heap \<Rightarrow> addr \<Rightarrow> ('a \<Rightarrow> bool) \<Rightarrow> addr option option" where
  "list_find h l compare = do { f \<leftarrow> list_front h l; find_from h l compare f }"

section \<open>Rings\<close>

primrec chain :: "'a heap \<Rightarrow> addr \<Rightarrow> addr list \<Rightarrow> addr \<Rightarrow> bool" where
  "chain h a [] b \<longleftrightarrow> list_next h a = Some b \<and> list_previous h b = Some a"
| "chain h a (x # xs) b \<longleftrightarrow> list_next h a = Some x \<and> list_previous h x = Some a \<and> chain h x xs b"

definition ring :: "'a heap \<Rightarrow> addr \<Rightarrow> addr list \<Rightarrow> bool" where
  "ring h l xs \<longleftrightarrow> chain h l xs l \<and> distinct (l # xs)"

definition object_of :: "'a heap \<Rightarrow> addr \<Rightarrow> 'a option" where
  "object_of h a = Option.bind (h a) nd_object"

lemma chain_append: "chain h a (xs @ y # ys) b \<longleftrightarrow> chain h a xs y \<and> chain h y ys b"
  by (induction xs arbitrary: a) auto

lemma chain_cong:
  assumes "\<And>x. x \<in> set (a # xs) \<Longrightarrow> list_next h' x = list_next h x"
    "\<And>x. x \<in> set (xs @ [b]) \<Longrightarrow> list_previous h' x = list_previous h x"
  shows "chain h' a xs b = chain h a xs b"
  using assms by (induction xs arbitrary: a) auto

lemma chain_last: "chain h a xs b \<Longrightarrow> list_next h (last (a # xs)) = Some b \<and> list_previous h b = Some (last (a # xs))"
  by (induction xs arbitrary: a) auto

lemma chain_first: "chain h a xs b \<Longrightarrow> list_next h a = Some (hd (xs @ [b]))"
  by (cases xs) auto

lemma chain_alloc: "chain h a xs b \<Longrightarrow> x \<in> set (a # xs @ [b]) \<Longrightarrow> h x \<noteq> None"
  by (induction xs arbitrary: a) (auto simp: list_next_def list_previous_def)

text \<open>The links of a heap after an update of one link.\<close>

lemma set_next_links:
  assumes "set_next h a n = Some h'"
  shows "list_next h' x = (if x = a then Some n else list_next h x)"
    "list_previous h' x = list_previous h x" "object_of h' x = object_of h x"
    "h' x = None \<longleftrightarrow> h x = None"
  using assms by (auto simp: set_next_def list_next_def list_previous_def object_of_def
      split: Option.bind_splits if_splits)

lemma set_previous_links:
  assumes "set_previous h a n = Some h'"
  shows "list_previous h' x = (if x = a then Some n else list_previous h x)"
    "list_next h' x = list_next h x" "object_of h' x = object_of h x"
    "h' x = None \<longleftrightarrow> h x = None"
  using assms by (auto simp: set_previous_def list_next_def list_previous_def object_of_def
      split: Option.bind_splits if_splits)

lemma set_link_exists:
  "h a \<noteq> None \<Longrightarrow> \<exists>h'. set_next h a n = Some h'" "h a \<noteq> None \<Longrightarrow> \<exists>h'. set_previous h a n = Some h'"
  by (auto simp: set_next_def set_previous_def)

lemma link_exists: "h a \<noteq> None \<Longrightarrow> \<exists>n. list_next h a = Some n" "h a \<noteq> None \<Longrightarrow> \<exists>p. list_previous h a = Some p"
  by (auto simp: list_next_def list_previous_def)

lemma link_before_ok:
  assumes "list_previous h after = Some p" "h p \<noteq> None" "h item \<noteq> None" "item \<noteq> p" "item \<noteq> after"
  obtains h' where "link_before h item after = Some h'"
    "\<And>x. list_next h' x = (if x = p then Some item else if x = item then Some after else list_next h x)"
    "\<And>x. list_previous h' x = (if x = after then Some item else if x = item then Some p else list_previous h x)"
    "\<And>x. object_of h' x = object_of h x" "\<And>x. h' x = None \<longleftrightarrow> h x = None"
proof -
  have after: "h after \<noteq> None" using assms(1) by (auto simp: list_previous_def)
  obtain h1 where h1: "set_previous h item p = Some h1" using set_link_exists(2) [of h item, OF assms(3)] by blast
  note L1 = set_previous_links [OF h1]
  have "h1 item \<noteq> None" using assms(3) by (simp only: L1(4) not_False_eq_True)
  then obtain h2 where h2: "set_next h1 item after = Some h2"
    using set_link_exists(1) [of h1 item] by blast
  note L2 = set_next_links [OF h2]
  have "h2 p \<noteq> None" using assms(2) by (simp only: L1(4) L2(4) not_False_eq_True)
  then obtain h3 where h3: "set_next h2 p item = Some h3"
    using set_link_exists(1) [of h2 p] by blast
  note L3 = set_next_links [OF h3]
  have "h3 after \<noteq> None" using after by (simp only: L1(4) L2(4) L3(4) not_False_eq_True)
  then obtain h4 where h4: "set_previous h3 after item = Some h4"
    using set_link_exists(2) [of h3 after] by blast
  note L4 = set_previous_links [OF h4]
  show thesis
  proof (rule that)
    have "list_previous h2 item = Some p" "list_next h3 item = Some after"
      using assms by (simp_all add: L1 L2 L3)
    then show "link_before h item after = Some h4"
      by (simp add: link_before_def assms(1) h1 h2 h3 h4)
    show "list_next h4 x = (if x = p then Some item else if x = item then Some after else list_next h x)" for x
      by (simp add: L1 L2 L3 L4)
    show "list_previous h4 x = (if x = after then Some item else if x = item then Some p else list_previous h x)" for x
      by (simp add: L1 L2 L3 L4)
    show "object_of h4 x = object_of h x" "h4 x = None \<longleftrightarrow> h x = None" for x
      by (simp_all only: L1 L2 L3 L4)
  qed
qed

lemma unlink_ok:
  assumes "list_previous h item = Some p" "list_next h item = Some n" "h p \<noteq> None" "h n \<noteq> None"
    "p \<noteq> item" "n \<noteq> item"
  obtains h' where "unlink h item = Some h'"
    "\<And>x. list_next h' x = (if x = p then Some n else list_next h x)"
    "\<And>x. list_previous h' x = (if x = n then Some p else list_previous h x)"
    "\<And>x. object_of h' x = object_of h x" "\<And>x. h' x = None \<longleftrightarrow> h x = None"
proof -
  obtain h1 where h1: "set_next h p n = Some h1" using set_link_exists(1) [of h p, OF assms(3)] by blast
  note L1 = set_next_links [OF h1]
  have "h1 n \<noteq> None" using assms(4) by (simp only: L1(4) not_False_eq_True)
  then obtain h2 where h2: "set_previous h1 n p = Some h2"
    using set_link_exists(2) [of h1 n] by blast
  note L2 = set_previous_links [OF h2]
  show thesis
  proof (rule that)
    have "list_next h1 item = Some n" "list_previous h1 item = Some p"
      using assms by (simp_all add: L1)
    then show "unlink h item = Some h2" by (simp add: unlink_def assms(1,2) h1 h2)
    show "list_next h2 x = (if x = p then Some n else list_next h x)" for x
      by (simp add: L1 L2)
    show "list_previous h2 x = (if x = n then Some p else list_previous h x)" for x
      by (simp add: L1 L2)
    show "object_of h2 x = object_of h x" "h2 x = None \<longleftrightarrow> h x = None" for x
      by (simp_all only: L1 L2)
  qed
qed

text \<open>Hanging an allocated node that is not in the ring before a node of it (or the sentinel).\<close>

lemma link_before_ring:
  assumes "ring h l (xs @ ys)" "h a \<noteq> None" "a \<notin> set (l # xs @ ys)"
  obtains h' where "link_before h a (hd (ys @ [l])) = Some h'" "ring h' l (xs @ a # ys)"
    "\<And>x. object_of h' x = object_of h x" "\<And>x. h' x = None \<longleftrightarrow> h x = None"
    "\<And>x. x \<notin> set (l # a # xs @ ys) \<Longrightarrow> list_next h' x = list_next h x \<and> list_previous h' x = list_previous h x"
proof -
  define y where "y = hd (ys @ [l])"
  define p where "p = last (l # xs)"
  have d: "distinct (l # xs @ ys)" using assms(1) by (simp add: ring_def)
  have split: "chain h l xs y" "ys = [] \<or> (\<exists>zs. ys = y # zs \<and> chain h y zs l)"
    using assms(1) by (cases ys; simp add: ring_def y_def chain_append)+
  have py: "list_previous h y = Some p" "list_next h p = Some y"
    using chain_last [OF split(1)] by (simp_all add: p_def)
  have pin: "p \<in> set (l # xs)" unfolding p_def by (rule last_in_set) simp
  have yin: "y \<in> set (ys @ [l])" by (cases ys) (simp_all add: y_def)
  have ne: "a \<noteq> p" "a \<noteq> y" using pin yin assms(3) by auto
  have "h p \<noteq> None" using py(2) by (auto simp: list_next_def)
  from link_before_ok [OF py(1) this assms(2) ne] obtain h' where
    h': "link_before h a y = Some h'"
    "\<And>x. list_next h' x = (if x = p then Some a else if x = a then Some y else list_next h x)"
    "\<And>x. list_previous h' x = (if x = y then Some a else if x = a then Some p else list_previous h x)"
    "\<And>x. object_of h' x = object_of h x" "\<And>x. h' x = None \<longleftrightarrow> h x = None" by blast
  have pre: "chain h' l xs a"
  proof (cases xs rule: rev_cases)
    case Nil
    then show ?thesis using ne h'(2,3) by (simp add: p_def)
  next
    case (snoc zs z)
    then have z: "p = z" by (simp add: p_def)
    have "chain h l zs z" using split(1) by (simp add: snoc chain_append)
    moreover have "list_next h' x = list_next h x" if "x \<in> set (l # zs)" for x
      using that d assms(3) by (auto simp: h'(2) z snoc)
    moreover have "list_previous h' x = list_previous h x" if "x \<in> set (zs @ [z])" for x
      using that d assms(3) yin by (auto simp: h'(3) snoc)
    ultimately have "chain h' l zs z" using chain_cong [of l zs h' h z] by blast
    then show ?thesis using ne by (simp add: snoc chain_append h'(2,3) z)
  qed
  have post: "chain h' a ys l"
  proof (cases ys)
    case Nil
    then show ?thesis using ne h'(2,3) by (simp add: y_def)
  next
    case (Cons z zs)
    then have z: "y = z" by (simp add: y_def)
    have "chain h z zs l" using split(2) Cons z by simp
    moreover have "list_next h' x = list_next h x" if "x \<in> set (z # zs)" for x
      using that d assms(3) pin by (auto simp: h'(2) Cons)
    moreover have "list_previous h' x = list_previous h x" if "x \<in> set (zs @ [l])" for x
      using that d assms(3) by (auto simp: h'(3) z Cons)
    ultimately have "chain h' z zs l" using chain_cong [of z zs h' h l] by blast
    then show ?thesis using ne h'(2,3) by (simp add: Cons z)
  qed
  show thesis
  proof (rule that)
    show "link_before h a (hd (ys @ [l])) = Some h'" using h'(1) by (simp add: y_def)
    show "ring h' l (xs @ a # ys)"
      using pre post d assms(3) by (auto simp: ring_def chain_append)
    show "object_of h' x = object_of h x" "h' x = None \<longleftrightarrow> h x = None" for x
      by (simp_all only: h'(4,5))
    show "list_next h' x = list_next h x \<and> list_previous h' x = list_previous h x"
      if "x \<notin> set (l # a # xs @ ys)" for x
      using that pin yin by (auto simp: h'(2,3))
  qed
qed

text \<open>Taking a node out of a ring leaves it allocated and in no ring.\<close>

lemma unlink_ring:
  assumes "ring h l (xs @ a # ys)"
  obtains h' where "unlink h a = Some h'" "ring h' l (xs @ ys)"
    "\<And>x. object_of h' x = object_of h x" "\<And>x. h' x = None \<longleftrightarrow> h x = None"
    "\<And>x. x \<notin> set (l # xs @ ys) \<Longrightarrow> list_next h' x = list_next h x \<and> list_previous h' x = list_previous h x"
proof -
  define n where "n = hd (ys @ [l])"
  define p where "p = last (l # xs)"
  have d: "distinct (l # xs @ a # ys)" using assms by (simp add: ring_def)
  have c: "chain h l xs a" "chain h a ys l" using assms by (simp_all add: ring_def chain_append)
  have pn: "list_previous h a = Some p" "list_next h a = Some n"
    using chain_last [OF c(1)] chain_first [OF c(2)] by (simp_all add: p_def n_def)
  have pin: "p \<in> set (l # xs)" unfolding p_def by (rule last_in_set) simp
  have nin: "n \<in> set (ys @ [l])" by (cases ys) (simp_all add: n_def)
  have ne: "p \<noteq> a" "n \<noteq> a" using pin nin d by auto
  have al: "h p \<noteq> None" "h n \<noteq> None"
    using chain_alloc [OF c(1)] chain_alloc [OF c(2)] pin nin by auto
  from unlink_ok [OF pn al ne] obtain h' where h': "unlink h a = Some h'"
    "\<And>x. list_next h' x = (if x = p then Some n else list_next h x)"
    "\<And>x. list_previous h' x = (if x = n then Some p else list_previous h x)"
    "\<And>x. object_of h' x = object_of h x" "\<And>x. h' x = None \<longleftrightarrow> h x = None" by blast
  have pre: "chain h' l xs n"
  proof (cases xs rule: rev_cases)
    case Nil
    then show ?thesis using h'(2,3) by (simp add: p_def)
  next
    case (snoc zs z)
    then have z: "p = z" by (simp add: p_def)
    have "chain h l zs z" using c(1) by (simp add: snoc chain_append)
    moreover have "list_next h' x = list_next h x" if "x \<in> set (l # zs)" for x
      using that d by (auto simp: h'(2) z snoc)
    moreover have "list_previous h' x = list_previous h x" if "x \<in> set (zs @ [z])" for x
      using that d nin by (auto simp: h'(3) snoc)
    ultimately have "chain h' l zs z" using chain_cong [of l zs h' h z] by blast
    then show ?thesis by (simp add: snoc chain_append h'(2,3) z)
  qed
  have "chain h' l (xs @ ys) l"
  proof (cases ys)
    case Nil
    then show ?thesis using pre by (simp add: n_def)
  next
    case (Cons z zs)
    then have z: "n = z" by (simp add: n_def)
    have "chain h z zs l" using c(2) by (simp add: Cons)
    moreover have "list_next h' x = list_next h x" if "x \<in> set (z # zs)" for x
      using that d pin by (auto simp: h'(2) Cons)
    moreover have "list_previous h' x = list_previous h x" if "x \<in> set (zs @ [l])" for x
      using that d by (auto simp: h'(3) z Cons)
    ultimately have "chain h' z zs l" using chain_cong [of z zs h' h l] by blast
    then show ?thesis using pre by (simp add: Cons z chain_append)
  qed
  then have r: "ring h' l (xs @ ys)" using d by (simp add: ring_def)
  show thesis
    using r h'(1,4,5) pin nin by (intro that [of h']) (auto simp: h'(2,3))
qed

section \<open>Operations as list operations\<close>

definition list_rep :: "'a heap \<Rightarrow> addr \<Rightarrow> addr list \<Rightarrow> 'a list \<Rightarrow> bool" where
  "list_rep h l xs os \<longleftrightarrow> ring h l xs \<and> map (object_of h) xs = map Some os"

lemma ring_cong:
  assumes "ring h l xs" "\<And>x. x \<in> set (l # xs) \<Longrightarrow>
    list_next h' x = list_next h x \<and> list_previous h' x = list_previous h x"
  shows "ring h' l xs"
proof -
  have "chain h' l xs l = chain h l xs l" by (rule chain_cong) (use assms(2) in auto)
  then show ?thesis using assms(1) by (simp add: ring_def)
qed

lemma ring_alloc: "ring h l xs \<Longrightarrow> x \<in> set (l # xs) \<Longrightarrow> h x \<noteq> None"
  using chain_alloc [of h l xs l x] by (auto simp: ring_def)

lemma list_repD:
  assumes "list_rep h l xs os"
  shows "ring h l xs" "distinct (l # xs)" "length xs = length os"
  using assms by (auto simp: list_rep_def ring_def dest: map_eq_imp_length_eq)

lemma list_construct_rep: "list_rep (list_construct h l) l [] []"
  by (simp add: list_rep_def ring_def list_construct_def list_next_def list_previous_def)

lemma list_insert_ok:
  assumes "list_rep h l (xs @ ys) (os @ ps)" "length xs = length os" "h new = None"
  obtains h' where "list_insert h (hd (ys @ [l])) x new = Some (h', new)"
    "list_rep h' l (xs @ new # ys) (os @ x # ps)"
proof -
  note D = list_repD [OF assms(1)]
  define h0 where "h0 = list_item_new h new x"
  have new: "new \<notin> set (l # xs @ ys)" using ring_alloc [OF D(1)] assms(3) by blast
  have "list_next h0 y = list_next h y \<and> list_previous h0 y = list_previous h y \<and> object_of h0 y = object_of h y"
    if "y \<noteq> new" for y
    using that by (simp add: h0_def list_item_new_def list_next_def list_previous_def object_of_def)
  note frame = this
  have "ring h0 l (xs @ ys)" by (rule ring_cong [OF D(1)]) (use frame new in metis)
  moreover have "h0 new \<noteq> None" by (simp add: h0_def list_item_new_def)
  ultimately obtain h' where h': "link_before h0 new (hd (ys @ [l])) = Some h'"
    "ring h' l (xs @ new # ys)" "\<And>x. object_of h' x = object_of h0 x"
    using link_before_ring [OF _ _ new] by metis
  have ob: "map (object_of h') zs = map (object_of h) zs" if "new \<notin> set zs" for zs
    unfolding h'(3) by (rule map_cong [OF refl]) (use that frame in metis)
  have "map (object_of h) xs = map Some os" "map (object_of h) ys = map Some ps"
    using assms(1,2) by (auto simp: list_rep_def dest: map_eq_imp_length_eq)
  moreover have "object_of h' new = Some x"
    unfolding h'(3) by (simp add: h0_def list_item_new_def object_of_def)
  ultimately have "list_rep h' l (xs @ new # ys) (os @ x # ps)"
    using h'(2) ob [of xs] ob [of ys] new by (simp add: list_rep_def)
  moreover have "list_insert h (hd (ys @ [l])) x new = Some (h', new)"
    using h'(1) by (simp add: list_insert_def h0_def)
  ultimately show thesis using that by blast
qed

lemma list_front_ok: "ring h l xs \<Longrightarrow> list_front h l = Some (hd (xs @ [l]))"
  using chain_first [of h l xs l] by (simp add: ring_def list_front_def list_next_def)

lemma list_empty_ok: "ring h l xs \<Longrightarrow> list_empty h l = Some (xs = [])"
  using chain_first [of h l xs l]
  by (cases xs) (auto simp: ring_def list_empty_def list_next_def)

lemma list_erase_ok:
  assumes "list_rep h l (xs @ a # ys) (os @ x # ps)" "length xs = length os"
  obtains h' where "list_erase h a release = Some (h', if release then [x] else [])"
    "list_rep h' l (xs @ ys) (os @ ps)" "h' a = None" "\<forall>y. y \<noteq> a \<longrightarrow> (h' y = None \<longleftrightarrow> h y = None)"
proof -
  note D = list_repD [OF assms(1)]
  obtain h1 where h1: "unlink h a = Some h1" "ring h1 l (xs @ ys)"
    "\<And>x. object_of h1 x = object_of h x" "\<And>x. h1 x = None \<longleftrightarrow> h x = None"
    using unlink_ring [OF D(1)] by metis
  have objs: "map (object_of h) xs = map Some os" "object_of h a = Some x" "map (object_of h) ys = map Some ps"
    using assms by (auto simp: list_rep_def dest: map_eq_imp_length_eq)
  have "h1 a \<noteq> None" using ring_alloc [OF D(1), of a] h1(4) by simp
  then obtain it where it: "h1 a = Some it" by blast
  then have "nd_object it = Some x" using objs(2) h1(3) [of a] by (simp add: object_of_def)
  then have e: "list_erase h a release = Some (h1(a := None), if release then [x] else [])"
    by (simp add: list_erase_def h1(1) it)
  have na: "a \<notin> set (l # xs @ ys)" using D(2) by auto
  have frame: "list_next (h1(a := None)) y = list_next h1 y \<and>
      list_previous (h1(a := None)) y = list_previous h1 y \<and>
      object_of (h1(a := None)) y = object_of h y" if "y \<noteq> a" for y
    using that h1(3) [of y] by (simp add: list_next_def list_previous_def object_of_def)
  have "ring (h1(a := None)) l (xs @ ys)" by (rule ring_cong [OF h1(2)]) (use frame na in metis)
  moreover have ob: "map (object_of (h1(a := None))) zs = map (object_of h) zs" if "a \<notin> set zs" for zs
    by (rule map_cong [OF refl]) (use that frame in metis)
  have "map (object_of (h1(a := None))) (xs @ ys) = map Some (os @ ps)"
  proof -
    have "a \<notin> set (xs @ ys)" using na by simp
    from ob [OF this] show ?thesis using objs by simp
  qed
  ultimately have "list_rep (h1(a := None)) l (xs @ ys) (os @ ps)"
    by (simp add: list_rep_def)
  then show thesis using that e h1(4) by simp
qed

text \<open>Splicing within a ring, and from one ring into another.\<close>

lemma list_splice_within:
  assumes "ring h l (us @ f # vs)" "us @ vs = xs @ ys"
  obtains h' where "list_splice h (hd (ys @ [l])) f = Some h'" "ring h' l (xs @ f # ys)"
    "\<And>x. object_of h' x = object_of h x"
proof -
  have d: "distinct (l # us @ f # vs)" using assms(1) by (simp add: ring_def)
  have nf: "f \<notin> set (l # xs @ ys)" using d unfolding assms(2) [symmetric] by auto
  then have "hd (ys @ [l]) \<noteq> f" by (cases ys) auto
  moreover obtain h1 where h1: "unlink h f = Some h1" "ring h1 l (xs @ ys)"
    "\<And>x. object_of h1 x = object_of h x" "\<And>x. h1 x = None \<longleftrightarrow> h x = None"
    using unlink_ring [OF assms(1)] unfolding assms(2) by metis
  moreover have "h1 f \<noteq> None" using ring_alloc [OF assms(1), of f] h1(4) by simp
  then obtain h' where "link_before h1 f (hd (ys @ [l])) = Some h'" "ring h' l (xs @ f # ys)"
    "\<And>x. object_of h' x = object_of h1 x"
    using link_before_ring [OF h1(2) _ nf] by metis
  ultimately show thesis using that [of h'] by (simp add: list_splice_def)
qed

lemma list_splice_between:
  assumes "ring h m (us @ f # vs)" "ring h l (xs @ ys)" "set (m # us @ f # vs) \<inter> set (l # xs @ ys) = {}"
  obtains h' where "list_splice h (hd (ys @ [l])) f = Some h'" "ring h' l (xs @ f # ys)"
    "ring h' m (us @ vs)" "\<And>x. object_of h' x = object_of h x"
proof -
  have d: "distinct (m # us @ f # vs)" using assms(1) by (simp add: ring_def)
  have dj: "x \<notin> set (m # us @ f # vs)" if "x \<in> set (l # xs @ ys)" for x
    using assms(3) that unfolding disjoint_iff by blast
  have nf: "f \<notin> set (l # xs @ ys)" using assms(3) by auto
  then have ne: "hd (ys @ [l]) \<noteq> f" by (cases ys) auto
  obtain h1 where h1: "unlink h f = Some h1" "ring h1 m (us @ vs)"
    "\<And>x. object_of h1 x = object_of h x" "\<And>x. h1 x = None \<longleftrightarrow> h x = None"
    "\<And>x. x \<notin> set (m # us @ vs) \<Longrightarrow> list_next h1 x = list_next h x \<and> list_previous h1 x = list_previous h x"
    using unlink_ring [OF assms(1)] by metis
  have r1: "ring h1 l (xs @ ys)" by (rule ring_cong [OF assms(2)]) (use h1(5) dj in auto)
  have "h1 f \<noteq> None" using ring_alloc [OF assms(1), of f] h1(4) by simp
  then obtain h' where h': "link_before h1 f (hd (ys @ [l])) = Some h'" "ring h' l (xs @ f # ys)"
    "\<And>x. object_of h' x = object_of h1 x"
    "\<And>x. x \<notin> set (l # f # xs @ ys) \<Longrightarrow> list_next h' x = list_next h1 x \<and> list_previous h' x = list_previous h1 x"
    using link_before_ring [OF r1 _ nf] by metis
  have "ring h' m (us @ vs)" by (rule ring_cong [OF h1(2)]) (use h'(4) d dj in auto)
  with ne h1(1,3) h' show thesis using that [of h'] by (simp add: list_splice_def)
qed

lemma list_erase_front:
  assumes "list_rep h l (a # xs) (x # os)"
  obtains h' where "list_erase h a release = Some (h', if release then [x] else [])"
    "list_rep h' l xs os" "h' a = None" "\<forall>y. y \<noteq> a \<longrightarrow> (h' y = None \<longleftrightarrow> h y = None)"
proof -
  have r: "list_rep h l ([] @ a # xs) ([] @ x # os)" "length ([] :: addr list) = length ([] :: 'a list)"
    using assms by simp_all
  obtain h' where "list_erase h a release = Some (h', if release then [x] else [])"
    "list_rep h' l ([] @ xs) ([] @ os)" "h' a = None" "\<forall>y. y \<noteq> a \<longrightarrow> (h' y = None \<longleftrightarrow> h y = None)"
    by (rule list_erase_ok [OF r, of release])
  then show thesis by (intro that [of h']) (simp_all only: append_Nil)
qed

lemma list_clear_ok:
  assumes "list_rep h l xs os"
  shows "\<exists>h'. list_clear h l release log = Some (h', log @ (if release then os else [])) \<and>
    list_rep h' l [] [] \<and> (\<forall>y. h' y = None \<longleftrightarrow> h y = None \<or> y \<in> set xs)"
  using assms
proof (induction xs arbitrary: h os log)
  case Nil
  then have "os = []" using list_repD(3) by fastforce
  with Nil show ?case
    using list_empty_ok [of h l "[]"] by (subst list_clear.simps) (simp add: list_rep_def)
next
  case (Cons a xs)
  note D = list_repD [OF Cons.prems]
  then obtain x ps where os: "os = x # ps" by (cases os) simp_all
  obtain h1 where h1: "list_erase h a release = Some (h1, if release then [x] else [])"
    "list_rep h1 l xs ps" "h1 a = None" "\<forall>y. y \<noteq> a \<longrightarrow> (h1 y = None \<longleftrightarrow> h y = None)"
    using list_erase_front Cons.prems unfolding os by metis
  let ?log = "log @ (if release then [x] else [])"
  obtain h' where h': "list_clear h1 l release ?log = Some (h', ?log @ (if release then ps else []))"
    "list_rep h' l [] []" "\<forall>y. h' y = None \<longleftrightarrow> h1 y = None \<or> y \<in> set xs"
    using Cons.IH [OF h1(2), of ?log] by blast
  have "list_clear h l release log = list_clear h1 l release ?log"
    using list_empty_ok [OF D(1)] list_front_ok [OF D(1)] h1(1)
    by (subst list_clear.simps) simp
  moreover have "\<forall>y. h' y = None \<longleftrightarrow> h y = None \<or> y \<in> set (a # xs)"
    using h'(3) h1(3,4) by (metis list.set_intros(1) set_ConsD list.set_intros(2))
  ultimately show ?case using h'(1,2) os by (cases release) auto
qed

text \<open>The walk of \<open>list_find\<close> ends, with the first match.\<close>

lemma find_from_ok:
  assumes "ring h l (us @ xs)" "map (object_of h) xs = map Some os"
  shows "find_from h l compare (hd (xs @ [l])) =
    Some (map_option fst (find (\<lambda>p. compare (snd p)) (zip xs os)))"
  using assms
proof (induction xs arbitrary: us os)
  case Nil
  then show ?case by (subst find_from.simps) (simp add: list_end_def)
next
  case (Cons a xs)
  obtain x ps where os: "os = x # ps" using Cons.prems(2) by (cases os) simp_all
  have ne: "a \<noteq> l" using Cons.prems(1) by (auto simp: ring_def)
  obtain it where it: "h a = Some it" "nd_object it = Some x"
    using Cons.prems(2) os by (cases "h a") (auto simp: object_of_def)
  have "chain h a xs l" using Cons.prems(1) by (simp add: ring_def chain_append)
  then have n: "list_next h a = Some (hd (xs @ [l]))" by (rule chain_first)
  have "find_from h l compare (hd (xs @ [l])) =
      Some (map_option fst (find (\<lambda>p. compare (snd p)) (zip xs ps)))"
    using Cons.IH [of "us @ [a]" ps] Cons.prems os by simp
  then show ?case
    using ne it n os by (subst find_from.simps) (simp add: list_end_def)
qed

lemma list_find_ok:
  assumes "list_rep h l xs os"
  shows "list_find h l compare = Some (map_option fst (find (\<lambda>p. compare (snd p)) (zip xs os)))"
  using find_from_ok [of h l "[]" xs os compare] list_front_ok [of h l xs] assms
  by (simp add: list_find_def list_rep_def)

lemma list_destruct_ok:
  assumes "list_rep h l xs os"
  shows "\<exists>h'. list_destruct h l release = Some (h', if release then os else []) \<and>
    list_rep h' l [] [] \<and> (\<forall>y. h' y = None \<longleftrightarrow> h y = None \<or> y \<in> set xs)"
  using list_clear_ok [OF assms, of release "[]"] by (simp add: list_destruct_def)

text \<open>A ring of two nodes, on which the properties below are evaluated.\<close>

definition two_nodes :: "nat heap" where
  "two_nodes = [1 \<mapsto> \<lparr>nd_next = 2, nd_previous = 3, nd_object = None\<rparr>,
     2 \<mapsto> \<lparr>nd_next = 3, nd_previous = 1, nd_object = Some 20\<rparr>,
     3 \<mapsto> \<lparr>nd_next = 1, nd_previous = 2, nd_object = Some 30\<rparr>]"

lemma two_nodes_rep: "list_rep two_nodes 1 [2, 3] [20, 30]"
  by (simp add: two_nodes_def list_rep_def ring_def list_next_def list_previous_def object_of_def)

section \<open>Properties\<close>

text \<open>
  Inserting before any node of a list (or before the sentinel) puts exactly the new object
  there: the ring stays well formed in both directions and every other object keeps its place.
\<close>

theorem list_insert_before:
  assumes "list_rep h l (xs @ ys) (os @ ps)" "length xs = length os" "h new = None"
  shows "\<exists>h'. list_insert h (hd (ys @ [l])) x new = Some (h', new) \<and>
    list_rep h' l (xs @ new # ys) (os @ x # ps)"
proof -
  obtain h' where "list_insert h (hd (ys @ [l])) x new = Some (h', new)"
    "list_rep h' l (xs @ new # ys) (os @ x # ps)"
    by (rule list_insert_ok [OF assms])
  then show ?thesis by blast
qed

lemma list_insert_before_witness:
  "\<exists>h'. list_insert two_nodes (hd ([3] @ [1])) 99 7 = Some (h', 7) \<and>
    list_rep h' 1 ([2] @ 7 # [3]) ([20] @ 99 # [30])"
  using two_nodes_rep by (intro list_insert_before) (simp_all add: two_nodes_def)

text \<open>
  Erasing a node unlinks it, calls the release callback on its object and on nothing else,
  frees that node only, and keeps the order of the rest.
\<close>

theorem list_erase_node:
  assumes "list_rep h l (xs @ a # ys) (os @ x # ps)" "length xs = length os"
  shows "\<exists>h'. list_erase h a release = Some (h', if release then [x] else []) \<and>
    list_rep h' l (xs @ ys) (os @ ps) \<and> h' a = None \<and> (\<forall>y. y \<noteq> a \<longrightarrow> (h' y = None \<longleftrightarrow> h y = None))"
proof -
  obtain h' where "list_erase h a release = Some (h', if release then [x] else [])"
    "list_rep h' l (xs @ ys) (os @ ps)" "h' a = None" "\<forall>y. y \<noteq> a \<longrightarrow> (h' y = None \<longleftrightarrow> h y = None)"
    by (rule list_erase_ok [OF assms])
  then show ?thesis by blast
qed

lemma list_erase_node_witness:
  "\<exists>h'. list_erase two_nodes 3 True = Some (h', if True then [30] else []) \<and>
    list_rep h' 1 ([2] @ []) ([20] @ []) \<and> h' 3 = None \<and> (\<forall>y. y \<noteq> 3 \<longrightarrow> (h' y = None \<longleftrightarrow> two_nodes y = None))"
  using two_nodes_rep by (intro list_erase_node) simp_all

text \<open>
  C27. Destroying a list terminates, calls the release callback once on every object in list
  order, frees every node of the list and nothing else, and leaves an empty list.
\<close>

theorem list_destruct_releases_all:
  assumes "list_rep h l xs os"
  shows "\<exists>h'. list_destruct h l release = Some (h', if release then os else []) \<and>
    list_rep h' l [] [] \<and> (\<forall>y. h' y = None \<longleftrightarrow> h y = None \<or> y \<in> set xs)"
  using assms by (rule list_destruct_ok)

lemma list_destruct_releases_all_witness:
  "\<exists>h'. list_destruct two_nodes 1 True = Some (h', if True then [20, 30] else []) \<and>
    list_rep h' 1 [] [] \<and> (\<forall>y. h' y = None \<longleftrightarrow> two_nodes y = None \<or> y \<in> set [2, 3])"
  by (rule list_destruct_releases_all [OF two_nodes_rep])

text \<open>
  Splicing moves one node in front of another: within a list, or from one list to another
  list that shares no node with it. Both rings stay well formed and no object changes.
\<close>

theorem list_splice_moves:
  assumes "ring h m (us @ f # vs)" "ring h l (xs @ ys)" "set (m # us @ f # vs) \<inter> set (l # xs @ ys) = {}"
  shows "\<exists>h'. list_splice h (hd (ys @ [l])) f = Some h' \<and> ring h' l (xs @ f # ys) \<and>
    ring h' m (us @ vs) \<and> (\<forall>x. object_of h' x = object_of h x)"
proof -
  obtain h' where "list_splice h (hd (ys @ [l])) f = Some h'" "ring h' l (xs @ f # ys)"
    "ring h' m (us @ vs)" "\<And>x. object_of h' x = object_of h x"
    using list_splice_between [OF assms] by metis
  then show ?thesis by blast
qed

lemma list_splice_moves_witness:
  "\<exists>h'. list_splice (list_construct two_nodes 9) (hd ([] @ [9])) 3 = Some h' \<and> ring h' 9 ([] @ 3 # []) \<and>
    ring h' 1 ([2] @ []) \<and> (\<forall>x. object_of h' x = object_of (list_construct two_nodes 9) x)"
  by (rule list_splice_moves)
    (simp_all add: ring_def two_nodes_def list_construct_def list_next_def list_previous_def)

text \<open>
  Searching visits the objects in list order and returns the address of the first one the
  comparison accepts, or the null pointer when there is none; the walk ends at the sentinel.
\<close>

theorem list_find_first:
  assumes "list_rep h l xs os"
  shows "list_find h l compare = Some (map_option fst (find (\<lambda>p. compare (snd p)) (zip xs os)))"
  using assms by (rule list_find_ok)

lemma list_find_first_witness:
  "list_find two_nodes 1 (\<lambda>x. 25 < x) = Some (Some 3)"
  using list_find_first [OF two_nodes_rep, of "\<lambda>x. 25 < x"] by simp

end
