(* ===== verification/List_History.thy ===== *)
theory List_History
  imports Linked_List
begin

text \<open>
  Histories of operations on one list of \<^verbatim>\<open>src/reactor/list.c\<close>: the ring stays well formed
  in both directions under every sequence of calls, and is the list of its objects, each with
  the address the program knows it by.
\<close>

section \<open>Calls\<close>

datatype 'a list_call =
    Push_Front 'a addr
  | Push_Back 'a addr
  | Insert_Before addr 'a addr
  | Erase addr bool
  | Splice addr addr
  | Clear bool

primrec list_step :: "addr \<Rightarrow> 'a list_call \<Rightarrow> 'a heap \<Rightarrow> ('a heap \<times> 'a list) option" where
  "list_step l (Push_Front x new) h = do { (h, a) \<leftarrow> list_push_front h l x new; Some (h, []) }"
| "list_step l (Push_Back x new) h = do { (h, a) \<leftarrow> list_push_back h l x new; Some (h, []) }"
| "list_step l (Insert_Before at x new) h = do { (h, a) \<leftarrow> list_insert h at x new; Some (h, []) }"
| "list_step l (Erase at release) h = list_erase h at release"
| "list_step l (Splice to from) h = do { h \<leftarrow> list_splice h to from; Some (h, []) }"
| "list_step l (Clear release) h = list_clear h l release []"

primrec list_run :: "addr \<Rightarrow> 'a list_call list \<Rightarrow> 'a heap \<Rightarrow> ('a heap \<times> 'a list) option" where
  "list_run l [] h = Some (h, [])"
| "list_run l (c # cs) h = do { (h, released) \<leftarrow> list_step l c h; (h, log) \<leftarrow> list_run l cs h; Some (h, released @ log) }"

text \<open>The same calls on the list of addresses and objects.\<close>

definition place :: "addr \<Rightarrow> addr \<times> 'a \<Rightarrow> (addr \<times> 'a) list \<Rightarrow> (addr \<times> 'a) list" where
  "place at p ps = takeWhile (\<lambda>q. fst q \<noteq> at) ps @ p # dropWhile (\<lambda>q. fst q \<noteq> at) ps"

definition without :: "addr \<Rightarrow> (addr \<times> 'a) list \<Rightarrow> (addr \<times> 'a) list" where
  "without at ps = filter (\<lambda>q. fst q \<noteq> at) ps"

primrec objects_step :: "'a list_call \<Rightarrow> (addr \<times> 'a) list \<Rightarrow> (addr \<times> 'a) list \<times> 'a list" where
  "objects_step (Push_Front x new) ps = ((new, x) # ps, [])"
| "objects_step (Push_Back x new) ps = (ps @ [(new, x)], [])"
| "objects_step (Insert_Before at x new) ps = (place at (new, x) ps, [])"
| "objects_step (Erase at release) ps = (without at ps, if release then map snd (filter (\<lambda>q. fst q = at) ps) else [])"
| "objects_step (Splice to from) ps = (if to = from then ps else place to (from, the (map_of ps from)) (without from ps), [])"
| "objects_step (Clear release) ps = ([], if release then map snd ps else [])"

primrec objects_run :: "'a list_call list \<Rightarrow> (addr \<times> 'a) list \<Rightarrow> (addr \<times> 'a) list \<times> 'a list" where
  "objects_run [] ps = (ps, [])"
| "objects_run (c # cs) ps = (case objects_step c ps of (ps, released) \<Rightarrow> case objects_run cs ps of (ps, log) \<Rightarrow> (ps, released @ log))"

text \<open>Addresses are those of nodes in the list, or, where an object is put, of its sentinel; \<open>calloc\<close> answers free ones.\<close>

primrec list_call_ok :: "addr \<Rightarrow> 'a list_call \<Rightarrow> 'a heap \<Rightarrow> (addr \<times> 'a) list \<Rightarrow> bool" where
  "list_call_ok l (Push_Front x new) h ps \<longleftrightarrow> h new = None"
| "list_call_ok l (Push_Back x new) h ps \<longleftrightarrow> h new = None"
| "list_call_ok l (Insert_Before at x new) h ps \<longleftrightarrow> h new = None \<and> at \<in> set (l # map fst ps)"
| "list_call_ok l (Erase at release) h ps \<longleftrightarrow> at \<in> set (map fst ps)"
| "list_call_ok l (Splice to from) h ps \<longleftrightarrow> to \<in> set (l # map fst ps) \<and> from \<in> set (map fst ps)"
| "list_call_ok l (Clear release) h ps \<longleftrightarrow> True"

primrec list_calls_ok :: "addr \<Rightarrow> 'a list_call list \<Rightarrow> 'a heap \<Rightarrow> (addr \<times> 'a) list \<Rightarrow> bool" where
  "list_calls_ok l [] h ps \<longleftrightarrow> True"
| "list_calls_ok l (c # cs) h ps \<longleftrightarrow> list_call_ok l c h ps \<and>
     (case list_step l c h of None \<Rightarrow> True | Some (h', released) \<Rightarrow> list_calls_ok l cs h' (fst (objects_step c ps)))"

section \<open>Every call keeps the ring\<close>

definition holds_ring :: "'a heap \<Rightarrow> addr \<Rightarrow> (addr \<times> 'a) list \<Rightarrow> bool" where
  "holds_ring h l ps \<longleftrightarrow> list_rep h l (map fst ps) (map snd ps)"

text \<open>The position of an address splits the list.\<close>

lemma split_at:
  assumes "at \<in> set (l # map fst ps)" "distinct (l # map fst ps)"
  obtains us vs where "ps = us @ vs" "at = hd (map fst vs @ [l])" "place at p ps = us @ p # vs"
proof -
  let ?P = "\<lambda>q. fst q \<noteq> at"
  have "hd (map fst (dropWhile ?P ps) @ [l]) = at"
  proof (cases "dropWhile ?P ps")
    case Nil
    then have "at \<notin> set (map fst ps)" by (auto simp: dropWhile_eq_Nil_conv)
    then have "at = l" using assms(1) by simp
    then show ?thesis unfolding Nil by simp
  next
    case (Cons q qs)
    then show ?thesis using hd_dropWhile [of ?P ps] by simp
  qed
  then show thesis by (intro that [of "takeWhile ?P ps" "dropWhile ?P ps"]) (simp_all add: place_def)
qed

lemma split_node:
  assumes "at \<in> set (map fst ps)" "distinct (map fst ps)"
  obtains us x vs where "ps = us @ (at, x) # vs" "without at ps = us @ vs" "filter (\<lambda>q. fst q = at) ps = [(at, x)]" "map_of ps at = Some x"
proof -
  obtain x where "(at, x) \<in> set ps" using assms(1) by auto
  then obtain us vs where ps: "ps = us @ (at, x) # vs" by (meson split_list)
  have n: "at \<notin> fst ` set us" "at \<notin> fst ` set vs" using assms(2) by (auto simp: ps)
  then have "filter (\<lambda>q. fst q \<noteq> at) us = us" "filter (\<lambda>q. fst q \<noteq> at) vs = vs" "filter (\<lambda>q. fst q = at) us = []" "filter (\<lambda>q. fst q = at) vs = []"
    by (auto simp: filter_id_conv filter_empty_conv)
  moreover have "map_of ps at = Some x" using assms(2) ps by (intro map_of_is_SomeI) auto
  ultimately show thesis using ps by (intro that [of us x vs]) (simp_all add: without_def)
qed

lemma insert_step:
  assumes "holds_ring h l (us @ vs)" "h new = None"
  shows "\<exists>h'. list_insert h (hd (map fst vs @ [l])) x new = Some (h', new) \<and> holds_ring h' l (us @ (new, x) # vs)"
  using list_insert_ok [of h l "map fst us" "map fst vs" "map snd us" "map snd vs" new x] assms
  by (fastforce simp: holds_ring_def)

lemma splice_step:
  assumes "holds_ring h l (us @ (f, x) # vs)" "us @ vs = xs @ ys"
  shows "\<exists>h'. list_splice h (hd (map fst ys @ [l])) f = Some h' \<and> holds_ring h' l (xs @ (f, x) # ys)"
proof -
  have r: "ring h l (map fst us @ f # map fst vs)" and m: "map (object_of h) (map fst us @ f # map fst vs) = map Some (map snd us @ x # map snd vs)"
    using assms(1) by (simp_all add: holds_ring_def list_rep_def)
  have e: "map fst us @ map fst vs = map fst xs @ map fst ys" using assms(2) by (metis map_append)
  obtain h' where h': "list_splice h (hd (map fst ys @ [l])) f = Some h'" "ring h' l (map fst xs @ f # map fst ys)"
    "\<And>x. object_of h' x = object_of h x" using list_splice_within [OF r e] by metis
  have "\<forall>q \<in> set (us @ (f, x) # vs). object_of h (fst q) = Some (snd q)"
    using m by (auto simp: map_eq_conv)
  then have "\<forall>q \<in> set (us @ vs). object_of h (fst q) = Some (snd q)" "object_of h f = Some x" by auto
  then have "\<forall>q \<in> set (xs @ ys). object_of h (fst q) = Some (snd q)" "object_of h f = Some x" unfolding assms(2) by blast+
  then have "list_rep h' l (map fst (xs @ (f, x) # ys)) (map snd (xs @ (f, x) # ys))"
    using h'(2,3) by (auto simp: list_rep_def)
  then show ?thesis using h'(1) by (auto simp: holds_ring_def)
qed

lemma list_step_ok:
  assumes "holds_ring h l ps" "list_call_ok l c h ps"
  shows "\<exists>h'. list_step l c h = Some (h', snd (objects_step c ps)) \<and> holds_ring h' l (fst (objects_step c ps))"
proof -
  have rep: "list_rep h l (map fst ps) (map snd ps)" using assms(1) by (simp add: holds_ring_def)
  have d: "distinct (l # map fst ps)" using list_repD(2) [OF rep] .
  show ?thesis
  proof (cases c)
    case (Push_Front x new)
    have "holds_ring h l ([] @ ps)" "h new = None" using assms Push_Front by simp_all
    from insert_step [OF this, of x] show ?thesis
      using Push_Front list_front_ok [of h l "map fst ps"] rep by (auto simp: list_push_front_def list_rep_def)
  next
    case (Push_Back x new)
    have "holds_ring h l (ps @ [])" "h new = None" using assms Push_Back by simp_all
    from insert_step [OF this, of x] show ?thesis using Push_Back by (auto simp: list_push_back_def list_end_def)
  next
    case (Insert_Before at x new)
    then have "at \<in> set (l # map fst ps)" "h new = None" using assms(2) by simp_all
    then obtain us vs where s: "ps = us @ vs" "at = hd (map fst vs @ [l])" "place at (new, x) ps = us @ (new, x) # vs"
      using split_at d by metis
    then show ?thesis using insert_step [of h l us vs new x] assms(1) \<open>h new = None\<close> Insert_Before by auto
  next
    case (Erase at release)
    then have "at \<in> set (map fst ps)" "distinct (map fst ps)" using assms(2) d by simp_all
    then obtain us x vs where s: "ps = us @ (at, x) # vs" "without at ps = us @ vs" "filter (\<lambda>q. fst q = at) ps = [(at, x)]"
      using split_node by metis
    have "list_rep h l (map fst us @ at # map fst vs) (map snd us @ x # map snd vs)" using rep s(1) by simp
    from list_erase_ok [OF this, of release] obtain h' where "list_erase h at release = Some (h', if release then [x] else [])"
      "list_rep h' l (map fst us @ map fst vs) (map snd us @ map snd vs)" by auto
    then show ?thesis using Erase s(2,3) by (auto simp: holds_ring_def)
  next
    case (Splice to f)
    then have "f \<in> set (map fst ps)" "distinct (map fst ps)" using assms(2) d by simp_all
    then obtain us x vs where s: "ps = us @ (f, x) # vs" "without f ps = us @ vs" "map_of ps f = Some x"
      using split_node by metis
    show ?thesis
    proof (cases "to = f")
      case True
      then show ?thesis using Splice assms(1) by (simp add: list_splice_def)
    next
      case False
      then have "to \<in> set (l # map fst (us @ vs))" "distinct (l # map fst (us @ vs))" using assms(2) Splice s(1) d by auto
      then obtain xs ys where t: "us @ vs = xs @ ys" "to = hd (map fst ys @ [l])" "place to (f, x) (us @ vs) = xs @ (f, x) # ys"
        using split_at by metis
      show ?thesis
        using splice_step [OF _ t(1), of h l f x] assms(1) s t(2,3) False Splice by auto
    qed
  next
    case (Clear release)
    then show ?thesis using list_clear_ok [OF rep, of release "[]"] by (auto simp: holds_ring_def)
  qed
qed

lemma list_run_ok:
  "holds_ring h l ps \<Longrightarrow> list_calls_ok l cs h ps \<Longrightarrow>
   \<exists>h'. list_run l cs h = Some (h', snd (objects_run cs ps)) \<and> holds_ring h' l (fst (objects_run cs ps))"
proof (induction cs arbitrary: h ps)
  case (Cons c cs)
  obtain h1 where h1: "list_step l c h = Some (h1, snd (objects_step c ps))" "holds_ring h1 l (fst (objects_step c ps))"
    using list_step_ok [OF Cons.prems(1), of c] Cons.prems(2) by auto
  then have "list_calls_ok l cs h1 (fst (objects_step c ps))" using Cons.prems(2) by simp
  from Cons.IH [OF h1(2) this] show ?case using h1(1) by (auto split: prod.splits)
qed simp

text \<open>
  C28. Every sequence of calls on a list keeps it well formed: the nodes hang on each other in a ring through the
  sentinel, forwards and backwards, each with its object. The ring is the list of objects on
  which the calls are list operations, exactly the objects taken out with a release
  callback are released, in order, and no call touches memory that is not a node.
\<close>

theorem list_history:
  assumes "holds_ring h l ps" "list_calls_ok l cs h ps"
  shows "\<exists>h'. list_run l cs h = Some (h', snd (objects_run cs ps)) \<and> holds_ring h' l (fst (objects_run cs ps))"
  using assms by (rule list_run_ok)

theorem list_history_witness:
  "\<exists>h'. list_run 1 [Push_Front 7 2, Push_Back 8 3, Insert_Before 3 9 4, Splice 2 3, Erase 4 True] (list_construct Map.empty 1) =
      Some (h', [9 :: nat]) \<and> holds_ring h' 1 [(3, 8), (2, 7)]"
proof -
  let ?cs = "[Push_Front 7 2, Push_Back 8 3, Insert_Before 3 9 4, Splice 2 3, Erase 4 True] :: nat list_call list"
  let ?h = "list_construct Map.empty 1 :: nat heap"
  have a: "holds_ring ?h 1 []" using list_construct_rep by (simp add: holds_ring_def)
  have b: "list_calls_ok 1 ?cs ?h []"
    by (simp add: list_construct_def list_push_front_def list_push_back_def list_insert_def list_front_def list_end_def list_item_new_def
        link_before_def list_previous_def list_next_def set_previous_def set_next_def list_splice_def unlink_def list_erase_def place_def without_def)
  have c: "objects_run ?cs [] = ([(3, 8), (2, 7)], [9])" by (simp add: place_def without_def)
  from list_history [OF a b] show ?thesis unfolding c fst_conv snd_conv .
qed

end
