(* ===== verification/Probe_Table.thy ===== *)
theory Probe_Table
  imports Prelude "HOL-Library.Multiset"
begin

text \<open>
  Open addressing as a property of a list, without the C code around it: distances on a circle
  of slots, the probing invariant of a table, and how placing an element, scanning past an
  element and moving an element into a hole affect it. \<open>Hash_Map\<close> applies these facts to
  the loops of \<^verbatim>\<open>src/reactor/map.c\<close>.
\<close>

section \<open>Positions on the circle\<close>

text \<open>
  The distance from a position forward to another in a table of \<open>N\<close> slots. Written out, every
  fact on it is linear arithmetic.
\<close>

definition dist :: "nat \<Rightarrow> nat \<Rightarrow> nat \<Rightarrow> nat" where
  "dist N a b = (if a \<le> b then b - a else b + N - a)"

definition nxt :: "nat \<Rightarrow> nat \<Rightarrow> nat" where
  "nxt N a = (if Suc a = N then 0 else Suc a)"

lemma nxt_less: "a < N \<Longrightarrow> nxt N a < N"
  by (auto simp: nxt_def)

lemma nxt_mod: "a < N \<Longrightarrow> Suc a mod N = nxt N a"
  by (auto simp: nxt_def)

lemma dist_step: "a < N \<Longrightarrow> b < N \<Longrightarrow> a \<noteq> b \<Longrightarrow> dist N (nxt N a) b < dist N a b"
  by (auto simp: dist_def nxt_def split: if_splits)

lemma dist_nxt: "h < N \<Longrightarrow> a < N \<Longrightarrow> c < N \<Longrightarrow> nxt N a \<noteq> h \<Longrightarrow>
   dist N h c < dist N h (nxt N a) \<longleftrightarrow> c = a \<or> dist N h c < dist N h a"
  by (auto simp: dist_def nxt_def split: if_splits)

lemma dist_self [simp]: "dist N a a = 0" by (simp add: dist_def)

lemma move_condition:
  assumes "i < N" "j < N" "k < N" "i \<noteq> j"
  shows "i < j \<and> (k \<le> i \<or> j < k) \<or> j < i \<and> (k \<le> i \<and> j < k) \<longleftrightarrow> dist N k i < dist N k j"
  using assms by (auto simp: dist_def)

section \<open>The probing invariant\<close>

text \<open>
  \<open>occ\<close> tells the slots in use, \<open>home\<close> gives the slot an element hashes to. Every slot between the
  home of an element and the element is in use, but for the slots in \<open>X\<close>.
\<close>

definition probes :: "('e \<Rightarrow> nat) \<Rightarrow> ('e \<Rightarrow> bool) \<Rightarrow> 'e list \<Rightarrow> nat set \<Rightarrow> bool" where
  "probes home occ es X \<longleftrightarrow>
     (\<forall>p < length es. occ (es ! p) \<longrightarrow>
       (\<forall>c < length es. dist (length es) (home (es ! p)) c < dist (length es) (home (es ! p)) p \<longrightarrow>
          c \<in> X \<or> occ (es ! c)))"

lemma table_insert:
  assumes "probes home occ es {}" "r < length es" "\<not> occ (es ! r)" "occ e"
    "\<And>c. c < length es \<Longrightarrow> dist (length es) (home e) c < dist (length es) (home e) r \<Longrightarrow> occ (es ! c)"
  shows "probes home occ (es[r := e]) {}"
  unfolding probes_def length_list_update
proof (intro allI impI)
  let ?N = "length es"
  fix p c assume p: "p < ?N" "occ (es[r := e] ! p)" and c: "c < ?N"
    "dist ?N (home (es[r := e] ! p)) c < dist ?N (home (es[r := e] ! p)) p"
  have "occ (es ! c) \<or> c = r"
  proof (cases "p = r")
    case True
    then show ?thesis using assms(2,5) c by simp
  next
    case False
    then have e: "es[r := e] ! p = es ! p" by simp
    show ?thesis
      using assms(1) [unfolded probes_def, rule_format, OF p(1) _ c(1)] p(2) c(2) unfolding e by blast
  qed
  then show "c \<in> {} \<or> occ (es[r := e] ! c)"
    using assms(2,4) by (cases "c = r") simp_all
qed

text \<open>
  The shifting loop. The slot \<open>i\<close> is the hole (the array still holds a stale element there) and
  the slots after it up to \<open>j\<close> have been scanned: none of them may move into the hole. The
  table with the hole blanked loses and gains no element, and when the loop ends it is well
  formed without exception.
\<close>

definition scanned :: "('e \<Rightarrow> nat) \<Rightarrow> ('e \<Rightarrow> bool) \<Rightarrow> 'e list \<Rightarrow> nat \<Rightarrow> nat \<Rightarrow> bool" where
  "scanned home occ T i j \<longleftrightarrow> (\<forall>p < length T. p \<noteq> i \<longrightarrow> dist (length T) i p \<le> dist (length T) i j \<longrightarrow>
     occ (T ! p) \<and> \<not> dist (length T) (home (T ! p)) i < dist (length T) (home (T ! p)) p)"

lemma scan_ends:
  assumes "probes home occ T {i}" "scanned home occ T i j" "\<not> occ (T ! nxt (length T) j)"
    "i < length T" "j < length T" "nxt (length T) j \<noteq> i" "\<not> occ (T ! i)"
    "\<And>e. home e < length T"
  shows "probes home occ T {}"
  unfolding probes_def
proof (intro allI impI)
  let ?N = "length T" and ?j = "nxt (length T) j"
  fix p c assume p: "p < ?N" "occ (T ! p)" and c: "c < ?N" "dist ?N (home (T ! p)) c < dist ?N (home (T ! p)) p"
  have j: "?j < ?N" using assms(5) by (rule nxt_less)
  show "c \<in> {} \<or> occ (T ! c)"
  proof (rule ccontr)
    assume "\<not> ?thesis"
    then have ci: "c = i" using assms(1) p c unfolding probes_def by blast
    have "p \<noteq> i" "p \<noteq> ?j" using p(2) assms(3,7) by auto
    then have "\<not> dist ?N i p \<le> dist ?N i j" using assms(2) p c(2) unfolding scanned_def ci by blast
    then have "dist ?N (home (T ! p)) ?j < dist ?N (home (T ! p)) p"
      using c(2) \<open>p \<noteq> ?j\<close> assms(4-6) assms(8) [of "T ! p"] p(1) j unfolding ci
      by (auto simp: dist_def nxt_def split: if_splits)
    then show False using assms(1,3,6) p j unfolding probes_def by blast
  qed
qed

lemma scan_extends:
  assumes "scanned home occ T i j" "occ (T ! nxt (length T) j)" "i < length T" "j < length T"
    "nxt (length T) j \<noteq> i"
    "\<not> dist (length T) (home (T ! nxt (length T) j)) i < dist (length T) (home (T ! nxt (length T) j)) (nxt (length T) j)"
  shows "scanned home occ T i (nxt (length T) j)"
  unfolding scanned_def
proof (intro allI impI)
  let ?N = "length T" and ?j = "nxt (length T) j"
  fix p assume p: "p < ?N" "p \<noteq> i" "dist ?N i p \<le> dist ?N i ?j"
  show "occ (T ! p) \<and> \<not> dist ?N (home (T ! p)) i < dist ?N (home (T ! p)) p"
  proof (cases "p = ?j")
    case True
    then show ?thesis using assms(2,6) by simp
  next
    case False
    then have "dist ?N i p \<le> dist ?N i j"
      using p assms(3-5) by (auto simp: dist_def nxt_def split: if_splits)
    then show ?thesis using assms(1) p(1,2) unfolding scanned_def by blast
  qed
qed

text \<open>Moving the element at \<open>j\<close> into the hole makes \<open>j\<close> the hole.\<close>

lemma move_probes:
  assumes "probes home occ T {i}" "i < length T" "j < length T" "i \<noteq> j" "occ (T ! j)"
    "dist (length T) (home (T ! j)) i < dist (length T) (home (T ! j)) j" "\<not> occ x"
  shows "probes home occ (T[i := T ! j, j := x]) {j}"
  unfolding probes_def length_list_update
proof (intro allI impI)
  let ?N = "length T" and ?T = "T[i := T ! j, j := x]"
  fix p c assume p: "p < ?N" "occ (?T ! p)"
    and c: "c < ?N" "dist ?N (home (?T ! p)) c < dist ?N (home (?T ! p)) p"
  have pj: "p \<noteq> j" using p(2) assms(3,7) by auto
  have T: "?T ! q = (if q = j then x else if q = i then T ! j else T ! q)" if "q < ?N" for q
    using that by simp
  have "c = i \<or> occ (T ! c)"
  proof (cases "p = i")
    case True
    then have "dist ?N (home (T ! j)) c < dist ?N (home (T ! j)) j"
      using c assms(6) pj p(1) by (simp add: T)
    then show ?thesis using assms(1,3,5) c(1) unfolding probes_def by blast
  next
    case False
    then show ?thesis using assms(1) p c pj unfolding probes_def by (auto simp: T)
  qed
  then show "c \<in> {j} \<or> occ (?T ! c)"
    using assms(5) c(1) by (auto simp: T)
qed

section \<open>Lists with unique keys\<close>

lemma distinct_map_filter:
  "distinct (map f (filter P xs)) \<longleftrightarrow>
   (\<forall>i < length xs. \<forall>j < length xs. P (xs ! i) \<longrightarrow> P (xs ! j) \<longrightarrow> f (xs ! i) = f (xs ! j) \<longrightarrow> i = j)"
proof (induction xs)
  case (Cons x xs)
  have "f x \<in> f ` set (filter P xs) \<longleftrightarrow> (\<exists>j < length xs. P (xs ! j) \<and> f (xs ! j) = f x)"
    unfolding image_iff by (auto simp: in_set_conv_nth)
  then have "distinct (map f (filter P (x # xs))) \<longleftrightarrow>
      (P x \<longrightarrow> (\<forall>j < length xs. P (xs ! j) \<longrightarrow> f (xs ! j) \<noteq> f x)) \<and> distinct (map f (filter P xs))"
    by auto
  also have "\<dots> \<longleftrightarrow> (\<forall>i < length (x # xs). \<forall>j < length (x # xs). P ((x # xs) ! i) \<longrightarrow> P ((x # xs) ! j)
      \<longrightarrow> f ((x # xs) ! i) = f ((x # xs) ! j) \<longrightarrow> i = j)"
    unfolding Cons.IH length_Cons All_less_Suc2 nth_Cons_0 nth_Cons_Suc
    by auto
  finally show ?case .
qed simp

lemma find_unique:
  assumes "distinct (map f (filter P xs))"
  shows "find (\<lambda>x. P x \<and> f x = k) xs = Some y \<longleftrightarrow> y \<in> set xs \<and> P y \<and> f y = k"
  using assms
proof (induction xs)
  case (Cons a xs)
  have d: "distinct (map f (filter P xs))" using Cons.prems by (cases "P a") simp_all
  have n: "f x \<noteq> f a" if "P a" "x \<in> set xs" "P x" for x
  proof -
    have "f a \<notin> f ` {x \<in> set xs. P x}" using Cons.prems that(1) by simp
    with that show ?thesis by (metis (mono_tags, lifting) imageI mem_Collect_eq)
  qed
  show ?case
  proof (cases "P a \<and> f a = k")
    case True
    then have "\<not> (y \<in> set xs \<and> P y \<and> f y = k)" using n [of y] by metis
    with True show ?thesis by auto
  next
    case False
    then show ?thesis using Cons.IH [OF d] by auto
  qed
qed simp

text \<open>A slot updated from vacant to occupied, and a blanked slot.\<close>

lemma filter_update_occupied:
  assumes "p < length es" "\<not> P (es ! p)" "P x"
  shows "mset (filter P (es[p := x])) = add_mset x (mset (filter P es))"
  using assms by (simp add: mset_update)

lemma filter_update_vacant:
  assumes "p < length es" "P (es ! p)" "\<not> P x"
  shows "add_mset (es ! p) (mset (filter P (es[p := x]))) = mset (filter P es)"
proof -
  have "mset es = add_mset (es ! p) (mset es - {#es ! p#})" using assms(1) by simp
  then have "filter_mset P (mset es) = add_mset (es ! p) (filter_mset P (mset es - {#es ! p#}))"
    by (metis assms(2) filter_mset_add_mset)
  then show ?thesis using assms by (simp add: mset_update)
qed

end
