(* ===== verification/Hash_Map.thy ===== *)
theory Hash_Map
  imports Probe_Table
begin

text \<open>
  \<^verbatim>\<open>src/reactor/map.c\<close>: an open addressing hash table with linear probing, a load factor of
  at most one half, and deletion by shifting later elements back. The C functions take the
  client's callbacks \<open>hash\<close>, \<open>set\<close>, \<open>equal\<close> as arguments; here they are one record.
  \<open>set(p, NULL)\<close> writes the vacant element and \<open>equal(p, NULL)\<close> asks for it. A
  \<^term>\<open>None\<close> of \<open>op_hash\<close> is a callback that faults. The calls of the release callback are
  returned in order; the null callback is \<^term>\<open>False\<close>.

  The laws the callbacks have to satisfy are the locale \<open>map_callbacks\<close>; in it the table is
  proved to be a finite map from keys to elements. The theories of the two clients interpret it.
\<close>

record 'e map_ops =
  op_hash :: "'e \<Rightarrow> u64 option"
  op_set :: "'e option \<Rightarrow> 'e"
  op_equal :: "'e \<Rightarrow> 'e option \<Rightarrow> bool"

record 'e hmap =
  elements :: "'e list option"
  elements_count :: u64
  elements_capacity :: u64
  element_size :: u64

definition MAP_ELEMENTS_CAPACITY_MIN :: u64 where "MAP_ELEMENTS_CAPACITY_MIN = 16"

definition map_roundup :: "u64 \<Rightarrow> u64" where
  "map_roundup s =
     (let s = s - 1;
          s = s OR drop_bit 1 s; s = s OR drop_bit 2 s; s = s OR drop_bit 4 s;
          s = s OR drop_bit 8 s; s = s OR drop_bit 16 s; s = s OR drop_bit 32 s
      in s + 1)"

text \<open>Reading and writing through the pointer \<open>map_element(m, position)\<close>.\<close>

definition map_element :: "'e hmap \<Rightarrow> u64 \<Rightarrow> 'e option" where
  "map_element m p = do {
     es \<leftarrow> elements m;
     (if unat p < length es then Some (es ! unat p) else None) }"

definition map_element_put :: "'e hmap \<Rightarrow> u64 \<Rightarrow> 'e \<Rightarrow> 'e hmap option" where
  "map_element_put m p e = do {
     es \<leftarrow> elements m;
     (if unat p < length es then Some (m\<lparr>elements := Some (es[unat p := e])\<rparr>) else None) }"

primrec map_release_loop :: "'e map_ops \<Rightarrow> 'e hmap \<Rightarrow> nat \<Rightarrow> 'e list option" where
  "map_release_loop ops m 0 = Some []"
| "map_release_loop ops m (Suc i) = do {
     log \<leftarrow> map_release_loop ops m i;
     e \<leftarrow> map_element m (word_of_nat i);
     Some (if op_equal ops e None then log else log @ [e]) }"

definition map_release_all :: "'e map_ops \<Rightarrow> 'e hmap \<Rightarrow> bool \<Rightarrow> 'e list option" where
  "map_release_all ops m release =
     (if release then map_release_loop ops m (unat (elements_capacity m)) else Some [])"

text \<open>\<open>map_at\<close> returns a pointer into the table, that is a position.\<close>

partial_function (option) map_at_loop :: "'e map_ops \<Rightarrow> 'e hmap \<Rightarrow> 'e \<Rightarrow> u64 \<Rightarrow> u64 option" where
  "map_at_loop ops m element i = (let i = i AND (elements_capacity m - 1) in do {
     test \<leftarrow> map_element m i;
     (if op_equal ops test None \<or> op_equal ops test (Some element) then Some i
      else map_at_loop ops m element (i + 1)) })"

definition map_at :: "'e map_ops \<Rightarrow> 'e hmap \<Rightarrow> 'e \<Rightarrow> u64 option" where
  "map_at ops m element = do { i \<leftarrow> op_hash ops element; map_at_loop ops m element i }"

text \<open>
  \<open>map_insert\<close>, \<open>map_reserve\<close> and \<open>map_rehash\<close> call each other. Each is written with the
  function it calls as an argument; \<open>map_insert_depth d\<close> closes the recursion for at most \<open>d\<close>
  nested rehashes. One is enough: inserting into the new table never rehashes again
  (\<open>map_rehash_ok\<close>).
\<close>

definition map_reserve_with ::
    "('e hmap \<Rightarrow> u64 \<Rightarrow> 'e hmap option) \<Rightarrow> 'e hmap \<Rightarrow> u64 \<Rightarrow> 'e hmap option" where
  "map_reserve_with rehash m n =
     (let n = n * 2 in if elements_capacity m < n then rehash m n else Some m)"

definition map_insert_with :: "('e hmap \<Rightarrow> u64 \<Rightarrow> 'e hmap option) \<Rightarrow> 'e map_ops \<Rightarrow> 'e hmap \<Rightarrow> 'e
    \<Rightarrow> bool \<Rightarrow> ('e hmap \<times> 'e list) option" where
  "map_insert_with rehash ops m element release = do {
     m \<leftarrow> map_reserve_with rehash m (elements_count m + 1);
     i \<leftarrow> map_at ops m element;
     test \<leftarrow> map_element m i;
     (if op_equal ops test None then do {
        m \<leftarrow> map_element_put m i (op_set ops (Some element));
        Some (m\<lparr>elements_count := elements_count m + 1\<rparr>, []) }
      else Some (m, if release then [element] else [])) }"

primrec reinsert_loop :: "('e hmap \<Rightarrow> 'e \<Rightarrow> 'e hmap option) \<Rightarrow> 'e map_ops \<Rightarrow> 'e hmap
    \<Rightarrow> 'e hmap \<Rightarrow> nat \<Rightarrow> 'e hmap option" where
  "reinsert_loop ins ops m new 0 = Some new"
| "reinsert_loop ins ops m new (Suc i) = do {
     new \<leftarrow> reinsert_loop ins ops m new i;
     e \<leftarrow> map_element m (word_of_nat i);
     (if op_equal ops e None then Some new else ins new e) }"

definition map_rehash_with :: "('e hmap \<Rightarrow> 'e \<Rightarrow> 'e hmap option) \<Rightarrow> 'e map_ops \<Rightarrow> 'e hmap
    \<Rightarrow> u64 \<Rightarrow> 'e hmap option" where
  "map_rehash_with ins ops m n =
     (let n = map_roundup n in
      if unat n * unat (element_size m) < 2 ^ 64 then
        let new = m\<lparr>elements := Some (replicate (unat n) (op_set ops None)),
                    elements_count := 0, elements_capacity := n\<rparr> in
        (if elements m = None then Some new
         else reinsert_loop ins ops m new (unat (elements_capacity m)))
      else None)"

primrec map_insert_depth :: "nat \<Rightarrow> 'e map_ops \<Rightarrow> 'e hmap \<Rightarrow> 'e \<Rightarrow> bool
    \<Rightarrow> ('e hmap \<times> 'e list) option" where
  "map_insert_depth 0 ops = map_insert_with (\<lambda>m n. None) ops"
| "map_insert_depth (Suc d) ops = map_insert_with
     (map_rehash_with (\<lambda>m e. map_option fst (map_insert_depth d ops m e False)) ops) ops"

definition map_insert :: "'e map_ops \<Rightarrow> 'e hmap \<Rightarrow> 'e \<Rightarrow> bool \<Rightarrow> ('e hmap \<times> 'e list) option" where
  "map_insert = map_insert_depth 1"

definition map_rehash :: "'e map_ops \<Rightarrow> 'e hmap \<Rightarrow> u64 \<Rightarrow> 'e hmap option" where
  "map_rehash ops = map_rehash_with (\<lambda>m e. map_option fst (map_insert_depth 0 ops m e False)) ops"

definition map_reserve :: "'e map_ops \<Rightarrow> 'e hmap \<Rightarrow> u64 \<Rightarrow> 'e hmap option" where
  "map_reserve ops = map_reserve_with (map_rehash ops)"

definition map_construct :: "'e map_ops \<Rightarrow> u64 \<Rightarrow> 'e hmap option" where
  "map_construct ops width = map_rehash ops
     \<lparr>elements = None, elements_count = 0, elements_capacity = 0, element_size = width\<rparr>
     MAP_ELEMENTS_CAPACITY_MIN"

definition map_destruct :: "'e map_ops \<Rightarrow> 'e hmap \<Rightarrow> bool \<Rightarrow> ('e hmap \<times> 'e list) option" where
  "map_destruct ops m release = do {
     log \<leftarrow> map_release_all ops m release;
     Some (m\<lparr>elements := None\<rparr>, log) }"

definition map_size :: "'e hmap \<Rightarrow> u64" where "map_size m = elements_count m"

definition map_clear :: "'e map_ops \<Rightarrow> 'e hmap \<Rightarrow> bool \<Rightarrow> ('e hmap \<times> 'e list) option" where
  "map_clear ops m release = do {
     log \<leftarrow> map_release_all ops m release;
     m \<leftarrow> map_rehash ops (m\<lparr>elements := None, elements_count := 0, elements_capacity := 0\<rparr>)
            MAP_ELEMENTS_CAPACITY_MIN;
     Some (m, log) }"

text \<open>The two loops of \<open>map_erase\<close>: finding the element, then closing the gap behind it.\<close>

partial_function (option) erase_find ::
    "'e map_ops \<Rightarrow> 'e hmap \<Rightarrow> 'e \<Rightarrow> u64 \<Rightarrow> u64 option option" where
  "erase_find ops m element i = (let i = i AND (elements_capacity m - 1) in do {
     test \<leftarrow> map_element m i;
     (if op_equal ops test None then Some None
      else if op_equal ops test (Some element) then Some (Some i)
      else erase_find ops m element (i + 1)) })"

partial_function (option) erase_shift ::
    "'e map_ops \<Rightarrow> 'e hmap \<Rightarrow> u64 \<Rightarrow> u64 \<Rightarrow> ('e hmap \<times> u64) option" where
  "erase_shift ops m i j = (let j = (j + 1) AND (elements_capacity m - 1) in do {
     e \<leftarrow> map_element m j;
     (if op_equal ops e None then Some (m, i)
      else do {
        h \<leftarrow> op_hash ops e;
        let k = h AND (elements_capacity m - 1);
        (if i < j \<and> (k \<le> i \<or> j < k) \<or> j < i \<and> (k \<le> i \<and> j < k)
         then do {
           m \<leftarrow> map_element_put m i (op_set ops (Some e));
           erase_shift ops m j j }
         else erase_shift ops m i j) }) })"

definition map_erase :: "'e map_ops \<Rightarrow> 'e hmap \<Rightarrow> 'e \<Rightarrow> bool \<Rightarrow> ('e hmap \<times> 'e list) option" where
  "map_erase ops m element release = do {
     h \<leftarrow> op_hash ops element;
     found \<leftarrow> erase_find ops m element h;
     (case found of
        None \<Rightarrow> Some (m, [])
      | Some i \<Rightarrow> do {
          test \<leftarrow> map_element m i;
          r \<leftarrow> erase_shift ops (m\<lparr>elements_count := elements_count m - 1\<rparr>) i i;
          m \<leftarrow> map_element_put (fst r) (snd r) (op_set ops None);
          Some (m, if release then [test] else []) }) }"

section \<open>The table as a list\<close>

text \<open>\<open>occupied\<close> is the client's notion of a slot in use.\<close>

definition occupied :: "'e map_ops \<Rightarrow> 'e \<Rightarrow> bool" where
  "occupied ops e \<longleftrightarrow> \<not> op_equal ops e None"

definition table_keys :: "('e \<Rightarrow> 'k) \<Rightarrow> 'e map_ops \<Rightarrow> 'e list \<Rightarrow> 'k list" where
  "table_keys key ops es = map key (filter (occupied ops) es)"

definition map_inv :: "'e map_ops \<Rightarrow> ('e \<Rightarrow> 'k) \<Rightarrow> ('k \<Rightarrow> u64) \<Rightarrow> 'e hmap \<Rightarrow> bool" where
  "map_inv ops key khash m \<longleftrightarrow>
     (\<exists>es k. elements m = Some es \<and> length es = unat (elements_capacity m) \<and>
       unat (elements_capacity m) = 2 ^ k \<and> 2 \<le> unat (elements_capacity m) \<and>
       unat (elements_count m) = length (table_keys key ops es) \<and>
       2 * unat (elements_count m) \<le> unat (elements_capacity m) \<and>
       unat (elements_capacity m) * unat (element_size m) < 2 ^ 64 \<and>
       distinct (table_keys key ops es) \<and>
       probes (\<lambda>e. unat (khash (key e)) mod length es) (occupied ops) es {} \<and>
       (\<forall>x \<in> set es. \<not> occupied ops x \<longrightarrow> x = op_set ops None))"

text \<open>The finite map a table stands for.\<close>

definition map_view :: "'e map_ops \<Rightarrow> ('e \<Rightarrow> 'k) \<Rightarrow> 'e hmap \<Rightarrow> 'k \<Rightarrow> 'e option" where
  "map_view ops key m k = (case elements m of None \<Rightarrow> None
     | Some es \<Rightarrow> find (\<lambda>e. occupied ops e \<and> key e = k) es)"

section \<open>The laws of the callbacks, and the table under them\<close>

locale map_callbacks =
  fixes ops :: "'e map_ops" and key :: "'e \<Rightarrow> 'k" and khash :: "'k \<Rightarrow> u64"
  assumes set_some: "op_set ops (Some e) = e"
    and set_null: "\<not> occupied ops (op_set ops None)"
    and equal: "occupied ops a \<Longrightarrow> occupied ops b \<Longrightarrow> op_equal ops a (Some b) \<longleftrightarrow> key a = key b"
    and hash: "occupied ops a \<Longrightarrow> op_hash ops a = Some (khash (key a))"
begin

lemma equal_null: "op_equal ops e None \<longleftrightarrow> \<not> occupied ops e"
  by (simp add: occupied_def)

lemma unat_double_Suc:
  fixes c :: u64
  assumes "Suc (unat c) < 9223372036854775808"
  shows "unat ((c + 1) * 2) = 2 * Suc (unat c)"
proof -
  have c1: "unat (c + 1) = Suc (unat c)" using assms by (simp add: unat_add_64)
  have "unat ((c + 1) * 2) = unat (c + 1) * unat (2 :: u64)"
    using assms by (intro unat_mult_64) (simp add: c1)
  then show ?thesis unfolding c1 by simp
qed

lemma invE:
  assumes "map_inv ops key khash m"
  obtains es k where "elements m = Some es" "length es = 2 ^ k" "unat (elements_capacity m) = 2 ^ k"
    "k < 64" "2 \<le> length es" "unat (elements_count m) = length (table_keys key ops es)"
    "2 * unat (elements_count m) \<le> length es" "length es * unat (element_size m) < 2 ^ 64"
    "distinct (table_keys key ops es)" "probes (\<lambda>e. unat (khash (key e)) mod length es) (occupied ops) es {}"
    "\<forall>x \<in> set es. \<not> occupied ops x \<longrightarrow> x = op_set ops None"
  using assms unat_le_exp_64 unfolding map_inv_def by metis

lemma vacancy:
  assumes "2 * length (table_keys key ops es) \<le> length es" "2 \<le> length es"
  obtains v where "v < length es" "\<not> occupied ops (es ! v)"
proof -
  have "length (filter (occupied ops) es) < length es"
    using assms by (simp add: table_keys_def)
  then have "\<exists>x \<in> set es. \<not> occupied ops x"
    using filter_id_conv [of "occupied ops" es] by (metis length_filter_less less_irrefl)
  then show thesis using that by (metis in_set_conv_nth)
qed

lemma view_iff:
  assumes "elements m = Some es" "distinct (table_keys key ops es)"
  shows "map_view ops key m k = Some e \<longleftrightarrow> e \<in> set es \<and> occupied ops e \<and> key e = k"
  using assms find_unique [of key "occupied ops" es k e] by (simp add: map_view_def table_keys_def)

text \<open>Masking an index with \<open>capacity - 1\<close>, in terms of positions.\<close>

lemma masked:
  fixes i c :: u64
  assumes "unat c = 2 ^ k" "k < 64"
  shows "unat (i AND (c - 1)) = unat i mod 2 ^ k"
    "unat ((i AND (c - 1)) + 1) mod 2 ^ k = Suc (unat i mod 2 ^ k) mod 2 ^ k"
proof -
  show u: "unat (i AND (c - 1)) = unat i mod 2 ^ k" by (rule unat_and_mask_64 [OF assms(1)])
  have "unat i mod 2 ^ k < (2::nat) ^ k" by simp
  moreover have "(2::nat) ^ k \<le> 9223372036854775808"
    using power_increasing [of k 63 "2::nat"] assms(2) by simp
  ultimately have "unat i mod 2 ^ k + 1 < 18446744073709551616" by linarith
  then have "unat ((i AND (c - 1)) + 1) = unat i mod 2 ^ k + 1" by (simp add: unat_add_64 u)
  then show "unat ((i AND (c - 1)) + 1) mod 2 ^ k = Suc (unat i mod 2 ^ k) mod 2 ^ k" by simp
qed

text \<open>The probing loop of \<open>map_at\<close> stops at the first slot that is vacant or holds the key.\<close>

lemma at_loop:
  assumes "elements m = Some es" "length es = 2 ^ k" "unat (elements_capacity m) = 2 ^ k" "k < 64"
    "occupied ops e" "v < length es" "\<not> occupied ops (es ! v)"
  shows "\<exists>r. map_at_loop ops m e i = Some r \<and> unat r < length es \<and>
    (occupied ops (es ! unat r) \<longrightarrow> key (es ! unat r) = key e) \<and>
    (\<forall>c < length es. dist (length es) (unat i mod length es) c < dist (length es) (unat i mod length es) (unat r)
       \<longrightarrow> occupied ops (es ! c) \<and> key (es ! c) \<noteq> key e)"
proof (induction "dist (length es) (unat i mod length es) v" arbitrary: i rule: less_induct)
  case less
  let ?N = "length es" and ?p = "unat i mod length es"
  define r where "r = i AND (elements_capacity m - 1)"
  have r: "unat r = ?p" unfolding r_def assms(2) by (rule masked(1) [OF assms(3,4)])
  have N: "0 < ?N" using assms(2) by simp
  then have p: "?p < ?N" by simp
  have el: "map_element m r = Some (es ! ?p)" using p by (simp add: map_element_def assms(1) r)
  show ?case
  proof (cases "\<not> occupied ops (es ! ?p) \<or> op_equal ops (es ! ?p) (Some e)")
    case True
    then have "map_at_loop ops m e i = Some r"
      by (subst map_at_loop.simps) (simp add: Let_def r_def [symmetric] el equal_null)
    moreover have "occupied ops (es ! ?p) \<longrightarrow> key (es ! ?p) = key e"
      using True equal [of "es ! ?p" e] assms(5) by blast
    ultimately show ?thesis using p r by (intro exI [of _ r]) simp
  next
    case False
    then have ne: "occupied ops (es ! ?p)" "key (es ! ?p) \<noteq> key e"
      using equal [of "es ! ?p" e] assms(5) by auto
    then have "?p \<noteq> v" using assms(7) by blast
    have nx: "unat (r + 1) mod ?N = nxt ?N ?p"
      unfolding nxt_mod [OF p, symmetric] unfolding assms(2) r_def by (rule masked(2) [OF assms(3,4)])
    have "dist ?N (unat (r + 1) mod ?N) v < dist ?N ?p v"
      unfolding nx using p assms(6) \<open>?p \<noteq> v\<close> by (rule dist_step)
    from less [OF this] obtain q where q: "map_at_loop ops m e (r + 1) = Some q" "unat q < ?N"
      "occupied ops (es ! unat q) \<longrightarrow> key (es ! unat q) = key e"
      "\<forall>c < ?N. dist ?N (nxt ?N ?p) c < dist ?N (nxt ?N ?p) (unat q)
         \<longrightarrow> occupied ops (es ! c) \<and> key (es ! c) \<noteq> key e"
      unfolding nx by blast
    have "map_at_loop ops m e i = Some q"
      using False q(1) by (subst map_at_loop.simps) (simp add: Let_def r_def [symmetric] el equal_null)
    moreover have "unat q \<noteq> ?p" using q(3) ne by auto
    then have "dist ?N (nxt ?N ?p) c < dist ?N (nxt ?N ?p) (unat q)"
      if "c < ?N" "c \<noteq> ?p" "dist ?N ?p c < dist ?N ?p (unat q)" for c
      using that p q(2) by (auto simp: dist_def nxt_def split: if_splits)
    then have "\<forall>c < ?N. dist ?N ?p c < dist ?N ?p (unat q) \<longrightarrow> occupied ops (es ! c) \<and> key (es ! c) \<noteq> key e"
      using q(4) ne by blast
    ultimately show ?thesis using q(2,3) by blast
  qed
qed

text \<open>\<open>map_at\<close> finds the element with the key, or the vacant slot where it belongs.\<close>

lemma at_ok:
  assumes "elements m = Some es" "length es = 2 ^ k" "unat (elements_capacity m) = 2 ^ k" "k < 64"
    "2 * length (table_keys key ops es) \<le> length es" "2 \<le> length es"
    "probes (\<lambda>e. unat (khash (key e)) mod length es) (occupied ops) es {}" "occupied ops e"
  obtains r where "map_at ops m e = Some r" "map_at_loop ops m e (khash (key e)) = Some r"
    "unat r < length es"
    "\<And>c. c < length es \<Longrightarrow> dist (length es) (unat (khash (key e)) mod length es) c
        < dist (length es) (unat (khash (key e)) mod length es) (unat r) \<Longrightarrow> occupied ops (es ! c)"
    "occupied ops (es ! unat r) \<longleftrightarrow> key e \<in> set (table_keys key ops es)"
    "occupied ops (es ! unat r) \<Longrightarrow> key (es ! unat r) = key e"
proof -
  let ?N = "length es" and ?h = "unat (khash (key e)) mod length es"
  have h: "?h < ?N" by (intro mod_less_divisor) (use assms(6) in linarith)
  obtain v where v: "v < ?N" "\<not> occupied ops (es ! v)" using vacancy [OF assms(5,6)] by blast
  obtain r where r: "map_at_loop ops m e (khash (key e)) = Some r" "unat r < ?N"
    "occupied ops (es ! unat r) \<Longrightarrow> key (es ! unat r) = key e"
    "\<And>c. c < ?N \<Longrightarrow> dist ?N ?h c < dist ?N ?h (unat r) \<Longrightarrow> occupied ops (es ! c) \<and> key (es ! c) \<noteq> key e"
    using at_loop [OF assms(1-4,8) v, of "khash (key e)"] by blast
  have mem: "key e \<in> set (table_keys key ops es) \<longleftrightarrow> (\<exists>q < ?N. occupied ops (es ! q) \<and> key (es ! q) = key e)"
    unfolding table_keys_def set_map set_filter image_iff bex_simps in_set_conv_nth mem_Collect_eq
    by metis
  have "occupied ops (es ! unat r)" if q: "q < ?N" "occupied ops (es ! q)" "key (es ! q) = key e" for q
  proof (rule ccontr)
    assume n: "\<not> occupied ops (es ! unat r)"
    have "\<not> dist ?N ?h (unat r) < dist ?N ?h q"
      using assms(7) q r(2) n unfolding probes_def by (metis empty_iff)
    moreover have "\<not> dist ?N ?h q < dist ?N ?h (unat r)" using r(4) [OF q(1)] q(3) by blast
    moreover have "q \<noteq> unat r" using q(2) n by blast
    ultimately show False using h q(1) r(2) by (auto simp: dist_def split: if_splits)
  qed
  then have "occupied ops (es ! unat r) \<longleftrightarrow> key e \<in> set (table_keys key ops es)"
    unfolding mem using r(2,3) by blast
  moreover have "map_at ops m e = Some r" using r(1) by (simp add: map_at_def hash [OF assms(8)])
  ultimately show thesis using that r by blast
qed

text \<open>What an insertion does to the map, and the released argument.\<close>

definition inserted :: "'e hmap \<Rightarrow> 'e \<Rightarrow> bool \<Rightarrow> 'e hmap \<times> 'e list \<Rightarrow> bool" where
  "inserted m e release r \<longleftrightarrow> map_inv ops key khash (fst r) \<and>
     element_size (fst r) = element_size m \<and>
     (if map_view ops key m (key e) = None
      then map_view ops key (fst r) = (map_view ops key m)(key e \<mapsto> e) \<and>
        unat (elements_count (fst r)) = Suc (unat (elements_count m)) \<and> snd r = []
      else map_view ops key (fst r) = map_view ops key m \<and>
        elements_count (fst r) = elements_count m \<and> snd r = (if release then [e] else []))"

lemma view_None:
  assumes "elements m = Some es" "distinct (table_keys key ops es)"
  shows "map_view ops key m k = None \<longleftrightarrow> k \<notin> set (table_keys key ops es)"
proof -
  have "map_view ops key m k \<noteq> None \<longleftrightarrow> k \<in> set (table_keys key ops es)"
    using view_iff [OF assms] by (auto simp: table_keys_def image_iff)
  then show ?thesis by blast
qed

lemma insert_no_rehash:
  assumes "map_inv ops key khash m" "occupied ops e"
    "2 * Suc (unat (elements_count m)) \<le> unat (elements_capacity m)"
  shows "\<exists>r. map_insert_with rehash ops m e release = Some r \<and> inserted m e release r \<and>
    elements_capacity (fst r) = elements_capacity m"
proof -
  let ?home = "\<lambda>es e. unat (khash (key e)) mod length es"
  obtain es k where I: "elements m = Some es" "length es = 2 ^ k" "unat (elements_capacity m) = 2 ^ k"
    "k < 64" "2 \<le> length es" "unat (elements_count m) = length (table_keys key ops es)"
    "2 * unat (elements_count m) \<le> length es" "length es * unat (element_size m) < 2 ^ 64"
    "distinct (table_keys key ops es)" "probes (?home es) (occupied ops) es {}"
    "\<forall>x \<in> set es. \<not> occupied ops x \<longrightarrow> x = op_set ops None"
    by (rule invE [OF assms(1)])
  have "2 * length (table_keys key ops es) \<le> length es" using I(6,7) by simp
  from at_ok [OF I(1-4) this I(5,10) assms(2)] obtain r where r: "map_at ops m e = Some r"
    "unat r < length es"
    "\<And>c. c < length es \<Longrightarrow> dist (length es) (?home es e) c < dist (length es) (?home es e) (unat r)
        \<Longrightarrow> occupied ops (es ! c)"
    "occupied ops (es ! unat r) \<longleftrightarrow> key e \<in> set (table_keys key ops es)"
    by blast
  have b: "Suc (unat (elements_count m)) < 9223372036854775808"
    using assms(3) unat_less_64 [of "elements_capacity m"] by arith
  have c1: "unat (elements_count m + 1) = Suc (unat (elements_count m))"
    using b by (simp add: unat_add_64)
  have "unat ((elements_count m + 1) * 2) = 2 * Suc (unat (elements_count m))"
    by (rule unat_double_Suc [OF b])
  then have res: "map_reserve_with rehash m (elements_count m + 1) = Some m"
    using assms(3) by (simp add: map_reserve_with_def Let_def word_less_nat_alt)
  have el: "map_element m r = Some (es ! unat r)" using r(2) by (simp add: map_element_def I(1))
  note view = view_iff [OF I(1,9)] and none = view_None [OF I(1,9)]
  show ?thesis
  proof (cases "occupied ops (es ! unat r)")
    case True
    then have "map_insert_with rehash ops m e release = Some (m, if release then [e] else [])"
      by (simp add: map_insert_with_def res r(1) el equal_null)
    moreover have "inserted m e release (m, if release then [e] else [])"
      using True r(4) none assms(1) by (simp add: inserted_def)
    ultimately show ?thesis by auto
  next
    case False
    let ?es = "es[unat r := e]"
    define m' where "m' = m\<lparr>elements := Some ?es, elements_count := elements_count m + 1\<rparr>"
    have run: "map_insert_with rehash ops m e release = Some (m', [])"
      using False r(2) by (simp add: map_insert_with_def res r(1) el equal_null map_element_put_def
          I(1) set_some m'_def)
    have ms: "mset (filter (occupied ops) ?es) = add_mset e (mset (filter (occupied ops) es))"
      using filter_update_occupied [OF r(2), of "occupied ops" e] False assms(2) by blast
    then have st: "set (filter (occupied ops) ?es) = {e} \<union> set (filter (occupied ops) es)"
      by (metis set_mset_add_mset_insert set_mset_mset insert_is_Un)
    have mk: "mset (table_keys key ops ?es) = add_mset (key e) (mset (table_keys key ops es))"
      unfolding table_keys_def mset_map ms by simp
    have len: "length (table_keys key ops ?es) = Suc (length (table_keys key ops es))"
      using arg_cong [OF mk, of size] by simp
    have new: "key e \<notin> set (table_keys key ops es)" using False r(4) by simp
    have new': "key y \<noteq> key e" if "y \<in> set es" "occupied ops y" for y
    proof
      assume "key y = key e"
      then have "key e \<in> set (table_keys key ops es)"
        using that by (auto simp: table_keys_def image_iff intro!: bexI [of _ y])
      with new show False by blast
    qed
    have dk: "distinct (table_keys key ops ?es)"
      using mset_eq_imp_distinct_iff [of "table_keys key ops ?es" "key e # table_keys key ops es"] mk new I(9)
      by simp
    have pr: "probes (?home es) (occupied ops) ?es {}"
      using table_insert [OF I(10) r(2) False assms(2) r(3)] by blast
    have bl: "\<forall>x \<in> set ?es. \<not> occupied ops x \<longrightarrow> x = op_set ops None"
      using I(11) assms(2) set_update_subset_insert [of es "unat r" e] by blast
    have inv: "map_inv ops key khash m'"
      unfolding map_inv_def
      using I(2-8) assms(3) len c1 dk pr bl by (intro exI [of _ ?es] exI [of _ k]) (simp add: m'_def)
    have "map_view ops key m' x = Some y \<longleftrightarrow> ((map_view ops key m)(key e \<mapsto> e)) x = Some y" for x y
    proof -
      have "map_view ops key m' x = Some y \<longleftrightarrow> y \<in> set (filter (occupied ops) ?es) \<and> key y = x"
        using view_iff [of m' ?es x y] dk by (simp add: m'_def)
      also have "\<dots> \<longleftrightarrow> (y = e \<or> y \<in> set es \<and> occupied ops y) \<and> key y = x" unfolding st by auto
      also have "\<dots> \<longleftrightarrow> ((map_view ops key m)(key e \<mapsto> e)) x = Some y"
        using view [of x y] new' [of y] by auto
      finally show ?thesis .
    qed
    then have "map_view ops key m' = (map_view ops key m)(key e \<mapsto> e)"
      by (intro ext) (metis option.exhaust)
    then have "inserted m e release (m', [])"
      using new none inv c1 by (simp add: inserted_def m'_def)
    then show ?thesis using run by (simp add: m'_def)
  qed
qed

text \<open>A table of a fresh size, and the loop that fills it from the old table.\<close>

definition fresh :: "'e hmap \<Rightarrow> u64 \<Rightarrow> 'e hmap" where
  "fresh m n = m\<lparr>elements := Some (replicate (unat n) (op_set ops None)),
     elements_count := 0, elements_capacity := n\<rparr>"

lemma table_keys_replicate: "table_keys key ops (replicate n (op_set ops None)) = []"
  using set_null by (auto simp: table_keys_def filter_empty_conv)

lemma fresh_ok:
  assumes "unat n = 2 ^ k" "2 \<le> unat n" "unat n * unat (element_size m) < 2 ^ 64"
  shows "map_inv ops key khash (fresh m n)" "map_view ops key (fresh m n) = (\<lambda>k. None)"
proof -
  let ?es = "replicate (unat n) (op_set ops None)"
  have "probes h (occupied ops) ?es X" for h X by (auto simp: probes_def set_null)
  then show "map_inv ops key khash (fresh m n)"
    using assms table_keys_replicate [of "unat n"] unfolding map_inv_def
    by (intro exI [of _ ?es] exI [of _ k]) (simp add: fresh_def)
  show "map_view ops key (fresh m n) = (\<lambda>k. None)"
    by (rule ext) (simp add: map_view_def fresh_def find_None_iff set_null)
qed

lemma insert_depth_no_rehash:
  assumes "map_inv ops key khash m" "occupied ops e"
    "2 * Suc (unat (elements_count m)) \<le> unat (elements_capacity m)"
  shows "\<exists>r. map_insert_depth d ops m e release = Some r \<and> inserted m e release r \<and>
    elements_capacity (fst r) = elements_capacity m"
  using insert_no_rehash [OF assms] by (cases d) simp_all

lemma reinsert_ok:
  assumes "elements m = Some es" "length es < 2 ^ 64" "distinct (table_keys key ops es)"
    "unat n = 2 ^ k" "2 \<le> unat n" "unat n * unat (element_size m) < 2 ^ 64"
    "2 * length (table_keys key ops es) \<le> unat n" "i \<le> length es"
  shows "\<exists>m'. reinsert_loop (\<lambda>m e. map_option fst (map_insert_depth d ops m e False)) ops m (fresh m n) i = Some m' \<and>
    map_inv ops key khash m' \<and> elements_capacity m' = n \<and> element_size m' = element_size m \<and>
    unat (elements_count m') = length (table_keys key ops (take i es)) \<and>
    (\<forall>x y. map_view ops key m' x = Some y \<longleftrightarrow> y \<in> set (take i es) \<and> occupied ops y \<and> key y = x)"
  using assms(8)
proof (induction i)
  case 0
  show ?case using fresh_ok [OF assms(4,5,6)] by (simp add: table_keys_def) (simp add: fresh_def)
next
  case (Suc i)
  then have i: "i < length es" by simp
  from Suc obtain m1 where m1: "reinsert_loop (\<lambda>m e. map_option fst (map_insert_depth d ops m e False)) ops m (fresh m n) i = Some m1"
    "map_inv ops key khash m1" "elements_capacity m1 = n" "element_size m1 = element_size m"
    "unat (elements_count m1) = length (table_keys key ops (take i es))"
    "\<And>x y. map_view ops key m1 x = Some y \<longleftrightarrow> y \<in> set (take i es) \<and> occupied ops y \<and> key y = x"
    by auto
  have el: "map_element m (word_of_nat i) = Some (es ! i)"
    using i assms(2) by (simp add: map_element_def assms(1) unat_of_nat_64)
  have tk: "take (Suc i) es = take i es @ [es ! i]" using i by (rule take_Suc_conv_app_nth)
  show ?case
  proof (cases "occupied ops (es ! i)")
    case False
    then show ?thesis using m1 el by (auto simp: equal_null tk table_keys_def)
  next
    case True
    have es: "table_keys key ops es = table_keys key ops (take i es) @ key (es ! i) # table_keys key ops (drop (Suc i) es)"
      using True by (subst id_take_nth_drop [OF i]) (simp add: table_keys_def)
    have fresh_key: "map_view ops key m1 (key (es ! i)) = None"
    proof (rule ccontr)
      assume "map_view ops key m1 (key (es ! i)) \<noteq> None"
      then obtain y where "y \<in> set (take i es)" "occupied ops y" "key y = key (es ! i)"
        using m1(6) by blast
      then have "key (es ! i) \<in> set (table_keys key ops (take i es))"
        by (auto simp: table_keys_def image_iff intro!: bexI [of _ y])
      then show False using assms(3) unfolding es by auto
    qed
    have "2 * Suc (unat (elements_count m1)) \<le> unat (elements_capacity m1)"
      using assms(7) m1(3,5) unfolding es by simp
    from insert_depth_no_rehash [OF m1(2) True this, of d False] obtain m2 log where
      m2: "map_insert_depth d ops m1 (es ! i) False = Some (m2, log)"
      "inserted m1 (es ! i) False (m2, log)" "elements_capacity m2 = n"
      using m1(3) by auto
    note ins = m2(2) [unfolded inserted_def fst_conv snd_conv fresh_key if_P [OF refl]]
    have "map_view ops key m2 x = Some y \<longleftrightarrow> y \<in> set (take (Suc i) es) \<and> occupied ops y \<and> key y = x" for x y
      using ins m1(6) [of x y] fresh_key True m1(6) [of "key (es ! i)"] by (auto simp: tk)
    moreover have "unat (elements_count m2) = length (table_keys key ops (take (Suc i) es))"
      using ins m1(5) True by (simp add: tk table_keys_def)
    ultimately show ?thesis
      using m1(1,4) el True m2(1,3) ins by (auto simp: equal_null)
  qed
qed

text \<open>The rounded size leaves room for the elements, and the allocation does not wrap.\<close>

lemma roundup_ok:
  assumes "2 \<le> unat n" "2 * unat n * unat w < 2 ^ 64" "0 < unat w"
  obtains k where "unat (map_roundup n) = 2 ^ k" "unat n \<le> unat (map_roundup n)"
    "unat (map_roundup n) * unat w < 2 ^ 64"
proof -
  have s: "map_roundup n = smear (n - 1) + 1" by (simp add: map_roundup_def smear_def Let_def)
  have "2 * unat n \<le> 2 * unat n * unat w" using assms(3) by simp
  then have "2 * unat n < 2 ^ 64" using assms(2) by (rule le_less_trans)
  then have "unat n \<le> 2 ^ 63" by simp
  moreover have "0 < unat n" using assms(1) by linarith
  ultimately obtain j where j: "unat (map_roundup n) = 2 ^ j" "unat n \<le> 2 ^ j"
    "j = 0 \<or> 2 ^ (j - 1) < unat n"
    using smear_power_of_two [of n] s by metis
  have "(2::nat) ^ j \<le> 2 * unat n" using j(3) assms(1) by (cases j) auto
  then have "2 ^ j * unat w \<le> 2 * unat n * unat w" by (rule mult_le_mono1)
  then have "2 ^ j * unat w < 2 ^ 64" using assms(2) by (rule le_less_trans)
  then have "unat (map_roundup n) * unat w < 2 ^ 64" using j(1) by simp
  with j show thesis using that by simp
qed

lemma map_rehash_ok:
  assumes "map_inv ops key khash m" "2 * unat (elements_count m) \<le> unat n" "2 \<le> unat n"
    "2 * unat n * unat (element_size m) < 2 ^ 64" "0 < unat (element_size m)"
  shows "\<exists>m'. map_rehash_with (\<lambda>m e. map_option fst (map_insert_depth d ops m e False)) ops m n = Some m' \<and>
    map_inv ops key khash m' \<and> unat n \<le> unat (elements_capacity m') \<and>
    element_size m' = element_size m \<and> elements_count m' = elements_count m \<and>
    map_view ops key m' = map_view ops key m"
proof -
  obtain es k where I: "elements m = Some es" "length es = 2 ^ k" "unat (elements_capacity m) = 2 ^ k"
    "2 \<le> length es" "unat (elements_count m) = length (table_keys key ops es)"
    "distinct (table_keys key ops es)"
    by (rule invE [OF assms(1)])
  obtain j where j: "unat (map_roundup n) = 2 ^ j" "unat n \<le> unat (map_roundup n)"
    "unat (map_roundup n) * unat (element_size m) < 2 ^ 64"
    by (rule roundup_ok [OF assms(3,4,5)])
  have len: "length es < 2 ^ 64" using I(2,3) unat_less_64 [of "elements_capacity m"] by simp
  have "2 \<le> unat (map_roundup n)" "2 * length (table_keys key ops es) \<le> unat (map_roundup n)"
    using j(2) assms(2,3) I(5) by linarith+
  from reinsert_ok [OF I(1) len I(6) j(1) this(1) j(3) this(2) order.refl, of d] obtain m' where
    m': "reinsert_loop (\<lambda>m e. map_option fst (map_insert_depth d ops m e False)) ops m
        (fresh m (map_roundup n)) (length es) = Some m'"
    "map_inv ops key khash m'" "elements_capacity m' = map_roundup n" "element_size m' = element_size m"
    "unat (elements_count m') = length (table_keys key ops es)"
    "\<And>x y. map_view ops key m' x = Some y \<longleftrightarrow> y \<in> set es \<and> occupied ops y \<and> key y = x"
    by auto
  have "map_view ops key m' x = Some y \<longleftrightarrow> map_view ops key m x = Some y" for x y
    using m'(6) view_iff [OF I(1,6)] by simp
  then have "map_view ops key m' = map_view ops key m"
    by (intro ext) (metis option.exhaust)
  moreover have "elements_count m' = elements_count m" using m'(5) I(5) by (simp add: word_unat_eq_iff)
  moreover have "map_rehash_with (\<lambda>m e. map_option fst (map_insert_depth d ops m e False)) ops m n = Some m'"
    using m'(1) I(2,3) j(3) by (simp add: map_rehash_with_def Let_def I(1) fresh_def)
  ultimately show ?thesis using m' j(2) by auto
qed

text \<open>The operations of the interface. \<open>room m n\<close>: a table for \<open>n\<close> elements fits the address space.\<close>

definition room :: "'e hmap \<Rightarrow> nat \<Rightarrow> bool" where
  "room m n \<longleftrightarrow> 0 < unat (element_size m) \<and> 4 * n * unat (element_size m) < 2 ^ 64"

lemma map_insert_ok:
  assumes "map_inv ops key khash m" "occupied ops e" "room m (Suc (unat (elements_count m)))"
  shows "\<exists>r. map_insert_depth (Suc d) ops m e release = Some r \<and> inserted m e release r"
proof (cases "2 * Suc (unat (elements_count m)) \<le> unat (elements_capacity m)")
  case True
  then show ?thesis using insert_depth_no_rehash [OF assms(1,2) True, of "Suc d" release] by auto
next
  case False
  define n where "n = (elements_count m + 1) * 2"
  let ?c = "unat (elements_count m)" and ?w = "unat (element_size m)"
  let ?ins = "\<lambda>m e. map_option fst (map_insert_depth d ops m e False)"
  have r: "0 < ?w" "4 * Suc ?c * ?w < 2 ^ 64" using assms(3) by (auto simp: room_def)
  have "4 * Suc ?c * 1 \<le> 4 * Suc ?c * ?w" using r(1) by (intro mult_le_mono2) simp
  then have "4 * Suc ?c * 1 < 2 ^ 64" using r(2) by (rule le_less_trans)
  then have "4 * Suc ?c < 18446744073709551616" by simp
  then have n: "unat n = 2 * Suc ?c" unfolding n_def by (intro unat_double_Suc) arith
  obtain m1 where m1: "map_rehash_with ?ins ops m n = Some m1" "map_inv ops key khash m1"
    "unat n \<le> unat (elements_capacity m1)" "element_size m1 = element_size m"
    "elements_count m1 = elements_count m" "map_view ops key m1 = map_view ops key m"
  proof -
    have "2 * unat n = 4 * Suc ?c" by (simp add: n)
    then have "2 * ?c \<le> unat n" "2 \<le> unat n" "2 * unat n * ?w < 2 ^ 64"
      using r(2) by (simp_all only:) simp_all
    from map_rehash_ok [OF assms(1) this r(1), of d] that show thesis by blast
  qed
  have cap: "2 * Suc (unat (elements_count m1)) \<le> unat (elements_capacity m1)"
    using m1(3,5) n by simp
  from insert_no_rehash [OF m1(2) assms(2) cap, of "map_rehash_with ?ins ops" release]
  obtain r where r: "map_insert_with (map_rehash_with ?ins ops) ops m1 e release = Some r"
    "inserted m1 e release r" by blast
  have "map_reserve_with (map_rehash_with ?ins ops) m1 (elements_count m1 + 1) = Some m1"
    unfolding map_reserve_with_def Let_def m1(5) n_def [symmetric]
    using cap m1(5) n by (simp add: word_less_nat_alt)
  moreover have "map_reserve_with (map_rehash_with ?ins ops) m (elements_count m + 1) = Some m1"
    unfolding map_reserve_with_def Let_def n_def [symmetric]
    using m1(1) False n by (simp add: word_less_nat_alt)
  ultimately have "map_insert_depth (Suc d) ops m e release = Some r"
    using r(1) by (simp add: map_insert_with_def)
  moreover have "inserted m e release r"
    using r(2) m1(4-6) by (simp add: inserted_def)
  ultimately show ?thesis by blast
qed

lemma map_reserve_ok:
  assumes "map_inv ops key khash m" "0 < unat (element_size m)" "unat n \<le> 2 ^ 62"
    "4 * unat n * unat (element_size m) < 2 ^ 64"
  shows "\<exists>m'. map_reserve ops m n = Some m' \<and> map_inv ops key khash m' \<and>
    element_size m' = element_size m \<and> 2 * unat n \<le> unat (elements_capacity m') \<and>
    elements_count m' = elements_count m \<and> map_view ops key m' = map_view ops key m"
proof -
  have n: "unat (n * 2) = 2 * unat n"
  proof -
    have "unat (n * 2) = unat n * unat (2 :: u64)" using assms(3) by (intro unat_mult_64) simp
    then show ?thesis by simp
  qed
  show ?thesis
  proof (cases "elements_capacity m < n * 2")
    case False
    then have "2 * unat n \<le> unat (elements_capacity m)" by (simp add: word_less_nat_alt n)
    moreover have "map_reserve ops m n = Some m"
      using False by (simp add: map_reserve_def map_reserve_with_def Let_def)
    ultimately show ?thesis using assms(1) by simp
  next
    case True
    then have lt: "unat (elements_capacity m) < 2 * unat n" by (simp add: word_less_nat_alt n)
    have "2 * unat (elements_count m) \<le> unat (elements_capacity m)" "2 \<le> unat (elements_capacity m)"
      using assms(1) by (auto simp: map_inv_def)
    then have "2 * unat (elements_count m) \<le> unat (n * 2)" "2 \<le> unat (n * 2)" unfolding n using lt by linarith+
    from map_rehash_ok [OF assms(1) this _ assms(2), of 0] assms(4) show ?thesis
      using True by (auto simp: map_reserve_def map_reserve_with_def Let_def n map_rehash_def)
  qed
qed

lemma rehash_null:
  assumes "elements m = None" "16 * unat (element_size m) < 2 ^ 64"
  obtains m' where "map_rehash ops m MAP_ELEMENTS_CAPACITY_MIN = Some m'"
    "map_inv ops key khash m'" "map_view ops key m' = (\<lambda>k. None)" "elements_count m' = 0"
    "element_size m' = element_size m"
proof -
  have r: "map_roundup 16 = 16" by (simp add: map_roundup_def Let_def)
  have "map_rehash ops m MAP_ELEMENTS_CAPACITY_MIN = Some (fresh m 16)"
    using assms by (simp add: map_rehash_def map_rehash_with_def MAP_ELEMENTS_CAPACITY_MIN_def r fresh_def)
  moreover have "map_inv ops key khash (fresh m 16)" "map_view ops key (fresh m 16) = (\<lambda>k. None)"
    using fresh_ok [of 16 4 m] assms(2) by simp_all
  ultimately show thesis using that by (simp add: fresh_def)
qed

lemma map_construct_ok:
  assumes "16 * unat w < 2 ^ 64"
  obtains m where "map_construct ops w = Some m" "map_inv ops key khash m"
    "map_view ops key m = (\<lambda>k. None)" "map_size m = 0" "element_size m = w"
  using rehash_null [of "\<lparr>elements = None, elements_count = 0, elements_capacity = 0, element_size = w\<rparr>"] assms
  unfolding map_construct_def map_size_def by auto

text \<open>The release callback runs once on every element, in table order.\<close>

lemma map_release_loop_ok:
  assumes "elements m = Some es" "length es < 2 ^ 64" "i \<le> length es"
  shows "map_release_loop ops m i = Some (filter (occupied ops) (take i es))"
  using assms(3)
proof (induction i)
  case (Suc i)
  then have "map_element m (word_of_nat i) = Some (es ! i)"
    using assms(1,2) by (simp add: map_element_def unat_of_nat_64)
  then show ?case using Suc by (auto simp: take_Suc_conv_app_nth equal_null)
qed simp

lemma map_release_all_ok:
  assumes "map_inv ops key khash m"
  obtains xs where "map_release_all ops m release = Some (if release then xs else [])"
    "distinct (map key xs)" "length xs = unat (elements_count m)"
    "\<forall>x. x \<in> set xs \<longleftrightarrow> map_view ops key m (key x) = Some x"
proof -
  obtain es k where I: "elements m = Some es" "length es = 2 ^ k" "unat (elements_capacity m) = 2 ^ k"
    "unat (elements_count m) = length (table_keys key ops es)" "distinct (table_keys key ops es)"
    by (rule invE [OF assms])
  have "length es < 2 ^ 64" using I(2,3) unat_less_64 [of "elements_capacity m"] by simp
  from map_release_loop_ok [OF I(1) this order.refl] show thesis
    using that [of "filter (occupied ops) es"] I view_iff [OF I(1,5)]
    by (auto simp: map_release_all_def table_keys_def)
qed

lemma map_clear_ok:
  assumes "map_inv ops key khash m" "16 * unat (element_size m) < 2 ^ 64"
  obtains m' xs where "map_clear ops m release = Some (m', if release then xs else [])"
    "map_inv ops key khash m'" "map_view ops key m' = (\<lambda>k. None)" "map_size m' = 0"
    "element_size m' = element_size m" "distinct (map key xs)" "\<forall>x. x \<in> set xs \<longleftrightarrow> map_view ops key m (key x) = Some x"
proof -
  obtain xs where xs: "map_release_all ops m release = Some (if release then xs else [])"
    "distinct (map key xs)" "\<forall>x. x \<in> set xs \<longleftrightarrow> map_view ops key m (key x) = Some x"
    using map_release_all_ok [OF assms(1), of release] by metis
  let ?m = "m\<lparr>elements := None, elements_count := 0, elements_capacity := 0\<rparr>"
  have "elements ?m = None" "16 * unat (element_size ?m) < 2 ^ 64" using assms(2) by simp_all
  then obtain m' where "map_rehash ops ?m MAP_ELEMENTS_CAPACITY_MIN = Some m'"
    "map_inv ops key khash m'" "map_view ops key m' = (\<lambda>k. None)" "elements_count m' = 0"
    "element_size m' = element_size ?m"
    by (rule rehash_null)
  then show thesis using that [of m' xs] xs by (simp add: map_clear_def map_size_def)
qed

text \<open>
  Deletion. The first loop is \<open>map_at_loop\<close> with another answer for a vacant slot.
\<close>

lemma erase_find_at:
  assumes "map_at_loop ops m e i = Some r"
  shows "erase_find ops m e i = do { t \<leftarrow> map_element m r; Some (if occupied ops t then Some r else None) }"
proof (rule map_at_loop.raw_induct [where P = "\<lambda>ops m e i r.
      erase_find ops m e i = do { t \<leftarrow> map_element m r; Some (if occupied ops t then Some r else None) }",
      OF _ assms], goal_cases)
  case (1 f ops m e i r)
  define j where "j = i AND (elements_capacity m - 1)"
  from 1(2) obtain t where t: "map_element m j = Some t"
    "(if op_equal ops t None \<or> op_equal ops t (Some e) then Some j else f ops m e (j + 1)) = Some r"
    unfolding Let_def j_def [symmetric] by (auto split: Option.bind_splits)
  show ?case
  proof (cases "op_equal ops t None \<or> op_equal ops t (Some e)")
    case True
    then show ?thesis using t
      by (subst erase_find.simps) (auto simp: Let_def j_def [symmetric] occupied_def)
  next
    case False
    then have "f ops m e (j + 1) = Some r" using t by simp
    from 1(1) [OF this] show ?thesis using t False
      by (subst erase_find.simps) (simp add: Let_def j_def [symmetric])
  qed
qed

text \<open>
  The shifting loop: \<open>i\<close> is the hole (the array still holds a stale element there), the slots after
  it up to \<open>j\<close> have been scanned. The table with the hole blanked keeps its elements, and
  when the loop ends it is well formed without exception. A vacant slot \<open>v\<close> ends the loop.
\<close>

lemma shift_loop:
  assumes "elements m = Some es" "length es = 2 ^ k" "unat (elements_capacity m) = 2 ^ k" "k < 64"
    "unat i < length es" "unat j < length es" "v < length es" "v \<noteq> unat i"
    "\<not> occupied ops (es ! v)"
    "probes (\<lambda>e. unat (khash (key e)) mod length es) (occupied ops) (es[unat i := op_set ops None]) {unat i}"
    "scanned (\<lambda>e. unat (khash (key e)) mod length es) (occupied ops) (es[unat i := op_set ops None]) (unat i) (unat j)"
  shows "\<exists>es' i'. erase_shift ops m i j = Some (m\<lparr>elements := Some es'\<rparr>, i') \<and>
    length es' = length es \<and> unat i' < length es \<and>
    probes (\<lambda>e. unat (khash (key e)) mod length es) (occupied ops) (es'[unat i' := op_set ops None]) {} \<and>
    mset (es'[unat i' := op_set ops None]) = mset (es[unat i := op_set ops None])"
  using assms
proof (induction "dist (length es) (unat j) v" arbitrary: m es i j rule: less_induct)
  case less
  let ?N = "length es" and ?i = "unat i" and ?j = "unat j" and ?x = "op_set ops None"
  let ?home = "\<lambda>e. unat (khash (key e)) mod length es"
  let ?T = "es[unat i := op_set ops None]" and ?nj = "nxt (length es) (unat j)"
  note P = less.prems
  define c where "c = elements_capacity m - 1"
  define j' where "j' = (j + 1) AND c"
  have N: "0 < ?N" using P(5) by linarith
  have home: "?home e < ?N" for e using N by simp
  have nj: "?nj < ?N" by (rule nxt_less [OF P(6)])
  have mask: "unat (h AND c) = unat h mod ?N" for h
    unfolding c_def P(2) by (rule unat_and_mask_64 [OF P(3)])
  have j': "unat j' = ?nj"
  proof -
    have "(2::nat) ^ k \<le> 9223372036854775808" using power_increasing [of k 63 "2::nat"] P(4) by simp
    then have "unat (j + 1) = Suc ?j" using P(2,6) by (simp add: unat_add_64)
    then show ?thesis unfolding j'_def mask by (simp only: nxt_mod [OF P(6)])
  qed
  have occ_scanned: "occupied ops (?T ! p)" if "p < ?N" "p \<noteq> ?i" "dist ?N ?i p \<le> dist ?N ?i ?j" for p
    using P(11) that unfolding scanned_def by simp
  have v: "\<not> occupied ops (?T ! v)" "\<not> dist ?N ?i v \<le> dist ?N ?i ?j"
  proof -
    show "\<not> occupied ops (?T ! v)" using P(8,9) by simp
    with occ_scanned [OF P(7,8)] show "\<not> dist ?N ?i v \<le> dist ?N ?i ?j" by blast
  qed
  have jv: "?j \<noteq> v" using v(2) by auto
  have nji: "?nj \<noteq> ?i"
    using v(2) P(5-8) by (auto simp: dist_def nxt_def split: if_splits)
  have el: "map_element m j' = Some (es ! ?nj)" using nj by (simp add: map_element_def P(1) j')
  have Tj: "?T ! ?nj = es ! ?nj" using nji by simp
  have step: "dist ?N ?nj v < dist ?N ?j v" using P(6,7) jv by (rule dist_step)
  have unfold: "erase_shift ops m i j = (if op_equal ops (es ! ?nj) None then Some (m, i)
      else do {
        h \<leftarrow> op_hash ops (es ! ?nj);
        let k = h AND c;
        (if i < j' \<and> (k \<le> i \<or> j' < k) \<or> j' < i \<and> (k \<le> i \<and> j' < k)
         then do {
           m \<leftarrow> map_element_put m i (op_set ops (Some (es ! ?nj)));
           erase_shift ops m j' j' }
         else erase_shift ops m i j') })"
    by (subst erase_shift.simps) (simp add: Let_def c_def [symmetric] j'_def [symmetric] el)
  show ?case
  proof (cases "occupied ops (es ! ?nj)")
    case False
    then have "erase_shift ops m i j = Some (m, i)" unfolding unfold by (simp add: equal_null)
    moreover have "probes ?home (occupied ops) ?T {}"
      using scan_ends [OF P(10,11)] False P(5,6) nji set_null home by (simp add: Tj)
    ultimately show ?thesis using P(1,5) by (intro exI [of _ es] exI [of _ i]) simp
  next
    case True
    let ?e = "es ! ?nj"
    have cond: "i < j' \<and> (khash (key ?e) AND c \<le> i \<or> j' < khash (key ?e) AND c) \<or>
        j' < i \<and> (khash (key ?e) AND c \<le> i \<and> j' < khash (key ?e) AND c)
        \<longleftrightarrow> dist ?N (?home ?e) ?i < dist ?N (?home ?e) ?nj"
      unfolding word_less_nat_alt word_le_nat_alt mask j'
      by (rule move_condition [OF P(5) nj home nji [symmetric]])
    have go: "erase_shift ops m i j =
        (if dist ?N (?home ?e) ?i < dist ?N (?home ?e) ?nj
         then erase_shift ops (m\<lparr>elements := Some (es[?i := ?e])\<rparr>) j' j'
         else erase_shift ops m i j')"
      unfolding unfold using True P(5)
      by (simp add: equal_null hash Let_def cond map_element_put_def P(1) set_some)
    show ?thesis
    proof (cases "dist ?N (?home ?e) ?i < dist ?N (?home ?e) ?nj")
      case False
      have sc: "scanned ?home (occupied ops) ?T ?i (unat j')"
        using scan_extends [OF P(11)] P(5,6) nji True False by (simp add: Tj j')
      show ?thesis
        using less.hyps [of es j' m i] step P sc nj False unfolding go j' by simp
    next
      case move: True
      let ?es = "es[?i := ?e]"
      have T': "?es[?nj := ?x] = ?T[?i := ?T ! ?nj, ?nj := ?x]" by (simp add: Tj)
      have pr: "probes ?home (occupied ops) (?es[?nj := ?x]) {?nj}"
        unfolding T'
        using move_probes [OF P(10), of ?nj ?x] P(5) nj nji True move set_null by (simp add: Tj)
      have sc: "scanned ?home (occupied ops) (?es[?nj := ?x]) ?nj ?nj"
        using nj by (auto simp: scanned_def dist_def split: if_splits)
      have nv: "?nj \<noteq> v" using True P(9) by blast
      have ms: "mset (?es[?nj := ?x]) = mset ?T"
      proof -
        have "?es[?nj := ?x] = ?T[?nj := ?T ! ?i, ?i := ?T ! ?nj]"
          using P(5) nj nji by (intro nth_equalityI) (auto simp: nth_list_update)
        then show ?thesis using P(5) nj by (simp only: mset_swap length_list_update)
      qed
      let ?m = "m\<lparr>elements := Some ?es\<rparr>"
      have "\<exists>es' i'. erase_shift ops ?m j' j' = Some (?m\<lparr>elements := Some es'\<rparr>, i') \<and>
          length es' = length ?es \<and> unat i' < length ?es \<and>
          probes ?home (occupied ops) (es'[unat i' := ?x]) {} \<and>
          mset (es'[unat i' := ?x]) = mset (?es[unat j' := ?x])"
        using less.hyps [of ?es j' ?m j'] step P(2-4,7-9) nj nv pr sc unfolding j' by simp
      then show ?thesis unfolding go using move ms by (simp add: j')
    qed
  qed
qed

text \<open>What a deletion does to the map, and the released element.\<close>

definition erased :: "'e hmap \<Rightarrow> 'e \<Rightarrow> bool \<Rightarrow> 'e hmap \<times> 'e list \<Rightarrow> bool" where
  "erased m e release r \<longleftrightarrow> map_inv ops key khash (fst r) \<and>
     element_size (fst r) = element_size m \<and>
     map_view ops key (fst r) = (map_view ops key m)(key e := None) \<and>
     (case map_view ops key m (key e) of
        None \<Rightarrow> elements_count (fst r) = elements_count m \<and> snd r = []
      | Some x \<Rightarrow> Suc (unat (elements_count (fst r))) = unat (elements_count m) \<and>
          snd r = (if release then [x] else []))"

text \<open>The table before and after, as multisets of occupied elements.\<close>

lemma view_erased:
  assumes "elements m = Some es" "distinct (table_keys key ops es)"
    "elements m' = Some T" "distinct (table_keys key ops T)"
    "add_mset x (mset (filter (occupied ops) T)) = mset (filter (occupied ops) es)"
  shows "map_view ops key m' = (map_view ops key m)(key x := None)"
proof -
  have k: "add_mset (key x) (mset (table_keys key ops T)) = mset (table_keys key ops es)"
    unfolding table_keys_def mset_map assms(5) [symmetric] by simp
  have st: "insert x {e \<in> set T. occupied ops e} = {e \<in> set es. occupied ops e}"
    using arg_cong [OF assms(5), of set_mset] by simp
  have "distinct (key x # table_keys key ops T)"
    using mset_eq_imp_distinct_iff [of "key x # table_keys key ops T" "table_keys key ops es"] k assms(2)
    by simp
  then have nx: "key y \<noteq> key x" if "y \<in> set T" "occupied ops y" for y
    using that by (auto simp: table_keys_def image_iff)
  have "map_view ops key m' a = Some y \<longleftrightarrow> ((map_view ops key m)(key x := None)) a = Some y" for a y
  proof -
    have "map_view ops key m' a = Some y \<longleftrightarrow> y \<in> {e \<in> set T. occupied ops e} \<and> key y = a"
      using view_iff [OF assms(3,4)] by auto
    also have "\<dots> \<longleftrightarrow> y \<in> {e \<in> set es. occupied ops e} \<and> key y = a \<and> a \<noteq> key x"
      unfolding st [symmetric] using nx by auto
    also have "\<dots> \<longleftrightarrow> ((map_view ops key m)(key x := None)) a = Some y"
      using view_iff [OF assms(1,2)] by auto
    finally show ?thesis .
  qed
  then show ?thesis by (intro ext) (metis option.exhaust)
qed

lemma map_erase_ok:
  assumes "map_inv ops key khash m" "occupied ops e"
  shows "\<exists>r. map_erase ops m e release = Some r \<and> erased m e release r"
proof -
  let ?home = "\<lambda>es e. unat (khash (key e)) mod length es" and ?x = "op_set ops None"
  obtain es k where I: "elements m = Some es" "length es = 2 ^ k" "unat (elements_capacity m) = 2 ^ k"
    "k < 64" "2 \<le> length es" "unat (elements_count m) = length (table_keys key ops es)"
    "2 * unat (elements_count m) \<le> length es" "length es * unat (element_size m) < 2 ^ 64"
    "distinct (table_keys key ops es)" "probes (?home es) (occupied ops) es {}"
    "\<forall>x \<in> set es. \<not> occupied ops x \<longrightarrow> x = op_set ops None"
    by (rule invE [OF assms(1)])
  have load: "2 * length (table_keys key ops es) \<le> length es" using I(6,7) by simp
  obtain r where r: "map_at_loop ops m e (khash (key e)) = Some r" "unat r < length es"
    "occupied ops (es ! unat r) \<longleftrightarrow> key e \<in> set (table_keys key ops es)"
    "occupied ops (es ! unat r) \<Longrightarrow> key (es ! unat r) = key e"
    using at_ok [OF I(1-4) load I(5,10) assms(2)] by blast
  have el: "map_element m r = Some (es ! unat r)" using r(2) by (simp add: map_element_def I(1))
  have find: "erase_find ops m e (khash (key e)) = Some (if occupied ops (es ! unat r) then Some r else None)"
    using erase_find_at [OF r(1)] by (simp add: el)
  note none = view_None [OF I(1,9), of "key e"]
  show ?thesis
  proof (cases "occupied ops (es ! unat r)")
    case False
    then have "map_erase ops m e release = Some (m, [])"
      by (simp add: map_erase_def hash [OF assms(2)] find)
    moreover have "map_view ops key m (key e) = None" using none r(3) False by simp
    ultimately show ?thesis using assms(1) by (simp add: erased_def fun_upd_idem)
  next
    case True
    define x where "x = es ! unat r"
    define m1 where "m1 = m\<lparr>elements_count := elements_count m - 1\<rparr>"
    let ?T = "es[unat r := ?x]"
    have x: "occupied ops x" "key x = key e" "x \<in> set es" using True r(2,4) by (simp_all add: x_def)
    obtain v where v: "v < length es" "\<not> occupied ops (es ! v)" using vacancy [OF load I(5)] by blast
    have T: "?T ! p = (if p = unat r then ?x else es ! p)" if "p < length es" for p
      using that by simp
    have pr: "probes (?home es) (occupied ops) ?T {unat r}"
      using I(10) set_null unfolding probes_def length_list_update by (auto simp: T)
    have sc: "scanned (?home es) (occupied ops) ?T (unat r) (unat r)"
      using r(2) by (auto simp: scanned_def dist_def split: if_splits)
    have m1: "elements m1 = Some es" "unat (elements_capacity m1) = 2 ^ k" using I(1,3) by (simp_all add: m1_def)
    have vr: "v \<noteq> unat r" using v(2) True by blast
    obtain es' i' where s: "erase_shift ops m1 r r = Some (m1\<lparr>elements := Some es'\<rparr>, i')"
      "length es' = length es" "unat i' < length es"
      "probes (?home es) (occupied ops) (es'[unat i' := ?x]) {}" "mset (es'[unat i' := ?x]) = mset ?T"
      using shift_loop [OF m1(1) I(2) m1(2) I(4) r(2) r(2) v(1) vr v(2) pr sc] by blast
    define T' where "T' = es'[unat i' := ?x]"
    define m2 where "m2 = m1\<lparr>elements := Some T'\<rparr>"
    have run: "map_erase ops m e release = Some (m2, if release then [x] else [])"
      using True s(2,3) by (simp add: map_erase_def hash [OF assms(2)] find el m1_def [symmetric] s(1)
          map_element_put_def m2_def T'_def x_def)
    have fm: "add_mset x (mset (filter (occupied ops) T')) = mset (filter (occupied ops) es)"
    proof -
      have "mset (filter (occupied ops) T') = mset (filter (occupied ops) ?T)"
        unfolding mset_filter T'_def s(5) ..
      then show ?thesis
        using filter_update_vacant [OF r(2), of "occupied ops" ?x] True set_null by (simp add: x_def)
    qed
    have km: "add_mset (key x) (mset (table_keys key ops T')) = mset (table_keys key ops es)"
      unfolding table_keys_def mset_map fm [symmetric] by simp
    have dT: "distinct (table_keys key ops T')"
      using mset_eq_imp_distinct_iff [of "key x # table_keys key ops T'" "table_keys key ops es"] km I(9)
      by simp
    have lT: "Suc (length (table_keys key ops T')) = unat (elements_count m)"
      using arg_cong [OF km, of size] I(6) by simp
    have cnt: "unat (elements_count m - 1) = unat (elements_count m) - 1"
      using lT by (simp add: unat_diff_64)
    have len: "length T' = length es" using s(2) by (simp add: T'_def)
    have cnt': "unat (elements_count m - 1) = length (table_keys key ops T')"
      "2 * length (table_keys key ops T') \<le> length es"
      using lT cnt I(7) by linarith+
    have "set T' = set ?T"
      using arg_cong [OF s(5), of set_mset] by (simp only: set_mset_mset T'_def)
    then have bl: "\<forall>x \<in> set T'. \<not> occupied ops x \<longrightarrow> x = ?x"
      using I(11) set_update_subset_insert [of es "unat r" ?x] by blast
    have inv: "map_inv ops key khash m2"
      unfolding map_inv_def
      using I(2,3,5,8) cnt' dT s(4) len bl
      by (intro exI [of _ T'] exI [of _ k]) (simp add: m2_def m1_def T'_def [symmetric])
    have vx: "map_view ops key m (key e) = Some x" using view_iff [OF I(1,9)] x by blast
    have "map_view ops key m2 = (map_view ops key m)(key e := None)"
      using view_erased [OF I(1,9) _ dT fm, of m2] x(2) by (simp add: m2_def)
    then have "erased m e release (m2, if release then [x] else [])"
      using inv lT cnt vx by (simp add: erased_def) (simp add: m2_def m1_def)
    then show ?thesis using run by blast
  qed
qed

text \<open>What a lookup reads: the element with the key, or the vacant element.\<close>

lemma map_at_view:
  assumes "map_inv ops key khash m" "occupied ops e"
  shows "\<exists>i x. map_at ops m e = Some i \<and> map_element m i = Some x \<and>
    x = (case map_view ops key m (key e) of None \<Rightarrow> op_set ops None | Some y \<Rightarrow> y)"
proof -
  obtain es k where I: "elements m = Some es" "length es = 2 ^ k" "unat (elements_capacity m) = 2 ^ k"
    "k < 64" "2 \<le> length es" "unat (elements_count m) = length (table_keys key ops es)"
    "2 * unat (elements_count m) \<le> length es" "distinct (table_keys key ops es)"
    "probes (\<lambda>e. unat (khash (key e)) mod length es) (occupied ops) es {}"
    "\<forall>x \<in> set es. \<not> occupied ops x \<longrightarrow> x = op_set ops None"
    by (rule invE [OF assms(1)])
  have load: "2 * length (table_keys key ops es) \<le> length es" using I(6,7) by simp
  obtain r where r: "map_at ops m e = Some r" "unat r < length es"
    "occupied ops (es ! unat r) \<longleftrightarrow> key e \<in> set (table_keys key ops es)"
    "occupied ops (es ! unat r) \<Longrightarrow> key (es ! unat r) = key e"
    using at_ok [OF I(1-4) load I(5,9) assms(2)] by blast
  have el: "map_element m r = Some (es ! unat r)" using r(2) by (simp add: map_element_def I(1))
  have mem: "es ! unat r \<in> set es" using r(2) by simp
  show ?thesis
  proof (cases "occupied ops (es ! unat r)")
    case True
    then have "map_view ops key m (key e) = Some (es ! unat r)"
      using view_iff [OF I(1,8)] r(4) mem by blast
    then show ?thesis using r(1) el by auto
  next
    case False
    then have "map_view ops key m (key e) = None" using view_None [OF I(1,8)] r(3) by blast
    then show ?thesis using r(1) el I(10) mem False by auto
  qed
qed

text \<open>The number of elements is the number of keys.\<close>

lemma map_size_view:
  assumes "map_inv ops key khash m"
  shows "finite (dom (map_view ops key m))" "unat (map_size m) = card (dom (map_view ops key m))"
proof -
  obtain es where I: "elements m = Some es" "unat (elements_count m) = length (table_keys key ops es)"
    "distinct (table_keys key ops es)"
    by (rule invE [OF assms])
  have "k \<in> dom (map_view ops key m) \<longleftrightarrow> k \<in> set (table_keys key ops es)" for k
    using view_None [OF I(1,3), of k] domIff [of k "map_view ops key m"] by blast
  then have "dom (map_view ops key m) = set (table_keys key ops es)" by (rule set_eqI)
  then show "finite (dom (map_view ops key m))" "unat (map_size m) = card (dom (map_view ops key m))"
    using I(2,3) by (simp_all add: map_size_def distinct_card)
qed

end

end
