(* ===== verification/Hash.thy ===== *)
theory Hash
  imports Prelude
begin

text \<open>
  \<^verbatim>\<open>src/reactor/hash.c\<close>: the 64 bit hash of a byte string (FarmHash) and of an integer. All
  arithmetic is on 32 and 64 bit words and wraps. A fetch is a bounds-checked little-endian
  load (the code's default order on a little-endian host), so that \<^term>\<open>None\<close> is a read outside
  of the string: \<open>cfarmhash_defined\<close> shows that there is none, for any length.
\<close>

definition k0 :: u64 where "k0 = 0xc3a5c85c97cb3127"
definition k1 :: u64 where "k1 = 0xb492b66fbe98f273"
definition k2 :: u64 where "k2 = 0x9ae16a3b2f90404f"

primrec load_le :: "string \<Rightarrow> u64" where
  "load_le [] = 0"
| "load_le (c # cs) = of_char c + 256 * load_le cs"

definition fetch32 :: "string \<Rightarrow> nat \<Rightarrow> u64 option" where
  "fetch32 s p = map_option load_le (mem_read s p 4)"

definition fetch64 :: "string \<Rightarrow> nat \<Rightarrow> u64 option" where
  "fetch64 s p = map_option load_le (mem_read s p 8)"

definition fetch8 :: "string \<Rightarrow> nat \<Rightarrow> u32 option" where
  "fetch8 s p = (if p < length s then Some (of_char (s ! p)) else None)"

definition shift_mix :: "u64 \<Rightarrow> u64" where
  "shift_mix v = v XOR drop_bit 47 v"

definition rotate64 :: "u64 \<Rightarrow> nat \<Rightarrow> u64" where
  "rotate64 v shift = drop_bit shift v OR push_bit (64 - shift) v"

definition hash_len_16 :: "u64 \<Rightarrow> u64 \<Rightarrow> u64 \<Rightarrow> u64" where
  "hash_len_16 u v mul =
     (let a = (u XOR v) * mul; a = a XOR drop_bit 47 a;
          b = (v XOR a) * mul; b = b XOR drop_bit 47 b
      in b * mul)"

definition hash_len_0_to_16 :: "string \<Rightarrow> u64 option" where
  "hash_len_0_to_16 s =
     (let n = length s; len = word_of_nat n :: u64 in
      if 8 \<le> n then do {
        let mul = k2 + len * 2;
        a \<leftarrow> fetch64 s 0;
        let a = a + k2;
        b \<leftarrow> fetch64 s (n - 8);
        let c = rotate64 b 37 * mul + a;
        let d = (rotate64 a 25 + b) * mul;
        Some (hash_len_16 c d mul) }
      else if 4 \<le> n then do {
        let mul = k2 + len * 2;
        a \<leftarrow> fetch32 s 0;
        b \<leftarrow> fetch32 s (n - 4);
        Some (hash_len_16 (len + push_bit 3 a) b mul) }
      else if 0 < n then do {
        a \<leftarrow> fetch8 s 0;
        b \<leftarrow> fetch8 s (n div 2);
        c \<leftarrow> fetch8 s (n - 1);
        let y = a + push_bit 8 b;
        let z = word_of_nat n + push_bit 2 c;
        Some (shift_mix ((ucast y * k2) XOR (ucast z * k0)) * k2) }
      else Some k2)"

definition hash_len_17_to_32 :: "string \<Rightarrow> u64 option" where
  "hash_len_17_to_32 s =
     (let n = length s; len = word_of_nat n :: u64 in do {
        let mul = k2 + len * 2;
        a \<leftarrow> fetch64 s 0;
        let a = a * k1;
        b \<leftarrow> fetch64 s 8;
        c \<leftarrow> fetch64 s (n - 8);
        let c = c * mul;
        d \<leftarrow> fetch64 s (n - 16);
        let d = d * k2;
        Some (hash_len_16 (rotate64 (a + b) 43 + rotate64 c 30 + d)
                (a + rotate64 (b + k2) 18 + c) mul) })"

definition hash_len_33_to_64 :: "string \<Rightarrow> u64 option" where
  "hash_len_33_to_64 s =
     (let n = length s; len = word_of_nat n :: u64 in do {
        let mul = k2 + len * 2;
        a \<leftarrow> fetch64 s 0;
        let a = a * k2;
        b \<leftarrow> fetch64 s 8;
        c \<leftarrow> fetch64 s (n - 8);
        let c = c * mul;
        d \<leftarrow> fetch64 s (n - 16);
        let d = d * k2;
        let y = rotate64 (a + b) 43 + rotate64 c 30 + d;
        let z = hash_len_16 y (a + rotate64 (b + k2) 18 + c) mul;
        e \<leftarrow> fetch64 s 16;
        let e = e * mul;
        f \<leftarrow> fetch64 s 24;
        g \<leftarrow> fetch64 s (n - 32);
        let g = (y + g) * mul;
        h \<leftarrow> fetch64 s (n - 24);
        let h = (z + h) * mul;
        Some (hash_len_16 (rotate64 (e + f) 43 + rotate64 g 30 + h)
                (e + rotate64 (f + a) 18 + g) mul) })"

text \<open>A \<open>pair64\<close> is a pair; \<open>first\<close> and \<open>second\<close> are its components.\<close>

definition weak_hash_len_32_with_seeds2 ::
    "u64 \<Rightarrow> u64 \<Rightarrow> u64 \<Rightarrow> u64 \<Rightarrow> u64 \<Rightarrow> u64 \<Rightarrow> u64 \<times> u64" where
  "weak_hash_len_32_with_seeds2 w x y z a b =
     (let a = a + w; b = rotate64 (b + a + z) 21; c = a; a = a + x; a = a + y;
          b = b + rotate64 a 44
      in (a + z, b + c))"

definition weak_hash_len_32_with_seeds :: "string \<Rightarrow> nat \<Rightarrow> u64 \<Rightarrow> u64 \<Rightarrow> (u64 \<times> u64) option" where
  "weak_hash_len_32_with_seeds s p a b = do {
     w \<leftarrow> fetch64 s p;
     x \<leftarrow> fetch64 s (p + 8);
     y \<leftarrow> fetch64 s (p + 16);
     z \<leftarrow> fetch64 s (p + 24);
     Some (weak_hash_len_32_with_seeds2 w x y z a b) }"

record farm_state =
  fs_x :: u64
  fs_y :: u64
  fs_z :: u64
  fs_v :: "u64 \<times> u64"
  fs_w :: "u64 \<times> u64"

text \<open>The body of the loop over the 64 byte blocks, the last assignment being the swap of \<open>z\<close> and \<open>x\<close>.\<close>

definition farm_round :: "string \<Rightarrow> nat \<Rightarrow> farm_state \<Rightarrow> farm_state option" where
  "farm_round s p st = do {
     let x = fs_x st; let y = fs_y st; let z = fs_z st; let v = fs_v st; let w = fs_w st;
     a \<leftarrow> fetch64 s (p + 8);
     let x = rotate64 (x + y + fst v + a) 37 * k1;
     a \<leftarrow> fetch64 s (p + 48);
     let y = rotate64 (y + snd v + a) 42 * k1;
     let x = x XOR snd w;
     a \<leftarrow> fetch64 s (p + 40);
     let y = y + (fst v + a);
     let z = rotate64 (z + fst w) 33 * k1;
     v \<leftarrow> weak_hash_len_32_with_seeds s p (snd v * k1) (x + fst w);
     a \<leftarrow> fetch64 s (p + 16);
     w \<leftarrow> weak_hash_len_32_with_seeds s (p + 32) (z + snd w) (y + a);
     Some \<lparr>fs_x = z, fs_y = y, fs_z = x, fs_v = v, fs_w = w\<rparr> }"

partial_function (option) farm_loop :: "string \<Rightarrow> nat \<Rightarrow> nat \<Rightarrow> farm_state \<Rightarrow> farm_state option" where
  "farm_loop s p e st = do {
     st \<leftarrow> farm_round s p st;
     (if p + 64 = e then Some st else farm_loop s (p + 64) e st) }"

definition farm_final :: "string \<Rightarrow> nat \<Rightarrow> farm_state \<Rightarrow> u64 option" where
  "farm_final s p st = do {
     let len = (word_of_nat (length s) :: u64);
     let x = fs_x st; let y = fs_y st; let z = fs_z st; let v = fs_v st; let w = fs_w st;
     let mul = k1 + push_bit 1 (z AND 0xff);
     let w = (fst w + ((len - 1) AND 63), snd w);
     let v = (fst v + fst w, snd v);
     let w = (fst w + fst v, snd w);
     a \<leftarrow> fetch64 s (p + 8);
     let x = rotate64 (x + y + fst v + a) 37 * mul;
     a \<leftarrow> fetch64 s (p + 48);
     let y = rotate64 (y + snd v + a) 42 * mul;
     let x = x XOR (snd w * 9);
     a \<leftarrow> fetch64 s (p + 40);
     let y = y + (fst v * 9 + a);
     let z = rotate64 (z + fst w) 33 * mul;
     v \<leftarrow> weak_hash_len_32_with_seeds s p (snd v * mul) (x + fst w);
     a \<leftarrow> fetch64 s (p + 16);
     w \<leftarrow> weak_hash_len_32_with_seeds s (p + 32) (z + snd w) (y + a);
     Some (let x' = z; z' = x in
       hash_len_16 (hash_len_16 (fst v) (fst w) mul + shift_mix y * k0 + z')
         (hash_len_16 (snd v) (snd w) mul + x') mul) }"

definition cfarmhash :: "string \<Rightarrow> u64 option" where
  "cfarmhash s =
     (let len = length s in
      if len \<le> 16 then hash_len_0_to_16 s
      else if len \<le> 32 then hash_len_17_to_32 s
      else if len \<le> 64 then hash_len_33_to_64 s
      else do {
        let y = 81 * k1 + 113;
        a \<leftarrow> fetch64 s 0;
        let st = \<lparr>fs_x = 81 * k2 + a, fs_y = y, fs_z = shift_mix (y * k2 + 113) * k2,
                  fs_v = (0, 0), fs_w = (0, 0)\<rparr>;
        let e = (len - 1) div 64 * 64;
        st \<leftarrow> farm_loop s 0 e st;
        farm_final s (e + (len - 1) mod 64 - 63) st })"

definition hash_data :: "string \<Rightarrow> u64 option" where
  "hash_data s = cfarmhash s"

definition hash_string :: "string \<Rightarrow> u64 option" where
  "hash_string s = hash_data s"

definition hash_uint64 :: "u64 \<Rightarrow> u64" where
  "hash_uint64 v =
     (let v = v XOR drop_bit 33 v; v = v * 0xff51afd7ed558ccd;
          v = v XOR drop_bit 33 v; v = v * 0xc4ceb9fe1a85ec53
      in v XOR drop_bit 33 v)"

section \<open>Reads stay inside of the string\<close>

named_theorems fetch_ok \<open>fetches inside of the string succeed\<close>

lemma fetch64_ok [fetch_ok]: "p + 8 \<le> length s \<Longrightarrow> \<exists>x. fetch64 s p = Some x"
  by (simp add: fetch64_def mem_read_ok)

lemma fetch32_ok [fetch_ok]: "p + 4 \<le> length s \<Longrightarrow> \<exists>x. fetch32 s p = Some x"
  by (simp add: fetch32_def mem_read_ok)

lemma fetch8_ok [fetch_ok]: "p < length s \<Longrightarrow> \<exists>x. fetch8 s p = Some x"
  by (simp add: fetch8_def)

lemma fetch64_Some: "p + 8 \<le> length s \<Longrightarrow> fetch64 s p = Some (load_le (take 8 (drop p s)))"
  by (simp add: fetch64_def mem_read_ok)

lemma weak_hash_ok: "p + 32 \<le> length s \<Longrightarrow> \<exists>r. weak_hash_len_32_with_seeds s p a b = Some r"
  by (simp add: weak_hash_len_32_with_seeds_def fetch64_Some)

lemma weak_hash_bind:
  assumes "p + 32 \<le> length s" "\<And>r. \<exists>x. f r = Some x"
  shows "\<exists>x. Option.bind (weak_hash_len_32_with_seeds s p a b) f = Some x"
proof -
  obtain r where "weak_hash_len_32_with_seeds s p a b = Some r" using weak_hash_ok [OF assms(1)] by blast
  then show ?thesis using assms(2) [of r] by simp
qed

lemma farm_round_ok: "p + 64 \<le> length s \<Longrightarrow> \<exists>st'. farm_round s p st = Some st'"
  by (simp add: farm_round_def fetch64_Some Let_def weak_hash_bind)

lemma farm_loop_ok:
  assumes "p + 64 * Suc n = e" "e \<le> length s"
  shows "\<exists>st'. farm_loop s p e st = Some st'"
  using assms(1)
proof (induction n arbitrary: p st)
  case 0
  then obtain st1 where "farm_round s p st = Some st1" using farm_round_ok [of p s st] assms(2) by auto
  with 0 show ?case by (subst farm_loop.simps) simp
next
  case (Suc n)
  then obtain st1 where st1: "farm_round s p st = Some st1" using farm_round_ok [of p s st] assms(2) by auto
  obtain st2 where "farm_loop s (p + 64) e st1 = Some st2" using Suc.IH [of "p + 64" st1] Suc.prems by auto
  with st1 Suc.prems show ?case by (subst farm_loop.simps) simp
qed

lemma farm_final_ok: "p + 64 \<le> length s \<Longrightarrow> \<exists>h. farm_final s p st = Some h"
  by (simp add: farm_final_def fetch64_Some Let_def weak_hash_bind)

lemma cfarmhash_defined: "\<exists>h. cfarmhash s = Some h"
proof -
  consider "length s \<le> 16" | "16 < length s" "length s \<le> 32" | "32 < length s" "length s \<le> 64" | "64 < length s"
    by linarith
  then show ?thesis
  proof cases
    case 1
    then show ?thesis
      by (auto simp: cfarmhash_def hash_len_0_to_16_def Let_def fetch64_Some fetch32_def fetch8_def mem_read_ok)
  next
    case 2
    then show ?thesis by (simp add: cfarmhash_def hash_len_17_to_32_def Let_def fetch64_Some)
  next
    case 3
    then show ?thesis by (simp add: cfarmhash_def hash_len_33_to_64_def Let_def fetch64_Some)
  next
    case 4
    define n where "n = (length s - 1) div 64"
    have n: "0 < n" "n * 64 \<le> length s" "n * 64 + (length s - 1) mod 64 - 63 + 64 \<le> length s"
    proof -
      show "0 < n" using 4 by (simp add: n_def div_greater_zero_iff)
      have *: "n * 64 + (length s - 1) mod 64 = length s - 1" by (simp add: n_def)
      then show "n * 64 \<le> length s" "n * 64 + (length s - 1) mod 64 - 63 + 64 \<le> length s"
        using 4 by linarith+
    qed
    obtain m where m: "n = Suc m" using n(1) by (cases n) auto
    have l: "\<exists>st'. farm_loop s 0 (n * 64) st = Some st'" for st
      using farm_loop_ok [of 0 m "n * 64" s st] n(2) by (simp add: m)
    obtain st' where st': "farm_loop s 0 (n * 64)
        \<lparr>fs_x = 81 * k2 + load_le (take 8 s), fs_y = 81 * k1 + 113,
         fs_z = shift_mix ((81 * k1 + 113) * k2 + 113) * k2, fs_v = (0, 0), fs_w = (0, 0)\<rparr> = Some st'"
      using l by blast
    have f: "fetch64 s 0 = Some (load_le (take 8 s))" using 4 by (simp add: fetch64_Some)
    obtain h where "farm_final s (n * 64 + (length s - 1) mod 64 - 63) st' = Some h"
      using farm_final_ok [OF n(3)] by blast
    then have "cfarmhash s = Some h"
      using 4 st' by (simp add: cfarmhash_def Let_def f n_def)
    then show ?thesis by blast
  qed
qed

section \<open>The integer hash is a bijection\<close>

lemma xor_shift_involution: "(v XOR drop_bit 33 v) XOR drop_bit 33 (v XOR drop_bit 33 v) = (v :: u64)"
proof (rule bit_word_eqI)
  fix n assume "n < LENGTH(64)"
  have "\<not> bit v (n + 33 + 33)" using bit_imp_le_length [of v "n + 33 + 33"] by auto
  then show "bit ((v XOR drop_bit 33 v) XOR drop_bit 33 (v XOR drop_bit 33 v)) n = bit v n"
    by (auto simp: bit_xor_iff bit_drop_bit_eq add.commute)
qed

definition unhash_uint64 :: "u64 \<Rightarrow> u64" where
  "unhash_uint64 v =
     (let v = v XOR drop_bit 33 v; v = v * 0x9cb4b2f8129337db;
          v = v XOR drop_bit 33 v; v = v * 0x4f74430c22a54005
      in v XOR drop_bit 33 v)"

lemma unhash_hash: "unhash_uint64 (hash_uint64 v) = v"
proof -
  have m1: "x * 0xff51afd7ed558ccd * 0x4f74430c22a54005 = x" for x :: u64
  proof -
    have "(0xff51afd7ed558ccd :: u64) * 0x4f74430c22a54005 = 1" by simp
    then show ?thesis by (simp only: mult.assoc mult_1_right)
  qed
  have m2: "x * 0xc4ceb9fe1a85ec53 * 0x9cb4b2f8129337db = x" for x :: u64
  proof -
    have "(0xc4ceb9fe1a85ec53 :: u64) * 0x9cb4b2f8129337db = 1" by simp
    then show ?thesis by (simp only: mult.assoc mult_1_right)
  qed
  show ?thesis
    unfolding unhash_uint64_def hash_uint64_def Let_def xor_shift_involution m2 m1 ..
qed

lemma inj_hash_uint64: "inj hash_uint64"
  by (metis injI unhash_hash)

section \<open>Properties\<close>

text \<open>
  Hashing a string reads only its own bytes, whatever its length: none of the unaligned
  word reads of the five length classes, nor the 64 byte rounds of the long case, is out of
  bounds, and the rounds end.
\<close>

theorem hash_string_reads_inside: "\<exists>h. hash_string s = Some h"
  unfolding hash_string_def hash_data_def by (rule cfarmhash_defined)

text \<open>
  The hash of 64 bit integers is a permutation of the 64 bit integers: two different keys
  never have the same full hash value.
\<close>

theorem hash_uint64_bijective: "bij hash_uint64"
  unfolding bij_def using inj_hash_uint64 finite_UNIV_inj_surj [of hash_uint64] by auto

end
