(* ===== verification/Mapi.thy ===== *)
theory Mapi
  imports Hash_Map Hash
begin

text \<open>
  \<^verbatim>\<open>src/reactor/mapi.c\<close>: the hash table with integer keys and values. A zero key marks a vacant
  element, so the operations are specified for other keys. \<open>mapi_view\<close> is the finite map a
  table stands for; a history of operations is compared with a history on that map.
\<close>

record mapi_entry =
  mi_key :: u64
  mi_value :: u64

type_synonym mapi = "mapi_entry hmap"

definition mapi_set :: "mapi_entry option \<Rightarrow> mapi_entry" where
  "mapi_set b = (case b of Some b \<Rightarrow> b | None \<Rightarrow> \<lparr>mi_key = 0, mi_value = 0\<rparr>)"

definition mapi_equal :: "mapi_entry \<Rightarrow> mapi_entry option \<Rightarrow> bool" where
  "mapi_equal a b = (case b of Some b \<Rightarrow> mi_key a = mi_key b | None \<Rightarrow> mi_key a = 0)"

definition mapi_hash :: "mapi_entry \<Rightarrow> u64 option" where
  "mapi_hash a = Some (hash_uint64 (mi_key a))"

definition mapi_ops :: "mapi_entry map_ops" where
  "mapi_ops = \<lparr>op_hash = mapi_hash, op_set = mapi_set, op_equal = mapi_equal\<rparr>"

definition mapi_construct :: "mapi option" where
  "mapi_construct = map_construct mapi_ops 16"

definition mapi_destruct :: "mapi \<Rightarrow> bool \<Rightarrow> (mapi \<times> mapi_entry list) option" where
  "mapi_destruct m release = map_destruct mapi_ops m release"

definition mapi_size :: "mapi \<Rightarrow> u64" where "mapi_size m = map_size m"

definition mapi_reserve :: "mapi \<Rightarrow> u64 \<Rightarrow> mapi option" where
  "mapi_reserve m n = map_reserve mapi_ops m n"

definition mapi_at :: "mapi \<Rightarrow> u64 \<Rightarrow> u64 option" where
  "mapi_at m k = do {
     i \<leftarrow> map_at mapi_ops m \<lparr>mi_key = k, mi_value = 0\<rparr>;
     e \<leftarrow> map_element m i;
     Some (mi_value e) }"

definition mapi_insert :: "mapi \<Rightarrow> u64 \<Rightarrow> u64 \<Rightarrow> bool \<Rightarrow> (mapi \<times> mapi_entry list) option" where
  "mapi_insert m k v release = map_insert mapi_ops m \<lparr>mi_key = k, mi_value = v\<rparr> release"

definition mapi_erase :: "mapi \<Rightarrow> u64 \<Rightarrow> bool \<Rightarrow> (mapi \<times> mapi_entry list) option" where
  "mapi_erase m k release = map_erase mapi_ops m \<lparr>mi_key = k, mi_value = 0\<rparr> release"

definition mapi_clear :: "mapi \<Rightarrow> bool \<Rightarrow> (mapi \<times> mapi_entry list) option" where
  "mapi_clear m release = map_clear mapi_ops m release"

definition mapi_inv :: "mapi \<Rightarrow> bool" where
  "mapi_inv m \<longleftrightarrow> map_inv mapi_ops mi_key hash_uint64 m \<and> element_size m = 16"

definition mapi_view :: "mapi \<Rightarrow> u64 \<Rightarrow> u64 option" where
  "mapi_view m k = map_option mi_value (map_view mapi_ops mi_key m k)"

lemma mapi_occupied: "occupied mapi_ops e \<longleftrightarrow> mi_key e \<noteq> 0"
  by (simp add: occupied_def mapi_ops_def mapi_equal_def)

interpretation mapi: map_callbacks mapi_ops mi_key hash_uint64
  by unfold_locales (auto simp: occupied_def mapi_ops_def mapi_set_def mapi_equal_def mapi_hash_def)

section \<open>Single operations\<close>

lemma mapi_construct_ok: "\<exists>m. mapi_construct = Some m \<and> mapi_inv m \<and> mapi_view m = (\<lambda>k. None)"
  using mapi.map_construct_ok [of 16] unfolding mapi_construct_def mapi_inv_def mapi_view_def
  by (auto simp: fun_eq_iff)

lemma mapi_view_key: "mapi_inv m \<Longrightarrow> map_view mapi_ops mi_key m k = Some e \<Longrightarrow> mi_key e = k \<and> k \<noteq> 0"
proof -
  assume m: "mapi_inv m" and e: "map_view mapi_ops mi_key m k = Some e"
  from m obtain es where "elements m = Some es" "distinct (table_keys mi_key mapi_ops es)"
    unfolding mapi_inv_def map_inv_def by blast
  from mapi.view_iff [OF this] e show ?thesis by (auto simp: mapi_occupied)
qed

lemma mapi_insert_ok:
  assumes "mapi_inv m" "k \<noteq> 0" "unat (mapi_size m) < 2 ^ 57"
  shows "\<exists>m' log. mapi_insert m k v release = Some (m', log) \<and> mapi_inv m' \<and>
    (case mapi_view m k of
       None \<Rightarrow> mapi_view m' = (mapi_view m)(k \<mapsto> v) \<and> log = [] \<and>
         unat (mapi_size m') = Suc (unat (mapi_size m))
     | Some _ \<Rightarrow> mapi_view m' = mapi_view m \<and> mapi_size m' = mapi_size m \<and>
         log = (if release then [\<lparr>mi_key = k, mi_value = v\<rparr>] else []))"
proof -
  let ?e = "\<lparr>mi_key = k, mi_value = v\<rparr>"
  have "map_inv mapi_ops mi_key hash_uint64 m" "element_size m = 16" using assms(1) by (simp_all add: mapi_inv_def)
  moreover have "occupied mapi_ops ?e" using assms(2) by (simp add: mapi_occupied)
  moreover have "mapi.room m (Suc (unat (elements_count m)))"
    using assms(3) calculation(2) by (simp add: mapi.room_def mapi_size_def map_size_def)
  ultimately obtain r where r: "map_insert mapi_ops m ?e release = Some r" "mapi.inserted m ?e release r"
    using mapi.map_insert_ok [of m ?e 0 release] by (auto simp: map_insert_def)
  then show ?thesis
    using \<open>element_size m = 16\<close> unfolding mapi.inserted_def mapi_insert_def mapi_inv_def mapi_view_def
      mapi_size_def map_size_def
    by (cases r) (auto split: option.splits simp: fun_eq_iff)
qed

lemma mapi_erase_ok:
  assumes "mapi_inv m" "k \<noteq> 0"
  shows "\<exists>m' log. mapi_erase m k release = Some (m', log) \<and> mapi_inv m' \<and>
    mapi_view m' = (mapi_view m)(k := None) \<and>
    (case mapi_view m k of
       None \<Rightarrow> mapi_size m' = mapi_size m \<and> log = []
     | Some v \<Rightarrow> Suc (unat (mapi_size m')) = unat (mapi_size m) \<and>
         log = (if release then [\<lparr>mi_key = k, mi_value = v\<rparr>] else []))"
proof -
  let ?e = "\<lparr>mi_key = k, mi_value = 0\<rparr>"
  have m: "map_inv mapi_ops mi_key hash_uint64 m" "element_size m = 16" using assms(1) by (simp_all add: mapi_inv_def)
  moreover have "occupied mapi_ops ?e" using assms(2) by (simp add: mapi_occupied)
  ultimately obtain m' log where r: "map_erase mapi_ops m ?e release = Some (m', log)"
    "mapi.erased m ?e release (m', log)"
    using mapi.map_erase_ok [of m ?e release] by fastforce
  have "mapi_inv m'" "mapi_view m' = (mapi_view m)(k := None)"
    using r(2) m(2) by (auto simp: mapi.erased_def mapi_inv_def mapi_view_def)
  moreover have "mi_key x = k \<Longrightarrow> x = \<lparr>mi_key = k, mi_value = mi_value x\<rparr>" for x :: mapi_entry by simp
  then have "case mapi_view m k of
       None \<Rightarrow> mapi_size m' = mapi_size m \<and> log = []
     | Some v \<Rightarrow> Suc (unat (mapi_size m')) = unat (mapi_size m) \<and>
         log = (if release then [\<lparr>mi_key = k, mi_value = v\<rparr>] else [])"
    using r(2) mapi_view_key [OF assms(1), of k]
    by (auto simp: mapi.erased_def mapi_view_def mapi_size_def map_size_def split: option.splits)
  ultimately show ?thesis using r(1) by (auto simp: mapi_erase_def)
qed

lemma mapi_at_ok:
  assumes "mapi_inv m" "k \<noteq> 0"
  shows "mapi_at m k = Some (case mapi_view m k of None \<Rightarrow> 0 | Some v \<Rightarrow> v)"
proof -
  let ?e = "\<lparr>mi_key = k, mi_value = 0\<rparr>"
  have "map_inv mapi_ops mi_key hash_uint64 m" "occupied mapi_ops ?e"
    using assms by (simp_all add: mapi_inv_def mapi_occupied)
  from mapi.map_at_view [OF this] show ?thesis
    by (auto simp: mapi_at_def mapi_view_def mapi_ops_def mapi_set_def split: option.splits)
qed

lemma entry_key: "mi_key x = k \<Longrightarrow> x = \<lparr>mi_key = k, mi_value = mi_value x\<rparr>"
  by simp

lemma view_entry:
  assumes "mapi_inv m"
  shows "map_view mapi_ops mi_key m (mi_key e) = Some e \<longleftrightarrow> mapi_view m (mi_key e) = Some (mi_value e)"
proof
  assume "mapi_view m (mi_key e) = Some (mi_value e)"
  then obtain x where x: "map_view mapi_ops mi_key m (mi_key e) = Some x" "mi_value x = mi_value e"
    by (auto simp: mapi_view_def)
  have "mi_key x = mi_key e" using mapi_view_key [OF assms x(1)] by simp
  then have "x = e" using x(2) by simp
  then show "map_view mapi_ops mi_key m (mi_key e) = Some e" using x(1) by simp
qed (simp add: mapi_view_def)

lemma mapi_size_ok:
  assumes "mapi_inv m" shows "mapi_size m = word_of_nat (card (dom (mapi_view m)))"
proof -
  have "dom (mapi_view m) = dom (map_view mapi_ops mi_key m)" by (auto simp: mapi_view_def)
  then have "card (dom (mapi_view m)) = unat (mapi_size m)"
    using mapi.map_size_view(2) assms by (simp add: mapi_inv_def mapi_size_def)
  then show ?thesis by simp
qed

lemma mapi_reserve_ok:
  assumes "mapi_inv m" "unat n < 2 ^ 57"
  shows "\<exists>m'. mapi_reserve m n = Some m' \<and> mapi_inv m' \<and> mapi_view m' = mapi_view m \<and>
    mapi_size m' = mapi_size m"
proof -
  have m: "map_inv mapi_ops mi_key hash_uint64 m" "element_size m = 16" using assms(1) by (simp_all add: mapi_inv_def)
  show ?thesis
    using mapi.map_reserve_ok [OF m(1), of n] m(2) assms(2)
    by (auto simp: mapi_reserve_def mapi_inv_def mapi_view_def mapi_size_def map_size_def fun_eq_iff)
qed

text \<open>The elements of the map, each once.\<close>

definition mapi_listing :: "(u64 \<Rightarrow> u64 option) \<Rightarrow> mapi_entry list \<Rightarrow> bool" where
  "mapi_listing v xs \<longleftrightarrow> distinct (map mi_key xs) \<and>
     (\<forall>e. e \<in> set xs \<longleftrightarrow> v (mi_key e) = Some (mi_value e))"

lemma mapi_clear_ok:
  assumes "mapi_inv m"
  shows "\<exists>m' xs. mapi_clear m release = Some (m', if release then xs else []) \<and> mapi_inv m' \<and>
    mapi_view m' = (\<lambda>k. None) \<and> mapi_size m' = 0 \<and> mapi_listing (mapi_view m) xs"
proof -
  have m: "map_inv mapi_ops mi_key hash_uint64 m" "16 * unat (element_size m) < 2 ^ 64"
    "element_size m = 16" using assms by (simp_all add: mapi_inv_def)
  obtain m' xs where r: "map_clear mapi_ops m release = Some (m', if release then xs else [])"
    "map_inv mapi_ops mi_key hash_uint64 m'" "map_view mapi_ops mi_key m' = (\<lambda>k. None)"
    "map_size m' = 0" "element_size m' = element_size m" "distinct (map mi_key xs)"
    "\<forall>x. x \<in> set xs \<longleftrightarrow> map_view mapi_ops mi_key m (mi_key x) = Some x"
    by (rule mapi.map_clear_ok [OF m(1,2)])
  have "mapi_inv m'" "mapi_size m' = 0" using r m(3) by (simp_all add: mapi_inv_def mapi_size_def)
  moreover have "mapi_view m' = (\<lambda>k. None)" using r(3) by (simp add: mapi_view_def fun_eq_iff)
  moreover have "mapi_listing (mapi_view m) xs"
    using r(6,7) view_entry [OF assms] by (simp add: mapi_listing_def)
  ultimately show ?thesis using r(1) by (auto simp: mapi_clear_def)
qed

lemma mapi_destruct_ok:
  assumes "mapi_inv m"
  shows "\<exists>m' xs. mapi_destruct m release = Some (m', if release then xs else []) \<and>
    elements m' = None \<and> mapi_listing (mapi_view m) xs"
proof -
  obtain xs where r: "map_release_all mapi_ops m release = Some (if release then xs else [])"
    "distinct (map mi_key xs)" "\<forall>x. x \<in> set xs \<longleftrightarrow> map_view mapi_ops mi_key m (mi_key x) = Some x"
    using mapi.map_release_all_ok [of m release] assms by (metis mapi_inv_def)
  have "mapi_listing (mapi_view m) xs"
    using r(2,3) view_entry [OF assms] by (simp add: mapi_listing_def)
  then show ?thesis using r(1) by (auto simp: mapi_destruct_def map_destruct_def)
qed

section \<open>Histories of operations\<close>

datatype mapi_call =
    Put u64 u64 bool | Erase u64 bool | At u64 | Reserve u64 | Clear bool | Size
datatype mapi_reply = Released "mapi_entry list" | Answer u64

definition mapi_step :: "mapi \<Rightarrow> mapi_call \<Rightarrow> (mapi \<times> mapi_reply) option" where
  "mapi_step m c = (case c of
     Put k v release \<Rightarrow> do { (m, log) \<leftarrow> mapi_insert m k v release; Some (m, Released log) }
   | Erase k release \<Rightarrow> do { (m, log) \<leftarrow> mapi_erase m k release; Some (m, Released log) }
   | At k \<Rightarrow> do { v \<leftarrow> mapi_at m k; Some (m, Answer v) }
   | Reserve n \<Rightarrow> do { m \<leftarrow> mapi_reserve m n; Some (m, Released []) }
   | Clear release \<Rightarrow> do { (m, log) \<leftarrow> mapi_clear m release; Some (m, Released log) }
   | Size \<Rightarrow> Some (m, Answer (mapi_size m)))"

primrec mapi_run :: "mapi \<Rightarrow> mapi_call list \<Rightarrow> (mapi \<times> mapi_reply list) option" where
  "mapi_run m [] = Some (m, [])"
| "mapi_run m (c # cs) = do {
     (m, r) \<leftarrow> mapi_step m c;
     (m, rs) \<leftarrow> mapi_run m cs;
     Some (m, r # rs) }"

text \<open>The same history on a finite map.\<close>

definition mapi_spec :: "(u64 \<Rightarrow> u64 option) \<Rightarrow> mapi_call \<Rightarrow> (u64 \<Rightarrow> u64 option) \<Rightarrow> mapi_reply \<Rightarrow> bool" where
  "mapi_spec v c v' r = (case c of
     Put k x release \<Rightarrow>
       (if v k = None then v' = v(k \<mapsto> x) \<and> r = Released []
        else v' = v \<and> r = Released (if release then [\<lparr>mi_key = k, mi_value = x\<rparr>] else []))
   | Erase k release \<Rightarrow> v' = v(k := None) \<and>
       r = Released (case v k of Some x \<Rightarrow> if release then [\<lparr>mi_key = k, mi_value = x\<rparr>] else [] | None \<Rightarrow> [])
   | At k \<Rightarrow> v' = v \<and> r = Answer (case v k of Some x \<Rightarrow> x | None \<Rightarrow> 0)
   | Reserve n \<Rightarrow> v' = v \<and> r = Released []
   | Clear release \<Rightarrow> v' = (\<lambda>k. None) \<and>
       (\<exists>xs. mapi_listing v xs \<and> r = Released (if release then xs else []))
   | Size \<Rightarrow> v' = v \<and> r = Answer (word_of_nat (card (dom v))))"

fun mapi_spec_run :: "(u64 \<Rightarrow> u64 option) \<Rightarrow> mapi_call list \<Rightarrow> mapi_reply list \<Rightarrow> (u64 \<Rightarrow> u64 option) \<Rightarrow> bool" where
  "mapi_spec_run v [] [] v' \<longleftrightarrow> v' = v"
| "mapi_spec_run v (c # cs) (r # rs) v' \<longleftrightarrow> (\<exists>v1. mapi_spec v c v1 r \<and> mapi_spec_run v1 cs rs v')"
| "mapi_spec_run v _ _ v' \<longleftrightarrow> False"

text \<open>Keys are not zero, and reservations fit the address space.\<close>

definition mapi_valid :: "mapi_call \<Rightarrow> bool" where
  "mapi_valid c = (case c of Put k _ _ \<Rightarrow> k \<noteq> 0 | Erase k _ \<Rightarrow> k \<noteq> 0 | At k \<Rightarrow> k \<noteq> 0
     | Reserve n \<Rightarrow> n < 2 ^ 57 | _ \<Rightarrow> True)"

lemma mapi_step_ok:
  assumes m: "mapi_inv m" "mapi_valid c" "unat (mapi_size m) < 2 ^ 57"
  shows "\<exists>m' r. mapi_step m c = Some (m', r) \<and> mapi_inv m' \<and>
    unat (mapi_size m') \<le> Suc (unat (mapi_size m)) \<and> mapi_spec (mapi_view m) c (mapi_view m') r"
proof (cases c)
  case (Put k v release)
  with m have "k \<noteq> 0" by (simp add: mapi_valid_def)
  from mapi_insert_ok [OF m(1) this m(3), of v release] Put show ?thesis
    by (auto simp: mapi_step_def mapi_spec_def split: option.splits)
next
  case (Erase k release)
  with m have "k \<noteq> 0" by (simp add: mapi_valid_def)
  from mapi_erase_ok [OF m(1) this, of release] Erase show ?thesis
    by (auto simp: mapi_step_def mapi_spec_def split: option.splits)
next
  case (At k)
  with m have "k \<noteq> 0" by (simp add: mapi_valid_def)
  from mapi_at_ok [OF m(1) this] At show ?thesis
    using m(1) by (auto simp: mapi_step_def mapi_spec_def split: option.splits)
next
  case (Reserve n)
  with m have "unat n < 2 ^ 57" by (simp add: mapi_valid_def word_less_nat_alt)
  from mapi_reserve_ok [OF m(1) this] Reserve show ?thesis
    by (auto simp: mapi_step_def mapi_spec_def)
next
  case (Clear release)
  from mapi_clear_ok [OF m(1), of release] Clear show ?thesis
    by (fastforce simp: mapi_step_def mapi_spec_def)
next
  case Size
  with mapi_size_ok [OF m(1)] m(1) show ?thesis by (simp add: mapi_step_def mapi_spec_def)
qed

lemma mapi_run_ok:
  assumes "mapi_inv m" "list_all mapi_valid cs" "unat (mapi_size m) + length cs \<le> 2 ^ 57"
  shows "\<exists>m' rs. mapi_run m cs = Some (m', rs) \<and> mapi_inv m' \<and>
    mapi_spec_run (mapi_view m) cs rs (mapi_view m')"
  using assms
proof (induction cs arbitrary: m)
  case Nil
  then show ?case by simp
next
  case (Cons c cs)
  have c: "mapi_valid c" "unat (mapi_size m) < 2 ^ 57" using Cons.prems by simp_all
  obtain m1 r where 1: "mapi_step m c = Some (m1, r)" "mapi_inv m1"
    "unat (mapi_size m1) \<le> Suc (unat (mapi_size m))" "mapi_spec (mapi_view m) c (mapi_view m1) r"
    using mapi_step_ok [OF Cons.prems(1) c] by blast
  have "list_all mapi_valid cs" "unat (mapi_size m1) + length cs \<le> 2 ^ 57"
    using Cons.prems 1(3) by simp_all
  from Cons.IH [OF 1(2) this] obtain m' rs where "mapi_run m1 cs = Some (m', rs)" "mapi_inv m'"
    "mapi_spec_run (mapi_view m1) cs rs (mapi_view m')" by blast
  then show ?case using 1 by auto
qed

section \<open>Properties\<close>

text \<open>
  C10. A table of integers behaves as a finite map over every history of operations. From
  construction on, any list of insertions, removals, lookups, reservations, clearings and size
  queries with keys other than zero runs without an out-of-bounds access, every probing loop
  and every rehash ends, the table invariant is kept, and each reply and each call of the
  release callback is the one the same history on a finite map gives.
\<close>

theorem mapi_history:
  assumes "list_all mapi_valid calls" "length calls \<le> 2 ^ 57"
  shows "\<exists>m replies. (do { m \<leftarrow> mapi_construct; mapi_run m calls }) = Some (m, replies) \<and> mapi_inv m \<and>
    mapi_spec_run (\<lambda>k. None) calls replies (mapi_view m)"
proof -
  obtain m where m: "mapi_construct = Some m" "mapi_inv m" "mapi_view m = (\<lambda>k. None)"
    using mapi_construct_ok by blast
  have "unat (mapi_size m) = 0" using mapi_size_ok [OF m(2)] m(3) by simp
  with mapi_run_ok [OF m(2) assms(1)] assms(2) m(3) obtain m' rs where
    "mapi_run m calls = Some (m', rs)" "mapi_inv m'" "mapi_spec_run (\<lambda>k. None) calls rs (mapi_view m')"
    by auto
  then have "(do { m \<leftarrow> mapi_construct; mapi_run m calls }) = Some (m', rs)" by (simp add: m(1))
  then show ?thesis using \<open>mapi_inv m'\<close> \<open>mapi_spec_run (\<lambda>k. None) calls rs (mapi_view m')\<close> by blast
qed

lemma mapi_history_witness:
  "\<exists>m replies. (do { m \<leftarrow> mapi_construct;
      mapi_run m [Put 5 7 True, Put 5 8 True, At 5, Erase 5 True, At 5, Size] }) = Some (m, replies) \<and>
    mapi_inv m \<and> mapi_spec_run (\<lambda>k. None)
      [Put 5 7 True, Put 5 8 True, At 5, Erase 5 True, At 5, Size] replies (mapi_view m)"
  by (rule mapi_history) (simp_all add: mapi_valid_def)

text \<open>
  Destroying a table of integers calls the release callback once on every element it holds
  and on nothing else.
\<close>

theorem mapi_destruct_releases:
  assumes "mapi_inv m"
  shows "\<exists>m' xs. mapi_destruct m True = Some (m', xs) \<and> elements m' = None \<and> mapi_listing (mapi_view m) xs"
  using mapi_destruct_ok [OF assms, of True] by auto

lemma mapi_destruct_releases_witness:
  "\<exists>m. mapi_construct = Some m \<and>
    (\<exists>m' xs. mapi_destruct m True = Some (m', xs) \<and> elements m' = None \<and> mapi_listing (mapi_view m) xs)"
proof -
  obtain m where "mapi_construct = Some m" "mapi_inv m" using mapi_construct_ok by blast
  with mapi_destruct_releases show ?thesis by blast
qed

end
