(* ===== verification/Maps.thy ===== *)
theory Maps
  imports Hash_Map Hash
begin

text \<open>
  \<^verbatim>\<open>src/reactor/maps.c\<close>: the hash table with strings as keys. A C string is the list of its
  characters before the terminator and a null key marks a vacant element. The table keeps the
  pointer, so the map is over the strings the keys point to while they are not changed.
  \<^verbatim>\<open>strcmp\<close> and \<^verbatim>\<open>strlen\<close> on a null pointer are undefined: the hash is then \<^term>\<open>None\<close>,
  and \<open>maps_equal\<close> is only asked about two elements when both have a key.
\<close>

record maps_entry =
  ms_key :: "string option"
  ms_value :: u64

type_synonym maps = "maps_entry hmap"

definition maps_set :: "maps_entry option \<Rightarrow> maps_entry" where
  "maps_set b = (case b of Some b \<Rightarrow> b | None \<Rightarrow> \<lparr>ms_key = None, ms_value = 0\<rparr>)"

definition maps_equal :: "maps_entry \<Rightarrow> maps_entry option \<Rightarrow> bool" where
  "maps_equal a b = (case b of Some b \<Rightarrow> ms_key a \<noteq> None \<and> ms_key a = ms_key b
                     | None \<Rightarrow> ms_key a = None)"

definition maps_hash :: "maps_entry \<Rightarrow> u64 option" where
  "maps_hash a = Option.bind (ms_key a) hash_string"

definition maps_ops :: "maps_entry map_ops" where
  "maps_ops = \<lparr>op_hash = maps_hash, op_set = maps_set, op_equal = maps_equal\<rparr>"

definition maps_construct :: "maps option" where
  "maps_construct = map_construct maps_ops 16"

definition maps_destruct :: "maps \<Rightarrow> bool \<Rightarrow> (maps \<times> maps_entry list) option" where
  "maps_destruct m release = map_destruct maps_ops m release"

definition maps_size :: "maps \<Rightarrow> u64" where "maps_size m = map_size m"

definition maps_reserve :: "maps \<Rightarrow> u64 \<Rightarrow> maps option" where
  "maps_reserve m n = map_reserve maps_ops m n"

definition maps_at :: "maps \<Rightarrow> string \<Rightarrow> u64 option" where
  "maps_at m k = do {
     i \<leftarrow> map_at maps_ops m \<lparr>ms_key = Some k, ms_value = 0\<rparr>;
     e \<leftarrow> map_element m i;
     Some (ms_value e) }"

definition maps_insert :: "maps \<Rightarrow> string \<Rightarrow> u64 \<Rightarrow> bool \<Rightarrow> (maps \<times> maps_entry list) option" where
  "maps_insert m k v release = map_insert maps_ops m \<lparr>ms_key = Some k, ms_value = v\<rparr> release"

definition maps_erase :: "maps \<Rightarrow> string \<Rightarrow> bool \<Rightarrow> (maps \<times> maps_entry list) option" where
  "maps_erase m k release = map_erase maps_ops m \<lparr>ms_key = Some k, ms_value = 0\<rparr> release"

definition maps_clear :: "maps \<Rightarrow> bool \<Rightarrow> (maps \<times> maps_entry list) option" where
  "maps_clear m release = map_clear maps_ops m release"

text \<open>The key and the hash of a key, as functions of every element and every string.\<close>

definition maps_key :: "maps_entry \<Rightarrow> string" where
  "maps_key e = (case ms_key e of Some k \<Rightarrow> k | None \<Rightarrow> [])"

definition maps_khash :: "string \<Rightarrow> u64" where
  "maps_khash k = (case hash_string k of Some h \<Rightarrow> h | None \<Rightarrow> 0)"

definition maps_inv :: "maps \<Rightarrow> bool" where
  "maps_inv m \<longleftrightarrow> map_inv maps_ops maps_key maps_khash m \<and> element_size m = 16"

definition maps_view :: "maps \<Rightarrow> string \<Rightarrow> u64 option" where
  "maps_view m k = map_option ms_value (map_view maps_ops maps_key m k)"

lemma maps_occupied: "occupied maps_ops e \<longleftrightarrow> ms_key e \<noteq> None"
  by (simp add: occupied_def maps_ops_def maps_equal_def)

lemma maps_key_Some [simp]: "maps_key \<lparr>ms_key = Some k, ms_value = v\<rparr> = k"
  by (simp add: maps_key_def)

lemma vacant_value [simp]: "ms_value (op_set maps_ops None) = 0"
  by (simp add: maps_ops_def maps_set_def)

lemma hash_string_khash: "hash_string k = Some (maps_khash k)"
  using cfarmhash_defined [of k] by (auto simp: maps_khash_def hash_string_def hash_data_def)

interpretation maps: map_callbacks maps_ops maps_key maps_khash
  by unfold_locales
    (auto simp: occupied_def maps_ops_def maps_set_def maps_equal_def maps_hash_def maps_key_def
      hash_string_khash)

section \<open>Single operations\<close>

lemma maps_construct_ok: "\<exists>m. maps_construct = Some m \<and> maps_inv m \<and> maps_view m = (\<lambda>k. None)"
  using maps.map_construct_ok [of 16] unfolding maps_construct_def maps_inv_def maps_view_def
  by (auto simp: fun_eq_iff)

lemma maps_view_key: "maps_inv m \<Longrightarrow> map_view maps_ops maps_key m k = Some e \<Longrightarrow> ms_key e = Some k"
proof -
  assume m: "maps_inv m" and e: "map_view maps_ops maps_key m k = Some e"
  from m obtain es where "elements m = Some es" "distinct (table_keys maps_key maps_ops es)"
    unfolding maps_inv_def map_inv_def by blast
  from maps.view_iff [OF this] e show ?thesis by (auto simp: maps_occupied maps_key_def)
qed

lemma maps_insert_ok:
  assumes "maps_inv m" "unat (maps_size m) < 2 ^ 57"
  shows "\<exists>m' log. maps_insert m k v release = Some (m', log) \<and> maps_inv m' \<and>
    (case maps_view m k of
       None \<Rightarrow> maps_view m' = (maps_view m)(k \<mapsto> v) \<and> log = [] \<and>
         unat (maps_size m') = Suc (unat (maps_size m))
     | Some _ \<Rightarrow> maps_view m' = maps_view m \<and> maps_size m' = maps_size m \<and>
         log = (if release then [\<lparr>ms_key = Some k, ms_value = v\<rparr>] else []))"
proof -
  let ?e = "\<lparr>ms_key = Some k, ms_value = v\<rparr>"
  have "map_inv maps_ops maps_key maps_khash m" "element_size m = 16" using assms(1) by (simp_all add: maps_inv_def)
  moreover have "occupied maps_ops ?e" by (simp add: maps_occupied)
  moreover have "maps.room m (Suc (unat (elements_count m)))"
    using assms(2) calculation(2) by (simp add: maps.room_def maps_size_def map_size_def)
  ultimately obtain r where r: "map_insert maps_ops m ?e release = Some r" "maps.inserted m ?e release r"
    using maps.map_insert_ok [of m ?e 0 release] by (auto simp: map_insert_def)
  then show ?thesis
    using \<open>element_size m = 16\<close> unfolding maps.inserted_def maps_insert_def maps_inv_def maps_view_def
      maps_size_def map_size_def
    by (cases r) (auto split: option.splits simp: fun_eq_iff)
qed

lemma maps_erase_ok:
  assumes "maps_inv m"
  shows "\<exists>m' log. maps_erase m k release = Some (m', log) \<and> maps_inv m' \<and>
    maps_view m' = (maps_view m)(k := None) \<and>
    (case maps_view m k of
       None \<Rightarrow> maps_size m' = maps_size m \<and> log = []
     | Some v \<Rightarrow> Suc (unat (maps_size m')) = unat (maps_size m) \<and>
         log = (if release then [\<lparr>ms_key = Some k, ms_value = v\<rparr>] else []))"
proof -
  let ?e = "\<lparr>ms_key = Some k, ms_value = 0\<rparr>"
  have m: "map_inv maps_ops maps_key maps_khash m" "element_size m = 16" using assms(1) by (simp_all add: maps_inv_def)
  moreover have "occupied maps_ops ?e" by (simp add: maps_occupied)
  ultimately obtain m' log where r: "map_erase maps_ops m ?e release = Some (m', log)"
    "maps.erased m ?e release (m', log)"
    using maps.map_erase_ok [of m ?e release] by fastforce
  have "maps_inv m'" "maps_view m' = (maps_view m)(k := None)"
    using r(2) m(2) by (auto simp: maps.erased_def maps_inv_def maps_view_def)
  moreover have "ms_key x = Some k \<Longrightarrow> x = \<lparr>ms_key = Some k, ms_value = ms_value x\<rparr>" for x :: maps_entry by simp
  then have "case maps_view m k of
       None \<Rightarrow> maps_size m' = maps_size m \<and> log = []
     | Some v \<Rightarrow> Suc (unat (maps_size m')) = unat (maps_size m) \<and>
         log = (if release then [\<lparr>ms_key = Some k, ms_value = v\<rparr>] else [])"
    using r(2) maps_view_key [OF assms(1), of k]
    by (auto simp: maps.erased_def maps_view_def maps_size_def map_size_def split: option.splits)
  ultimately show ?thesis using r(1) by (auto simp: maps_erase_def)
qed

lemma maps_at_ok:
  assumes "maps_inv m"
  shows "maps_at m k = Some (case maps_view m k of None \<Rightarrow> 0 | Some v \<Rightarrow> v)"
proof -
  let ?e = "\<lparr>ms_key = Some k, ms_value = 0\<rparr>"
  have "map_inv maps_ops maps_key maps_khash m" "occupied maps_ops ?e"
    using assms by (simp_all add: maps_inv_def maps_occupied)
  from maps.map_at_view [OF this] show ?thesis
    by (auto simp: maps_at_def maps_view_def split: option.splits)
qed

lemma maps_size_ok:
  assumes "maps_inv m" shows "maps_size m = word_of_nat (card (dom (maps_view m)))"
proof -
  have "dom (maps_view m) = dom (map_view maps_ops maps_key m)" by (auto simp: maps_view_def)
  then have "card (dom (maps_view m)) = unat (maps_size m)"
    using maps.map_size_view(2) assms by (simp add: maps_inv_def maps_size_def)
  then show ?thesis by simp
qed

section \<open>Properties\<close>

text \<open>
  C11. Inserting into a table of strings: if the key is new it is bound to the value and the size
  grows by one; if it is present the table keeps its old value and the release callback gets the
  new element. Nothing else changes, and the operation ends without undefined behaviour even
  when it rehashes.
\<close>

theorem maps_insert_spec:
  assumes "maps_inv m" "unat (maps_size m) < 2 ^ 57"
  shows "\<exists>m' log. maps_insert m k v release = Some (m', log) \<and> maps_inv m' \<and>
    (case maps_view m k of
       None \<Rightarrow> maps_view m' = (maps_view m)(k \<mapsto> v) \<and> log = [] \<and>
         unat (maps_size m') = Suc (unat (maps_size m))
     | Some _ \<Rightarrow> maps_view m' = maps_view m \<and> maps_size m' = maps_size m \<and>
         log = (if release then [\<lparr>ms_key = Some k, ms_value = v\<rparr>] else []))"
  using assms by (rule maps_insert_ok)

lemma maps_insert_spec_witness:
  "\<exists>m m' log. maps_construct = Some m \<and> maps_insert m ''host'' 8080 True = Some (m', log) \<and>
    maps_inv m' \<and> maps_view m' = [''host'' \<mapsto> 8080] \<and> log = []"
proof -
  obtain m where m: "maps_construct = Some m" "maps_inv m" "maps_view m = (\<lambda>k. None)"
    using maps_construct_ok by blast
  have "unat (maps_size m) < 2 ^ 57" using maps_size_ok [OF m(2)] m(3) by simp
  from maps_insert_spec [OF m(2) this, of "''host''" 8080 True] m show ?thesis by auto
qed

text \<open>
  C12. Removing from a table of strings unbinds exactly that key, closes the gap so that every
  other key is still found, and calls the release callback on the removed element only.
\<close>

theorem maps_erase_spec:
  assumes "maps_inv m"
  shows "\<exists>m' log. maps_erase m k release = Some (m', log) \<and> maps_inv m' \<and>
    maps_view m' = (maps_view m)(k := None) \<and> (\<forall>j. maps_at m' j = Some (case maps_view m' j of None \<Rightarrow> 0 | Some v \<Rightarrow> v)) \<and>
    (case maps_view m k of
       None \<Rightarrow> maps_size m' = maps_size m \<and> log = []
     | Some v \<Rightarrow> Suc (unat (maps_size m')) = unat (maps_size m) \<and>
         log = (if release then [\<lparr>ms_key = Some k, ms_value = v\<rparr>] else []))"
  using maps_erase_ok [OF assms] maps_at_ok by blast

lemma maps_erase_spec_witness:
  "\<exists>m m' log. maps_construct = Some m \<and> maps_erase m ''host'' True = Some (m', log) \<and>
    maps_inv m' \<and> maps_at m' ''host'' = Some 0 \<and> log = []"
proof -
  obtain m where m: "maps_construct = Some m" "maps_inv m" "maps_view m = (\<lambda>k. None)"
    using maps_construct_ok by blast
  from maps_erase_spec [OF m(2), of "''host''" True] m show ?thesis by fastforce
qed

end
