(* ===== verification/Data.thy ===== *)
theory Data
  imports Prelude "HOL-Library.Sublist"
begin

text \<open>
  \<^verbatim>\<open>src/reactor/data.c\<close> and \<^verbatim>\<open>src/reactor/pointer.c\<close>: views of bytes in memory, and the
  writing cursor. Memory is a partial function from addresses to bytes; \<open>bytes_at\<close> reads a
  range of it and is \<^term>\<open>None\<close> when a byte of the range is not readable. A cursor is an
  offset into the block it writes to.
\<close>

type_synonym memory = "u64 \<Rightarrow> char option"

primrec bytes_at :: "memory \<Rightarrow> u64 \<Rightarrow> nat \<Rightarrow> string option" where
  "bytes_at m a 0 = Some []"
| "bytes_at m a (Suc n) = do { c \<leftarrow> m a; cs \<leftarrow> bytes_at m (a + 1) n; Some (c # cs) }"

record data =
  dt_base :: u64
  dt_size :: u64

definition data_construct :: "u64 \<Rightarrow> u64 \<Rightarrow> data" where
  "data_construct base n = \<lparr>dt_base = base, dt_size = n\<rparr>"

definition data_null :: data where "data_null = \<lparr>dt_base = 0, dt_size = 0\<rparr>"

definition data_base :: "data \<Rightarrow> u64" where "data_base d = dt_base d"

definition data_size :: "data \<Rightarrow> u64" where "data_size d = dt_size d"

definition data_empty :: "data \<Rightarrow> bool" where "data_empty d \<longleftrightarrow> data_size d = 0"

definition data_select :: "data \<Rightarrow> u64 \<Rightarrow> u64 \<Rightarrow> data" where
  "data_select d offset n = data_construct (data_base d + offset) n"

definition memcmp_eq :: "memory \<Rightarrow> u64 \<Rightarrow> u64 \<Rightarrow> nat \<Rightarrow> bool option" where
  "memcmp_eq m a b n = do { xs \<leftarrow> bytes_at m a n; ys \<leftarrow> bytes_at m b n; Some (xs = ys) }"

definition data_equal :: "memory \<Rightarrow> data \<Rightarrow> data \<Rightarrow> bool option" where
  "data_equal m d1 d2 =
     (if data_size d1 = data_size d2 then memcmp_eq m (data_base d1) (data_base d2) (unat (data_size d1))
      else Some False)"

definition data_prefix :: "memory \<Rightarrow> data \<Rightarrow> data \<Rightarrow> bool option" where
  "data_prefix m d1 d2 =
     (if data_size d1 \<le> data_size d2 then memcmp_eq m (data_base d1) (data_base d2) (unat (data_size d1))
      else Some False)"

definition data_offset :: "data \<Rightarrow> data \<Rightarrow> u64" where
  "data_offset d1 d2 = data_base d2 - data_base d1"

definition data_consume :: "data \<Rightarrow> u64 \<Rightarrow> data" where
  "data_consume d n = data_construct (data_base d + n) (data_size d - n)"

text \<open>\<open>data_string\<close>: the length of a C string by \<open>strlen\<close>, which may run off the readable memory.\<close>

partial_function (option) strlen_from :: "memory \<Rightarrow> u64 \<Rightarrow> u64 \<Rightarrow> u64 option" where
  "strlen_from m a n = do { c \<leftarrow> m a; (if c = CHR 0x00 then Some n else strlen_from m (a + 1) (n + 1)) }"

definition data_string :: "memory \<Rightarrow> u64 \<Rightarrow> data option" where
  "data_string m chars = do { n \<leftarrow> strlen_from m chars 0; Some (data_construct chars n) }"

text \<open>
  The heap: the allocated blocks with their sizes, and the memory. \<open>a\<close> is the answer of \<open>calloc\<close>;
  freeing an address where no block starts is \<^term>\<open>None\<close>.
\<close>

definition data_alloc :: "u64 \<Rightarrow> u64 \<Rightarrow> (u64 \<rightharpoonup> u64) \<times> memory \<Rightarrow> data \<times> (u64 \<rightharpoonup> u64) \<times> memory" where
  "data_alloc a n h = (case h of (blocks, m) \<Rightarrow>
     (data_construct a n, blocks(a \<mapsto> n), \<lambda>x. if unat (x - a) < unat n then Some (CHR 0x00) else m x))"

definition data_free :: "data \<Rightarrow> (u64 \<rightharpoonup> u64) \<times> memory \<Rightarrow> ((u64 \<rightharpoonup> u64) \<times> memory) option" where
  "data_free d h = (case h of (blocks, m) \<Rightarrow> if data_base d = 0 then Some h else do {
     n \<leftarrow> blocks (data_base d);
     Some (blocks(data_base d := None), \<lambda>x. if unat (x - data_base d) < unat n then None else m x) })"

definition data_bytes :: "memory \<Rightarrow> data \<Rightarrow> string option" where
  "data_bytes m d = bytes_at m (data_base d) (unat (data_size d))"

section \<open>Views\<close>

lemma bytes_at_const: "\<forall>k < n. m (a + word_of_nat k) = Some c \<Longrightarrow> bytes_at m a n = Some (replicate n c)"
proof (induction n arbitrary: a)
  case (Suc n)
  have "\<forall>k < n. m (a + 1 + word_of_nat k) = Some c"
  proof (intro allI impI)
    fix k assume "k < n"
    then show "m (a + 1 + word_of_nat k) = Some c" using Suc.prems [rule_format, of "Suc k"] by (simp add: add.assoc)
  qed
  then show ?case using Suc.IH [of "a + 1"] Suc.prems [rule_format, of 0] by simp
qed simp

text \<open>A new block is zero, and freeing it gives the heap back as it was.\<close>

lemma data_alloc_free:
  assumes "a \<noteq> 0" "blocks a = None" "\<And>x. unat (x - a) < unat n \<Longrightarrow> m x = None"
  shows "case data_alloc a n (blocks, m) of (d, h) \<Rightarrow> data_bytes (snd h) d = Some (replicate (unat n) (CHR 0x00)) \<and> data_free d h = Some (blocks, m)"
proof -
  let ?m = "\<lambda>x. if unat (x - a) < unat n then Some (CHR 0x00) else m x"
  have "?m (a + word_of_nat k) = Some (CHR 0x00)" if "k < unat n" for k
  proof -
    have "k < 18446744073709551616" using that unat_less_64 [of n] by linarith
    then have "unat (a + word_of_nat k - a) < unat n" using that by (simp add: unat_of_nat_64)
    then show ?thesis by simp
  qed
  then have "bytes_at ?m a (unat n) = Some (replicate (unat n) (CHR 0x00))" by (intro bytes_at_const) blast
  moreover have "(\<lambda>x. if unat (x - a) < unat n then None else ?m x) = m" using assms(3) by (auto simp: fun_eq_iff)
  ultimately show ?thesis
    using assms(1,2) by (simp add: data_alloc_def data_free_def data_bytes_def data_construct_def data_base_def data_size_def fun_upd_idem)
qed

lemma bytes_at_length: "bytes_at m a n = Some xs \<Longrightarrow> length xs = n"
  by (induction n arbitrary: a xs) (auto split: Option.bind_splits)

lemma bytes_at_add:
  "bytes_at m a (k + n) =
     do { xs \<leftarrow> bytes_at m a k; ys \<leftarrow> bytes_at m (a + word_of_nat k) n; Some (xs @ ys) }"
proof (induction k arbitrary: a)
  case 0
  then show ?case by simp
next
  case (Suc k)
  show ?case using Suc [of "a + 1"] by (simp add: add.assoc)
qed

lemma bytes_at_split:
  assumes "bytes_at m a n = Some xs" "k \<le> n"
  shows "bytes_at m a k = Some (take k xs)" "bytes_at m (a + word_of_nat k) (n - k) = Some (drop k xs)"
proof -
  obtain ys zs where "bytes_at m a k = Some ys" "bytes_at m (a + word_of_nat k) (n - k) = Some zs" "xs = ys @ zs"
    using assms bytes_at_add [of m a k "n - k"] by (auto split: Option.bind_splits)
  then show "bytes_at m a k = Some (take k xs)" "bytes_at m (a + word_of_nat k) (n - k) = Some (drop k xs)"
    using bytes_at_length [of m a k ys] by simp_all
qed

section \<open>The cursor\<close>

text \<open>The block that is written, and the cursor's offset into it.\<close>

type_synonym cursor = "block \<times> nat"

definition pointer_move :: "cursor \<Rightarrow> nat \<Rightarrow> cursor" where
  "pointer_move p n = (fst p, snd p + n)"

definition pointer_push :: "cursor \<Rightarrow> string \<Rightarrow> cursor option" where
  "pointer_push p bytes = do {
     b \<leftarrow> mem_write (fst p) (snd p) (map Some bytes);
     Some (pointer_move (b, snd p) (length bytes)) }"

definition pointer_push_byte :: "cursor \<Rightarrow> char \<Rightarrow> cursor option" where
  "pointer_push_byte p c = do { b \<leftarrow> mem_write (fst p) (snd p) [Some c]; Some (pointer_move (b, snd p) 1) }"

text \<open>A cursor behind contents \<open>xs\<close> with room for \<open>n\<close> more cells.\<close>

definition cursor_at :: "cursor \<Rightarrow> cell list \<Rightarrow> nat \<Rightarrow> bool" where
  "cursor_at p xs n \<longleftrightarrow> take (snd p) (fst p) = xs \<and> snd p = length xs \<and> snd p + n = length (fst p)"

lemma pointer_push_ok:
  assumes "cursor_at p xs n" "length ys \<le> n"
  shows "\<exists>q. pointer_push p ys = Some q \<and> cursor_at q (xs @ map Some ys) (n - length ys)"
  using assms by (auto simp: cursor_at_def pointer_push_def pointer_move_def mem_write_ok)

lemma pointer_push_byte_ok:
  assumes "cursor_at p xs n" "0 < n"
  shows "\<exists>q. pointer_push_byte p c = Some q \<and> cursor_at q (xs @ [Some c]) (n - 1)"
  using assms by (auto simp: cursor_at_def pointer_push_byte_def pointer_move_def mem_write_ok)

section \<open>Properties\<close>

text \<open>
  Comparing two views of readable memory compares their bytes: \<open>data_equal\<close> is equality and
  \<open>data_prefix\<close> is the prefix order of the byte strings, whether or not the views overlap.
\<close>

theorem data_comparisons:
  assumes "data_bytes m d1 = Some xs" "data_bytes m d2 = Some ys"
  shows "data_equal m d1 d2 = Some (xs = ys) \<and> data_prefix m d1 d2 = Some (prefix xs ys)"
proof -
  let ?n1 = "unat (data_size d1)" and ?n2 = "unat (data_size d2)"
  have l: "length xs = ?n1" "length ys = ?n2" using assms bytes_at_length by (auto simp: data_bytes_def)
  have "data_equal m d1 d2 = Some (xs = ys)"
    using assms l by (auto simp: data_equal_def data_bytes_def memcmp_eq_def word_unat_eq_iff)
  moreover have "data_prefix m d1 d2 = Some (prefix xs ys)"
  proof (cases "?n1 \<le> ?n2")
    case True
    have "bytes_at m (data_base d2) ?n1 = Some (take ?n1 ys)"
      using bytes_at_split(1) [OF assms(2) [unfolded data_bytes_def] True] .
    moreover have "xs = take ?n1 ys \<longleftrightarrow> prefix xs ys"
      using l by (metis append_eq_conv_conj prefix_def)
    ultimately show ?thesis
      using True assms(1) by (simp add: data_prefix_def word_le_nat_alt memcmp_eq_def data_bytes_def)
  next
    case False
    then have "\<not> prefix xs ys" using l prefix_length_le by fastforce
    then show ?thesis using False by (simp add: data_prefix_def word_le_nat_alt)
  qed
  ultimately show ?thesis by blast
qed

definition letters :: memory where
  "letters = (\<lambda>a. if a < 8 then Some (''abcabcab'' ! unat a) else None)"

lemma data_comparisons_witness:
  "data_equal letters (data_construct 0 2) (data_construct 3 2) = Some (''ab'' = ''ab'') \<and>
   data_prefix letters (data_construct 0 2) (data_construct 3 2) = Some (prefix ''ab'' ''ab'')"
  by (rule data_comparisons) code_simp+

text \<open>
  Consuming and selecting: a view splits into the selected front and the consumed rest, the
  two have the bytes of the whole, and \<open>data_offset\<close> recovers the distance.
\<close>

theorem data_consume_splits:
  assumes "data_bytes m d = Some xs" "n \<le> data_size d"
  shows "data_bytes m (data_select d 0 n) = Some (take (unat n) xs) \<and>
    data_bytes m (data_consume d n) = Some (drop (unat n) xs) \<and> data_offset d (data_consume d n) = n"
proof -
  have le: "unat n \<le> unat (data_size d)" using assms(2) by (simp add: word_le_nat_alt)
  note s = bytes_at_split [OF assms(1) [unfolded data_bytes_def] le]
  show ?thesis
    using s le by (simp add: data_bytes_def data_select_def data_consume_def data_construct_def data_base_def
        data_size_def data_offset_def unat_diff_64)
qed

lemma data_consume_splits_witness:
  "data_bytes letters (data_select (data_construct 1 3) 0 2) = Some (take (unat (2 :: u64)) ''bca'') \<and>
   data_bytes letters (data_consume (data_construct 1 3) 2) = Some (drop (unat (2 :: u64)) ''bca'') \<and>
   data_offset (data_construct 1 3) (data_consume (data_construct 1 3) 2) = 2"
  by (rule data_consume_splits) code_simp+

end
