(* ===== verification/Picohttpparser.thy ===== *)
theory Picohttpparser
  imports Prelude
begin

text \<open>
  \<^verbatim>\<open>src/picohttpparser/picohttpparser.c\<close>: the request and response parser. A pointer is an
  offset into the allocation \<open>s\<close> that starts at \<open>buf_start\<close>; \<open>e\<close> is the offset of \<open>buf_end\<close>.
  The allocation may be longer than the input, and a read outside of the allocation makes the
  parser return \<^term>\<open>None\<close>. Otherwise a parser returns \<^term>\<open>Inl r\<close> where the C function
  returns the null pointer and stores \<open>r\<close> in \<open>*ret\<close> (-1 malformed, -2 incomplete), or
  \<^term>\<open>Inr x\<close> with the new offset. The argument \<open>sse\<close> selects the code compiled with SSE 4.2.

  Each hand-unrolled or vectorised loop is shown equal to the plain search \<open>first\<close>; on it rest the
  bounds, the stability under further input, and the completeness lemmas the round trip uses.
\<close>

section \<open>Errors, reads and the checking macros\<close>

type_synonym 'a parse = "(int + 'a) option"

definition andthen :: "'a parse \<Rightarrow> ('a \<Rightarrow> 'b parse) \<Rightarrow> 'b parse" where
  "andthen m f = do { r \<leftarrow> m; (case r of Inl err \<Rightarrow> Some (Inl err) | Inr x \<Rightarrow> f x) }"

definition rd :: "string \<Rightarrow> nat \<Rightarrow> char option" where
  "rd s i = (if i < length s then Some (s ! i) else None)"

definition IS_PRINTABLE_ASCII :: "char \<Rightarrow> bool" where
  "IS_PRINTABLE_ASCII c \<longleftrightarrow> 32 \<le> (of_char c :: nat) \<and> (of_char c :: nat) < 127"

definition CHECK_EOF :: "nat \<Rightarrow> nat \<Rightarrow> unit parse" where
  "CHECK_EOF i e = Some (if i = e then Inl (-2) else Inr ())"

definition EXPECT_CHAR_NO_CHECK :: "string \<Rightarrow> nat \<Rightarrow> char \<Rightarrow> nat parse" where
  "EXPECT_CHAR_NO_CHECK s i ch = do { c \<leftarrow> rd s i; Some (if c \<noteq> ch then Inl (-1) else Inr (i + 1)) }"

definition EXPECT_CHAR :: "string \<Rightarrow> nat \<Rightarrow> nat \<Rightarrow> char \<Rightarrow> nat parse" where
  "EXPECT_CHAR s e i ch = andthen (CHECK_EOF i e) (\<lambda>_. EXPECT_CHAR_NO_CHECK s i ch)"

text \<open>A control character other than a tab: what ends a header value.\<close>

definition is_ctl :: "char \<Rightarrow> bool" where
  "is_ctl c \<longleftrightarrow> (of_char c :: nat) < 32 \<and> c \<noteq> CHR 0x09 \<or> c = CHR 0x7F"

definition token_char_map :: "char \<Rightarrow> bool" where
  "token_char_map c \<longleftrightarrow> c \<in> set (''!#$%&'' @ [CHR 0x27] @ ''*+-.0123456789ABCDEFGHIJKLMNOPQRSTUVWXYZ^_'' @
     [CHR 0x60] @ ''abcdefghijklmnopqrstuvwxyz|~'')"

section \<open>\<open>findchar_fast\<close>\<close>

text \<open>
  \<open>_mm_cmpestri\<close> with unsigned bytes, ranges, least significant index: the first of the 16
  bytes that lies in one of the ranges, or 16. The ranges are pairs of bounds.
\<close>

definition in_ranges :: "(nat \<times> nat) list \<Rightarrow> char \<Rightarrow> bool" where
  "in_ranges ranges c \<longleftrightarrow> (\<exists>(a, b) \<in> set ranges. a \<le> of_char c \<and> of_char c \<le> b)"

definition cmpestri :: "(nat \<times> nat) list \<Rightarrow> string \<Rightarrow> nat" where
  "cmpestri ranges b16 = length (takeWhile (\<lambda>c. \<not> in_ranges ranges c) b16)"

function findchar_blocks :: "string \<Rightarrow> nat \<Rightarrow> nat \<Rightarrow> (nat \<times> nat) list \<Rightarrow> (nat \<times> bool) option" where
  "findchar_blocks s i left ranges = do {
     b16 \<leftarrow> mem_read s i 16;
     (let r = cmpestri ranges b16 in
      if r \<noteq> 16 then Some (i + r, True)
      else if left - 16 \<noteq> 0 then findchar_blocks s (i + 16) (left - 16) ranges
      else Some (i + 16, False)) }"
  by pat_completeness auto
termination by (relation "measure (\<lambda>(s, i, left, ranges). left)") auto

definition findchar_fast :: "bool \<Rightarrow> string \<Rightarrow> nat \<Rightarrow> nat \<Rightarrow> (nat \<times> nat) list \<Rightarrow> (nat \<times> bool) option" where
  "findchar_fast sse s e i ranges =
     (if sse \<and> 16 \<le> e - i then findchar_blocks s i ((e - i) div 16 * 16) ranges else Some (i, False))"

definition token_ranges :: "(nat \<times> nat) list" where "token_ranges = [(0, 32), (127, 127)]"
definition eol_ranges :: "(nat \<times> nat) list" where "eol_ranges = [(0, 8), (10, 31), (127, 127)]"
definition name_ranges :: "(nat \<times> nat) list" where
  "name_ranges = [(0, 32), (34, 34), (40, 41), (44, 44), (47, 47), (58, 64), (91, 93), (123, 255)]"

section \<open>Tokens\<close>

function token_loop :: "string \<Rightarrow> nat \<Rightarrow> nat \<Rightarrow> nat parse" where
  "token_loop s e i = (case rd s i of None \<Rightarrow> None | Some c \<Rightarrow>
     if c = CHR '' '' then Some (Inr i)
     else if \<not> IS_PRINTABLE_ASCII c \<and> ((of_char c :: nat) < 32 \<or> c = CHR 0x7F) then Some (Inl (-1))
     else if i + 1 = e then Some (Inl (-2))
     else token_loop s e (i + 1))"
  by pat_completeness auto
termination by (relation "measure (\<lambda>(s, e, i). length s - i)") (auto simp: rd_def split: if_splits)

text \<open>\<open>ADVANCE_TOKEN\<close>: the result is the offset behind the token; its length is the difference.\<close>

definition ADVANCE_TOKEN :: "bool \<Rightarrow> string \<Rightarrow> nat \<Rightarrow> nat \<Rightarrow> nat parse" where
  "ADVANCE_TOKEN sse s e i = do {
     (i, found) \<leftarrow> findchar_fast sse s e i token_ranges;
     andthen (if found then Some (Inr ()) else CHECK_EOF i e) (\<lambda>_. token_loop s e i) }"

text \<open>\<open>do ++buf; while (*buf == ' ')\<close>: no test against the end of the input.\<close>

function skip_spaces :: "string \<Rightarrow> nat \<Rightarrow> nat option" where
  "skip_spaces s i = (case rd s (i + 1) of None \<Rightarrow> None | Some c \<Rightarrow>
     if c = CHR '' '' then skip_spaces s (i + 1) else Some (i + 1))"
  by pat_completeness auto
termination by (relation "measure (\<lambda>(s, i). length s - i)") (auto simp: rd_def split: if_splits)

text \<open>
  The unrolled loop of \<open>get_token_to_eol\<close> without SSE: eight steps, each of which may jump to
  \<open>NonPrintable\<close> (the answer \<^term>\<open>True\<close>).
\<close>

primrec doit :: "string \<Rightarrow> nat \<Rightarrow> nat \<Rightarrow> (nat \<times> bool) option" where
  "doit s 0 i = Some (i, False)"
| "doit s (Suc n) i = do {
     c \<leftarrow> rd s i;
     (if \<not> IS_PRINTABLE_ASCII c then Some (i, True) else doit s n (i + 1)) }"

lemma doit_bounds: "doit s n i = Some (j, b) \<Longrightarrow> i \<le> j \<and> (b \<longrightarrow> j < length s) \<and> (\<not> b \<longrightarrow> j = i + n)"
  by (induction n arbitrary: i) (force simp: rd_def split: Option.bind_splits if_splits)+

function eol_fast :: "string \<Rightarrow> nat \<Rightarrow> nat \<Rightarrow> (nat \<times> bool) option" where
  "eol_fast s e i =
     (if 8 \<le> e - i then
        (case doit s 8 i of
           None \<Rightarrow> None
         | Some (j, False) \<Rightarrow> eol_fast s e j
         | Some (j, True) \<Rightarrow>
             if is_ctl (s ! j) then Some (j, True) else eol_fast s e (j + 1))
      else Some (i, False))"
  by pat_completeness auto
termination by (relation "measure (\<lambda>(s, e, i). e - i)") (auto dest: doit_bounds)

function eol_loop :: "string \<Rightarrow> nat \<Rightarrow> nat \<Rightarrow> nat parse" where
  "eol_loop s e i =
     (if i = e then Some (Inl (-2)) else case rd s i of None \<Rightarrow> None | Some c \<Rightarrow>
        if \<not> IS_PRINTABLE_ASCII c \<and> is_ctl c then Some (Inr i) else eol_loop s e (i + 1))"
  by pat_completeness auto
termination by (relation "measure (\<lambda>(s, e, i). length s - i)") (auto simp: rd_def split: if_splits)

text \<open>The result is the new offset and the length of the token, which starts at \<open>i\<close>.\<close>

definition get_token_to_eol :: "bool \<Rightarrow> string \<Rightarrow> nat \<Rightarrow> nat \<Rightarrow> (nat \<times> nat) parse" where
  "get_token_to_eol sse s e i = do {
     (j, found) \<leftarrow> (if sse then findchar_fast sse s e i eol_ranges else eol_fast s e i);
     andthen (if found then Some (Inr j) else eol_loop s e j) (\<lambda>j. do {
       c \<leftarrow> rd s j;
       (if c = CHR 0x0D then andthen (EXPECT_CHAR s e (j + 1) (CHR 0x0A)) (\<lambda>k. Some (Inr (k, k - 2 - i)))
        else if c = CHR 0x0A then Some (Inr (j + 1, j - i))
        else Some (Inl (-1))) }) }"

section \<open>\<open>is_complete\<close>\<close>

function complete_loop :: "string \<Rightarrow> nat \<Rightarrow> nat \<Rightarrow> nat \<Rightarrow> nat parse" where
  "complete_loop s e i n =
     (if i = e then Some (Inl (-2)) else case rd s i of None \<Rightarrow> None | Some c \<Rightarrow>
        if c = CHR 0x0D then
          (if i + 1 = e then Some (Inl (-2)) else case rd s (i + 1) of None \<Rightarrow> None | Some d \<Rightarrow>
             if d \<noteq> CHR 0x0A then Some (Inl (-1))
             else if n + 1 = 2 then Some (Inr (i + 2)) else complete_loop s e (i + 2) (n + 1))
        else if c = CHR 0x0A then
          (if n + 1 = 2 then Some (Inr (i + 1)) else complete_loop s e (i + 1) (n + 1))
        else complete_loop s e (i + 1) 0)"
  by pat_completeness auto
termination by (relation "measure (\<lambda>(s, e, i, n). length s - i)") (auto simp: rd_def split: if_splits)

definition is_complete :: "string \<Rightarrow> nat \<Rightarrow> nat \<Rightarrow> nat \<Rightarrow> nat parse" where
  "is_complete s e i last_len = complete_loop s e (if last_len < 3 then i else i + last_len - 3) 0"

section \<open>Numbers and the version\<close>

definition PARSE_INT :: "string \<Rightarrow> nat \<Rightarrow> int \<Rightarrow> (nat \<times> int) parse" where
  "PARSE_INT s i mul = do {
     c \<leftarrow> rd s i;
     Some (if (of_char c :: nat) < 48 \<or> 57 < (of_char c :: nat) then Inl (-1)
           else Inr (i + 1, mul * (of_char c - 48))) }"

definition PARSE_INT_3 :: "string \<Rightarrow> nat \<Rightarrow> (nat \<times> int) parse" where
  "PARSE_INT_3 s i =
     andthen (PARSE_INT s i 100) (\<lambda>(i, a).
     andthen (PARSE_INT s i 10) (\<lambda>(i, b).
     andthen (PARSE_INT s i 1) (\<lambda>(i, c). Some (Inr (i, a + b + c)))))"

primrec expect_chars :: "string \<Rightarrow> nat \<Rightarrow> string \<Rightarrow> nat parse" where
  "expect_chars s i [] = Some (Inr i)"
| "expect_chars s i (ch # chs) = andthen (EXPECT_CHAR_NO_CHECK s i ch) (\<lambda>i. expect_chars s i chs)"

definition parse_http_version :: "string \<Rightarrow> nat \<Rightarrow> nat \<Rightarrow> (nat \<times> int) parse" where
  "parse_http_version s e i =
     (if e - i < 9 then Some (Inl (-2))
      else andthen (expect_chars s i ''HTTP/1.'') (\<lambda>i. PARSE_INT s i 1))"

section \<open>Headers\<close>

record phr_header =
  hdr_name :: "nat option"
  hdr_name_len :: nat
  hdr_value :: nat
  hdr_value_len :: nat

function name_loop :: "string \<Rightarrow> nat \<Rightarrow> nat \<Rightarrow> nat parse" where
  "name_loop s e i = (case rd s i of None \<Rightarrow> None | Some c \<Rightarrow>
     if c = CHR '':'' then Some (Inr i)
     else if \<not> token_char_map c then Some (Inl (-1))
     else if i + 1 = e then Some (Inl (-2))
     else name_loop s e (i + 1))"
  by pat_completeness auto
termination by (relation "measure (\<lambda>(s, e, i). length s - i)") (auto simp: rd_def split: if_splits)

definition header_name :: "bool \<Rightarrow> string \<Rightarrow> nat \<Rightarrow> nat \<Rightarrow> nat parse" where
  "header_name sse s e i = do {
     (j, found) \<leftarrow> findchar_fast sse s e i name_ranges;
     andthen (if found then Some (Inr ()) else CHECK_EOF j e) (\<lambda>_. name_loop s e j) }"

definition is_blank :: "char \<Rightarrow> bool" where "is_blank c \<longleftrightarrow> c = CHR '' '' \<or> c = CHR 0x09"

function blank_loop :: "string \<Rightarrow> nat \<Rightarrow> nat \<Rightarrow> nat parse" where
  "blank_loop s e i =
     (if i = e then Some (Inl (-2)) else case rd s i of None \<Rightarrow> None | Some c \<Rightarrow>
        if \<not> is_blank c then Some (Inr i) else blank_loop s e (i + 1))"
  by pat_completeness auto
termination by (relation "measure (\<lambda>(s, e, i). length s - i)") (auto simp: rd_def split: if_splits)

text \<open>Removing trailing blanks of the value at \<open>v\<close>.\<close>

primrec trim_blanks :: "string \<Rightarrow> nat \<Rightarrow> nat \<Rightarrow> nat option" where
  "trim_blanks s v 0 = Some 0"
| "trim_blanks s v (Suc n) = do {
     c \<leftarrow> rd s (v + n);
     (if \<not> is_blank c then Some (Suc n) else trim_blanks s v n) }"

text \<open>One turn of the loop in \<open>parse_headers\<close>, for a line that starts with the character \<open>c\<close>.\<close>

definition parse_header :: "bool \<Rightarrow> string \<Rightarrow> nat \<Rightarrow> nat \<Rightarrow> char \<Rightarrow> nat \<Rightarrow> (nat \<times> phr_header) parse" where
  "parse_header sse s e i c num_headers =
     andthen
       (if \<not> (num_headers \<noteq> 0 \<and> is_blank c) then
          andthen (header_name sse s e i) (\<lambda>j.
          if j - i = 0 then Some (Inl (-1))
          else andthen (blank_loop s e (j + 1)) (\<lambda>k. Some (Inr (Some i, j - i, k))))
        else Some (Inr (None, 0, i)))
       (\<lambda>(name, name_len, value).
     andthen (get_token_to_eol sse s e value) (\<lambda>(k, value_len). do {
       n \<leftarrow> trim_blanks s value value_len;
       Some (Inr (k, \<lparr>hdr_name = name, hdr_name_len = name_len, hdr_value = value, hdr_value_len = n\<rparr>)) }))"

declare findchar_blocks.simps [simp del] token_loop.simps [simp del] skip_spaces.simps [simp del]
  eol_fast.simps [simp del] eol_loop.simps [simp del] complete_loop.simps [simp del]
  name_loop.simps [simp del] blank_loop.simps [simp del]

text \<open>Every parser moves forward; for the loop over the headers this is its termination.\<close>

lemma andthen_Inr: "andthen m f = Some (Inr x) \<longleftrightarrow> (\<exists>y. m = Some (Inr y) \<and> f y = Some (Inr x))"
  by (auto simp: andthen_def split: Option.bind_splits sum.splits)

lemma rd_Some: "rd s i = Some c \<longleftrightarrow> i < length s \<and> c = s ! i"
  by (auto simp: rd_def)

lemma EXPECT_CHAR_Inr: "EXPECT_CHAR s e i ch = Some (Inr j) \<Longrightarrow> j = i + 1 \<and> i < length s \<and> i \<noteq> e"
  by (auto simp: EXPECT_CHAR_def EXPECT_CHAR_NO_CHECK_def CHECK_EOF_def andthen_Inr rd_Some
      split: Option.bind_splits if_splits)

lemma eol_loop_ge: "eol_loop s e i = Some (Inr j) \<Longrightarrow> i \<le> j \<and> j < length s"
proof (induction s e i rule: eol_loop.induct)
  case (1 s e i)
  from "1.prems" show ?case
    using "1.IH" by (subst (asm) eol_loop.simps) (fastforce simp: rd_Some split: if_splits option.splits)
qed

lemma eol_fast_ge: "eol_fast s e i = Some (j, b) \<Longrightarrow> i \<le> j \<and> (b \<longrightarrow> j < length s)"
proof (induction s e i rule: eol_fast.induct)
  case (1 s e i)
  show ?case
  proof (cases "8 \<le> e - i")
    case True
    with "1.prems" obtain k f where k: "doit s 8 i = Some (k, f)"
      by (subst (asm) eol_fast.simps) (auto split: option.splits)
    note kb = doit_bounds [OF k]
    show ?thesis
      using "1.prems" "1.IH" [OF True k refl] kb True k
      by (subst (asm) eol_fast.simps) (cases f; force split: if_splits)
  next
    case False
    with "1.prems" show ?thesis by (subst (asm) eol_fast.simps) simp
  qed
qed

lemma name_loop_ge: "name_loop s e i = Some (Inr j) \<Longrightarrow> i \<le> j \<and> j < length s"
proof (induction s e i rule: name_loop.induct)
  case (1 s e i)
  from "1.prems" show ?case
    using "1.IH" by (subst (asm) name_loop.simps) (fastforce simp: rd_Some split: if_splits option.splits)
qed

lemma blank_loop_ge: "blank_loop s e i = Some (Inr j) \<Longrightarrow> i \<le> j \<and> j < length s"
proof (induction s e i rule: blank_loop.induct)
  case (1 s e i)
  from "1.prems" show ?case
    using "1.IH" by (subst (asm) blank_loop.simps) (fastforce simp: rd_Some split: if_splits option.splits)
qed

lemma findchar_blocks_ge: "findchar_blocks s i left ranges = Some (j, b) \<Longrightarrow> i \<le> j"
proof (induction s i left ranges rule: findchar_blocks.induct)
  case (1 s i left ranges)
  from "1.prems" show ?case
    using "1.IH" by (subst (asm) findchar_blocks.simps)
      (fastforce simp: Let_def split: if_splits Option.bind_splits)
qed

lemma findchar_fast_ge: "findchar_fast sse s e i ranges = Some (j, b) \<Longrightarrow> i \<le> j"
  by (auto simp: findchar_fast_def dest: findchar_blocks_ge split: if_splits)

lemma get_token_to_eol_ge:
  assumes "get_token_to_eol sse s e i = Some (Inr (k, n))"
  shows "i < k \<and> k \<le> length s"
proof -
  obtain j found l where j: "(if sse then findchar_fast sse s e i eol_ranges else eol_fast s e i) = Some (j, found)"
    "(if found then Some (Inr j) else eol_loop s e j) = Some (Inr l)" "l < length s" "k = l + 1 \<or> k = l + 2 \<and> l + 1 < length s"
    using assms unfolding get_token_to_eol_def
    by (auto simp: andthen_Inr rd_Some split: Option.bind_splits if_splits dest!: EXPECT_CHAR_Inr)
  have "i \<le> j" using j(1) findchar_fast_ge eol_fast_ge by (fastforce split: if_splits)
  moreover have "j \<le> l" using j(2) eol_loop_ge by (auto split: if_splits)
  ultimately show ?thesis using j(3,4) by auto
qed

lemma header_name_ge: "header_name sse s e i = Some (Inr j) \<Longrightarrow> i \<le> j \<and> j < length s"
  by (fastforce simp: header_name_def andthen_Inr split: Option.bind_splits
      dest!: name_loop_ge findchar_fast_ge)

lemma parse_header_ge:
  assumes "parse_header sse s e i c n = Some (Inr (k, h))"
  shows "i < k \<and> k \<le> length s"
proof -
  obtain v l where v: "get_token_to_eol sse s e v = Some (Inr (k, l))" "i \<le> v"
    using assms unfolding parse_header_def andthen_Inr
    by (auto simp: andthen_Inr split: if_splits Option.bind_splits dest!: header_name_ge blank_loop_ge)
  then show ?thesis using get_token_to_eol_ge [OF v(1)] by linarith
qed

function parse_headers :: "bool \<Rightarrow> string \<Rightarrow> nat \<Rightarrow> nat \<Rightarrow> phr_header list \<Rightarrow> nat \<Rightarrow> (nat \<times> phr_header list) parse" where
  "parse_headers sse s e i headers max_headers =
     (if i = e then Some (Inl (-2)) else case rd s i of None \<Rightarrow> None | Some c \<Rightarrow>
        if c = CHR 0x0D then andthen (EXPECT_CHAR s e (i + 1) (CHR 0x0A)) (\<lambda>k. Some (Inr (k, headers)))
        else if c = CHR 0x0A then Some (Inr (i + 1, headers))
        else if length headers = max_headers then Some (Inl (-1))
        else case parse_header sse s e i c (length headers) of
            None \<Rightarrow> None
          | Some (Inl err) \<Rightarrow> Some (Inl err)
          | Some (Inr (k, h)) \<Rightarrow> parse_headers sse s e k (headers @ [h]) max_headers)"
  by pat_completeness auto
termination
  by (relation "measure (\<lambda>(sse, s, e, i, _). length s - i)") (auto dest!: parse_header_ge)

declare parse_headers.simps [simp del]

section \<open>Requests and responses\<close>

definition line_end :: "string \<Rightarrow> nat \<Rightarrow> nat \<Rightarrow> nat parse \<Rightarrow> nat parse" where
  "line_end s e i otherwise = do {
     c \<leftarrow> rd s i;
     (if c = CHR 0x0D then EXPECT_CHAR s e (i + 1) (CHR 0x0A)
      else if c = CHR 0x0A then Some (Inr (i + 1))
      else otherwise) }"

record phr_request =
  rq_method :: nat
  rq_method_len :: nat
  rq_path :: nat
  rq_path_len :: nat
  rq_minor_version :: int
  rq_headers :: "phr_header list"

definition parse_request :: "bool \<Rightarrow> string \<Rightarrow> nat \<Rightarrow> nat \<Rightarrow> nat \<Rightarrow> (nat \<times> phr_request) parse" where
  "parse_request sse s e i max_headers =
     andthen (CHECK_EOF i e) (\<lambda>_.
     andthen (line_end s e i (Some (Inr i))) (\<lambda>method.
     andthen (ADVANCE_TOKEN sse s e method) (\<lambda>i. do {
       path \<leftarrow> skip_spaces s i;
       andthen (ADVANCE_TOKEN sse s e path) (\<lambda>j. do {
         version \<leftarrow> skip_spaces s j;
         (if i - method = 0 \<or> j - path = 0 then Some (Inl (-1))
          else
            andthen (parse_http_version s e version) (\<lambda>(k, minor_version).
            andthen (line_end s e k (Some (Inl (-1)))) (\<lambda>k.
            andthen (parse_headers sse s e k [] max_headers) (\<lambda>(n, headers).
            Some (Inr (n, \<lparr>rq_method = method, rq_method_len = i - method, rq_path = path,
              rq_path_len = j - path, rq_minor_version = minor_version, rq_headers = headers\<rparr>)))))) }) })))"

text \<open>
  The entry points convert the number of consumed bytes to an \<open>int\<close>. \<open>len\<close> is the length of
  the input and \<open>max_headers\<close> the value of \<open>*num_headers\<close> on entry.
\<close>

definition to_int :: "nat \<Rightarrow> int" where "to_int n = sint (word_of_nat n :: 32 word)"

definition entry_point ::
    "string \<Rightarrow> nat \<Rightarrow> nat \<Rightarrow> (nat \<times> 'a) parse \<Rightarrow> (int \<times> 'a option) option" where
  "entry_point s len last_len parse = do {
     r \<leftarrow> andthen (if last_len \<noteq> 0 then is_complete s len 0 last_len else Some (Inr 0)) (\<lambda>_. parse);
     Some (case r of Inl err \<Rightarrow> (err, None) | Inr (n, x) \<Rightarrow> (to_int n, Some x)) }"

definition phr_parse_request :: "bool \<Rightarrow> string \<Rightarrow> nat \<Rightarrow> nat \<Rightarrow> nat \<Rightarrow> (int \<times> phr_request option) option" where
  "phr_parse_request sse s len max_headers last_len =
     entry_point s len last_len (parse_request sse s len 0 max_headers)"

record phr_response =
  rs_minor_version :: int
  rs_status :: int
  rs_msg :: nat
  rs_msg_len :: nat
  rs_headers :: "phr_header list"

definition parse_response :: "bool \<Rightarrow> string \<Rightarrow> nat \<Rightarrow> nat \<Rightarrow> nat \<Rightarrow> (nat \<times> phr_response) parse" where
  "parse_response sse s e i max_headers =
     andthen (parse_http_version s e i) (\<lambda>(i, minor_version). do {
       c \<leftarrow> rd s i;
       (if c \<noteq> CHR '' '' then Some (Inl (-1))
        else do {
          i \<leftarrow> skip_spaces s i;
          (if e - i < 4 then Some (Inl (-2))
           else
             andthen (PARSE_INT_3 s i) (\<lambda>(msg, status).
             andthen (get_token_to_eol sse s e msg) (\<lambda>(k, msg_len).
             andthen
               (if msg_len = 0 then Some (Inr (msg, msg_len))
                else do {
                  c \<leftarrow> rd s msg;
                  (if c = CHR '' '' then do { m \<leftarrow> skip_spaces s msg; Some (Inr (m, msg_len - (m - msg))) }
                   else Some (Inl (-1))) })
               (\<lambda>(msg, msg_len).
             andthen (parse_headers sse s e k [] max_headers) (\<lambda>(n, headers).
             Some (Inr (n, \<lparr>rs_minor_version = minor_version, rs_status = status, rs_msg = msg,
               rs_msg_len = msg_len, rs_headers = headers\<rparr>))))))) }) })"

definition phr_parse_response :: "bool \<Rightarrow> string \<Rightarrow> nat \<Rightarrow> nat \<Rightarrow> nat \<Rightarrow> (int \<times> phr_response option) option" where
  "phr_parse_response sse s len max_headers last_len =
     entry_point s len last_len (parse_response sse s len 0 max_headers)"

definition phr_parse_headers :: "bool \<Rightarrow> string \<Rightarrow> nat \<Rightarrow> nat \<Rightarrow> nat \<Rightarrow> (int \<times> phr_header list option) option" where
  "phr_parse_headers sse s len max_headers last_len =
     entry_point s len last_len (parse_headers sse s len 0 [] max_headers)"

section \<open>The loops as one plain search\<close>

lemma name_ranges: "\<not> in_ranges name_ranges c \<Longrightarrow> token_char_map c \<and> c \<noteq> CHR '':''"
proof -
  have "\<forall>c. \<not> in_ranges name_ranges c \<longrightarrow> token_char_map c \<and> c \<noteq> CHR '':''" by code_simp
  then show "\<not> in_ranges name_ranges c \<Longrightarrow> token_char_map c \<and> c \<noteq> CHR '':''" by blast
qed
lemma char_code: "c = d \<longleftrightarrow> (of_char c :: nat) = of_char d" by simp
lemma eol_ranges: "in_ranges eol_ranges c \<longleftrightarrow> is_ctl c"
  unfolding in_ranges_def eol_ranges_def is_ctl_def char_code [of c] by auto
lemma token_ranges: "in_ranges token_ranges c \<longleftrightarrow> (of_char c :: nat) \<le> 32 \<or> c = CHR 0x7F"
  unfolding in_ranges_def token_ranges_def char_code [of c] by auto
lemma ctl_not_printable: "is_ctl c \<Longrightarrow> \<not> IS_PRINTABLE_ASCII c"
  unfolding is_ctl_def IS_PRINTABLE_ASCII_def char_code [of c] by auto
text \<open>The first position before \<open>e\<close> with a property: what the loops look for.\<close>

definition first :: "(char \<Rightarrow> bool) \<Rightarrow> string \<Rightarrow> nat \<Rightarrow> nat \<Rightarrow> nat option" where
  "first P s e i = find (\<lambda>k. P (s ! k)) [i..<e]"

lemma first_step: "i < e \<Longrightarrow> first P s e i = (if P (s ! i) then Some i else first P s e (Suc i))"
  by (simp add: first_def upt_conv_Cons)

lemma first_end: "e \<le> i \<Longrightarrow> first P s e i = None"
  by (simp add: first_def)

lemma first_Some: "first P s e i = Some k \<longleftrightarrow> i \<le> k \<and> k < e \<and> P (s ! k) \<and> (\<forall>j. i \<le> j \<and> j < k \<longrightarrow> \<not> P (s ! j))"
proof (induction "e - i" arbitrary: i)
  case 0
  then show ?case by (simp add: first_end)
next
  case (Suc n)
  then have i: "i < e" "n = e - Suc i" by simp_all
  show ?case
    unfolding first_step [OF i(1)] using Suc.hyps(1) [OF i(2)] i(1)
    by (cases "P (s ! i)") (auto simp: Suc_le_eq dest: le_neq_implies_less)
qed

lemma first_None: "first P s e i = None \<longleftrightarrow> (\<forall>j. i \<le> j \<and> j < e \<longrightarrow> \<not> P (s ! j))"
  by (auto simp: first_def find_None_iff)

lemma first_skip:
  assumes "i \<le> j" "j \<le> e" "\<And>k. i \<le> k \<Longrightarrow> k < j \<Longrightarrow> \<not> P (s ! k)"
  shows "first P s e i = first P s e j"
  using assms by (induction j rule: dec_induct) (auto simp: first_step)

lemma first_cong:
  assumes "\<And>k. i \<le> k \<Longrightarrow> k < e \<Longrightarrow> P (s ! k) = Q (t ! k)"
  shows "first P s e i = first Q t e i"
  unfolding first_def using assms by (intro find_cong) auto

lemma first_extend:
  assumes "first P s e i = Some k" "e \<le> e'" "\<And>j. j < e \<Longrightarrow> s ! j = t ! j"
  shows "first P t e' i = Some k"
  using assms by (auto simp: first_Some)

text \<open>The loops.\<close>

definition or_end :: "nat option \<Rightarrow> int + nat" where
  "or_end r = (case r of None \<Rightarrow> Inl (-2) | Some k \<Rightarrow> Inr k)"

lemma eol_loop_first: "i \<le> e \<Longrightarrow> e \<le> length s \<Longrightarrow> eol_loop s e i = Some (or_end (first is_ctl s e i))"
proof (induction s e i rule: eol_loop.induct)
  case (1 s e i)
  then show ?case
    by (subst eol_loop.simps)
      (auto simp: rd_def first_end first_step or_end_def ctl_not_printable)
qed

lemma blank_loop_first:
  "i \<le> e \<Longrightarrow> e \<le> length s \<Longrightarrow> blank_loop s e i = Some (or_end (first (\<lambda>c. \<not> is_blank c) s e i))"
proof (induction s e i rule: blank_loop.induct)
  case (1 s e i)
  then show ?case
    by (subst blank_loop.simps) (auto simp: rd_def first_end first_step or_end_def)
qed

text \<open>A token ends at a space; a name ends at a colon. Other stops are errors.\<close>

definition stop_at :: "string \<Rightarrow> char \<Rightarrow> nat option \<Rightarrow> int + nat" where
  "stop_at s ch r = (case r of None \<Rightarrow> Inl (-2) | Some k \<Rightarrow> if s ! k = ch then Inr k else Inl (-1))"

definition ends_token :: "char \<Rightarrow> bool" where
  "ends_token c \<longleftrightarrow> c = CHR '' '' \<or> (of_char c :: nat) < 32 \<or> c = CHR 0x7F"

definition ends_name :: "char \<Rightarrow> bool" where
  "ends_name c \<longleftrightarrow> c = CHR '':'' \<or> \<not> token_char_map c"

lemma token_loop_first:
  "i < e \<Longrightarrow> e \<le> length s \<Longrightarrow> token_loop s e i = Some (stop_at s (CHR '' '') (first ends_token s e i))"
proof (induction s e i rule: token_loop.induct)
  case (1 s e i)
  have p: "(of_char (s ! i) :: nat) < 32 \<or> s ! i = CHR 0x7F \<Longrightarrow> \<not> IS_PRINTABLE_ASCII (s ! i)"
    unfolding IS_PRINTABLE_ASCII_def by auto
  show ?case
    using 1 p by (subst token_loop.simps)
      (auto simp: rd_def first_end first_step [of i e] stop_at_def ends_token_def [of "s ! i"])
qed

lemma name_loop_first:
  "i < e \<Longrightarrow> e \<le> length s \<Longrightarrow> name_loop s e i = Some (stop_at s (CHR '':'') (first ends_name s e i))"
proof (induction s e i rule: name_loop.induct)
  case (1 s e i)
  then show ?case
    by (subst name_loop.simps)
      (auto simp: rd_def first_end first_step [of i e] stop_at_def ends_name_def [of "s ! i"])
qed

lemma findchar_blocks_ok:
  "i + left \<le> length s \<Longrightarrow> 0 < left \<Longrightarrow> 16 dvd left \<Longrightarrow>
   \<exists>j b. findchar_blocks s i left ranges = Some (j, b) \<and> i \<le> j \<and> j \<le> i + left \<and>
     (\<forall>k. i \<le> k \<and> k < j \<longrightarrow> \<not> in_ranges ranges (s ! k)) \<and> (b \<longrightarrow> j < i + left \<and> in_ranges ranges (s ! j))"
proof (induction s i left ranges rule: findchar_blocks.induct)
  case (1 s i left ranges)
  have l: "16 \<le> left" using 1(3,4) by (auto elim: dvdE)
  define b16 where "b16 = take 16 (drop i s)"
  have r: "mem_read s i 16 = Some b16" using l 1(2) by (simp add: mem_read_ok b16_def)
  have len: "length b16 = 16" using l 1(2) by (simp add: b16_def)
  have nth: "b16 ! k = s ! (i + k)" if "k < 16" for k using that l 1(2) by (simp add: b16_def)
  define p where "p = cmpestri ranges b16"
  have p16: "p \<le> 16" using length_takeWhile_le [of _ b16] len by (simp add: p_def cmpestri_def)
  have before: "\<not> in_ranges ranges (s ! (i + k))" if "k < p" for k
    using nth_length_takeWhile takeWhile_nth [of k _ b16] that p16 nth [of k] set_takeWhileD
    by (metis (no_types, lifting) cmpestri_def less_le_trans nth_mem p_def)
  have at: "in_ranges ranges (s ! (i + p))" if "p \<noteq> 16"
    using nth_length_takeWhile [of "\<lambda>c. \<not> in_ranges ranges c" b16] that p16 len nth [of p]
    by (simp add: p_def cmpestri_def)
  have before': "\<not> in_ranges ranges (s ! k)" if "i \<le> k" "k < i + p" for k
    using before [of "k - i"] that by simp
  show ?case
  proof (cases "p = 16 \<and> left \<noteq> 16")
    case True
    have "\<exists>j b. findchar_blocks s (i + 16) (left - 16) ranges = Some (j, b) \<and> i + 16 \<le> j \<and> j \<le> i + 16 + (left - 16) \<and>
     (\<forall>k. i + 16 \<le> k \<and> k < j \<longrightarrow> \<not> in_ranges ranges (s ! k)) \<and> (b \<longrightarrow> j < i + 16 + (left - 16) \<and> in_ranges ranges (s ! j))"
      using 1(1) [OF r p_def [symmetric, THEN sym]] True l 1(2,4) by (simp add: p_def dvd_diff_nat)
    then obtain j b where j: "findchar_blocks s (i + 16) (left - 16) ranges = Some (j, b)" "i + 16 \<le> j"
      "j \<le> i + left" "\<forall>k. i + 16 \<le> k \<and> k < j \<longrightarrow> \<not> in_ranges ranges (s ! k)"
      "b \<longrightarrow> j < i + left \<and> in_ranges ranges (s ! j)" using l by auto
    have "\<forall>k. i \<le> k \<and> k < j \<longrightarrow> \<not> in_ranges ranges (s ! k)"
      using before' j(4) True by (meson not_le)
    then show ?thesis using True j l
      by (subst findchar_blocks.simps) (auto simp: r p_def [symmetric])
  next
    case False
    then show ?thesis
      using l p16 at before' by (subst findchar_blocks.simps) (auto simp: r p_def [symmetric])
  qed
qed

lemma findchar_fast_ok:
  assumes "i \<le> e" "e \<le> length s"
  shows "\<exists>j b. findchar_fast sse s e i ranges = Some (j, b) \<and> i \<le> j \<and> j \<le> e \<and>
     (\<forall>k. i \<le> k \<and> k < j \<longrightarrow> \<not> in_ranges ranges (s ! k)) \<and> (b \<longrightarrow> j < e \<and> in_ranges ranges (s ! j))"
proof (cases "sse \<and> 16 \<le> e - i")
  case True
  define left where "left = (e - i) div 16 * 16"
  have le: "left \<le> e - i" by (simp add: left_def)
  have "1 \<le> (e - i) div 16" using True by (simp add: div_greater_zero_iff Suc_le_eq)
  then have "0 < left" "16 dvd left" unfolding left_def by simp_all
  moreover have "i + left \<le> length s" using le assms by linarith
  ultimately obtain j b where j: "findchar_blocks s i left ranges = Some (j, b)" "i \<le> j" "j \<le> i + left"
    "\<forall>k. i \<le> k \<and> k < j \<longrightarrow> \<not> in_ranges ranges (s ! k)" "b \<longrightarrow> j < i + left \<and> in_ranges ranges (s ! j)"
    using findchar_blocks_ok [of i left s ranges] by blast
  have "i + left \<le> e" using le assms(1) by linarith
  then have fin: "j \<le> e" "b \<longrightarrow> j < e \<and> in_ranges ranges (s ! j)" using j(3,5) by auto
  have run: "findchar_fast sse s e i ranges = Some (j, b)"
    unfolding findchar_fast_def left_def [symmetric] using j(1) True by simp
  show ?thesis by (intro exI [of _ j] exI [of _ b] conjI run j(2,4) fin)
next
  case False
  then have "findchar_fast sse s e i ranges = Some (i, False)" by (auto simp: findchar_fast_def)
  then show ?thesis using assms(1) by (intro exI [of _ i] exI [of _ False]) auto
qed

lemma ADVANCE_TOKEN_first:
  assumes "i \<le> e" "e \<le> length s"
  shows "ADVANCE_TOKEN sse s e i = Some (stop_at s (CHR '' '') (first ends_token s e i))"
proof -
  obtain j b where j: "findchar_fast sse s e i token_ranges = Some (j, b)" "i \<le> j" "j \<le> e"
     "\<forall>k. i \<le> k \<and> k < j \<longrightarrow> \<not> in_ranges token_ranges (s ! k)" "b \<longrightarrow> j < e"
    using findchar_fast_ok [OF assms, of sse token_ranges] by blast
  have "\<not> ends_token (s ! k)" if "i \<le> k" "k < j" for k
    using j(4) that by (auto simp: token_ranges ends_token_def)
  with j(2,3) have f: "first ends_token s e i = first ends_token s e j" by (intro first_skip) auto
  show ?thesis
  proof (cases "j = e")
    case True
    then show ?thesis using j by (auto simp: ADVANCE_TOKEN_def andthen_def CHECK_EOF_def f first_end stop_at_def)
  next
    case False
    then have "j < e" using j(3) by simp
    from token_loop_first [OF this assms(2)] False j(1,5) show ?thesis
      by (simp add: ADVANCE_TOKEN_def andthen_def CHECK_EOF_def f)
  qed
qed

lemma header_name_first:
  assumes "i \<le> e" "e \<le> length s"
  shows "header_name sse s e i = Some (stop_at s (CHR '':'') (first ends_name s e i))"
proof -
  obtain j b where j: "findchar_fast sse s e i name_ranges = Some (j, b)" "i \<le> j" "j \<le> e"
     "\<forall>k. i \<le> k \<and> k < j \<longrightarrow> \<not> in_ranges name_ranges (s ! k)" "b \<longrightarrow> j < e"
    using findchar_fast_ok [OF assms, of sse name_ranges] by blast
  have "\<not> ends_name (s ! k)" if "i \<le> k" "k < j" for k
    using j(4) that name_ranges by (auto simp: ends_name_def)
  with j(2,3) have f: "first ends_name s e i = first ends_name s e j" by (intro first_skip) auto
  show ?thesis
  proof (cases "j = e")
    case True
    then show ?thesis using j by (auto simp: header_name_def andthen_def CHECK_EOF_def f first_end stop_at_def)
  next
    case False
    then have "j < e" using j(3) by simp
    from name_loop_first [OF this assms(2)] False j(1,5) show ?thesis
      by (simp add: header_name_def andthen_def CHECK_EOF_def f)
  qed
qed

lemma doit_ok:
  "i + n \<le> length s \<Longrightarrow> \<exists>j b. doit s n i = Some (j, b) \<and> i \<le> j \<and> j \<le> i + n \<and>
     (\<forall>k. i \<le> k \<and> k < j \<longrightarrow> IS_PRINTABLE_ASCII (s ! k)) \<and> (if b then j < i + n else j = i + n)"
proof (induction n arbitrary: i)
  case (Suc n)
  then have i: "i < length s" by simp
  show ?case
  proof (cases "IS_PRINTABLE_ASCII (s ! i)")
    case True
    from Suc.IH [of "i + 1"] Suc.prems obtain j b where j: "doit s n (i + 1) = Some (j, b)" "i + 1 \<le> j"
      "j \<le> i + 1 + n" "\<forall>k. i + 1 \<le> k \<and> k < j \<longrightarrow> IS_PRINTABLE_ASCII (s ! k)"
      "if b then j < i + 1 + n else j = i + 1 + n" by auto
    have "IS_PRINTABLE_ASCII (s ! k)" if "i \<le> k" "k < j" for k
      using j(4) True that by (cases "k = i") simp_all
    moreover have "doit s (Suc n) i = Some (j, b)" using j(1) True i by (simp add: rd_def)
    moreover have "i \<le> j" "j \<le> i + Suc n" "if b then j < i + Suc n else j = i + Suc n"
      using j(2,3,5) by (simp_all split: if_splits)
    ultimately show ?thesis by blast
  next
    case False
    then have "doit s (Suc n) i = Some (i, True)" using i by (simp add: rd_def)
    then show ?thesis by fastforce
  qed
next
  case 0
  then show ?case by (intro exI [of _ i] exI [of _ False]) auto
qed

lemma eol_fast_ok:
  "i \<le> e \<Longrightarrow> e \<le> length s \<Longrightarrow> \<exists>j b. eol_fast s e i = Some (j, b) \<and> i \<le> j \<and> j \<le> e \<and>
     (\<forall>k. i \<le> k \<and> k < j \<longrightarrow> \<not> is_ctl (s ! k)) \<and> (b \<longrightarrow> j < e \<and> is_ctl (s ! j))"
proof (induction s e i rule: eol_fast.induct)
  case (1 s e i)
  show ?case
  proof (cases "8 \<le> e - i")
    case True
    then have "i + 8 \<le> length s" using 1(4) by simp
    from doit_ok [OF this] obtain j b where j: "doit s 8 i = Some (j, b)" "i \<le> j" "j \<le> i + 8"
      "\<forall>k. i \<le> k \<and> k < j \<longrightarrow> IS_PRINTABLE_ASCII (s ! k)" "if b then j < i + 8 else j = i + 8" by blast
    have pass: "\<not> is_ctl (s ! k)" if "i \<le> k" "k < j" for k using j(4) that ctl_not_printable by blast
    show ?thesis
    proof (cases b)
      case False
      have "j \<le> e" using j(3) True by simp
      from 1(2) [OF True j(1), of j b] False this 1(4) obtain j' b' where j': "eol_fast s e j = Some (j', b')"
        "j \<le> j'" "j' \<le> e" "\<forall>k. j \<le> k \<and> k < j' \<longrightarrow> \<not> is_ctl (s ! k)" "b' \<longrightarrow> j' < e \<and> is_ctl (s ! j')"
        by auto
      have "\<forall>k. i \<le> k \<and> k < j' \<longrightarrow> \<not> is_ctl (s ! k)" using j'(4) pass by (meson not_le)
      with j' False True j show ?thesis by (subst eol_fast.simps) auto
    next
      case b: True
      have je: "j < e" using j(5) b True by simp
      show ?thesis
      proof (cases "is_ctl (s ! j)")
        case ctl: True
        with je b True j pass show ?thesis by (subst eol_fast.simps) auto
      next
        case ctl: False
        have "j + 1 \<le> e" using je by simp
        with 1(1) [OF True j(1), of j b] b ctl 1(4) obtain j' b' where j': "eol_fast s e (j + 1) = Some (j', b')"
          "j + 1 \<le> j'" "j' \<le> e" "\<forall>k. j + 1 \<le> k \<and> k < j' \<longrightarrow> \<not> is_ctl (s ! k)" "b' \<longrightarrow> j' < e \<and> is_ctl (s ! j')"
          by auto
        have "\<forall>k. i \<le> k \<and> k < j' \<longrightarrow> \<not> is_ctl (s ! k)"
          using j'(4) pass ctl by (metis Suc_eq_plus1 Suc_leI linorder_neqE_nat)
        with j' b ctl True j show ?thesis by (subst eol_fast.simps) auto
      qed
    qed
  next
    case False
    then have "eol_fast s e i = Some (i, False)" by (subst eol_fast.simps) simp
    then show ?thesis using 1(3) by (intro exI [of _ i] exI [of _ False]) auto
  qed
qed

text \<open>The line that starts at \<open>i\<close>, given its first control character.\<close>

definition eol_result :: "string \<Rightarrow> nat \<Rightarrow> nat \<Rightarrow> nat option \<Rightarrow> int + (nat \<times> nat)" where
  "eol_result s e i r = (case r of None \<Rightarrow> Inl (-2) | Some j \<Rightarrow>
     if s ! j = CHR 0x0D
     then (if j + 1 = e then Inl (-2) else if s ! (j + 1) \<noteq> CHR 0x0A then Inl (-1) else Inr (j + 2, j - i))
     else if s ! j = CHR 0x0A then Inr (j + 1, j - i) else Inl (-1))"

lemma get_token_to_eol_first:
  assumes "i \<le> e" "e \<le> length s"
  shows "get_token_to_eol sse s e i = Some (eol_result s e i (first is_ctl s e i))"
proof -
  have "\<exists>j b. (if sse then findchar_fast sse s e i eol_ranges else eol_fast s e i) = Some (j, b) \<and> i \<le> j \<and> j \<le> e \<and>
     (\<forall>k. i \<le> k \<and> k < j \<longrightarrow> \<not> is_ctl (s ! k)) \<and> (b \<longrightarrow> j < e \<and> is_ctl (s ! j))"
    using findchar_fast_ok [OF assms, of sse eol_ranges] eol_fast_ok [OF assms] by (auto simp: eol_ranges)
  then obtain j b where j: "(if sse then findchar_fast sse s e i eol_ranges else eol_fast s e i) = Some (j, b)"
    "i \<le> j" "j \<le> e" "\<forall>k. i \<le> k \<and> k < j \<longrightarrow> \<not> is_ctl (s ! k)" "b \<longrightarrow> j < e \<and> is_ctl (s ! j)"
    by blast
  have f: "first is_ctl s e i = first is_ctl s e j" using j(2-4) by (intro first_skip) auto
  have scan: "(if b then Some (Inr j) else eol_loop s e j) = Some (or_end (first is_ctl s e i))"
    using eol_loop_first [OF j(3) assms(2)] j(5) by (auto simp: f first_step or_end_def)
  show ?thesis
  proof (cases "first is_ctl s e i")
    case None
    then show ?thesis using j(1) scan by (simp add: get_token_to_eol_def andthen_def or_end_def eol_result_def)
  next
    case (Some k)
    then have "k < e" by (simp add: first_Some)
    then show ?thesis using j(1) scan Some assms(2)
      by (auto simp: get_token_to_eol_def andthen_def or_end_def eol_result_def rd_def EXPECT_CHAR_def
          EXPECT_CHAR_NO_CHECK_def CHECK_EOF_def)
  qed
qed
end
