(* ===== verification/Parser_Facts.thy ===== *)
theory Parser_Facts
  imports Picohttpparser
begin

text \<open>
  Bounds, stability under further input and independence of the vector instructions, proved
  together. \<open>simul P m1 m2\<close> says of two runs of a parser, the second on at least the input of the
  first: the first does not fault; if it accepts, its result satisfies \<open>P\<close>; and unless it asks for
  more input the second gives the same answer.
\<close>

definition simul :: "('a \<Rightarrow> bool) \<Rightarrow> 'a parse \<Rightarrow> 'a parse \<Rightarrow> bool" where
  "simul P m1 m2 \<longleftrightarrow> (\<exists>r. m1 = Some r \<and> (case r of Inl err \<Rightarrow> err = -1 \<or> err = -2 | Inr x \<Rightarrow> P x) \<and>
     (r \<noteq> Inl (-2) \<longrightarrow> m2 = Some r))"

text \<open>
  The input does not end in a space, or the byte behind it is readable and not a space: this is what
  keeps \<open>do ++buf; while (*buf == ' ')\<close> from running away.
\<close>

definition guarded :: "string \<Rightarrow> nat \<Rightarrow> bool" where
  "guarded s e \<longleftrightarrow> e \<le> length s \<and>
     (e = 0 \<or> s ! (e - 1) \<noteq> CHR '' '' \<or> e < length s \<and> s ! e \<noteq> CHR '' '')"

definition extends :: "string \<Rightarrow> nat \<Rightarrow> string \<Rightarrow> nat \<Rightarrow> bool" where
  "extends s e t e' \<longleftrightarrow> guarded s e \<and> guarded t e' \<and> e \<le> e' \<and> take e s = take e t"

lemma extendsD:
  assumes "extends s e t e'"
  shows "e \<le> length s" "e' \<le> length t" "guarded s e" "guarded t e'" "e \<le> e'" "k < e \<Longrightarrow> t ! k = s ! k"
proof -
  show "e \<le> length s" "e' \<le> length t" "guarded s e" "guarded t e'" "e \<le> e'"
    using assms by (auto simp: extends_def guarded_def)
  show "k < e \<Longrightarrow> t ! k = s ! k" using assms unfolding extends_def by (metis nth_take)
qed

lemma extends_refl: "guarded s e \<Longrightarrow> extends s e s e"
  by (simp add: extends_def)

lemma simul_error [intro]: "simul P (Some (Inl (-1))) (Some (Inl (-1)))"
  by (simp add: simul_def)

lemma simul_incomplete [intro]: "simul P (Some (Inl (-2))) m"
  by (simp add: simul_def)

lemma simul_return [intro]: "P x \<Longrightarrow> simul P (Some (Inr x)) (Some (Inr x))"
  by (simp add: simul_def)

lemma andthen_return [simp]: "andthen (Some (Inr x)) f = f x"
  by (simp add: andthen_def)

lemma simul_andthen:
  assumes "simul P m1 m2" "\<And>x. P x \<Longrightarrow> simul Q (f1 x) (f2 x)"
  shows "simul Q (andthen m1 f1) (andthen m2 f2)"
proof -
  obtain r where r: "m1 = Some r" "case r of Inl err \<Rightarrow> err = -1 \<or> err = -2 | Inr x \<Rightarrow> P x"
    "r \<noteq> Inl (-2) \<longrightarrow> m2 = Some r" using assms(1) by (auto simp: simul_def)
  show ?thesis
  proof (cases r)
    case (Inl err)
    with r show ?thesis by (auto simp: simul_def andthen_def)
  next
    case (Inr x)
    with r assms(2) [of x] show ?thesis by (simp add: andthen_def)
  qed
qed

lemma simul_weaken: "simul P m1 m2 \<Longrightarrow> (\<And>x. P x \<Longrightarrow> Q x) \<Longrightarrow> simul Q m1 m2"
  by (auto simp: simul_def split: sum.splits)

text \<open>The four searching loops.\<close>

lemma first_extends:
  assumes "extends s e t e'" "first P s e i = Some k"
  shows "first P t e' i = Some k"
  using first_extend [OF assms(2) extendsD(5) [OF assms(1)]] extendsD(6) [OF assms(1)] by simp

lemma simul_stop:
  assumes "extends s e t e'"
  shows "simul (\<lambda>k. i \<le> k \<and> k < e \<and> s ! k = ch)
    (Some (stop_at s ch (first P s e i))) (Some (stop_at t ch (first P t e' i)))"
proof (cases "first P s e i")
  case (Some k)
  then have "i \<le> k" "k < e" by (simp_all add: first_Some)
  moreover have "t ! k = s ! k" "first P t e' i = Some k"
    using extendsD(6) [OF assms] first_extends [OF assms Some] \<open>k < e\<close> by simp_all
  ultimately show ?thesis using Some by (simp add: stop_at_def simul_def)
qed (simp add: stop_at_def simul_incomplete)

lemma simul_token:
  assumes "extends s e t e'" "i \<le> e"
  shows "simul (\<lambda>k. i \<le> k \<and> k < e \<and> s ! k = CHR '' '')
    (ADVANCE_TOKEN b s e i) (ADVANCE_TOKEN b' t e' i)"
  using simul_stop [OF assms(1)] assms(2) extendsD [OF assms(1)] by (simp add: ADVANCE_TOKEN_first)

lemma simul_name:
  assumes "extends s e t e'" "i \<le> e"
  shows "simul (\<lambda>k. i \<le> k \<and> k < e) (header_name b s e i) (header_name b' t e' i)"
proof -
  have "simul (\<lambda>k. i \<le> k \<and> k < e \<and> s ! k = CHR '':'') (header_name b s e i) (header_name b' t e' i)"
    using simul_stop [OF assms(1)] assms(2) extendsD [OF assms(1)] by (simp add: header_name_first)
  then show ?thesis by (rule simul_weaken) simp
qed

lemma simul_blank:
  assumes "extends s e t e'" "i \<le> e"
  shows "simul (\<lambda>k. i \<le> k \<and> k < e) (blank_loop s e i) (blank_loop t e' i)"
proof -
  note D = extendsD [OF assms(1)]
  have "i \<le> e'" using assms(2) D(5) by simp
  then show ?thesis
    unfolding blank_loop_first [OF assms(2) D(1)]
      blank_loop_first [OF \<open>i \<le> e'\<close> D(2)]
    using first_extends [OF assms(1), of "\<lambda>c. \<not> is_blank c" i] first_Some [of "\<lambda>c. \<not> is_blank c" s e i]
    by (cases "first (\<lambda>c. \<not> is_blank c) s e i") (auto simp: simul_def or_end_def)
qed

lemma simul_eol:
  assumes "extends s e t e'" "i \<le> e"
  shows "simul (\<lambda>(k, n). i + n < k \<and> k \<le> e \<and> \<not> is_blank (s ! (i + n)))
    (get_token_to_eol b s e i) (get_token_to_eol b' t e' i)"
proof -
  note D = extendsD [OF assms(1)]
  have "i \<le> e'" using assms(2) D(5) by simp
  show ?thesis
    unfolding get_token_to_eol_first [OF assms(2) D(1)]
      get_token_to_eol_first [OF \<open>i \<le> e'\<close> D(2)]
  proof (cases "first is_ctl s e i")
    case None
    then show "simul (\<lambda>(k, n). i + n < k \<and> k \<le> e \<and> \<not> is_blank (s ! (i + n)))
        (Some (eol_result s e i (first is_ctl s e i))) (Some (eol_result t e' i (first is_ctl t e' i)))"
      by (simp add: eol_result_def simul_incomplete)
  next
    case (Some k)
    then have k: "i \<le> k" "k < e" "t ! k = s ! k" "first is_ctl t e' i = Some k"
      using first_Some [of is_ctl s e i] D(6) first_extends [OF assms(1)] by auto
    show "simul (\<lambda>(k, n). i + n < k \<and> k \<le> e \<and> \<not> is_blank (s ! (i + n)))
        (Some (eol_result s e i (first is_ctl s e i))) (Some (eol_result t e' i (first is_ctl t e' i)))"
    proof (cases "s ! k = CHR 0x0D \<and> k + 1 \<noteq> e")
      case True
      then have "k + 1 < e" "t ! (k + 1) = s ! (k + 1)" "k + 1 \<noteq> e'" using k(2) D(5,6) by simp_all
      then show ?thesis using True k by (simp add: Some eol_result_def simul_def is_blank_def)
    next
      case False
      then show ?thesis using k by (auto simp: Some eol_result_def simul_def is_blank_def)
    qed
  qed
qed

lemma trim_blanks_ok:
  "v + n \<le> length s \<Longrightarrow> \<exists>m \<le> n. trim_blanks s v n = Some m"
  by (induction n) (auto simp: rd_def le_Suc_eq)

lemma trim_blanks_cong:
  "v + n \<le> e \<Longrightarrow> e \<le> length s \<Longrightarrow> e \<le> length t \<Longrightarrow> (\<And>k. k < e \<Longrightarrow> t ! k = s ! k) \<Longrightarrow>
   trim_blanks t v n = trim_blanks s v n"
  by (induction n) (auto simp: rd_def)

text \<open>Skipping spaces: from a position inside of the input it stops at the guard at the latest.\<close>

lemma skip_spaces_eq:
  assumes "i < j" "j < length s" "\<forall>k. i < k \<and> k < j \<longrightarrow> s ! k = CHR '' ''" "s ! j \<noteq> CHR '' ''"
  shows "skip_spaces s i = Some j"
  using assms
proof (induction "j - i" arbitrary: i)
  case (Suc n)
  then show ?case
    by (subst skip_spaces.simps) (cases "i + 1 = j", auto simp: rd_def)
qed simp

lemma skip_spaces_ok:
  assumes "guarded s e" "i < e" "s ! i = CHR '' ''"
  obtains j where "skip_spaces s i = Some j" "i < j" "j \<le> e" "\<forall>k. i < k \<and> k < j \<longrightarrow> s ! k = CHR '' ''"
    "s ! j \<noteq> CHR '' ''" "j < length s"
proof -
  define j where "j = (LEAST j. i < j \<and> s ! j \<noteq> CHR '' '')"
  obtain g where g: "i < g \<and> s ! g \<noteq> CHR '' ''" "g \<le> e" "g < length s"
  proof (cases "s ! (e - 1) = CHR '' ''")
    case True
    then show thesis using that [of e] assms by (auto simp: guarded_def)
  next
    case False
    then have "i \<noteq> e - 1" using assms(3) by auto
    then show thesis using that [of "e - 1"] False assms by (auto simp: guarded_def)
  qed
  have j: "i < j \<and> s ! j \<noteq> CHR '' ''" unfolding j_def using g(1) by (rule LeastI)
  have le: "j \<le> g" unfolding j_def using g(1) by (rule Least_le)
  have sp: "s ! k = CHR '' ''" if "i < k" "k < j" for k
    using not_less_Least [of k "\<lambda>j. i < j \<and> s ! j \<noteq> CHR '' ''"] that unfolding j_def by blast
  have "skip_spaces s i = Some j"
    using j le sp g(3) by (intro skip_spaces_eq) auto
  then show thesis using that j le sp g(2,3) by auto
qed

lemma simul_skip:
  assumes "extends s e t e'" "i < e" "s ! i = CHR '' ''"
    "\<And>j. i < j \<Longrightarrow> j < e \<Longrightarrow> simul P (f j) (g j)" "\<And>j. e \<le> j \<Longrightarrow> simul P (f e) (g j)"
  shows "simul P (Option.bind (skip_spaces s i) f) (Option.bind (skip_spaces t i) g)"
proof -
  note D = extendsD [OF assms(1)]
  obtain j where j: "skip_spaces s i = Some j" "i < j" "j \<le> e" "\<forall>k. i < k \<and> k < j \<longrightarrow> s ! k = CHR '' ''"
    "s ! j \<noteq> CHR '' ''" by (rule skip_spaces_ok [OF D(3) assms(2,3)])
  show ?thesis
  proof (cases "j < e")
    case True
    then have "skip_spaces t i = Some j"
      using j D(2,5,6) by (intro skip_spaces_eq) auto
    then show ?thesis using assms(4) [OF j(2) True] j(1) by simp
  next
    case False
    then have je: "j = e" using j(3) by simp
    have "i < e'" "t ! i = CHR '' ''" using assms(2,3) D(5,6) by auto
    obtain j' where j': "skip_spaces t i = Some j'" "i < j'" "t ! j' \<noteq> CHR '' ''"
      by (rule skip_spaces_ok [OF D(4) \<open>i < e'\<close> \<open>t ! i = CHR '' ''\<close>])
    have "e \<le> j'"
    proof (rule ccontr)
      assume "\<not> e \<le> j'"
      then have "j' < j" "t ! j' = s ! j'" using je D(6) by simp_all
      then show False using j(4) j'(2,3) by simp
    qed
    then show ?thesis using assms(5) j(1) j'(1) je by simp
  qed
qed

lemma rd_extends:
  assumes "extends s e t e'" "i < e"
  shows "rd s i = Some (s ! i)" "rd t i = Some (s ! i)"
  using assms(2) extendsD [OF assms(1)] by (simp_all add: rd_def)

lemma simul_expect_char:
  assumes "extends s e t e'" "i \<le> e"
  shows "simul (\<lambda>k. k = i + 1 \<and> k \<le> e) (EXPECT_CHAR s e i c) (EXPECT_CHAR t e' i c)"
proof (cases "i = e")
  case True
  then show ?thesis by (simp add: EXPECT_CHAR_def CHECK_EOF_def andthen_def simul_def)
next
  case False
  then have i: "i < e" "i \<noteq> e'" using assms(2) extendsD(5) [OF assms(1)] by simp_all
  then show ?thesis
    by (simp add: EXPECT_CHAR_def EXPECT_CHAR_NO_CHECK_def CHECK_EOF_def andthen_def simul_def
        rd_extends [OF assms(1) i(1)])
qed

lemma simul_line_end:
  assumes "extends s e t e'" "i < e" "simul (\<lambda>k. i \<le> k \<and> k \<le> e) m1 m2"
  shows "simul (\<lambda>k. i \<le> k \<and> k \<le> e) (line_end s e i m1) (line_end t e' i m2)"
proof -
  have "simul (\<lambda>k. i \<le> k \<and> k \<le> e) (EXPECT_CHAR s e (i + 1) (CHR 0x0A)) (EXPECT_CHAR t e' (i + 1) (CHR 0x0A))"
    by (rule simul_weaken [OF simul_expect_char [OF assms(1)]]) (use assms(2) in auto)
  then show ?thesis
    using assms(2,3) by (auto simp: line_end_def rd_extends [OF assms(1,2)] intro: simul_return)
qed

lemma simul_expect:
  "extends s e t e' \<Longrightarrow> i + length cs \<le> e \<Longrightarrow>
   simul (\<lambda>k. k = i + length cs) (expect_chars s i cs) (expect_chars t i cs)"
proof (induction cs arbitrary: i)
  case (Cons c cs)
  then have "simul (\<lambda>k. k = i + 1) (EXPECT_CHAR_NO_CHECK s i c) (EXPECT_CHAR_NO_CHECK t i c)"
    using rd_extends [OF Cons.prems(1), of i] by (simp add: EXPECT_CHAR_NO_CHECK_def simul_def)
  then show ?case
    unfolding expect_chars.simps
  proof (rule simul_andthen)
    fix k assume "k = i + 1"
    with Cons.IH [of "i + 1"] Cons.prems
    show "simul (\<lambda>k. k = i + length (c # cs)) (expect_chars s k cs) (expect_chars t k cs)" by simp
  qed
qed (simp add: simul_return)

lemma simul_int:
  "extends s e t e' \<Longrightarrow> i < e \<Longrightarrow> simul (\<lambda>(k, m). k = i + 1) (PARSE_INT s i mul) (PARSE_INT t i mul)"
  using rd_extends [of s e t e' i] by (simp add: PARSE_INT_def simul_def)

lemma simul_int_3:
  assumes "extends s e t e'" "i + 3 \<le> e"
  shows "simul (\<lambda>(k, m). k = i + 3) (PARSE_INT_3 s i) (PARSE_INT_3 t i)"
  unfolding PARSE_INT_3_def
  by (intro simul_andthen [OF simul_int [OF assms(1)]])
    (use assms(2) in \<open>auto intro!: simul_andthen [OF simul_int [OF assms(1)]]\<close>)

lemma simul_version:
  assumes "extends s e t e'" "i \<le> e"
  shows "simul (\<lambda>(k, m). k = i + 8 \<and> k < e) (parse_http_version s e i) (parse_http_version t e' i)"
proof (cases "e - i < 9")
  case False
  then have e: "i + 8 < e" "\<not> e' - i < 9" using extendsD(5) [OF assms(1)] by simp_all
  have "simul (\<lambda>k. k = i + 7) (expect_chars s i ''HTTP/1.'') (expect_chars t i ''HTTP/1.'')"
    by (rule simul_weaken [OF simul_expect [OF assms(1)]]) (use e(1) in auto)
  then have "simul (\<lambda>(k, m). k = i + 8) (andthen (expect_chars s i ''HTTP/1.'') (\<lambda>i. PARSE_INT s i 1))
      (andthen (expect_chars t i ''HTTP/1.'') (\<lambda>i. PARSE_INT t i 1))"
  proof (rule simul_andthen)
    fix k assume "k = i + 7"
    then show "simul (\<lambda>(k, m). k = i + 8) (PARSE_INT s k 1) (PARSE_INT t k 1)"
      by (intro simul_weaken [OF simul_int [OF assms(1)]]) (use e(1) in auto)
  qed
  then have "simul (\<lambda>(k, m). k = i + 8) (parse_http_version s e i) (parse_http_version t e' i)"
    using False e(2) by (simp add: parse_http_version_def)
  then show ?thesis by (rule simul_weaken) (use e(1) in auto)
qed (simp add: parse_http_version_def simul_incomplete)

section \<open>Headers\<close>

text \<open>A header lies inside of the first \<open>n\<close> bytes; a name is not empty; a folded line has none.\<close>

definition header_inside :: "nat \<Rightarrow> phr_header \<Rightarrow> bool" where
  "header_inside n h \<longleftrightarrow> hdr_value h + hdr_value_len h \<le> n \<and>
     (case hdr_name h of None \<Rightarrow> hdr_name_len h = 0
      | Some a \<Rightarrow> 0 < hdr_name_len h \<and> a + hdr_name_len h \<le> n)"

lemma header_inside_mono: "header_inside n h \<Longrightarrow> n \<le> m \<Longrightarrow> header_inside m h"
  by (auto simp: header_inside_def split: option.splits)

lemma simul_header:
  assumes x: "extends s e t e'" and i: "i < e"
  shows "simul (\<lambda>(k, h). i < k \<and> k \<le> e \<and> header_inside k h)
    (parse_header b s e i c n) (parse_header b' t e' i c n)"
  unfolding parse_header_def
proof (rule simul_andthen)
  let ?P = "\<lambda>(a, l, v). i \<le> v \<and> v \<le> e \<and> (case a of None \<Rightarrow> l = 0 | Some a \<Rightarrow> 0 < l \<and> a + l \<le> v)"
  show "simul ?P
     (if \<not> (n \<noteq> 0 \<and> is_blank c) then andthen (header_name b s e i) (\<lambda>j.
          if j - i = 0 then Some (Inl (-1))
          else andthen (blank_loop s e (j + 1)) (\<lambda>k. Some (Inr (Some i, j - i, k))))
      else Some (Inr (None, 0, i)))
     (if \<not> (n \<noteq> 0 \<and> is_blank c) then andthen (header_name b' t e' i) (\<lambda>j.
          if j - i = 0 then Some (Inl (-1))
          else andthen (blank_loop t e' (j + 1)) (\<lambda>k. Some (Inr (Some i, j - i, k))))
      else Some (Inr (None, 0, i)))" (is "simul _ (if _ then ?m1 else _) (if _ then ?m2 else _)")
  proof -
    have "simul ?P ?m1 ?m2"
    proof (rule simul_andthen [OF simul_name [OF x less_imp_le [OF i]]])
      fix j assume j: "i \<le> j \<and> j < e"
      then have j1: "j + 1 \<le> e" by simp
      show "simul ?P
        (if j - i = 0 then Some (Inl (-1)) else andthen (blank_loop s e (j + 1)) (\<lambda>k. Some (Inr (Some i, j - i, k))))
        (if j - i = 0 then Some (Inl (-1)) else andthen (blank_loop t e' (j + 1)) (\<lambda>k. Some (Inr (Some i, j - i, k))))"
      proof (cases "j - i = 0")
        case False
        have "simul ?P (andthen (blank_loop s e (j + 1)) (\<lambda>k. Some (Inr (Some i, j - i, k))))
            (andthen (blank_loop t e' (j + 1)) (\<lambda>k. Some (Inr (Some i, j - i, k))))"
          by (rule simul_andthen [OF simul_blank [OF x j1]], rule simul_return) (use j False in auto)
        then show ?thesis using False by simp
      qed (simp add: simul_error)
    qed
    then show ?thesis using i by (auto intro: simul_return)
  qed
  fix y :: "nat option \<times> nat \<times> nat" assume y: "?P y"
  obtain a l v where yv: "y = (a, l, v)" by (cases y)
  with y have v: "i \<le> v" "v \<le> e" and a: "case a of None \<Rightarrow> l = 0 | Some a \<Rightarrow> 0 < l \<and> a + l \<le> v" by simp_all
  have "simul (\<lambda>(k, h). i < k \<and> k \<le> e \<and> header_inside k h)
     (andthen (get_token_to_eol b s e v) (\<lambda>(k, value_len). do {
       n \<leftarrow> trim_blanks s v value_len;
       Some (Inr (k, \<lparr>hdr_name = a, hdr_name_len = l, hdr_value = v, hdr_value_len = n\<rparr>)) }))
     (andthen (get_token_to_eol b' t e' v) (\<lambda>(k, value_len). do {
       n \<leftarrow> trim_blanks t v value_len;
       Some (Inr (k, \<lparr>hdr_name = a, hdr_name_len = l, hdr_value = v, hdr_value_len = n\<rparr>)) }))"
  proof (rule simul_andthen [OF simul_eol [OF x v(2)]])
    fix z assume z: "case z of (k, n) \<Rightarrow> v + n < k \<and> k \<le> e \<and> \<not> is_blank (s ! (v + n))"
    obtain k n where zk: "z = (k, n)" by (cases z)
    with z have kn: "v + n < k" "k \<le> e" by simp_all
    note D = extendsD [OF x]
    obtain m where m: "trim_blanks s v n = Some m" "m \<le> n" using trim_blanks_ok [of v n s] kn D(1) by auto
    have "trim_blanks t v n = Some m"
      using trim_blanks_cong [of v n e s t] kn D m(1) by simp
    moreover have "header_inside k \<lparr>hdr_name = a, hdr_name_len = l, hdr_value = v, hdr_value_len = m\<rparr>"
      using a kn m(2) by (auto simp: header_inside_def split: option.splits)
    ultimately show "simul (\<lambda>(k, h). i < k \<and> k \<le> e \<and> header_inside k h)
       (case z of (k, value_len) \<Rightarrow> do {
         n \<leftarrow> trim_blanks s v value_len;
         Some (Inr (k, \<lparr>hdr_name = a, hdr_name_len = l, hdr_value = v, hdr_value_len = n\<rparr>)) })
       (case z of (k, value_len) \<Rightarrow> do {
         n \<leftarrow> trim_blanks t v value_len;
         Some (Inr (k, \<lparr>hdr_name = a, hdr_name_len = l, hdr_value = v, hdr_value_len = n\<rparr>)) })"
      using m(1) kn v by (auto simp: zk intro!: simul_return)
  qed
  then show "simul (\<lambda>(k, h). i < k \<and> k \<le> e \<and> header_inside k h)
     (case y of (name, name_len, value) \<Rightarrow> andthen (get_token_to_eol b s e value) (\<lambda>(k, value_len). do {
       n \<leftarrow> trim_blanks s value value_len;
       Some (Inr (k, \<lparr>hdr_name = name, hdr_name_len = name_len, hdr_value = value, hdr_value_len = n\<rparr>)) }))
     (case y of (name, name_len, value) \<Rightarrow> andthen (get_token_to_eol b' t e' value) (\<lambda>(k, value_len). do {
       n \<leftarrow> trim_blanks t value value_len;
       Some (Inr (k, \<lparr>hdr_name = name, hdr_name_len = name_len, hdr_value = value, hdr_value_len = n\<rparr>)) }))"
    by (simp add: yv)
qed

text \<open>The loop over the headers in the style of the other parsers.\<close>

lemma parse_headers_andthen:
  "rd s i = Some c \<Longrightarrow> i \<noteq> e \<Longrightarrow> parse_headers b s e i hs n =
     (if c = CHR 0x0D then andthen (EXPECT_CHAR s e (i + 1) (CHR 0x0A)) (\<lambda>k. Some (Inr (k, hs)))
      else if c = CHR 0x0A then Some (Inr (i + 1, hs))
      else if length hs = n then Some (Inl (-1))
      else andthen (parse_header b s e i c (length hs)) (\<lambda>(k, h). parse_headers b s e k (hs @ [h]) n))"
  by (subst parse_headers.simps) (auto simp: andthen_def split: option.splits sum.splits)

definition headers_inside :: "nat \<Rightarrow> nat \<Rightarrow> phr_header list \<Rightarrow> bool" where
  "headers_inside n mx hs \<longleftrightarrow> length hs \<le> mx \<and> (\<forall>h \<in> set hs. header_inside n h)"

lemma headers_inside_mono: "headers_inside n mx hs \<Longrightarrow> n \<le> m \<Longrightarrow> headers_inside m mx hs"
  using header_inside_mono by (auto simp: headers_inside_def)

lemma simul_headers:
  assumes x: "extends s e t e'"
  shows "i \<le> e \<Longrightarrow> headers_inside i mx hs \<Longrightarrow>
    simul (\<lambda>(k, hs'). i < k \<and> k \<le> e \<and> headers_inside k mx hs')
      (parse_headers b s e i hs mx) (parse_headers b' t e' i hs mx)"
proof (induction "e - i" arbitrary: i hs rule: less_induct)
  case less
  show ?case
  proof (cases "i = e")
    case True
    then show ?thesis by (subst parse_headers.simps) (simp add: simul_incomplete)
  next
    case False
    then have i: "i < e" "i \<noteq> e'" using less.prems(1) extendsD(5) [OF x] by simp_all
    note r = rd_extends [OF x i(1)]
    note unf = parse_headers_andthen [OF r(1) False] parse_headers_andthen [OF r(2) i(2)]
    have grow: "headers_inside k mx hs" if "i < k" for k
      using headers_inside_mono [OF less.prems(2)] that by simp
    consider "s ! i = CHR 0x0D \<or> s ! i = CHR 0x0A" | "s ! i \<noteq> CHR 0x0D" "s ! i \<noteq> CHR 0x0A" "length hs = mx"
      | "s ! i \<noteq> CHR 0x0D" "s ! i \<noteq> CHR 0x0A" "length hs \<noteq> mx" by blast
    then show ?thesis
    proof cases
      case 1
      have "simul (\<lambda>(k, hs'). i < k \<and> k \<le> e \<and> headers_inside k mx hs')
          (andthen (EXPECT_CHAR s e (i + 1) (CHR 0x0A)) (\<lambda>k. Some (Inr (k, hs))))
          (andthen (EXPECT_CHAR t e' (i + 1) (CHR 0x0A)) (\<lambda>k. Some (Inr (k, hs))))"
        by (rule simul_andthen [OF simul_expect_char [OF x]], use i in simp, rule simul_return) (simp add: grow)
      moreover have "simul (\<lambda>(k, hs'). i < k \<and> k \<le> e \<and> headers_inside k mx hs')
          (Some (Inr (i + 1, hs))) (Some (Inr (i + 1, hs)))"
        by (rule simul_return) (use i grow [of "i + 1"] in simp)
      ultimately show ?thesis using 1 unfolding unf by auto
    next
      case 2
      then show ?thesis unfolding unf by (simp add: simul_error)
    next
      case 3
      have "simul (\<lambda>(k, hs'). i < k \<and> k \<le> e \<and> headers_inside k mx hs')
        (andthen (parse_header b s e i (s ! i) (length hs)) (\<lambda>(k, h). parse_headers b s e k (hs @ [h]) mx))
        (andthen (parse_header b' t e' i (s ! i) (length hs)) (\<lambda>(k, h). parse_headers b' t e' k (hs @ [h]) mx))"
      proof (rule simul_andthen [OF simul_header [OF x i(1)]])
        fix y :: "nat \<times> phr_header" assume "case y of (k, h) \<Rightarrow> i < k \<and> k \<le> e \<and> header_inside k h"
        then obtain k h where y: "y = (k, h)" "i < k" "k \<le> e" "header_inside k h" by (cases y) auto
        have "headers_inside k mx (hs @ [h])"
          using grow [OF y(2)] y(4) 3(3) by (simp add: headers_inside_def)
        moreover have "e - k < e - i" using y(2,3) by simp
        ultimately have "simul (\<lambda>(k', hs'). k < k' \<and> k' \<le> e \<and> headers_inside k' mx hs')
            (parse_headers b s e k (hs @ [h]) mx) (parse_headers b' t e' k (hs @ [h]) mx)"
          using less.hyps y(3) by blast
        then show "simul (\<lambda>(k, hs'). i < k \<and> k \<le> e \<and> headers_inside k mx hs')
            (case y of (k, h) \<Rightarrow> parse_headers b s e k (hs @ [h]) mx)
            (case y of (k, h) \<Rightarrow> parse_headers b' t e' k (hs @ [h]) mx)"
          unfolding y(1) prod.case by (rule simul_weaken) (use y(2) in auto)
      qed
      then show ?thesis using 3 unfolding unf by simp
    qed
  qed
qed

section \<open>Requests and responses\<close>

text \<open>Everything a parsed request points to lies inside of the \<open>n\<close> consumed bytes.\<close>

definition request_inside :: "nat \<Rightarrow> nat \<Rightarrow> phr_request \<Rightarrow> bool" where
  "request_inside n mx r \<longleftrightarrow> 0 < rq_method_len r \<and> rq_method r + rq_method_len r \<le> rq_path r \<and>
     0 < rq_path_len r \<and> rq_path r + rq_path_len r \<le> n \<and> headers_inside n mx (rq_headers r)"

definition response_inside :: "nat \<Rightarrow> nat \<Rightarrow> phr_response \<Rightarrow> bool" where
  "response_inside n mx r \<longleftrightarrow> rs_msg r + rs_msg_len r \<le> n \<and> headers_inside n mx (rs_headers r)"

lemma simul_request:
  assumes x: "extends s e t e'"
  shows "simul (\<lambda>(n, r). 0 < n \<and> n \<le> e \<and> request_inside n mx r)
    (parse_request b s e 0 mx) (parse_request b' t e' 0 mx)"
proof (cases "e = 0")
  case True
  then show ?thesis by (simp add: parse_request_def CHECK_EOF_def andthen_def simul_incomplete)
next
  case False
  then have e: "0 < e" "0 < e'" using extendsD(5) [OF x] by simp_all
  define version where "version c s e meth i path j = (\<lambda>v. if i - meth = 0 \<or> j - path = 0 then Some (Inl (-1))
      else andthen (parse_http_version s e v) (\<lambda>(k, minor_version).
        andthen (line_end s e k (Some (Inl (-1)))) (\<lambda>k.
        andthen (parse_headers c s e k [] mx) (\<lambda>(n, headers).
        Some (Inr (n, \<lparr>rq_method = meth, rq_method_len = i - meth, rq_path = path,
          rq_path_len = j - path, rq_minor_version = minor_version, rq_headers = headers\<rparr>))))))"
    for c s and e meth i path j :: nat
  define target where "target c s e meth i = (\<lambda>path. andthen (ADVANCE_TOKEN c s e path)
      (\<lambda>j. Option.bind (skip_spaces s j) (version c s e meth i path j)))"
    for c s and e meth i :: nat
  have run: "parse_request c u z 0 mx = andthen (line_end u z 0 (Some (Inr 0))) (\<lambda>meth.
      andthen (ADVANCE_TOKEN c u z meth) (\<lambda>i. Option.bind (skip_spaces u i) (target c u z meth i)))"
    if "0 < z" for c u z
    using that by (simp add: parse_request_def CHECK_EOF_def version_def target_def)
  let ?P = "\<lambda>(n, r). 0 < n \<and> n \<le> e \<and> request_inside n mx r"
  have V: "simul ?P (version b s e meth i path j v) (version b' t e' meth i path j v)"
    if "meth \<le> i" "i < path" "path \<le> j" "j < v" "v \<le> e" for meth i path j v
  proof (cases "i - meth = 0 \<or> j - path = 0")
    case False
    have "simul ?P
       (andthen (parse_http_version s e v) (\<lambda>(k, minor_version).
        andthen (line_end s e k (Some (Inl (-1)))) (\<lambda>k.
        andthen (parse_headers b s e k [] mx) (\<lambda>(n, headers).
        Some (Inr (n, \<lparr>rq_method = meth, rq_method_len = i - meth, rq_path = path,
          rq_path_len = j - path, rq_minor_version = minor_version, rq_headers = headers\<rparr>))))))
       (andthen (parse_http_version t e' v) (\<lambda>(k, minor_version).
        andthen (line_end t e' k (Some (Inl (-1)))) (\<lambda>k.
        andthen (parse_headers b' t e' k [] mx) (\<lambda>(n, headers).
        Some (Inr (n, \<lparr>rq_method = meth, rq_method_len = i - meth, rq_path = path,
          rq_path_len = j - path, rq_minor_version = minor_version, rq_headers = headers\<rparr>))))))"
      apply (rule simul_andthen [OF simul_version [OF x that(5)]], clarsimp simp del: One_nat_def)
      apply (rule simul_andthen [OF simul_line_end [OF x]], assumption, rule simul_error)
      apply (clarsimp, rule simul_andthen [OF simul_headers [OF x]], assumption, simp add: headers_inside_def)
      using that False by (auto intro!: simul_return simp: request_inside_def)
    then show ?thesis using False by (simp add: version_def)
  qed (auto simp: version_def intro: simul_error)
  have T: "simul ?P (target b s e meth i path) (target b' t e' meth i path)"
    if "meth \<le> i" "i < path" "path \<le> e" for meth i path
    unfolding target_def
  proof (rule simul_andthen [OF simul_token [OF x that(3)]])
    fix j assume j: "path \<le> j \<and> j < e \<and> s ! j = CHR '' ''"
    show "simul ?P (Option.bind (skip_spaces s j) (version b s e meth i path j))
        (Option.bind (skip_spaces t j) (version b' t e' meth i path j))"
    proof (rule simul_skip [OF x])
      show "j < e" "s ! j = CHR '' ''" using j by simp_all
      fix v assume "j < v" "v < e"
      then show "simul ?P (version b s e meth i path j v) (version b' t e' meth i path j v)"
        using V that j by simp
    next
      fix v assume "e \<le> v"
      show "simul ?P (version b s e meth i path j e) (version b' t e' meth i path j v)"
        by (auto simp: version_def parse_http_version_def andthen_def simul_def)
    qed
  qed
  have M: "simul ?P (andthen (ADVANCE_TOKEN b s e meth) (\<lambda>i. Option.bind (skip_spaces s i) (target b s e meth i)))
      (andthen (ADVANCE_TOKEN b' t e' meth) (\<lambda>i. Option.bind (skip_spaces t i) (target b' t e' meth i)))"
    if "meth \<le> e" for meth
  proof (rule simul_andthen [OF simul_token [OF x that]])
    fix i assume i: "meth \<le> i \<and> i < e \<and> s ! i = CHR '' ''"
    show "simul ?P (Option.bind (skip_spaces s i) (target b s e meth i))
        (Option.bind (skip_spaces t i) (target b' t e' meth i))"
    proof (rule simul_skip [OF x])
      show "i < e" "s ! i = CHR '' ''" using i by simp_all
      fix path assume "i < path" "path < e"
      then show "simul ?P (target b s e meth i path) (target b' t e' meth i path)" using T i by simp
    next
      fix path assume "e \<le> path"
      show "simul ?P (target b s e meth i e) (target b' t e' meth i path)"
        using ADVANCE_TOKEN_first [of e e s b] extendsD(1) [OF x]
        by (simp add: target_def first_end stop_at_def andthen_def simul_incomplete)
    qed
  qed
  have "simul (\<lambda>k. 0 \<le> k \<and> k \<le> e) (line_end s e 0 (Some (Inr 0))) (line_end t e' 0 (Some (Inr 0)))"
    by (rule simul_line_end [OF x e(1)]) (simp add: simul_return)
  then show ?thesis unfolding run [OF e(1)] run [OF e(2)] by (rule simul_andthen) (use M in simp)
qed

text \<open>The reason phrase without its leading spaces.\<close>

lemma simul_message:
  assumes x: "extends s e t e'" and k: "msg + n < k" "k \<le> e" "\<not> is_blank (s ! (msg + n))"
  shows "simul (\<lambda>(m, l). m + l \<le> k)
    (if n = 0 then Some (Inr (msg, n)) else do { c \<leftarrow> rd s msg;
       (if c = CHR '' '' then do { m \<leftarrow> skip_spaces s msg; Some (Inr (m, n - (m - msg))) } else Some (Inl (-1))) })
    (if n = 0 then Some (Inr (msg, n)) else do { c \<leftarrow> rd t msg;
       (if c = CHR '' '' then do { m \<leftarrow> skip_spaces t msg; Some (Inr (m, n - (m - msg))) } else Some (Inl (-1))) })"
proof (cases "n = 0 \<or> s ! msg \<noteq> CHR '' ''")
  case True
  then show ?thesis using k(1,2) by (auto simp: rd_extends [OF x] intro: simul_return simul_error)
next
  case False
  note D = extendsD [OF x]
  have msg: "msg < e" using k by simp
  have g: "guarded s (msg + n)" using k D(1) by (auto simp: guarded_def is_blank_def)
  obtain j where j: "skip_spaces s msg = Some j" "msg < j" "j \<le> msg + n"
    "\<forall>i. msg < i \<and> i < j \<longrightarrow> s ! i = CHR '' ''" "s ! j \<noteq> CHR '' ''"
    using skip_spaces_ok [OF g, of msg] False by auto
  have "skip_spaces t msg = Some j"
    using j k D by (intro skip_spaces_eq) auto
  moreover have "simul (\<lambda>(m, l). m + l \<le> k) (Some (Inr (j, n - (j - msg)))) (Some (Inr (j, n - (j - msg))))"
    by (rule simul_return) (use j k in simp)
  ultimately show ?thesis using False j(1) by (auto simp: rd_extends [OF x msg] intro: simul_error)
qed

lemma simul_response:
  assumes x: "extends s e t e'"
  shows "simul (\<lambda>(n, r). 0 < n \<and> n \<le> e \<and> response_inside n mx r)
    (parse_response b s e 0 mx) (parse_response b' t e' 0 mx)"
proof -
  define line where "line c s e minor i = andthen (PARSE_INT_3 s i) (\<lambda>(msg, status).
      andthen (get_token_to_eol c s e msg) (\<lambda>(k, msg_len).
      andthen (if msg_len = 0 then Some (Inr (msg, msg_len))
        else do { c \<leftarrow> rd s msg;
          (if c = CHR '' '' then do { m \<leftarrow> skip_spaces s msg; Some (Inr (m, msg_len - (m - msg))) }
           else Some (Inl (-1))) })
        (\<lambda>(msg, msg_len). andthen (parse_headers c s e k [] mx) (\<lambda>(n, headers).
      Some (Inr (n, \<lparr>rs_minor_version = minor, rs_status = status, rs_msg = msg, rs_msg_len = msg_len,
        rs_headers = headers\<rparr>))))))"
    for c s and e i :: nat and minor :: int
  let ?P = "\<lambda>(n, r). 0 < n \<and> n \<le> e \<and> response_inside n mx r"
  have L: "simul ?P (line b s e minor i) (line b' t e' minor i)" if "i + 4 \<le> e" for minor i
    unfolding line_def
    apply (rule simul_andthen [OF simul_int_3 [OF x]], use that in simp)
    apply (clarsimp, rule simul_andthen [OF simul_eol [OF x]], use that in simp)
    apply (clarsimp split del: if_split, rule simul_andthen [OF simul_message [OF x]], assumption+)
    apply (clarsimp, rule simul_andthen [OF simul_headers [OF x]], assumption, simp add: headers_inside_def)
    by (auto intro!: simul_return simp: response_inside_def)
  have run: "parse_response c u z 0 mx = andthen (parse_http_version u z 0) (\<lambda>(i, minor). do {
       ch \<leftarrow> rd u i;
       (if ch \<noteq> CHR '' '' then Some (Inl (-1))
        else Option.bind (skip_spaces u i) (\<lambda>i. if z - i < 4 then Some (Inl (-2)) else line c u z minor i)) })"
    for c u z
    by (simp add: parse_response_def line_def cong: if_cong)
  show ?thesis
    unfolding run
  proof (rule simul_andthen [OF simul_version [OF x]], simp, clarsimp)
    fix minor :: int assume i: "8 < e"
    have "s ! 8 = CHR '' '' \<Longrightarrow> simul ?P (Option.bind (skip_spaces s 8) (\<lambda>i. if e - i < 4 then Some (Inl (-2)) else line b s e minor i))
        (Option.bind (skip_spaces t 8) (\<lambda>i. if e' - i < 4 then Some (Inl (-2)) else line b' t e' minor i))"
    proof (erule simul_skip [OF x i])
      fix j assume j: "8 < j" "j < e"
      show "simul ?P (if e - j < 4 then Some (Inl (-2)) else line b s e minor j)
          (if e' - j < 4 then Some (Inl (-2)) else line b' t e' minor j)"
        using L [of j minor] extendsD(5) [OF x] by (auto intro: simul_incomplete)
    qed (simp add: simul_incomplete)
    then show "simul ?P (Option.bind (rd s 8) (\<lambda>ch. if ch \<noteq> CHR '' '' then Some (Inl (-1))
          else Option.bind (skip_spaces s 8) (\<lambda>i. if e - i < 4 then Some (Inl (-2)) else line b s e minor i)))
        (Option.bind (rd t 8) (\<lambda>ch. if ch \<noteq> CHR '' '' then Some (Inl (-1))
          else Option.bind (skip_spaces t 8) (\<lambda>i. if e' - i < 4 then Some (Inl (-2)) else line b' t e' minor i)))"
      by (auto simp: rd_extends [OF x i] intro: simul_error)
  qed
qed

section \<open>The entry points\<close>

lemma to_int_small: "n < 2147483648 \<Longrightarrow> to_int n = int n"
proof -
  assume n: "n < 2147483648"
  have u: "uint (word_of_nat n :: 32 word) = int n" using n by (simp add: unsigned_of_nat take_bit_nat_eq_self)
  have "sint (word_of_nat n :: 32 word) = signed_take_bit 31 (uint (word_of_nat n :: 32 word))"
    by (simp add: sint_uint)
  also have "\<dots> = int n" unfolding u using n by (intro signed_take_bit_int_eq_self) auto
  finally show ?thesis by (simp add: to_int_def)
qed

lemma entry_accepts:
  assumes "simul (\<lambda>(n, r). 0 < n \<and> n \<le> e \<and> Q n r) m m'" "e < 2147483648"
  shows "\<exists>n r. entry_point s e 0 m = Some (n, r) \<and>
    (case r of None \<Rightarrow> n = -1 \<or> n = -2 | Some q \<Rightarrow> 0 < n \<and> n \<le> int e \<and> Q (nat n) q)"
proof -
  obtain x where x: "m = Some x" "case x of Inl err \<Rightarrow> err = -1 \<or> err = -2
      | Inr (n, r) \<Rightarrow> 0 < n \<and> n \<le> e \<and> Q n r"
    using assms(1) by (auto simp: simul_def)
  show ?thesis
  proof (cases x)
    case (Inl err)
    then show ?thesis using x by (simp add: entry_point_def)
  next
    case (Inr y)
    obtain n r where y: "y = (n, r)" by (cases y)
    then have "0 < n" "n \<le> e" "Q n r" using x Inr by simp_all
    then show ?thesis using x(1) Inr y assms(2) by (simp add: entry_point_def to_int_small)
  qed
qed

lemma entry_stable:
  assumes "simul P m m'" "entry_point s e 0 m = Some (n, r)" "n \<noteq> -2"
  shows "entry_point t e' 0 m' = Some (n, r)"
  using assms by (auto simp: simul_def entry_point_def)

lemma simul_both:
  assumes "simul P m1 m2" "simul P m2 m1" shows "m1 = m2"
  using assms unfolding simul_def by (metis option.inject)

section \<open>Properties\<close>

text \<open>The input the properties are evaluated on, and a byte behind it.\<close>

definition short_request :: string where
  "short_request = ''GET / HTTP/1.1'' @ [CHR 0x0D, CHR 0x0A, CHR 0x0D, CHR 0x0A]"

definition short_response :: string where
  "short_response = ''HTTP/1.1 200 OK'' @ [CHR 0x0D, CHR 0x0A, CHR 0x0D, CHR 0x0A]"

lemma short_guarded:
  "guarded (short_request @ [CHR 0x00]) 18" "guarded (short_response @ [CHR 0x00]) 19"
  by (simp_all add: guarded_def short_request_def short_response_def)

lemma request_parsed:
  assumes "guarded s len" "len < 2 ^ 31"
  shows "\<exists>n r. phr_parse_request sse s len max_headers 0 = Some (n, r) \<and>
    (case r of None \<Rightarrow> n = -1 \<or> n = -2
     | Some q \<Rightarrow> 0 < n \<and> n \<le> int len \<and> request_inside (nat n) max_headers q)"
proof -
  have "len < 2147483648" using assms(2) by simp
  with simul_request [OF extends_refl [OF assms(1)], where b = sse and b' = sse] show ?thesis
    unfolding phr_parse_request_def by (rule entry_accepts)
qed

text \<open>
  C14. Parsing a request of up to \<open>2^31 - 1\<close> bytes ends without a read outside of the
  allocation, provided that the byte behind the input is readable and not a space, and answers
  -1, -2, or the number of consumed bytes. In the last case that number is positive and at most
  the length of the input, the meth and the target are not empty, and the meth, the target
  and every header name and value lie inside of the consumed bytes, with at most
  \<open>max_headers\<close> headers.
\<close>

theorem phr_parse_request_safe:
  assumes "guarded s len" "len < 2 ^ 31"
  shows "\<exists>n r. phr_parse_request sse s len max_headers 0 = Some (n, r) \<and>
    (case r of None \<Rightarrow> n = -1 \<or> n = -2
     | Some q \<Rightarrow> 0 < n \<and> n \<le> int len \<and> request_inside (nat n) max_headers q)"
  by (rule request_parsed [OF assms])

lemma phr_parse_request_safe_witness:
  "\<exists>n r. phr_parse_request True (short_request @ [CHR 0x00]) 18 16 0 = Some (n, r) \<and>
    (case r of None \<Rightarrow> n = -1 \<or> n = -2
     | Some q \<Rightarrow> 0 < n \<and> n \<le> int 18 \<and> request_inside (nat n) 16 q)"
  by (rule phr_parse_request_safe [OF short_guarded(1)]) simp

lemma request_stable:
  assumes "guarded s len" "guarded t len'" "len \<le> len'" "take len s = take len t"
    and "phr_parse_request sse s len max_headers 0 = Some (n, r)" "n \<noteq> -2"
  shows "phr_parse_request sse t len' max_headers 0 = Some (n, r)"
proof -
  have "extends s len t len'" using assms(1-4) by (simp add: extends_def)
  from entry_stable [OF simul_request [OF this]] assms(5,6) show ?thesis
    unfolding phr_parse_request_def by blast
qed

text \<open>
  C15. Parsing is stable under further input, provided that both inputs are guarded: each does not end in a space, or the
  byte behind it is readable and not a space. Without this the answer may depend on what lies behind the input
  (\<open>request_line_overread\<close>). Once a request is accepted or rejected on what has
  arrived so far, that is, once the answer is not -2 for a request that is incomplete, the same answer, with the same
  offsets, is given on any longer input that starts with the same bytes. So a request may be parsed again and again as it
  arrives, and pipelined requests behind it do not matter.
\<close>

theorem phr_parse_request_stable:
  assumes "guarded s len" "guarded t len'" "len \<le> len'" "take len s = take len t"
    and "phr_parse_request sse s len max_headers 0 = Some (n, r)" "n \<noteq> -2"
  shows "phr_parse_request sse t len' max_headers 0 = Some (n, r)"
  by (rule request_stable [OF assms])

lemma short_request_parsed:
  "phr_parse_request False (short_request @ [CHR 0x00]) 18 16 0 = Some (18, Some
     \<lparr>rq_method = 0, rq_method_len = 3, rq_path = 4, rq_path_len = 1, rq_minor_version = 1, rq_headers = []\<rparr>)"
  by code_simp

lemma phr_parse_request_stable_witness:
  "phr_parse_request False (short_request @ ''GET /index'') 25 16 0 = Some (18, Some
     \<lparr>rq_method = 0, rq_method_len = 3, rq_path = 4, rq_path_len = 1, rq_minor_version = 1, rq_headers = []\<rparr>)"
  by (rule phr_parse_request_stable [OF short_guarded(1) _ _ _ short_request_parsed])
    (simp_all add: guarded_def short_request_def)

text \<open>
  C16. The code compiled with SSE 4.2 (\<open>findchar_fast\<close> over blocks of 16 bytes) and the portable
  code (the eightfold unrolled loop) are equivalent on requests: for every guarded input - one that does not end in a
  space, or behind which a byte is readable that is not a space - and every
  \<open>last_len\<close> they give the same answer and the same offsets.
\<close>

theorem phr_parse_request_sse:
  assumes "guarded s len"
  shows "phr_parse_request True s len max_headers last_len = phr_parse_request False s len max_headers last_len"
  using simul_both [OF simul_request simul_request] extends_refl [OF assms]
  unfolding phr_parse_request_def by metis

lemma phr_parse_request_sse_witness:
  "phr_parse_request True (short_request @ [CHR 0x00]) 18 16 5 = phr_parse_request False (short_request @ [CHR 0x00]) 18 16 5"
  by (rule phr_parse_request_sse [OF short_guarded(1)])

text \<open>
  C24. Parsing a response of up to \<open>2^31 - 1\<close> bytes ends without a read outside of the
  allocation, provided that the input does not end in a space or the byte behind it is readable and not a space
  (the loop that skips the spaces before the status tests no end), and a response it accepts consumes a positive number of
  bytes, inside of which the reason phrase and all headers lie.
\<close>

theorem phr_parse_response_safe:
  assumes "guarded s len" "len < 2 ^ 31"
  shows "\<exists>n r. phr_parse_response sse s len max_headers 0 = Some (n, r) \<and>
    (case r of None \<Rightarrow> n = -1 \<or> n = -2
     | Some q \<Rightarrow> 0 < n \<and> n \<le> int len \<and> response_inside (nat n) max_headers q)"
proof -
  have "len < 2147483648" using assms(2) by simp
  with simul_response [OF extends_refl [OF assms(1)], where b = sse and b' = sse] show ?thesis
    unfolding phr_parse_response_def by (rule entry_accepts)
qed

lemma phr_parse_response_safe_witness:
  "\<exists>n r. phr_parse_response False (short_response @ [CHR 0x00]) 19 16 0 = Some (n, r) \<and>
    (case r of None \<Rightarrow> n = -1 \<or> n = -2
     | Some q \<Rightarrow> 0 < n \<and> n \<le> int 19 \<and> response_inside (nat n) 16 q)"
  by (rule phr_parse_response_safe [OF short_guarded(2)]) simp

text \<open>
  Parsing a response is stable under further input and does not depend on the vector
  instructions either.
\<close>

theorem phr_parse_response_stable:
  assumes "guarded s len" "guarded t len'" "len \<le> len'" "take len s = take len t"
    and "phr_parse_response sse s len max_headers 0 = Some (n, r)" "n \<noteq> -2"
  shows "phr_parse_response sse' t len' max_headers 0 = Some (n, r)"
proof -
  have "extends s len t len'" using assms(1-4) by (simp add: extends_def)
  from entry_stable [OF simul_response [OF this]] assms(5,6) show ?thesis
    unfolding phr_parse_response_def by blast
qed

lemma short_response_parsed:
  "phr_parse_response False (short_response @ [CHR 0x00]) 19 16 0 = Some (19, Some
     \<lparr>rs_minor_version = 1, rs_status = 200, rs_msg = 13, rs_msg_len = 2, rs_headers = []\<rparr>)"
  by code_simp

lemma phr_parse_response_stable_witness:
  "phr_parse_response True (short_response @ ''body.'') 23 16 0 = Some (19, Some
     \<lparr>rs_minor_version = 1, rs_status = 200, rs_msg = 13, rs_msg_len = 2, rs_headers = []\<rparr>)"
  by (rule phr_parse_response_stable [OF short_guarded(2) _ _ _ short_response_parsed])
    (simp_all add: guarded_def short_response_def)

text \<open>
  C36. The proviso is necessary. The loops that skip the spaces behind the meth do not compare
  with the end of the input: when the four bytes \<open>GET \<close> are all of the allocation, the parser
  reads behind it; and when a space and a control character happen to lie behind them, it
  rejects the incomplete request as malformed.
\<close>

theorem request_line_overread:
  "phr_parse_request sse ''GET '' 4 max_headers 0 = None \<and>
   phr_parse_request sse (''GET  '' @ [CHR 0x01]) 4 max_headers 0 = Some (-1, None)"
proof
  have "ADVANCE_TOKEN sse ''GET '' 4 0 = Some (Inr 3)"
    by (simp add: ADVANCE_TOKEN_first first_def ends_token_def stop_at_def upt_conv_Cons)
  moreover have "skip_spaces ''GET '' 3 = None" by (subst skip_spaces.simps) (simp add: rd_def)
  ultimately show "phr_parse_request sse ''GET '' 4 max_headers 0 = None"
    by (simp add: phr_parse_request_def entry_point_def parse_request_def CHECK_EOF_def line_end_def rd_def andthen_def)
  have "ADVANCE_TOKEN sse (''GET  '' @ [CHR 0x01]) 4 0 = Some (Inr 3)"
    by (simp add: ADVANCE_TOKEN_first first_def ends_token_def stop_at_def upt_conv_Cons)
  moreover have "skip_spaces (''GET  '' @ [CHR 0x01]) 3 = Some 5"
    by (rule skip_spaces_eq) (auto simp: less_Suc_eq numeral_eq_Suc)
  moreover have "ADVANCE_TOKEN sse (''GET  '' @ [CHR 0x01]) 4 5 = Some (Inl (-1))"
    by (simp add: ADVANCE_TOKEN_def findchar_fast_def andthen_def CHECK_EOF_def token_loop.simps rd_def IS_PRINTABLE_ASCII_def)
  ultimately show "phr_parse_request sse (''GET  '' @ [CHR 0x01]) 4 max_headers 0 = Some (-1, None)"
    by (simp add: phr_parse_request_def entry_point_def parse_request_def CHECK_EOF_def line_end_def rd_def andthen_def)
qed

end
