(* ===== verification/Http.thy ===== *)
theory Http
  imports Utility Buffer Data Parser_Facts
begin

text \<open>
  \<^verbatim>\<open>src/reactor/http.c\<close>: writing requests and responses into the output buffer of a stream,
  reading them with the parser, and looking up header fields. Text arguments (the C type
  \<open>data\<close>) are the lists of their bytes; they do not point into the output buffer.

  A writer first computes the size of its output, extends the buffer by that much and then
  writes through a cursor. \<open>writes f xs\<close> says that \<open>f\<close> writes exactly \<open>xs\<close>; it composes like the
  code does.
\<close>

section \<open>Fields\<close>

type_synonym http_field = "string \<times> string"

definition http_field_construct :: "string \<Rightarrow> string \<Rightarrow> http_field" where
  "http_field_construct name val = (name, val)"

definition http_field_push :: "cursor \<Rightarrow> http_field \<Rightarrow> cursor option" where
  "http_field_push p field = do {
     p \<leftarrow> pointer_push p (fst field);
     p \<leftarrow> pointer_push_byte p (CHR '':'');
     p \<leftarrow> pointer_push_byte p (CHR '' '');
     p \<leftarrow> pointer_push p (snd field);
     p \<leftarrow> pointer_push_byte p (CHR 0x0D);
     pointer_push_byte p (CHR 0x0A) }"

definition tolower :: "char \<Rightarrow> char" where
  "tolower c = (if 65 \<le> (of_char c :: nat) \<and> (of_char c :: nat) \<le> 90 then char_of (of_char c + 32 :: nat) else c)"

text \<open>Whether \<open>strncasecmp\<close> returns zero; it stops behind a zero byte. Reading past a string is a fault.\<close>

fun strncasecmp_eq :: "string \<Rightarrow> string \<Rightarrow> nat \<Rightarrow> bool option" where
  "strncasecmp_eq xs ys 0 = Some True"
| "strncasecmp_eq (x # xs) (y # ys) (Suc n) =
     (if tolower x \<noteq> tolower y then Some False
      else if x = CHR 0x00 then Some True else strncasecmp_eq xs ys n)"
| "strncasecmp_eq _ _ (Suc n) = None"

primrec http_field_lookup :: "http_field list \<Rightarrow> string \<Rightarrow> string option option" where
  "http_field_lookup [] name = Some None"
| "http_field_lookup (f # fs) name = do {
     same \<leftarrow> (if length (fst f) = length name then strncasecmp_eq (fst f) name (length name) else Some False);
     (if same then Some (Some (snd f)) else http_field_lookup fs name) }"

section \<open>Writers\<close>

text \<open>\<open>stream_allocate\<close> on the output buffer: the extended buffer and the offset of the new cells.\<close>

definition stream_allocate :: "buffer \<Rightarrow> u64 \<Rightarrow> buffer \<times> nat" where
  "stream_allocate out n = (let current_size = buffer_size out in
     (buffer_resize out (current_size + n), unat current_size))"

text \<open>\<open>data_size\<close> of a text, and the text of a \<open>Content-Length\<close>, which is printed as a 32 bit integer.\<close>

definition text_size :: "string \<Rightarrow> u64" where "text_size xs = word_of_nat (length xs)"

definition http_length :: "string \<Rightarrow> string option" where
  "http_length body = do {
     let n = (ucast (text_size body) :: u32);
     let size = utility_u32_len n;
     storage \<leftarrow> utility_u32_sprint n (replicate 16 None, unat size);
     cells \<leftarrow> mem_read (fst storage) 0 (unat size);
     those cells }"

definition crlf :: string where "crlf = [CHR 0x0D, CHR 0x0A]"

definition http_request_size :: "string \<Rightarrow> string \<Rightarrow> string \<Rightarrow> string \<Rightarrow> string \<Rightarrow> string \<Rightarrow> u64" where
  "http_request_size meth target host type body len =
     text_size meth + 1 + text_size target + 11 + 6 + text_size host + 2 +
     (if text_size body \<noteq> 0 then 14 + text_size type + 2 + 16 + text_size len + 2 else 0) +
     2 + text_size body"

definition http_request_push ::
    "string \<Rightarrow> string \<Rightarrow> string \<Rightarrow> string \<Rightarrow> string \<Rightarrow> string \<Rightarrow> cursor \<Rightarrow> cursor option" where
  "http_request_push meth target host type body len p = do {
     p \<leftarrow> pointer_push p meth;
     p \<leftarrow> pointer_push_byte p (CHR '' '');
     p \<leftarrow> pointer_push p target;
     p \<leftarrow> pointer_push p ('' HTTP/1.1'' @ crlf);
     p \<leftarrow> http_field_push p (http_field_construct ''Host'' host);
     p \<leftarrow> (if text_size body \<noteq> 0 then do {
             p \<leftarrow> http_field_push p (http_field_construct ''Content-Type'' type);
             http_field_push p (http_field_construct ''Content-Length'' len) }
           else Some p);
     p \<leftarrow> pointer_push p crlf;
     pointer_push p body }"

definition http_write_request ::
    "buffer \<Rightarrow> string \<Rightarrow> string \<Rightarrow> string \<Rightarrow> string \<Rightarrow> string \<Rightarrow> buffer option" where
  "http_write_request out meth target host type body = do {
     len \<leftarrow> http_length body;
     (let (out, base) = stream_allocate out (http_request_size meth target host type body len) in do {
        p \<leftarrow> http_request_push meth target host type body len (buf_data out, base);
        Some (out\<lparr>buf_data := fst p\<rparr>) }) }"

definition http_response_size :: "string \<Rightarrow> string \<Rightarrow> string \<Rightarrow> string \<Rightarrow> u64" where
  "http_response_size status type body len =
     9 + text_size status + 2 + 17 + 37 + (if text_size type = 0 then 0 else 16 + text_size type) +
     (18 + text_size len) + 2 + text_size body"

definition http_response_push ::
    "string \<Rightarrow> string \<Rightarrow> string \<Rightarrow> string \<Rightarrow> string \<Rightarrow> cursor \<Rightarrow> cursor option" where
  "http_response_push status date type body len p = do {
     p \<leftarrow> pointer_push p ''HTTP/1.1 '';
     p \<leftarrow> pointer_push p status;
     p \<leftarrow> pointer_push p crlf;
     p \<leftarrow> http_field_push p (http_field_construct ''Server'' ''reactor'');
     p \<leftarrow> http_field_push p (http_field_construct ''Date'' date);
     p \<leftarrow> (if text_size type \<noteq> 0 then http_field_push p (http_field_construct ''Content-Type'' type)
           else Some p);
     p \<leftarrow> http_field_push p (http_field_construct ''Content-Length'' len);
     p \<leftarrow> pointer_push p crlf;
     pointer_push p body }"

definition http_write_response ::
    "buffer \<Rightarrow> string \<Rightarrow> string \<Rightarrow> string \<Rightarrow> string \<Rightarrow> buffer option" where
  "http_write_response out status date type body = do {
     len \<leftarrow> http_length body;
     (let (out, base) = stream_allocate out (http_response_size status type body len) in do {
        p \<leftarrow> http_response_push status date type body len (buf_data out, base);
        Some (out\<lparr>buf_data := fst p\<rparr>) }) }"

section \<open>What a writer writes\<close>

definition writes :: "(cursor \<Rightarrow> cursor option) \<Rightarrow> string \<Rightarrow> bool" where
  "writes f ys \<longleftrightarrow> (\<forall>p xs n. cursor_at p xs n \<and> length ys \<le> n \<longrightarrow>
     (\<exists>q. f p = Some q \<and> cursor_at q (xs @ map Some ys) (n - length ys)))"

named_theorems writes_intro \<open>what the steps of a writer write\<close>

lemma writes_push [writes_intro]: "writes (\<lambda>p. pointer_push p ys) ys"
  using pointer_push_ok by (auto simp: writes_def)

lemma writes_byte [writes_intro]: "writes (\<lambda>p. pointer_push_byte p c) [c]"
  using pointer_push_byte_ok by (fastforce simp: writes_def)

lemma writes_nothing [writes_intro]: "writes (\<lambda>p. Some p) []"
  by (simp add: writes_def)

lemma writes_bind [writes_intro]:
  assumes "writes f ys" "writes g zs" shows "writes (\<lambda>p. Option.bind (f p) g) (ys @ zs)"
  unfolding writes_def
proof (intro allI impI)
  fix p xs n assume p: "cursor_at p xs n \<and> length (ys @ zs) \<le> n"
  then have "length ys \<le> n" by simp
  then obtain q where q: "f p = Some q" "cursor_at q (xs @ map Some ys) (n - length ys)"
    using assms(1) p unfolding writes_def by blast
  moreover have "length zs \<le> n - length ys" using p by auto
  ultimately obtain r where "g q = Some r" "cursor_at r ((xs @ map Some ys) @ map Some zs) (n - length ys - length zs)"
    using assms(2) unfolding writes_def by blast
  then show "\<exists>q. Option.bind (f p) g = Some q \<and> cursor_at q (xs @ map Some (ys @ zs)) (n - length (ys @ zs))"
    using q(1) by simp
qed

lemma writes_if [writes_intro]:
  "writes f ys \<Longrightarrow> writes g zs \<Longrightarrow> writes (\<lambda>p. if b then f p else g p) (if b then ys else zs)"
  by (simp add: writes_def)

definition field_text :: "http_field \<Rightarrow> string" where
  "field_text f = fst f @ '': '' @ snd f @ crlf"

lemma writes_field [writes_intro]: "writes (\<lambda>p. http_field_push p f) (field_text f)"
proof -
  have "writes (\<lambda>p. http_field_push p f) (fst f @ [CHR '':''] @ [CHR '' ''] @ snd f @ [CHR 0x0D] @ [CHR 0x0A])"
    unfolding http_field_push_def by (intro writes_intro)
  then show ?thesis by (simp add: field_text_def crlf_def)
qed

text \<open>The printed length is the decimal numeral of the length modulo \<open>2^32\<close>.\<close>

lemma length_decimal_le: "n < 10 ^ Suc k \<Longrightarrow> length (decimal n) \<le> Suc k"
proof (induction k arbitrary: n)
  case (Suc k)
  show ?case
  proof (cases "n < 10")
    case False
    have "n div 10 < 10 ^ Suc k" using Suc.prems by (simp add: less_mult_imp_div_less mult.commute)
    then show ?thesis using Suc.IH False by (simp add: decimal_step)
  qed (simp add: decimal_small)
qed (simp add: decimal_small)

lemma length_decimal_32: "length (decimal (unat (n :: u32))) \<le> 10"
proof -
  have "unat n < 10 ^ Suc 9" by (rule less_trans [OF unat_less_32]) simp
  from length_decimal_le [OF this] show ?thesis by simp
qed

lemma http_length_ok:
  assumes "length body < 2 ^ 64"
  shows "http_length body = Some (decimal (length body mod 2 ^ 32))"
proof -
  define n where "n = (ucast (text_size body) :: u32)"
  let ?d = "decimal (unat n)"
  have len: "unat (utility_u32_len n) = length ?d" by (simp add: utility_u32_len_decimal)
  have b: "length ?d \<le> length ?d" "length ?d \<le> length (replicate 16 (None :: cell))"
    using length_decimal_32 [of n] by simp_all
  have "unat n = length body mod 2 ^ 32"
    using assms by (simp add: n_def text_size_def unsigned_ucast_eq unsigned_of_nat take_bit_eq_mod mod_mod_cancel)
  then show ?thesis
    using utility_u32_sprint_ok [OF b] length_decimal_32 [of n]
    by (simp add: http_length_def n_def [symmetric] Let_def len put_before_def mem_read_ok those_map_Some)
qed

text \<open>A writer that computes its size right appends its text to the output.\<close>

lemma writer_ok:
  assumes "buffer_inv out" "writes f ys" "unat n = length ys" "unat (buf_size out) + length ys \<le> 2 ^ 63"
  obtains out' base p where "stream_allocate out n = (out', base)" "f (buf_data out', base) = Some p"
    "buffer_inv (out'\<lparr>buf_data := fst p\<rparr>)" "buffer_cells (out'\<lparr>buf_data := fst p\<rparr>) = buffer_cells out @ map Some ys"
proof -
  let ?s = "unat (buf_size out)"
  have s: "unat (buf_size out + n) = ?s + length ys" using assms(3,4) by (simp add: unat_add_64)
  define out' where "out' = buffer_resize out (buf_size out + n)"
  have r: "buffer_inv out'" "buf_size out' = buf_size out + n"
    "take ?s (buffer_cells out') = take (?s + length ys) (buffer_cells out)"
    using buffer_resize_ok [OF assms(1), of "buf_size out + n"] s assms(4) by (simp_all add: out'_def)
  have cap: "length (buf_data out') = unat (buf_capacity out')" "?s + length ys \<le> unat (buf_capacity out')"
    using r(1,2) s by (simp_all add: buffer_inv_def)
  have old: "take ?s (buf_data out') = buffer_cells out"
    using r(2,3) s assms(1) cap by (simp add: buffer_cells_def)
  have "cursor_at (buf_data out', ?s) (buffer_cells out) (unat (buf_capacity out') - ?s)"
    using old cap assms(1) by (simp add: cursor_at_def)
  then obtain p where p: "f (buf_data out', ?s) = Some p"
    "cursor_at p (buffer_cells out @ map Some ys) (unat (buf_capacity out') - ?s - length ys)"
    using assms(2) cap(2) unfolding writes_def by fastforce
  have l: "length (buffer_cells out @ map Some ys) = ?s + length ys" using assms(1) by simp
  have fp: "length (fst p) = unat (buf_capacity out')" "take (?s + length ys) (fst p) = buffer_cells out @ map Some ys"
    using p(2) cap l by (auto simp: cursor_at_def)
  have "buffer_inv (out'\<lparr>buf_data := fst p\<rparr>)" using r(1) fp(1) by (simp add: buffer_inv_def)
  moreover have "buffer_cells (out'\<lparr>buf_data := fst p\<rparr>) = buffer_cells out @ map Some ys"
    using fp(2) r(2) s by (simp add: buffer_cells_def)
  moreover have "stream_allocate out n = (out', ?s)"
    by (simp add: stream_allocate_def buffer_size_def out'_def Let_def)
  ultimately show thesis using that p(1) by blast
qed

definition request_text :: "string \<Rightarrow> string \<Rightarrow> http_field list \<Rightarrow> string" where
  "request_text meth target fs =
     meth @ '' '' @ target @ '' HTTP/1.1'' @ crlf @ concat (map field_text fs) @ crlf"

definition request_fields :: "string \<Rightarrow> string \<Rightarrow> string \<Rightarrow> http_field list" where
  "request_fields host type body = (''Host'', host) #
     (if body = [] then [] else [(''Content-Type'', type), (''Content-Length'', decimal (length body mod 2 ^ 32))])"

definition response_text :: "string \<Rightarrow> string \<Rightarrow> string \<Rightarrow> string \<Rightarrow> string" where
  "response_text status date type body =
     ''HTTP/1.1 '' @ status @ crlf @ field_text (''Server'', ''reactor'') @ field_text (''Date'', date) @
     (if type = [] then [] else field_text (''Content-Type'', type)) @
     field_text (''Content-Length'', decimal (length body mod 2 ^ 32)) @ crlf @ body"

lemma text_size_add:
  "length xs + length ys < 18446744073709551616 \<Longrightarrow> unat (text_size xs + text_size ys) = length xs + length ys"
  by (simp add: text_size_def unat_of_nat_64 flip: of_nat_add)

lemma text_size_zero: "length xs < 18446744073709551616 \<Longrightarrow> text_size xs = 0 \<longleftrightarrow> xs = []"
  by (auto simp: text_size_def word_unat_eq_iff unat_of_nat_64)

text \<open>The sizes the writers compute are the lengths of their texts.\<close>

lemma request_size:
  assumes "length (request_text meth target (request_fields host type body) @ body) < 18446744073709551616"
  shows "unat (http_request_size meth target host type body (decimal (length body mod 2 ^ 32))) =
    length (request_text meth target (request_fields host type body) @ body)"
proof -
  have b: "length body < 18446744073709551616" using assms by simp
  have "http_request_size meth target host type body (decimal (length body mod 2 ^ 32)) =
      word_of_nat (length (request_text meth target (request_fields host type body) @ body))"
    unfolding http_request_size_def text_size_zero [OF b]
    by (cases "body = []") (simp_all add: text_size_def request_text_def request_fields_def field_text_def crlf_def)
  then show ?thesis using unat_of_nat_64 [OF assms] by simp
qed

lemma response_size:
  assumes "length (response_text status date type body) < 18446744073709551616" "length date = 29"
  shows "unat (http_response_size status type body (decimal (length body mod 2 ^ 32))) =
    length (response_text status date type body)"
proof -
  have t: "length type < 18446744073709551616" using assms(1) by (cases "type = []") (simp_all add: response_text_def field_text_def)
  have "http_response_size status type body (decimal (length body mod 2 ^ 32)) =
      word_of_nat (length (response_text status date type body))"
    unfolding http_response_size_def text_size_zero [OF t]
    by (cases "type = []") (simp_all add: text_size_def response_text_def field_text_def crlf_def assms(2))
  then show ?thesis using unat_of_nat_64 [OF assms(1)] by simp
qed

lemma writes_request:
  assumes "length body < 18446744073709551616"
  shows "writes (http_request_push meth target host type body (decimal (length body mod 2 ^ 32)))
    (request_text meth target (request_fields host type body) @ body)"
proof -
  let ?len = "decimal (length body mod 2 ^ 32)"
  have "writes (http_request_push meth target host type body ?len)
     (meth @ [CHR '' ''] @ target @ ('' HTTP/1.1'' @ crlf) @ field_text (http_field_construct ''Host'' host) @
      (if text_size body \<noteq> 0 then field_text (http_field_construct ''Content-Type'' type) @
         field_text (http_field_construct ''Content-Length'' ?len) else []) @ crlf @ body)"
    unfolding http_request_push_def by (intro writes_intro)
  then show ?thesis
    unfolding text_size_zero [OF assms]
    by (cases "body = []") (simp_all add: request_text_def request_fields_def http_field_construct_def)
qed

lemma writes_response:
  assumes "length type < 18446744073709551616"
  shows "writes (http_response_push status date type body (decimal (length body mod 2 ^ 32)))
    (response_text status date type body)"
proof -
  let ?len = "decimal (length body mod 2 ^ 32)"
  have "writes (http_response_push status date type body ?len)
     (''HTTP/1.1 '' @ status @ crlf @ field_text (http_field_construct ''Server'' ''reactor'') @
      field_text (http_field_construct ''Date'' date) @
      (if text_size type \<noteq> 0 then field_text (http_field_construct ''Content-Type'' type) else []) @
      field_text (http_field_construct ''Content-Length'' ?len) @ crlf @ body)"
    unfolding http_response_push_def by (intro writes_intro)
  then show ?thesis
    unfolding text_size_zero [OF assms]
    by (cases "type = []") (simp_all add: response_text_def http_field_construct_def)
qed

lemma http_write_request_ok:
  assumes "buffer_inv out"
    "unat (buf_size out) + length (request_text meth target (request_fields host type body) @ body) \<le> 2 ^ 63"
  shows "\<exists>out'. http_write_request out meth target host type body = Some out' \<and> buffer_inv out' \<and>
    buffer_cells out' = buffer_cells out @ map Some (request_text meth target (request_fields host type body) @ body)"
proof -
  let ?text = "request_text meth target (request_fields host type body) @ body"
  have l: "length ?text < 18446744073709551616" "length body < 18446744073709551616" using assms(2) by simp_all
  show ?thesis
    by (rule writer_ok [OF assms(1) writes_request [OF l(2)] request_size [OF l(1)] assms(2)])
      (use http_length_ok [of body] l(2) in \<open>simp add: http_write_request_def\<close>)
qed

lemma http_write_response_ok:
  assumes "buffer_inv out" "length date = 29"
    "unat (buf_size out) + length (response_text status date type body) \<le> 2 ^ 63"
  shows "\<exists>out'. http_write_response out status date type body = Some out' \<and> buffer_inv out' \<and>
    buffer_cells out' = buffer_cells out @ map Some (response_text status date type body)"
proof -
  have l: "length (response_text status date type body) < 18446744073709551616" using assms(3) by simp
  then have lt: "length body < 18446744073709551616" "length type < 18446744073709551616"
    by (cases "type = []"; simp add: response_text_def field_text_def)+
  show ?thesis
    by (rule writer_ok [OF assms(1) writes_response [OF lt(2)] response_size [OF l assms(2)] assms(3)])
      (use http_length_ok [of body] lt(1) in \<open>simp add: http_write_response_def\<close>)
qed

section \<open>Field lookup\<close>

definition same_name :: "string \<Rightarrow> string \<Rightarrow> bool" where
  "same_name xs ys \<longleftrightarrow> map tolower xs = map tolower ys"

lemma strncasecmp_eq_ok:
  "length xs = length ys \<Longrightarrow> CHR 0x00 \<notin> set xs \<Longrightarrow> strncasecmp_eq xs ys (length ys) = Some (same_name xs ys)"
  by (induction xs ys rule: list_induct2) (auto simp: same_name_def)

lemma same_name_length: "same_name xs ys \<Longrightarrow> length xs = length ys"
  unfolding same_name_def by (metis length_map)

lemma http_field_lookup_ok:
  "\<forall>f \<in> set fs. CHR 0x00 \<notin> set (fst f) \<Longrightarrow>
   http_field_lookup fs name = Some (map_option snd (find (\<lambda>f. same_name (fst f) name) fs))"
proof (induction fs)
  case (Cons f fs)
  then show ?case
    using strncasecmp_eq_ok [of "fst f" name] same_name_length [of "fst f" name] by auto
qed simp

section \<open>Properties\<close>

text \<open>
  C23. With a date of 29 characters, \<open>http_write_response\<close> appends exactly the response to the
  output: status line, the fields \<open>Server\<close>, \<open>Date\<close>, \<open>Content-Type\<close> when there is a type, and
  \<open>Content-Length\<close>, an empty line and the body. The size it allocates in advance is the number
  of bytes it writes, so no byte of the output is left unwritten and nothing is written behind
  it; what was in the output before is kept.
\<close>

theorem http_write_response_exact:
  assumes "buffer_inv out" "length date = 29"
    "unat (buf_size out) + length (response_text status date type body) \<le> 2 ^ 63"
  shows "\<exists>out'. http_write_response out status date type body = Some out' \<and> buffer_inv out' \<and>
    buffer_cells out' = buffer_cells out @ map Some (response_text status date type body)"
  using assms by (rule http_write_response_ok)

lemma http_write_response_exact_witness:
  "\<exists>out'. http_write_response buffer_construct ''200 OK'' ''Thu, 01 Jan 1970 00:00:00 GMT'' ''text/plain'' ''hi'' = Some out' \<and>
    buffer_inv out' \<and> buffer_cells out' = buffer_cells buffer_construct @
      map Some (response_text ''200 OK'' ''Thu, 01 Jan 1970 00:00:00 GMT'' ''text/plain'' ''hi'')"
proof (rule http_write_response_exact)
  have "length (decimal 2) \<le> 1" using length_decimal_le [of 2 0] by simp
  moreover have "(2 :: nat) = Suc (Suc 0)" by simp
  ultimately have "length (decimal (Suc (Suc 0))) \<le> 1" by simp
  then show "unat (buf_size buffer_construct) +
      length (response_text ''200 OK'' ''Thu, 01 Jan 1970 00:00:00 GMT'' ''text/plain'' ''hi'') \<le> 2 ^ 63"
    by (simp add: buffer_construct_def response_text_def field_text_def crlf_def)
qed simp_all

text \<open>
  Looking up a field returns the value of the first field whose name equals the wanted name
  up to the case of ASCII letters, and the null view when there is none; names of different
  length are never compared byte by byte.
\<close>

theorem http_field_lookup_first:
  assumes "\<forall>f \<in> set fs. CHR 0x00 \<notin> set (fst f)"
  shows "http_field_lookup fs name = Some (map_option snd (find (\<lambda>f. same_name (fst f) name) fs))"
  using assms by (rule http_field_lookup_ok)

lemma http_field_lookup_first_witness:
  "http_field_lookup [(''Host'', ''a''), (''ACCEPT'', ''b''), (''Accept'', ''c'')] ''accept'' = Some (Some ''b'')"
proof -
  have "same_name ''ACCEPT'' ''accept''" "\<not> same_name ''Host'' ''accept''" by code_simp+
  then show ?thesis
    using http_field_lookup_first [of "[(''Host'', ''a''), (''ACCEPT'', ''b''), (''Accept'', ''c'')]" "''accept''"]
    by simp
qed

text \<open>
  The length that is announced is printed from a 32 bit integer: for a body of \<open>2^32\<close> bytes
  and more it is the length modulo \<open>2^32\<close>, not the length.
\<close>

theorem http_length_truncated:
  assumes "length body < 2 ^ 64"
  shows "http_length body = Some (decimal (length body mod 2 ^ 32))"
  using assms by (rule http_length_ok)

lemma http_length_truncated_witness: "http_length ''body'' = Some ''4''"
proof -
  have "decimal 4 = ''4''" by (simp add: decimal_small digit_char_def) code_simp
  then show ?thesis using http_length_truncated [of "''body''"] by simp
qed

end
