(* ===== verification/Http_Message.thy ===== *)
theory Http_Message
  imports Http
begin

text \<open>
  What the parser makes of well formed messages: completeness lemmas for its parts, each for a
  text of the shape \<open>xs @ token @ delimiter # ys\<close> read at \<open>length xs\<close>, and from them the
  round trip of requests through \<open>http_write_request\<close> and \<open>http_read_request_data\<close>.
\<close>

text \<open>
  \<open>http_read_request_data\<close> and \<open>http_read_response\<close> call the parser with \<open>last_len\<close> zero on the
  buffer; the offsets in the result become the views \<open>method\<close>, \<open>target\<close> and \<open>fields\<close>.
\<close>

definition http_read_request_data :: "bool \<Rightarrow> string \<Rightarrow> nat \<Rightarrow> nat \<Rightarrow> (int \<times> phr_request option) option" where
  "http_read_request_data sse buf n fields_count = phr_parse_request sse buf n fields_count 0"

definition http_read_response :: "bool \<Rightarrow> string \<Rightarrow> nat \<Rightarrow> nat \<Rightarrow> (int \<times> phr_response option) option" where
  "http_read_response sse buf n fields_count = phr_parse_response sse buf n fields_count 0"

definition slice :: "string \<Rightarrow> nat \<Rightarrow> nat \<Rightarrow> string" where
  "slice s off n = take n (drop off s)"

definition read_field :: "string \<Rightarrow> phr_header \<Rightarrow> http_field" where
  "read_field s h = (case hdr_name h of None \<Rightarrow> [] | Some a \<Rightarrow> slice s a (hdr_name_len h),
     slice s (hdr_value h) (hdr_value_len h))"

lemma slice_append [simp]: "slice (xs @ ys @ zs) (length xs) (length ys) = ys"
  by (simp add: slice_def)

section \<open>Completeness of the parts\<close>

lemma first_at:
  assumes "P c" "\<forall>y \<in> set ys. \<not> P y" "length xs + length ys < e"
  shows "first P (xs @ ys @ c # zs) e (length xs) = Some (length xs + length ys)"
  unfolding first_Some using assms by (auto simp: nth_append)

lemma token_complete:
  assumes "\<forall>c \<in> set tok. \<not> ends_token c" "length xs + length tok < e" "e \<le> length (xs @ tok @ CHR '' '' # ys)"
  shows "ADVANCE_TOKEN sse (xs @ tok @ CHR '' '' # ys) e (length xs) = Some (Inr (length xs + length tok))"
proof -
  have "first ends_token (xs @ tok @ CHR '' '' # ys) e (length xs) = Some (length xs + length tok)"
    using assms by (intro first_at) (auto simp: ends_token_def)
  then show ?thesis
    using assms ADVANCE_TOKEN_first [of "length xs" e "xs @ tok @ CHR '' '' # ys" sse]
    by (simp add: stop_at_def nth_append)
qed

lemma skip_complete:
  assumes "c \<noteq> CHR '' ''"
  shows "skip_spaces (xs @ CHR '' '' # c # ys) (length xs) = Some (Suc (length xs))"
  using assms by (intro skip_spaces_eq) (auto simp: nth_append)

lemma rd_at [simp]: "rd (xs @ c # ys) (length xs) = Some c"
  by (simp add: rd_def)

lemma expect_complete: "expect_chars (xs @ cs @ ys) (length xs) cs = Some (Inr (length xs + length cs))"
proof (induction cs arbitrary: xs)
  case (Cons c cs)
  show ?case using Cons [of "xs @ [c]"] by (simp add: EXPECT_CHAR_NO_CHECK_def)
qed simp

lemma version_complete:
  assumes "length xs + 9 \<le> e"
  shows "parse_http_version (xs @ ''HTTP/1.1'' @ ys) e (length xs) = Some (Inr (length xs + 8, 1))"
proof -
  have "expect_chars (xs @ ''HTTP/1.'' @ ''1'' @ ys) (length xs) ''HTTP/1.'' = Some (Inr (length xs + 7))"
    using expect_complete [of xs "''HTTP/1.''"] by simp
  moreover have "rd (xs @ ''HTTP/1.1'' @ ys) (length xs + 7) = Some (CHR ''1'')"
    by (simp add: rd_def nth_append)
  ultimately show ?thesis
    using assms by (simp add: parse_http_version_def PARSE_INT_def del: expect_chars.simps)
qed

lemma line_end_complete:
  assumes "length xs + 2 \<le> e"
  shows "line_end (xs @ crlf @ ys) e (length xs) m = Some (Inr (length xs + 2))"
proof -
  have "rd (xs @ crlf @ ys) (length xs + 1) = Some (CHR 0x0A)" by (simp add: rd_def crlf_def nth_append)
  moreover have "rd (xs @ crlf @ ys) (length xs) = Some (CHR 0x0D)" by (simp add: crlf_def)
  ultimately show ?thesis
    using assms by (simp add: line_end_def EXPECT_CHAR_def EXPECT_CHAR_NO_CHECK_def CHECK_EOF_def)
qed

lemma eol_complete:
  assumes "\<forall>c \<in> set val. \<not> is_ctl c" "length xs + length val + 2 \<le> e" "e \<le> length (xs @ val @ crlf @ ys)"
  shows "get_token_to_eol sse (xs @ val @ crlf @ ys) e (length xs) =
    Some (Inr (length xs + length val + 2, length val))"
proof -
  have "is_ctl (CHR 0x0D)" by (simp add: is_ctl_def)
  then have "first is_ctl (xs @ val @ CHR 0x0D # CHR 0x0A # ys) e (length xs) = Some (length xs + length val)"
    using assms by (intro first_at) auto
  then show ?thesis
    using assms get_token_to_eol_first [of "length xs" e "xs @ val @ crlf @ ys" sse]
    by (simp add: eol_result_def crlf_def nth_append)
qed

lemma trim_complete:
  assumes "val = [] \<or> \<not> is_blank (last val)"
  shows "trim_blanks (xs @ val @ ys) (length xs) (length val) = Some (length val)"
proof (cases val rule: rev_cases)
  case (snoc ws c)
  have "rd (xs @ ws @ c # ys) (length xs + length ws) = Some c"
    by (simp add: rd_def nth_append)
  then show ?thesis using assms snoc by simp
qed simp

lemma blank_complete:
  assumes "\<not> is_blank c" "length xs + 1 < e" "e \<le> length (xs @ CHR '' '' # c # ys)"
  shows "blank_loop (xs @ CHR '' '' # c # ys) e (length xs) = Some (Inr (length xs + 1))"
proof -
  have "first (\<lambda>c. \<not> is_blank c) (xs @ '' '' @ c # ys) e (length xs) = Some (length xs + length '' '')"
    using assms by (intro first_at) (simp_all add: is_blank_def)
  then show ?thesis
    using assms blank_loop_first [of "length xs" e "xs @ CHR '' '' # c # ys"] by (simp add: or_end_def)
qed

section \<open>Fields that survive the wire\<close>

text \<open>A name of token characters; a value of printable text that neither starts nor ends with a blank.\<close>

definition plain_field :: "http_field \<Rightarrow> bool" where
  "plain_field f \<longleftrightarrow> fst f \<noteq> [] \<and> (\<forall>c \<in> set (fst f). token_char_map c) \<and>
     (\<forall>c \<in> set (snd f). \<not> is_ctl c) \<and> (snd f \<noteq> [] \<longrightarrow> \<not> is_blank (hd (snd f)) \<and> \<not> is_blank (last (snd f)))"

lemma token_char_plain: "token_char_map c \<Longrightarrow> \<not> ends_name c \<and> \<not> is_blank c \<and> c \<noteq> CHR 0x0D \<and> c \<noteq> CHR 0x0A"
  by (auto simp: ends_name_def token_char_map_def is_blank_def)

lemma header_complete:
  assumes f: "plain_field f" and e: "length xs + length (field_text f) \<le> e" "e \<le> length (xs @ field_text f @ ys)"
  shows "\<exists>h. parse_header sse (xs @ field_text f @ ys) e (length xs) (hd (fst f)) n =
      Some (Inr (length xs + length (field_text f), h)) \<and> read_field (xs @ field_text f @ ys) h = f"
proof -
  obtain name val where nv: "f = (name, val)" by (cases f)
  let ?s = "xs @ field_text f @ ys" and ?v = "length xs + length name + 2"
  have s1: "?s = xs @ name @ CHR '':'' # ('' '' @ val @ crlf @ ys)" by (simp add: nv field_text_def)
  have s2: "?s = (xs @ name @ '':'') @ CHR '' '' # hd (val @ crlf) # (tl (val @ crlf) @ ys)"
    by (cases val) (simp_all add: nv field_text_def crlf_def)
  have s3: "?s = (xs @ name @ '': '') @ val @ crlf @ ys" by (simp add: nv field_text_def)
  have le: "?v + length val + 2 \<le> e" using e(1) by (simp add: nv field_text_def crlf_def)
  have name: "name \<noteq> []" "\<forall>c \<in> set name. \<not> ends_name c" "\<not> is_blank (hd name)"
    using f token_char_plain unfolding plain_field_def nv by auto
  have "first ends_name ?s e (length xs) = Some (length xs + length name)"
    unfolding s1 using name(2) le by (intro first_at) (auto simp: ends_name_def)
  moreover have "?s ! (length xs + length name) = CHR '':''" unfolding s1 by (simp add: nth_append)
  ultimately have h: "header_name sse ?s e (length xs) = Some (Inr (length xs + length name))"
    using header_name_first [of "length xs" e ?s sse] e le by (simp add: stop_at_def)
  have "\<not> is_blank (hd (val @ crlf))"
    using f by (cases val) (auto simp: plain_field_def nv crlf_def is_blank_def)
  then have b: "blank_loop ?s e (length xs + length name + 1) = Some (Inr ?v)"
    using blank_complete [of "hd (val @ crlf)" "xs @ name @ '':''" e "tl (val @ crlf) @ ys"] le e(2)
    unfolding s2 [symmetric] by simp
  have v: "get_token_to_eol sse ?s e ?v = Some (Inr (?v + length val + 2, length val))"
    using eol_complete [of val "xs @ name @ '': ''" e ys sse] f le e(2)
    unfolding s3 [symmetric] by (simp add: plain_field_def nv)
  have t: "trim_blanks ?s ?v (length val) = Some (length val)"
    using trim_complete [of val "xs @ name @ '': ''" "crlf @ ys"] f
    unfolding s3 [symmetric] by (auto simp: plain_field_def nv)
  have len: "length xs + length (field_text f) = ?v + length val + 2" by (simp add: nv field_text_def crlf_def)
  let ?h = "\<lparr>hdr_name = Some (length xs), hdr_name_len = length name, hdr_value = ?v, hdr_value_len = length val\<rparr>"
  have "parse_header sse ?s e (length xs) (hd (fst f)) n = Some (Inr (?v + length val + 2, ?h))"
    using name(1,3) h b v t by (simp add: parse_header_def nv)
  moreover have "read_field ?s ?h = f"
    using slice_append [of xs name] slice_append [of "xs @ name @ '': ''" val]
    unfolding read_field_def by (simp add: nv field_text_def)
  ultimately show ?thesis unfolding len by blast
qed

lemma headers_complete:
  assumes "\<forall>f \<in> set fs. plain_field f" "length hs + length fs \<le> mx"
    "length xs + length (concat (map field_text fs) @ crlf) \<le> e"
    "e \<le> length (xs @ concat (map field_text fs) @ crlf @ ys)"
  shows "\<exists>hs'. parse_headers sse (xs @ concat (map field_text fs) @ crlf @ ys) e (length xs) hs mx =
      Some (Inr (length xs + length (concat (map field_text fs) @ crlf), hs @ hs')) \<and>
    map (read_field (xs @ concat (map field_text fs) @ crlf @ ys)) hs' = fs"
  using assms
proof (induction fs arbitrary: xs hs)
  case Nil
  let ?s = "xs @ crlf @ ys"
  have "rd ?s (length xs) = Some (CHR 0x0D)" "rd ?s (length xs + 1) = Some (CHR 0x0A)"
    by (simp_all add: crlf_def rd_def nth_append)
  then show ?case
    using Nil by (simp add: parse_headers_andthen EXPECT_CHAR_def EXPECT_CHAR_NO_CHECK_def CHECK_EOF_def crlf_def)
next
  case (Cons f fs)
  let ?rest = "concat (map field_text fs) @ crlf @ ys"
  let ?s = "xs @ field_text f @ ?rest"
  have f: "plain_field f" using Cons.prems(1) by simp
  obtain h where h: "parse_header sse ?s e (length xs) (hd (fst f)) (length hs) =
      Some (Inr (length xs + length (field_text f), h))" "read_field ?s h = f"
    using header_complete [OF f, of xs e ?rest sse "length hs"] Cons.prems(3,4) by auto
  have "\<forall>f \<in> set fs. plain_field f" "length (hs @ [h]) + length fs \<le> mx"
    "length (xs @ field_text f) + length (concat (map field_text fs) @ crlf) \<le> e"
    "e \<le> length ((xs @ field_text f) @ ?rest)" using Cons.prems by simp_all
  from Cons.IH [OF this] obtain hs' where hs': "parse_headers sse ?s e (length xs + length (field_text f)) (hs @ [h]) mx =
      Some (Inr (length xs + length (field_text f) + length (concat (map field_text fs) @ crlf), (hs @ [h]) @ hs'))"
    "map (read_field ?s) hs' = fs" by auto
  have c: "hd (fst f) \<noteq> CHR 0x0D" "hd (fst f) \<noteq> CHR 0x0A" "rd ?s (length xs) = Some (hd (fst f))"
    "length xs \<noteq> e"
    using f token_char_plain [of "hd (fst f)"] Cons.prems(3)
    by (cases "fst f"; auto simp: plain_field_def field_text_def)+
  have "parse_headers sse ?s e (length xs) hs mx = Some (Inr (length xs + length (field_text f) +
      length (concat (map field_text fs) @ crlf), hs @ h # hs'))"
    using c h(1) hs'(1) Cons.prems(2) by (simp add: parse_headers_andthen)
  then show ?case using h(2) hs'(2) by (intro exI [of _ "h # hs'"]) (simp add: add.assoc)
qed

section \<open>Requests\<close>

definition plain_token :: "string \<Rightarrow> bool" where
  "plain_token xs \<longleftrightarrow> xs \<noteq> [] \<and> (\<forall>c \<in> set xs. \<not> ends_token c)"

lemma ends_token_chars: "ends_token (CHR 0x0D)" "ends_token (CHR 0x0A)" "ends_token (CHR '' '')"
  by (simp_all add: ends_token_def)

lemma plain_token_cases:
  assumes "plain_token xs"
  obtains c ys where "xs = c # ys" "c \<noteq> CHR 0x0D" "c \<noteq> CHR 0x0A" "c \<noteq> CHR '' ''"
proof (cases xs)
  case (Cons c ys)
  then have "\<not> ends_token c" using assms by (simp add: plain_token_def)
  then show thesis using that Cons ends_token_chars by blast
qed (use assms in \<open>simp add: plain_token_def\<close>)

lemma request_complete:
  assumes "plain_token meth" "plain_token target" "\<forall>f \<in> set fs. plain_field f" "length fs \<le> mx"
    "s = request_text meth target fs @ ys" "length (request_text meth target fs) \<le> e" "e \<le> length s"
  shows "\<exists>q. parse_request sse s e 0 mx = Some (Inr (length (request_text meth target fs), q)) \<and>
    slice s (rq_method q) (rq_method_len q) = meth \<and> slice s (rq_path q) (rq_path_len q) = target \<and>
    rq_minor_version q = 1 \<and> map (read_field s) (rq_headers q) = fs"
proof -
  let ?m = "length meth" and ?t = "length target" and ?tail = "concat (map field_text fs) @ crlf @ ys"
  have len: "?m + 1 + ?t + 11 + length (concat (map field_text fs) @ crlf) = length (request_text meth target fs)"
    by (simp add: request_text_def crlf_def)
  have s1: "s = [] @ meth @ CHR '' '' # (target @ '' HTTP/1.1'' @ crlf @ ?tail)"
    by (simp add: assms(5) request_text_def)
  have s2: "s = (meth @ '' '') @ target @ CHR '' '' # (''HTTP/1.1'' @ crlf @ ?tail)"
    by (simp add: assms(5) request_text_def)
  have s3: "s = (meth @ '' '' @ target @ '' '') @ ''HTTP/1.1'' @ (crlf @ ?tail)"
    by (simp add: assms(5) request_text_def)
  have s4: "s = (meth @ '' '' @ target @ '' HTTP/1.1'') @ crlf @ ?tail"
    by (simp add: assms(5) request_text_def)
  have s5: "s = (meth @ '' '' @ target @ '' HTTP/1.1'' @ crlf) @ concat (map field_text fs) @ crlf @ ys"
    by (simp add: assms(5) request_text_def)
  have e: "?m + 1 + ?t + 11 + length (concat (map field_text fs) @ crlf) \<le> e" using len assms(6) by simp
  obtain c0 m0 where m0: "meth = c0 # m0" "c0 \<noteq> CHR 0x0D" "c0 \<noteq> CHR 0x0A"
    using plain_token_cases [OF assms(1)] by metis
  have "rd s 0 = Some c0" by (simp add: s1 m0(1) rd_def)
  then have start: "line_end s e 0 (Some (Inr 0)) = Some (Inr 0)" using m0(2,3) by (simp add: line_end_def)
  have meth: "ADVANCE_TOKEN sse s e 0 = Some (Inr ?m)"
    using token_complete [of meth "[]" e "target @ '' HTTP/1.1'' @ crlf @ ?tail" sse] assms(1,7) e
    unfolding s1 [symmetric] by (simp add: plain_token_def)
  obtain c1 t1 where t1: "target = c1 # t1" "c1 \<noteq> CHR '' ''"
    using plain_token_cases [OF assms(2)] by metis
  have skip1: "skip_spaces s ?m = Some (?m + 1)"
    using skip_complete [of c1 meth "t1 @ '' HTTP/1.1'' @ crlf @ ?tail"] t1 by (simp add: s1)
  have target: "ADVANCE_TOKEN sse s e (?m + 1) = Some (Inr (?m + 1 + ?t))"
    using token_complete [of target "meth @ '' ''" e "''HTTP/1.1'' @ crlf @ ?tail" sse] assms(2,7) e
    unfolding s2 [symmetric] by (simp add: plain_token_def)
  have skip2: "skip_spaces s (?m + 1 + ?t) = Some (?m + 1 + ?t + 1)"
    using skip_complete [of "CHR ''H''" "meth @ '' '' @ target" "''TTP/1.1'' @ crlf @ ?tail"] by (simp add: s2)
  have version: "parse_http_version s e (?m + 1 + ?t + 1) = Some (Inr (?m + 1 + ?t + 9, 1))"
    using version_complete [of "meth @ '' '' @ target @ '' ''" e "crlf @ ?tail"] e unfolding s3 [symmetric] by simp
  have line: "line_end s e (?m + 1 + ?t + 9) (Some (Inl (-1))) = Some (Inr (?m + 1 + ?t + 11))"
  proof -
    let ?xs = "meth @ '' '' @ target @ '' HTTP/1.1''"
    have l: "length ?xs = ?m + 1 + ?t + 9" by simp
    have "line_end s e (length ?xs) (Some (Inl (-1))) = Some (Inr (length ?xs + 2))"
      unfolding s4 by (rule line_end_complete) (use e in \<open>simp add: crlf_def\<close>)
    then show ?thesis unfolding l by simp
  qed
  obtain hs where hs: "parse_headers sse s e (?m + 1 + ?t + 11) [] mx =
      Some (Inr (?m + 1 + ?t + 11 + length (concat (map field_text fs) @ crlf), hs))" "map (read_field s) hs = fs"
  proof -
    let ?xs = "meth @ '' '' @ target @ '' HTTP/1.1'' @ crlf"
    have l: "length ?xs = ?m + 1 + ?t + 11" by (simp add: crlf_def)
    have "length ?xs + length (concat (map field_text fs) @ crlf) \<le> e" unfolding l using e .
    moreover have "e \<le> length (?xs @ concat (map field_text fs) @ crlf @ ys)" using assms(7) unfolding s5 .
    ultimately show thesis
      using headers_complete [OF assms(3), of "[]" mx ?xs e ys sse] assms(4) that
      unfolding s5 [symmetric] l by auto
  qed
  let ?q = "\<lparr>rq_method = 0, rq_method_len = ?m, rq_path = ?m + 1, rq_path_len = ?t,
    rq_minor_version = 1, rq_headers = hs\<rparr>"
  have "e \<noteq> 0" using e by simp
  moreover have "meth \<noteq> []" "target \<noteq> []" using m0 t1 by simp_all
  ultimately have "parse_request sse s e 0 mx = Some (Inr (length (request_text meth target fs), ?q))"
    using start meth skip1 target skip2 version line hs(1)
    by (simp add: parse_request_def CHECK_EOF_def len [symmetric])
  moreover have "slice s 0 ?m = meth" "slice s (?m + 1) ?t = target"
    using slice_append [of "[]" meth] slice_append [of "meth @ '' ''" target] unfolding s1 by simp_all
  ultimately show ?thesis using hs(2) by simp
qed

section \<open>Properties\<close>

text \<open>
  C13. Round trip: what \<open>http_write_request\<close> writes, \<open>http_read_request_data\<close> reads back. For a
  method and a target of visible characters, and a host and a content type that are printable
  and not padded with blanks, the parser accepts the bytes the writer appended, followed by
  anything (the next pipelined request), consumes exactly the request up to its body, and
  returns the method, the target and all fields that were written, in order.
\<close>

theorem http_request_round_trip:
  assumes "plain_token meth" "plain_token target" "\<forall>f \<in> set (request_fields host type body). plain_field f"
    and "length (request_text meth target (request_fields host type body) @ body) < 2 ^ 31" "3 \<le> fields_count"
    and "length (request_text meth target (request_fields host type body) @ body) \<le> n"
    and "n \<le> length (request_text meth target (request_fields host type body) @ body @ next)"
  shows "\<exists>out bytes q.
    http_write_request buffer_construct meth target host type body = Some out \<and>
    buffer_cells out = map Some bytes \<and>
    http_read_request_data sse (bytes @ next) n fields_count = Some (int (length bytes - length body), Some q) \<and>
    slice (bytes @ next) (rq_method q) (rq_method_len q) = meth \<and>
    slice (bytes @ next) (rq_path q) (rq_path_len q) = target \<and>
    map (read_field (bytes @ next)) (rq_headers q) = request_fields host type body"
proof -
  let ?head = "request_text meth target (request_fields host type body)"
  let ?bytes = "?head @ body"
  have "unat (buf_size buffer_construct) + length ?bytes \<le> 2 ^ 63"
    using assms(4) by (simp add: buffer_construct_def)
  from http_write_request_ok [OF buffer_construct_ok(1) this] obtain out where out:
    "http_write_request buffer_construct meth target host type body = Some out"
    "buffer_cells out = map Some ?bytes" by auto
  have "length (request_fields host type body) \<le> fields_count"
    using assms(5) by (simp add: request_fields_def)
  moreover have "?bytes @ next = ?head @ (body @ next)" by simp
  moreover have "length ?head \<le> n" "n \<le> length (?bytes @ next)" using assms(6,7) by simp_all
  ultimately obtain q where q: "parse_request sse (?bytes @ next) n 0 fields_count = Some (Inr (length ?head, q))"
    "slice (?bytes @ next) (rq_method q) (rq_method_len q) = meth"
    "slice (?bytes @ next) (rq_path q) (rq_path_len q) = target"
    "map (read_field (?bytes @ next)) (rq_headers q) = request_fields host type body"
    using request_complete [OF assms(1-3)] by blast
  have "http_read_request_data sse (?bytes @ next) n fields_count = Some (int (length ?head), Some q)"
    using q(1) assms(4) by (simp add: http_read_request_data_def phr_parse_request_def entry_point_def to_int_small)
  then show ?thesis using out q(2-4) by (intro exI [of _ out] exI [of _ ?bytes] exI [of _ q]) simp
qed

lemma http_request_round_trip_witness:
  "\<exists>out bytes q.
    http_write_request buffer_construct ''POST'' ''/x'' ''h'' ''t'' ''ab'' = Some out \<and>
    buffer_cells out = map Some bytes \<and>
    http_read_request_data True (bytes @ ''GET'') 70 16 = Some (int (length bytes - length ''ab''), Some q) \<and>
    slice (bytes @ ''GET'') (rq_method q) (rq_method_len q) = ''POST'' \<and>
    slice (bytes @ ''GET'') (rq_path q) (rq_path_len q) = ''/x'' \<and>
    map (read_field (bytes @ ''GET'')) (rq_headers q) = request_fields ''h'' ''t'' ''ab''"
proof -
  have d: "decimal (Suc (Suc 0)) = ''2''" by (simp add: decimal_small digit_char_def) code_simp
  have "length (request_text ''POST'' ''/x'' (request_fields ''h'' ''t'' ''ab'') @ ''ab'') = 67"
    by (simp add: request_text_def request_fields_def field_text_def crlf_def d)
  then show ?thesis
    by (intro http_request_round_trip)
      (simp_all add: plain_token_def ends_token_def request_fields_def plain_field_def token_char_map_def
        is_ctl_def is_blank_def d)
qed

end
