(* ===== verification/Dyn_String.thy ===== *)
theory Dyn_String
  imports Prelude
begin

text \<open>
  \<^verbatim>\<open>src/reactor/string.c\<close>: strings that grow, with a header of size and capacity in front of the
  characters. \<open>str_block\<close> is the memory from the first character to the end of the allocation,
  which is 8 bytes of padding in the header plus \<open>capacity + 1\<close>; the shared null string is marked
  by \<open>str_null\<close>. A \<open>data\<close> argument that points into the string is its offset and size; other
  data is the list of its bytes and lies outside of the string. What the file descriptors
  deliver and accept is an argument.

  \<open>string_rep s xs\<close>: the string \<open>s\<close> holds the text \<open>xs\<close> and a zero behind it.
\<close>

record dstring =
  str_null :: bool
  str_size :: u64
  str_capacity :: u64
  str_block :: block

definition string_null :: dstring where
  "string_null = \<lparr>str_null = True, str_size = 0, str_capacity = 0, str_block = replicate 8 (Some (CHR 0x00))\<rparr>"

definition string_size :: "dstring \<Rightarrow> u64" where "string_size s = str_size s"

definition string_capacity :: "dstring \<Rightarrow> u64" where "string_capacity s = str_capacity s"

definition string_empty :: "dstring \<Rightarrow> bool" where "string_empty s \<longleftrightarrow> string_size s = 0"

definition string_allocate :: "dstring \<Rightarrow> u64 \<Rightarrow> dstring" where
  "string_allocate s capacity =
     (if str_capacity s < capacity then
        let n = unat (24 + capacity + 1) - 16 in
        (if str_null s
         then \<lparr>str_null = False, str_size = 0, str_capacity = capacity, str_block = replicate n (Some (CHR 0x00))\<rparr>
         else s\<lparr>str_capacity := capacity, str_block := mem_realloc (str_block s) n\<rparr>)
      else s)"

definition string_resize :: "dstring \<Rightarrow> u64 \<Rightarrow> dstring option" where
  "string_resize s n = (let s = string_allocate s n in do {
     b \<leftarrow> mem_write (str_block s) (unat n) [Some (CHR 0x00)];
     Some (s\<lparr>str_size := n, str_block := b\<rparr>) })"

text \<open>The bytes of a range of the string; \<^term>\<open>None\<close> also when one was never written.\<close>

definition string_bytes :: "dstring \<Rightarrow> u64 \<Rightarrow> u64 \<Rightarrow> string option" where
  "string_bytes s off n = do { cells \<leftarrow> mem_read (str_block s) (unat off) (unat n); those cells }"

definition string_data :: "dstring \<Rightarrow> string option" where
  "string_data s = string_bytes s 0 (string_size s)"

definition memmem :: "string \<Rightarrow> string \<Rightarrow> nat option" where
  "memmem hay needle = find (\<lambda>i. take (length needle) (drop i hay) = needle) [0..<Suc (length hay) - length needle]"

text \<open>The answer is the offset of the view, or \<^term>\<open>None\<close> for the null view.\<close>

definition string_find_at_data :: "dstring \<Rightarrow> u64 \<Rightarrow> string \<Rightarrow> u64 option option" where
  "string_find_at_data s position needle =
     (if needle = [] then Some None
      else do {
        hay \<leftarrow> string_bytes s position (string_size s - position);
        Some (map_option (\<lambda>i. position + word_of_nat i) (memmem hay needle)) })"

definition string_find_data :: "dstring \<Rightarrow> string \<Rightarrow> u64 option option" where
  "string_find_data s needle = string_find_at_data s 0 needle"

definition string_insert_data :: "dstring \<Rightarrow> u64 \<Rightarrow> string \<Rightarrow> dstring option" where
  "string_insert_data s offset xs = (let n = string_size s; k = word_of_nat (length xs) in do {
     s \<leftarrow> string_resize s (n + k);
     b \<leftarrow> mem_move (str_block s) (unat (offset + k)) (unat offset) (unat (n - offset));
     b \<leftarrow> mem_write b (unat offset) (map Some xs);
     Some (s\<lparr>str_block := b\<rparr>) })"

definition string_prepend_data :: "dstring \<Rightarrow> string \<Rightarrow> dstring option" where
  "string_prepend_data s xs = string_insert_data s 0 xs"

definition string_append_data :: "dstring \<Rightarrow> string \<Rightarrow> dstring option" where
  "string_append_data s xs = string_insert_data s (string_size s) xs"

definition string_erase_data :: "dstring \<Rightarrow> u64 \<Rightarrow> u64 \<Rightarrow> dstring option" where
  "string_erase_data s position n =
     (if n = 0 then Some s
      else do {
        b \<leftarrow> mem_move (str_block s) (unat position) (unat (position + n)) (unat (string_size s - position - n));
        string_resize (s\<lparr>str_block := b\<rparr>) (string_size s - n) })"

definition string_replace_data :: "dstring \<Rightarrow> string \<Rightarrow> string \<Rightarrow> dstring option" where
  "string_replace_data s needle replace = do {
     found \<leftarrow> string_find_data s needle;
     (case found of
        None \<Rightarrow> Some s
      | Some position \<Rightarrow> do {
          s \<leftarrow> string_erase_data s position (word_of_nat (length needle));
          string_insert_data s position replace }) }"

partial_function (option) replace_loop :: "dstring \<Rightarrow> string \<Rightarrow> string \<Rightarrow> u64 \<Rightarrow> dstring option" where
  "replace_loop s needle replace position =
     (if position < string_size s then do {
        found \<leftarrow> string_find_at_data s position needle;
        (case found of
           None \<Rightarrow> Some s
         | Some position \<Rightarrow> do {
             s \<leftarrow> string_erase_data s position (word_of_nat (length needle));
             s \<leftarrow> string_insert_data s position replace;
             replace_loop s needle replace (position + word_of_nat (length replace)) }) }
      else Some s)"

definition string_replace_all_data :: "dstring \<Rightarrow> string \<Rightarrow> string \<Rightarrow> dstring option" where
  "string_replace_all_data s needle replace = replace_loop s needle replace 0"

definition string_copy :: "dstring \<Rightarrow> dstring option" where
  "string_copy s = (if string_empty s then Some string_null
     else do { xs \<leftarrow> string_data s; string_append_data string_null xs })"

definition string_equal :: "dstring \<Rightarrow> dstring \<Rightarrow> bool option" where
  "string_equal s1 s2 =
     (if string_size s1 = string_size s2 then do {
        xs \<leftarrow> string_bytes s1 0 (string_size s1);
        ys \<leftarrow> string_bytes s2 0 (string_size s1);
        Some (xs = ys) }
      else Some False)"

text \<open>Whether \<open>string_free\<close> gives the memory of the header back.\<close>

definition string_free :: "dstring \<Rightarrow> bool option" where
  "string_free s = map_option Not (string_equal s string_null)"

text \<open>
  Reading: the chunks are what successive calls of \<open>read\<close> deliver, an empty chunk is the end of
  the file. Writing: the counts are what successive calls of \<open>write\<close> return; the result is
  everything written. Running out of calls is a call that never returns.
\<close>

primrec string_read_loop :: "dstring \<Rightarrow> string list \<Rightarrow> dstring option" where
  "string_read_loop s [] = None"
| "string_read_loop s (chunk # chunks) =
     (if chunk = [] then Some s
      else do { s \<leftarrow> string_append_data s chunk; string_read_loop s chunks })"

definition string_read :: "string list \<Rightarrow> dstring option" where
  "string_read chunks = string_read_loop string_null chunks"

definition string_load :: "string list option \<Rightarrow> dstring option" where
  "string_load fd = (case fd of None \<Rightarrow> Some string_null | Some chunks \<Rightarrow> string_read chunks)"

primrec write_loop :: "dstring \<Rightarrow> u64 \<Rightarrow> string \<Rightarrow> nat list \<Rightarrow> string option" where
  "write_loop s offset out [] = (if offset < string_size s then None else Some out)"
| "write_loop s offset out (n # ns) =
     (if offset < string_size s then
        (if 0 < n \<and> n \<le> unat (string_size s - offset) then do {
           xs \<leftarrow> string_bytes s offset (word_of_nat n);
           write_loop s (offset - word_of_nat n) (out @ xs) ns }
         else None)
      else Some out)"

definition string_write :: "dstring \<Rightarrow> nat list \<Rightarrow> string option" where
  "string_write s counts = write_loop s 0 [] counts"

definition string_save :: "dstring \<Rightarrow> nat list option \<Rightarrow> (int \<times> string) option" where
  "string_save s fd = (case fd of None \<Rightarrow> Some (-1, [])
     | Some counts \<Rightarrow> do { out \<leftarrow> string_write s counts; Some (0, out) })"

section \<open>Representation\<close>

definition string_inv :: "dstring \<Rightarrow> bool" where
  "string_inv s \<longleftrightarrow> unat (str_size s) \<le> unat (str_capacity s) \<and> unat (str_capacity s) \<le> 2 ^ 62 \<and>
     length (str_block s) = (if str_null s then 8 else unat (str_capacity s) + 9) \<and>
     (str_null s \<longrightarrow> str_capacity s = 0) \<and> str_block s ! unat (str_size s) = Some (CHR 0x00)"

definition string_rep :: "dstring \<Rightarrow> string \<Rightarrow> bool" where
  "string_rep s xs \<longleftrightarrow> string_inv s \<and> take (unat (str_size s)) (str_block s) = map Some xs"

lemma string_repD:
  assumes "string_rep s xs"
  shows "string_inv s" "take (unat (str_size s)) (str_block s) = map Some xs" "unat (str_size s) = length xs"
    "length xs \<le> 2 ^ 62" "length xs < length (str_block s)"
proof -
  show i: "string_inv s" and t: "take (unat (str_size s)) (str_block s) = map Some xs"
    using assms by (simp_all add: string_rep_def)
  have "unat (str_size s) < length (str_block s)" using i by (auto simp: string_inv_def split: if_splits)
  then show "unat (str_size s) = length xs" using arg_cong [OF t, of length] by simp
  then show "length xs < length (str_block s)" using \<open>unat (str_size s) < length (str_block s)\<close> by simp
  show "length xs \<le> 2 ^ 62" using i \<open>unat (str_size s) = length xs\<close> by (simp add: string_inv_def)
qed

lemma string_null_rep: "string_rep string_null []"
  by (simp add: string_rep_def string_inv_def string_null_def)

lemma string_allocate_ok:
  assumes "string_inv s" "unat n \<le> 2 ^ 62"
  shows "unat n \<le> unat (str_capacity (string_allocate s n))"
    "unat (str_capacity (string_allocate s n)) \<le> 2 ^ 62"
    "length (str_block (string_allocate s n)) =
       (if str_null (string_allocate s n) then 8 else unat (str_capacity (string_allocate s n)) + 9)"
    "str_null (string_allocate s n) \<longrightarrow> str_capacity (string_allocate s n) = 0"
    "take (unat (str_size s)) (str_block (string_allocate s n)) = take (unat (str_size s)) (str_block s)"
proof -
  have n: "unat (24 + n + 1) - 16 = unat n + 9" if "str_capacity s < n"
  proof -
    have "unat (24 + n + 1) = unat n + 25" using assms(2) by (simp add: unat_add_64)
    then show ?thesis by simp
  qed
  have z: "unat (str_size s) = 0" if "str_null s"
    using assms(1) that unfolding string_inv_def by (metis le_zero_eq unat_0)
  show "unat n \<le> unat (str_capacity (string_allocate s n))"
    "unat (str_capacity (string_allocate s n)) \<le> 2 ^ 62"
    "length (str_block (string_allocate s n)) =
       (if str_null (string_allocate s n) then 8 else unat (str_capacity (string_allocate s n)) + 9)"
    "str_null (string_allocate s n) \<longrightarrow> str_capacity (string_allocate s n) = 0"
    using assms n by (auto simp: string_allocate_def string_inv_def Let_def word_less_nat_alt)
  show "take (unat (str_size s)) (str_block (string_allocate s n)) = take (unat (str_size s)) (str_block s)"
  proof (cases "str_capacity s < n \<and> \<not> str_null s")
    case True
    then have "unat (str_size s) \<le> unat n + 9" "unat (str_size s) \<le> length (str_block s)"
      using assms(1) by (auto simp: string_inv_def word_less_nat_alt)
    then show ?thesis using True n by (simp add: string_allocate_def Let_def take_mem_realloc)
  next
    case False
    then show ?thesis using z by (auto simp: string_allocate_def Let_def)
  qed
qed

lemma string_resize_ok:
  assumes "string_inv s" "unat n \<le> 2 ^ 62"
  obtains t where "string_resize s n = Some t" "string_inv t" "str_size t = n"
    "take (min (unat (str_size s)) (unat n)) (str_block t) = take (min (unat (str_size s)) (unat n)) (str_block s)"
proof -
  define a where "a = string_allocate s n"
  note A = string_allocate_ok [OF assms, folded a_def]
  have room: "unat n < length (str_block a)" using A(1,3,4) by (auto split: if_splits)
  define b where "b = take (unat n) (str_block a) @ Some (CHR 0x00) # drop (Suc (unat n)) (str_block a)"
  have w: "mem_write (str_block a) (unat n) [Some (CHR 0x00)] = Some b" using room by (simp add: mem_write_ok b_def)
  have b: "length b = length (str_block a)" "b ! unat n = Some (CHR 0x00)" "take (unat n) b = take (unat n) (str_block a)"
    using room by (simp_all add: b_def nth_append min_absorb2)
  let ?t = "a\<lparr>str_size := n, str_block := b\<rparr>"
  have "string_resize s n = Some ?t" by (simp add: string_resize_def a_def [symmetric] Let_def w)
  moreover have "string_inv ?t" using A(1-4) b(1,2) by (auto simp: string_inv_def)
  moreover have "take (min (unat (str_size s)) (unat n)) b = take (min (unat (str_size s)) (unat n)) (str_block s)"
    by (metis A(5) b(3) min.commute take_take)
  ultimately show thesis using that by simp
qed

lemma string_insert_ok:
  assumes r: "string_rep s xs" and off: "off \<le> length xs" and len: "length xs + length ys \<le> 2 ^ 62"
  obtains t where "string_insert_data s (word_of_nat off) ys = Some t"
    "string_rep t (take off xs @ ys @ drop off xs)"
proof -
  note D = string_repD [OF r]
  let ?k = "word_of_nat (length ys) :: u64"
  have k: "unat ?k = length ys" "unat (word_of_nat off :: u64) = off"
    using len off by (simp_all add: unat_of_nat_64)
  have n: "unat (str_size s + ?k) = length xs + length ys" using len D(3) k by (simp add: unat_add_64)
  obtain t where t: "string_resize s (str_size s + ?k) = Some t" "string_inv t" "str_size t = str_size s + ?k"
    "take (length xs) (str_block t) = map Some xs"
    using string_resize_ok [OF D(1), of "str_size s + ?k"] D(2,3) n len by (auto simp: min_absorb1)
  define b where "b = str_block t"
  have lb: "length xs + length ys < length b" "b ! (length xs + length ys) = Some (CHR 0x00)"
    using t(2,3) n by (auto simp: string_inv_def b_def split: if_splits)
  have add: "unat (word_of_nat off + ?k :: u64) = off + length ys" using len off k by (simp add: unat_add_64)
  have sub: "unat (str_size s - word_of_nat off) = length xs - off" using D(3) off k by (simp add: unat_diff_64)
  define b1 where "b1 = take (off + length ys) b @ take (length xs - off) (drop off b) @ drop (length xs + length ys) b"
  have m: "mem_move b (off + length ys) off (length xs - off) = Some b1"
    using lb(1) off by (simp add: mem_move_ok b1_def add.commute [of "length xs"])
  define b2 where "b2 = take off b1 @ map Some ys @ drop (off + length ys) b1"
  have l1: "length b1 = length b" using lb(1) off by (simp add: b1_def min_absorb2)
  have w: "mem_write b1 off (map Some ys) = Some b2" using lb(1) l1 off by (simp add: mem_write_ok b2_def)
  have xs: "take off b = map Some (take off xs)" "take (length xs - off) (drop off b) = map Some (drop off xs)"
    using arg_cong [OF t(4), of "take off"] arg_cong [OF t(4), of "drop off"] off lb(1)
    by (simp_all add: b_def min_absorb1 take_map drop_map drop_take)
  have b2: "b2 = map Some (take off xs @ ys @ drop off xs) @ drop (length xs + length ys) b"
  proof -
    have "take off b1 = map Some (take off xs)" using xs(1) lb(1) off by (simp add: b1_def min_absorb1)
    moreover have "drop (off + length ys) b1 = map Some (drop off xs) @ drop (length xs + length ys) b"
    proof -
      have "drop (off + length ys) b1 = take (length xs - off) (drop off b) @ drop (length xs + length ys) b"
        using lb(1) off by (simp add: b1_def)
      then show ?thesis by (simp only: xs(2))
    qed
    ultimately show ?thesis by (simp add: b2_def)
  qed
  have "string_insert_data s (word_of_nat off) ys = Some (t\<lparr>str_block := b2\<rparr>)"
    using t(1) m w by (simp add: string_insert_data_def string_size_def Let_def k add sub b_def)
  moreover have "string_inv (t\<lparr>str_block := b2\<rparr>)"
  proof -
    have "length b2 = length b" using lb(1) off by (simp add: b2)
    moreover have "b2 ! (length xs + length ys) = Some (CHR 0x00)"
    proof -
      have "length (map Some (take off xs @ ys @ drop off xs)) = length xs + length ys" using off by simp
      moreover have "drop (length xs + length ys) b = Some (CHR 0x00) # drop (Suc (length xs + length ys)) b"
        using lb by (simp add: Cons_nth_drop_Suc [symmetric])
      ultimately show ?thesis unfolding b2 by (metis nth_append_length)
    qed
    ultimately show ?thesis using t(2,3) n by (simp add: string_inv_def b_def)
  qed
  moreover have "take (length xs + length ys) b2 = map Some (take off xs @ ys @ drop off xs)"
    using off by (simp add: b2)
  ultimately show thesis using that t(3) n unfolding string_rep_def by simp
qed

lemma string_erase_ok:
  assumes r: "string_rep s xs" and pn: "p + n \<le> length xs"
  obtains t where "string_erase_data s (word_of_nat p) (word_of_nat n) = Some t"
    "string_rep t (take p xs @ drop (p + n) xs)"
proof -
  note D = string_repD [OF r]
  have small: "n < 18446744073709551616" "p < 18446744073709551616" using pn D(4) by simp_all
  note u = unat_of_nat_64 [OF small(1)] unat_of_nat_64 [OF small(2)]
  show thesis
  proof (cases "n = 0")
    case True
    then show thesis using that r by (simp add: string_erase_data_def)
  next
    case False
    then have nz: "word_of_nat n \<noteq> (0 :: u64)" using u(1) by (auto simp: word_unat_eq_iff)
    let ?b = "str_block s"
    have lb: "length xs < length ?b" by (rule D(5))
    have c: "unat (word_of_nat p + word_of_nat n :: u64) = p + n"
      using pn D(4) u by (simp add: unat_add_64)
    have e: "unat (str_size s - word_of_nat p - word_of_nat n) = length xs - p - n"
      using pn D(3) u by (simp add: unat_diff_64)
    have f: "unat (str_size s - word_of_nat n) = length xs - n" using pn D(3) u by (simp add: unat_diff_64)
    define b where "b = take p ?b @ take (length xs - p - n) (drop (p + n) ?b) @ drop (length xs - n) ?b"
    have m: "mem_move ?b p (p + n) (length xs - p - n) = Some b"
      using pn lb by (simp add: mem_move_ok b_def)
    have xs: "take p ?b = map Some (take p xs)" "take (length xs - p - n) (drop (p + n) ?b) = map Some (drop (p + n) xs)"
      using arg_cong [OF D(2), of "take p"] arg_cong [OF D(2), of "drop (p + n)"] pn D(3)
      by (simp_all add: min_absorb1 take_map drop_map drop_take diff_diff_eq)
    have lb2: "length b = length ?b" using pn lb by (simp add: b_def min_absorb2)
    have nul: "b ! length xs = Some (CHR 0x00)"
    proof -
      have "length (take p ?b @ take (length xs - p - n) (drop (p + n) ?b)) = length xs - n"
        using pn lb by (simp add: min_absorb2)
      then have "b ! length xs = drop (length xs - n) ?b ! n"
        unfolding b_def append_assoc [symmetric] using pn lb by (simp only: nth_append) simp
      also have "\<dots> = ?b ! length xs" using pn lb by simp
      finally have "b ! length xs = ?b ! length xs" .
      then show ?thesis using D(1,3) by (simp add: string_inv_def)
    qed
    have "string_inv (s\<lparr>str_block := b\<rparr>)" using D(1,3) lb2 nul by (simp add: string_inv_def)
    then obtain t where t: "string_resize (s\<lparr>str_block := b\<rparr>) (str_size s - word_of_nat n) = Some t" "string_inv t"
      "str_size t = str_size s - word_of_nat n" "take (length xs - n) (str_block t) = take (length xs - n) b"
      using string_resize_ok [of "s\<lparr>str_block := b\<rparr>" "str_size s - word_of_nat n" thesis] D(3,4) f pn
      by (simp add: min_absorb2)
    have "take (length xs - n) b = map Some (take p xs @ drop (p + n) xs)"
      using pn lb unfolding b_def xs by (simp add: min_absorb2)
    then have "string_rep t (take p xs @ drop (p + n) xs)" using t f by (simp add: string_rep_def)
    moreover have "string_erase_data s (word_of_nat p) (word_of_nat n) = Some t"
      using m t(1) nz by (simp add: string_erase_data_def string_size_def u c e)
    ultimately show thesis using that by blast
  qed
qed

section \<open>Searching and replacing\<close>

lemma memmem_Nil: "m \<noteq> [] \<Longrightarrow> memmem [] m = None"
  by (cases m) (simp_all add: memmem_def)

lemma find_map_option: "find P (map f xs) = map_option f (find (\<lambda>x. P (f x)) xs)"
  by (induction xs) simp_all

lemma memmem_Cons:
  assumes "m \<noteq> []"
  shows "memmem (x # xs) m = (if take (length m) (x # xs) = m then Some 0 else map_option Suc (memmem xs m))"
proof (cases "length m \<le> Suc (length xs)")
  case True
  have "[0..<Suc (length (x # xs)) - length m] = 0 # map Suc [0..<Suc (length xs) - length m]"
    using True by (simp add: upt_conv_Cons map_Suc_upt Suc_diff_le del: upt_Suc)
  then show ?thesis by (simp add: memmem_def find_map_option comp_def)
next
  case False
  then have "take (length m) (x # xs) \<noteq> m" by (metis length_take length_Cons min.cobounded1)
  then show ?thesis using False by (simp add: memmem_def)
qed

text \<open>The leftmost occurrences that do not overlap, replaced: the reference the loop is compared with.\<close>

function replaced :: "string \<Rightarrow> string \<Rightarrow> string \<Rightarrow> string" where
  "replaced m r [] = []"
| "replaced m r (x # xs) =
     (if m \<noteq> [] \<and> take (length m) (x # xs) = m then r @ replaced m r (drop (length m) (x # xs))
      else x # replaced m r xs)"
  by pat_completeness auto
termination by (relation "measure (\<lambda>(m, r, xs). length xs)") (auto simp: Suc_diff_le le_imp_less_Suc split: list.splits)

declare replaced.simps [simp del]

lemma replaced_memmem:
  assumes "m \<noteq> []"
  shows "case memmem xs m of
      None \<Rightarrow> replaced m r xs = xs
    | Some i \<Rightarrow> i + length m \<le> length xs \<and>
        replaced m r xs = take i xs @ r @ replaced m r (drop (i + length m) xs)"
proof (induction xs)
  case Nil
  then show ?case by (simp add: memmem_Nil assms replaced.simps)
next
  case (Cons x xs)
  show ?case
  proof (cases "take (length m) (x # xs) = m")
    case True
    then have "length m \<le> length (x # xs)" by (metis length_take min.cobounded1)
    then show ?thesis using True assms by (simp add: memmem_Cons replaced.simps)
  next
    case False
    then show ?thesis using Cons assms by (auto simp: memmem_Cons replaced.simps split: option.splits)
  qed
qed

lemma replaced_grows: "length m \<le> length r \<Longrightarrow> length xs \<le> length (replaced m r xs)"
  by (induction m r xs rule: replaced.induct) (auto simp: replaced.simps)

lemma string_bytes_ok:
  assumes "string_rep s xs" "p \<le> length xs" "n \<le> length xs - p"
  shows "string_bytes s (word_of_nat p) (word_of_nat n) = Some (take n (drop p xs))"
proof -
  note D = string_repD [OF assms(1)]
  have "unat (word_of_nat p :: u64) = p" "unat (word_of_nat n :: u64) = n"
    using assms(2,3) D(4) by (simp_all add: unat_of_nat_64)
  moreover have "take n (drop p (str_block s)) = take n (drop p (take (length xs) (str_block s)))"
    using assms by (simp add: drop_take min_absorb1)
  ultimately show ?thesis using assms D
    by (simp add: string_bytes_def mem_read_ok drop_map take_map those_map_Some)
qed

lemma string_size_ok: "string_rep s xs \<Longrightarrow> string_size s = word_of_nat (length xs)"
  using string_repD(3) by (metis string_size_def word_of_nat_unat_64)

lemma string_rest_ok:
  assumes "string_rep s xs" "p \<le> length xs"
  shows "string_size s - word_of_nat p = word_of_nat (length xs - p)"
  using assms by (simp add: string_size_ok of_nat_diff)

lemma string_find_ok:
  assumes "string_rep s xs" "p \<le> length xs" "m \<noteq> []"
  shows "string_find_at_data s (word_of_nat p) m = Some (map_option (\<lambda>i. word_of_nat (p + i)) (memmem (drop p xs) m))"
  using assms string_bytes_ok [OF assms(1,2) order_refl]
  by (simp add: string_find_at_data_def string_rest_ok)

lemma string_replace_ok:
  assumes r: "string_rep s xs" and m: "m \<noteq> []" and len: "length xs + length r \<le> 2 ^ 62 + length m"
  obtains t where "string_replace_data s m r = Some t"
    "string_rep t (case memmem xs m of None \<Rightarrow> xs | Some i \<Rightarrow> take i xs @ r @ drop (i + length m) xs)"
proof -
  have f: "string_find_data s m = Some (map_option word_of_nat (memmem xs m))"
    using string_find_ok [OF r _ m, of 0] by (simp add: string_find_data_def)
  show thesis
  proof (cases "memmem xs m")
    case None
    then show thesis using that f r by (simp add: string_replace_data_def)
  next
    case (Some i)
    then have i: "i + length m \<le> length xs" using replaced_memmem [OF m, where xs = xs] by simp
    obtain u where u: "string_erase_data s (word_of_nat i) (word_of_nat (length m)) = Some u"
      "string_rep u (take i xs @ drop (i + length m) xs)"
      by (rule string_erase_ok [OF r i])
    obtain t where "string_insert_data u (word_of_nat i) r = Some t"
      "string_rep t (take i (take i xs @ drop (i + length m) xs) @ r @ drop i (take i xs @ drop (i + length m) xs))"
      by (rule string_insert_ok [OF u(2), of i r]) (use i len in simp_all)
    then show thesis using that f Some u i by (simp add: string_replace_data_def min_absorb2)
  qed
qed

lemma replace_loop_ok:
  assumes "string_rep s (ys @ zs)" "m \<noteq> []" "length (ys @ zs) \<le> 2 ^ 62" "length (ys @ replaced m r zs) \<le> 2 ^ 62"
  obtains t where "replace_loop s m r (word_of_nat (length ys)) = Some t" "string_rep t (ys @ replaced m r zs)"
  using assms
proof (induction "length zs" arbitrary: s ys zs thesis rule: less_induct)
  case less
  note D = string_repD [OF less.prems(2)]
  have lt: "(word_of_nat (length ys) :: u64) < string_size s \<longleftrightarrow> zs \<noteq> []"
    using D(3,4) by (simp add: string_size_def word_less_nat_alt unat_of_nat_64)
  have f: "string_find_at_data s (word_of_nat (length ys)) m =
      Some (map_option (\<lambda>i. word_of_nat (length ys + i)) (memmem zs m))"
    using string_find_ok [OF less.prems(2) _ less.prems(3), of "length ys"] by simp
  note R = replaced_memmem [OF less.prems(3), where xs = zs and r = r]
  show ?case
  proof (cases "zs = [] \<or> memmem zs m = None")
    case True
    then have "replaced m r zs = zs" using R by (auto simp: replaced.simps)
    moreover have "replace_loop s m r (word_of_nat (length ys)) = Some s"
      using True lt f by (subst replace_loop.simps) auto
    ultimately show ?thesis using less.prems(1,2) by simp
  next
    case False
    then obtain i where i: "memmem zs m = Some i" "zs \<noteq> []" by auto
    define vs where "vs = drop (i + length m) zs"
    have ir: "i + length m \<le> length zs" "replaced m r zs = take i zs @ r @ replaced m r vs"
      using R i by (simp_all add: vs_def)
    obtain u where u: "string_erase_data s (word_of_nat (length ys + i)) (word_of_nat (length m)) = Some u"
      "string_rep u (ys @ take i zs @ vs)"
    proof (rule string_erase_ok [OF less.prems(2), of "length ys + i" "length m"])
      show "length ys + i + length m \<le> length (ys @ zs)" using ir(1) by simp
    qed (simp add: vs_def that add.assoc)
    have vs: "length vs = length zs - i - length m" by (simp add: vs_def)
    have B: "length ys + i + length r + length vs \<le> 2 ^ 62"
    proof (cases "length m \<le> length r")
      case True
      then show ?thesis using replaced_grows [OF True, of vs] less.prems(5) ir by simp
    next
      case False
      then show ?thesis using less.prems(4) ir(1) vs by simp
    qed
    obtain t where t: "string_insert_data u (word_of_nat (length ys + i)) r = Some t"
      "string_rep t ((ys @ take i zs @ r) @ vs)"
    proof (rule string_insert_ok [OF u(2), of "length ys + i" r])
      show "length ys + i \<le> length (ys @ take i zs @ vs)" using ir(1) by simp
      show "length (ys @ take i zs @ vs) + length r \<le> 2 ^ 62" using B ir(1) by simp
    qed (use ir(1) in \<open>simp add: that min_absorb2\<close>)
    have lz: "length vs < length zs" using less.prems(3) ir(1) vs by (cases m) auto
    have e: "word_of_nat (length ys + i) + word_of_nat (length r) = (word_of_nat (length (ys @ take i zs @ r)) :: u64)"
      using ir(1) by (simp add: min_absorb2)
    obtain v where v: "replace_loop t m r (word_of_nat (length (ys @ take i zs @ r))) = Some v"
      "string_rep v ((ys @ take i zs @ r) @ replaced m r vs)"
    proof (rule less.hyps [OF lz _ t(2) less.prems(3)])
      show "length ((ys @ take i zs @ r) @ vs) \<le> 2 ^ 62" using B ir(1) by simp
      show "length ((ys @ take i zs @ r) @ replaced m r vs) \<le> 2 ^ 62" using less.prems(5) ir by simp
    qed simp_all
    have "replace_loop s m r (word_of_nat (length ys)) = Some v"
      using lt i f u(1) t(1) v(1) unfolding e [symmetric] by (subst replace_loop.simps) simp
    then show ?thesis using less.prems(1) v(2) ir(2) by simp
  qed
qed

lemma string_allocate_rep:
  assumes r: "string_rep s xs" and n: "unat n \<le> 2 ^ 62"
  shows "string_rep (string_allocate s n) xs"
proof (cases "str_capacity s < n")
  case True
  note D = string_repD [OF r]
  have len: "unat (24 + n + 1) - 16 = unat n + 9" using n by (simp add: unat_add_64)
  show ?thesis
  proof (cases "str_null s")
    case null: True
    then have "xs = []" using D(1,3) unfolding string_inv_def by (metis le_zero_eq length_0_conv unat_0)
    then show ?thesis using True null n len by (simp add: string_allocate_def string_rep_def string_inv_def Let_def)
  next
    case False
    have l: "length xs < length (str_block s)" "length xs < unat n + 9" "str_block s ! length xs = Some (CHR 0x00)"
      using D True False by (auto simp: string_inv_def word_less_nat_alt)
    then have "mem_realloc (str_block s) (unat n + 9) ! length xs = Some (CHR 0x00)"
      by (simp add: mem_realloc_def nth_append)
    moreover have "take (length xs) (mem_realloc (str_block s) (unat n + 9)) = map Some xs"
      using take_mem_realloc [of "length xs" "unat n + 9" "str_block s"] l D(2,3) by simp
    ultimately show ?thesis using True False n len D
      by (simp add: string_allocate_def string_rep_def string_inv_def Let_def word_less_nat_alt)
  qed
qed (simp add: string_allocate_def r)

lemma string_shrink_ok:
  assumes r: "string_rep s xs" and n: "unat n \<le> length xs"
  obtains t where "string_resize s n = Some t" "string_rep t (take (unat n) xs)"
proof -
  note D = string_repD [OF r]
  obtain t where "string_resize s n = Some t" "string_inv t" "str_size t = n"
    "take (unat n) (str_block t) = take (unat n) (str_block s)"
    using string_resize_ok [OF D(1), of n] D(3,4) n by (auto simp: min_absorb2)
  moreover have "take (unat n) (str_block s) = map Some (take (unat n) xs)"
    using arg_cong [OF D(2), of "take (unat n)"] n D(3) by (simp add: take_map min_absorb1)
  ultimately show thesis using that by (simp add: string_rep_def)
qed

section \<open>Histories of operations\<close>

datatype string_op =
    Allocate u64
  | Shrink u64
  | Insert_Data nat string
  | Prepend string
  | Append string
  | Erase_Data nat nat
  | Replace string string
  | Replace_All string string

primrec string_run :: "dstring \<Rightarrow> string_op \<Rightarrow> dstring option" where
  "string_run s (Allocate n) = Some (string_allocate s n)"
| "string_run s (Shrink n) = string_resize s n"
| "string_run s (Insert_Data p xs) = string_insert_data s (word_of_nat p) xs"
| "string_run s (Prepend xs) = string_prepend_data s xs"
| "string_run s (Append xs) = string_append_data s xs"
| "string_run s (Erase_Data p n) = string_erase_data s (word_of_nat p) (word_of_nat n)"
| "string_run s (Replace m r) = string_replace_data s m r"
| "string_run s (Replace_All m r) = string_replace_all_data s m r"

primrec text_run :: "string \<Rightarrow> string_op \<Rightarrow> string" where
  "text_run xs (Allocate n) = xs"
| "text_run xs (Shrink n) = take (unat n) xs"
| "text_run xs (Insert_Data p ys) = take p xs @ ys @ drop p xs"
| "text_run xs (Prepend ys) = ys @ xs"
| "text_run xs (Append ys) = xs @ ys"
| "text_run xs (Erase_Data p n) = take p xs @ drop (p + n) xs"
| "text_run xs (Replace m r) = (case memmem xs m of None \<Rightarrow> xs | Some i \<Rightarrow> take i xs @ r @ drop (i + length m) xs)"
| "text_run xs (Replace_All m r) = replaced m r xs"

text \<open>The arguments an operation may be given: ranges inside of the string, sizes up to \<open>2^62\<close>.\<close>

primrec op_allowed :: "string \<Rightarrow> string_op \<Rightarrow> bool" where
  "op_allowed xs (Allocate n) \<longleftrightarrow> unat n \<le> 2 ^ 62"
| "op_allowed xs (Shrink n) \<longleftrightarrow> unat n \<le> length xs"
| "op_allowed xs (Insert_Data p ys) \<longleftrightarrow> p \<le> length xs \<and> length xs + length ys \<le> 2 ^ 62"
| "op_allowed xs (Prepend ys) \<longleftrightarrow> length xs + length ys \<le> 2 ^ 62"
| "op_allowed xs (Append ys) \<longleftrightarrow> length xs + length ys \<le> 2 ^ 62"
| "op_allowed xs (Erase_Data p n) \<longleftrightarrow> p + n \<le> length xs"
| "op_allowed xs (Replace m r) \<longleftrightarrow> m \<noteq> [] \<and> length xs + length r \<le> 2 ^ 62 + length m"
| "op_allowed xs (Replace_All m r) \<longleftrightarrow> m \<noteq> [] \<and> length (replaced m r xs) \<le> 2 ^ 62"

primrec strings_run :: "dstring \<Rightarrow> string_op list \<Rightarrow> dstring option" where
  "strings_run s [] = Some s"
| "strings_run s (a # as) = do { s \<leftarrow> string_run s a; strings_run s as }"

primrec ops_allowed :: "string \<Rightarrow> string_op list \<Rightarrow> bool" where
  "ops_allowed xs [] \<longleftrightarrow> True"
| "ops_allowed xs (a # as) \<longleftrightarrow> op_allowed xs a \<and> ops_allowed (text_run xs a) as"

lemma string_run_ok:
  assumes r: "string_rep s xs" and a: "op_allowed xs a"
  shows "\<exists>t. string_run s a = Some t \<and> string_rep t (text_run xs a)"
proof (cases a)
  case (Allocate n)
  then show ?thesis using string_allocate_rep [OF r] a by simp
next
  case (Shrink n)
  then show ?thesis using string_shrink_ok [OF r] a by simp metis
next
  case (Insert_Data p ys)
  then show ?thesis using string_insert_ok [OF r, of p ys] a by simp metis
next
  case (Prepend ys)
  then show ?thesis using string_insert_ok [OF r, of 0 ys] a by (simp add: string_prepend_data_def) metis
next
  case (Append ys)
  then show ?thesis using string_insert_ok [OF r, of "length xs" ys] a
    by (simp add: string_append_data_def string_size_ok [OF r]) metis
next
  case (Erase_Data p n)
  then show ?thesis using string_erase_ok [OF r, of p n] a by simp metis
next
  case (Replace m r')
  then show ?thesis using string_replace_ok [OF r, of m r'] a by simp metis
next
  case (Replace_All m r')
  have "string_rep s ([] @ xs)" "length ([] @ xs) \<le> 2 ^ 62" using r string_repD(4) [OF r] by simp_all
  from replace_loop_ok [OF this(1) _ this(2), of m r'] Replace_All a
  show ?thesis by (simp add: string_replace_all_data_def) metis
qed

text \<open>
  C38. Every history of operations on a string whose ranges lie in the string and whose results
  have at most \<open>2^62\<close> characters runs without an access outside of the allocated memory, and
  the string it ends with holds the text that the operations on plain character sequences
  give, where replacing all matches is the left-to-right replacement of occurrences that do
  not overlap. In particular the loop of \<open>string_replace_all_data\<close> ends.
\<close>

theorem string_history:
  assumes "ops_allowed [] as"
  shows "\<exists>s. strings_run string_null as = Some s \<and> string_data s = Some (foldl text_run [] as)"
proof -
  have "ops_allowed xs as \<Longrightarrow> string_rep s xs \<Longrightarrow>
      \<exists>t. strings_run s as = Some t \<and> string_rep t (foldl text_run xs as)" for s xs
  proof (induction as arbitrary: s xs)
    case Nil
    then show ?case by simp
  next
    case (Cons a as)
    then obtain t where "string_run s a = Some t" "string_rep t (text_run xs a)"
      using string_run_ok [of s xs a] by auto
    then show ?case using Cons.IH [of "text_run xs a" t] Cons.prems(1) by simp
  qed
  then obtain t where t: "strings_run string_null as = Some t" "string_rep t (foldl text_run [] as)"
    using assms string_null_rep by blast
  have "string_data t = Some (foldl text_run [] as)"
    using string_bytes_ok [OF t(2), of 0 "length (foldl text_run [] as)"] string_size_ok [OF t(2)]
    by (simp add: string_data_def)
  then show ?thesis using t(1) by blast
qed

theorem string_history_witness:
  "\<exists>s. strings_run string_null [Append ''a-b-c'', Replace_All ''-'' ''--'', Erase_Data 0 1, Replace ''b'' [], Prepend ''x''] = Some s \<and>
     string_data s = Some ''x----c''"
proof -
  let ?as = "[Append ''a-b-c'', Replace_All ''-'' ''--'', Erase_Data 0 1, Replace ''b'' [], Prepend ''x'']"
  have "foldl text_run [] ?as = ''x----c''" by (simp add: memmem_def replaced.simps upt_rec)
  moreover have "ops_allowed [] ?as" by (simp add: memmem_def replaced.simps upt_rec)
  ultimately show ?thesis using string_history [of ?as] by simp
qed

section \<open>Writing, reading and freeing\<close>

text \<open>
  \<open>string_write\<close> does not write the string: its loop subtracts the number of bytes written
  from the offset, which wraps around below zero, so that the loop ends after the first call of
  \<open>write\<close>, and when that call is partial the rest of the string is silently lost.
\<close>

theorem string_write_once:
  assumes "string_rep s xs" "0 < n" "n \<le> length xs"
  shows "string_write s (n # ns) = Some (take n xs)"
proof -
  note D = string_repD [OF assms(1)]
  have n: "unat (word_of_nat n :: u64) = n" using assms(3) D(4) by (simp add: unat_of_nat_64)
  have first: "0 < string_size s" "n \<le> unat (string_size s - 0)"
    using assms(2,3) D(3) by (auto simp: string_size_def word_less_nat_alt)
  have "unat (0 - word_of_nat n :: u64) = 2 ^ 64 - n"
    using n assms(2) unat_sub_if' [of 0 "word_of_nat n :: u64"] by simp
  then have "\<not> 0 - word_of_nat n < string_size s"
    using assms(3) D(3,4) by (simp add: string_size_def word_less_nat_alt)
  then have rest: "write_loop s (0 - word_of_nat n) out ns = Some out" for out by (cases ns) simp_all
  have "string_bytes s 0 (word_of_nat n) = Some (take n xs)"
    using string_bytes_ok [OF assms(1), of 0 n] assms(3) by simp
  then show ?thesis using first rest assms(2) by (simp add: string_write_def)
qed

theorem string_write_once_witness:
  "\<exists>s. string_append_data string_null ''hello'' = Some s \<and> string_write s [2, 3] = Some ''he''"
proof -
  obtain s where s: "string_append_data string_null ''hello'' = Some s" "string_rep s ''hello''"
    using string_run_ok [OF string_null_rep, of "Append ''hello''"] by auto
  then show ?thesis using string_write_once [OF s(2), of 2 "[3]"] by simp
qed

text \<open>
  \<open>string_read\<close> returns the concatenation of everything the file descriptor delivers before
  the end of the file, whatever the sizes of the chunks are.
\<close>

theorem string_read_all:
  assumes "[] \<notin> set chunks" "length (concat chunks) \<le> 2 ^ 62"
  shows "\<exists>s. string_read (chunks @ [] # rest) = Some s \<and> string_rep s (concat chunks)"
proof -
  have "string_rep s xs \<Longrightarrow> [] \<notin> set cs \<Longrightarrow> length xs + length (concat cs) \<le> 2 ^ 62 \<Longrightarrow>
      \<exists>t. string_read_loop s (cs @ [] # rest) = Some t \<and> string_rep t (xs @ concat cs)" for s xs cs
  proof (induction cs arbitrary: s xs)
    case (Cons c cs)
    then obtain t where "string_append_data s c = Some t" "string_rep t (xs @ c)"
      using string_run_ok [of s xs "Append c"] by auto
    then show ?case using Cons.IH [of t "xs @ c"] Cons.prems by auto
  qed simp
  from this [OF string_null_rep assms(1)] assms(2) show ?thesis by (simp add: string_read_def)
qed

theorem string_read_all_witness: "\<exists>s. string_read [''ab'', ''c'', []] = Some s \<and> string_rep s ''abc''"
  using string_read_all [of "[''ab'', ''c'']" "[]"] by simp

lemma string_equal_ok:
  assumes "string_rep s xs" "string_rep t ys"
  shows "string_equal s t = Some (xs = ys)"
proof -
  note D = string_repD [OF assms(1)] and E = string_repD [OF assms(2)]
  have l: "string_size s = string_size t \<longleftrightarrow> length xs = length ys"
    using D(3) E(3) by (simp add: string_size_def word_unat_eq_iff)
  show ?thesis
  proof (cases "length xs = length ys")
    case True
    then show ?thesis using l string_bytes_ok [OF assms(1), of 0 "length xs"] string_bytes_ok [OF assms(2), of 0 "length ys"]
      by (simp add: string_equal_def string_size_ok [OF assms(1)])
  next
    case False
    then show ?thesis using l by (auto simp: string_equal_def)
  qed
qed

text \<open>
  Strings compare equal exactly when they hold the same text. \<open>string_free\<close> uses the
  comparison to recognise the shared null string, so it frees a string if and only if it is not
  empty: the memory of a string that was emptied by \<open>string_erase_data\<close> or \<open>string_resize\<close>
  is never given back.
\<close>

theorem string_free_equal:
  assumes "string_rep s xs" "string_rep t ys"
  shows "string_equal s t = Some (xs = ys) \<and> string_free s = Some (xs \<noteq> [])"
  using string_equal_ok [OF assms] string_equal_ok [OF assms(1) string_null_rep] by (simp add: string_free_def)

theorem string_free_equal_witness:
  "\<exists>s t. strings_run string_null [Append ''ab'', Erase_Data 0 2] = Some s \<and> \<not> str_null s \<and> string_free s = Some False \<and>
     strings_run string_null [Append ''ab''] = Some t \<and> string_free t = Some True"
proof -
  define s where "s = the (strings_run string_null [Append ''ab'', Erase_Data 0 2])"
  define t where "t = the (strings_run string_null [Append ''ab''])"
  note run = string_append_data_def string_insert_data_def string_erase_data_def string_resize_def string_size_def
    string_allocate_def string_null_def mem_write_def mem_move_def mem_read_def mem_realloc_def
  have s: "strings_run string_null [Append ''ab'', Erase_Data 0 2] = Some s" "\<not> str_null s" "string_rep s []"
    unfolding s_def by (simp_all add: run string_rep_def string_inv_def)
  have t: "strings_run string_null [Append ''ab''] = Some t" "string_rep t ''ab''"
    unfolding t_def by (simp_all add: run string_rep_def string_inv_def)
  show ?thesis using string_free_equal [OF s(3) t(2)] string_free_equal [OF t(2) s(3)] s t by auto
qed

end
