(* ===== verification/Chunked.thy ===== *)
theory Chunked
  imports Picohttpparser
begin

text \<open>
  \<^verbatim>\<open>src/picohttpparser/picohttpparser.c\<close>: the decoder of the chunked transfer encoding. It
  works in place: the decoded bytes are moved to the front of the buffer, over the bytes that encode
  the sizes. The model follows the \<open>switch\<close> of the loop with its fall-throughs; the
  specification is an automaton that reads one byte after the other.
\<close>

section \<open>The code\<close>

datatype chunk_state =
    CHUNKED_IN_CHUNK_SIZE
  | CHUNKED_IN_CHUNK_EXT
  | CHUNKED_IN_CHUNK_DATA
  | CHUNKED_IN_CHUNK_CRLF
  | CHUNKED_IN_TRAILERS_LINE_HEAD
  | CHUNKED_IN_TRAILERS_LINE_MIDDLE

text \<open>\<open>_hex_count\<close> never exceeds 16.\<close>

record phr_chunked_decoder =
  bytes_left :: u64
  consume_trailer :: bool
  hex_count :: nat
  chunk_state :: chunk_state

definition decode_hex :: "char \<Rightarrow> int" where
  "decode_hex ch = (let c = of_char ch in
     if 48 \<le> c \<and> c \<le> 57 then c - 48
     else if 65 \<le> c \<and> c \<le> 70 then c - 65 + 0xa
     else if 97 \<le> c \<and> c \<le> 102 then c - 97 + 0xa
     else -1)"

text \<open>The local variables: the decoder, the buffer, \<open>dst\<close> and \<open>src\<close>.\<close>

record chunk_vars =
  cv_decoder :: phr_chunked_decoder
  cv_buf :: string
  cv_dst :: nat
  cv_src :: nat

text \<open>How a round of the loop ends: with another round, with \<open>goto Exit\<close> or with \<open>goto Complete\<close>.\<close>

datatype chunk_exit = Loop | Exit int | Complete

text \<open>The loops that skip bytes: the position of the first byte with the property, \<^term>\<open>None\<close> at the end.\<close>

function chunk_scan :: "(char \<Rightarrow> bool) \<Rightarrow> string \<Rightarrow> nat \<Rightarrow> nat \<Rightarrow> nat option option" where
  "chunk_scan P s n i = (if i = n then Some None else do {
     c \<leftarrow> rd s i; (if P c then Some (Some i) else chunk_scan P s n (i + 1)) })"
  by pat_completeness auto
termination by (relation "measure (\<lambda>(P, s, n, i). length s - i)") (auto simp: rd_def split: if_splits)

declare chunk_scan.simps [simp del]

definition chunk_move :: "nat \<Rightarrow> chunk_vars \<Rightarrow> string option" where
  "chunk_move k p = (if cv_dst p \<noteq> cv_src p then mem_move (cv_buf p) (cv_dst p) (cv_src p) k else Some (cv_buf p))"

definition in_chunk_crlf :: "nat \<Rightarrow> chunk_vars \<Rightarrow> (chunk_vars \<times> chunk_exit) option" where
  "in_chunk_crlf n p = do {
     i \<leftarrow> chunk_scan (\<lambda>c. c \<noteq> CHR 0x0D) (cv_buf p) n (cv_src p);
     (case i of
        None \<Rightarrow> Some (p\<lparr>cv_src := n\<rparr>, Exit (-2))
      | Some i \<Rightarrow> do {
          c \<leftarrow> rd (cv_buf p) i;
          (if c \<noteq> CHR 0x0A then Some (p\<lparr>cv_src := i\<rparr>, Exit (-1))
           else Some (p\<lparr>cv_src := i + 1, cv_decoder := (cv_decoder p)\<lparr>chunk_state := CHUNKED_IN_CHUNK_SIZE\<rparr>\<rparr>, Loop)) }) }"

definition in_chunk_data :: "nat \<Rightarrow> chunk_vars \<Rightarrow> (chunk_vars \<times> chunk_exit) option" where
  "in_chunk_data n p = (let avail = n - cv_src p; d = cv_decoder p; left = unat (bytes_left d) in
     if avail < left then do {
       buf \<leftarrow> chunk_move avail p;
       Some (p\<lparr>cv_buf := buf, cv_src := cv_src p + avail, cv_dst := cv_dst p + avail,
               cv_decoder := d\<lparr>bytes_left := bytes_left d - word_of_nat avail\<rparr>\<rparr>, Exit (-2)) }
     else do {
       buf \<leftarrow> chunk_move left p;
       in_chunk_crlf n (p\<lparr>cv_buf := buf, cv_src := cv_src p + left, cv_dst := cv_dst p + left,
               cv_decoder := d\<lparr>bytes_left := 0, chunk_state := CHUNKED_IN_CHUNK_CRLF\<rparr>\<rparr>) })"

definition in_chunk_ext :: "nat \<Rightarrow> chunk_vars \<Rightarrow> (chunk_vars \<times> chunk_exit) option" where
  "in_chunk_ext n p = do {
     i \<leftarrow> chunk_scan (\<lambda>c. c = CHR 0x0A) (cv_buf p) n (cv_src p);
     (case i of
        None \<Rightarrow> Some (p\<lparr>cv_src := n\<rparr>, Exit (-2))
      | Some i \<Rightarrow> (let p = p\<lparr>cv_src := i + 1\<rparr>; d = cv_decoder p in
          if bytes_left d = 0 then
            (if consume_trailer d then Some (p\<lparr>cv_decoder := d\<lparr>chunk_state := CHUNKED_IN_TRAILERS_LINE_HEAD\<rparr>\<rparr>, Loop)
             else Some (p, Complete))
          else in_chunk_data n (p\<lparr>cv_decoder := d\<lparr>chunk_state := CHUNKED_IN_CHUNK_DATA\<rparr>\<rparr>))) }"

text \<open>The digits of the size: the decoder and the position behind them, and \<open>ret\<close> on \<open>goto Exit\<close>.\<close>

function size_loop :: "nat \<Rightarrow> phr_chunked_decoder \<Rightarrow> string \<Rightarrow> nat \<Rightarrow> (phr_chunked_decoder \<times> nat \<times> int option) option" where
  "size_loop n d s i = (if i = n then Some (d, i, Some (-2)) else do {
     c \<leftarrow> rd s i;
     (let v = decode_hex c in
      if v = -1 then Some (d, i, if hex_count d = 0 then Some (-1) else None)
      else if hex_count d = 16 then Some (d, i, Some (-1))
      else size_loop n (d\<lparr>bytes_left := bytes_left d * 16 + word_of_int v, hex_count := hex_count d + 1\<rparr>) s (i + 1)) })"
  by pat_completeness auto
termination by (relation "measure (\<lambda>(n, d, s, i). length s - i)") (auto simp: rd_def split: if_splits)

declare size_loop.simps [simp del]

definition in_chunk_size :: "nat \<Rightarrow> chunk_vars \<Rightarrow> (chunk_vars \<times> chunk_exit) option" where
  "in_chunk_size n p = do {
     (d, i, ret) \<leftarrow> size_loop n (cv_decoder p) (cv_buf p) (cv_src p);
     (case ret of
        Some r \<Rightarrow> Some (p\<lparr>cv_decoder := d, cv_src := i\<rparr>, Exit r)
      | None \<Rightarrow> in_chunk_ext n (p\<lparr>cv_decoder := d\<lparr>hex_count := 0, chunk_state := CHUNKED_IN_CHUNK_EXT\<rparr>, cv_src := i\<rparr>)) }"

definition in_trailers_middle :: "nat \<Rightarrow> chunk_vars \<Rightarrow> (chunk_vars \<times> chunk_exit) option" where
  "in_trailers_middle n p = do {
     i \<leftarrow> chunk_scan (\<lambda>c. c = CHR 0x0A) (cv_buf p) n (cv_src p);
     (case i of
        None \<Rightarrow> Some (p\<lparr>cv_src := n\<rparr>, Exit (-2))
      | Some i \<Rightarrow> Some (p\<lparr>cv_src := i + 1, cv_decoder := (cv_decoder p)\<lparr>chunk_state := CHUNKED_IN_TRAILERS_LINE_HEAD\<rparr>\<rparr>, Loop)) }"

definition in_trailers_head :: "nat \<Rightarrow> chunk_vars \<Rightarrow> (chunk_vars \<times> chunk_exit) option" where
  "in_trailers_head n p = do {
     i \<leftarrow> chunk_scan (\<lambda>c. c \<noteq> CHR 0x0D) (cv_buf p) n (cv_src p);
     (case i of
        None \<Rightarrow> Some (p\<lparr>cv_src := n\<rparr>, Exit (-2))
      | Some i \<Rightarrow> do {
          c \<leftarrow> rd (cv_buf p) i;
          (let p = p\<lparr>cv_src := i + 1\<rparr> in
           if c = CHR 0x0A then Some (p, Complete)
           else in_trailers_middle n (p\<lparr>cv_decoder := (cv_decoder p)\<lparr>chunk_state := CHUNKED_IN_TRAILERS_LINE_MIDDLE\<rparr>\<rparr>)) }) }"

definition chunk_switch :: "nat \<Rightarrow> chunk_vars \<Rightarrow> (chunk_vars \<times> chunk_exit) option" where
  "chunk_switch n p = (case chunk_state (cv_decoder p) of
     CHUNKED_IN_CHUNK_SIZE \<Rightarrow> in_chunk_size n p
   | CHUNKED_IN_CHUNK_EXT \<Rightarrow> in_chunk_ext n p
   | CHUNKED_IN_CHUNK_DATA \<Rightarrow> in_chunk_data n p
   | CHUNKED_IN_CHUNK_CRLF \<Rightarrow> in_chunk_crlf n p
   | CHUNKED_IN_TRAILERS_LINE_HEAD \<Rightarrow> in_trailers_head n p
   | CHUNKED_IN_TRAILERS_LINE_MIDDLE \<Rightarrow> in_trailers_middle n p)"

partial_function (option) chunk_loop :: "nat \<Rightarrow> chunk_vars \<Rightarrow> (chunk_vars \<times> int) option" where
  "chunk_loop n p = do {
     (p, e) \<leftarrow> chunk_switch n p;
     (case e of
        Loop \<Rightarrow> chunk_loop n p
      | Exit r \<Rightarrow> Some (p, r)
      | Complete \<Rightarrow> Some (p, int (n - cv_src p))) }"

text \<open>The return value, the decoder, the buffer, and the new \<open>*bufsz\<close>.\<close>

definition phr_decode_chunked :: "phr_chunked_decoder \<Rightarrow> string \<Rightarrow> nat \<Rightarrow> (int \<times> phr_chunked_decoder \<times> string \<times> nat) option" where
  "phr_decode_chunked d buf n = do {
     (p, ret) \<leftarrow> chunk_loop n \<lparr>cv_decoder = d, cv_buf = buf, cv_dst = 0, cv_src = 0\<rparr>;
     buf \<leftarrow> chunk_move (n - cv_src p) p;
     Some (ret, cv_decoder p, buf, cv_dst p) }"

definition phr_decode_chunked_is_in_data :: "phr_chunked_decoder \<Rightarrow> bool" where
  "phr_decode_chunked_is_in_data d \<longleftrightarrow> chunk_state d = CHUNKED_IN_CHUNK_DATA"

section \<open>The specification\<close>

datatype chunk_verdict = Going | Failed | Finished

text \<open>One byte: the next state of the decoder, the decoded byte, and whether the text goes on behind it.\<close>

fun ext_byte :: "phr_chunked_decoder \<Rightarrow> char \<Rightarrow> phr_chunked_decoder \<times> string \<times> chunk_verdict" where
  "ext_byte d c =
     (if c \<noteq> CHR 0x0A then (d\<lparr>chunk_state := CHUNKED_IN_CHUNK_EXT\<rparr>, [], Going)
      else if bytes_left d \<noteq> 0 then (d\<lparr>chunk_state := CHUNKED_IN_CHUNK_DATA\<rparr>, [], Going)
      else if consume_trailer d then (d\<lparr>chunk_state := CHUNKED_IN_TRAILERS_LINE_HEAD\<rparr>, [], Going)
      else (d\<lparr>chunk_state := CHUNKED_IN_CHUNK_EXT\<rparr>, [], Finished))"

definition chunk_byte :: "phr_chunked_decoder \<Rightarrow> char \<Rightarrow> phr_chunked_decoder \<times> string \<times> chunk_verdict" where
  "chunk_byte d c = (case chunk_state d of
     CHUNKED_IN_CHUNK_SIZE \<Rightarrow>
       if decode_hex c = -1 then (if hex_count d = 0 then (d, [], Failed) else ext_byte (d\<lparr>hex_count := 0\<rparr>) c)
       else if hex_count d = 16 then (d, [], Failed)
       else (d\<lparr>bytes_left := bytes_left d * 16 + word_of_int (decode_hex c), hex_count := hex_count d + 1\<rparr>, [], Going)
   | CHUNKED_IN_CHUNK_EXT \<Rightarrow> ext_byte d c
   | CHUNKED_IN_CHUNK_DATA \<Rightarrow>
       (d\<lparr>bytes_left := bytes_left d - 1, chunk_state := if bytes_left d = 1 then CHUNKED_IN_CHUNK_CRLF else CHUNKED_IN_CHUNK_DATA\<rparr>, [c], Going)
   | CHUNKED_IN_CHUNK_CRLF \<Rightarrow>
       if c = CHR 0x0D then (d, [], Going)
       else if c = CHR 0x0A then (d\<lparr>chunk_state := CHUNKED_IN_CHUNK_SIZE\<rparr>, [], Going) else (d, [], Failed)
   | CHUNKED_IN_TRAILERS_LINE_HEAD \<Rightarrow>
       if c = CHR 0x0D then (d, [], Going)
       else if c = CHR 0x0A then (d, [], Finished) else (d\<lparr>chunk_state := CHUNKED_IN_TRAILERS_LINE_MIDDLE\<rparr>, [], Going)
   | CHUNKED_IN_TRAILERS_LINE_MIDDLE \<Rightarrow>
       (if c = CHR 0x0A then d\<lparr>chunk_state := CHUNKED_IN_TRAILERS_LINE_HEAD\<rparr> else d, [], Going))"

text \<open>A text: the decoder, the decoded bytes, the verdict, and what is left of the text.\<close>

fun chunk_text :: "phr_chunked_decoder \<Rightarrow> string \<Rightarrow> phr_chunked_decoder \<times> string \<times> chunk_verdict \<times> string" where
  "chunk_text d [] = (d, [], Going, [])"
| "chunk_text d (c # cs) = (case chunk_byte d c of
     (d', out, Going) \<Rightarrow> (case chunk_text d' cs of (e, out', v, rest) \<Rightarrow> (e, out @ out', v, rest))
   | (d', out, Failed) \<Rightarrow> (d', out, Failed, c # cs)
   | (d', out, Finished) \<Rightarrow> (d', out, Finished, cs))"

declare ext_byte.simps [simp del]

lemma chunk_text_append:
  "chunk_text d (xs @ ys) = (case chunk_text d xs of
     (e, out, Going, rest) \<Rightarrow> (case chunk_text e ys of (e', out', v, rest) \<Rightarrow> (e', out @ out', v, rest))
   | (e, out, v, rest) \<Rightarrow> (e, out, v, rest @ ys))"
proof (induction xs arbitrary: d)
  case (Cons c xs)
  obtain d' o' v where b: "chunk_byte d c = (d', o', v)" by (cases "chunk_byte d c")
  then show ?case using Cons.IH [of d'] by (cases v) (auto split: prod.splits chunk_verdict.splits)
qed (simp split: prod.splits)

lemma chunk_text_going: "chunk_text d xs = (e, out, Going, rest) \<Longrightarrow> rest = []"
  by (induction xs arbitrary: d e out) (auto split: prod.splits chunk_verdict.splits)

lemma chunk_text_skip: "\<forall>c \<in> set xs. chunk_byte d c = (d, [], Going) \<Longrightarrow> chunk_text d xs = (d, [], Going, [])"
  by (induction xs) simp_all

section \<open>The code meets the specification\<close>

definition chunk_ok :: "phr_chunked_decoder \<Rightarrow> bool" where
  "chunk_ok d \<longleftrightarrow> (chunk_state d = CHUNKED_IN_CHUNK_DATA \<longrightarrow> bytes_left d \<noteq> 0)"

definition chunk_inv :: "nat \<Rightarrow> chunk_vars \<Rightarrow> bool" where
  "chunk_inv n p \<longleftrightarrow> cv_dst p \<le> cv_src p \<and> cv_src p \<le> n \<and> n \<le> length (cv_buf p)"

definition unread :: "nat \<Rightarrow> chunk_vars \<Rightarrow> string" where
  "unread n p = take (n - cv_src p) (drop (cv_src p) (cv_buf p))"

definition decoded_before :: "string \<Rightarrow> phr_chunked_decoder \<times> string \<times> chunk_verdict \<times> string \<Rightarrow> phr_chunked_decoder \<times> string \<times> chunk_verdict \<times> string" where
  "decoded_before out r = (case r of (d, o', v, rest) \<Rightarrow> (d, out @ o', v, rest))"

text \<open>From \<open>p\<close> to \<open>p'\<close> the bytes \<open>out\<close> are decoded.\<close>

definition decodes :: "nat \<Rightarrow> chunk_vars \<Rightarrow> string \<Rightarrow> chunk_vars \<Rightarrow> bool" where
  "decodes n p out p' \<longleftrightarrow> chunk_inv n p' \<and> length (cv_buf p') = length (cv_buf p) \<and>
     take (cv_dst p') (cv_buf p') = take (cv_dst p) (cv_buf p) @ out \<and> cv_dst p' = cv_dst p + length out"

definition chunk_sim :: "nat \<Rightarrow> chunk_vars \<Rightarrow> chunk_vars \<Rightarrow> chunk_exit \<Rightarrow> bool" where
  "chunk_sim n p p' e \<longleftrightarrow> (\<exists>out. decodes n p out p' \<and>
     (let t = chunk_text (cv_decoder p) (unread n p); d = cv_decoder p'; rest = unread n p' in
      case e of
        Loop \<Rightarrow> chunk_ok d \<and> length rest < length (unread n p) \<and> t = decoded_before out (chunk_text d rest)
      | Exit r \<Rightarrow> r = -2 \<and> t = (d, out, Going, rest) \<or> r = -1 \<and> t = (d, out, Failed, rest)
      | Complete \<Rightarrow> t = (d, out, Finished, rest)))"

lemma decodes_trans: "decodes n p xs q \<Longrightarrow> decodes n q ys r \<Longrightarrow> decodes n p (xs @ ys) r"
  unfolding decodes_def by (metis add.assoc append.assoc length_append)

lemma decoded_before_twice: "decoded_before xs (decoded_before ys r) = decoded_before (xs @ ys) r"
  by (simp add: decoded_before_def split: prod.splits)

text \<open>A case of the \<open>switch\<close> that falls through to the next one.\<close>

lemma chunk_sim_through:
  assumes "decodes n p out q" "chunk_text (cv_decoder p) (unread n p) = decoded_before out (chunk_text (cv_decoder q) (unread n q))"
    "length (unread n q) \<le> length (unread n p)" "chunk_sim n q p' e"
  shows "chunk_sim n p p' e"
proof -
  obtain ys where ys: "decodes n q ys p'" "let t = chunk_text (cv_decoder q) (unread n q); d = cv_decoder p'; rest = unread n p' in
      case e of
        Loop \<Rightarrow> chunk_ok d \<and> length rest < length (unread n q) \<and> t = decoded_before ys (chunk_text d rest)
      | Exit r \<Rightarrow> r = -2 \<and> t = (d, ys, Going, rest) \<or> r = -1 \<and> t = (d, ys, Failed, rest)
      | Complete \<Rightarrow> t = (d, ys, Finished, rest)"
    using assms(4) unfolding chunk_sim_def by blast
  show ?thesis
    unfolding chunk_sim_def
    by (rule exI [of _ "out @ ys"]) (use decodes_trans [OF assms(1) ys(1)] assms(2,3) ys(2) in
      \<open>auto simp: Let_def decoded_before_twice decoded_before_def split: chunk_exit.splits prod.splits\<close>)
qed

lemma chunk_scan_ok:
  assumes "i \<le> n" "n \<le> length s"
  shows "(chunk_scan P s n i = Some None \<and> (\<forall>c \<in> set (take (n - i) (drop i s)). \<not> P c)) \<or>
    (\<exists>xs c ys. take (n - i) (drop i s) = xs @ c # ys \<and> (\<forall>x \<in> set xs. \<not> P x) \<and> P c \<and>
       chunk_scan P s n i = Some (Some (i + length xs)) \<and> rd s (i + length xs) = Some c)"
  using assms
proof (induction "n - i" arbitrary: i)
  case 0
  then show ?case by (subst chunk_scan.simps) simp
next
  case (Suc k)
  then have i: "i < n" "i < length s" by simp_all
  then have r: "rd s i = Some (s ! i)" by (simp add: rd_def)
  have t: "take (n - i) (drop i s) = s ! i # take (n - (i + 1)) (drop (i + 1) s)"
    using i by (metis Cons_nth_drop_Suc Suc_diff_Suc Suc_eq_plus1 take_Suc_Cons)
  show ?case
  proof (cases "P (s ! i)")
    case True
    then show ?thesis using i r t by (intro disjI2 exI [of _ "[]"]) (simp add: chunk_scan.simps [of P s n i])
  next
    case False
    then have run: "chunk_scan P s n i = chunk_scan P s n (i + 1)" using i r by (subst chunk_scan.simps) simp
    have "k = n - (i + 1)" "i + 1 \<le> n" using Suc.hyps(2) i by simp_all
    from Suc.hyps(1) [OF this Suc.prems(2)] show ?thesis
    proof
      assume "chunk_scan P s n (i + 1) = Some None \<and> (\<forall>c \<in> set (take (n - (i + 1)) (drop (i + 1) s)). \<not> P c)"
      then show ?thesis using run t False by simp
    next
      assume "\<exists>xs c ys. take (n - (i + 1)) (drop (i + 1) s) = xs @ c # ys \<and> (\<forall>x \<in> set xs. \<not> P x) \<and> P c \<and>
        chunk_scan P s n (i + 1) = Some (Some (i + 1 + length xs)) \<and> rd s (i + 1 + length xs) = Some c"
      then obtain xs c ys where "take (n - (i + 1)) (drop (i + 1) s) = xs @ c # ys" "\<forall>x \<in> set xs. \<not> P x" "P c"
        "chunk_scan P s n (i + 1) = Some (Some (i + 1 + length xs))" "rd s (i + 1 + length xs) = Some c" by blast
      then show ?thesis using run t False by (intro disjI2 exI [of _ "s ! i # xs"] exI [of _ c] exI [of _ ys]) simp
    qed
  qed
qed

lemma unread_length: "chunk_inv n p \<Longrightarrow> length (unread n p) = n - cv_src p"
  by (auto simp: chunk_inv_def unread_def min_def)

text \<open>Moving \<open>src\<close> over bytes that decode to nothing.\<close>

lemma decodes_skip:
  assumes "chunk_inv n p" "unread n p = xs @ ys" "cv_src q = cv_src p + length xs" "cv_buf q = cv_buf p" "cv_dst q = cv_dst p"
  shows "decodes n p [] q" "unread n q = ys"
proof -
  have l: "length xs + length ys = n - cv_src p" using unread_length [OF assms(1)] assms(2) by simp
  then show "decodes n p [] q" using assms by (auto simp: decodes_def chunk_inv_def)
  have "take (n - (cv_src p + length xs)) (drop (cv_src p + length xs) (cv_buf p)) = drop (length xs) (unread n p)"
    by (simp add: unread_def drop_take add.commute)
  then show "unread n q = ys" using assms by (simp add: unread_def)
qed

lemma scan_case:
  assumes "chunk_inv n p"
  obtains "chunk_scan P (cv_buf p) n (cv_src p) = Some None" "\<forall>c \<in> set (unread n p). \<not> P c"
  | xs c ys where "chunk_scan P (cv_buf p) n (cv_src p) = Some (Some (cv_src p + length xs))" "unread n p = xs @ c # ys"
      "\<forall>x \<in> set xs. \<not> P x" "P c" "rd (cv_buf p) (cv_src p + length xs) = Some c"
  using chunk_scan_ok [of "cv_src p" n "cv_buf p" P] assms unfolding chunk_inv_def unread_def by blast

text \<open>Ending inside of skipped bytes, and behind the byte \<open>c\<close> that ends them.\<close>

lemma sim_end:
  assumes "chunk_inv n p" "\<forall>c \<in> set (unread n p). chunk_byte (cv_decoder p) c = (cv_decoder p, [], Going)"
  shows "chunk_sim n p (p\<lparr>cv_src := n\<rparr>) (Exit (-2))"
proof -
  have "n = cv_src p + length (unread n p)" using unread_length [OF assms(1)] assms(1) by (simp add: chunk_inv_def)
  then have "decodes n p [] (p\<lparr>cv_src := n\<rparr>)" "unread n (p\<lparr>cv_src := n\<rparr>) = []"
    using decodes_skip [OF assms(1), of "unread n p" "[]" "p\<lparr>cv_src := n\<rparr>"] by simp_all
  then show ?thesis using chunk_text_skip [OF assms(2)] by (auto simp: chunk_sim_def intro!: exI [of _ "[]"])
qed

lemma sim_byte:
  assumes p: "chunk_inv n p" "unread n p = xs @ c # ys" "\<forall>x \<in> set xs. chunk_byte (cv_decoder p) x = (cv_decoder p, [], Going)"
  shows "chunk_byte (cv_decoder p) c = (d, [], Going) \<Longrightarrow> q = p\<lparr>cv_src := cv_src p + length xs + 1, cv_decoder := d\<rparr> \<Longrightarrow>
      decodes n p [] q \<and> unread n q = ys \<and> chunk_text (cv_decoder p) (unread n p) = decoded_before [] (chunk_text d ys)"
    "chunk_byte (cv_decoder p) c = (d, [], Finished) \<Longrightarrow> chunk_sim n p (p\<lparr>cv_src := cv_src p + length xs + 1, cv_decoder := d\<rparr>) Complete"
    "chunk_byte (cv_decoder p) c = (d, [], Failed) \<Longrightarrow> chunk_sim n p (p\<lparr>cv_src := cv_src p + length xs, cv_decoder := d\<rparr>) (Exit (-1))"
proof -
  let ?q = "p\<lparr>cv_src := cv_src p + length xs + 1, cv_decoder := d\<rparr>"
  have q: "decodes n p [] ?q" "unread n ?q = ys" using decodes_skip [OF p(1), of "xs @ [c]" ys ?q] p(2) by simp_all
  have t: "chunk_text (cv_decoder p) (unread n p) = chunk_text (cv_decoder p) (c # ys)"
    unfolding p(2) chunk_text_append chunk_text_skip [OF p(3)] by (simp split: prod.splits)
  show "chunk_byte (cv_decoder p) c = (d, [], Going) \<Longrightarrow> q = p\<lparr>cv_src := cv_src p + length xs + 1, cv_decoder := d\<rparr> \<Longrightarrow>
      decodes n p [] q \<and> unread n q = ys \<and> chunk_text (cv_decoder p) (unread n p) = decoded_before [] (chunk_text d ys)"
    using q t by (simp add: decoded_before_def split: prod.splits)
  show "chunk_byte (cv_decoder p) c = (d, [], Finished) \<Longrightarrow> chunk_sim n p ?q Complete"
    using q t by (auto simp: chunk_sim_def intro!: exI [of _ "[]"])
  let ?r = "p\<lparr>cv_src := cv_src p + length xs, cv_decoder := d\<rparr>"
  have "decodes n p [] ?r" "unread n ?r = c # ys" using decodes_skip [OF p(1), of xs "c # ys" ?r] p(2) by simp_all
  then show "chunk_byte (cv_decoder p) c = (d, [], Failed) \<Longrightarrow> chunk_sim n p ?r (Exit (-1))"
    using t by (auto simp: chunk_sim_def intro!: exI [of _ "[]"])
qed

lemma sim_loop:
  assumes "decodes n p out q" "length (unread n q) < length (unread n p)" "chunk_ok (cv_decoder q)"
    "chunk_text (cv_decoder p) (unread n p) = decoded_before out (chunk_text (cv_decoder q) (unread n q))"
  shows "chunk_sim n p q Loop"
  using assms by (auto simp: chunk_sim_def)

lemma in_chunk_crlf_ok:
  assumes p: "chunk_inv n p" and st: "chunk_state (cv_decoder p) = CHUNKED_IN_CHUNK_CRLF"
  shows "\<exists>p' e. in_chunk_crlf n p = Some (p', e) \<and> chunk_sim n p p' e"
proof (cases rule: scan_case [OF p, of "\<lambda>c. c \<noteq> CHR 0x0D"])
  case 1
  then have "\<forall>c \<in> set (unread n p). chunk_byte (cv_decoder p) c = (cv_decoder p, [], Going)" using st by (simp add: chunk_byte_def)
  from sim_end [OF p this] show ?thesis using 1(1) by (simp add: in_chunk_crlf_def)
next
  case (2 xs c ys)
  have skip: "\<forall>x \<in> set xs. chunk_byte (cv_decoder p) x = (cv_decoder p, [], Going)" using st 2(3) by (simp add: chunk_byte_def)
  show ?thesis
  proof (cases "c = CHR 0x0A")
    case True
    let ?d = "(cv_decoder p)\<lparr>chunk_state := CHUNKED_IN_CHUNK_SIZE\<rparr>"
    let ?q = "p\<lparr>cv_src := cv_src p + length xs + 1, cv_decoder := ?d\<rparr>"
    have "chunk_byte (cv_decoder p) c = (?d, [], Going)" using st True by (simp add: chunk_byte_def)
    from sim_byte(1) [OF p 2(2) skip this refl] have "chunk_sim n p ?q Loop" using 2(2) by (intro sim_loop) (auto simp: chunk_ok_def)
    then show ?thesis using 2(1,5) True by (simp add: in_chunk_crlf_def)
  next
    case False
    then have "chunk_byte (cv_decoder p) c = (cv_decoder p, [], Failed)" using st 2(4) by (simp add: chunk_byte_def)
    from sim_byte(3) [OF p 2(2) skip this] show ?thesis using 2(1,5) False by (simp add: in_chunk_crlf_def)
  qed
qed

lemma chunk_move_ok:
  assumes p: "chunk_inv n p" and k: "k \<le> n - cv_src p"
  shows "\<exists>buf. chunk_move k p = Some buf \<and> length buf = length (cv_buf p) \<and>
    take (cv_dst p + k) buf = take (cv_dst p) (cv_buf p) @ take k (drop (cv_src p) (cv_buf p)) \<and>
    drop (cv_src p + k) buf = drop (cv_src p + k) (cv_buf p)"
proof (cases "cv_dst p = cv_src p")
  case True
  then show ?thesis by (simp add: chunk_move_def take_add)
next
  case False
  have le: "cv_dst p \<le> cv_src p" "cv_src p + k \<le> length (cv_buf p)" "cv_dst p + k \<le> length (cv_buf p)"
    using p k by (auto simp: chunk_inv_def)
  let ?b = "take (cv_dst p) (cv_buf p) @ take k (drop (cv_src p) (cv_buf p)) @ drop (cv_dst p + k) (cv_buf p)"
  have l: "length (take (cv_dst p) (cv_buf p)) = cv_dst p" "length (take k (drop (cv_src p) (cv_buf p))) = k" using le by auto
  have "chunk_move k p = Some ?b" using False le by (simp add: chunk_move_def mem_move_ok)
  moreover have "length ?b = length (cv_buf p)" using le l by simp
  moreover have "take (cv_dst p + k) ?b = take (cv_dst p) (cv_buf p) @ take k (drop (cv_src p) (cv_buf p))" using l by simp
  moreover have "drop (cv_src p + k) ?b = drop (cv_src p + k) (cv_buf p)" using l le by simp
  ultimately show ?thesis by blast
qed

lemma data_text:
  assumes "chunk_state d = CHUNKED_IN_CHUNK_DATA" "bytes_left d \<noteq> 0" "length xs \<le> unat (bytes_left d)"
  shows "chunk_text d xs = (d\<lparr>bytes_left := bytes_left d - word_of_nat (length xs),
    chunk_state := if length xs = unat (bytes_left d) then CHUNKED_IN_CHUNK_CRLF else CHUNKED_IN_CHUNK_DATA\<rparr>, xs, Going, [])"
  using assms
proof (induction xs arbitrary: d)
  case Nil
  then show ?case by (cases d) (auto simp: word_unat_eq_iff)
next
  case (Cons c xs)
  let ?d = "d\<lparr>bytes_left := bytes_left d - 1, chunk_state := if bytes_left d = 1 then CHUNKED_IN_CHUNK_CRLF else CHUNKED_IN_CHUNK_DATA\<rparr>"
  have b: "chunk_byte d c = (?d, [c], Going)" using Cons.prems(1) by (simp add: chunk_byte_def)
  have u: "unat (bytes_left d - 1) = unat (bytes_left d) - 1" using Cons.prems(2) by (simp add: unat_diff_64 word_unat_eq_iff Suc_le_eq)
  have pos: "0 < unat (bytes_left d)" using Cons.prems(2) by (simp add: word_unat_eq_iff)
  show ?case
  proof (cases "bytes_left d = 1")
    case True
    then have "xs = []" using Cons.prems(3) by simp
    then show ?thesis using b True by simp
  next
    case False
    then have f: "chunk_state ?d = CHUNKED_IN_CHUNK_DATA" "bytes_left ?d \<noteq> 0" "length xs \<le> unat (bytes_left ?d)"
      using Cons.prems(3) u pos by (simp_all add: word_unat_eq_iff)
    have e: "length xs = unat (bytes_left d - 1) \<longleftrightarrow> length (c # xs) = unat (bytes_left d)" using u pos by auto
    show ?thesis using b Cons.IH [OF f] False e by (simp add: algebra_simps)
  qed
qed

lemma in_chunk_data_ok:
  assumes p: "chunk_inv n p" and st: "chunk_state (cv_decoder p) = CHUNKED_IN_CHUNK_DATA" "bytes_left (cv_decoder p) \<noteq> 0"
  shows "\<exists>p' e. in_chunk_data n p = Some (p', e) \<and> chunk_sim n p p' e"
proof (cases "n - cv_src p < unat (bytes_left (cv_decoder p))")
  case True
  let ?k = "n - cv_src p"
  obtain buf where buf: "chunk_move ?k p = Some buf" "length buf = length (cv_buf p)"
    "take (cv_dst p + ?k) buf = take (cv_dst p) (cv_buf p) @ unread n p" "drop (cv_src p + ?k) buf = drop (cv_src p + ?k) (cv_buf p)"
    using chunk_move_ok [OF p, of ?k] by (auto simp: unread_def)
  have l: "length (unread n p) = ?k" by (rule unread_length [OF p])
  let ?d = "(cv_decoder p)\<lparr>bytes_left := bytes_left (cv_decoder p) - word_of_nat ?k\<rparr>"
  let ?q = "p\<lparr>cv_buf := buf, cv_src := cv_src p + ?k, cv_dst := cv_dst p + ?k, cv_decoder := ?d\<rparr>"
  have "decodes n p (unread n p) ?q" using p buf l by (auto simp: decodes_def chunk_inv_def)
  moreover have "unread n ?q = []" using p by (simp add: unread_def chunk_inv_def)
  moreover have "chunk_text (cv_decoder p) (unread n p) = (?d, unread n p, Going, [])"
    using data_text [OF st, of "unread n p"] l True st(1) by simp
  ultimately have "chunk_sim n p ?q (Exit (-2))" by (auto simp: chunk_sim_def)
  then show ?thesis using True buf(1) by (simp add: in_chunk_data_def Let_def)
next
  case False
  let ?k = "unat (bytes_left (cv_decoder p))"
  have k: "?k \<le> n - cv_src p" using False by simp
  obtain buf where buf: "chunk_move ?k p = Some buf" "length buf = length (cv_buf p)"
    "take (cv_dst p + ?k) buf = take (cv_dst p) (cv_buf p) @ take ?k (drop (cv_src p) (cv_buf p))"
    "drop (cv_src p + ?k) buf = drop (cv_src p + ?k) (cv_buf p)"
    using chunk_move_ok [OF p k] by blast
  let ?xs = "take ?k (drop (cv_src p) (cv_buf p))"
  let ?d = "(cv_decoder p)\<lparr>bytes_left := 0, chunk_state := CHUNKED_IN_CHUNK_CRLF\<rparr>"
  let ?q = "p\<lparr>cv_buf := buf, cv_src := cv_src p + ?k, cv_dst := cv_dst p + ?k, cv_decoder := ?d\<rparr>"
  have l: "length ?xs = ?k" using k p by (auto simp: chunk_inv_def)
  have q: "chunk_inv n ?q" using p k buf(2) by (auto simp: chunk_inv_def)
  have dec: "decodes n p ?xs ?q" using q buf(2,3) l by (simp add: decodes_def)
  have "unread n ?q = drop ?k (unread n p)" using buf(4) by (simp add: unread_def drop_take add.commute)
  moreover have "take ?k (unread n p) = ?xs" using k by (simp add: unread_def min_absorb1)
  ultimately have split: "unread n p = ?xs @ unread n ?q" by (metis append_take_drop_id)
  have "chunk_text (cv_decoder p) ?xs = (?d, ?xs, Going, [])"
    using data_text [OF st, of ?xs] l by simp
  then have "chunk_text (cv_decoder p) (unread n p) = decoded_before ?xs (chunk_text (cv_decoder ?q) (unread n ?q))"
    by (subst split) (simp add: chunk_text_append decoded_before_def split: prod.splits)
  moreover have "length (unread n ?q) \<le> length (unread n p)" using arg_cong [OF split, of length] by simp
  moreover obtain p' e where "in_chunk_crlf n ?q = Some (p', e)" "chunk_sim n ?q p' e" using in_chunk_crlf_ok [OF q] by auto
  ultimately have "in_chunk_crlf n ?q = Some (p', e) \<and> chunk_sim n p p' e" using chunk_sim_through [OF dec] by blast
  then show ?thesis using False buf(1) by (auto simp: in_chunk_data_def Let_def)
qed

lemma ext_byte_state [simp]: "ext_byte (d\<lparr>chunk_state := s\<rparr>) c = ext_byte d c"
  by (simp add: ext_byte.simps)

lemma in_chunk_ext_ok:
  assumes p: "chunk_inv n p" and st: "chunk_state (cv_decoder p) = CHUNKED_IN_CHUNK_EXT"
  shows "\<exists>p' e. in_chunk_ext n p = Some (p', e) \<and> chunk_sim n p p' e"
proof (cases rule: scan_case [OF p, of "\<lambda>c. c = CHR 0x0A"])
  case 1
  then have "\<forall>c \<in> set (unread n p). chunk_byte (cv_decoder p) c = (cv_decoder p, [], Going)"
    using st by (simp add: chunk_byte_def ext_byte.simps)
  from sim_end [OF p this] show ?thesis using 1(1) by (simp add: in_chunk_ext_def)
next
  case (2 xs c ys)
  let ?d = "cv_decoder p"
  have skip: "\<forall>x \<in> set xs. chunk_byte ?d x = (?d, [], Going)" using st 2(3) by (simp add: chunk_byte_def ext_byte.simps)
  note B = sim_byte [OF p 2(2) skip]
  have byte: "chunk_byte ?d c = ext_byte ?d (CHR 0x0A)" using st 2(4) by (simp add: chunk_byte_def)
  show ?thesis
  proof (cases "bytes_left ?d = 0")
    case False
    let ?q = "p\<lparr>cv_src := cv_src p + length xs + 1, cv_decoder := ?d\<lparr>chunk_state := CHUNKED_IN_CHUNK_DATA\<rparr>\<rparr>"
    have q: "decodes n p [] ?q" "unread n ?q = ys"
      "chunk_text ?d (unread n p) = decoded_before [] (chunk_text (cv_decoder ?q) (unread n ?q))"
      using B(1) [OF _ refl, of "?d\<lparr>chunk_state := CHUNKED_IN_CHUNK_DATA\<rparr>"] byte False by (simp_all add: ext_byte.simps)
    have "chunk_inv n ?q" using q(1) by (simp add: decodes_def)
    from in_chunk_data_ok [OF this] False obtain p' e where "in_chunk_data n ?q = Some (p', e)" "chunk_sim n ?q p' e" by auto
    moreover have "length (unread n ?q) \<le> length (unread n p)" using q(2) 2(2) by simp
    ultimately have "in_chunk_data n ?q = Some (p', e) \<and> chunk_sim n p p' e" using chunk_sim_through [OF q(1,3)] by blast
    then show ?thesis using 2(1) False by (auto simp: in_chunk_ext_def Let_def)
  next
    case True
    show ?thesis
    proof (cases "consume_trailer ?d")
      case tr: True
      let ?d' = "?d\<lparr>chunk_state := CHUNKED_IN_TRAILERS_LINE_HEAD\<rparr>"
      let ?q = "p\<lparr>cv_src := cv_src p + length xs + 1, cv_decoder := ?d'\<rparr>"
      have "chunk_byte ?d c = (?d', [], Going)" using byte True tr by (simp add: ext_byte.simps)
      from B(1) [OF this refl] have "chunk_sim n p ?q Loop" using 2(2) by (intro sim_loop) (auto simp: chunk_ok_def)
      then show ?thesis using 2(1) True tr by (simp add: in_chunk_ext_def Let_def)
    next
      case False
      have "chunk_byte ?d c = (?d, [], Finished)" using byte True False st by (simp add: ext_byte.simps)
      from B(2) [OF this] show ?thesis using 2(1) True False by (simp add: in_chunk_ext_def Let_def)
    qed
  qed
qed

lemma in_trailers_middle_ok:
  assumes p: "chunk_inv n p" and st: "chunk_state (cv_decoder p) = CHUNKED_IN_TRAILERS_LINE_MIDDLE"
  shows "\<exists>p' e. in_trailers_middle n p = Some (p', e) \<and> chunk_sim n p p' e"
proof (cases rule: scan_case [OF p, of "\<lambda>c. c = CHR 0x0A"])
  case 1
  then have "\<forall>c \<in> set (unread n p). chunk_byte (cv_decoder p) c = (cv_decoder p, [], Going)" using st by (simp add: chunk_byte_def)
  from sim_end [OF p this] show ?thesis using 1(1) by (simp add: in_trailers_middle_def)
next
  case (2 xs c ys)
  have skip: "\<forall>x \<in> set xs. chunk_byte (cv_decoder p) x = (cv_decoder p, [], Going)" using st 2(3) by (simp add: chunk_byte_def)
  let ?d = "(cv_decoder p)\<lparr>chunk_state := CHUNKED_IN_TRAILERS_LINE_HEAD\<rparr>"
  let ?q = "p\<lparr>cv_src := cv_src p + length xs + 1, cv_decoder := ?d\<rparr>"
  have "chunk_byte (cv_decoder p) c = (?d, [], Going)" using st 2(4) by (simp add: chunk_byte_def)
  from sim_byte(1) [OF p 2(2) skip this refl] have "chunk_sim n p ?q Loop" using 2(2) by (intro sim_loop) (auto simp: chunk_ok_def)
  then show ?thesis using 2(1) by (simp add: in_trailers_middle_def)
qed

lemma in_trailers_head_ok:
  assumes p: "chunk_inv n p" and st: "chunk_state (cv_decoder p) = CHUNKED_IN_TRAILERS_LINE_HEAD"
  shows "\<exists>p' e. in_trailers_head n p = Some (p', e) \<and> chunk_sim n p p' e"
proof (cases rule: scan_case [OF p, of "\<lambda>c. c \<noteq> CHR 0x0D"])
  case 1
  then have "\<forall>c \<in> set (unread n p). chunk_byte (cv_decoder p) c = (cv_decoder p, [], Going)" using st by (simp add: chunk_byte_def)
  from sim_end [OF p this] show ?thesis using 1(1) by (simp add: in_trailers_head_def)
next
  case (2 xs c ys)
  let ?d = "cv_decoder p"
  have skip: "\<forall>x \<in> set xs. chunk_byte ?d x = (?d, [], Going)" using st 2(3) by (simp add: chunk_byte_def)
  show ?thesis
  proof (cases "c = CHR 0x0A")
    case True
    then have "chunk_byte ?d c = (?d, [], Finished)" using st by (simp add: chunk_byte_def)
    from sim_byte(2) [OF p 2(2) skip this] show ?thesis using 2(1,5) True by (simp add: in_trailers_head_def Let_def)
  next
    case False
    let ?q = "p\<lparr>cv_src := cv_src p + length xs + 1, cv_decoder := ?d\<lparr>chunk_state := CHUNKED_IN_TRAILERS_LINE_MIDDLE\<rparr>\<rparr>"
    have q: "decodes n p [] ?q" "unread n ?q = ys"
      "chunk_text ?d (unread n p) = decoded_before [] (chunk_text (cv_decoder ?q) (unread n ?q))"
      using sim_byte(1) [OF p 2(2) skip _ refl, of "?d\<lparr>chunk_state := CHUNKED_IN_TRAILERS_LINE_MIDDLE\<rparr>"] False st 2(4)
      by (simp_all add: chunk_byte_def)
    have "chunk_inv n ?q" using q(1) by (simp add: decodes_def)
    from in_trailers_middle_ok [OF this] obtain p' e where "in_trailers_middle n ?q = Some (p', e)" "chunk_sim n ?q p' e" by auto
    moreover have "length (unread n ?q) \<le> length (unread n p)" using q(2) 2(2) by simp
    ultimately have "in_trailers_middle n ?q = Some (p', e) \<and> chunk_sim n p p' e" using chunk_sim_through [OF q(1,3)] by blast
    then show ?thesis using 2(1,5) False by (auto simp: in_trailers_head_def Let_def)
  qed
qed

lemma size_loop_ok:
  assumes "i \<le> n" "n \<le> length s" "chunk_state d = CHUNKED_IN_CHUNK_SIZE"
  shows "\<exists>d' xs ys r. size_loop n d s i = Some (d', i + length xs, r) \<and> take (n - i) (drop i s) = xs @ ys \<and>
    chunk_text d xs = (d', [], Going, []) \<and> chunk_state d' = CHUNKED_IN_CHUNK_SIZE \<and>
    (case r of
       None \<Rightarrow> \<exists>c zs. ys = c # zs \<and> decode_hex c = -1 \<and> hex_count d' \<noteq> 0
     | Some k \<Rightarrow> k = -2 \<and> ys = [] \<or> k = -1 \<and> (\<exists>c zs. ys = c # zs \<and> chunk_byte d' c = (d', [], Failed)))"
  using assms
proof (induction "n - i" arbitrary: i d)
  case 0
  then show ?case by (intro exI [of _ d] exI [of _ "[]"] exI [of _ "Some (-2)"]) (subst size_loop.simps, simp)
next
  case (Suc k)
  then have i: "i < n" "i < length s" by simp_all
  then have r: "rd s i = Some (s ! i)" by (simp add: rd_def)
  have t: "take (n - i) (drop i s) = s ! i # take (n - (i + 1)) (drop (i + 1) s)"
    using i by (metis Cons_nth_drop_Suc Suc_diff_Suc Suc_eq_plus1 take_Suc_Cons)
  note st = Suc.prems(3)
  consider (none) "decode_hex (s ! i) = -1" "hex_count d = 0" | (other) "decode_hex (s ! i) = -1" "hex_count d \<noteq> 0"
    | (full) "decode_hex (s ! i) \<noteq> -1" "hex_count d = 16" | (digit) "decode_hex (s ! i) \<noteq> -1" "hex_count d \<noteq> 16" by blast
  then show ?case
  proof cases
    case none
    then show ?thesis using i r t st
      by (intro exI [of _ d] exI [of _ "[]"] exI [of _ "take (n - i) (drop i s)"] exI [of _ "Some (-1)"])
        (subst size_loop.simps, simp add: chunk_byte_def)
  next
    case other
    then show ?thesis using i r t st
      by (intro exI [of _ d] exI [of _ "[]"] exI [of _ "take (n - i) (drop i s)"] exI [of _ None])
        (subst size_loop.simps, simp)
  next
    case full
    then show ?thesis using i r t st
      by (intro exI [of _ d] exI [of _ "[]"] exI [of _ "take (n - i) (drop i s)"] exI [of _ "Some (-1)"])
        (subst size_loop.simps, simp add: chunk_byte_def)
  next
    case digit
    let ?d = "d\<lparr>bytes_left := bytes_left d * 16 + word_of_int (decode_hex (s ! i)), hex_count := hex_count d + 1\<rparr>"
    have run: "size_loop n d s i = size_loop n ?d s (i + 1)" using digit i r by (subst size_loop.simps) simp
    have b: "chunk_byte d (s ! i) = (?d, [], Going)" using digit st by (simp add: chunk_byte_def)
    have "k = n - (i + 1)" "i + 1 \<le> n" "chunk_state ?d = CHUNKED_IN_CHUNK_SIZE" using Suc.hyps(2) i st by simp_all
    from Suc.hyps(1) [OF this(1,2) Suc.prems(2) this(3)] obtain d' xs ys q where
      IH: "size_loop n ?d s (i + 1) = Some (d', i + 1 + length xs, q)" "take (n - (i + 1)) (drop (i + 1) s) = xs @ ys"
        "chunk_text ?d xs = (d', [], Going, [])" "chunk_state d' = CHUNKED_IN_CHUNK_SIZE"
        "case q of
           None \<Rightarrow> \<exists>c zs. ys = c # zs \<and> decode_hex c = -1 \<and> hex_count d' \<noteq> 0
         | Some k \<Rightarrow> k = -2 \<and> ys = [] \<or> k = -1 \<and> (\<exists>c zs. ys = c # zs \<and> chunk_byte d' c = (d', [], Failed))" by blast
    have "chunk_text d (s ! i # xs) = (d', [], Going, [])" using b IH(3) by simp
    then show ?thesis using run t IH
      by (intro exI [of _ d'] exI [of _ "s ! i # xs"] exI [of _ ys] exI [of _ q]) simp
  qed
qed

lemma in_chunk_size_ok:
  assumes p: "chunk_inv n p" and st: "chunk_state (cv_decoder p) = CHUNKED_IN_CHUNK_SIZE"
  shows "\<exists>p' e. in_chunk_size n p = Some (p', e) \<and> chunk_sim n p p' e"
proof -
  have "cv_src p \<le> n" "n \<le> length (cv_buf p)" using p by (simp_all add: chunk_inv_def)
  from size_loop_ok [OF this st] obtain d xs ys r where
    l: "size_loop n (cv_decoder p) (cv_buf p) (cv_src p) = Some (d, cv_src p + length xs, r)" "unread n p = xs @ ys"
      "chunk_text (cv_decoder p) xs = (d, [], Going, [])" "chunk_state d = CHUNKED_IN_CHUNK_SIZE"
      "case r of
         None \<Rightarrow> \<exists>c zs. ys = c # zs \<and> decode_hex c = -1 \<and> hex_count d \<noteq> 0
       | Some k \<Rightarrow> k = -2 \<and> ys = [] \<or> k = -1 \<and> (\<exists>c zs. ys = c # zs \<and> chunk_byte d c = (d, [], Failed))"
    unfolding unread_def by blast
  have t: "chunk_text (cv_decoder p) (unread n p) = decoded_before [] (chunk_text d ys)"
    unfolding l(2) chunk_text_append l(3) by (simp add: decoded_before_def)
  show ?thesis
  proof (cases r)
    case (Some k)
    let ?q = "p\<lparr>cv_decoder := d, cv_src := cv_src p + length xs\<rparr>"
    have "decodes n p [] ?q" "unread n ?q = ys" using decodes_skip [OF p l(2), of ?q] by simp_all
    then have "chunk_sim n p ?q (Exit k)" using t l(5) Some by (auto simp: chunk_sim_def decoded_before_def intro!: exI [of _ "[]"])
    then show ?thesis using l(1) Some by (simp add: in_chunk_size_def)
  next
    case None
    then obtain c zs where c: "ys = c # zs" "decode_hex c = -1" "hex_count d \<noteq> 0" using l(5) by auto
    let ?q = "p\<lparr>cv_decoder := d\<lparr>hex_count := 0, chunk_state := CHUNKED_IN_CHUNK_EXT\<rparr>, cv_src := cv_src p + length xs\<rparr>"
    have q: "decodes n p [] ?q" "unread n ?q = ys" using decodes_skip [OF p l(2), of ?q] by simp_all
    have "chunk_byte d c = chunk_byte (cv_decoder ?q) c" using l(4) c(2,3) by (simp add: chunk_byte_def)
    then have t': "chunk_text (cv_decoder p) (unread n p) = decoded_before [] (chunk_text (cv_decoder ?q) (unread n ?q))"
      using t by (simp add: q(2) c(1) del: chunk_text.simps) (simp split: prod.splits chunk_verdict.splits)
    have "chunk_inv n ?q" using q(1) by (simp add: decodes_def)
    from in_chunk_ext_ok [OF this] obtain p' e where "in_chunk_ext n ?q = Some (p', e)" "chunk_sim n ?q p' e" by auto
    moreover have "length (unread n ?q) \<le> length (unread n p)" using q(2) l(2) by simp
    ultimately have "in_chunk_ext n ?q = Some (p', e) \<and> chunk_sim n p p' e" using chunk_sim_through [OF q(1) t'] by blast
    then show ?thesis using l(1) None by (auto simp: in_chunk_size_def)
  qed
qed

lemma chunk_switch_ok:
  assumes "chunk_inv n p" "chunk_ok (cv_decoder p)"
  shows "\<exists>p' e. chunk_switch n p = Some (p', e) \<and> chunk_sim n p p' e"
  using assms in_chunk_size_ok [of n p] in_chunk_ext_ok [of n p] in_chunk_data_ok [of n p] in_chunk_crlf_ok [of n p]
    in_trailers_head_ok [of n p] in_trailers_middle_ok [of n p]
  by (cases "chunk_state (cv_decoder p)") (simp_all add: chunk_switch_def chunk_ok_def)

definition chunk_return :: "chunk_verdict \<Rightarrow> string \<Rightarrow> int" where
  "chunk_return v rest = (case v of Going \<Rightarrow> -2 | Failed \<Rightarrow> -1 | Finished \<Rightarrow> int (length rest))"

lemma chunk_loop_ok:
  "chunk_inv n p \<Longrightarrow> chunk_ok (cv_decoder p) \<Longrightarrow>
   \<exists>p' out v. chunk_loop n p = Some (p', chunk_return v (unread n p')) \<and> decodes n p out p' \<and>
     chunk_text (cv_decoder p) (unread n p) = (cv_decoder p', out, v, unread n p')"
proof (induction "length (unread n p)" arbitrary: p rule: less_induct)
  case less
  from chunk_switch_ok [OF less.prems] obtain q e where q: "chunk_switch n p = Some (q, e)" "chunk_sim n p q e" by blast
  then obtain out where out: "decodes n p out q"
    "case e of
       Loop \<Rightarrow> chunk_ok (cv_decoder q) \<and> length (unread n q) < length (unread n p) \<and>
         chunk_text (cv_decoder p) (unread n p) = decoded_before out (chunk_text (cv_decoder q) (unread n q))
     | Exit r \<Rightarrow> r = -2 \<and> chunk_text (cv_decoder p) (unread n p) = (cv_decoder q, out, Going, unread n q) \<or>
         r = -1 \<and> chunk_text (cv_decoder p) (unread n p) = (cv_decoder q, out, Failed, unread n q)
     | Complete \<Rightarrow> chunk_text (cv_decoder p) (unread n p) = (cv_decoder q, out, Finished, unread n q)"
    unfolding chunk_sim_def Let_def by blast
  have inv: "chunk_inv n q" using out(1) by (simp add: decodes_def)
  show ?case
  proof (cases e)
    case Loop
    then have run: "chunk_loop n p = chunk_loop n q" using q(1) by (subst chunk_loop.simps) simp
    from out(2) Loop have "chunk_ok (cv_decoder q)" "length (unread n q) < length (unread n p)" by simp_all
    from less.hyps [OF this(2) inv this(1)] obtain p' out' v where
      "chunk_loop n q = Some (p', chunk_return v (unread n p'))" "decodes n q out' p'"
      "chunk_text (cv_decoder q) (unread n q) = (cv_decoder p', out', v, unread n p')" by blast
    then show ?thesis using run out(2) Loop decodes_trans [OF out(1)]
      by (intro exI [of _ p'] exI [of _ "out @ out'"] exI [of _ v]) (simp add: decoded_before_def)
  next
    case (Exit r)
    then have "chunk_loop n p = Some (q, r)" using q(1) by (subst chunk_loop.simps) simp
    then show ?thesis using out Exit
      by (intro exI [of _ q] exI [of _ out] exI [of _ "if r = -2 then Going else Failed"]) (auto simp: chunk_return_def)
  next
    case Complete
    then have "chunk_loop n p = Some (q, int (n - cv_src q))" using q(1) by (subst chunk_loop.simps) simp
    then show ?thesis using out Complete unread_length [OF inv]
      by (intro exI [of _ q] exI [of _ out] exI [of _ Finished]) (simp add: chunk_return_def)
  qed
qed

lemma phr_decode_chunked_ok:
  assumes d: "chunk_ok d" and n: "n \<le> length buf" and t: "chunk_text d (take n buf) = (d', out, v, rest)"
  shows "\<exists>buf'. phr_decode_chunked d buf n = Some (chunk_return v rest, d', buf', length out) \<and>
    length buf' = length buf \<and> take (length out + length rest) buf' = out @ rest"
proof -
  let ?p = "\<lparr>cv_decoder = d, cv_buf = buf, cv_dst = 0, cv_src = 0\<rparr>"
  have "chunk_inv n ?p" "unread n ?p = take n buf" using n by (simp_all add: chunk_inv_def unread_def)
  with chunk_loop_ok [of n ?p] d t obtain q where
    q: "chunk_loop n ?p = Some (q, chunk_return v (unread n q))" "decodes n ?p out q" "cv_decoder q = d'" "unread n q = rest"
    by auto
  have inv: "chunk_inv n q" "take (length out) (cv_buf q) = out" "cv_dst q = length out" "length (cv_buf q) = length buf"
    using q(2) by (auto simp: decodes_def)
  obtain buf' where b: "chunk_move (n - cv_src q) q = Some buf'" "length buf' = length buf"
    "take (cv_dst q + (n - cv_src q)) buf' = take (cv_dst q) (cv_buf q) @ unread n q"
    using chunk_move_ok [OF inv(1), of "n - cv_src q"] inv(4) by (auto simp: unread_def)
  have "n - cv_src q = length rest" using unread_length [OF inv(1)] q(4) by simp
  then show ?thesis using q b inv by (auto simp: phr_decode_chunked_def)
qed

text \<open>
  C17. The decoder of the chunked encoding is equivalent to the automaton that reads one
  byte after the other, in every state it can be called in: it returns for every input, reads and
  writes only inside of the buffer, leaves the decoded bytes at its front and their number in \<open>*bufsz\<close>, moves the
  bytes it has not read behind them, and returns -2 when the input ends too early, -1 when it is
  malformed, and else the number of bytes behind the encoded text.
\<close>

theorem phr_decode_chunked_automaton:
  assumes "chunk_ok d" "n \<le> length buf"
  shows "case chunk_text d (take n buf) of (d', out, v, rest) \<Rightarrow>
    \<exists>buf'. phr_decode_chunked d buf n = Some (chunk_return v rest, d', buf', length out) \<and>
      length buf' = length buf \<and> take (length out + length rest) buf' = out @ rest"
  using phr_decode_chunked_ok [OF assms] by (auto split: prod.splits)

definition zero_decoder :: "bool \<Rightarrow> phr_chunked_decoder" where
  "zero_decoder trailer = \<lparr>bytes_left = 0, consume_trailer = trailer, hex_count = 0, chunk_state = CHUNKED_IN_CHUNK_SIZE\<rparr>"

theorem phr_decode_chunked_automaton_witness:
  "\<exists>d' buf'. phr_decode_chunked (zero_decoder False) (''3'' @ [CHR 0x0A] @ ''abc'' @ [CHR 0x0A] @ ''0'' @ [CHR 0x0A] @ ''xy'') 10 =
    Some (2, d', buf', 3) \<and> take 5 buf' = ''abcxy''"
proof -
  let ?buf = "''3'' @ [CHR 0x0A] @ ''abc'' @ [CHR 0x0A] @ ''0'' @ [CHR 0x0A] @ ''xy''"
  let ?t = "chunk_text (zero_decoder False) (take 10 ?buf)"
  have ok: "chunk_ok (zero_decoder False)" "10 \<le> length ?buf" by (simp_all add: chunk_ok_def zero_decoder_def)
  have "snd ?t = (''abc'', Finished, ''xy'')" by code_simp
  then obtain d' where t: "?t = (d', ''abc'', Finished, ''xy'')" by (metis prod.collapse)
  from phr_decode_chunked_automaton [OF ok, unfolded t prod.case] obtain buf' where
    "phr_decode_chunked (zero_decoder False) ?buf 10 = Some (chunk_return Finished ''xy'', d', buf', length ''abc'')"
    "take (length ''abc'' + length ''xy'') buf' = ''abc'' @ ''xy''" by blast
  then show ?thesis by (intro exI [of _ d'] exI [of _ buf']) (simp add: chunk_return_def eval_nat_numeral)
qed

section \<open>Encoded texts\<close>

lemma chunk_byte_ok: "chunk_ok d \<Longrightarrow> chunk_byte d c = (d', out, v) \<Longrightarrow> chunk_ok d'"
  by (cases "chunk_state d") (auto simp: chunk_ok_def chunk_byte_def ext_byte.simps split: if_splits)

lemma chunk_text_ok: "chunk_ok d \<Longrightarrow> chunk_text d xs = (d', out, v, rest) \<Longrightarrow> chunk_ok d'"
proof (induction xs arbitrary: d out)
  case (Cons c xs)
  then show ?case using chunk_byte_ok [of d c] by (auto split: prod.splits chunk_verdict.splits)
qed simp

text \<open>The encoder: the size of a chunk in hexadecimal, an extension, the chunk; an empty chunk and the trailer at the end.\<close>

definition hex_char :: "nat \<Rightarrow> char" where
  "hex_char v = char_of (if v < 10 then 48 + v else 87 + v)"

fun hex_text :: "nat \<Rightarrow> string" where
  "hex_text n = (if n < 16 then [hex_char n] else hex_text (n div 16) @ [hex_char (n mod 16)])"

declare hex_text.simps [simp del]

definition crlf2 :: string where "crlf2 = [CHR 0x0D, CHR 0x0A]"

definition chunk_encoding :: "string \<times> string \<Rightarrow> string" where
  "chunk_encoding c = hex_text (length (snd c)) @ fst c @ crlf2 @ snd c @ crlf2"

text \<open>An extension has no line feed and does not continue the number.\<close>

definition plain_extension :: "string \<Rightarrow> bool" where
  "plain_extension xs \<longleftrightarrow> CHR 0x0A \<notin> set xs \<and> (xs = [] \<or> decode_hex (hd xs) = -1)"

definition plain_chunk :: "string \<times> string \<Rightarrow> bool" where
  "plain_chunk c \<longleftrightarrow> plain_extension (fst c) \<and> snd c \<noteq> [] \<and> length (snd c) < 2 ^ 64"

definition trailer_line :: "string \<Rightarrow> bool" where
  "trailer_line l \<longleftrightarrow> l \<noteq> [] \<and> hd l \<noteq> CHR 0x0D \<and> CHR 0x0A \<notin> set l"

definition body_encoding :: "(string \<times> string) list \<Rightarrow> string \<Rightarrow> string list option \<Rightarrow> string" where
  "body_encoding cs ext trailer = concat (map chunk_encoding cs) @ ''0'' @ ext @ crlf2 @
     (case trailer of None \<Rightarrow> [] | Some ls \<Rightarrow> concat (map (\<lambda>l. l @ crlf2) ls) @ crlf2)"

lemma decode_hex_char: "v < 16 \<Longrightarrow> decode_hex (hex_char v) = int v"
proof -
  have "\<forall>v \<in> set [0..<16]. decode_hex (hex_char v) = int v" by code_simp
  then show "v < 16 \<Longrightarrow> decode_hex (hex_char v) = int v" by simp
qed

lemma hex_text_decoded:
  assumes "chunk_state d = CHUNKED_IN_CHUNK_SIZE" "bytes_left d = 0" "hex_count d = 0" "n < 16 ^ k" "0 < k" "k \<le> 16"
  shows "chunk_text d (hex_text n) = (d\<lparr>bytes_left := word_of_nat n, hex_count := length (hex_text n)\<rparr>, [], Going, []) \<and>
    0 < length (hex_text n) \<and> length (hex_text n) \<le> k"
  using assms(4-6)
proof (induction k arbitrary: n)
  case (Suc k)
  show ?case
  proof (cases "n < 16")
    case True
    then show ?thesis using assms(1-3) decode_hex_char [of n]
      by (simp add: hex_text.simps [of n] chunk_byte_def)
  next
    case False
    have "0 < k"
    proof (rule ccontr)
      assume "\<not> 0 < k"
      then show False using Suc.prems(1) False by simp
    qed
    moreover have "n div 16 < 16 ^ k" using Suc.prems(1) by (simp add: less_mult_imp_div_less mult.commute)
    ultimately have IH: "chunk_text d (hex_text (n div 16)) =
        (d\<lparr>bytes_left := word_of_nat (n div 16), hex_count := length (hex_text (n div 16))\<rparr>, [], Going, [])"
      "0 < length (hex_text (n div 16))" "length (hex_text (n div 16)) \<le> k"
      using Suc.IH [of "n div 16"] Suc.prems(3) by simp_all
    have "word_of_nat (n div 16) * 16 + word_of_nat (n mod 16) = (word_of_nat (n div 16 * 16 + n mod 16) :: u64)"
      by (simp only: of_nat_add of_nat_mult of_nat_numeral)
    then have v: "word_of_nat (n div 16) * 16 + word_of_nat (n mod 16) = (word_of_nat n :: u64)" by simp
    have "length (hex_text (n div 16)) \<noteq> 16" using IH(3) Suc.prems(3) by simp
    then show ?thesis
      using IH False assms(1) decode_hex_char [of "n mod 16"] v
      by (simp add: hex_text.simps [of n] chunk_text_append chunk_byte_def)
  qed
qed simp

text \<open>Behind the digits, at the end of a line.\<close>

lemma size_line_decoded:
  assumes "chunk_state d = CHUNKED_IN_CHUNK_SIZE" "hex_count d \<noteq> 0" "plain_extension xs"
  shows "chunk_text d (xs @ crlf2 @ ys) = (case ext_byte (d\<lparr>hex_count := 0\<rparr>) (CHR 0x0A) of
     (e, out, Going) \<Rightarrow> (case chunk_text e ys of (e', out', v, rest) \<Rightarrow> (e', out @ out', v, rest))
   | (e, out, Failed) \<Rightarrow> (e, out, Failed, CHR 0x0A # ys)
   | (e, out, Finished) \<Rightarrow> (e, out, Finished, ys))"
proof -
  let ?e = "d\<lparr>hex_count := 0, chunk_state := CHUNKED_IN_CHUNK_EXT\<rparr>"
  have cr: "decode_hex (CHR 0x0D) = -1" by (simp add: decode_hex_def)
  obtain c zs where c: "xs @ [CHR 0x0D] = c # zs" "decode_hex c = -1" "c \<noteq> CHR 0x0A" "\<forall>z \<in> set zs. z \<noteq> CHR 0x0A"
    using assms(3) cr by (cases xs) (auto simp: plain_extension_def)
  have b: "chunk_byte d c = (?e, [], Going)" using assms(1,2) c(2,3) by (simp add: chunk_byte_def ext_byte.simps)
  have "\<forall>z \<in> set zs. chunk_byte ?e z = (?e, [], Going)" using c(4) by (simp add: chunk_byte_def ext_byte.simps)
  from chunk_text_skip [OF this] b have skip: "chunk_text d (xs @ [CHR 0x0D]) = (?e, [], Going, [])" by (simp add: c(1))
  have "xs @ crlf2 @ ys = (xs @ [CHR 0x0D]) @ CHR 0x0A # ys" by (simp add: crlf2_def)
  then show ?thesis
    unfolding \<open>xs @ crlf2 @ ys = _\<close> chunk_text_append [of d "xs @ [CHR 0x0D]" "CHR 0x0A # ys"] skip
    by (auto simp: chunk_byte_def split: prod.splits chunk_verdict.splits)
qed

lemma chunk_decoded:
  assumes d: "chunk_state d = CHUNKED_IN_CHUNK_SIZE" "bytes_left d = 0" "hex_count d = 0" and c: "plain_chunk c"
  shows "chunk_text d (chunk_encoding c @ ys) = decoded_before (snd c) (chunk_text d ys)"
proof -
  have n: "length (snd c) < 16 ^ 16" "0 < length (snd c)" "length (snd c) < 18446744073709551616" using c by (simp_all add: plain_chunk_def)
  from hex_text_decoded [OF d n(1)] have h: "chunk_text d (hex_text (length (snd c))) =
      (d\<lparr>bytes_left := word_of_nat (length (snd c)), hex_count := length (hex_text (length (snd c)))\<rparr>, [], Going, [])"
    "hex_text (length (snd c)) \<noteq> []" by simp_all
  have nz: "word_of_nat (length (snd c)) \<noteq> (0 :: u64)" "unat (word_of_nat (length (snd c)) :: u64) = length (snd c)"
    using n unat_of_nat_64 [OF n(3)] by (auto simp: word_unat_eq_iff)
  let ?e = "d\<lparr>bytes_left := word_of_nat (length (snd c)), hex_count := 0, chunk_state := CHUNKED_IN_CHUNK_DATA\<rparr>"
  let ?f = "d\<lparr>bytes_left := 0, hex_count := 0, chunk_state := CHUNKED_IN_CHUNK_CRLF\<rparr>"
  have e: "chunk_text ?e (snd c) = (?f, snd c, Going, [])" using data_text [of ?e "snd c"] nz by simp
  have f: "chunk_text ?f crlf2 = (d, [], Going, [])" using d by (cases d) (simp add: crlf2_def chunk_byte_def)
  have f2: "chunk_text ?f (crlf2 @ ys) = chunk_text d ys"
    unfolding chunk_text_append [of ?f crlf2 ys] f by (simp split: prod.splits)
  have g: "chunk_text ?e (snd c @ crlf2 @ ys) = decoded_before (snd c) (chunk_text d ys)"
    unfolding chunk_text_append [of ?e "snd c" "crlf2 @ ys"] e by (simp add: decoded_before_def f2 split: prod.splits)
  have "chunk_text d (chunk_encoding c @ ys) = chunk_text d (hex_text (length (snd c)) @ fst c @ crlf2 @ snd c @ crlf2 @ ys)"
    by (simp add: chunk_encoding_def)
  also have "\<dots> = decoded_before [] (chunk_text (d\<lparr>bytes_left := word_of_nat (length (snd c)), hex_count := length (hex_text (length (snd c)))\<rparr>)
      (fst c @ crlf2 @ snd c @ crlf2 @ ys))"
    unfolding chunk_text_append [of d "hex_text (length (snd c))"] h(1) by (simp add: decoded_before_def)
  also have "\<dots> = decoded_before [] (chunk_text ?e (snd c @ crlf2 @ ys))"
    using size_line_decoded [of "d\<lparr>bytes_left := word_of_nat (length (snd c)), hex_count := length (hex_text (length (snd c)))\<rparr>" "fst c"
        "snd c @ crlf2 @ ys"] d(1) h(2) c nz(1)
    by (simp add: plain_chunk_def ext_byte.simps decoded_before_def split: prod.splits)
  finally show ?thesis using g by (simp add: decoded_before_twice)
qed

lemma chunks_decoded:
  assumes d: "chunk_state d = CHUNKED_IN_CHUNK_SIZE" "bytes_left d = 0" "hex_count d = 0"
  shows "\<forall>c \<in> set cs. plain_chunk c \<Longrightarrow>
    chunk_text d (concat (map chunk_encoding cs) @ ys) = decoded_before (concat (map snd cs)) (chunk_text d ys)"
proof (induction cs)
  case (Cons c cs)
  then show ?case using chunk_decoded [OF d, of c "concat (map chunk_encoding cs) @ ys"] by (simp add: decoded_before_twice)
qed (simp add: decoded_before_def)

lemma trailers_decoded:
  assumes d: "chunk_state d = CHUNKED_IN_TRAILERS_LINE_HEAD"
  shows "\<forall>l \<in> set ls. trailer_line l \<Longrightarrow>
    chunk_text d (concat (map (\<lambda>l. l @ crlf2) ls) @ crlf2 @ ys) = (d, [], Finished, ys)"
proof (induction ls)
  case Nil
  then show ?case using d by (simp add: crlf2_def chunk_byte_def)
next
  case (Cons l ls)
  let ?m = "d\<lparr>chunk_state := CHUNKED_IN_TRAILERS_LINE_MIDDLE\<rparr>"
  obtain c l' where l: "l = c # l'" "c \<noteq> CHR 0x0D" "c \<noteq> CHR 0x0A" "\<forall>x \<in> set (l' @ [CHR 0x0D]). x \<noteq> CHR 0x0A"
    using Cons.prems by (cases l) (auto simp: trailer_line_def)
  have "\<forall>x \<in> set (l' @ [CHR 0x0D]). chunk_byte ?m x = (?m, [], Going)" using l(4) by (simp add: chunk_byte_def)
  from chunk_text_skip [OF this] have "chunk_text ?m (l' @ [CHR 0x0D]) = (?m, [], Going, [])" .
  then have line: "chunk_text d (l @ [CHR 0x0D]) = (?m, [], Going, [])" using l(1-3) d by (simp add: chunk_byte_def)
  have "chunk_byte ?m (CHR 0x0A) = (d, [], Going)" using d by (cases d) (simp add: chunk_byte_def)
  then have "chunk_text ?m (CHR 0x0A # zs) = chunk_text d zs" for zs by (simp split: prod.splits)
  then have "chunk_text d ((l @ [CHR 0x0D]) @ CHR 0x0A # zs) = chunk_text d zs" for zs
    unfolding chunk_text_append [of d "l @ [CHR 0x0D]"] line by (simp split: prod.splits)
  then show ?case using Cons by (simp add: crlf2_def)
qed

lemma body_decoded:
  assumes cs: "\<forall>c \<in> set cs. plain_chunk c" and ext: "plain_extension ext" and ls: "\<forall>ls l. trailer = Some ls \<and> l \<in> set ls \<longrightarrow> trailer_line l"
  shows "\<exists>d'. chunk_text (zero_decoder (trailer \<noteq> None)) (body_encoding cs ext trailer) = (d', concat (map snd cs), Finished, [])"
proof -
  let ?d = "zero_decoder (trailer \<noteq> None)"
  have d: "chunk_state ?d = CHUNKED_IN_CHUNK_SIZE" "bytes_left ?d = 0" "hex_count ?d = 0" "consume_trailer ?d = (trailer \<noteq> None)"
    by (simp_all add: zero_decoder_def)
  let ?e = "?d\<lparr>bytes_left := 0, hex_count := 1\<rparr>"
  have "decode_hex (CHR ''0'') = 0" by code_simp
  then have zero: "chunk_text ?d (CHR ''0'' # ys) = chunk_text ?e ys" for ys
    using d by (simp add: chunk_byte_def split: prod.splits)
  have "\<exists>d'. chunk_text ?e (ext @ crlf2 @ (case trailer of None \<Rightarrow> [] | Some ls \<Rightarrow> concat (map (\<lambda>l. l @ crlf2) ls) @ crlf2)) =
    (d', [], Finished, [])"
  proof (cases trailer)
    case None
    then show ?thesis using size_line_decoded [of ?e ext "[]"] ext d by (simp add: ext_byte.simps)
  next
    case (Some ls')
    let ?h = "?e\<lparr>hex_count := 0, chunk_state := CHUNKED_IN_TRAILERS_LINE_HEAD\<rparr>"
    have "chunk_text ?h (concat (map (\<lambda>l. l @ crlf2) ls') @ crlf2 @ []) = (?h, [], Finished, [])"
      using ls Some by (intro trailers_decoded) auto
    then show ?thesis
      using size_line_decoded [of ?e ext "concat (map (\<lambda>l. l @ crlf2) ls') @ crlf2"] ext d Some
      by (simp add: ext_byte.simps)
  qed
  then obtain d' where "chunk_text ?e (ext @ crlf2 @ (case trailer of None \<Rightarrow> [] | Some ls \<Rightarrow> concat (map (\<lambda>l. l @ crlf2) ls) @ crlf2)) =
    (d', [], Finished, [])" by blast
  then show ?thesis
    using chunks_decoded [OF d(1-3) cs] zero by (simp add: body_encoding_def decoded_before_def)
qed

text \<open>A caller that hands over the text piece by piece, as it arrives, until the decoder has finished.\<close>

primrec decode_pieces :: "phr_chunked_decoder \<Rightarrow> string list \<Rightarrow> (int \<times> phr_chunked_decoder \<times> string) option" where
  "decode_pieces d [] = Some (-2, d, [])"
| "decode_pieces d (xs # xss) = do {
     (ret, d, buf, m) \<leftarrow> phr_decode_chunked d xs (length xs);
     (if ret = -2 then do { (ret, d, out) \<leftarrow> decode_pieces d xss; Some (ret, d, take m buf @ out) }
      else Some (ret, d, take m buf)) }"

lemma decode_pieces_ok:
  "chunk_ok d \<Longrightarrow> chunk_text d (concat xss) = (d', out, v, rest) \<Longrightarrow>
   \<exists>r s. decode_pieces d xss = Some (chunk_return v r, d', out) \<and> rest = r @ s"
proof (induction xss arbitrary: d out)
  case Nil
  then show ?case by (simp add: chunk_return_def)
next
  case (Cons xs xss)
  obtain e o1 v1 r1 where t: "chunk_text d xs = (e, o1, v1, r1)" by (cases "chunk_text d xs")
  from phr_decode_chunked_ok [OF Cons.prems(1) order_refl, of xs] t obtain buf where
    buf: "phr_decode_chunked d xs (length xs) = Some (chunk_return v1 r1, e, buf, length o1)"
      "take (length o1 + length r1) buf = o1 @ r1" by auto
  have m: "take (length o1) buf = o1" using arg_cong [OF buf(2), of "take (length o1)"] by (simp add: min_def)
  show ?case
  proof (cases "v1 = Going")
    case True
    then have "r1 = []" using chunk_text_going t by blast
    obtain o2 where o2: "chunk_text e (concat xss) = (d', o2, v, rest)" "out = o1 @ o2"
      using Cons.prems(2) t True unfolding concat.simps chunk_text_append by (auto split: prod.splits)
    from Cons.IH [OF chunk_text_ok [OF Cons.prems(1) t] o2(1)] obtain r s where
      "decode_pieces e xss = Some (chunk_return v r, d', o2)" "rest = r @ s" by blast
    then show ?thesis using buf(1) m o2(2) True by (auto simp: chunk_return_def)
  next
    case False
    then have f: "e = d'" "o1 = out" "v1 = v" "rest = r1 @ concat xss"
      using Cons.prems(2) t unfolding concat.simps chunk_text_append by (cases v1; simp)+
    have "chunk_return v r1 \<noteq> -2" using False f(3) by (cases v) (simp_all add: chunk_return_def)
    then show ?thesis using buf(1) m f by (intro exI [of _ r1] exI [of _ "concat xss"]) simp
  qed
qed

text \<open>
  C18. Round trip: a body in the chunked encoding, with any chunks, extensions and trailer
  lines, is decoded exactly, in whatever pieces the text arrives: the pieces decode to the
  bodies of the chunks one behind the other, the decoder reports the end behind the last byte of the encoding
  and not earlier.
\<close>

theorem chunked_round_trip:
  assumes "\<forall>c \<in> set cs. plain_chunk c" "plain_extension ext" "\<forall>ls l. trailer = Some ls \<and> l \<in> set ls \<longrightarrow> trailer_line l"
    and "concat xss = body_encoding cs ext trailer"
  shows "\<exists>d. decode_pieces (zero_decoder (trailer \<noteq> None)) xss = Some (0, d, concat (map snd cs))"
proof -
  obtain d' where d': "chunk_text (zero_decoder (trailer \<noteq> None)) (concat xss) = (d', concat (map snd cs), Finished, [])"
    using body_decoded [OF assms(1-3)] assms(4) by auto
  have "chunk_ok (zero_decoder (trailer \<noteq> None))" by (simp add: chunk_ok_def zero_decoder_def)
  from decode_pieces_ok [OF this d'] show ?thesis by (auto simp: chunk_return_def)
qed

theorem chunked_round_trip_witness:
  "\<exists>d. decode_pieces (zero_decoder True) [''5;a=b'' @ crlf2 @ ''he'', ''llo'' @ crlf2 @ ''1'' @ crlf2, ''!'' @ crlf2 @ ''0'' @ crlf2 @ ''X: y'', crlf2 @ crlf2] =
    Some (0, d, ''hello!'')"
proof -
  let ?cs = "[('';a=b'', ''hello''), ([], ''!'')]"
  let ?xss = "[''5;a=b'' @ crlf2 @ ''he'', ''llo'' @ crlf2 @ ''1'' @ crlf2, ''!'' @ crlf2 @ ''0'' @ crlf2 @ ''X: y'', crlf2 @ crlf2]"
  have "\<forall>c \<in> set ?cs. plain_chunk c" by (simp add: plain_chunk_def plain_extension_def decode_hex_def)
  moreover have "concat ?xss = body_encoding ?cs [] (Some [''X: y''])"
    by (simp add: body_encoding_def chunk_encoding_def hex_text.simps hex_char_def) code_simp
  ultimately show ?thesis
    using chunked_round_trip [of ?cs "[]" "Some [''X: y'']" ?xss] by (simp add: plain_extension_def trailer_line_def)
qed

end
