(* ===== verification/Core.thy ===== *)
theory Core
  imports Prelude
begin

text \<open>
  \<^verbatim>\<open>src/reactor/core.c\<close>: the event loop. A handler is known by its address, of type \<^typ>\<open>'p\<close>;
  the address of the default handler is \<^term>\<open>None\<close>. The state is the record \<open>reactor_core\<close>
  together with the array of reported events and the interest list that the kernel keeps for
  the epoll descriptor. What \<open>epoll_wait\<close> reports is an argument, and so is what a callback
  does to the state: components that have handlers extend the record. \<open>close\<close> and \<open>signal\<close>
  succeed. A failed assertion, or a handler read at an address where there is none, is
  \<^term>\<open>None\<close>.
\<close>

section \<open>Handlers\<close>

text \<open>The callback \<^term>\<open>None\<close> is \<open>reactor_handler_default_callback\<close>, which does nothing.\<close>

record 'c handler =
  h_callback :: "'c option"
  h_state :: nat

record reactor_event =
  re_type :: nat
  re_state :: nat
  re_data :: nat

definition reactor_handler_default :: "'c handler" where
  "reactor_handler_default = \<lparr>h_callback = None, h_state = 0\<rparr>"

definition reactor_handler_construct :: "'c option \<Rightarrow> nat \<Rightarrow> 'c handler" where
  "reactor_handler_construct callback state =
     (if callback \<noteq> None then \<lparr>h_callback = callback, h_state = state\<rparr> else reactor_handler_default)"

definition reactor_handler_destruct :: "'c handler \<Rightarrow> 'c handler" where
  "reactor_handler_destruct handler = reactor_handler_default"

definition reactor_dispatch ::
    "('c \<Rightarrow> reactor_event \<Rightarrow> 'w \<Rightarrow> 'w option) \<Rightarrow> 'c handler \<Rightarrow> nat \<Rightarrow> nat \<Rightarrow> 'w \<Rightarrow> 'w option" where
  "reactor_dispatch call handler type data w =
     (case h_callback handler of
        None \<Rightarrow> Some w
      | Some c \<Rightarrow> call c \<lparr>re_type = type, re_state = h_state handler, re_data = data\<rparr> w)"

section \<open>The reactor\<close>

record 'p epoll_event =
  ev_events :: u32
  ev_ptr :: "'p option"

record 'p reactor =
  rc_epoll_fd :: int
  rc_active :: bool
  rc_descriptors :: u64
  rc_time :: u64
  rc_event :: nat
  rc_event_end :: nat
  rc_batch :: "'p epoll_event list"
  rc_interest :: "int \<rightharpoonup> u32 \<times> 'p"

definition REACTOR_EPOLL_EVENT :: nat where "REACTOR_EPOLL_EVENT = 0"
definition REACTOR_MAX_EVENTS :: nat where "REACTOR_MAX_EVENTS = 32"

definition reactor_construct :: "int \<Rightarrow> 'p reactor option" where
  "reactor_construct epoll_fd =
     (if epoll_fd \<noteq> -1
      then Some \<lparr>rc_epoll_fd = epoll_fd, rc_active = True, rc_descriptors = 0, rc_time = 0, rc_event = 0,
                 rc_event_end = 0, rc_batch = [], rc_interest = Map.empty\<rparr>
      else None)"

text \<open>\<open>e\<close> is the answer of \<open>close\<close> on the epoll descriptor.\<close>

definition reactor_destruct :: "int \<Rightarrow> ('p, 'z) reactor_scheme \<Rightarrow> ('p, 'z) reactor_scheme option" where
  "reactor_destruct e w = (if e = 0 then Some w else None)"

text \<open>The seconds and nanoseconds are what \<open>clock_gettime\<close> answers.\<close>

definition reactor_now :: "u64 \<Rightarrow> u64 \<Rightarrow> ('p, 'z) reactor_scheme \<Rightarrow> u64 \<times> ('p, 'z) reactor_scheme" where
  "reactor_now sec nsec w =
     (let w = (if rc_time w = 0 then w\<lparr>rc_time := sec * 1000000000 + nsec\<rparr> else w) in (rc_time w, w))"

definition reactor_add :: "'p \<Rightarrow> int \<Rightarrow> u32 \<Rightarrow> ('p, 'z) reactor_scheme \<Rightarrow> ('p, 'z) reactor_scheme option" where
  "reactor_add handler fd events w =
     (let w = w\<lparr>rc_descriptors := rc_descriptors w + 1\<rparr> in
      if 0 \<le> fd \<and> rc_interest w fd = None
      then Some (w\<lparr>rc_interest := (rc_interest w)(fd \<mapsto> (events, handler))\<rparr>) else None)"

definition reactor_modify :: "'p \<Rightarrow> int \<Rightarrow> u32 \<Rightarrow> ('p, 'z) reactor_scheme \<Rightarrow> ('p, 'z) reactor_scheme option" where
  "reactor_modify handler fd events w =
     (if rc_interest w fd \<noteq> None
      then Some (w\<lparr>rc_interest := (rc_interest w)(fd \<mapsto> (events, handler))\<rparr>) else None)"

text \<open>\<open>reactor_delete\<close> first takes the pending events of the handler out of the array.\<close>

definition blank_event :: "'p epoll_event" where
  "blank_event = \<lparr>ev_events = 0, ev_ptr = None\<rparr>"

definition blank_pending :: "'p \<Rightarrow> ('p, 'z) reactor_scheme \<Rightarrow> 'p epoll_event list" where
  "blank_pending handler w = take (rc_event w) (rc_batch w) @
     map (\<lambda>e. if ev_ptr e = Some handler then blank_event else e)
       (drop (rc_event w) (take (rc_event_end w) (rc_batch w))) @
     drop (max (rc_event w) (rc_event_end w)) (rc_batch w)"

definition reactor_delete :: "'p \<Rightarrow> int \<Rightarrow> ('p, 'z) reactor_scheme \<Rightarrow> ('p, 'z) reactor_scheme option" where
  "reactor_delete handler fd w =
     (let w = w\<lparr>rc_batch := blank_pending handler w\<rparr> in
      if rc_interest w fd \<noteq> None
      then Some (w\<lparr>rc_interest := (rc_interest w)(fd := None), rc_descriptors := rc_descriptors w - 1\<rparr>)
      else None)"

definition reactor_abort :: "('p, 'z) reactor_scheme \<Rightarrow> ('p, 'z) reactor_scheme" where
  "reactor_abort w = w\<lparr>rc_active := False\<rparr>"

definition reactor_signal :: "('p, 'z) reactor_scheme \<Rightarrow> ('p, 'z) reactor_scheme" where
  "reactor_signal w = reactor_abort w"

section \<open>The loop\<close>

text \<open>
  \<open>deref\<close> reads the handler at an address and \<open>call\<close> runs a callback. The \<open>data\<close> of a
  dispatched event is the position of the reported event in the array.
\<close>

definition handler_at :: "(('p, 'z) reactor_scheme \<Rightarrow> 'p \<Rightarrow> 'c handler option) \<Rightarrow> ('p, 'z) reactor_scheme
    \<Rightarrow> 'p option \<Rightarrow> 'c handler option" where
  "handler_at deref w ptr = (case ptr of None \<Rightarrow> Some reactor_handler_default | Some a \<Rightarrow> deref w a)"

definition event_at :: "('p, 'z) reactor_scheme \<Rightarrow> nat \<Rightarrow> 'p epoll_event option" where
  "event_at w i = (if i < length (rc_batch w) then Some (rc_batch w ! i) else None)"

partial_function (option) batch_loop ::
    "('c \<Rightarrow> reactor_event \<Rightarrow> ('p, 'z) reactor_scheme \<Rightarrow> ('p, 'z) reactor_scheme option)
     \<Rightarrow> (('p, 'z) reactor_scheme \<Rightarrow> 'p \<Rightarrow> 'c handler option)
     \<Rightarrow> ('p, 'z) reactor_scheme \<Rightarrow> ('p, 'z) reactor_scheme option" where
  "batch_loop call deref w =
     (if rc_event w < rc_event_end w then do {
        e \<leftarrow> event_at w (rc_event w);
        h \<leftarrow> handler_at deref w (ev_ptr e);
        w \<leftarrow> reactor_dispatch call h REACTOR_EPOLL_EVENT (rc_event w) w;
        batch_loop call deref (w\<lparr>rc_event := rc_event w + 1\<rparr>) }
      else Some w)"

text \<open>The answer of \<open>epoll_wait\<close>: interrupted by a signal, another error, or the reported events.\<close>

datatype 'p epoll_result = Interrupted | Failed | Ready "(u32 \<times> 'p) list"

definition reactor_loop_once ::
    "('c \<Rightarrow> reactor_event \<Rightarrow> ('p, 'z) reactor_scheme \<Rightarrow> ('p, 'z) reactor_scheme option)
     \<Rightarrow> (('p, 'z) reactor_scheme \<Rightarrow> 'p \<Rightarrow> 'c handler option) \<Rightarrow> 'p epoll_result
     \<Rightarrow> ('p, 'z) reactor_scheme \<Rightarrow> ('p, 'z) reactor_scheme option" where
  "reactor_loop_once call deref result w =
     (let w = w\<lparr>rc_time := 0\<rparr> in
      case result of
        Interrupted \<Rightarrow> Some w
      | Failed \<Rightarrow> None
      | Ready events \<Rightarrow>
          if length events \<le> REACTOR_MAX_EVENTS
          then batch_loop call deref
            (w\<lparr>rc_event := 0, rc_event_end := length events,
               rc_batch := map (\<lambda>(m, a). \<lparr>ev_events = m, ev_ptr = Some a\<rparr>) events\<rparr>)
          else None)"

text \<open>\<open>wait k\<close> is the answer of the \<open>k\<close>th call of \<open>epoll_wait\<close>.\<close>

partial_function (option) reactor_loop ::
    "('c \<Rightarrow> reactor_event \<Rightarrow> ('p, 'z) reactor_scheme \<Rightarrow> ('p, 'z) reactor_scheme option)
     \<Rightarrow> (('p, 'z) reactor_scheme \<Rightarrow> 'p \<Rightarrow> 'c handler option)
     \<Rightarrow> (nat \<Rightarrow> ('p, 'z) reactor_scheme \<Rightarrow> 'p epoll_result) \<Rightarrow> nat
     \<Rightarrow> ('p, 'z) reactor_scheme \<Rightarrow> ('p, 'z) reactor_scheme option" where
  "reactor_loop call deref wait k w =
     (if rc_active w \<and> rc_descriptors w \<noteq> 0 then do {
        w \<leftarrow> reactor_loop_once call deref (wait k w) w;
        reactor_loop call deref wait (Suc k) w }
      else Some w)"

text \<open>The state after some turns of the loop, which counts its calls of \<open>epoll_wait\<close> from \<open>k\<close>.\<close>

primrec reactor_turns ::
    "('c \<Rightarrow> reactor_event \<Rightarrow> ('p, 'z) reactor_scheme \<Rightarrow> ('p, 'z) reactor_scheme option)
     \<Rightarrow> (('p, 'z) reactor_scheme \<Rightarrow> 'p \<Rightarrow> 'c handler option)
     \<Rightarrow> (nat \<Rightarrow> ('p, 'z) reactor_scheme \<Rightarrow> 'p epoll_result) \<Rightarrow> nat
     \<Rightarrow> ('p, 'z) reactor_scheme \<Rightarrow> nat \<Rightarrow> ('p, 'z) reactor_scheme option" where
  "reactor_turns call deref wait k w 0 = Some w"
| "reactor_turns call deref wait k w (Suc j) = do {
     v \<leftarrow> reactor_turns call deref wait k w j;
     reactor_loop_once call deref (wait (k + j) v) v }"

lemma turns_shift:
  "reactor_turns call deref wait k w (Suc j) =
     do { v \<leftarrow> reactor_loop_once call deref (wait k w) w; reactor_turns call deref wait (Suc k) v j }"
proof (induction j)
  case (Suc j)
  have "reactor_turns call deref wait k w (Suc (Suc j)) = do {
      v \<leftarrow> reactor_turns call deref wait k w (Suc j); reactor_loop_once call deref (wait (k + Suc j) v) v }"
    by simp
  then show ?case unfolding Suc by simp
qed simp

lemma reactor_loop_turns:
  assumes "reactor_loop call deref wait k w = Some y"
  shows "\<exists>j. reactor_turns call deref wait k w j = Some y \<and> \<not> (rc_active y \<and> rc_descriptors y \<noteq> 0)"
    (is "?P call deref wait k w y")
proof (rule reactor_loop.raw_induct [of ?P, OF _ assms])
  fix rec call deref wait k w y
  assume IH: "\<And>call deref wait k w y. rec call deref wait k w = Some y \<Longrightarrow> ?P call deref wait k w y"
    and y: "(if rc_active w \<and> rc_descriptors w \<noteq> 0
      then Option.bind (reactor_loop_once call deref (wait k w) w) (rec call deref wait (Suc k)) else Some w) = Some y"
  show "?P call deref wait k w y"
  proof (cases "rc_active w \<and> rc_descriptors w \<noteq> 0")
    case True
    then obtain v where v: "reactor_loop_once call deref (wait k w) w = Some v" "rec call deref wait (Suc k) v = Some y"
      using y by (auto split: Option.bind_splits)
    then obtain j where j: "reactor_turns call deref wait (Suc k) v j = Some y" "\<not> (rc_active y \<and> rc_descriptors y \<noteq> 0)"
      using IH by blast
    then have "reactor_turns call deref wait k w (Suc j) = Some y" using v(1) by (simp add: turns_shift del: reactor_turns.simps)
    then show ?thesis using j(2) by blast
  next
    case False
    then have "y = w" using y by (simp only: if_False) simp
    then have "reactor_turns call deref wait k w 0 = Some y" "y = w" by simp_all
    then show ?thesis using False by blast
  qed
qed

lemma reactor_loop_stops:
  assumes "reactor_turns call deref wait k w j = Some y" "\<not> (rc_active y \<and> rc_descriptors y \<noteq> 0)"
    "\<forall>i<j. \<forall>v. reactor_turns call deref wait k w i = Some v \<longrightarrow> rc_active v \<and> rc_descriptors v \<noteq> 0"
  shows "reactor_loop call deref wait k w = Some y"
  using assms
proof (induction j arbitrary: k w)
  case 0
  then show ?case by (subst reactor_loop.simps) auto
next
  case (Suc j)
  then obtain v where v: "reactor_loop_once call deref (wait k w) w = Some v" "reactor_turns call deref wait (Suc k) v j = Some y"
    by (auto simp: turns_shift simp del: reactor_turns.simps split: Option.bind_splits)
  have "reactor_loop call deref wait (Suc k) v = Some y"
  proof (rule Suc.IH [OF v(2) Suc.prems(2)], intro allI impI)
    fix i u
    assume "i < j" "reactor_turns call deref wait (Suc k) v i = Some u"
    then have "reactor_turns call deref wait k w (Suc i) = Some u"
      using v(1) by (simp add: turns_shift del: reactor_turns.simps)
    then show "rc_active u \<and> rc_descriptors u \<noteq> 0" using Suc.prems(3) \<open>i < j\<close> by (metis Suc_mono)
  qed
  moreover have "rc_active w \<and> rc_descriptors w \<noteq> 0" using Suc.prems(3) by (metis reactor_turns.simps(1) zero_less_Suc)
  ultimately show ?case using v(1) by (subst reactor_loop.simps) simp
qed

section \<open>Pending events\<close>

text \<open>No event of the batch that is still to be dispatched is for the handler.\<close>

definition silent :: "('p, 'z) reactor_scheme \<Rightarrow> 'p \<Rightarrow> bool" where
  "silent w a \<longleftrightarrow> (\<forall>j. rc_event w \<le> j \<longrightarrow> j < rc_event_end w \<longrightarrow> j < length (rc_batch w) \<longrightarrow> ev_ptr (rc_batch w ! j) \<noteq> Some a)"

text \<open>What handlers do to the batch: they blank some of its events.\<close>

definition fades :: "('p, 'z) reactor_scheme \<Rightarrow> ('p, 'z) reactor_scheme \<Rightarrow> bool" where
  "fades w w' \<longleftrightarrow> rc_event w' = rc_event w \<and> rc_event_end w' = rc_event_end w \<and> length (rc_batch w') = length (rc_batch w) \<and>
     (\<forall>j. j < length (rc_batch w) \<longrightarrow> rc_batch w' ! j = rc_batch w ! j \<or> rc_batch w' ! j = blank_event)"

lemma fades_refl [simp]: "fades w w"
  by (simp add: fades_def)

lemma fades_trans: "fades u v \<Longrightarrow> fades v w \<Longrightarrow> fades u w"
  unfolding fades_def by metis

lemma silent_fades: "silent w a \<Longrightarrow> fades w w' \<Longrightarrow> silent w' a"
  unfolding silent_def fades_def by (metis blank_event_def option.distinct(1) epoll_event.select_convs(2))

lemma blank_pending_length: "length (blank_pending a w) = length (rc_batch w)"
  by (auto simp: blank_pending_def)

lemma blank_pending_nth: "j < length (rc_batch w) \<Longrightarrow> blank_pending a w ! j =
    (if rc_event w \<le> j \<and> j < rc_event_end w \<and> ev_ptr (rc_batch w ! j) = Some a then blank_event else rc_batch w ! j)"
  by (cases "rc_event w \<le> rc_event_end w") (auto simp: blank_pending_def nth_append max_def)

lemma reactor_delete_fades:
  assumes "reactor_delete a fd w = Some w'"
  shows "fades w w'" "silent w' a"
proof -
  have w': "rc_batch w' = blank_pending a w" "rc_event w' = rc_event w" "rc_event_end w' = rc_event_end w"
    using assms by (auto simp: reactor_delete_def blank_pending_def Let_def split: if_splits)
  show "fades w w'" using w' by (auto simp: fades_def blank_pending_length blank_pending_nth)
  show "silent w' a" using w' by (auto simp: silent_def blank_pending_length blank_pending_nth blank_event_def)
qed

section \<open>The contract between the loop and its handlers\<close>

text \<open>
  \<open>inv\<close> is what the handlers keep of the whole state, \<open>pending i\<close> what holds in front of the
  \<open>i\<close>th event of the batch. Handlers that satisfy the laws make every batch run to its end.
\<close>

locale reactor_handlers =
  fixes call :: "'c \<Rightarrow> reactor_event \<Rightarrow> ('p, 'z) reactor_scheme \<Rightarrow> ('p, 'z) reactor_scheme option"
    and deref :: "('p, 'z) reactor_scheme \<Rightarrow> 'p \<Rightarrow> 'c handler option"
    and pending :: "nat \<Rightarrow> ('p, 'z) reactor_scheme \<Rightarrow> bool"
  assumes in_batch: "pending i w \<Longrightarrow> rc_event w = i \<and> i \<le> rc_event_end w \<and> length (rc_batch w) = rc_event_end w"
    and handler_live: "pending i w \<Longrightarrow> i < rc_event_end w \<Longrightarrow> \<exists>h. handler_at deref w (ev_ptr (rc_batch w ! i)) = Some h"
    and handled: "pending i w \<Longrightarrow> i < rc_event_end w \<Longrightarrow> handler_at deref w (ev_ptr (rc_batch w ! i)) = Some h \<Longrightarrow>
      \<exists>w'. reactor_dispatch call h REACTOR_EPOLL_EVENT i w = Some w' \<and> rc_event_end w' = rc_event_end w \<and>
        pending (Suc i) (w'\<lparr>rc_event := rc_event w' + 1\<rparr>)"
begin

lemma batch_step:
  assumes "pending i w" "i < rc_event_end w"
  shows "\<exists>w'. batch_loop call deref w = batch_loop call deref w' \<and> pending (Suc i) w' \<and> rc_event_end w' = rc_event_end w"
proof -
  have e: "event_at w (rc_event w) = Some (rc_batch w ! i)" "rc_event w = i"
    using in_batch [OF assms(1)] assms(2) by (simp_all add: event_at_def)
  obtain h where h: "handler_at deref w (ev_ptr (rc_batch w ! i)) = Some h"
    using handler_live [OF assms] by blast
  obtain w' where w': "reactor_dispatch call h REACTOR_EPOLL_EVENT i w = Some w'" "rc_event_end w' = rc_event_end w"
    "pending (Suc i) (w'\<lparr>rc_event := rc_event w' + 1\<rparr>)"
    using handled [OF assms h] by blast
  have "batch_loop call deref w = batch_loop call deref (w'\<lparr>rc_event := rc_event w' + 1\<rparr>)"
    using assms(2) e h w'(1) by (subst batch_loop.simps) simp
  then show ?thesis using w'(2,3) by (intro exI [of _ "w'\<lparr>rc_event := rc_event w' + 1\<rparr>"]) simp
qed

lemma batch_ends:
  assumes "pending i w"
  shows "\<exists>w'. batch_loop call deref w = Some w' \<and> pending (rc_event_end w') w'"
  using assms
proof (induction "rc_event_end w - i" arbitrary: i w)
  case 0
  then have "i = rc_event_end w" "rc_event w = i" using in_batch [OF 0(2)] by simp_all
  then show ?case using 0 by (subst batch_loop.simps) simp
next
  case (Suc n)
  then have "i < rc_event_end w" by simp
  then obtain w' where w': "batch_loop call deref w = batch_loop call deref w'" "pending (Suc i) w'"
    "rc_event_end w' = rc_event_end w"
    using batch_step [OF Suc.prems] by blast
  have "n = rc_event_end w' - Suc i" using Suc.hyps(2) w'(3) by simp
  then show ?case using Suc.hyps(1) [OF _ w'(2)] w'(1) by simp
qed

end

end
