(* ===== verification/Descriptor.thy ===== *)
theory Descriptor
  imports Core "HOL-Library.Sublist"
begin

text \<open>
  \<^verbatim>\<open>src/reactor/descriptor.c\<close>: file descriptors whose events are dispatched to a handler, and the
  whole of the event loop over them. A descriptor is known by its address, which also stands for
  the address of its epoll handler; the callback of the latter is \<open>descriptor_callback\<close>, or the
  default one after \<open>descriptor_destruct\<close>.

  The program that uses descriptors is arbitrary: a callback is a function of the whole state
  to a list of calls into the library, which may construct, open, mask, close, destruct and
  free any descriptor, its own included. \<open>wo_trace\<close> records what happens.
\<close>

definition DESCRIPTOR_CLOSE :: "'a :: semiring_1" where "DESCRIPTOR_CLOSE = 0"
definition DESCRIPTOR_READ :: "'a :: semiring_1" where "DESCRIPTOR_READ = 1"
definition DESCRIPTOR_WRITE :: "'a :: semiring_1" where "DESCRIPTOR_WRITE = 2"
definition DESCRIPTOR_LEVEL :: "'a :: semiring_1" where "DESCRIPTOR_LEVEL = 4"

definition EPOLLIN :: u32 where "EPOLLIN = 1"
definition EPOLLOUT :: u32 where "EPOLLOUT = 4"
definition EPOLLHUP :: u32 where "EPOLLHUP = 0x10"
definition EPOLLRDHUP :: u32 where "EPOLLRDHUP = 0x2000"
definition EPOLLET :: u32 where "EPOLLET = 0x80000000"

record 'c descriptor =
  de_handler :: "'c handler"
  de_epoll_handler :: "unit handler"
  de_fd :: int
  de_mask :: u32

definition descriptor_events :: "'c descriptor \<Rightarrow> u32" where
  "descriptor_events d = EPOLLHUP OR EPOLLRDHUP OR
     (if de_mask d AND DESCRIPTOR_READ \<noteq> 0 then EPOLLIN else 0) OR
     (if de_mask d AND DESCRIPTOR_WRITE \<noteq> 0 then EPOLLOUT else 0) OR
     (if de_mask d AND DESCRIPTOR_LEVEL \<noteq> 0 then 0 else EPOLLET)"

definition descriptor_fd :: "'c descriptor \<Rightarrow> int" where "descriptor_fd d = de_fd d"

definition descriptor_is_open :: "'c descriptor \<Rightarrow> bool" where "descriptor_is_open d \<longleftrightarrow> 0 \<le> de_fd d"

text \<open>The operations take the address \<open>a\<close> of the descriptor, its contents and the reactor.\<close>

definition descriptor_construct :: "nat \<Rightarrow> 'c option \<Rightarrow> nat \<Rightarrow> 'c descriptor \<Rightarrow> 'c descriptor" where
  "descriptor_construct a callback state d =
     d\<lparr>de_handler := reactor_handler_construct callback state,
       de_epoll_handler := reactor_handler_construct (Some ()) a, de_fd := -1\<rparr>"

definition descriptor_open :: "nat \<Rightarrow> 'c descriptor \<Rightarrow> int \<Rightarrow> u32 \<Rightarrow> (nat, 'z) reactor_scheme
    \<Rightarrow> ('c descriptor \<times> (nat, 'z) reactor_scheme) option" where
  "descriptor_open a d fd bits w = (let d = d\<lparr>de_fd := fd, de_mask := bits\<rparr> in do {
     w \<leftarrow> reactor_add a (de_fd d) (descriptor_events d) w;
     Some (d, w) })"

definition descriptor_mask :: "nat \<Rightarrow> 'c descriptor \<Rightarrow> u32 \<Rightarrow> (nat, 'z) reactor_scheme
    \<Rightarrow> ('c descriptor \<times> (nat, 'z) reactor_scheme) option" where
  "descriptor_mask a d bits w =
     (if de_mask d = bits then Some (d, w)
      else (let d = d\<lparr>de_mask := bits\<rparr> in do {
        w \<leftarrow> reactor_modify a (de_fd d) (descriptor_events d) w;
        Some (d, w) }))"

definition descriptor_close :: "nat \<Rightarrow> 'c descriptor \<Rightarrow> (nat, 'z) reactor_scheme
    \<Rightarrow> ('c descriptor \<times> (nat, 'z) reactor_scheme) option" where
  "descriptor_close a d w =
     (if \<not> descriptor_is_open d then Some (d, w)
      else do {
        w \<leftarrow> reactor_delete a (de_fd d) w;
        Some (d\<lparr>de_fd := -1, de_mask := 0\<rparr>, w) })"

definition descriptor_destruct :: "nat \<Rightarrow> 'c descriptor \<Rightarrow> (nat, 'z) reactor_scheme
    \<Rightarrow> ('c descriptor \<times> (nat, 'z) reactor_scheme) option" where
  "descriptor_destruct a d w = do {
     (d, w) \<leftarrow> descriptor_close a d w;
     Some (d\<lparr>de_handler := reactor_handler_destruct (de_handler d),
             de_epoll_handler := reactor_handler_destruct (de_epoll_handler d)\<rparr>, w) }"

section \<open>The world of a program\<close>

datatype occurrence = Opened nat int | Closed nat int | Called nat nat

record world = "nat reactor" +
  wo_store :: "nat \<rightharpoonup> nat descriptor"
  wo_trace :: "occurrence list"

datatype request =
    Construct nat "nat option" nat "nat descriptor"
  | Open nat int u32
  | Mask nat u32
  | Close nat
  | Destruct nat
  | Free nat
  | Abort

definition on_descriptor :: "(nat descriptor \<Rightarrow> world \<Rightarrow> (nat descriptor \<times> world) option) \<Rightarrow> nat \<Rightarrow> world \<Rightarrow> world option" where
  "on_descriptor f a w = do {
     d \<leftarrow> wo_store w a;
     (d, w) \<leftarrow> f d w;
     Some (w\<lparr>wo_store := (wo_store w)(a \<mapsto> d)\<rparr>) }"

definition record_close :: "nat descriptor option \<Rightarrow> nat \<Rightarrow> world \<Rightarrow> world" where
  "record_close before a w = (case before of None \<Rightarrow> w
     | Some d \<Rightarrow> if descriptor_is_open d then w\<lparr>wo_trace := wo_trace w @ [Closed a (de_fd d)]\<rparr> else w)"

primrec perform :: "request \<Rightarrow> world \<Rightarrow> world option" where
  "perform (Construct a callback state memory) w =
     Some (w\<lparr>wo_store := (wo_store w)(a \<mapsto> descriptor_construct a callback state memory)\<rparr>)"
| "perform (Open a fd bits) w = do {
     w \<leftarrow> on_descriptor (\<lambda>d. descriptor_open a d fd bits) a w;
     Some (w\<lparr>wo_trace := wo_trace w @ [Opened a fd]\<rparr>) }"
| "perform (Mask a bits) w = on_descriptor (\<lambda>d. descriptor_mask a d bits) a w"
| "perform (Close a) w =
     map_option (record_close (wo_store w a) a) (on_descriptor (descriptor_close a) a w)"
| "perform (Destruct a) w =
     map_option (record_close (wo_store w a) a) (on_descriptor (descriptor_destruct a) a w)"
| "perform (Free a) w = Some (w\<lparr>wo_store := (wo_store w)(a := None)\<rparr>)"
| "perform Abort w = Some (reactor_abort w)"

primrec run_script :: "request list \<Rightarrow> world \<Rightarrow> world option" where
  "run_script [] w = Some w"
| "run_script (x # xs) w = do { w \<leftarrow> perform x w; run_script xs w }"

type_synonym user = "nat \<Rightarrow> reactor_event \<Rightarrow> world \<Rightarrow> request list"

definition user_call :: "user \<Rightarrow> nat \<Rightarrow> reactor_event \<Rightarrow> world \<Rightarrow> world option" where
  "user_call user c ev w = run_script (user c ev w) w"

section \<open>The callback of a descriptor\<close>

text \<open>
  Each of the three tests reads the reported event in the array again, and the descriptor is
  read only when its test succeeds: the callbacks before it may have closed the descriptor,
  which blanks the event, and freed its memory.
\<close>

definition descriptor_dispatch :: "user \<Rightarrow> nat \<Rightarrow> nat \<Rightarrow> world \<Rightarrow> world option" where
  "descriptor_dispatch user a type w = do {
     d \<leftarrow> wo_store w a;
     reactor_dispatch (user_call user) (de_handler d) type 0 (w\<lparr>wo_trace := wo_trace w @ [Called a type]\<rparr>) }"

definition descriptor_signal :: "user \<Rightarrow> nat \<Rightarrow> nat \<Rightarrow> u32 \<Rightarrow> nat \<Rightarrow> world \<Rightarrow> world option" where
  "descriptor_signal user a i events type w = do {
     e \<leftarrow> event_at w i;
     (if ev_events e AND events \<noteq> 0 then descriptor_dispatch user a type w else Some w) }"

definition descriptor_callback :: "user \<Rightarrow> unit \<Rightarrow> reactor_event \<Rightarrow> world \<Rightarrow> world option" where
  "descriptor_callback user c ev w =
     (if re_type ev = REACTOR_EPOLL_EVENT then do {
        w \<leftarrow> descriptor_signal user (re_state ev) (re_data ev) EPOLLIN DESCRIPTOR_READ w;
        w \<leftarrow> descriptor_signal user (re_state ev) (re_data ev) EPOLLOUT DESCRIPTOR_WRITE w;
        descriptor_signal user (re_state ev) (re_data ev) (NOT (EPOLLIN OR EPOLLOUT)) DESCRIPTOR_CLOSE w }
      else None)"

definition epoll_handler_at :: "world \<Rightarrow> nat \<Rightarrow> unit handler option" where
  "epoll_handler_at w a = map_option de_epoll_handler (wo_store w a)"

definition descriptors_once :: "user \<Rightarrow> nat epoll_result \<Rightarrow> world \<Rightarrow> world option" where
  "descriptors_once user = reactor_loop_once (descriptor_callback user) epoll_handler_at"

definition descriptors_loop :: "user \<Rightarrow> (nat \<Rightarrow> world \<Rightarrow> nat epoll_result) \<Rightarrow> world \<Rightarrow> world option" where
  "descriptors_loop user wait = reactor_loop (descriptor_callback user) epoll_handler_at wait 0"

section \<open>The invariant\<close>

text \<open>
  The interest list of the kernel holds exactly the open descriptors, each under its file
  descriptor with its address and the events of its mask, and the reactor counts them.
\<close>

definition registered :: "(int \<rightharpoonup> u32 \<times> nat) \<Rightarrow> (nat \<rightharpoonup> 'c descriptor) \<Rightarrow> bool" where
  "registered interest store \<longleftrightarrow>
     (\<forall>fd m a. interest fd = Some (m, a) \<longrightarrow> (\<exists>d. store a = Some d \<and> descriptor_is_open d \<and> de_fd d = fd)) \<and>
     (\<forall>a d. store a = Some d \<longrightarrow> descriptor_is_open d \<longrightarrow> interest (de_fd d) = Some (descriptor_events d, a))"

definition world_inv :: "world \<Rightarrow> bool" where
  "world_inv w \<longleftrightarrow> registered (rc_interest w) (wo_store w) \<and>
     (\<forall>a d. wo_store w a = Some d \<longrightarrow> descriptor_is_open d \<longrightarrow> de_epoll_handler d = \<lparr>h_callback = Some (), h_state = a\<rparr>) \<and>
     dom (rc_interest w) \<subseteq> {0..<2 ^ 31} \<and> rc_descriptors w = word_of_nat (card (dom (rc_interest w)))"

definition open_at :: "world \<Rightarrow> nat \<Rightarrow> bool" where
  "open_at w a \<longleftrightarrow> (case wo_store w a of None \<Rightarrow> False | Some d \<Rightarrow> descriptor_is_open d)"

text \<open>
  What a program may call: it opens closed descriptors that have been constructed, with a new
  file descriptor below \<open>2^31\<close>, sets the mask of open ones, and neither constructs nor frees
  open ones.
\<close>

primrec request_allowed :: "world \<Rightarrow> request \<Rightarrow> bool" where
  "request_allowed w (Construct a callback state memory) \<longleftrightarrow> \<not> open_at w a"
| "request_allowed w (Open a fd bits) \<longleftrightarrow> \<not> open_at w a \<and> 0 \<le> fd \<and> fd < 2 ^ 31 \<and> rc_interest w fd = None \<and>
     map_option de_epoll_handler (wo_store w a) = Some \<lparr>h_callback = Some (), h_state = a\<rparr>"
| "request_allowed w (Mask a bits) \<longleftrightarrow> open_at w a"
| "request_allowed w (Close a) \<longleftrightarrow> wo_store w a \<noteq> None"
| "request_allowed w (Destruct a) \<longleftrightarrow> wo_store w a \<noteq> None"
| "request_allowed w (Free a) \<longleftrightarrow> \<not> open_at w a"
| "request_allowed w Abort \<longleftrightarrow> True"

primrec script_allowed :: "world \<Rightarrow> request list \<Rightarrow> bool" where
  "script_allowed w [] \<longleftrightarrow> True"
| "script_allowed w (x # xs) \<longleftrightarrow> request_allowed w x \<and>
     (case perform x w of None \<Rightarrow> True | Some w' \<Rightarrow> script_allowed w' xs)"

definition well_behaved :: "user \<Rightarrow> bool" where
  "well_behaved user \<longleftrightarrow> (\<forall>c ev w. world_inv w \<longrightarrow> script_allowed w (user c ev w))"

definition closed :: "occurrence list \<Rightarrow> nat set" where
  "closed t = {a. \<exists>fd. Closed a fd \<in> set t}"

fun called_type :: "nat \<Rightarrow> occurrence \<Rightarrow> nat option" where
  "called_type a (Called b type) = (if a = b then Some type else None)"
| "called_type a _ = None"

text \<open>The calls of the handler of a descriptor, in order.\<close>

definition calls :: "nat \<Rightarrow> occurrence list \<Rightarrow> nat list" where
  "calls a t = List.map_filter (called_type a) t"

text \<open>No handler is called after its descriptor has been closed.\<close>

fun orderly :: "occurrence list \<Rightarrow> bool" where
  "orderly [] \<longleftrightarrow> True"
| "orderly (Closed a fd # t) \<longleftrightarrow> calls a t = [] \<and> orderly t"
| "orderly (_ # t) \<longleftrightarrow> orderly t"

section \<open>Requests keep the invariant\<close>

lemma registered_at:
  "registered I S \<Longrightarrow> S a = Some d \<Longrightarrow> descriptor_is_open d \<Longrightarrow> I (de_fd d) = Some (descriptor_events d, a)"
  by (simp add: registered_def)

lemma registered_owner:
  assumes "registered I S" "I fd = Some (m, a)"
  obtains d where "S a = Some d" "descriptor_is_open d" "de_fd d = fd"
  using assms unfolding registered_def by blast

lemma registered_unique:
  assumes "registered I S" "S a = Some d" "S b = Some e" "descriptor_is_open d" "descriptor_is_open e" "de_fd d = de_fd e"
  shows "a = b"
  using registered_at [OF assms(1,2,4)] registered_at [OF assms(1,3,5)] assms(6) by simp

lemma registered_closed:
  assumes "registered I S" "\<And>d. S a = Some d \<Longrightarrow> \<not> descriptor_is_open d" "\<And>d. x = Some d \<Longrightarrow> \<not> descriptor_is_open d"
  shows "registered I (S(a := x))"
  using assms unfolding registered_def by (metis fun_upd_apply)

lemma registered_open:
  assumes "registered I S" "\<And>d. S a = Some d \<Longrightarrow> \<not> descriptor_is_open d" "I (de_fd d) = None" "descriptor_is_open d"
  shows "registered (I(de_fd d \<mapsto> (descriptor_events d, a))) (S(a \<mapsto> d))"
  unfolding registered_def
proof (intro conjI allI impI)
  show "\<exists>e. (S(a \<mapsto> d)) b = Some e \<and> descriptor_is_open e \<and> de_fd e = fd"
    if "(I(de_fd d \<mapsto> (descriptor_events d, a))) fd = Some (m, b)" for fd m b
    using that assms registered_owner [OF assms(1), of fd m b] by (auto split: if_splits)
  show "(I(de_fd d \<mapsto> (descriptor_events d, a))) (de_fd e) = Some (descriptor_events e, b)"
    if "(S(a \<mapsto> d)) b = Some e" "descriptor_is_open e" for b e
    using that assms registered_at [OF assms(1), of b e] by (auto split: if_splits)
qed

lemma registered_modify:
  assumes "registered I S" "S a = Some d'" "descriptor_is_open d'" "de_fd d' = de_fd d"
  shows "registered (I(de_fd d \<mapsto> (descriptor_events d, a))) (S(a \<mapsto> d))"
  unfolding registered_def
proof (intro conjI allI impI)
  have o: "descriptor_is_open d" using assms(3,4) by (simp add: descriptor_is_open_def)
  show "\<exists>e. (S(a \<mapsto> d)) b = Some e \<and> descriptor_is_open e \<and> de_fd e = fd"
    if "(I(de_fd d \<mapsto> (descriptor_events d, a))) fd = Some (m, b)" for fd m b
  proof (cases "fd = de_fd d")
    case True
    then show ?thesis using that o by simp
  next
    case False
    then have "I fd = Some (m, b)" using that by simp
    then obtain e where "S b = Some e" "descriptor_is_open e" "de_fd e = fd"
      by (rule registered_owner [OF assms(1)])
    then show ?thesis using assms(2,4) False by auto
  qed
  show "(I(de_fd d \<mapsto> (descriptor_events d, a))) (de_fd e) = Some (descriptor_events e, b)"
    if "(S(a \<mapsto> d)) b = Some e" "descriptor_is_open e" for b e
  proof (cases "b = a")
    case True
    then show ?thesis using that assms by simp
  next
    case False
    then have e: "S b = Some e" using that(1) by simp
    have "de_fd e \<noteq> de_fd d'" using registered_unique [OF assms(1,2) e assms(3) that(2)] False by auto
    then show ?thesis using registered_at [OF assms(1) e that(2)] assms(4) by simp
  qed
qed

lemma registered_delete:
  assumes "registered I S" "S a = Some d'" "descriptor_is_open d'" "\<not> descriptor_is_open d"
  shows "registered (I(de_fd d' := None)) (S(a \<mapsto> d))"
  unfolding registered_def
proof (intro conjI allI impI)
  show "\<exists>e. (S(a \<mapsto> d)) b = Some e \<and> descriptor_is_open e \<and> de_fd e = fd"
    if "(I(de_fd d' := None)) fd = Some (m, b)" for fd m b
  proof -
    have fd: "fd \<noteq> de_fd d'" "I fd = Some (m, b)" using that by (simp_all split: if_splits)
    obtain e where "S b = Some e" "descriptor_is_open e" "de_fd e = fd"
      by (rule registered_owner [OF assms(1) fd(2)])
    then show ?thesis using assms(2) fd(1) by auto
  qed
  show "(I(de_fd d' := None)) (de_fd e) = Some (descriptor_events e, b)"
    if "(S(a \<mapsto> d)) b = Some e" "descriptor_is_open e" for b e
  proof (cases "b = a")
    case True
    then show ?thesis using that assms by simp
  next
    case False
    then have e: "S b = Some e" using that(1) by simp
    have "de_fd e \<noteq> de_fd d'" using registered_unique [OF assms(1,2) e assms(3) that(2)] False by auto
    then show ?thesis using registered_at [OF assms(1) e that(2)] assms(4) by simp
  qed
qed

lemma count_open:
  fixes I :: "int \<rightharpoonup> 'b"
  assumes "dom I \<subseteq> {0..<2 ^ 31}" "n = (word_of_nat (card (dom I)) :: u64)"
  shows "0 \<le> fd \<Longrightarrow> fd < 2 ^ 31 \<Longrightarrow> I fd = None \<Longrightarrow> dom (I(fd \<mapsto> x)) \<subseteq> {0..<2 ^ 31} \<and> n + 1 = word_of_nat (card (dom (I(fd \<mapsto> x))))"
    "I fd \<noteq> None \<Longrightarrow> dom (I(fd \<mapsto> x)) = dom I"
    "I fd \<noteq> None \<Longrightarrow> dom (I(fd := None)) \<subseteq> {0..<2 ^ 31} \<and> n - 1 = word_of_nat (card (dom (I(fd := None))))"
    "n = 0 \<longleftrightarrow> I = Map.empty"
proof -
  have fin: "finite (dom I)" using assms(1) finite_subset by blast
  show "0 \<le> fd \<Longrightarrow> fd < 2 ^ 31 \<Longrightarrow> I fd = None \<Longrightarrow> dom (I(fd \<mapsto> x)) \<subseteq> {0..<2 ^ 31} \<and> n + 1 = word_of_nat (card (dom (I(fd \<mapsto> x))))"
    using assms fin by (auto simp: card_insert_if domIff)
  show "I fd \<noteq> None \<Longrightarrow> dom (I(fd \<mapsto> x)) = dom I" by auto
  show "dom (I(fd := None)) \<subseteq> {0..<2 ^ 31} \<and> n - 1 = word_of_nat (card (dom (I(fd := None))))" if "I fd \<noteq> None"
  proof -
    have "fd \<in> dom I" using that by auto
    then have "card (dom I) = Suc (card (dom I - {fd}))" using card_Suc_Diff1 fin by metis
    then show ?thesis using assms by auto
  qed
  have "card (dom I) \<le> 2 ^ 31" using card_mono [OF _ assms(1)] by simp
  then have "unat n = card (dom I)" using assms(2) by (simp add: unat_of_nat_64)
  then show "n = 0 \<longleftrightarrow> I = Map.empty" using fin by (metis card_0_eq dom_eq_empty_conv unat_eq_0)
qed

text \<open>
  What a piece of the program does to the batch: it records \<open>t\<close>, which holds no calls of
  handlers, and blanks the pending events of the descriptors it closes.
\<close>

definition batch_sane :: "world \<Rightarrow> bool" where
  "batch_sane w \<longleftrightarrow> rc_event w \<le> rc_event_end w \<and> length (rc_batch w) = rc_event_end w"

definition blanked :: "nat set \<Rightarrow> nat epoll_event \<Rightarrow> nat epoll_event" where
  "blanked A e = (if \<exists>a \<in> A. ev_ptr e = Some a then blank_event else e)"

definition advance :: "world \<Rightarrow> world \<Rightarrow> occurrence list \<Rightarrow> bool" where
  "advance w w' t \<longleftrightarrow> wo_trace w' = wo_trace w @ t \<and> (\<forall>a. calls a t = []) \<and>
     rc_event w' = rc_event w \<and> rc_event_end w' = rc_event_end w \<and> length (rc_batch w') = length (rc_batch w) \<and>
     (\<forall>i. rc_event w \<le> i \<longrightarrow> i < length (rc_batch w) \<longrightarrow> rc_batch w' ! i = blanked (closed t) (rc_batch w ! i)) \<and>
     (\<forall>a. open_at w a \<longrightarrow> a \<notin> closed t \<longrightarrow> open_at w' a)"

lemma calls_simps [simp]:
  "calls a [] = []" "calls a (Opened b fd # t) = calls a t" "calls a (Closed b fd # t) = calls a t"
  "calls a (Called b type # t) = (if a = b then type # calls a t else calls a t)"
  "calls a (t @ u) = calls a t @ calls a u"
  by (simp_all add: calls_def List.map_filter_simps) (simp add: List.map_filter_def)

lemma closed_simps [simp]:
  "closed [] = {}" "closed (Opened b fd # t) = closed t" "closed (Closed b fd # t) = insert b (closed t)"
  "closed (Called b type # t) = closed t" "closed (t @ u) = closed t \<union> closed u"
  by (auto simp: closed_def)

lemma blanked_simps [simp]: "blanked {} e = e" "blanked A (blanked B e) = blanked (A \<union> B) e"
  by (auto simp: blanked_def blank_event_def)

lemma advance_refl: "advance w w []"
  by (simp add: advance_def)

lemma advance_trans: "advance u v s \<Longrightarrow> advance v w t \<Longrightarrow> advance u w (s @ t)"
  by (simp add: advance_def Un_commute)

lemma advance_quiet:
  assumes "wo_trace w' = wo_trace w @ t" "\<forall>a. calls a t = []" "closed t = {}" "rc_event w' = rc_event w"
    "rc_event_end w' = rc_event_end w" "rc_batch w' = rc_batch w" "\<And>a. open_at w a \<Longrightarrow> open_at w' a"
  shows "advance w w' t"
  using assms by (simp add: advance_def)

lemma world_invD:
  assumes "world_inv w"
  shows "registered (rc_interest w) (wo_store w)"
    "wo_store w a = Some d \<Longrightarrow> descriptor_is_open d \<Longrightarrow> de_epoll_handler d = \<lparr>h_callback = Some (), h_state = a\<rparr>"
    "dom (rc_interest w) \<subseteq> {0..<2 ^ 31}" "rc_descriptors w = word_of_nat (card (dom (rc_interest w)))"
  using assms by (simp_all add: world_inv_def)

lemma blank_pending_sane:
  assumes "batch_sane w"
  shows "length (blank_pending a w) = length (rc_batch w)"
    "rc_event w \<le> i \<Longrightarrow> i < length (rc_batch w) \<Longrightarrow> blank_pending a w ! i = blanked {a} (rc_batch w ! i)"
  using assms by (auto simp: batch_sane_def blank_pending_def blanked_def nth_append max_def min_def)

lemma closing_ok:
  assumes inv: "world_inv w" and sane: "batch_sane w" and d: "wo_store w a = Some d" "descriptor_is_open d"
    and d': "\<not> descriptor_is_open d'"
  shows "\<exists>v. reactor_delete a (de_fd d) w = Some v \<and> wo_store v = wo_store w \<and>
    (let w' = v\<lparr>wo_store := (wo_store w)(a \<mapsto> d'), wo_trace := wo_trace v @ [Closed a (de_fd d)]\<rparr>
     in world_inv w' \<and> advance w w' [Closed a (de_fd d)])"
proof -
  note I = world_invD [OF inv]
  have r: "rc_interest w (de_fd d) = Some (descriptor_events d, a)" by (rule registered_at [OF I(1) d])
  define v where "v = w\<lparr>rc_batch := blank_pending a w, rc_interest := (rc_interest w)(de_fd d := None),
    rc_descriptors := rc_descriptors w - 1\<rparr>"
  have del: "reactor_delete a (de_fd d) w = Some v" using r by (simp add: reactor_delete_def v_def blank_pending_def Let_def)
  define w' where "w' = v\<lparr>wo_store := (wo_store w)(a \<mapsto> d'), wo_trace := wo_trace v @ [Closed a (de_fd d)]\<rparr>"
  have "world_inv w'"
    unfolding world_inv_def w'_def v_def
    using registered_delete [OF I(1) d d'] count_open(3) [OF I(3,4), of "de_fd d"] r d' I(2) by auto
  moreover have "advance w w' [Closed a (de_fd d)]"
    unfolding advance_def w'_def v_def
    using blank_pending_sane [OF sane] by (auto simp: open_at_def split: option.splits)
  ultimately show ?thesis using del unfolding w'_def by (intro exI [of _ v]) (simp add: v_def Let_def)
qed

lemma advance_sane: "advance w w' t \<Longrightarrow> batch_sane w \<Longrightarrow> batch_sane w'"
  by (simp add: advance_def batch_sane_def)

lemma perform_close:
  assumes "world_inv w" "batch_sane w" "request_allowed w (Close a)"
    and f: "f = descriptor_close a \<or> f = descriptor_destruct a"
  shows "\<exists>w' t. map_option (record_close (wo_store w a) a) (on_descriptor f a w) = Some w' \<and> world_inv w' \<and> advance w w' t"
proof -
  obtain d where d: "wo_store w a = Some d" using assms(3) by auto
  define d' where "d' = (if f = descriptor_close a then d\<lparr>de_fd := -1, de_mask := 0\<rparr> else
    d\<lparr>de_fd := -1, de_mask := 0, de_handler := reactor_handler_destruct (de_handler d),
      de_epoll_handler := reactor_handler_destruct (de_epoll_handler d)\<rparr>)"
  define d1 where "d1 = (if f = descriptor_close a then d else
    d\<lparr>de_handler := reactor_handler_destruct (de_handler d),
      de_epoll_handler := reactor_handler_destruct (de_epoll_handler d)\<rparr>)"
  show ?thesis
  proof (cases "descriptor_is_open d")
    case True
    have "\<not> descriptor_is_open d'" by (simp add: d'_def descriptor_is_open_def)
    then obtain v where v: "reactor_delete a (de_fd d) w = Some v" "wo_store v = wo_store w"
      "world_inv (v\<lparr>wo_store := (wo_store w)(a \<mapsto> d'), wo_trace := wo_trace v @ [Closed a (de_fd d)]\<rparr>)"
      "advance w (v\<lparr>wo_store := (wo_store w)(a \<mapsto> d'), wo_trace := wo_trace v @ [Closed a (de_fd d)]\<rparr>) [Closed a (de_fd d)]"
      using closing_ok [OF assms(1,2) d True] by (auto simp: Let_def)
    have "on_descriptor f a w = Some (v\<lparr>wo_store := (wo_store w)(a \<mapsto> d')\<rparr>)"
      using f d True v(1,2)
      by (cases "f = descriptor_close a")
        (auto simp: on_descriptor_def descriptor_close_def descriptor_destruct_def d'_def)
    then show ?thesis using v(3,4) d True by (auto simp: record_close_def)
  next
    case False
    have "\<not> descriptor_is_open d1" using False by (simp add: d1_def descriptor_is_open_def)
    then have "world_inv (w\<lparr>wo_store := (wo_store w)(a \<mapsto> d1)\<rparr>)"
      using world_invD [OF assms(1)] registered_closed [of "rc_interest w" "wo_store w" a "Some d1"] d False
      by (auto simp: world_inv_def)
    moreover have "advance w (w\<lparr>wo_store := (wo_store w)(a \<mapsto> d1)\<rparr>) []"
      by (rule advance_quiet) (use d False in \<open>auto simp: open_at_def\<close>)
    moreover have "on_descriptor f a w = Some (w\<lparr>wo_store := (wo_store w)(a \<mapsto> d1)\<rparr>)"
      using f d False
      by (cases "f = descriptor_close a")
        (auto simp: on_descriptor_def descriptor_close_def descriptor_destruct_def d1_def)
    ultimately show ?thesis using d False by (auto simp: record_close_def)
  qed
qed

lemma perform_ok:
  assumes inv: "world_inv w" and sane: "batch_sane w" and ok: "request_allowed w x"
  shows "\<exists>w' t. perform x w = Some w' \<and> world_inv w' \<and> advance w w' t"
proof (cases x)
  case (Construct a callback state memory)
  let ?w = "w\<lparr>wo_store := (wo_store w)(a \<mapsto> descriptor_construct a callback state memory)\<rparr>"
  have c: "\<not> descriptor_is_open (descriptor_construct a callback state memory)"
    by (simp add: descriptor_construct_def descriptor_is_open_def)
  then have "world_inv ?w"
    using world_invD [OF inv] registered_closed [of "rc_interest w" "wo_store w" a "Some (descriptor_construct a callback state memory)"] ok Construct
    by (auto simp: world_inv_def open_at_def split: option.splits)
  moreover have "advance w ?w []" by (rule advance_quiet) (use c ok Construct in \<open>auto simp: open_at_def\<close>)
  ultimately show ?thesis using Construct by auto
next
  case (Open a fd bits)
  then obtain d where d: "wo_store w a = Some d" "\<not> descriptor_is_open d"
      "de_epoll_handler d = \<lparr>h_callback = Some (), h_state = a\<rparr>" "0 \<le> fd" "fd < 2 ^ 31" "rc_interest w fd = None"
    using ok by (auto simp: open_at_def)
  define d' where "d' = d\<lparr>de_fd := fd, de_mask := bits\<rparr>"
  define w' where "w' = w\<lparr>rc_descriptors := rc_descriptors w + 1,
    rc_interest := (rc_interest w)(fd \<mapsto> (descriptor_events d', a)), wo_store := (wo_store w)(a \<mapsto> d'),
    wo_trace := wo_trace w @ [Opened a fd]\<rparr>"
  have "perform x w = Some w'"
    using d Open by (simp add: on_descriptor_def descriptor_open_def reactor_add_def d'_def w'_def Let_def)
  moreover have "descriptor_is_open d'" "de_fd d' = fd" using d(4) by (simp_all add: d'_def descriptor_is_open_def)
  then have "world_inv w'"
    using registered_open [OF world_invD(1) [OF inv], of a d'] world_invD [OF inv]
      count_open(1) [OF world_invD(3,4) [OF inv] d(4-6)] d
    by (auto simp: world_inv_def w'_def d'_def)
  moreover have "advance w w' [Opened a fd]"
    by (rule advance_quiet) (use d \<open>descriptor_is_open d'\<close> in \<open>auto simp: open_at_def w'_def\<close>)
  ultimately show ?thesis by blast
next
  case (Mask a bits)
  then obtain d where d: "wo_store w a = Some d" "descriptor_is_open d"
    using ok by (auto simp: open_at_def split: option.splits)
  have r: "rc_interest w (de_fd d) \<noteq> None" using registered_at [OF world_invD(1) [OF inv] d] by simp
  show ?thesis
  proof (cases "de_mask d = bits")
    case True
    then have "perform x w = Some (w\<lparr>wo_store := (wo_store w)(a \<mapsto> d)\<rparr>)"
      using d Mask by (simp add: on_descriptor_def descriptor_mask_def)
    moreover have "(wo_store w)(a \<mapsto> d) = wo_store w" using d by auto
    ultimately show ?thesis using inv advance_refl by auto
  next
    case False
    define d' where "d' = d\<lparr>de_mask := bits\<rparr>"
    define w' where "w' = w\<lparr>rc_interest := (rc_interest w)(de_fd d' \<mapsto> (descriptor_events d', a)), wo_store := (wo_store w)(a \<mapsto> d')\<rparr>"
    have "perform x w = Some w'"
      using d r False Mask by (simp add: on_descriptor_def descriptor_mask_def reactor_modify_def d'_def w'_def Let_def)
    moreover have "world_inv w'"
      using registered_modify [OF world_invD(1) [OF inv] d, of d'] world_invD [OF inv]
        count_open(2) [OF world_invD(3,4) [OF inv] r] d
      by (auto simp: world_inv_def w'_def d'_def)
    moreover have "advance w w' []"
      by (rule advance_quiet) (use d in \<open>auto simp: open_at_def w'_def d'_def descriptor_is_open_def\<close>)
    ultimately show ?thesis by blast
  qed
next
  case (Close a)
  then show ?thesis using perform_close [OF inv sane, of a "descriptor_close a"] ok by simp
next
  case (Destruct a)
  then show ?thesis using perform_close [OF inv sane, of a "descriptor_destruct a"] ok by simp
next
  case (Free a)
  have "world_inv (w\<lparr>wo_store := (wo_store w)(a := None)\<rparr>)"
    using world_invD [OF inv] registered_closed [of "rc_interest w" "wo_store w" a None] ok Free
    by (auto simp: world_inv_def open_at_def split: option.splits)
  moreover have "advance w (w\<lparr>wo_store := (wo_store w)(a := None)\<rparr>) []"
    by (rule advance_quiet) (use ok Free in \<open>auto simp: open_at_def\<close>)
  ultimately show ?thesis using Free by auto
next
  case Abort
  have "world_inv (reactor_abort w)" "advance w (reactor_abort w) []"
    using inv by (auto simp: world_inv_def reactor_abort_def open_at_def intro!: advance_quiet)
  then show ?thesis using Abort by auto
qed

lemma run_script_ok:
  "world_inv w \<Longrightarrow> batch_sane w \<Longrightarrow> script_allowed w xs \<Longrightarrow>
   \<exists>w' t. run_script xs w = Some w' \<and> world_inv w' \<and> advance w w' t"
proof (induction xs arbitrary: w)
  case Nil
  then show ?case using advance_refl by auto
next
  case (Cons x xs)
  then obtain v s where v: "perform x w = Some v" "world_inv v" "advance w v s"
    using perform_ok [of w x] by auto
  then obtain w' t where "run_script xs v = Some w'" "world_inv w'" "advance v w' t"
    using Cons.IH [OF v(2) advance_sane [OF v(3)]] Cons.prems by auto
  then show ?case using v advance_trans [OF v(3)] by auto
qed

section \<open>One batch of events\<close>

text \<open>The handler calls an event asks for, and those the first \<open>i\<close> events ask of one descriptor.\<close>

definition event_types :: "u32 \<Rightarrow> nat list" where
  "event_types m = (if m AND EPOLLIN \<noteq> 0 then [DESCRIPTOR_READ] else []) @
     (if m AND EPOLLOUT \<noteq> 0 then [DESCRIPTOR_WRITE] else []) @
     (if m AND NOT (EPOLLIN OR EPOLLOUT) \<noteq> 0 then [DESCRIPTOR_CLOSE] else [])"

definition due :: "(u32 \<times> nat) list \<Rightarrow> nat \<Rightarrow> nat list" where
  "due events a = concat (map (\<lambda>(m, b). if b = a then event_types m else []) events)"

text \<open>The state after the first \<open>i\<close> events and the calls \<open>ts\<close> for the next one; \<open>old\<close> is the trace before the batch.\<close>

definition progress :: "occurrence list \<Rightarrow> (u32 \<times> nat) list \<Rightarrow> nat \<Rightarrow> nat list \<Rightarrow> world \<Rightarrow> bool" where
  "progress old events i ts w \<longleftrightarrow> (let t = drop (length old) (wo_trace w); due_now = (\<lambda>a. due (take i events) a @
       (if i < length events \<and> snd (events ! i) = a then ts else [])) in
     world_inv w \<and> batch_sane w \<and> rc_event w = i \<and> rc_event_end w = length events \<and> prefix old (wo_trace w) \<and>
     orderly t \<and> (\<forall>a. prefix (calls a t) (due_now a)) \<and> (\<forall>a. a \<notin> closed t \<longrightarrow> calls a t = due_now a) \<and>
     (\<forall>j. i \<le> j \<longrightarrow> j < length events \<longrightarrow>
        (if snd (events ! j) \<in> closed t then rc_batch w ! j = blank_event
         else rc_batch w ! j = \<lparr>ev_events = fst (events ! j), ev_ptr = Some (snd (events ! j))\<rparr> \<and>
           open_at w (snd (events ! j)))))"

lemma orderly_append: "orderly (s @ t) \<longleftrightarrow> orderly s \<and> orderly t \<and> (\<forall>a \<in> closed s. calls a t = [])"
  by (induction s rule: orderly.induct) auto

lemma orderly_quiet: "(\<And>a. calls a t = []) \<Longrightarrow> orderly t"
  by (induction t rule: orderly.induct) (auto, metis list.distinct(1))

lemma due_snoc: "i < length events \<Longrightarrow> due (take (Suc i) events) a =
    due (take i events) a @ (if snd (events ! i) = a then event_types (fst (events ! i)) else [])"
  by (simp add: due_def take_Suc_conv_app_nth split: prod.splits)

lemma progress_more:
  assumes "progress old events i ts w" "snd (events ! i) \<in> closed (drop (length old) (wo_trace w))"
  shows "progress old events i (ts @ us) w"
  using assms unfolding progress_def Let_def by (auto intro: prefix_order.trans)

lemma dispatch_ok:
  assumes user: "well_behaved user" and P: "progress old events i ts w" and i: "i < length events"
    and a: "a = snd (events ! i)" "a \<notin> closed (drop (length old) (wo_trace w))"
  shows "\<exists>w'. descriptor_dispatch user a type w = Some w' \<and> progress old events i (ts @ [type]) w'"
proof -
  define t where "t = drop (length old) (wo_trace w)"
  note P' = P [unfolded progress_def Let_def, folded t_def]
  obtain d where d: "wo_store w a = Some d" using P' i a by (auto simp: open_at_def t_def split: option.splits)
  define v where "v = w\<lparr>wo_trace := wo_trace w @ [Called a type]\<rparr>"
  have v: "world_inv v" "batch_sane v" using P' by (simp_all add: v_def world_inv_def batch_sane_def)
  have "\<exists>w' s. reactor_dispatch (user_call user) (de_handler d) type 0 v = Some w' \<and> world_inv w' \<and> advance v w' s"
  proof (cases "h_callback (de_handler d)")
    case None
    then show ?thesis using v advance_refl by (auto simp: reactor_dispatch_def)
  next
    case (Some c)
    then show ?thesis using user v run_script_ok [OF v] by (simp add: reactor_dispatch_def user_call_def well_behaved_def)
  qed
  then obtain w' s where w': "reactor_dispatch (user_call user) (de_handler d) type 0 v = Some w'" "world_inv w'" "advance v w' s"
    by blast
  have old: "wo_trace w = old @ t" using P' by (auto simp: prefix_def t_def)
  have tr: "drop (length old) (wo_trace w') = t @ Called a type # s" "prefix old (wo_trace w')"
    and quiet: "calls b s = []" for b
    using w'(3) old by (simp_all add: advance_def v_def)
  have "progress old events i (ts @ [type]) w'"
    unfolding progress_def Let_def tr(1)
  proof (intro conjI allI impI)
    show "batch_sane w'" by (rule advance_sane [OF w'(3) v(2)])
    show "orderly (t @ Called a type # s)"
      using P' a(2) quiet orderly_quiet [of s] by (auto simp: orderly_append t_def)
    show "prefix (calls b (t @ Called a type # s)) (due (take i events) b @ (if i < length events \<and> snd (events ! i) = b then ts @ [type] else []))" for b
    proof (cases "b = a")
      case True
      then show ?thesis using P' a i quiet by (simp add: t_def)
    next
      case False
      then have "prefix (calls b t) (due (take i events) b @ (if i < length events \<and> snd (events ! i) = b then ts else []))"
        using P' by blast
      then show ?thesis using False a(1) quiet by simp
    qed
    show "calls b (t @ Called a type # s) = due (take i events) b @ (if i < length events \<and> snd (events ! i) = b then ts @ [type] else [])"
      if "b \<notin> closed (t @ Called a type # s)" for b
      using P' a i quiet that by (auto simp: t_def)
    show "if snd (events ! j) \<in> closed (t @ Called a type # s) then rc_batch w' ! j = blank_event
      else rc_batch w' ! j = \<lparr>ev_events = fst (events ! j), ev_ptr = Some (snd (events ! j))\<rparr> \<and> open_at w' (snd (events ! j))"
      if "i \<le> j" "j < length events" for j
    proof -
      have b: "rc_batch w' ! j = blanked (closed s) (rc_batch w ! j)"
        and o: "open_at w (snd (events ! j)) \<Longrightarrow> snd (events ! j) \<notin> closed s \<Longrightarrow> open_at w' (snd (events ! j))"
        using w'(3) P' that by (simp_all add: advance_def v_def batch_sane_def open_at_def)
      have "if snd (events ! j) \<in> closed t then rc_batch w ! j = blank_event
        else rc_batch w ! j = \<lparr>ev_events = fst (events ! j), ev_ptr = Some (snd (events ! j))\<rparr> \<and> open_at w (snd (events ! j))"
        using P' that by blast
      then show ?thesis using b o by (auto simp: blanked_def blank_event_def split: if_splits)
    qed
  qed (use w' P' tr in \<open>simp_all add: advance_def v_def\<close>)
  then show ?thesis using d w'(1) by (auto simp: descriptor_dispatch_def v_def)
qed

lemma signal_ok:
  assumes user: "well_behaved user" and P: "progress old events i ts w" and i: "i < length events" "events ! i = (m, a)"
  shows "\<exists>w'. descriptor_signal user a i bits type w = Some w' \<and>
    progress old events i (ts @ (if m AND bits \<noteq> 0 then [type] else [])) w'"
proof -
  note P' = P [unfolded progress_def Let_def]
  have cell: "if a \<in> closed (drop (length old) (wo_trace w)) then rc_batch w ! i = blank_event
      else rc_batch w ! i = \<lparr>ev_events = m, ev_ptr = Some a\<rparr>"
    using P' i by (auto split: if_splits)
  have at: "event_at w i = Some (rc_batch w ! i)" using P' i by (simp add: event_at_def batch_sane_def)
  show ?thesis
  proof (cases "a \<in> closed (drop (length old) (wo_trace w))")
    case True
    then have "descriptor_signal user a i bits type w = Some w"
      using cell at by (simp add: descriptor_signal_def blank_event_def)
    moreover have "progress old events i (ts @ us) w" for us
      by (rule progress_more [OF P]) (simp add: i True)
    ultimately show ?thesis by blast
  next
    case False
    then have "rc_batch w ! i = \<lparr>ev_events = m, ev_ptr = Some a\<rparr>" using cell by simp
    then show ?thesis using dispatch_ok [OF user P i(1), of a type] at False i(2) P
      by (auto simp: descriptor_signal_def)
  qed
qed

lemma open_at_event [simp]: "open_at (w\<lparr>rc_event := k\<rparr>) a \<longleftrightarrow> open_at w a"
  by (simp add: open_at_def)

lemma progress_next:
  assumes "progress old events i (event_types m) w" "i < length events" "events ! i = (m, a)"
  shows "progress old events (Suc i) [] (w\<lparr>rc_event := rc_event w + 1\<rparr>)"
proof -
  have "due (take (Suc i) events) b = due (take i events) b @ (if a = b then event_types m else [])" for b
    using due_snoc [OF assms(2), of b] assms(3) by simp
  then have d: "due (take (Suc i) events) b @ (if Suc i < length events \<and> snd (events ! Suc i) = b then [] else []) =
      due (take i events) b @ (if i < length events \<and> snd (events ! i) = b then event_types m else [])" for b
    using assms(2,3) by simp
  note P = assms(1) [unfolded progress_def Let_def]
  show ?thesis
    unfolding progress_def Let_def d
  proof (intro conjI allI impI)
    show "world_inv (w\<lparr>rc_event := rc_event w + 1\<rparr>)" using P by (simp add: world_inv_def)
    show "batch_sane (w\<lparr>rc_event := rc_event w + 1\<rparr>)" using P assms(2) by (simp add: batch_sane_def)
    show "if snd (events ! j) \<in> closed (drop (length old) (wo_trace (w\<lparr>rc_event := rc_event w + 1\<rparr>)))
      then rc_batch (w\<lparr>rc_event := rc_event w + 1\<rparr>) ! j = blank_event
      else rc_batch (w\<lparr>rc_event := rc_event w + 1\<rparr>) ! j = \<lparr>ev_events = fst (events ! j), ev_ptr = Some (snd (events ! j))\<rparr> \<and>
        open_at (w\<lparr>rc_event := rc_event w + 1\<rparr>) (snd (events ! j))" if "Suc i \<le> j" "j < length events" for j
    proof -
      have "i \<le> j" using that(1) by simp
      then show ?thesis using P that(2) by simp
    qed
  qed (use P in simp_all)
qed

lemma callback_ok:
  assumes user: "well_behaved user" and P: "progress old events i [] w" and i: "i < length events"
    and h: "handler_at epoll_handler_at w (ev_ptr (rc_batch w ! i)) = Some h"
  shows "\<exists>w'. reactor_dispatch (descriptor_callback user) h REACTOR_EPOLL_EVENT i w = Some w' \<and>
    progress old events (Suc i) [] (w'\<lparr>rc_event := rc_event w' + 1\<rparr>)"
proof -
  obtain m a where e: "events ! i = (m, a)" by (cases "events ! i")
  note P' = P [unfolded progress_def Let_def]
  have "\<exists>w'. reactor_dispatch (descriptor_callback user) h REACTOR_EPOLL_EVENT i w = Some w' \<and>
    progress old events i (event_types m) w'"
  proof (cases "a \<in> closed (drop (length old) (wo_trace w))")
    case True
    have "snd (events ! i) \<in> closed (drop (length old) (wo_trace w))" using True e by simp
    then have "rc_batch w ! i = blank_event" using P' i by (auto split: if_splits)
    then have "reactor_dispatch (descriptor_callback user) h REACTOR_EPOLL_EVENT i w = Some w"
      using h by (simp add: handler_at_def blank_event_def reactor_handler_default_def reactor_dispatch_def split: option.splits)
        (auto simp: reactor_handler_default_def reactor_dispatch_def)
    moreover have "progress old events i (event_types m) w"
      using progress_more [OF P, of "event_types m"] True e by simp
    ultimately show ?thesis by blast
  next
    case False
    then have c: "rc_batch w ! i = \<lparr>ev_events = m, ev_ptr = Some a\<rparr>" "open_at w a"
      using P' i e by (auto split: if_splits)
    then obtain d where "wo_store w a = Some d" "descriptor_is_open d" by (auto simp: open_at_def split: option.splits)
    then have h': "h = \<lparr>h_callback = Some (), h_state = a\<rparr>"
      using h c(1) world_invD(2) [of w a d] P' by (simp add: handler_at_def epoll_handler_at_def)
    obtain w1 where w1: "descriptor_signal user a i EPOLLIN DESCRIPTOR_READ w = Some w1"
      "progress old events i (if m AND EPOLLIN \<noteq> 0 then [DESCRIPTOR_READ] else []) w1"
      using signal_ok [OF user P i e, of EPOLLIN DESCRIPTOR_READ] by auto
    obtain w2 where w2: "descriptor_signal user a i EPOLLOUT DESCRIPTOR_WRITE w1 = Some w2"
      "progress old events i ((if m AND EPOLLIN \<noteq> 0 then [DESCRIPTOR_READ] else []) @ (if m AND EPOLLOUT \<noteq> 0 then [DESCRIPTOR_WRITE] else [])) w2"
      using signal_ok [OF user w1(2) i e, of EPOLLOUT DESCRIPTOR_WRITE] by blast
    show ?thesis
      using signal_ok [OF user w2(2) i e, of "NOT (EPOLLIN OR EPOLLOUT)" DESCRIPTOR_CLOSE] w1(1) w2(1)
      by (simp add: h' reactor_dispatch_def descriptor_callback_def event_types_def)
  qed
  then show ?thesis using progress_next i e by blast
qed

interpretation descriptors: reactor_handlers "descriptor_callback user" epoll_handler_at
  "\<lambda>i w. well_behaved user \<and> progress old events i [] w"
  for user old events
proof unfold_locales
  fix i w
  assume P: "well_behaved user \<and> progress old events i [] w"
  then have P': "rc_event w = i" "rc_event_end w = length events" "batch_sane w"
    by (simp_all add: progress_def Let_def)
  then show "rc_event w = i \<and> i \<le> rc_event_end w \<and> length (rc_batch w) = rc_event_end w"
    by (simp add: batch_sane_def)
  assume i: "i < rc_event_end w"
  have cell: "if snd (events ! i) \<in> closed (drop (length old) (wo_trace w)) then rc_batch w ! i = blank_event
      else ev_ptr (rc_batch w ! i) = Some (snd (events ! i)) \<and> open_at w (snd (events ! i))"
    using P i P'(2) by (auto simp: progress_def Let_def)
  then show "\<exists>h. handler_at epoll_handler_at w (ev_ptr (rc_batch w ! i)) = Some h"
    by (auto simp: handler_at_def epoll_handler_at_def open_at_def blank_event_def split: if_splits option.splits)
  fix h
  assume h: "handler_at epoll_handler_at w (ev_ptr (rc_batch w ! i)) = Some h"
  obtain w' where w': "reactor_dispatch (descriptor_callback user) h REACTOR_EPOLL_EVENT i w = Some w'"
    "progress old events (Suc i) [] (w'\<lparr>rc_event := rc_event w' + 1\<rparr>)"
    using callback_ok [of user old events i w h] P P'(2) i h by auto
  then have "rc_event_end w' = rc_event_end w" using P'(2) by (simp add: progress_def Let_def)
  then show "\<exists>w'. reactor_dispatch (descriptor_callback user) h REACTOR_EPOLL_EVENT i w = Some w' \<and>
      rc_event_end w' = rc_event_end w \<and>
      well_behaved user \<and> progress old events (Suc i) [] (w'\<lparr>rc_event := rc_event w' + 1\<rparr>)"
    using w' P by blast
qed

text \<open>What \<open>epoll_wait\<close> may answer: up to 32 events, of descriptors that are registered.\<close>

definition reported :: "world \<Rightarrow> nat epoll_result \<Rightarrow> bool" where
  "reported w result \<longleftrightarrow> (case result of Interrupted \<Rightarrow> True | Failed \<Rightarrow> False
     | Ready events \<Rightarrow> length events \<le> REACTOR_MAX_EVENTS \<and> (\<forall>(m, a) \<in> set events. open_at w a))"

definition events_of :: "nat epoll_result \<Rightarrow> (u32 \<times> nat) list" where
  "events_of result = (case result of Ready events \<Rightarrow> events | _ \<Rightarrow> [])"

lemma descriptors_once_ok:
  assumes user: "well_behaved user" and inv: "world_inv w" and r: "reported w result"
  shows "\<exists>w' t. descriptors_once user result w = Some w' \<and> world_inv w' \<and> wo_trace w' = wo_trace w @ t \<and> orderly t \<and>
    (\<forall>a. prefix (calls a t) (due (events_of result) a)) \<and>
    (\<forall>a. a \<notin> closed t \<longrightarrow> calls a t = due (events_of result) a)"
proof (cases result)
  case (Ready events)
  define v where "v = w\<lparr>rc_time := 0, rc_event := 0, rc_event_end := length events,
    rc_batch := map (\<lambda>(m, a). \<lparr>ev_events = m, ev_ptr = Some a\<rparr>) events\<rparr>"
  have o: "open_at w (snd (events ! j))" if "j < length events" for j
    using r Ready that nth_mem [OF that] by (cases "events ! j") (auto simp: reported_def)
  have "progress (wo_trace w) events 0 [] v"
    unfolding progress_def Let_def
    using inv o by (auto simp: v_def world_inv_def batch_sane_def open_at_def due_def split_beta)
  then obtain w' where w': "batch_loop (descriptor_callback user) epoll_handler_at v = Some w'"
    "progress (wo_trace w) events (rc_event_end w') [] w'"
    using descriptors.batch_ends [of user "wo_trace w" events 0 v] user by blast
  have e: "rc_event_end w' = length events" using w'(2) by (simp add: progress_def Let_def)
  note P = w'(2) [unfolded e, unfolded progress_def Let_def, simplified]
  obtain t where t: "wo_trace w' = wo_trace w @ t" using P by (auto simp: prefix_def)
  have "descriptors_once user result w = Some w'"
    using w'(1) r Ready by (simp add: descriptors_once_def reactor_loop_once_def v_def reported_def Let_def)
  then show ?thesis using P Ready t by (intro exI [of _ w'] exI [of _ t]) (simp add: events_of_def)
next
  case Interrupted
  then show ?thesis using inv by (auto simp: descriptors_once_def reactor_loop_once_def world_inv_def events_of_def due_def Let_def)
next
  case Failed
  then show ?thesis using r by (simp add: reported_def)
qed

section \<open>The loop\<close>

definition turns :: "user \<Rightarrow> (nat \<Rightarrow> world \<Rightarrow> nat epoll_result) \<Rightarrow> world \<Rightarrow> nat \<Rightarrow> world option" where
  "turns user wait = reactor_turns (descriptor_callback user) epoll_handler_at wait 0"

definition idle :: "world \<Rightarrow> bool" where
  "idle w \<longleftrightarrow> \<not> rc_active w \<or> (\<forall>a. \<not> open_at w a)"

lemma idle_iff:
  assumes "world_inv w"
  shows "idle w \<longleftrightarrow> \<not> (rc_active w \<and> rc_descriptors w \<noteq> 0)"
proof -
  note I = world_invD [OF assms]
  have "rc_interest w = Map.empty \<longleftrightarrow> (\<forall>a. \<not> open_at w a)"
  proof
    assume e: "rc_interest w = Map.empty"
    show "\<forall>a. \<not> open_at w a"
      using registered_at [OF I(1)] e by (auto simp: open_at_def split: option.splits)
  next
    assume n: "\<forall>a. \<not> open_at w a"
    show "rc_interest w = Map.empty"
    proof (rule ccontr)
      assume "rc_interest w \<noteq> Map.empty"
      then obtain fd m a where "rc_interest w fd = Some (m, a)" by (metis ext not_None_eq surj_pair)
      then obtain d where "wo_store w a = Some d" "descriptor_is_open d" by (rule registered_owner [OF I(1)])
      then have "open_at w a" by (simp add: open_at_def)
      then show False using n by simp
    qed
  qed
  then show ?thesis using count_open(4) [OF I(3,4)] by (auto simp: idle_def)
qed

lemma turns_ok:
  assumes "well_behaved user" "world_inv w" "\<forall>k v. world_inv v \<longrightarrow> reported v (wait k v)"
  shows "\<exists>v. turns user wait w k = Some v \<and> world_inv v"
proof (induction k)
  case 0
  then show ?case using assms(2) by (simp add: turns_def)
next
  case (Suc k)
  then obtain v where "turns user wait w k = Some v" "world_inv v" by blast
  then show ?case
    using descriptors_once_ok [OF assms(1), of v "wait k v"] assms(3) by (auto simp: turns_def descriptors_once_def)
qed

text \<open>The example of the witnesses: one open descriptor, and a program that closes it when it is called.\<close>

definition one_open :: world where
  "one_open = \<lparr>rc_epoll_fd = 3, rc_active = True, rc_descriptors = 1, rc_time = 0, rc_event = 0, rc_event_end = 0,
     rc_batch = [], rc_interest = [5 \<mapsto> (0x80002011, 1)],
     wo_store = [1 \<mapsto> \<lparr>de_handler = \<lparr>h_callback = Some 7, h_state = 0\<rparr>,
       de_epoll_handler = \<lparr>h_callback = Some (), h_state = 1\<rparr>, de_fd = 5, de_mask = 1\<rparr>],
     wo_trace = []\<rparr>"

definition closing_user :: user where
  "closing_user c ev w = (if wo_store w 1 = None then [] else [Close 1])"

definition busy_wait :: "nat \<Rightarrow> world \<Rightarrow> nat epoll_result" where
  "busy_wait k w = (if open_at w 1 then Ready [(5, 1)] else Interrupted)"

lemma closing_user_ok: "well_behaved closing_user"
  by (auto simp: well_behaved_def closing_user_def split: option.splits)

lemma one_open_ok: "world_inv one_open" "open_at one_open 1"
  by (auto simp: world_inv_def one_open_def registered_def open_at_def descriptor_is_open_def descriptor_events_def
      EPOLLHUP_def EPOLLRDHUP_def EPOLLIN_def EPOLLOUT_def EPOLLET_def DESCRIPTOR_READ_def DESCRIPTOR_WRITE_def
      DESCRIPTOR_LEVEL_def split: if_splits)

lemma busy_wait_ok: "reported w (busy_wait k w)"
  by (simp add: reported_def busy_wait_def REACTOR_MAX_EVENTS_def)

text \<open>
  C1. In every turn of the event loop, whatever the callbacks do within the contract (close,
  destruct, free and reopen any descriptors, their own included), the turn runs to its end without
  reading freed memory, and no handler is called after its descriptor has been closed: the
  events that are still pending for it are dropped.
\<close>

theorem reactor_no_stale_call:
  assumes "well_behaved user" "world_inv w" "reported w result"
  shows "\<exists>w' t. descriptors_once user result w = Some w' \<and> wo_trace w' = wo_trace w @ t \<and> orderly t"
  using descriptors_once_ok [OF assms] by blast

theorem reactor_no_stale_call_witness:
  "\<exists>w' t. descriptors_once closing_user (Ready [(5, 1)]) one_open = Some w' \<and> wo_trace w' = wo_trace one_open @ t \<and> orderly t"
  using reactor_no_stale_call [OF closing_user_ok one_open_ok(1), of "Ready [(5, 1)]"] one_open_ok(2)
  by (simp add: reported_def REACTOR_MAX_EVENTS_def)

text \<open>
  C2. The event loop loses no event and invents none: in a turn, the calls of the handler of
  a descriptor that is not closed during the turn are exactly those its reported events ask for, in the
  order of the reports, and within one report read before write before close; for a descriptor that
  is closed they are an initial part of them.
\<close>

theorem reactor_delivers:
  assumes "well_behaved user" "world_inv w" "reported w result"
  shows "\<exists>w' t. descriptors_once user result w = Some w' \<and> wo_trace w' = wo_trace w @ t \<and>
    prefix (calls a t) (due (events_of result) a) \<and> (a \<in> closed t \<or> calls a t = due (events_of result) a)"
  using descriptors_once_ok [OF assms] by blast

theorem reactor_delivers_witness:
  "\<exists>w' t. descriptors_once (\<lambda>c ev w. []) (Ready [(5, 1)]) one_open = Some w' \<and> wo_trace w' = wo_trace one_open @ t \<and>
    prefix (calls 1 t) [1, 2] \<and> (1 \<in> closed t \<or> calls 1 t = [1, 2])"
proof -
  have "well_behaved (\<lambda>c ev w. [])" by (simp add: well_behaved_def)
  moreover have "due (events_of (Ready [(5, 1)])) 1 = [1, 2]"
    by (simp add: due_def events_of_def event_types_def EPOLLIN_def EPOLLOUT_def DESCRIPTOR_READ_def DESCRIPTOR_WRITE_def)
  ultimately show ?thesis
    using reactor_delivers [of "\<lambda>c ev w. []" one_open "Ready [(5, 1)]" 1] one_open_ok
    by (simp add: reported_def REACTOR_MAX_EVENTS_def)
qed

text \<open>
  C20. Every turn keeps the invariant that the interest list of the kernel holds exactly the
  open descriptors, under their file descriptors, with the events of their masks, and that the
  reactor counts them.
\<close>

theorem reactor_turn_invariant:
  assumes "well_behaved user" "world_inv w" "reported w result"
  shows "\<exists>w'. descriptors_once user result w = Some w' \<and> world_inv w'"
  using descriptors_once_ok [OF assms] by blast

theorem reactor_turn_invariant_witness:
  "\<exists>w'. descriptors_once closing_user (busy_wait 0 one_open) one_open = Some w' \<and> world_inv w'"
  using reactor_turn_invariant [OF closing_user_ok one_open_ok(1) busy_wait_ok] .

text \<open>
  C21. \<open>reactor_loop\<close> returns if and only if after some number of turns the reactor has been
  aborted or no descriptor is open any more, and it returns the state after the first such turn.
\<close>

theorem reactor_loop_ends:
  assumes "well_behaved user" "world_inv w" "\<forall>k v. world_inv v \<longrightarrow> reported v (wait k v)"
  shows "descriptors_loop user wait w = Some y \<longleftrightarrow>
    (\<exists>k. turns user wait w k = Some y \<and> idle y \<and> (\<forall>i<k. \<exists>v. turns user wait w i = Some v \<and> \<not> idle v))"
proof -
  note T = turns_ok [OF assms]
  have stop: "\<not> (rc_active v \<and> rc_descriptors v \<noteq> 0) \<longleftrightarrow> idle v" if "turns user wait w k = Some v" for k v
    using T [of k] idle_iff [of v] that by auto
  have ends: "descriptors_loop user wait w = Some v"
    if "turns user wait w k = Some v" "idle v" "\<forall>i<k. \<exists>v. turns user wait w i = Some v \<and> \<not> idle v" for k v
    unfolding descriptors_loop_def
  proof (rule reactor_loop_stops [of _ _ _ _ _ k])
    show "\<forall>i<k. \<forall>u. reactor_turns (descriptor_callback user) epoll_handler_at wait 0 w i = Some u \<longrightarrow>
        rc_active u \<and> rc_descriptors u \<noteq> 0"
      using that(3) stop unfolding turns_def by fastforce
  qed (use that(1) stop [OF that(1)] that(2) in \<open>simp_all add: turns_def\<close>)
  show ?thesis
  proof
    assume "descriptors_loop user wait w = Some y"
    then obtain j where j: "turns user wait w j = Some y" "idle y"
      using reactor_loop_turns [of "descriptor_callback user" epoll_handler_at wait 0 w y] stop
      by (auto simp: descriptors_loop_def turns_def)
    define k where "k = (LEAST k. \<exists>v. turns user wait w k = Some v \<and> idle v)"
    have "\<exists>v. turns user wait w k = Some v \<and> idle v" unfolding k_def using j by (intro LeastI) blast
    then obtain v where v: "turns user wait w k = Some v" "idle v" by blast
    have first: "\<forall>i<k. \<exists>v. turns user wait w i = Some v \<and> \<not> idle v"
      using T not_less_Least unfolding k_def by blast
    have "v = y" using ends [OF v first] \<open>descriptors_loop user wait w = Some y\<close> by simp
    then show "\<exists>k. turns user wait w k = Some y \<and> idle y \<and> (\<forall>i<k. \<exists>v. turns user wait w i = Some v \<and> \<not> idle v)"
      using v first by blast
  qed (use ends in blast)
qed

lemma closing_turn:
  "\<exists>y. batch_loop (descriptor_callback closing_user) epoll_handler_at
     (one_open\<lparr>rc_time := 0, rc_event := 0, rc_event_end := Suc 0, rc_batch := [\<lparr>ev_events = 5, ev_ptr = Some 1\<rparr>]\<rparr>) = Some y \<and> idle y"
  by (subst batch_loop.simps, simp add: one_open_def event_at_def handler_at_def epoll_handler_at_def reactor_dispatch_def descriptor_callback_def
    REACTOR_EPOLL_EVENT_def descriptor_signal_def EPOLLIN_def EPOLLOUT_def descriptor_dispatch_def user_call_def closing_user_def
    on_descriptor_def descriptor_close_def descriptor_is_open_def reactor_delete_def record_close_def blank_pending_def blank_event_def Let_def)
    (subst batch_loop.simps, simp add: idle_def open_at_def descriptor_is_open_def)

theorem reactor_loop_ends_witness:
  "\<exists>y. descriptors_loop closing_user busy_wait one_open = Some y \<and> idle y"
proof -
  have w: "\<forall>k v. world_inv v \<longrightarrow> reported v (busy_wait k v)" using busy_wait_ok by blast
  have "\<exists>y. turns closing_user busy_wait one_open 1 = Some y \<and> idle y"
    using one_open_ok(2) closing_turn by (simp add: turns_def busy_wait_def reactor_loop_once_def REACTOR_MAX_EVENTS_def Let_def)
  then obtain y where y: "turns closing_user busy_wait one_open 1 = Some y" "idle y" by blast
  have "\<not> idle one_open" using one_open_ok(2) by (auto simp: idle_def) (simp add: one_open_def)
  then have "\<forall>i<1. \<exists>v. turns closing_user busy_wait one_open i = Some v \<and> \<not> idle v"
    by (simp add: turns_def)
  then have "descriptors_loop closing_user busy_wait one_open = Some y"
    using reactor_loop_ends [OF closing_user_ok one_open_ok(1) w, of y] y by blast
  then show ?thesis using y(2) by blast
qed

end
