(* ===== verification/Stream.thy ===== *)
theory Stream
  imports Descriptor Buffer
begin

text \<open>
  \<^verbatim>\<open>src/reactor/stream.c\<close>: buffered input and output over a descriptor, on a plain socket or
  pipe and through OpenSSL. The operations take the address \<open>a\<close> of the descriptor inside of the
  stream, the stream, and the reactor, which is extended by the flag \<open>stream_ssl_activated\<close>.

  What the system calls and OpenSSL answer is an argument: the list of the answers of the
  successive calls of \<open>read\<close> or \<open>SSL_read\<close>, and of \<open>write\<close>. An operation that writes also returns
  the bytes the call has taken. A failed assertion, an access outside of a buffer, the transmission of a byte
  that was never written, and the use of a freed OpenSSL object are \<^term>\<open>None\<close>. The
  callbacks dispatch at most one event to the handler of the stream, as their last action; they
  return its type.
\<close>

definition STREAM_RECEIVE_SIZE :: nat where "STREAM_RECEIVE_SIZE = 65536"
definition STREAM_CLOSE :: "'a :: semiring_1" where "STREAM_CLOSE = DESCRIPTOR_CLOSE"
definition STREAM_READ :: "'a :: semiring_1" where "STREAM_READ = DESCRIPTOR_READ"
definition STREAM_WRITE :: "'a :: semiring_1" where "STREAM_WRITE = DESCRIPTOR_WRITE"

datatype stream_callback = Socket_Callback | Ssl_Callback
datatype ssl_pointer = No_Ssl | Live_Ssl | Freed_Ssl

record 'c stream =
  sm_handler :: "'c handler"
  sm_descriptor :: "stream_callback descriptor"
  sm_is_socket :: bool
  sm_mask :: u32
  sm_notify :: bool
  sm_input :: buffer
  sm_output :: buffer
  sm_ssl :: ssl_pointer
  sm_ssl_state :: int

record 'p ssl_reactor = "'p reactor" +
  ssl_activated :: bool

text \<open>An answer of \<open>write\<close>: the system has room for some bytes and takes as many, \<open>EAGAIN\<close>, or another error.\<close>

datatype write_answer = Room nat | Again | Broken

section \<open>Sockets and pipes\<close>

text \<open>The answers of \<open>read\<close> are what its calls deliver; the call behind them returns -1.\<close>

definition receive_room :: "'c stream \<Rightarrow> u64 \<Rightarrow> 'c stream" where
  "receive_room s n = s\<lparr>sm_input := buffer_reserve (sm_input s) (buffer_size (sm_input s) + n)\<rparr>"

definition receive :: "'c stream \<Rightarrow> string \<Rightarrow> 'c stream option" where
  "receive s xs = (let b = sm_input s in do {
     d \<leftarrow> mem_write (buffer_data b) (unat (buffer_size b)) (map Some xs);
     Some (s\<lparr>sm_input := b\<lparr>buf_data := d, buf_size := buf_size b + word_of_nat (length xs)\<rparr>\<rparr>) })"

primrec socket_read_loop :: "'c stream \<Rightarrow> u64 \<Rightarrow> string list \<Rightarrow> ('c stream \<times> u64) option" where
  "socket_read_loop s tot [] = Some (receive_room s (word_of_nat STREAM_RECEIVE_SIZE), tot)"
| "socket_read_loop s tot (xs # rs) =
     (let s = receive_room s (word_of_nat STREAM_RECEIVE_SIZE) in
      if length xs \<le> STREAM_RECEIVE_SIZE then do {
        s \<leftarrow> receive s xs;
        (let tot = tot + word_of_nat (length xs) in
         if length xs = STREAM_RECEIVE_SIZE then socket_read_loop s tot rs else Some (s, tot)) }
      else None)"

definition stream_socket_read :: "'c stream \<Rightarrow> string list \<Rightarrow> ('c stream \<times> u64) option" where
  "stream_socket_read s rs = socket_read_loop s 0 rs"

definition stream_socket_mask :: "'c stream \<Rightarrow> u32" where
  "stream_socket_mask s = (sm_mask s AND STREAM_READ) OR
     (if buffer_size (sm_output s) \<noteq> 0 \<or> sm_notify s then STREAM_WRITE else 0)"

definition stream_socket_update :: "nat \<Rightarrow> 'c stream \<Rightarrow> (nat, 'z) ssl_reactor_scheme
    \<Rightarrow> ('c stream \<times> (nat, 'z) ssl_reactor_scheme) option" where
  "stream_socket_update a s w = do {
     (d, w) \<leftarrow> descriptor_mask a (sm_descriptor s) (stream_socket_mask s) w;
     Some (s\<lparr>sm_descriptor := d\<rparr>, w) }"

text \<open>\<open>write\<close> takes part of the bytes, or would block, or fails otherwise; behind the list it would block.\<close>

primrec socket_write_loop :: "block \<Rightarrow> u64 \<Rightarrow> u64 \<Rightarrow> string \<Rightarrow> write_answer list
    \<Rightarrow> (u64 \<times> string \<times> write_answer list) option" where
  "socket_write_loop d n tot sent [] = Some (tot, sent, [])"
| "socket_write_loop d n tot sent (r # rs) =
     (if n - tot \<noteq> 0 then
        (case r of
           Again \<Rightarrow> Some (tot, sent, rs)
         | Broken \<Rightarrow> None
         | Room k \<Rightarrow> (let k = min k (unat (n - tot)) in do {
             cells \<leftarrow> mem_read d (unat tot) k;
             xs \<leftarrow> those cells;
             socket_write_loop d n (tot + word_of_nat k) (sent @ xs) rs }))
      else Some (tot, sent, r # rs))"

definition stream_socket_write :: "'c stream \<Rightarrow> write_answer list \<Rightarrow> ('c stream \<times> string \<times> write_answer list) option" where
  "stream_socket_write s rs = do {
     (tot, sent, rs) \<leftarrow> socket_write_loop (buffer_data (sm_output s)) (buffer_size (sm_output s)) 0 [] rs;
     b \<leftarrow> buffer_erase (sm_output s) 0 tot;
     Some (s\<lparr>sm_output := b\<rparr>, sent, rs) }"

definition stream_socket_callback :: "nat \<Rightarrow> nat \<Rightarrow> string list \<Rightarrow> write_answer list \<Rightarrow> 'c stream
    \<Rightarrow> (nat, 'z) ssl_reactor_scheme
    \<Rightarrow> ('c stream \<times> (nat, 'z) ssl_reactor_scheme \<times> string \<times> write_answer list \<times> nat option) option" where
  "stream_socket_callback a type reads writes s w =
     (if type = DESCRIPTOR_READ then do {
        (s, n) \<leftarrow> stream_socket_read s reads;
        Some (s, w, [], writes, if n \<noteq> 0 then Some STREAM_READ else None) }
      else if type = DESCRIPTOR_WRITE then do {
        (s, sent, writes) \<leftarrow> stream_socket_write s writes;
        (if buffer_size (sm_output s) = 0 \<or> sm_notify s then do {
           (s, w) \<leftarrow> stream_socket_update a (s\<lparr>sm_notify := False\<rparr>) w;
           Some (s, w, sent, writes, Some STREAM_WRITE) }
         else do {
           (s, w) \<leftarrow> stream_socket_update a s w;
           Some (s, w, sent, writes, None) }) }
      else Some (s, w, [], writes, Some STREAM_CLOSE))"

definition stream_socket_open :: "nat \<Rightarrow> 'c stream \<Rightarrow> int \<Rightarrow> (nat, 'z) ssl_reactor_scheme
    \<Rightarrow> ('c stream \<times> (nat, 'z) ssl_reactor_scheme) option" where
  "stream_socket_open a s fd w = (let d = descriptor_construct a (Some Socket_Callback) a (sm_descriptor s) in do {
     (d, w) \<leftarrow> descriptor_open a d fd (stream_socket_mask s) w;
     Some (s\<lparr>sm_descriptor := d\<rparr>, w) })"

section \<open>OpenSSL\<close>

definition SSL_ERROR_WANT_WRITE :: int where "SSL_ERROR_WANT_WRITE = 3"

definition stream_ssl_mask :: "'c stream \<Rightarrow> u32" where
  "stream_ssl_mask s = (sm_mask s AND STREAM_READ) OR
     (if sm_ssl_state s = SSL_ERROR_WANT_WRITE \<or> buffer_size (sm_output s) \<noteq> 0 \<or> sm_notify s then STREAM_WRITE else 0)"

definition stream_ssl_update :: "nat \<Rightarrow> 'c stream \<Rightarrow> (nat, 'z) ssl_reactor_scheme
    \<Rightarrow> ('c stream \<times> (nat, 'z) ssl_reactor_scheme) option" where
  "stream_ssl_update a s w = do {
     (d, w) \<leftarrow> descriptor_mask a (sm_descriptor s) (stream_ssl_mask s) w;
     Some (s\<lparr>sm_descriptor := d\<rparr>, w) }"

text \<open>
  The length of \<open>SSL_write\<close> is an \<open>int\<close>, to which the call of \<open>stream_ssl_flush\<close> converts the \<open>size_t\<close>
  size of the output: \<open>ssl_length\<close> is the number of bytes it is given, none when the conversion makes
  the length negative, which \<open>SSL_write\<close> reports as an error.
\<close>

definition ssl_length :: "u64 \<Rightarrow> nat" where
  "ssl_length n = nat (sint (ucast n :: 32 word))"

lemma uint_ucast_32: "uint (ucast (n :: u64) :: 32 word) = take_bit 32 (uint n)"
  by (simp add: unsigned_ucast_eq)

lemma sint_ucast_32: "sint (ucast (n :: u64) :: 32 word) = signed_take_bit 31 (uint n)"
  by (simp add: sint_uint uint_ucast_32 signed_take_bit_take_bit)

lemma ssl_length_le: "ssl_length n \<le> unat n"
proof -
  have "signed_take_bit 31 (uint n) \<le> take_bit 32 (uint n)"
    by (simp add: signed_take_bit_eq_take_bit_minus)
  also have "\<dots> \<le> uint n" by (simp add: take_bit_int_less_eq_self_iff)
  finally show ?thesis by (simp add: ssl_length_def sint_ucast_32 nat_le_iff)
qed

lemma ssl_length_small:
  assumes "unat n < 2 ^ 31"
  shows "ssl_length n = unat n"
proof -
  have "uint n < 2 ^ 31" using assms by (simp add: unat_eq_nat_uint nat_less_iff del: nat_uint_eq)
  then have "signed_take_bit 31 (uint n) = uint n"
    by (intro signed_take_bit_int_eq_self) (auto intro: order_trans [of _ 0])
  then show ?thesis by (simp add: ssl_length_def sint_ucast_32)
qed

text \<open>An output of \<open>2^31\<close> bytes or more, short of \<open>2^32\<close>, is never given to \<open>SSL_write\<close> at all.\<close>

lemma ssl_length_negative:
  assumes "2 ^ 31 \<le> unat n" "unat n < 2 ^ 32"
  shows "ssl_length n = 0"
proof -
  have n: "2 ^ 31 \<le> uint n" "uint n < 2 ^ 32" using assms by (simp_all add: unat_eq_nat_uint nat_less_iff le_nat_iff del: nat_uint_eq)
  then have "take_bit 32 (uint n) = uint n" by (intro take_bit_int_eq_self) simp_all
  moreover have "bit (uint n) 31"
  proof -
    have "uint n div 2 ^ 31 = 1" using n by simp
    then show ?thesis by (simp add: bit_iff_odd)
  qed
  ultimately have "signed_take_bit 31 (uint n) < 0"
    using n by (simp add: signed_take_bit_eq_take_bit_minus)
  then show ?thesis unfolding ssl_length_def sint_ucast_32 by linarith
qed

text \<open>
  The answers of \<open>SSL_read\<close> are what its calls deliver, at least one byte each; behind them it
  returns a number of at most zero, of which \<open>SSL_get_error\<close> says \<open>err\<close>. An answer of \<open>SSL_write\<close>
  is the number of bytes taken, or the error.
\<close>

primrec ssl_read_loop :: "'c stream \<Rightarrow> u64 \<Rightarrow> string list \<Rightarrow> int \<Rightarrow> ('c stream \<times> u64) option" where
  "ssl_read_loop s tot [] err = Some ((receive_room s 16384)\<lparr>sm_ssl_state := err\<rparr>, tot)"
| "ssl_read_loop s tot (xs # rs) err =
     (if xs \<noteq> [] \<and> length xs \<le> 16384 then do {
        s \<leftarrow> receive (receive_room s 16384) xs;
        ssl_read_loop s (tot + word_of_nat (length xs)) rs err }
      else None)"

definition stream_ssl_read :: "'c stream \<Rightarrow> string list \<Rightarrow> int \<Rightarrow> (nat, 'z) ssl_reactor_scheme \<Rightarrow> ('c stream \<times> u64) option" where
  "stream_ssl_read s rs err w = (if ssl_activated w \<and> sm_ssl s = Live_Ssl then ssl_read_loop s 0 rs err else None)"

definition stream_ssl_flush :: "'c stream \<Rightarrow> int + nat \<Rightarrow> (nat, 'z) ssl_reactor_scheme \<Rightarrow> ('c stream \<times> string) option" where
  "stream_ssl_flush s r w =
     (if ssl_activated w \<and> sm_ssl s = Live_Ssl then
        (case r of
           Inl err \<Rightarrow> Some (s\<lparr>sm_ssl_state := err\<rparr>, [])
         | Inr n \<Rightarrow>
             if 0 < n \<and> n \<le> ssl_length (buffer_size (sm_output s)) then do {
               cells \<leftarrow> mem_read (buffer_data (sm_output s)) 0 n;
               xs \<leftarrow> those cells;
               b \<leftarrow> buffer_erase (sm_output s) 0 (word_of_nat n);
               Some (s\<lparr>sm_output := b, sm_ssl_state := 0\<rparr>, xs) }
             else None)
      else None)"

definition stream_ssl_callback :: "nat \<Rightarrow> nat \<Rightarrow> string list \<times> int \<Rightarrow> int + nat \<Rightarrow> 'c stream
    \<Rightarrow> (nat, 'z) ssl_reactor_scheme
    \<Rightarrow> ('c stream \<times> (nat, 'z) ssl_reactor_scheme \<times> string \<times> nat option) option" where
  "stream_ssl_callback a type reads write s w =
     (if type = DESCRIPTOR_READ then do {
        (s, n) \<leftarrow> stream_ssl_read s (fst reads) (snd reads) w;
        (s, w) \<leftarrow> stream_ssl_update a s w;
        Some (s, w, [], if n \<noteq> 0 then Some STREAM_READ else None) }
      else if type = DESCRIPTOR_WRITE then do {
        (s, sent) \<leftarrow> stream_ssl_flush s write w;
        (if buffer_size (sm_output s) = 0 \<and> sm_notify s then do {
           (s, w) \<leftarrow> stream_ssl_update a (s\<lparr>sm_notify := False\<rparr>) w;
           Some (s, w, sent, Some STREAM_WRITE) }
         else do {
           (s, w) \<leftarrow> stream_ssl_update a s w;
           Some (s, w, sent, None) }) }
      else Some (s, w, [], Some STREAM_CLOSE))"

text \<open>\<open>created\<close> says whether \<open>SSL_new\<close> returns an object; setting it up succeeds.\<close>

definition stream_ssl_open :: "nat \<Rightarrow> 'c stream \<Rightarrow> int \<Rightarrow> bool \<Rightarrow> (nat, 'z) ssl_reactor_scheme
    \<Rightarrow> ('c stream \<times> (nat, 'z) ssl_reactor_scheme) option" where
  "stream_ssl_open a s fd created w =
     (let w = w\<lparr>ssl_activated := True\<rparr> in
      if sm_is_socket s \<and> created then
        (let s = s\<lparr>sm_ssl := Live_Ssl\<rparr>;
             d = descriptor_construct a (Some Ssl_Callback) a (sm_descriptor s) in do {
           (d, w) \<leftarrow> descriptor_open a d fd (stream_ssl_mask s) w;
           Some (s\<lparr>sm_descriptor := d\<rparr>, w) })
      else None)"

section \<open>Streams\<close>

definition stream_construct :: "nat \<Rightarrow> 'c option \<Rightarrow> nat \<Rightarrow> 'c stream" where
  "stream_construct a callback state =
     \<lparr>sm_handler = reactor_handler_construct callback state,
      sm_descriptor = descriptor_construct a None 0
        \<lparr>de_handler = reactor_handler_default, de_epoll_handler = reactor_handler_default, de_fd = 0, de_mask = 0\<rparr>,
      sm_is_socket = False, sm_mask = 0, sm_notify = False, sm_input = buffer_construct, sm_output = buffer_construct,
      sm_ssl = No_Ssl, sm_ssl_state = 0\<rparr>"

text \<open>\<open>SSL_free\<close> takes the null pointer, but no object twice; \<open>stream->ssl\<close> keeps the pointer.\<close>

definition stream_close :: "nat \<Rightarrow> 'c stream \<Rightarrow> (nat, 'z) ssl_reactor_scheme
    \<Rightarrow> ('c stream \<times> (nat, 'z) ssl_reactor_scheme) option" where
  "stream_close a s w =
     (if \<not> descriptor_is_open (sm_descriptor s) then Some (s, w)
      else do {
        s \<leftarrow> (if ssl_activated w then
                (case sm_ssl s of No_Ssl \<Rightarrow> Some s | Live_Ssl \<Rightarrow> Some (s\<lparr>sm_ssl := Freed_Ssl\<rparr>) | Freed_Ssl \<Rightarrow> None)
              else Some s);
        (d, w) \<leftarrow> descriptor_close a (sm_descriptor s) w;
        Some (s\<lparr>sm_notify := False, sm_descriptor := d, sm_input := buffer_clear (sm_input s),
                sm_output := buffer_clear (sm_output s)\<rparr>, w) })"

definition stream_destruct :: "nat \<Rightarrow> 'c stream \<Rightarrow> (nat, 'z) ssl_reactor_scheme
    \<Rightarrow> ('c stream \<times> (nat, 'z) ssl_reactor_scheme) option" where
  "stream_destruct a s w = do {
     (s, w) \<leftarrow> stream_close a s w;
     (d, w) \<leftarrow> descriptor_destruct a (sm_descriptor s) w;
     Some (s\<lparr>sm_input := buffer_destruct (sm_input s), sm_output := buffer_destruct (sm_output s),
             sm_descriptor := d, sm_handler := reactor_handler_destruct (sm_handler s)\<rparr>, w) }"

text \<open>\<open>stat\<close> is what \<open>fstat\<close> says: the answer, and whether it is a socket; \<open>ssl_ctx\<close> whether \<open>SSL_new\<close> succeeds.\<close>

definition stream_open :: "nat \<Rightarrow> 'c stream \<Rightarrow> int \<Rightarrow> u32 \<Rightarrow> int \<times> bool \<Rightarrow> bool option \<Rightarrow> (nat, 'z) ssl_reactor_scheme
    \<Rightarrow> ('c stream \<times> (nat, 'z) ssl_reactor_scheme) option" where
  "stream_open a s fd bits stat ssl_ctx w =
     (if fst stat = 0 then
        (let s = s\<lparr>sm_is_socket := snd stat, sm_mask := bits\<rparr> in
         case ssl_ctx of Some created \<Rightarrow> stream_ssl_open a s fd created w | None \<Rightarrow> stream_socket_open a s fd w)
      else None)"

definition stream_notify :: "nat \<Rightarrow> 'c stream \<Rightarrow> (nat, 'z) ssl_reactor_scheme
    \<Rightarrow> ('c stream \<times> (nat, 'z) ssl_reactor_scheme) option" where
  "stream_notify a s w = (let s = s\<lparr>sm_notify := True\<rparr> in
     if \<not> descriptor_is_open (sm_descriptor s) then Some (s, w)
     else if sm_ssl s \<noteq> No_Ssl then stream_ssl_update a s w else stream_socket_update a s w)"

text \<open>\<open>stream_read\<close>: the view of the input, as its size; it starts at the beginning of the buffer.\<close>

definition stream_read :: "'c stream \<Rightarrow> block \<times> u64" where
  "stream_read s = (buffer_data (sm_input s), buffer_size (sm_input s))"

definition stream_consume :: "'c stream \<Rightarrow> u64 \<Rightarrow> 'c stream option" where
  "stream_consume s n = do { b \<leftarrow> buffer_erase (sm_input s) 0 n; Some (s\<lparr>sm_input := b\<rparr>) }"

definition stream_write :: "'c stream \<Rightarrow> string \<Rightarrow> 'c stream option" where
  "stream_write s xs = do {
     b \<leftarrow> buffer_insert (sm_output s) (buffer_size (sm_output s)) xs; Some (s\<lparr>sm_output := b\<rparr>) }"

definition stream_flush :: "nat \<Rightarrow> write_answer list \<Rightarrow> int + nat \<Rightarrow> 'c stream \<Rightarrow> (nat, 'z) ssl_reactor_scheme
    \<Rightarrow> ('c stream \<times> (nat, 'z) ssl_reactor_scheme \<times> string \<times> write_answer list) option" where
  "stream_flush a writes write s w =
     (if sm_ssl s \<noteq> No_Ssl then do {
        (s, sent) \<leftarrow> stream_ssl_flush s write w;
        (s, w) \<leftarrow> stream_ssl_update a s w;
        Some (s, w, sent, writes) }
      else do {
        (s, sent, writes) \<leftarrow> stream_socket_write s writes;
        (s, w) \<leftarrow> stream_socket_update a s w;
        Some (s, w, sent, writes) })"

section \<open>Contents\<close>

text \<open>The buffer is well formed and holds the text.\<close>

definition holds :: "buffer \<Rightarrow> string \<Rightarrow> bool" where
  "holds b xs \<longleftrightarrow> buffer_inv b \<and> buffer_cells b = map Some xs"

lemma holds_size: "holds b xs \<Longrightarrow> unat (buffer_size b) = length xs"
  using store.used [of b] by (simp add: holds_def)

lemma holds_size_zero: "holds b xs \<Longrightarrow> buffer_size b = 0 \<longleftrightarrow> xs = []"
  using holds_size [of b xs] by (simp add: word_unat_eq_iff)

lemma holds_word: "holds b xs \<Longrightarrow> word_of_nat (length xs) = buffer_size b"
  using holds_size [of b xs] by (metis of_nat_unat ucast_id)

lemma holds_data:
  assumes "holds b xs"
  shows "take (length xs) (buf_data b) = map Some xs" "length xs \<le> length (buf_data b)"
    "length (buf_data b) = unat (buf_capacity b)" "length xs \<le> 2 ^ 63"
  using assms holds_size [OF assms] by (auto simp: holds_def buffer_cells_def buffer_inv_def buffer_size_def)

lemma holds_empty: "holds buffer_construct []" "holds (buffer_clear b) []"
  by (simp_all add: holds_def)

lemma holds_append:
  assumes "holds b xs" "length xs + length ys \<le> 2 ^ 63"
  shows "\<exists>b'. buffer_insert b (buffer_size b) ys = Some b' \<and> holds b' (xs @ ys)"
  using store.append [of b ys] assms by (auto simp: holds_def simp del: length_buffer_cells)

lemma holds_consume:
  assumes "holds b xs" "unat n \<le> length xs"
  shows "\<exists>b'. buffer_erase b 0 n = Some b' \<and> holds b' (drop (unat n) xs)"
  using store.consume [of b n] assms by (auto simp: holds_def drop_map simp del: length_buffer_cells)

lemma receive_ok:
  assumes h: "holds (sm_input s) xs" and len: "length xs + length ys \<le> 2 ^ 62" and ys: "length ys \<le> unat n" "unat n \<le> 2 ^ 62"
  shows "\<exists>b. receive (receive_room s n) ys = Some (s\<lparr>sm_input := b\<rparr>) \<and> holds b (xs @ ys) \<and>
    length xs + unat n \<le> unat (buf_capacity b) \<and> (length ys < unat n \<longrightarrow> buf_size b < buf_capacity b)"
proof -
  define c where "c = buffer_reserve (sm_input s) (buffer_size (sm_input s) + n)"
  have u: "unat (buffer_size (sm_input s) + n) = length xs + unat n"
    using holds_size [OF h] len ys by (simp add: unat_add_64)
  have c: "buffer_inv c" "buffer_cells c = map Some xs" "unat (buf_size c) = length xs" "length xs + unat n \<le> unat (buf_capacity c)"
    using h buffer_reserve_ok [of "sm_input s" "buffer_size (sm_input s) + n"] u len ys holds_size [OF h]
    by (auto simp: c_def holds_def buffer_size_def)
  have hc: "holds c xs" using c by (simp add: holds_def)
  note D = holds_data [OF hc]
  define d where "d = take (length xs) (buf_data c) @ map Some ys @ drop (length xs + length ys) (buf_data c)"
  have room: "length xs + length ys \<le> length (buf_data c)" using c(4) D(3) ys by simp
  have w: "mem_write (buf_data c) (length xs) (map Some ys) = Some d" using room by (simp add: mem_write_ok d_def)
  define b where "b = c\<lparr>buf_data := d, buf_size := buf_size c + word_of_nat (length ys)\<rparr>"
  have n: "unat (buf_size c + word_of_nat (length ys)) = length xs + length ys"
    using c(3) len by (simp add: unat_add_64 unat_of_nat_64)
  have "length d = length (buf_data c)" using room by (simp add: d_def min_absorb2)
  then have "holds b (xs @ ys)"
    using c(1) n room D(1,3) by (simp add: holds_def buffer_inv_def buffer_cells_def b_def d_def)
  moreover have "receive_room s n = s\<lparr>sm_input := c\<rparr>" by (simp add: receive_room_def c_def)
  then have "receive (receive_room s n) ys = Some (s\<lparr>sm_input := b\<rparr>)"
    using w c(3) by (simp add: receive_def buffer_data_def buffer_size_def b_def Let_def)
  ultimately show ?thesis using c(4) n by (auto simp: b_def word_less_nat_alt)
qed

lemma receive_room_ok:
  assumes "holds (sm_input s) xs" "length xs \<le> 2 ^ 62" "unat n \<le> 2 ^ 62" "0 < unat n"
  shows "\<exists>b. receive_room s n = s\<lparr>sm_input := b\<rparr> \<and> holds b xs \<and> buf_size b < buf_capacity b"
proof -
  have u: "unat (buffer_size (sm_input s) + n) = length xs + unat n"
    using holds_size [OF assms(1)] assms by (simp add: unat_add_64)
  then have "unat (buffer_size (sm_input s) + n) \<le> 2 ^ 63" using assms(2,3) by simp
  moreover have "buffer_inv (sm_input s)" using assms(1) by (simp add: holds_def)
  ultimately have r: "buffer_inv c" "buffer_cells c = buffer_cells (sm_input s)" "buf_size c = buf_size (sm_input s)"
    "length xs + unat n \<le> unat (buf_capacity c)" if "c = buffer_reserve (sm_input s) (buffer_size (sm_input s) + n)" for c
    using buffer_reserve_ok [of "sm_input s" "buffer_size (sm_input s) + n"] u that by simp_all
  show ?thesis
    using r [OF refl] assms(1,4) holds_size [OF assms(1)]
    by (intro exI [of _ "buffer_reserve (sm_input s) (buffer_size (sm_input s) + n)"])
      (simp add: receive_room_def holds_def buffer_size_def word_less_nat_alt)
qed

text \<open>What the calls of \<open>read\<close> deliver before one that is not full.\<close>

primrec delivered :: "string list \<Rightarrow> string" where
  "delivered [] = []"
| "delivered (xs # rs) = (if length xs = STREAM_RECEIVE_SIZE then xs @ delivered rs else xs)"

definition read_answers :: "string list \<Rightarrow> bool" where
  "read_answers rs \<longleftrightarrow> (\<forall>xs \<in> set rs. length xs \<le> STREAM_RECEIVE_SIZE)"

lemma receive_size: "unat (word_of_nat STREAM_RECEIVE_SIZE :: u64) = STREAM_RECEIVE_SIZE" "0 < STREAM_RECEIVE_SIZE"
  "STREAM_RECEIVE_SIZE \<le> 2 ^ 62"
  by (simp_all add: STREAM_RECEIVE_SIZE_def)

lemma socket_read_loop_ok:
  assumes "holds (sm_input s) xs" "read_answers rs" "length xs + length (delivered rs) \<le> 2 ^ 62"
  shows "\<exists>b. socket_read_loop s tot rs = Some (s\<lparr>sm_input := b\<rparr>, tot + word_of_nat (length (delivered rs))) \<and>
    holds b (xs @ delivered rs) \<and> buf_size b < buf_capacity b"
  using assms
proof (induction rs arbitrary: s xs tot)
  case Nil
  then show ?case using receive_room_ok [of s xs "word_of_nat STREAM_RECEIVE_SIZE"] receive_size by auto
next
  case (Cons ys rs)
  have ys: "length ys \<le> STREAM_RECEIVE_SIZE" "length xs + length ys \<le> 2 ^ 62"
    using Cons.prems(2,3) by (auto simp: read_answers_def split: if_splits)
  obtain b where b: "receive (receive_room s (word_of_nat STREAM_RECEIVE_SIZE)) ys = Some (s\<lparr>sm_input := b\<rparr>)"
    "holds b (xs @ ys)" "length ys < STREAM_RECEIVE_SIZE \<longrightarrow> buf_size b < buf_capacity b"
    using receive_ok [OF Cons.prems(1) ys(2), of "word_of_nat STREAM_RECEIVE_SIZE"] ys(1) receive_size by auto
  show ?case
  proof (cases "length ys = STREAM_RECEIVE_SIZE")
    case True
    have "\<exists>b'. socket_read_loop (s\<lparr>sm_input := b\<rparr>) (tot + word_of_nat (length ys)) rs =
        Some (s\<lparr>sm_input := b'\<rparr>, tot + word_of_nat (length ys) + word_of_nat (length (delivered rs))) \<and>
        holds b' ((xs @ ys) @ delivered rs) \<and> buf_size b' < buf_capacity b'"
      using Cons.IH [of "s\<lparr>sm_input := b\<rparr>" "xs @ ys"] b(2) Cons.prems(2,3) True by (auto simp: read_answers_def)
    then show ?thesis using b(1) ys(1) True by (simp add: Let_def add.assoc)
  next
    case False
    then show ?thesis using b ys(1) by (intro exI [of _ b]) (simp add: Let_def)
  qed
qed

text \<open>What is left of a text after the answers of \<open>write\<close>, and what has been sent of it.\<close>

primrec taken :: "string \<Rightarrow> write_answer list \<Rightarrow> nat" where
  "taken xs [] = 0"
| "taken xs (r # rs) = (if xs = [] then 0 else case r of Room k \<Rightarrow> min k (length xs) + taken (drop k xs) rs | _ \<Rightarrow> 0)"

text \<open>A write that fails otherwise than with \<open>EAGAIN\<close>, as on a connection the peer has reset, fails the assertion.\<close>

lemma stream_socket_write_fails: "buffer_size (sm_output s) \<noteq> 0 \<Longrightarrow> stream_socket_write s (Broken # rs) = None"
  by (simp add: stream_socket_write_def)

definition write_answers :: "write_answer list \<Rightarrow> bool" where
  "write_answers rs \<longleftrightarrow> Broken \<notin> set rs"

lemma taken_le: "taken xs rs \<le> length xs"
proof (induction rs arbitrary: xs)
  case (Cons r rs)
  show ?case using Cons [of "drop (case r of Room k \<Rightarrow> k | _ \<Rightarrow> 0) xs"] by (cases r) (auto simp: min_def)
qed simp

lemma socket_write_loop_ok:
  assumes "take (length xs) d = map Some xs" "length xs \<le> length d" "length xs \<le> 2 ^ 63" "unat n = length xs"
    "unat tot \<le> length xs" "write_answers rs"
  shows "\<exists>tot' rs'. socket_write_loop d n tot sent rs = Some (tot', sent @ take (taken (drop (unat tot) xs) rs) (drop (unat tot) xs), rs') \<and>
    unat tot' = unat tot + taken (drop (unat tot) xs) rs \<and> write_answers rs'"
  using assms(5,6)
proof (induction rs arbitrary: tot sent)
  case (Cons r rs)
  have z: "n - tot \<noteq> 0 \<longleftrightarrow> unat tot < length xs"
    using Cons.prems(1) assms(4) by (metis le_neq_implies_less eq_iff_diff_eq_0 less_irrefl word_unat_eq_iff)
  have left: "unat (n - tot) = length xs - unat tot" using Cons.prems(1) assms(4) by (simp add: unat_diff_64)
  show ?case
  proof (cases "unat tot < length xs")
    case False
    then show ?thesis using z Cons.prems(2) by auto
  next
    case True
    show ?thesis
    proof (cases r)
      case (Room j)
      define k where "k = min j (length xs - unat tot)"
      have k: "k \<le> length xs - unat tot" "write_answers rs" using Cons.prems(2) by (simp_all add: k_def write_answers_def)
      have u: "unat (tot + word_of_nat k) = unat tot + k"
        using k(1) True assms(3) by (simp add: unat_add_64 unat_of_nat_64)
      have "take k (drop (unat tot) d) = map Some (take k (drop (unat tot) xs))"
      proof -
        have "take k (drop (unat tot) d) = take k (drop (unat tot) (take (length xs) d))"
          using k(1) by (simp add: drop_take min_absorb1)
        then show ?thesis by (simp add: assms(1) drop_map take_map)
      qed
      moreover have "unat tot + k \<le> length d" using k(1) True assms(2) by simp
      ultimately have step: "socket_write_loop d n tot sent (r # rs) =
          socket_write_loop d n (tot + word_of_nat k) (sent @ take k (drop (unat tot) xs)) rs"
        using z True Room left by (simp add: mem_read_ok those_map_Some k_def Let_def)
      have rest: "drop k (drop (unat tot) xs) = drop (unat (tot + word_of_nat k)) xs" using u by (simp add: add.commute)
      have le: "unat (tot + word_of_nat k) \<le> length xs" using u k(1) True by simp
      obtain tot' rs' where IH: "socket_write_loop d n (tot + word_of_nat k) (sent @ take k (drop (unat tot) xs)) rs =
          Some (tot', (sent @ take k (drop (unat tot) xs)) @
            take (taken (drop k (drop (unat tot) xs)) rs) (drop k (drop (unat tot) xs)), rs')"
        "unat tot' = unat tot + k + taken (drop k (drop (unat tot) xs)) rs" "write_answers rs'"
        using Cons.IH [OF le k(2), of "sent @ take k (drop (unat tot) xs)"] unfolding rest u by blast
      have "drop j (drop (unat tot) xs) = drop k (drop (unat tot) xs)" by (simp add: k_def min_def)
      then have "taken (drop (unat tot) xs) (r # rs) = k + taken (drop k (drop (unat tot) xs)) rs"
        using True Room by (simp add: k_def)
      then show ?thesis unfolding step using IH by (simp only: take_add append_assoc) simp
    next
      case Again
      then show ?thesis using z True Cons.prems(2) by (auto simp: write_answers_def)
    next
      case Broken
      then show ?thesis using Cons.prems(2) by (auto simp: write_answers_def)
    qed
  qed
qed simp

lemma stream_socket_read_ok:
  assumes "holds (sm_input s) xs" "read_answers rs" "length xs + length (delivered rs) \<le> 2 ^ 62"
  shows "\<exists>b. stream_socket_read s rs = Some (s\<lparr>sm_input := b\<rparr>, word_of_nat (length (delivered rs))) \<and>
    holds b (xs @ delivered rs) \<and> buf_size b < buf_capacity b"
  using socket_read_loop_ok [OF assms, of 0] by (simp add: stream_socket_read_def)

lemma stream_socket_write_ok:
  assumes "holds (sm_output s) xs" "write_answers rs"
  shows "\<exists>b rs'. stream_socket_write s rs = Some (s\<lparr>sm_output := b\<rparr>, take (taken xs rs) xs, rs') \<and> holds b (drop (taken xs rs) xs) \<and>
    write_answers rs'"
proof -
  note D = holds_data [OF assms(1)]
  obtain tot rs' where l: "socket_write_loop (buf_data (sm_output s)) (buffer_size (sm_output s)) 0 [] rs = Some (tot, take (taken xs rs) xs, rs')"
    "unat tot = taken xs rs" "write_answers rs'"
    using socket_write_loop_ok [OF D(1,2,4) holds_size [OF assms(1)], of 0 rs "[]"] assms(2) by auto
  obtain b where "buffer_erase (sm_output s) 0 tot = Some b" "holds b (drop (taken xs rs) xs)"
    using holds_consume [OF assms(1), of tot] l(2) taken_le [of xs rs] by auto
  then show ?thesis using l(1,3) by (intro exI [of _ b] exI [of _ rs']) (simp add: stream_socket_write_def buffer_data_def)
qed

text \<open>
  The descriptor of the stream is open, the kernel watches it, and nothing else at its address, with the
  events of its mask, and its handlers are the callbacks of the kind of the stream.
\<close>

definition stream_handlers :: "nat \<Rightarrow> 'c stream \<Rightarrow> bool" where
  "stream_handlers a s \<longleftrightarrow> de_epoll_handler (sm_descriptor s) = \<lparr>h_callback = Some (), h_state = a\<rparr> \<and>
     de_handler (sm_descriptor s) = \<lparr>h_callback = Some (if sm_ssl s = No_Ssl then Socket_Callback else Ssl_Callback), h_state = a\<rparr>"

definition wired :: "nat \<Rightarrow> 'c stream \<Rightarrow> (nat, 'z) reactor_scheme \<Rightarrow> bool" where
  "wired a s w \<longleftrightarrow> descriptor_is_open (sm_descriptor s) \<and>
     rc_interest w (de_fd (sm_descriptor s)) = Some (descriptor_events (sm_descriptor s), a) \<and>
     (\<forall>fd m. rc_interest w fd = Some (m, a) \<longrightarrow> fd = de_fd (sm_descriptor s)) \<and> stream_handlers a s"

lemma stream_handlers_simps [simp]:
  "stream_handlers a (s\<lparr>sm_output := x\<rparr>) = stream_handlers a s" "stream_handlers a (s\<lparr>sm_input := x\<rparr>) = stream_handlers a s"
  "stream_handlers a (s\<lparr>sm_notify := n\<rparr>) = stream_handlers a s" "stream_handlers a (s\<lparr>sm_ssl_state := e\<rparr>) = stream_handlers a s"
  by (simp_all add: stream_handlers_def)

text \<open>Nothing is left of a handler in the reactor: the kernel watches nothing for it, and no event of it is pending.\<close>

definition forgotten :: "(nat, 'z) reactor_scheme \<Rightarrow> nat \<Rightarrow> bool" where
  "forgotten w a \<longleftrightarrow> silent w a \<and> (\<forall>fd m. rc_interest w fd \<noteq> Some (m, a))"

definition watched_for :: "u32 \<Rightarrow> 'c stream \<Rightarrow> (nat, 'z) reactor_scheme \<Rightarrow> bool" where
  "watched_for events s w \<longleftrightarrow> (case rc_interest w (de_fd (sm_descriptor s)) of None \<Rightarrow> False | Some (m, _) \<Rightarrow> m AND events \<noteq> 0)"

text \<open>
  The kernel watches the other descriptors as before, pending events stay or are blanked, and the rest of
  the state is the same.
\<close>

definition spares :: "nat \<Rightarrow> (nat, 'z) reactor_scheme \<Rightarrow> (nat, 'z) reactor_scheme \<Rightarrow> bool" where
  "spares a w w' \<longleftrightarrow> reactor.more w' = reactor.more w \<and> fades w w' \<and>
     (\<forall>fd m b. b \<noteq> a \<longrightarrow> rc_interest w' fd = Some (m, b) \<longleftrightarrow> rc_interest w fd = Some (m, b))"

lemma spares_refl: "spares a w w"
  by (simp add: spares_def)

lemma descriptor_mask_ok:
  assumes "descriptor_is_open d" "rc_interest w (de_fd d) = Some (descriptor_events d, a)"
  shows "\<exists>d' w'. descriptor_mask a d bits w = Some (d', w') \<and> d' = d\<lparr>de_mask := bits\<rparr> \<and>
    rc_interest w' = (rc_interest w)(de_fd d \<mapsto> (descriptor_events d', a)) \<and> spares a w w'"
proof (cases "de_mask d = bits")
  case True
  then have "d\<lparr>de_mask := bits\<rparr> = d" by simp
  moreover have "(rc_interest w)(de_fd d \<mapsto> (descriptor_events d, a)) = rc_interest w" using assms(2) by auto
  ultimately show ?thesis using True by (simp add: descriptor_mask_def spares_refl)
next
  case False
  then show ?thesis using assms(2) by (auto simp: descriptor_mask_def reactor_modify_def spares_def fades_def Let_def)
qed

lemma descriptor_close_ok:
  assumes "descriptor_is_open d" "rc_interest w (de_fd d) = Some (m, a)" "\<forall>fd m. rc_interest w fd = Some (m, a) \<longrightarrow> fd = de_fd d"
  shows "\<exists>w'. descriptor_close a d w = Some (d\<lparr>de_fd := -1, de_mask := 0\<rparr>, w') \<and> spares a w w' \<and> forgotten w' a"
proof -
  define v where "v = w\<lparr>rc_batch := blank_pending a w, rc_interest := (rc_interest w)(de_fd d := None), rc_descriptors := rc_descriptors w - 1\<rparr>"
  have del: "reactor_delete a (de_fd d) w = Some v"
    using assms(2) by (simp add: reactor_delete_def v_def blank_pending_def Let_def)
  have "\<forall>fd m. rc_interest v fd \<noteq> Some (m, a)" using assms(3) by (auto simp: v_def)
  moreover have "\<forall>fd n b. b \<noteq> a \<longrightarrow> rc_interest v fd = Some (n, b) \<longleftrightarrow> rc_interest w fd = Some (n, b)" using assms(2) by (auto simp: v_def)
  moreover have "reactor.more v = reactor.more w" by (simp add: v_def)
  ultimately show ?thesis
    using del reactor_delete_fades [OF del] assms(1) by (auto simp: descriptor_close_def spares_def forgotten_def)
qed

lemma stream_socket_update_ok:
  assumes "wired a s w"
  shows "\<exists>d w'. stream_socket_update a s w = Some (s\<lparr>sm_descriptor := d\<rparr>, w') \<and> d = (sm_descriptor s)\<lparr>de_mask := stream_socket_mask s\<rparr> \<and>
    wired a (s\<lparr>sm_descriptor := d\<rparr>) w' \<and> spares a w w'"
  using descriptor_mask_ok [of "sm_descriptor s" w a "stream_socket_mask s"] assms
  by (auto simp: wired_def stream_socket_update_def descriptor_is_open_def stream_handlers_def split: if_splits)

lemma mask_bits:
  "(m AND STREAM_READ OR STREAM_WRITE) AND DESCRIPTOR_WRITE \<noteq> (0 :: u32)"
  "(m AND STREAM_READ OR 0) AND DESCRIPTOR_WRITE = (0 :: u32)"
  by (simp_all add: STREAM_READ_def STREAM_WRITE_def DESCRIPTOR_READ_def DESCRIPTOR_WRITE_def bit.conj_disj_distrib2 and.assoc)

lemma events_out: "descriptor_events d AND EPOLLOUT \<noteq> 0 \<longleftrightarrow> de_mask d AND DESCRIPTOR_WRITE \<noteq> 0"
  by (simp add: descriptor_events_def EPOLLHUP_def EPOLLRDHUP_def EPOLLIN_def EPOLLOUT_def EPOLLET_def)

lemma update_watches:
  assumes "wired a s w" "holds (sm_output s) xs"
  shows "\<exists>d w'. stream_socket_update a s w = Some (s\<lparr>sm_descriptor := d\<rparr>, w') \<and> wired a (s\<lparr>sm_descriptor := d\<rparr>) w' \<and>
    spares a w w' \<and> (watched_for EPOLLOUT (s\<lparr>sm_descriptor := d\<rparr>) w' \<longleftrightarrow> xs \<noteq> [] \<or> sm_notify s)"
proof -
  obtain d w' where u: "stream_socket_update a s w = Some (s\<lparr>sm_descriptor := d\<rparr>, w')"
    "d = (sm_descriptor s)\<lparr>de_mask := stream_socket_mask s\<rparr>" "wired a (s\<lparr>sm_descriptor := d\<rparr>) w'" "spares a w w'"
    using stream_socket_update_ok [OF assms(1)] by blast
  have "de_mask d AND DESCRIPTOR_WRITE \<noteq> 0 \<longleftrightarrow> xs \<noteq> [] \<or> sm_notify s"
    using holds_size_zero [OF assms(2)] mask_bits [of "sm_mask s"] by (simp add: u(2) stream_socket_mask_def)
  then have "watched_for EPOLLOUT (s\<lparr>sm_descriptor := d\<rparr>) w' \<longleftrightarrow> xs \<noteq> [] \<or> sm_notify s"
    using u(3) by (simp add: watched_for_def wired_def events_out)
  then show ?thesis using u by blast
qed

lemma stream_flush_ok:
  assumes "wired a s w" "sm_ssl s = No_Ssl" "holds (sm_output s) xs" "write_answers rs"
  shows "\<exists>b d w' rs'. stream_flush a rs r s w = Some (s\<lparr>sm_output := b, sm_descriptor := d\<rparr>, w', take (taken xs rs) xs, rs') \<and>
    write_answers rs' \<and> holds b (drop (taken xs rs) xs) \<and> wired a (s\<lparr>sm_output := b, sm_descriptor := d\<rparr>) w' \<and> spares a w w' \<and>
    (watched_for EPOLLOUT (s\<lparr>sm_output := b, sm_descriptor := d\<rparr>) w' \<longleftrightarrow> drop (taken xs rs) xs \<noteq> [] \<or> sm_notify s)"
proof -
  obtain b rs' where b: "stream_socket_write s rs = Some (s\<lparr>sm_output := b\<rparr>, take (taken xs rs) xs, rs')" "holds b (drop (taken xs rs) xs)" "write_answers rs'"
    using stream_socket_write_ok [OF assms(3,4)] by blast
  have "wired a (s\<lparr>sm_output := b\<rparr>) w" using assms(1) by (simp add: wired_def)
  from update_watches [OF this, of "drop (taken xs rs) xs"] b(2)
  obtain d w' where u: "stream_socket_update a (s\<lparr>sm_output := b\<rparr>) w = Some (s\<lparr>sm_output := b, sm_descriptor := d\<rparr>, w')"
    "wired a (s\<lparr>sm_output := b, sm_descriptor := d\<rparr>) w'" "spares a w w'"
    "watched_for EPOLLOUT (s\<lparr>sm_output := b, sm_descriptor := d\<rparr>) w' \<longleftrightarrow> drop (taken xs rs) xs \<noteq> [] \<or> sm_notify s"
    by auto
  show ?thesis using b u assms(2)
    by (intro exI [of _ b] exI [of _ d] exI [of _ w'] exI [of _ rs']) (simp add: stream_flush_def)
qed

lemma stream_write_ok:
  assumes "holds (sm_output s) xs" "length xs + length ys \<le> 2 ^ 63"
  shows "\<exists>b. stream_write s ys = Some (s\<lparr>sm_output := b\<rparr>) \<and> holds b (xs @ ys)"
  using holds_append [OF assms] by (auto simp: stream_write_def)

lemma stream_consume_ok:
  assumes "holds (sm_input s) xs" "unat n \<le> length xs"
  shows "\<exists>b. stream_consume s n = Some (s\<lparr>sm_input := b\<rparr>) \<and> holds b (drop (unat n) xs)"
  using holds_consume [OF assms] by (auto simp: stream_consume_def)

lemma stream_close_ok:
  assumes "wired a s w" "sm_ssl s = No_Ssl"
  shows "\<exists>s' w'. stream_close a s w = Some (s', w') \<and> \<not> descriptor_is_open (sm_descriptor s') \<and> sm_ssl s' = No_Ssl \<and> spares a w w' \<and> forgotten w' a"
proof -
  have "\<exists>w'. descriptor_close a (sm_descriptor s) w = Some ((sm_descriptor s)\<lparr>de_fd := -1, de_mask := 0\<rparr>, w') \<and> spares a w w' \<and> forgotten w' a"
    using assms(1) by (intro descriptor_close_ok) (auto simp: wired_def)
  then show ?thesis using assms by (auto simp: stream_close_def wired_def descriptor_is_open_def)
qed

lemma stream_close_closed: "\<not> descriptor_is_open (sm_descriptor s) \<Longrightarrow> stream_close a s w = Some (s, w)"
  by (simp add: stream_close_def)

lemma stream_destruct_closed: "\<not> descriptor_is_open (sm_descriptor s) \<Longrightarrow> \<exists>s'. stream_destruct a s w = Some (s', w)"
  by (simp add: stream_destruct_def stream_close_closed descriptor_destruct_def descriptor_close_def)

lemma stream_destruct_ok:
  assumes "wired a s w" "sm_ssl s = No_Ssl"
  shows "\<exists>s' w'. stream_destruct a s w = Some (s', w') \<and> spares a w w' \<and> forgotten w' a"
proof -
  obtain s' w' where c: "stream_close a s w = Some (s', w')" "\<not> descriptor_is_open (sm_descriptor s')" "spares a w w'" "forgotten w' a"
    using stream_close_ok [OF assms] by blast
  then show ?thesis by (simp add: stream_destruct_def descriptor_destruct_def descriptor_close_def)
qed

text \<open>The callback on a plain descriptor; its last action is to dispatch the returned event.\<close>

lemma socket_readable:
  assumes "holds (sm_input s) xs" "read_answers rs" "length xs + length (delivered rs) \<le> 2 ^ 62"
  shows "\<exists>b. stream_socket_callback a DESCRIPTOR_READ rs ws s w =
      Some (s\<lparr>sm_input := b\<rparr>, w, [], ws, if delivered rs \<noteq> [] then Some STREAM_READ else None) \<and>
    holds b (xs @ delivered rs) \<and> buf_size b < buf_capacity b"
proof -
  have "word_of_nat (length (delivered rs)) \<noteq> (0 :: u64) \<longleftrightarrow> delivered rs \<noteq> []"
    using assms(3) unat_of_nat_64 [of "length (delivered rs)"] by (auto simp: word_unat_eq_iff)
  then show ?thesis using stream_socket_read_ok [OF assms] by (auto simp: stream_socket_callback_def)
qed

lemma socket_writable:
  assumes "wired a s w" "holds (sm_output s) xs" "write_answers rs"
  shows "\<exists>b d w' rs'. stream_socket_callback a DESCRIPTOR_WRITE reads rs s w =
      Some (s\<lparr>sm_output := b, sm_notify := False, sm_descriptor := d\<rparr>, w', take (taken xs rs) xs, rs',
        if drop (taken xs rs) xs = [] \<or> sm_notify s then Some STREAM_WRITE else None) \<and>
    write_answers rs' \<and> holds b (drop (taken xs rs) xs) \<and> wired a (s\<lparr>sm_output := b, sm_notify := False, sm_descriptor := d\<rparr>) w' \<and>
    spares a w w' \<and>
    (watched_for EPOLLOUT (s\<lparr>sm_output := b, sm_notify := False, sm_descriptor := d\<rparr>) w' \<longleftrightarrow> drop (taken xs rs) xs \<noteq> [])"
proof -
  obtain b rs' where b: "stream_socket_write s rs = Some (s\<lparr>sm_output := b\<rparr>, take (taken xs rs) xs, rs')" "holds b (drop (taken xs rs) xs)" "write_answers rs'"
    using stream_socket_write_ok [OF assms(2,3)] by blast
  have z: "buffer_size b = 0 \<longleftrightarrow> drop (taken xs rs) xs = []" by (rule holds_size_zero [OF b(2)])
  let ?s = "s\<lparr>sm_output := b, sm_notify := False\<rparr>"
  have "wired a ?s w" "holds (sm_output ?s) (drop (taken xs rs) xs)" using assms(1) b(2) by (simp_all add: wired_def)
  from update_watches [OF this] obtain d w' where u: "stream_socket_update a ?s w = Some (?s\<lparr>sm_descriptor := d\<rparr>, w')"
    "wired a (?s\<lparr>sm_descriptor := d\<rparr>) w'" "spares a w w'"
    "watched_for EPOLLOUT (?s\<lparr>sm_descriptor := d\<rparr>) w' \<longleftrightarrow> drop (taken xs rs) xs \<noteq> []"
    by auto
  have types: "DESCRIPTOR_WRITE \<noteq> (DESCRIPTOR_READ :: nat)" by (simp add: DESCRIPTOR_WRITE_def DESCRIPTOR_READ_def)
  have "stream_socket_callback a DESCRIPTOR_WRITE reads rs s w = Some (?s\<lparr>sm_descriptor := d\<rparr>, w', take (taken xs rs) xs, rs',
      if drop (taken xs rs) xs = [] \<or> sm_notify s then Some STREAM_WRITE else None)"
  proof (cases "drop (taken xs rs) xs = [] \<or> sm_notify s")
    case True
    then have "buffer_size b = 0 \<or> sm_notify s" using z by blast
    then show ?thesis using b(1) u(1) True by (simp add: stream_socket_callback_def types)
  next
    case False
    then have id: "s\<lparr>sm_output := b\<rparr> = ?s" and n: "buffer_size b \<noteq> 0" "\<not> sm_notify s" using z by simp_all
    have "stream_socket_write s rs = Some (?s, take (taken xs rs) xs, rs')" unfolding b(1) using id by simp
    then show ?thesis using u(1) False n by (simp add: stream_socket_callback_def types)
  qed
  then show ?thesis using u(2-4) b(2,3)
    by (intro exI [of _ b] exI [of _ d] exI [of _ w'] exI [of _ rs'] conjI)
qed

section \<open>Histories of a plain stream\<close>

datatype stream_call =
    Put string
  | Consume nat
  | Flush "write_answer list"
  | Notify
  | Readable "string list"
  | Writable "write_answer list"

text \<open>What was sent, what was consumed, and which events were dispatched, besides the stream and the reactor.\<close>

record traffic =
  tr_sent :: string
  tr_consumed :: string
  tr_events :: "nat list"

definition noted :: "'z traffic_scheme \<Rightarrow> string \<Rightarrow> nat option \<Rightarrow> 'z traffic_scheme" where
  "noted t sent ev = t\<lparr>tr_sent := tr_sent t @ sent, tr_events := tr_events t @ (case ev of None \<Rightarrow> [] | Some e \<Rightarrow> [e])\<rparr>"

primrec stream_step :: "nat \<Rightarrow> stream_call \<Rightarrow> 'c stream \<times> nat ssl_reactor \<times> traffic
    \<Rightarrow> ('c stream \<times> nat ssl_reactor \<times> traffic) option" where
  "stream_step a (Put xs) q = (case q of (s, w, t) \<Rightarrow> do { s \<leftarrow> stream_write s xs; Some (s, w, t) })"
| "stream_step a (Consume n) q = (case q of (s, w, t) \<Rightarrow> do {
     cells \<leftarrow> mem_read (fst (stream_read s)) 0 n;
     xs \<leftarrow> those cells;
     s \<leftarrow> stream_consume s (word_of_nat n);
     Some (s, w, t\<lparr>tr_consumed := tr_consumed t @ xs\<rparr>) })"
| "stream_step a (Flush rs) q = (case q of (s, w, t) \<Rightarrow> do {
     (s, w, sent, rs) \<leftarrow> stream_flush a rs (Inl 0) s w; Some (s, w, noted t sent None) })"
| "stream_step a Notify q = (case q of (s, w, t) \<Rightarrow> do { (s, w) \<leftarrow> stream_notify a s w; Some (s, w, t) })"
| "stream_step a (Readable rs) q = (case q of (s, w, t) \<Rightarrow> do {
     (s, w, sent, rs, ev) \<leftarrow> stream_socket_callback a DESCRIPTOR_READ rs [] s w; Some (s, w, noted t sent ev) })"
| "stream_step a (Writable rs) q = (case q of (s, w, t) \<Rightarrow> do {
     (s, w, sent, rs, ev) \<leftarrow> stream_socket_callback a DESCRIPTOR_WRITE [] rs s w; Some (s, w, noted t sent ev) })"

primrec stream_run :: "nat \<Rightarrow> stream_call list \<Rightarrow> 'c stream \<times> nat ssl_reactor \<times> traffic
    \<Rightarrow> ('c stream \<times> nat ssl_reactor \<times> traffic) option" where
  "stream_run a [] q = Some q"
| "stream_run a (c # cs) q = do { q \<leftarrow> stream_step a c q; stream_run a cs q }"

text \<open>The specification: two queues of bytes, the flag, and the traffic.\<close>

record duplex =
  dx_input :: string
  dx_output :: string
  dx_notify :: bool
  dx_traffic :: traffic

primrec duplex_step :: "stream_call \<Rightarrow> duplex \<Rightarrow> duplex" where
  "duplex_step (Put xs) x = x\<lparr>dx_output := dx_output x @ xs\<rparr>"
| "duplex_step (Consume n) x = x\<lparr>dx_input := drop n (dx_input x),
     dx_traffic := (dx_traffic x)\<lparr>tr_consumed := tr_consumed (dx_traffic x) @ take n (dx_input x)\<rparr>\<rparr>"
| "duplex_step (Flush rs) x = (let n = taken (dx_output x) rs in
     x\<lparr>dx_output := drop n (dx_output x), dx_traffic := noted (dx_traffic x) (take n (dx_output x)) None\<rparr>)"
| "duplex_step Notify x = x\<lparr>dx_notify := True\<rparr>"
| "duplex_step (Readable rs) x = x\<lparr>dx_input := dx_input x @ delivered rs,
     dx_traffic := noted (dx_traffic x) [] (if delivered rs \<noteq> [] then Some STREAM_READ else None)\<rparr>"
| "duplex_step (Writable rs) x = (let n = taken (dx_output x) rs in
     x\<lparr>dx_output := drop n (dx_output x), dx_notify := False,
       dx_traffic := noted (dx_traffic x) (take n (dx_output x))
         (if drop n (dx_output x) = [] \<or> dx_notify x then Some STREAM_WRITE else None)\<rparr>)"

primrec call_allowed :: "stream_call \<Rightarrow> duplex \<Rightarrow> bool" where
  "call_allowed (Put xs) x \<longleftrightarrow> length (dx_output x) + length xs \<le> 2 ^ 62"
| "call_allowed (Consume n) x \<longleftrightarrow> n \<le> length (dx_input x)"
| "call_allowed (Flush rs) x \<longleftrightarrow> write_answers rs"
| "call_allowed Notify x \<longleftrightarrow> True"
| "call_allowed (Readable rs) x \<longleftrightarrow> read_answers rs \<and> length (dx_input x) + length (delivered rs) \<le> 2 ^ 62"
| "call_allowed (Writable rs) x \<longleftrightarrow> write_answers rs"

primrec calls_allowed :: "stream_call list \<Rightarrow> duplex \<Rightarrow> bool" where
  "calls_allowed [] x \<longleftrightarrow> True"
| "calls_allowed (c # cs) x \<longleftrightarrow> call_allowed c x \<and> calls_allowed cs (duplex_step c x)"

text \<open>
  The refinement relation. Behind a call that may change what is to be sent other than \<open>Put\<close>, the
  kernel watches for output exactly while there is something to send or to notify.
\<close>

definition duplex_of :: "nat \<Rightarrow> 'c stream \<times> nat ssl_reactor \<times> traffic \<Rightarrow> duplex \<Rightarrow> bool" where
  "duplex_of a q x \<longleftrightarrow> (case q of (s, w, t) \<Rightarrow> wired a s w \<and> sm_ssl s = No_Ssl \<and>
     holds (sm_input s) (dx_input x) \<and> holds (sm_output s) (dx_output x) \<and> sm_notify s = dx_notify x \<and> t = dx_traffic x)"

lemma stream_step_ok:
  assumes "duplex_of a q x" "call_allowed c x"
  shows "\<exists>q'. stream_step a c q = Some q' \<and> duplex_of a q' (duplex_step c x)"
proof -
  obtain s w t where q: "q = (s, w, t)" by (cases q)
  note D = assms(1) [unfolded duplex_of_def q, simplified]
  show ?thesis
  proof (cases c)
    case (Put xs)
    then obtain b where "stream_write s xs = Some (s\<lparr>sm_output := b\<rparr>)" "holds b (dx_output x @ xs)"
      using stream_write_ok [of s "dx_output x" xs] D assms(2) by auto
    then show ?thesis using Put D by (simp add: q duplex_of_def wired_def)
  next
    case (Consume n)
    then have n: "n \<le> length (dx_input x)" using assms(2) by simp
    note H = holds_data [of "sm_input s" "dx_input x"]
    have u: "unat (word_of_nat n :: u64) = n" using n H(4) D by (simp add: unat_of_nat_64)
    have "take n (buf_data (sm_input s)) = map Some (take n (dx_input x))"
      using arg_cong [OF H(1), of "take n"] D n by (simp add: take_map min_absorb1)
    moreover obtain b where "stream_consume s (word_of_nat n) = Some (s\<lparr>sm_input := b\<rparr>)" "holds b (drop n (dx_input x))"
      using stream_consume_ok [of s "dx_input x" "word_of_nat n"] D n u by auto
    ultimately show ?thesis using Consume D n H(2)
      by (simp add: q duplex_of_def wired_def stream_read_def buffer_data_def mem_read_ok those_map_Some)
  next
    case (Flush rs)
    then have "write_answers rs" using assms(2) by simp
    from stream_flush_ok [of a s w "dx_output x" rs "Inl 0"] this D Flush show ?thesis
      by (fastforce simp: q duplex_of_def Let_def)
  next
    case Notify
    have "wired a (s\<lparr>sm_notify := True\<rparr>) w" using D by (simp add: wired_def)
    from stream_socket_update_ok [OF this] obtain d w' where
      "stream_socket_update a (s\<lparr>sm_notify := True\<rparr>) w = Some (s\<lparr>sm_notify := True, sm_descriptor := d\<rparr>, w')"
      "wired a (s\<lparr>sm_notify := True, sm_descriptor := d\<rparr>) w'" by auto
    then show ?thesis using D Notify by (simp add: q duplex_of_def stream_notify_def wired_def Let_def)
  next
    case (Readable rs)
    then obtain b where "stream_socket_callback a DESCRIPTOR_READ rs [] s w =
        Some (s\<lparr>sm_input := b\<rparr>, w, [], [], if delivered rs \<noteq> [] then Some STREAM_READ else None)"
      "holds b (dx_input x @ delivered rs)"
      using socket_readable [of s "dx_input x" rs a "[]" w] D assms(2) by auto
    then show ?thesis using D Readable by (simp add: q duplex_of_def wired_def)
  next
    case (Writable rs)
    then have "write_answers rs" using assms(2) by simp
    from socket_writable [of a s w "dx_output x" rs "[]"] this D Writable show ?thesis
      by (fastforce simp: q duplex_of_def Let_def)
  qed
qed

lemma stream_run_ok:
  "duplex_of a q x \<Longrightarrow> calls_allowed cs x \<Longrightarrow>
   \<exists>q'. stream_run a cs q = Some q' \<and> duplex_of a q' (fold duplex_step cs x)"
proof (induction cs arbitrary: q x)
  case (Cons c cs)
  then obtain r where "stream_step a c q = Some r" "duplex_of a r (duplex_step c x)"
    using stream_step_ok [of a q x c] by auto
  then show ?case using Cons.IH [of r "duplex_step c x"] Cons.prems(2) by simp
qed simp

text \<open>A plain stream that has just been constructed and opened for reading as the file descriptor 5.\<close>

definition fresh_reactor :: "nat ssl_reactor" where
  "fresh_reactor = \<lparr>rc_epoll_fd = 3, rc_active = True, rc_descriptors = 0, rc_time = 0, rc_event = 0, rc_event_end = 0,
     rc_batch = [], rc_interest = Map.empty, ssl_activated = False\<rparr>"

definition fresh_traffic :: traffic where
  "fresh_traffic = \<lparr>tr_sent = [], tr_consumed = [], tr_events = []\<rparr>"

definition fresh_duplex :: duplex where
  "fresh_duplex = \<lparr>dx_input = [], dx_output = [], dx_notify = False, dx_traffic = fresh_traffic\<rparr>"

definition fresh_stream :: "'c option \<Rightarrow> nat \<Rightarrow> ('c stream \<times> nat ssl_reactor) option" where
  "fresh_stream callback state = stream_open 1 (stream_construct 1 callback state) 5 STREAM_READ (0, True) None fresh_reactor"

lemma stream_socket_open_ok:
  assumes "0 \<le> fd" "rc_interest w fd = None" "\<forall>fd m. rc_interest w fd \<noteq> Some (m, a)" "sm_ssl s = No_Ssl"
  shows "\<exists>d w'. stream_open a s fd bits (0, sock) None w =
      Some (s\<lparr>sm_is_socket := sock, sm_mask := bits, sm_descriptor := d\<rparr>, w') \<and>
    wired a (s\<lparr>sm_is_socket := sock, sm_mask := bits, sm_descriptor := d\<rparr>) w' \<and> ssl_activated w' = ssl_activated w \<and> spares a w w'"
proof -
  define s' where "s' = s\<lparr>sm_is_socket := sock, sm_mask := bits\<rparr>"
  define d where "d = (descriptor_construct a (Some Socket_Callback) a (sm_descriptor s))\<lparr>de_fd := fd, de_mask := stream_socket_mask s'\<rparr>"
  define w' where "w' = w\<lparr>rc_descriptors := rc_descriptors w + 1, rc_interest := (rc_interest w)(fd \<mapsto> (descriptor_events d, a))\<rparr>"
  have "stream_open a s fd bits (0, sock) None w = Some (s'\<lparr>sm_descriptor := d\<rparr>, w')"
    using assms by (simp add: stream_open_def stream_socket_open_def descriptor_open_def reactor_add_def s'_def d_def w'_def Let_def)
  moreover have "wired a (s'\<lparr>sm_descriptor := d\<rparr>) w'"
    using assms(1,3,4)
    by (simp add: wired_def stream_handlers_def s'_def d_def w'_def descriptor_is_open_def descriptor_construct_def reactor_handler_construct_def)
  moreover have "spares a w w'" using assms(2,3) by (auto simp: spares_def fades_def w'_def)
  ultimately show ?thesis by (intro exI [of _ d] exI [of _ w']) (simp add: s'_def w'_def)
qed

lemma fresh_stream_ok: "\<exists>s w. fresh_stream callback state = Some (s, w) \<and> duplex_of 1 (s, w, fresh_traffic) fresh_duplex"
proof -
  have "rc_interest fresh_reactor 5 = None" "\<forall>fd m. rc_interest fresh_reactor fd \<noteq> Some (m, 1)" by (simp_all add: fresh_reactor_def)
  from stream_socket_open_ok [OF _ this(1,2), of "stream_construct 1 callback state" STREAM_READ True] show ?thesis
    by (auto simp: fresh_stream_def stream_construct_def duplex_of_def fresh_duplex_def holds_empty)
qed

text \<open>
  A plain stream is a pair of byte queues: after every history of writes, flushes,
  notifications, readable and writable events and consumptions on an opened stream, with any answers of the
  system, no call has accessed memory out of bounds, the input buffer holds what was received
  and not consumed, the output buffer what was written and not sent, and exactly the specified events
  were dispatched.
\<close>

theorem stream_history:
  assumes "duplex_of a q x" "calls_allowed cs x"
  shows "\<exists>q'. stream_run a cs q = Some q' \<and> duplex_of a q' (fold duplex_step cs x)"
  by (rule stream_run_ok [OF assms])

theorem stream_history_witness:
  "\<exists>s w q' x. fresh_stream (None :: nat option) 0 = Some (s, w) \<and>
     stream_run 1 [Put ''hello'', Flush [Room 2, Again], Readable [''abc''], Writable [Room 3], Consume 1] (s, w, fresh_traffic) = Some q' \<and>
     duplex_of 1 q' x \<and> dx_input x = ''bc'' \<and> dx_output x = [] \<and>
     dx_traffic x = \<lparr>tr_sent = ''hello'', tr_consumed = ''a'', tr_events = [1, 2]\<rparr>"
proof -
  let ?cs = "[Put ''hello'', Flush [Room 2, Again], Readable [''abc''], Writable [Room 3], Consume 1]"
  obtain s w where s: "fresh_stream (None :: nat option) 0 = Some (s, w)" "duplex_of 1 (s, w, fresh_traffic) fresh_duplex"
    using fresh_stream_ok by blast
  have "calls_allowed ?cs fresh_duplex"
    by (simp add: fresh_duplex_def read_answers_def write_answers_def STREAM_RECEIVE_SIZE_def Let_def)
  from stream_history [OF s(2) this] obtain q' where
    "stream_run 1 ?cs (s, w, fresh_traffic) = Some q'" "duplex_of 1 q' (fold duplex_step ?cs fresh_duplex)" by blast
  moreover have "dx_input (fold duplex_step ?cs fresh_duplex) = ''bc''" "dx_output (fold duplex_step ?cs fresh_duplex) = []"
    "dx_traffic (fold duplex_step ?cs fresh_duplex) = \<lparr>tr_sent = ''hello'', tr_consumed = ''a'', tr_events = [1, 2]\<rparr>"
    by (simp_all add: fresh_duplex_def fresh_traffic_def noted_def STREAM_RECEIVE_SIZE_def STREAM_READ_def STREAM_WRITE_def
        DESCRIPTOR_READ_def DESCRIPTOR_WRITE_def Let_def)
  ultimately show ?thesis using s(1) by blast
qed

primrec put_text :: "stream_call list \<Rightarrow> string" where
  "put_text [] = []"
| "put_text (c # cs) = (case c of Put xs \<Rightarrow> xs | _ \<Rightarrow> []) @ put_text cs"

primrec received_text :: "stream_call list \<Rightarrow> string" where
  "received_text [] = []"
| "received_text (c # cs) = (case c of Readable rs \<Rightarrow> delivered rs | _ \<Rightarrow> []) @ received_text cs"

lemma duplex_conserves:
  "calls_allowed cs x \<Longrightarrow>
   tr_sent (dx_traffic (fold duplex_step cs x)) @ dx_output (fold duplex_step cs x) =
     tr_sent (dx_traffic x) @ dx_output x @ put_text cs \<and>
   tr_consumed (dx_traffic (fold duplex_step cs x)) @ dx_input (fold duplex_step cs x) =
     tr_consumed (dx_traffic x) @ dx_input x @ received_text cs"
proof (induction cs arbitrary: x)
  case (Cons c cs)
  then show ?case using Cons.IH [of "duplex_step c x"] by (cases c) (auto simp: noted_def Let_def)
qed simp

text \<open>
  C39. A plain stream transmits its text exactly: whatever the history and however the system
  splits or defers the transfers, the bytes sent followed by the bytes still in the output
  buffer are the text that was written, and the bytes consumed followed by the input buffer are
  what was received; nothing is lost, duplicated or reordered.
\<close>

theorem stream_conserves:
  assumes "fresh_stream callback state = Some (s, w)" "calls_allowed cs fresh_duplex"
  shows "\<exists>s' w' t inp out. stream_run 1 cs (s, w, fresh_traffic) = Some (s', w', t) \<and> holds (sm_input s') inp \<and> holds (sm_output s') out \<and>
    tr_sent t @ out = put_text cs \<and> tr_consumed t @ inp = received_text cs"
proof -
  have "duplex_of 1 (s, w, fresh_traffic) fresh_duplex" using fresh_stream_ok [of callback state] assms(1) by auto
  from stream_run_ok [OF this assms(2)] obtain s' w' t where
    "stream_run 1 cs (s, w, fresh_traffic) = Some (s', w', t)" "duplex_of 1 (s', w', t) (fold duplex_step cs fresh_duplex)"
    by (metis prod_cases3)
  then show ?thesis
    using duplex_conserves [OF assms(2)]
    by (intro exI [of _ s'] exI [of _ w'] exI [of _ t] exI [of _ "dx_input (fold duplex_step cs fresh_duplex)"]
        exI [of _ "dx_output (fold duplex_step cs fresh_duplex)"]) (simp add: duplex_of_def fresh_duplex_def fresh_traffic_def)
qed

theorem stream_conserves_witness:
  "\<exists>s w s' w' t inp out. fresh_stream (None :: nat option) 0 = Some (s, w) \<and>
     stream_run 1 [Put ''hello'', Flush [Room 2], Readable [''abc''], Put ''!'', Consume 1] (s, w, fresh_traffic) = Some (s', w', t) \<and>
     holds (sm_input s') inp \<and> holds (sm_output s') out \<and> tr_sent t @ out = ''hello!'' \<and> tr_consumed t @ inp = ''abc''"
proof -
  let ?cs = "[Put ''hello'', Flush [Room 2], Readable [''abc''], Put ''!'', Consume 1]"
  obtain s w where s: "fresh_stream (None :: nat option) 0 = Some (s, w)" using fresh_stream_ok by blast
  have ok: "calls_allowed ?cs fresh_duplex"
    by (simp add: fresh_duplex_def read_answers_def write_answers_def STREAM_RECEIVE_SIZE_def Let_def)
  have "put_text ?cs = ''hello!''" "received_text ?cs = ''abc''" by (simp_all add: STREAM_RECEIVE_SIZE_def)
  note H = stream_conserves [OF s ok, unfolded this]
  obtain s' w' t inp out where "stream_run 1 ?cs (s, w, fresh_traffic) = Some (s', w', t)" "holds (sm_input s') inp"
    "holds (sm_output s') out" "tr_sent t @ out = ''hello!''" "tr_consumed t @ inp = ''abc''"
    using H by blast
  then show ?thesis using s by blast
qed

text \<open>
  After a flush of a plain stream the kernel watches its descriptor for output if and only
  if bytes are left to send or a notification was requested, so that pending output is always
  taken up again.
\<close>

theorem stream_flush_watches:
  assumes "wired a s w" "sm_ssl s = No_Ssl" "holds (sm_output s) xs" "write_answers rs"
  shows "\<exists>s' w' sent rs' out. stream_flush a rs r s w = Some (s', w', sent, rs') \<and> holds (sm_output s') out \<and> sent @ out = xs \<and>
    wired a s' w' \<and> (watched_for EPOLLOUT s' w' \<longleftrightarrow> out \<noteq> [] \<or> sm_notify s)"
proof -
  obtain b d w' rs' where "stream_flush a rs r s w = Some (s\<lparr>sm_output := b, sm_descriptor := d\<rparr>, w', take (taken xs rs) xs, rs')"
    "holds b (drop (taken xs rs) xs)" "wired a (s\<lparr>sm_output := b, sm_descriptor := d\<rparr>) w'"
    "watched_for EPOLLOUT (s\<lparr>sm_output := b, sm_descriptor := d\<rparr>) w' \<longleftrightarrow> drop (taken xs rs) xs \<noteq> [] \<or> sm_notify s"
    using stream_flush_ok [OF assms, of r] by blast
  then show ?thesis
    by (intro exI [of _ "s\<lparr>sm_output := b, sm_descriptor := d\<rparr>"] exI [of _ w'] exI [of _ "take (taken xs rs) xs"]
        exI [of _ rs'] exI [of _ "drop (taken xs rs) xs"]) simp
qed

theorem stream_flush_watches_witness:
  "\<exists>s w s' w' sent rs' out. fresh_stream (None :: nat option) 0 = Some (s, w) \<and> stream_flush 1 [Again] (Inl 0) s w = Some (s', w', sent, rs') \<and>
     holds (sm_output s') out \<and> sent @ out = [] \<and> wired 1 s' w' \<and> (watched_for EPOLLOUT s' w' \<longleftrightarrow> out \<noteq> [] \<or> sm_notify s)"
proof -
  obtain s w where s: "fresh_stream (None :: nat option) 0 = Some (s, w)" "duplex_of 1 (s, w, fresh_traffic) fresh_duplex"
    using fresh_stream_ok by blast
  then have "wired 1 s w" "sm_ssl s = No_Ssl" "holds (sm_output s) []" by (simp_all add: duplex_of_def fresh_duplex_def)
  from stream_flush_watches [OF this, of "[Again]" "Inl 0"] s(1) show ?thesis by (auto simp: write_answers_def)
qed

end
