(* ===== verification/Timer.thy ===== *)
theory Timer
  imports Descriptor
begin

text \<open>
  \<^verbatim>\<open>src/reactor/timer.c\<close> and \<^verbatim>\<open>src/reactor/event.c\<close>: timers over \<open>timerfd\<close> and events over
  \<open>eventfd\<close>, two small users of descriptors. The file descriptors the system creates, what reads
  deliver and whether system calls succeed are arguments; the callbacks return the event they
  dispatch last, as its type and data.
\<close>

section \<open>Timers\<close>

record 'c timer =
  tm_handler :: "'c handler"
  tm_descriptor :: "unit descriptor"

record itimerspec =
  it_interval :: "u64 \<times> u64"
  it_value :: "u64 \<times> u64"

definition TIMER_EXPIRATION :: nat where "TIMER_EXPIRATION = 0"

text \<open>The reads deliver numbers of expirations until one fails with \<open>EAGAIN\<close>.\<close>

primrec expirations_loop :: "u64 \<Rightarrow> u64 list \<Rightarrow> u64" where
  "expirations_loop tot [] = tot"
| "expirations_loop tot (n # ns) = expirations_loop (tot + n) ns"

lemma expirations_sum:
  "unat tot + sum_list (map unat ns) < 2 ^ 64 \<Longrightarrow> unat (expirations_loop tot ns) = unat tot + sum_list (map unat ns)"
proof (induction ns arbitrary: tot)
  case (Cons n ns)
  then have "unat (tot + n) = unat tot + unat n" by (intro unat_add_64) simp
  then show ?case using Cons.IH [of "tot + n"] Cons.prems by simp
qed simp

definition timer_callback :: "u64 list \<Rightarrow> (nat \<times> u64) option" where
  "timer_callback expirations = (let tot = expirations_loop 0 expirations in
     if tot \<noteq> 0 then Some (TIMER_EXPIRATION, tot) else None)"

definition timer_construct :: "nat \<Rightarrow> 'c option \<Rightarrow> nat \<Rightarrow> 'c timer \<Rightarrow> 'c timer" where
  "timer_construct a callback state t =
     t\<lparr>tm_handler := reactor_handler_construct callback state,
       tm_descriptor := descriptor_construct a (Some ()) a (tm_descriptor t)\<rparr>"

definition timer_clear :: "nat \<Rightarrow> 'c timer \<Rightarrow> (nat, 'z) reactor_scheme \<Rightarrow> ('c timer \<times> (nat, 'z) reactor_scheme) option" where
  "timer_clear a t w = do { (d, w) \<leftarrow> descriptor_close a (tm_descriptor t) w; Some (t\<lparr>tm_descriptor := d\<rparr>, w) }"

definition timer_destruct :: "nat \<Rightarrow> 'c timer \<Rightarrow> (nat, 'z) reactor_scheme \<Rightarrow> ('c timer \<times> (nat, 'z) reactor_scheme) option" where
  "timer_destruct a t w = timer_clear a t w"

text \<open>\<open>fd\<close> is the answer of \<open>timerfd_create\<close>; the result includes what \<open>timerfd_settime\<close> is given.\<close>

definition timer_set :: "nat \<Rightarrow> int \<Rightarrow> 'c timer \<Rightarrow> u64 \<Rightarrow> u64 \<Rightarrow> (nat, 'z) reactor_scheme
    \<Rightarrow> ('c timer \<times> (nat, 'z) reactor_scheme \<times> itimerspec) option" where
  "timer_set a fd t t0 ti w = do {
     (d, w) \<leftarrow> (if descriptor_fd (tm_descriptor t) = -1
        then (if fd \<noteq> -1 then descriptor_open a (tm_descriptor t) fd DESCRIPTOR_READ w else None)
        else Some (tm_descriptor t, w));
     (let t0 = t0 + (if t0 = 0 then 1 else 0) in
      Some (t\<lparr>tm_descriptor := d\<rparr>, w,
        \<lparr>it_interval = (ti div 1000000000, ti mod 1000000000), it_value = (t0 div 1000000000, t0 mod 1000000000)\<rparr>)) }"

text \<open>
  \<open>timer_set\<close> hands the kernel a valid time (fewer than \<open>10^9\<close> nanoseconds each), which is
  the requested delay and interval, except that a delay of zero becomes one nanosecond: the kernel
  would read zero as a request to disarm the timer. Setting an unopened timer opens its descriptor for reading.
\<close>

theorem timer_set_arms:
  assumes "de_fd (tm_descriptor t) = -1" "0 \<le> fd" "rc_interest w fd = None"
  shows "\<exists>t' w' spec. timer_set a fd t t0 ti w = Some (t', w', spec) \<and>
    unat (fst (it_value spec)) * 10 ^ 9 + unat (snd (it_value spec)) = max 1 (unat t0) \<and> unat (snd (it_value spec)) < 10 ^ 9 \<and>
    unat (fst (it_interval spec)) * 10 ^ 9 + unat (snd (it_interval spec)) = unat ti \<and> unat (snd (it_interval spec)) < 10 ^ 9 \<and>
    de_fd (tm_descriptor t') = fd \<and> rc_interest w' fd = Some (descriptor_events (tm_descriptor t'), a)"
proof -
  define t1 where "t1 = t0 + (if t0 = 0 then 1 else 0)"
  have t1: "unat t1 = max 1 (unat t0)"
  proof (cases "t0 = 0")
    case False
    then have "0 < unat t0" by (simp add: word_unat_eq_iff)
    then show ?thesis using False by (simp add: t1_def)
  qed (simp add: t1_def)
  have div: "unat (x div 1000000000) * 10 ^ 9 + unat (x mod 1000000000) = unat x" "unat (x mod 1000000000) < 10 ^ 9"
    for x :: u64
    by (simp_all add: unat_div unat_mod)
  show ?thesis
    using assms div [of t1] div [of ti] t1
    by (simp add: timer_set_def descriptor_fd_def descriptor_open_def reactor_add_def t1_def [symmetric] Let_def)
qed

theorem timer_set_arms_witness:
  "\<exists>t' w' spec. timer_set 1 7 \<lparr>tm_handler = reactor_handler_default :: nat handler,
       tm_descriptor = \<lparr>de_handler = reactor_handler_default, de_epoll_handler = reactor_handler_default, de_fd = -1, de_mask = 0\<rparr>\<rparr>
      0 1500000000 one_open = Some (t', w', spec) \<and>
    unat (fst (it_value spec)) * 10 ^ 9 + unat (snd (it_value spec)) = 1 \<and>
    unat (fst (it_interval spec)) * 10 ^ 9 + unat (snd (it_interval spec)) = 1500000000"
  using timer_set_arms [of "\<lparr>tm_handler = reactor_handler_default :: nat handler,
       tm_descriptor = \<lparr>de_handler = reactor_handler_default, de_epoll_handler = reactor_handler_default, de_fd = -1, de_mask = 0\<rparr>\<rparr>"
      7 one_open 1 0 1500000000]
  by (auto simp: one_open_def)

section \<open>Events\<close>

record 'c event =
  en_handler :: "'c handler"
  en_descriptor :: "unit descriptor"

definition EVENT_SIGNAL :: nat where "EVENT_SIGNAL = 0"

text \<open>\<open>delivered\<close> is the counter the read returns, \<^term>\<open>None\<close> when it fails; then the assertion fails.\<close>

definition event_callback :: "nat \<Rightarrow> u64 option \<Rightarrow> (nat \<times> u64) option" where
  "event_callback type delivered =
     (if type = DESCRIPTOR_READ then (case delivered of None \<Rightarrow> None | Some count \<Rightarrow> Some (EVENT_SIGNAL, count)) else None)"

definition event_construct :: "nat \<Rightarrow> 'c option \<Rightarrow> nat \<Rightarrow> 'c event \<Rightarrow> 'c event" where
  "event_construct a callback state e =
     e\<lparr>en_handler := reactor_handler_construct callback state,
       en_descriptor := descriptor_construct a (Some ()) a (en_descriptor e)\<rparr>"

definition event_open :: "nat \<Rightarrow> int \<Rightarrow> 'c event \<Rightarrow> (nat, 'z) reactor_scheme \<Rightarrow> ('c event \<times> (nat, 'z) reactor_scheme) option" where
  "event_open a fd e w =
     (if fd \<noteq> -1 then do { (d, w) \<leftarrow> descriptor_open a (en_descriptor e) fd DESCRIPTOR_READ w; Some (e\<lparr>en_descriptor := d\<rparr>, w) }
      else None)"

definition event_is_open :: "'c event \<Rightarrow> bool" where
  "event_is_open e \<longleftrightarrow> descriptor_is_open (en_descriptor e)"

definition event_close :: "nat \<Rightarrow> 'c event \<Rightarrow> (nat, 'z) reactor_scheme \<Rightarrow> ('c event \<times> (nat, 'z) reactor_scheme) option" where
  "event_close a e w =
     (if event_is_open e then do { (d, w) \<leftarrow> descriptor_close a (en_descriptor e) w; Some (e\<lparr>en_descriptor := d\<rparr>, w) }
      else Some (e, w))"

definition event_destruct :: "nat \<Rightarrow> 'c event \<Rightarrow> (nat, 'z) reactor_scheme \<Rightarrow> ('c event \<times> (nat, 'z) reactor_scheme) option" where
  "event_destruct a e w = event_close a e w"

text \<open>The write adds one to the counter of the kernel, or fails, as it does on a closed event.\<close>

definition event_signal :: "'c event \<Rightarrow> u64 \<Rightarrow> u64 option" where
  "event_signal e counter =
     (if 0 \<le> descriptor_fd (en_descriptor e) \<and> counter < 0xFFFFFFFFFFFFFFFE then Some (counter + 1) else None)"

end
