(* ===== verification/Server.thy ===== *)
theory Server
  imports Stream Timer Http_Message
begin

text \<open>
  \<^verbatim>\<open>src/reactor/server.c\<close>: the HTTP server. The state is the reactor, extended by the requests
  (one per connection) under their addresses, in the order of the list of the server. A request
  that is not there has been freed; reading it makes an operation return \<^term>\<open>None\<close>.

  The program that answers requests is arbitrary: for a dispatched request it makes a list of
  decisions, each of which looks at the whole state and calls an operation on any request, or none.
  \<open>sv_held\<close> counts the
  references to each request that the program owns: one for each time the request was handed to it
  and one for each \<open>server_hold\<close>; \<open>server_respond\<close>, \<open>server_bad_request\<close> and
  \<open>server_release\<close> give one back. The system is arbitrary, too: \<open>sv_writes\<close> holds the answers of
  the coming calls of \<open>write\<close>, and \<open>sv_sent\<close> what has been sent, per connection.
\<close>

section \<open>The date\<close>

record broken_time =
  tm_wday :: nat
  tm_mday :: nat
  tm_mon :: nat
  tm_year :: nat
  tm_hour :: nat
  tm_min :: nat
  tm_sec :: nat

definition two_digits :: "nat \<Rightarrow> string" where
  "two_digits n = [digit_char (n div 10 mod 10), digit_char (n mod 10)]"

definition date_days :: "string list" where
  "date_days = [''Sun'', ''Mon'', ''Tue'', ''Wed'', ''Thu'', ''Fri'', ''Sat'']"

definition date_months :: "string list" where
  "date_months = [''Jan'', ''Feb'', ''Mar'', ''Apr'', ''May'', ''Jun'', ''Jul'', ''Aug'', ''Sep'', ''Oct'', ''Nov'', ''Dec'']"

text \<open>The array has 30 bytes; \<open>strftime\<close> leaves them undefined when the text and its zero do not fit.\<close>

definition server_date_update :: "broken_time \<Rightarrow> string option" where
  "server_date_update tm =
     (let text = ''---, '' @ two_digits (tm_mday tm) @ '' --- '' @ decimal (tm_year tm) @ '' '' @ two_digits (tm_hour tm) @ '':'' @
        two_digits (tm_min tm) @ '':'' @ two_digits (tm_sec tm) @ '' GMT'' in
      if length text + 1 \<le> 30 \<and> tm_wday tm < 7 \<and> tm_mon tm < 12 then do {
        text \<leftarrow> mem_write text 0 (date_days ! tm_wday tm);
        mem_write text 8 (date_months ! tm_mon tm) }
      else None)"

text \<open>\<open>server_date\<close>: the first 29 bytes of the array.\<close>

definition server_date :: "string \<Rightarrow> string" where "server_date date_string = take 29 date_string"

lemma server_date_written:
  assumes "tm_wday tm < 7" "tm_mon tm < 12" "1000 \<le> tm_year tm" "tm_year tm < 10000"
  shows "\<exists>date. server_date_update tm = Some date \<and> server_date date = date \<and> length date = 29 \<and>
    date = date_days ! tm_wday tm @ '', '' @ two_digits (tm_mday tm) @ '' '' @ date_months ! tm_mon tm @ '' '' @ decimal (tm_year tm) @ '' '' @
      two_digits (tm_hour tm) @ '':'' @ two_digits (tm_min tm) @ '':'' @ two_digits (tm_sec tm) @ '' GMT''"
proof -
  have y: "length (decimal (tm_year tm)) = 4" using assms(3,4) length_decimal_eq [of 4 "tm_year tm"] by simp
  have "date_days ! tm_wday tm \<in> set date_days" "date_months ! tm_mon tm \<in> set date_months"
    using assms(1,2) by (simp_all add: date_days_def date_months_def del: list.set)
  then have n: "length (date_days ! tm_wday tm) = 3" "length (date_months ! tm_mon tm) = 3"
    by (auto simp: date_days_def date_months_def)
  then show ?thesis
    using assms y by (simp add: server_date_update_def server_date_def two_digits_def mem_write_def Let_def)
qed

text \<open>
  C35. In the years 1000 to 9999 \<open>server_date_update\<close> writes the date in the format of HTTP, as in
  \<open>Sun, 06 Nov 1994 08:49:37 GMT\<close>: the names of day and month replace the dashes exactly, nothing
  is written outside of the array, and the view \<open>server_date\<close> of 29 bytes is the whole text.
\<close>

theorem server_date_format:
  assumes "tm_wday tm < 7" "tm_mon tm < 12" "1000 \<le> tm_year tm" "tm_year tm < 10000"
  shows "\<exists>date. server_date_update tm = Some date \<and> server_date date = date \<and> length date = 29 \<and>
    date = date_days ! tm_wday tm @ '', '' @ two_digits (tm_mday tm) @ '' '' @ date_months ! tm_mon tm @ '' '' @ decimal (tm_year tm) @ '' '' @
      two_digits (tm_hour tm) @ '':'' @ two_digits (tm_min tm) @ '':'' @ two_digits (tm_sec tm) @ '' GMT''"
  by (rule server_date_written [OF assms])

theorem server_date_format_witness:
  "\<exists>date. server_date_update \<lparr>tm_wday = 0, tm_mday = 6, tm_mon = 10, tm_year = 1994, tm_hour = 8, tm_min = 49, tm_sec = 37\<rparr> = Some date \<and>
     server_date date = ''Sun, 06 Nov 1994 08:49:37 GMT''"
proof -
  let ?tm = "\<lparr>tm_wday = 0, tm_mday = 6, tm_mon = 10, tm_year = 1994, tm_hour = 8, tm_min = 49, tm_sec = 37\<rparr>"
  have "date_days ! 0 @ '', '' @ two_digits 6 @ '' '' @ date_months ! 10 @ '' '' @ decimal 1994 @ '' '' @
      two_digits 8 @ '':'' @ two_digits 49 @ '':'' @ two_digits 37 @ '' GMT'' = ''Sun, 06 Nov 1994 08:49:37 GMT''"
    by code_simp
  with server_date_format [of ?tm] show ?thesis by auto
qed

section \<open>State\<close>

datatype server_state =
    SERVER_REQUEST_NEED_MORE_DATA
  | SERVER_REQUEST_READ
  | SERVER_REQUEST_HANDLING
  | SERVER_REQUEST_CLOSED

text \<open>\<open>sr_data\<close> is a view of the input buffer: its offset and its size.\<close>

record server_request =
  sr_ref :: u64
  sr_state :: server_state
  sr_event_triggered :: bool
  sr_stream :: "unit stream"
  sr_data :: "nat \<times> u64"

record dispatched =
  dp_request :: nat
  dp_method :: string
  dp_target :: string
  dp_fields :: "http_field list"

record server_world = "nat ssl_reactor" +
  sv_requests :: "nat \<rightharpoonup> server_request"
  sv_order :: "nat list"
  sv_held :: "nat \<Rightarrow> nat"
  sv_writes :: "nat \<Rightarrow> write_answer list"
  sv_sent :: "nat \<Rightarrow> string"
  sv_log :: "dispatched list"

text \<open>
  What a program may do with a request: \<open>server_hold\<close>, \<open>server_release\<close>, \<open>server_respond\<close>,
  \<open>server_ok\<close>, \<open>server_not_found\<close>, \<open>server_bad_request\<close> and \<open>server_close\<close>.
\<close>

datatype action =
    Hold nat
  | Release nat
  | Respond nat string string string
  | Reply_Ok nat string string
  | Not_Found nat
  | Bad_Request nat
  | Hang_Up nat

text \<open>
  The program, the 30 bytes of the date, whether the parser uses SSE, the contents of the memory
  behind the input that was never written, and the answers of \<open>SSL_write\<close>.
\<close>

type_synonym decision = "server_world \<Rightarrow> action option"

record environment =
  ev_program :: "server_world \<Rightarrow> nat \<Rightarrow> decision list"
  ev_date :: string
  ev_sse :: bool
  ev_junk :: "nat \<Rightarrow> char"
  ev_ssl_write :: "server_world \<Rightarrow> nat \<Rightarrow> int + nat"

definition put_request :: "nat \<Rightarrow> server_request \<Rightarrow> server_world \<Rightarrow> server_world" where
  "put_request a r w = w\<lparr>sv_requests := (sv_requests w)(a \<mapsto> r)\<rparr>"

definition update_request :: "nat \<Rightarrow> (server_request \<Rightarrow> server_request) \<Rightarrow> server_world \<Rightarrow> server_world option" where
  "update_request a f w = do { r \<leftarrow> sv_requests w a; Some (put_request a (f r) w) }"

definition set_held :: "nat \<Rightarrow> (nat \<Rightarrow> nat) \<Rightarrow> server_world \<Rightarrow> server_world" where
  "set_held a f w = w\<lparr>sv_held := (sv_held w)(a := f (sv_held w a))\<rparr>"

section \<open>References\<close>

definition server_hold :: "nat \<Rightarrow> server_world \<Rightarrow> server_world option" where
  "server_hold a = update_request a (\<lambda>r. r\<lparr>sr_ref := sr_ref r + 1\<rparr>)"

definition server_release :: "nat \<Rightarrow> server_world \<Rightarrow> server_world option" where
  "server_release a w = do {
     w \<leftarrow> update_request a (\<lambda>r. r\<lparr>sr_ref := sr_ref r - 1\<rparr>) w;
     r \<leftarrow> sv_requests w a;
     (if sr_ref r \<noteq> 0 then Some w
      else do {
        (s, w) \<leftarrow> stream_destruct a (sr_stream r) w;
        Some (w\<lparr>sv_requests := (sv_requests w)(a := None), sv_order := remove1 a (sv_order w)\<rparr>) }) }"

definition server_close :: "nat \<Rightarrow> server_world \<Rightarrow> server_world option" where
  "server_close a w = do {
     r \<leftarrow> sv_requests w a;
     (if sr_state r \<noteq> SERVER_REQUEST_CLOSED then do {
        (s, w) \<leftarrow> stream_close a (sr_stream r) w;
        server_release a (put_request a (r\<lparr>sr_stream := s, sr_state := SERVER_REQUEST_CLOSED\<rparr>) w) }
      else Some w) }"

section \<open>Responses\<close>

definition request_write :: "environment \<Rightarrow> nat \<Rightarrow> string \<Rightarrow> string \<Rightarrow> string \<Rightarrow> server_world \<Rightarrow> server_world option" where
  "request_write env a status type body w = do {
     r \<leftarrow> sv_requests w a;
     out \<leftarrow> http_write_response (sm_output (sr_stream r)) status (server_date (ev_date env)) type body;
     Some (put_request a (r\<lparr>sr_stream := (sr_stream r)\<lparr>sm_output := out\<rparr>\<rparr>) w) }"

definition request_flush :: "environment \<Rightarrow> nat \<Rightarrow> server_world \<Rightarrow> server_world option" where
  "request_flush env a w = do {
     r \<leftarrow> sv_requests w a;
     (s, w, sent, rs) \<leftarrow> stream_flush a (sv_writes w a) (ev_ssl_write env w a) (sr_stream r) w;
     Some (put_request a (r\<lparr>sr_stream := s\<rparr>)
       (w\<lparr>sv_sent := (sv_sent w)(a := sv_sent w a @ sent), sv_writes := (sv_writes w)(a := rs)\<rparr>)) }"

definition server_bad_request :: "environment \<Rightarrow> nat \<Rightarrow> server_world \<Rightarrow> server_world option" where
  "server_bad_request env a w = do {
     r \<leftarrow> sv_requests w a;
     w \<leftarrow> (if sr_state r \<noteq> SERVER_REQUEST_CLOSED then do {
             w \<leftarrow> request_write env a ''400 Bad Request'' [] [] w;
             w \<leftarrow> request_flush env a w;
             server_close a w }
           else Some w);
     server_release a w }"

text \<open>\<open>update\<close> is \<open>server_request_update\<close>, which is defined below with the functions it calls.\<close>

definition server_respond_with :: "(nat \<Rightarrow> server_world \<Rightarrow> server_world option) \<Rightarrow> environment \<Rightarrow> nat \<Rightarrow> string \<Rightarrow> string \<Rightarrow> string
    \<Rightarrow> server_world \<Rightarrow> server_world option" where
  "server_respond_with update env a status type body w = do {
     r \<leftarrow> sv_requests w a;
     w \<leftarrow> (if sr_state r \<noteq> SERVER_REQUEST_CLOSED then do {
             w \<leftarrow> request_write env a status type body w;
             (if sr_event_triggered r then update_request a (\<lambda>r. r\<lparr>sr_state := SERVER_REQUEST_READ\<rparr>) w
              else do {
                w \<leftarrow> update_request a (\<lambda>r. r\<lparr>sr_state := SERVER_REQUEST_NEED_MORE_DATA\<rparr>) w;
                w \<leftarrow> request_flush env a w;
                update a w }) }
           else Some w);
     server_release a w }"

text \<open>A call of the program: it gives up the reference it owns, or gets one.\<close>

primrec perform_with :: "(nat \<Rightarrow> server_world \<Rightarrow> server_world option) \<Rightarrow> environment \<Rightarrow> action \<Rightarrow> server_world \<Rightarrow> server_world option" where
  "perform_with update env (Hold a) w = map_option (set_held a Suc) (server_hold a w)"
| "perform_with update env (Release a) w = server_release a (set_held a (\<lambda>n. n - 1) w)"
| "perform_with update env (Respond a status type body) w =
     server_respond_with update env a status type body (set_held a (\<lambda>n. n - 1) w)"
| "perform_with update env (Reply_Ok a type body) w =
     server_respond_with update env a ''200 OK'' type body (set_held a (\<lambda>n. n - 1) w)"
| "perform_with update env (Not_Found a) w =
     server_respond_with update env a ''404 Not Found'' [] [] (set_held a (\<lambda>n. n - 1) w)"
| "perform_with update env (Bad_Request a) w = server_bad_request env a (set_held a (\<lambda>n. n - 1) w)"
| "perform_with update env (Hang_Up a) w = server_close a w"

primrec actions_with :: "(nat \<Rightarrow> server_world \<Rightarrow> server_world option) \<Rightarrow> environment \<Rightarrow> decision list \<Rightarrow> server_world \<Rightarrow> server_world option" where
  "actions_with update env [] w = Some w"
| "actions_with update env (f # fs) w = do {
     w \<leftarrow> (case f w of None \<Rightarrow> Some w | Some x \<Rightarrow> perform_with update env x w);
     actions_with update env fs w }"

section \<open>Reading requests\<close>

text \<open>The allocation of the input buffer; cells that were never written have arbitrary contents.\<close>

definition stream_memory :: "(nat \<Rightarrow> char) \<Rightarrow> 'c stream \<Rightarrow> string" where
  "stream_memory junk s = (let d = buf_data (sm_input s) in
     map (\<lambda>i. case d ! i of Some c \<Rightarrow> c | None \<Rightarrow> junk i) [0..<length d])"

text \<open>\<open>http_read_request\<close> of \<^verbatim>\<open>http.c\<close> reads a request from the input of a stream; the server has its own view of it.\<close>

definition http_read_request :: "bool \<Rightarrow> (nat \<Rightarrow> char) \<Rightarrow> 'c stream \<Rightarrow> nat \<Rightarrow> (int \<times> phr_request option) option" where
  "http_read_request sse junk s fields_count =
     http_read_request_data sse (stream_memory junk s) (unat (buf_size (sm_input s))) fields_count"

definition input_memory :: "environment \<Rightarrow> server_request \<Rightarrow> string" where
  "input_memory env r = stream_memory (ev_junk env) (sr_stream r)"

definition request_dispatch :: "(nat \<Rightarrow> server_world \<Rightarrow> server_world option) \<Rightarrow> environment \<Rightarrow> nat \<Rightarrow> string \<Rightarrow> phr_request
    \<Rightarrow> server_world \<Rightarrow> server_world option" where
  "request_dispatch update env a text q w =
     (let w = set_held a Suc (w\<lparr>sv_log := sv_log w @
        [\<lparr>dp_request = a, dp_method = slice text (rq_method q) (rq_method_len q),
          dp_target = slice text (rq_path q) (rq_path_len q), dp_fields = map (read_field text) (rq_headers q)\<rparr>]\<rparr>) in
      actions_with update env (ev_program env w a) w)"

definition server_request_read_with :: "(nat \<Rightarrow> server_world \<Rightarrow> server_world option) \<Rightarrow> environment \<Rightarrow> nat \<Rightarrow> server_world
    \<Rightarrow> server_world option" where
  "server_request_read_with update env a w = do {
     r \<leftarrow> sv_requests w a;
     (let (off, n) = sr_data r in
      if n = 0 then update_request a (\<lambda>r. r\<lparr>sr_state := SERVER_REQUEST_NEED_MORE_DATA\<rparr>) w
      else (let text = drop off (input_memory env r) in do {
        (m, q) \<leftarrow> http_read_request_data (ev_sse env) text (unat n) 16;
        (if m = -2 then update_request a (\<lambda>r. r\<lparr>sr_state := SERVER_REQUEST_NEED_MORE_DATA\<rparr>) w
         else if m = -1 then do {
           w \<leftarrow> update_request a (\<lambda>r. r\<lparr>sr_state := SERVER_REQUEST_HANDLING\<rparr>) w;
           w \<leftarrow> server_hold a w;
           server_bad_request env a w }
         else do {
           w \<leftarrow> update_request a (\<lambda>r. r\<lparr>sr_state := SERVER_REQUEST_HANDLING\<rparr>) w;
           w \<leftarrow> server_hold a w;
           w \<leftarrow> update_request a (\<lambda>r. r\<lparr>sr_data := (off + nat m, n - word_of_int m)\<rparr>) w;
           q \<leftarrow> q;
           request_dispatch update env a text q w }) })) }"

partial_function (option) read_loop :: "(server_world \<Rightarrow> server_world option) \<Rightarrow> nat \<Rightarrow> server_world \<Rightarrow> server_world option" where
  "read_loop step a w = do {
     r \<leftarrow> sv_requests w a;
     (if sr_state r = SERVER_REQUEST_READ then do { w \<leftarrow> step w; read_loop step a w } else Some w) }"

text \<open>
  \<open>server_request_update\<close> calls the program, which may call \<open>server_respond\<close> on other requests,
  which calls \<open>server_request_update\<close> on them. The first argument bounds the depth of this nesting;
  each level has its own request marked by \<open>event_triggered\<close>.
\<close>

primrec server_request_update_depth :: "nat \<Rightarrow> environment \<Rightarrow> nat \<Rightarrow> server_world \<Rightarrow> server_world option" where
  "server_request_update_depth 0 env a w = None"
| "server_request_update_depth (Suc depth) env a w = do {
     r \<leftarrow> sv_requests w a;
     (if sr_state r \<noteq> SERVER_REQUEST_NEED_MORE_DATA \<or> buf_size (sm_input (sr_stream r)) = 0 then Some w
      else do {
        w \<leftarrow> server_hold a w;
        w \<leftarrow> update_request a (\<lambda>r. r\<lparr>sr_event_triggered := True, sr_data := (0, buf_size (sm_input (sr_stream r))),
               sr_state := SERVER_REQUEST_READ\<rparr>) w;
        w \<leftarrow> read_loop (server_request_read_with (server_request_update_depth depth env) env a) a w;
        r \<leftarrow> sv_requests w a;
        w \<leftarrow> (if sr_state r \<noteq> SERVER_REQUEST_CLOSED then do {
                s \<leftarrow> stream_consume (sr_stream r) (buf_size (sm_input (sr_stream r)) - snd (sr_data r));
                request_flush env a (put_request a (r\<lparr>sr_stream := s\<rparr>) w) }
              else Some w);
        w \<leftarrow> update_request a (\<lambda>r. r\<lparr>sr_event_triggered := False\<rparr>) w;
        server_release a w }) }"

text \<open>Every level marks one of the requests, so their number bounds the depth.\<close>

definition server_request_update :: "environment \<Rightarrow> nat \<Rightarrow> server_world \<Rightarrow> server_world option" where
  "server_request_update env a w = server_request_update_depth (Suc (length (sv_order w))) env a w"

definition server_respond :: "environment \<Rightarrow> nat \<Rightarrow> string \<Rightarrow> string \<Rightarrow> string \<Rightarrow> server_world \<Rightarrow> server_world option" where
  "server_respond env = server_respond_with (server_request_update env) env"

definition server_ok :: "environment \<Rightarrow> nat \<Rightarrow> string \<Rightarrow> string \<Rightarrow> server_world \<Rightarrow> server_world option" where
  "server_ok env a type body = server_respond env a ''200 OK'' type body"

definition server_not_found :: "environment \<Rightarrow> nat \<Rightarrow> server_world \<Rightarrow> server_world option" where
  "server_not_found env a = server_respond env a ''404 Not Found'' [] []"

definition server_request_callback :: "environment \<Rightarrow> nat \<Rightarrow> nat \<Rightarrow> server_world \<Rightarrow> server_world option" where
  "server_request_callback env a type w =
     (if type = STREAM_READ then server_request_update env a w else server_close a w)"

section \<open>Connections\<close>

text \<open>An event on the descriptor of a plain connection: what the reads deliver is an argument.\<close>

definition connection_event :: "environment \<Rightarrow> nat \<Rightarrow> nat \<Rightarrow> string list \<Rightarrow> server_world \<Rightarrow> server_world option" where
  "connection_event env a type reads w = do {
     r \<leftarrow> sv_requests w a;
     (s, w, sent, rs, ev) \<leftarrow> stream_socket_callback a type reads (sv_writes w a) (sr_stream r) w;
     (let w = put_request a (r\<lparr>sr_stream := s\<rparr>) (w\<lparr>sv_sent := (sv_sent w)(a := sv_sent w a @ sent), sv_writes := (sv_writes w)(a := rs)\<rparr>) in
      case ev of None \<Rightarrow> Some w | Some type \<Rightarrow> server_request_callback env a type w) }"

text \<open>An event on the descriptor of an encrypted connection: also the error that ends the reads is an argument.\<close>

definition connection_tls_event :: "environment \<Rightarrow> nat \<Rightarrow> nat \<Rightarrow> string list \<times> int \<Rightarrow> server_world \<Rightarrow> server_world option" where
  "connection_tls_event env a type reads w = do {
     r \<leftarrow> sv_requests w a;
     (s, w, sent, ev) \<leftarrow> stream_ssl_callback a type reads (ev_ssl_write env w a) (sr_stream r) w;
     (let w = put_request a (r\<lparr>sr_stream := s\<rparr>) (w\<lparr>sv_sent := (sv_sent w)(a := sv_sent w a @ sent)\<rparr>) in
      case ev of None \<Rightarrow> Some w | Some type \<Rightarrow> server_request_callback env a type w) }"

text \<open>
  Accepting a connection: \<open>a\<close> is the address of the new list item; \<open>created\<close> says whether \<open>SSL_new\<close> succeeds.
\<close>

definition new_request :: "nat \<Rightarrow> unit stream \<Rightarrow> server_request" where
  "new_request a s = \<lparr>sr_ref = 1, sr_state = SERVER_REQUEST_NEED_MORE_DATA, sr_event_triggered = False, sr_stream = s, sr_data = (0, 0)\<rparr>"

definition server_socket_accept :: "nat \<Rightarrow> int \<Rightarrow> server_world \<Rightarrow> server_world option" where
  "server_socket_accept a fd w = do {
     (s, w) \<leftarrow> stream_open a (stream_construct a (Some ()) a) fd STREAM_READ (0, True) None (w\<lparr>sv_order := sv_order w @ [a]\<rparr>);
     Some (put_request a (new_request a s) w) }"

definition server_ssl_accept :: "nat \<Rightarrow> int \<Rightarrow> bool \<Rightarrow> server_world \<Rightarrow> server_world option" where
  "server_ssl_accept a fd created w = do {
     (s, w) \<leftarrow> stream_open a (stream_construct a (Some ()) a) fd STREAM_READ (0, True) (Some created) (w\<lparr>sv_order := sv_order w @ [a]\<rparr>);
     Some (put_request a (new_request a s) w) }"

text \<open>The accepted file descriptors, each with the address of its list item, until \<open>accept4\<close> returns -1.\<close>

primrec server_socket_descriptor_callback :: "(nat \<times> int) list \<Rightarrow> server_world \<Rightarrow> server_world option" where
  "server_socket_descriptor_callback [] w = Some w"
| "server_socket_descriptor_callback (x # xs) w = do {
     w \<leftarrow> server_socket_accept (fst x) (snd x) w; server_socket_descriptor_callback xs w }"

primrec server_ssl_descriptor_callback :: "(nat \<times> int \<times> bool) list \<Rightarrow> server_world \<Rightarrow> server_world option" where
  "server_ssl_descriptor_callback [] w = Some w"
| "server_ssl_descriptor_callback (x # xs) w = do {
     w \<leftarrow> server_ssl_accept (fst x) (fst (snd x)) (snd (snd x)) w; server_ssl_descriptor_callback xs w }"

section \<open>The server\<close>

datatype server_callback = Socket_Descriptor_Callback | Ssl_Descriptor_Callback

text \<open>The context of OpenSSL is present or not; the lists of requests are in the world.\<close>

record server =
  se_handler :: "nat handler"
  se_is_open :: bool
  se_descriptor :: "server_callback descriptor"
  se_timer :: "unit timer"
  se_ssl_ctx :: bool

text \<open>\<open>t\<close> and \<open>d\<close> are the addresses of the timer and the descriptor inside of the server.\<close>

definition server_construct :: "nat \<Rightarrow> nat \<Rightarrow> nat option \<Rightarrow> nat \<Rightarrow> server_world \<Rightarrow> server \<times> server_world" where
  "server_construct t d callback state w =
     (let none = \<lparr>de_handler = \<lparr>h_callback = None, h_state = 0\<rparr>, de_epoll_handler = \<lparr>h_callback = None, h_state = 0\<rparr>, de_fd = 0, de_mask = 0\<rparr> in
      (\<lparr>se_handler = reactor_handler_construct callback state, se_is_open = False,
        se_descriptor = \<lparr>de_handler = \<lparr>h_callback = None, h_state = 0\<rparr>, de_epoll_handler = \<lparr>h_callback = None, h_state = 0\<rparr>, de_fd = 0, de_mask = 0\<rparr>,
        se_timer = timer_construct t (Some ()) d \<lparr>tm_handler = \<lparr>h_callback = None, h_state = 0\<rparr>, tm_descriptor = none\<rparr>,
        se_ssl_ctx = False\<rparr>, w\<lparr>sv_order := []\<rparr>))"

definition server_open_with :: "server_callback \<Rightarrow> nat \<Rightarrow> nat \<Rightarrow> int \<Rightarrow> int \<Rightarrow> server \<Rightarrow> server_world \<Rightarrow> (server \<times> server_world) option" where
  "server_open_with callback t d timer_fd fd se w = do {
     (tm, w, spec) \<leftarrow> timer_set t timer_fd (se_timer se) 0 1000000000 w;
     (let de = descriptor_construct d (Some callback) d (se_descriptor se) in do {
        (de, w) \<leftarrow> descriptor_open d de fd DESCRIPTOR_READ w;
        Some (se\<lparr>se_timer := tm, se_descriptor := de\<rparr>, w) }) }"

definition server_socket_open :: "nat \<Rightarrow> nat \<Rightarrow> int \<Rightarrow> int \<Rightarrow> server \<Rightarrow> server_world \<Rightarrow> (server \<times> server_world) option" where
  "server_socket_open = server_open_with Socket_Descriptor_Callback"

definition server_ssl_open :: "nat \<Rightarrow> nat \<Rightarrow> int \<Rightarrow> int \<Rightarrow> server \<Rightarrow> server_world \<Rightarrow> (server \<times> server_world) option" where
  "server_ssl_open t d timer_fd fd se w = server_open_with Ssl_Descriptor_Callback t d timer_fd fd (se\<lparr>se_ssl_ctx := True\<rparr>) w"

definition server_open :: "nat \<Rightarrow> nat \<Rightarrow> int \<Rightarrow> int \<Rightarrow> bool \<Rightarrow> server \<Rightarrow> server_world \<Rightarrow> (server \<times> server_world) option" where
  "server_open t d timer_fd fd ssl_ctx se w = do {
     (se, w) \<leftarrow> (if ssl_ctx then server_ssl_open else server_socket_open) t d timer_fd fd se w;
     Some (se\<lparr>se_is_open := True\<rparr>, w) }"

text \<open>\<open>server_shutdown\<close> releases every request of the list; it reads the next one first.\<close>

primrec shutdown_loop :: "nat list \<Rightarrow> server_world \<Rightarrow> server_world option" where
  "shutdown_loop [] w = Some w"
| "shutdown_loop (a # as) w = do { w \<leftarrow> server_release a w; shutdown_loop as w }"

definition server_shutdown :: "nat \<Rightarrow> nat \<Rightarrow> server \<Rightarrow> server_world \<Rightarrow> (server \<times> server_world) option" where
  "server_shutdown t d se w = do {
     w \<leftarrow> shutdown_loop (sv_order w) w;
     (tm, w) \<leftarrow> timer_clear t (se_timer se) w;
     (let se = se\<lparr>se_timer := tm\<rparr> in
      if se_is_open se then do {
        (de, w) \<leftarrow> descriptor_destruct d (se_descriptor se) w;
        Some (se\<lparr>se_is_open := False, se_descriptor := de\<rparr>, w) }
      else Some (se, w)) }"

definition server_destruct :: "nat \<Rightarrow> nat \<Rightarrow> server \<Rightarrow> server_world \<Rightarrow> (server \<times> server_world) option" where
  "server_destruct t d se w = do {
     (se, w) \<leftarrow> server_shutdown t d se w;
     (tm, w) \<leftarrow> timer_destruct t (se_timer se) w;
     Some (se\<lparr>se_timer := tm\<rparr>, w) }"

definition server_accept :: "nat \<Rightarrow> int \<Rightarrow> bool \<Rightarrow> server \<Rightarrow> server_world \<Rightarrow> server_world option" where
  "server_accept a fd created se w = (if se_ssl_ctx se then server_ssl_accept a fd created w else server_socket_accept a fd w)"

text \<open>The timer callback only refreshes the date.\<close>

definition server_timer_callback :: "nat \<Rightarrow> broken_time \<Rightarrow> environment \<Rightarrow> environment option" where
  "server_timer_callback type tm env =
     (if type = TIMER_EXPIRATION then do { date \<leftarrow> server_date_update tm; Some (env\<lparr>ev_date := date\<rparr>) } else None)"

end
