(* ===== verification/Stream_Tls.thy ===== *)
theory Stream_Tls
  imports Stream "HOL-Library.Sublist"
begin

text \<open>
  Histories of a stream over OpenSSL, \<^verbatim>\<open>src/reactor/stream.c\<close>: the calls of the program and
  the events of the descriptor in any order, with any answers of \<open>SSL_read\<close>, \<open>SSL_write\<close> and
  \<open>SSL_get_error\<close>. Besides the traffic, a history records what each \<open>SSL_write\<close> was given
  and answered, because OpenSSL wants a write that could not be done to be repeated
  with the same bytes; the stream sets the modes that let the buffer move and a part be taken.
\<close>

datatype tls_call =
    Tls_Put string
  | Tls_Consume nat
  | Tls_Flush "int + nat"
  | Tls_Notify
  | Tls_Readable "string list" int
  | Tls_Writable "int + nat"

record tls_traffic = traffic +
  tr_writes :: "(string \<times> (int + nat)) list"

text \<open>The bytes \<open>stream_ssl_flush\<close> hands to \<open>SSL_write\<close>: as many as the length says after its conversion to \<open>int\<close>.\<close>

definition tls_offer :: "'c stream \<Rightarrow> string option" where
  "tls_offer s = do { cells \<leftarrow> mem_read (buffer_data (sm_output s)) 0 (ssl_length (buffer_size (sm_output s))); those cells }"

definition tls_noted :: "tls_traffic \<Rightarrow> string \<Rightarrow> int + nat \<Rightarrow> string \<Rightarrow> nat option \<Rightarrow> tls_traffic" where
  "tls_noted t xs r sent ev = (noted t sent ev)\<lparr>tr_writes := tr_writes t @ [(xs, r)]\<rparr>"

primrec tls_step :: "nat \<Rightarrow> tls_call \<Rightarrow> 'c stream \<times> nat ssl_reactor \<times> tls_traffic
    \<Rightarrow> ('c stream \<times> nat ssl_reactor \<times> tls_traffic) option" where
  "tls_step a (Tls_Put xs) q = (case q of (s, w, t) \<Rightarrow> do { s \<leftarrow> stream_write s xs; Some (s, w, t) })"
| "tls_step a (Tls_Consume n) q = (case q of (s, w, t) \<Rightarrow> do {
     cells \<leftarrow> mem_read (fst (stream_read s)) 0 n;
     xs \<leftarrow> those cells;
     s \<leftarrow> stream_consume s (word_of_nat n);
     Some (s, w, t\<lparr>tr_consumed := tr_consumed t @ xs\<rparr>) })"
| "tls_step a (Tls_Flush r) q = (case q of (s, w, t) \<Rightarrow> do {
     xs \<leftarrow> tls_offer s;
     (s, w, sent, rs) \<leftarrow> stream_flush a [] r s w; Some (s, w, tls_noted t xs r sent None) })"
| "tls_step a Tls_Notify q = (case q of (s, w, t) \<Rightarrow> do { (s, w) \<leftarrow> stream_notify a s w; Some (s, w, t) })"
| "tls_step a (Tls_Readable rs err) q = (case q of (s, w, t) \<Rightarrow> do {
     (s, w, sent, ev) \<leftarrow> stream_ssl_callback a DESCRIPTOR_READ (rs, err) (Inl 0) s w; Some (s, w, noted t sent ev) })"
| "tls_step a (Tls_Writable r) q = (case q of (s, w, t) \<Rightarrow> do {
     xs \<leftarrow> tls_offer s;
     (s, w, sent, ev) \<leftarrow> stream_ssl_callback a DESCRIPTOR_WRITE ([], 0) r s w; Some (s, w, tls_noted t xs r sent ev) })"

primrec tls_run :: "nat \<Rightarrow> tls_call list \<Rightarrow> 'c stream \<times> nat ssl_reactor \<times> tls_traffic
    \<Rightarrow> ('c stream \<times> nat ssl_reactor \<times> tls_traffic) option" where
  "tls_run a [] q = Some q"
| "tls_run a (c # cs) q = do { q \<leftarrow> tls_step a c q; tls_run a cs q }"

text \<open>
  The specification. \<open>ty_settled\<close> says that the bytes to be written are the same as when the mask of
  the descriptor was last set.
\<close>

record tls_duplex =
  ty_input :: string
  ty_output :: string
  ty_notify :: bool
  ty_error :: int
  ty_settled :: bool
  ty_traffic :: tls_traffic

primrec ssl_taken :: "int + nat \<Rightarrow> nat" where
  "ssl_taken (Inl err) = 0"
| "ssl_taken (Inr n) = n"

primrec ssl_error :: "int + nat \<Rightarrow> int" where
  "ssl_error (Inl err) = err"
| "ssl_error (Inr n) = 0"

definition ssl_given :: "string \<Rightarrow> string" where
  "ssl_given xs = take (ssl_length (word_of_nat (length xs))) xs"

definition tls_write :: "int + nat \<Rightarrow> bool \<Rightarrow> nat option \<Rightarrow> tls_duplex \<Rightarrow> tls_duplex" where
  "tls_write r notify ev x = x\<lparr>ty_output := drop (ssl_taken r) (ty_output x), ty_notify := notify, ty_error := ssl_error r,
     ty_settled := True, ty_traffic := tls_noted (ty_traffic x) (ssl_given (ty_output x)) r (take (ssl_taken r) (ty_output x)) ev\<rparr>"

primrec tls_spec :: "tls_call \<Rightarrow> tls_duplex \<Rightarrow> tls_duplex" where
  "tls_spec (Tls_Put xs) x = x\<lparr>ty_output := ty_output x @ xs, ty_settled := False\<rparr>"
| "tls_spec (Tls_Consume n) x = x\<lparr>ty_input := drop n (ty_input x),
     ty_traffic := (ty_traffic x)\<lparr>tr_consumed := tr_consumed (ty_traffic x) @ take n (ty_input x)\<rparr>\<rparr>"
| "tls_spec (Tls_Flush r) x = tls_write r (ty_notify x) None x"
| "tls_spec Tls_Notify x = x\<lparr>ty_notify := True, ty_settled := True\<rparr>"
| "tls_spec (Tls_Readable rs err) x = x\<lparr>ty_input := ty_input x @ concat rs, ty_error := err, ty_settled := True,
     ty_traffic := noted (ty_traffic x) [] (if concat rs \<noteq> [] then Some STREAM_READ else None)\<rparr>"
| "tls_spec (Tls_Writable r) x =
     (if drop (ssl_taken r) (ty_output x) = [] \<and> ty_notify x then tls_write r False (Some STREAM_WRITE) x
      else tls_write r (ty_notify x) None x)"

text \<open>\<open>SSL_write\<close> takes at least one byte and no more than it is given, or reports an error.\<close>

primrec ssl_answer :: "int + nat \<Rightarrow> string \<Rightarrow> bool" where
  "ssl_answer (Inl err) xs \<longleftrightarrow> True"
| "ssl_answer (Inr n) xs \<longleftrightarrow> 0 < n \<and> n \<le> length (ssl_given xs)"

primrec tls_allowed :: "tls_call \<Rightarrow> tls_duplex \<Rightarrow> bool" where
  "tls_allowed (Tls_Put xs) x \<longleftrightarrow> length (ty_output x) + length xs \<le> 2 ^ 62"
| "tls_allowed (Tls_Consume n) x \<longleftrightarrow> n \<le> length (ty_input x)"
| "tls_allowed (Tls_Flush r) x \<longleftrightarrow> ssl_answer r (ty_output x)"
| "tls_allowed Tls_Notify x \<longleftrightarrow> True"
| "tls_allowed (Tls_Readable rs err) x \<longleftrightarrow>
     (\<forall>xs \<in> set rs. xs \<noteq> [] \<and> length xs \<le> 16384) \<and> length (ty_input x) + length (concat rs) \<le> 2 ^ 62"
| "tls_allowed (Tls_Writable r) x \<longleftrightarrow> ssl_answer r (ty_output x)"

primrec tls_calls_allowed :: "tls_call list \<Rightarrow> tls_duplex \<Rightarrow> bool" where
  "tls_calls_allowed [] x \<longleftrightarrow> True"
| "tls_calls_allowed (c # cs) x \<longleftrightarrow> tls_allowed c x \<and> tls_calls_allowed cs (tls_spec c x)"

definition tls_wants :: "tls_duplex \<Rightarrow> bool" where
  "tls_wants x \<longleftrightarrow> ty_error x = SSL_ERROR_WANT_WRITE \<or> ty_output x \<noteq> [] \<or> ty_notify x"

definition tls_of :: "nat \<Rightarrow> 'c stream \<times> nat ssl_reactor \<times> tls_traffic \<Rightarrow> tls_duplex \<Rightarrow> bool" where
  "tls_of a q x \<longleftrightarrow> (case q of (s, w, t) \<Rightarrow> wired a s w \<and> sm_ssl s = Live_Ssl \<and> ssl_activated w \<and>
     holds (sm_input s) (ty_input x) \<and> holds (sm_output s) (ty_output x) \<and> sm_notify s = ty_notify x \<and>
     sm_ssl_state s = ty_error x \<and> t = ty_traffic x \<and> (ty_settled x \<longrightarrow> watched_for EPOLLOUT s w = tls_wants x))"

section \<open>The operations\<close>

lemma spares_ssl: "spares a w w' \<Longrightarrow> ssl_activated w' = ssl_activated (w :: (nat, 'z) ssl_reactor_scheme)"
  by (cases w; cases w') (simp add: spares_def)

lemma stream_ssl_update_ok:
  assumes "wired a s w" "holds (sm_output s) xs"
  shows "\<exists>d w'. stream_ssl_update a s w = Some (s\<lparr>sm_descriptor := d\<rparr>, w') \<and> wired a (s\<lparr>sm_descriptor := d\<rparr>) w' \<and>
    spares a w w' \<and> (watched_for EPOLLOUT (s\<lparr>sm_descriptor := d\<rparr>) w' \<longleftrightarrow>
      sm_ssl_state s = SSL_ERROR_WANT_WRITE \<or> xs \<noteq> [] \<or> sm_notify s)"
proof -
  obtain d w' where u: "stream_ssl_update a s w = Some (s\<lparr>sm_descriptor := d\<rparr>, w')"
    "d = (sm_descriptor s)\<lparr>de_mask := stream_ssl_mask s\<rparr>" "wired a (s\<lparr>sm_descriptor := d\<rparr>) w'" "spares a w w'"
    using descriptor_mask_ok [of "sm_descriptor s" w a "stream_ssl_mask s"] assms(1)
    by (auto simp: wired_def stream_ssl_update_def descriptor_is_open_def stream_handlers_def split: if_splits)
  have "de_mask d AND DESCRIPTOR_WRITE \<noteq> 0 \<longleftrightarrow> sm_ssl_state s = SSL_ERROR_WANT_WRITE \<or> xs \<noteq> [] \<or> sm_notify s"
    using holds_size_zero [OF assms(2)] mask_bits [of "sm_mask s"] by (simp add: u(2) stream_ssl_mask_def)
  then have "watched_for EPOLLOUT (s\<lparr>sm_descriptor := d\<rparr>) w' \<longleftrightarrow> sm_ssl_state s = SSL_ERROR_WANT_WRITE \<or> xs \<noteq> [] \<or> sm_notify s"
    using u(3) by (simp add: watched_for_def wired_def events_out)
  then show ?thesis using u by blast
qed

lemma ssl_read_loop_ok:
  assumes "holds (sm_input s) xs" "\<forall>ys \<in> set rs. ys \<noteq> [] \<and> length ys \<le> 16384" "length xs + length (concat rs) \<le> 2 ^ 62"
  shows "\<exists>b. ssl_read_loop s tot rs err =
      Some (s\<lparr>sm_input := b, sm_ssl_state := err\<rparr>, tot + word_of_nat (length (concat rs))) \<and> holds b (xs @ concat rs)"
  using assms
proof (induction rs arbitrary: s xs tot)
  case Nil
  then show ?case using receive_room_ok [of s xs 16384] by auto
next
  case (Cons ys rs)
  have ys: "ys \<noteq> []" "length ys \<le> 16384" "length xs + length ys \<le> 2 ^ 62" using Cons.prems by auto
  obtain b where b: "receive (receive_room s 16384) ys = Some (s\<lparr>sm_input := b\<rparr>)" "holds b (xs @ ys)"
    using receive_ok [OF Cons.prems(1) ys(3), of 16384] ys(2) by auto
  have "\<exists>b'. ssl_read_loop (s\<lparr>sm_input := b\<rparr>) (tot + word_of_nat (length ys)) rs err =
      Some (s\<lparr>sm_input := b', sm_ssl_state := err\<rparr>, tot + word_of_nat (length ys) + word_of_nat (length (concat rs))) \<and>
      holds b' ((xs @ ys) @ concat rs)"
    using Cons.IH [of "s\<lparr>sm_input := b\<rparr>" "xs @ ys"] b(2) Cons.prems(2,3) by auto
  then show ?case using b(1) ys by (simp add: add.assoc)
qed

lemma ssl_given_length: "length (ssl_given xs) \<le> length xs"
  by (simp add: ssl_given_def)

lemma ssl_given_all:
  assumes "length xs < 2 ^ 31"
  shows "ssl_given xs = xs"
proof -
  have "unat (word_of_nat (length xs) :: u64) = length xs" using assms by (simp add: unat_of_nat_64)
  then show ?thesis using assms ssl_length_small [of "word_of_nat (length xs)"] by (simp add: ssl_given_def)
qed

lemma holds_given:
  assumes "holds b xs"
  shows "length (ssl_given xs) = ssl_length (buffer_size b)"
  using ssl_length_le [of "buffer_size b"] holds_size [OF assms] by (simp add: ssl_given_def holds_word [OF assms])

lemma tls_offer_ok:
  assumes "holds (sm_output s) xs"
  shows "tls_offer s = Some (ssl_given xs)"
proof -
  define n where "n = ssl_length (buffer_size (sm_output s))"
  have n: "n \<le> length xs" using ssl_length_le [of "buffer_size (sm_output s)"] holds_size [OF assms] by (simp add: n_def)
  note H = holds_data [OF assms]
  have "take n (buf_data (sm_output s)) = map Some (take n xs)"
    using arg_cong [OF H(1), of "take n"] n by (simp add: take_map min_absorb1)
  then show ?thesis using n H(2)
    by (simp add: tls_offer_def n_def [symmetric] buffer_data_def mem_read_ok those_map_Some ssl_given_def holds_word [OF assms])
qed

lemma stream_ssl_flush_ok:
  assumes "ssl_activated w" "sm_ssl s = Live_Ssl" "holds (sm_output s) xs" "ssl_answer r xs"
  shows "\<exists>b. stream_ssl_flush s r w = Some (s\<lparr>sm_output := b, sm_ssl_state := ssl_error r\<rparr>, take (ssl_taken r) xs) \<and>
    holds b (drop (ssl_taken r) xs)"
proof (cases r)
  case (Inl err)
  then show ?thesis using assms by (intro exI [of _ "sm_output s"]) (simp add: stream_ssl_flush_def)
next
  case (Inr n)
  then have m: "0 < n" "n \<le> ssl_length (buffer_size (sm_output s))" using assms(4) holds_given [OF assms(3)] by simp_all
  then have n: "0 < n" "n \<le> length xs" using ssl_length_le [of "buffer_size (sm_output s)"] holds_size [OF assms(3)] by simp_all
  note H = holds_data [OF assms(3)]
  have "length xs < 2 ^ 64" using H(4) by simp
  then have u: "unat (word_of_nat n :: u64) = n" using n by (simp add: unat_of_nat_64)
  have "take n (buf_data (sm_output s)) = map Some (take n xs)"
    using arg_cong [OF H(1), of "take n"] n by (simp add: take_map min_absorb1)
  moreover obtain b where "buffer_erase (sm_output s) 0 (word_of_nat n) = Some b" "holds b (drop n xs)"
    using holds_consume [OF assms(3), of "word_of_nat n"] n u by auto
  ultimately show ?thesis using Inr assms(1,2) m n H(2)
    by (intro exI [of _ b]) (simp add: stream_ssl_flush_def buffer_data_def mem_read_ok those_map_Some)
qed

lemma tls_of_update:
  assumes "wired a s w" "sm_ssl s = Live_Ssl" "ssl_activated w" "holds (sm_input s) (ty_input x)" "holds (sm_output s) (ty_output x)"
    "sm_notify s = ty_notify x" "sm_ssl_state s = ty_error x"
  shows "\<exists>d w'. stream_ssl_update a s w = Some (s\<lparr>sm_descriptor := d\<rparr>, w') \<and> tls_of a (s\<lparr>sm_descriptor := d\<rparr>, w', ty_traffic x) x"
proof -
  obtain d w' where u: "stream_ssl_update a s w = Some (s\<lparr>sm_descriptor := d\<rparr>, w')" "wired a (s\<lparr>sm_descriptor := d\<rparr>) w'" "spares a w w'"
    "watched_for EPOLLOUT (s\<lparr>sm_descriptor := d\<rparr>) w' \<longleftrightarrow> sm_ssl_state s = SSL_ERROR_WANT_WRITE \<or> ty_output x \<noteq> [] \<or> sm_notify s"
    using stream_ssl_update_ok [OF assms(1,5)] by blast
  then show ?thesis using assms spares_ssl [OF u(3)]
    by (intro exI [of _ d] exI [of _ w']) (simp add: tls_of_def tls_wants_def)
qed

lemma tls_write_ok:
  assumes "tls_of a (s, w, t) x" "ssl_answer r (ty_output x)"
  shows "\<exists>b. stream_ssl_flush s r w = Some (s\<lparr>sm_output := b, sm_ssl_state := ssl_error r\<rparr>, take (ssl_taken r) (ty_output x)) \<and>
    holds b (drop (ssl_taken r) (ty_output x)) \<and>
    (\<forall>notify ev. \<exists>d w'. stream_ssl_update a (s\<lparr>sm_output := b, sm_ssl_state := ssl_error r, sm_notify := notify\<rparr>) w =
        Some (s\<lparr>sm_output := b, sm_ssl_state := ssl_error r, sm_notify := notify, sm_descriptor := d\<rparr>, w') \<and>
      tls_of a (s\<lparr>sm_output := b, sm_ssl_state := ssl_error r, sm_notify := notify, sm_descriptor := d\<rparr>, w',
        tls_noted t (ssl_given (ty_output x)) r (take (ssl_taken r) (ty_output x)) ev) (tls_write r notify ev x))"
proof -
  note D = assms(1) [unfolded tls_of_def, simplified]
  obtain b where b: "stream_ssl_flush s r w = Some (s\<lparr>sm_output := b, sm_ssl_state := ssl_error r\<rparr>, take (ssl_taken r) (ty_output x))"
    "holds b (drop (ssl_taken r) (ty_output x))"
    using stream_ssl_flush_ok [of w s "ty_output x" r] D assms(2) by auto
  have "\<exists>d w'. stream_ssl_update a (s\<lparr>sm_output := b, sm_ssl_state := ssl_error r, sm_notify := notify\<rparr>) w =
        Some (s\<lparr>sm_output := b, sm_ssl_state := ssl_error r, sm_notify := notify, sm_descriptor := d\<rparr>, w') \<and>
      tls_of a (s\<lparr>sm_output := b, sm_ssl_state := ssl_error r, sm_notify := notify, sm_descriptor := d\<rparr>, w',
        tls_noted t (ssl_given (ty_output x)) r (take (ssl_taken r) (ty_output x)) ev) (tls_write r notify ev x)" for notify ev
    using tls_of_update [of a "s\<lparr>sm_output := b, sm_ssl_state := ssl_error r, sm_notify := notify\<rparr>" w "tls_write r notify ev x"] D b(2)
    by (simp add: tls_write_def wired_def)
  then show ?thesis using b by blast
qed


section \<open>Plain or encrypted\<close>

text \<open>What the operations need of a stream that may be of either kind, and what they keep of it.\<close>

definition secured :: "'c stream \<Rightarrow> (nat, 'z) ssl_reactor_scheme \<Rightarrow> bool" where
  "secured s w \<longleftrightarrow> sm_ssl s = No_Ssl \<or> sm_ssl s = Live_Ssl \<and> ssl_activated w"

definition flushed :: "nat \<Rightarrow> string \<Rightarrow> nat \<Rightarrow> 'c stream \<Rightarrow> 'c stream \<Rightarrow> (nat, 'z) ssl_reactor_scheme \<Rightarrow> (nat, 'z) ssl_reactor_scheme \<Rightarrow> bool" where
  "flushed a xs n s s' w w' \<longleftrightarrow> sm_input s' = sm_input s \<and> sm_ssl s' = sm_ssl s \<and> holds (sm_output s') (drop n xs) \<and>
     wired a s' w' \<and> spares a w w'"

lemma stream_flush_any:
  assumes "wired a s w" "secured s w" "holds (sm_output s) xs" "write_answers rs" "ssl_answer r xs"
  shows "\<exists>s' w' n rs'. stream_flush a rs r s w = Some (s', w', take n xs, rs') \<and> flushed a xs n s s' w w' \<and> write_answers rs' \<and>
    (sm_ssl s = No_Ssl \<longrightarrow> n = taken xs rs)"
proof (cases "sm_ssl s = No_Ssl")
  case True
  from stream_flush_ok [OF assms(1) True assms(3,4), of r] obtain b d w' rs' where
    "stream_flush a rs r s w = Some (s\<lparr>sm_output := b, sm_descriptor := d\<rparr>, w', take (taken xs rs) xs, rs')" "write_answers rs'"
    "holds b (drop (taken xs rs) xs)" "wired a (s\<lparr>sm_output := b, sm_descriptor := d\<rparr>) w'" "spares a w w'" by blast
  then show ?thesis
    by (intro exI [of _ "s\<lparr>sm_output := b, sm_descriptor := d\<rparr>"] exI [of _ w'] exI [of _ "taken xs rs"] exI [of _ rs'])
      (simp add: flushed_def)
next
  case False
  then have l: "ssl_activated w" "sm_ssl s = Live_Ssl" using assms(2) by (simp_all add: secured_def)
  obtain b where b: "stream_ssl_flush s r w = Some (s\<lparr>sm_output := b, sm_ssl_state := ssl_error r\<rparr>, take (ssl_taken r) xs)"
    "holds b (drop (ssl_taken r) xs)" using stream_ssl_flush_ok [OF l assms(3,5)] by blast
  let ?s = "s\<lparr>sm_output := b, sm_ssl_state := ssl_error r\<rparr>"
  have "wired a ?s w" "holds (sm_output ?s) (drop (ssl_taken r) xs)" using assms(1) b(2) by (simp_all add: wired_def)
  from stream_ssl_update_ok [OF this] obtain d w' where
    "stream_ssl_update a ?s w = Some (?s\<lparr>sm_descriptor := d\<rparr>, w')" "wired a (?s\<lparr>sm_descriptor := d\<rparr>) w'" "spares a w w'" by blast
  then show ?thesis using b l
    by (intro exI [of _ "?s\<lparr>sm_descriptor := d\<rparr>"] exI [of _ w'] exI [of _ "ssl_taken r"] exI [of _ rs])
      (simp add: flushed_def stream_flush_def assms(4))
qed

lemma stream_close_any:
  assumes "wired a s w" "secured s w"
  shows "\<exists>s' w'. stream_close a s w = Some (s', w') \<and> \<not> descriptor_is_open (sm_descriptor s') \<and> spares a w w' \<and> forgotten w' a"
proof -
  have "\<exists>w'. descriptor_close a (sm_descriptor s) w = Some ((sm_descriptor s)\<lparr>de_fd := -1, de_mask := 0\<rparr>, w') \<and> spares a w w' \<and> forgotten w' a"
    using assms(1) by (intro descriptor_close_ok) (auto simp: wired_def)
  then show ?thesis using assms by (auto simp: stream_close_def wired_def secured_def descriptor_is_open_def)
qed

text \<open>The callback of an encrypted stream.\<close>

lemma ssl_readable:
  assumes "wired a s w" "ssl_activated w" "sm_ssl s = Live_Ssl" "holds (sm_input s) xs" "holds (sm_output s) ys"
    "\<forall>zs \<in> set rs. zs \<noteq> [] \<and> length zs \<le> 16384" "length xs + length (concat rs) \<le> 2 ^ 62"
  shows "\<exists>s' w'. stream_ssl_callback a DESCRIPTOR_READ (rs, err) r s w =
      Some (s', w', [], if concat rs \<noteq> [] then Some STREAM_READ else None) \<and>
    holds (sm_input s') (xs @ concat rs) \<and> sm_output s' = sm_output s \<and> sm_ssl s' = sm_ssl s \<and> wired a s' w' \<and> spares a w w'"
proof -
  obtain b where b: "ssl_read_loop s 0 rs err = Some (s\<lparr>sm_input := b, sm_ssl_state := err\<rparr>, word_of_nat (length (concat rs)))"
    "holds b (xs @ concat rs)"
    using ssl_read_loop_ok [OF assms(4,6,7), of 0 err] by auto
  have n: "word_of_nat (length (concat rs)) \<noteq> (0 :: u64) \<longleftrightarrow> concat rs \<noteq> []"
    using assms(7) unat_of_nat_64 [of "length (concat rs)"] by (auto simp: word_unat_eq_iff)
  let ?s = "s\<lparr>sm_input := b, sm_ssl_state := err\<rparr>"
  have "wired a ?s w" "holds (sm_output ?s) ys" using assms(1,5) by (simp_all add: wired_def)
  from stream_ssl_update_ok [OF this] obtain d w' where
    "stream_ssl_update a ?s w = Some (?s\<lparr>sm_descriptor := d\<rparr>, w')" "wired a (?s\<lparr>sm_descriptor := d\<rparr>) w'" "spares a w w'" by blast
  then show ?thesis using b n assms(2,3)
    by (intro exI [of _ "?s\<lparr>sm_descriptor := d\<rparr>"] exI [of _ w'])
      (simp add: stream_ssl_callback_def stream_ssl_read_def del: concat_eq_Nil_conv)
qed

lemma ssl_writable:
  assumes "wired a s w" "ssl_activated w" "sm_ssl s = Live_Ssl" "holds (sm_output s) xs" "ssl_answer r xs"
  shows "\<exists>s' w' ev. stream_ssl_callback a DESCRIPTOR_WRITE reads r s w = Some (s', w', take (ssl_taken r) xs, ev) \<and>
    flushed a xs (ssl_taken r) s s' w w' \<and> (ev = None \<or> ev = Some STREAM_WRITE \<and> sm_notify s)"
proof -
  obtain b where b: "stream_ssl_flush s r w = Some (s\<lparr>sm_output := b, sm_ssl_state := ssl_error r\<rparr>, take (ssl_taken r) xs)"
    "holds b (drop (ssl_taken r) xs)" using stream_ssl_flush_ok [OF assms(2-5)] by blast
  have update: "\<exists>d w'. stream_ssl_update a t w = Some (t\<lparr>sm_descriptor := d\<rparr>, w') \<and>
      flushed a xs (ssl_taken r) s (t\<lparr>sm_descriptor := d\<rparr>) w w'"
    if "sm_descriptor t = sm_descriptor s" "sm_output t = b" "sm_input t = sm_input s" "sm_ssl t = sm_ssl s" for t
  proof -
    have "wired a t w" "holds (sm_output t) (drop (ssl_taken r) xs)"
      using assms(1) b(2) that by (simp_all add: wired_def stream_handlers_def)
    from stream_ssl_update_ok [OF this] show ?thesis using that b(2) unfolding flushed_def by fastforce
  qed
  have types: "DESCRIPTOR_WRITE \<noteq> (DESCRIPTOR_READ :: nat)" by (simp add: DESCRIPTOR_WRITE_def DESCRIPTOR_READ_def)
  let ?s = "s\<lparr>sm_output := b, sm_ssl_state := ssl_error r\<rparr>"
  show ?thesis
  proof (cases "buffer_size b = 0 \<and> sm_notify s")
    case True
    then show ?thesis using update [of "?s\<lparr>sm_notify := False\<rparr>"] b(1) by (auto simp: stream_ssl_callback_def types)
  next
    case False
    then show ?thesis using update [of ?s] b(1) by (auto simp: stream_ssl_callback_def types)
  qed
qed

lemma stream_ssl_opened:
  assumes "0 \<le> fd" "rc_interest w fd = None" "\<forall>fd m. rc_interest w fd \<noteq> Some (m, a)"
  shows "\<exists>s w'. stream_open a (stream_construct a callback state) fd bits (0, True) (Some True) w = Some (s, w') \<and>
    wired a s w' \<and> ssl_activated w' \<and> spares a (w\<lparr>ssl_activated := True\<rparr>) w' \<and>
    sm_ssl s = Live_Ssl \<and> sm_input s = buffer_construct \<and> sm_output s = buffer_construct \<and> \<not> sm_notify s \<and> sm_ssl_state s = 0"
proof -
  define s where "s = (stream_construct a callback state)\<lparr>sm_is_socket := True, sm_mask := bits, sm_ssl := Live_Ssl\<rparr>"
  define d where "d = (descriptor_construct a (Some Ssl_Callback) a (sm_descriptor s))\<lparr>de_fd := fd, de_mask := stream_ssl_mask s\<rparr>"
  define w' where "w' = w\<lparr>ssl_activated := True, rc_descriptors := rc_descriptors w + 1,
    rc_interest := (rc_interest w)(fd \<mapsto> (descriptor_events d, a))\<rparr>"
  have "stream_open a (stream_construct a callback state) fd bits (0, True) (Some True) w = Some (s\<lparr>sm_descriptor := d\<rparr>, w')"
    using assms by (simp add: stream_open_def stream_ssl_open_def descriptor_open_def reactor_add_def s_def d_def w'_def Let_def)
  moreover have "wired a (s\<lparr>sm_descriptor := d\<rparr>) w'" "ssl_activated w'"
    using assms(1,3)
    by (simp_all add: wired_def stream_handlers_def s_def d_def w'_def descriptor_is_open_def descriptor_construct_def reactor_handler_construct_def)
  moreover have "spares a (w\<lparr>ssl_activated := True\<rparr>) w'" using assms(2,3) by (auto simp: spares_def fades_def w'_def)
  moreover have "sm_ssl s = Live_Ssl" "sm_input s = buffer_construct" "sm_output s = buffer_construct" "\<not> sm_notify s" "sm_ssl_state s = 0"
    by (simp_all add: s_def stream_construct_def)
  ultimately show ?thesis by (intro exI [of _ "s\<lparr>sm_descriptor := d\<rparr>"] exI [of _ w']) simp
qed

section \<open>Histories\<close>

lemma watched_for_input: "watched_for e (s\<lparr>sm_input := b\<rparr>) w = watched_for e s w"
  by (simp add: watched_for_def)

lemma tls_step_write:
  assumes "tls_of a (s, w, t) x" "ssl_answer r (ty_output x)"
  shows "\<exists>q'. tls_step a (Tls_Flush r) (s, w, t) = Some q' \<and> tls_of a q' (tls_spec (Tls_Flush r) x)"
    "\<exists>q'. tls_step a (Tls_Writable r) (s, w, t) = Some q' \<and> tls_of a q' (tls_spec (Tls_Writable r) x)"
proof -
  note D = assms(1) [unfolded tls_of_def, simplified]
  obtain b where b: "stream_ssl_flush s r w = Some (s\<lparr>sm_output := b, sm_ssl_state := ssl_error r\<rparr>, take (ssl_taken r) (ty_output x))"
    "holds b (drop (ssl_taken r) (ty_output x))"
    and update: "\<And>notify ev. \<exists>d w'. stream_ssl_update a (s\<lparr>sm_output := b, sm_ssl_state := ssl_error r, sm_notify := notify\<rparr>) w =
        Some (s\<lparr>sm_output := b, sm_ssl_state := ssl_error r, sm_notify := notify, sm_descriptor := d\<rparr>, w') \<and>
      tls_of a (s\<lparr>sm_output := b, sm_ssl_state := ssl_error r, sm_notify := notify, sm_descriptor := d\<rparr>, w',
        tls_noted t (ssl_given (ty_output x)) r (take (ssl_taken r) (ty_output x)) ev) (tls_write r notify ev x)"
    using tls_write_ok [OF assms] by blast
  have o: "tls_offer s = Some (ssl_given (ty_output x))" using tls_offer_ok D by blast
  have same: "s\<lparr>sm_output := b, sm_ssl_state := ssl_error r, sm_notify := ty_notify x\<rparr> = s\<lparr>sm_output := b, sm_ssl_state := ssl_error r\<rparr>"
    using D by simp
  show "\<exists>q'. tls_step a (Tls_Flush r) (s, w, t) = Some q' \<and> tls_of a q' (tls_spec (Tls_Flush r) x)"
    using update [of "ty_notify x" None] b(1) o D unfolding same by (auto simp: stream_flush_def)
  have z: "buffer_size b = 0 \<longleftrightarrow> drop (ssl_taken r) (ty_output x) = []" by (rule holds_size_zero [OF b(2)])
  have types: "DESCRIPTOR_WRITE \<noteq> (DESCRIPTOR_READ :: nat)" by (simp add: DESCRIPTOR_WRITE_def DESCRIPTOR_READ_def)
  show "\<exists>q'. tls_step a (Tls_Writable r) (s, w, t) = Some q' \<and> tls_of a q' (tls_spec (Tls_Writable r) x)"
  proof (cases "drop (ssl_taken r) (ty_output x) = [] \<and> ty_notify x")
    case True
    then have "buffer_size b = 0" "sm_notify s" using z D by blast+
    then show ?thesis using update [of False "Some STREAM_WRITE"] b(1) o True by (auto simp: stream_ssl_callback_def types)
  next
    case False
    then have "\<not> (buffer_size b = 0 \<and> sm_notify s)" using z D by blast
    then show ?thesis using update [of "ty_notify x" None] b(1) o False unfolding same
      by (auto simp: stream_ssl_callback_def types simp del: drop_eq_Nil drop_eq_Nil2)
  qed
qed

lemma tls_step_ok:
  assumes "tls_of a q x" "tls_allowed c x"
  shows "\<exists>q'. tls_step a c q = Some q' \<and> tls_of a q' (tls_spec c x)"
proof -
  obtain s w t where q: "q = (s, w, t)" by (cases q)
  note D = assms(1) [unfolded tls_of_def q, simplified]
  show ?thesis
  proof (cases c)
    case (Tls_Put xs)
    then obtain b where "stream_write s xs = Some (s\<lparr>sm_output := b\<rparr>)" "holds b (ty_output x @ xs)"
      using stream_write_ok [of s "ty_output x" xs] D assms(2) by auto
    then show ?thesis using Tls_Put D by (simp add: q tls_of_def wired_def)
  next
    case (Tls_Consume n)
    then have n: "n \<le> length (ty_input x)" using assms(2) by simp
    note H = holds_data [of "sm_input s" "ty_input x"]
    have u: "unat (word_of_nat n :: u64) = n" using n H(4) D by (simp add: unat_of_nat_64)
    have "take n (buf_data (sm_input s)) = map Some (take n (ty_input x))"
      using arg_cong [OF H(1), of "take n"] D n by (simp add: take_map min_absorb1)
    moreover obtain b where "stream_consume s (word_of_nat n) = Some (s\<lparr>sm_input := b\<rparr>)" "holds b (drop n (ty_input x))"
      using stream_consume_ok [of s "ty_input x" "word_of_nat n"] D n u by auto
    ultimately show ?thesis using Tls_Consume D n H(2)
      by (simp add: q tls_of_def tls_wants_def wired_def watched_for_input stream_read_def buffer_data_def mem_read_ok those_map_Some)
  next
    case Tls_Notify
    have "wired a (s\<lparr>sm_notify := True\<rparr>) w" using D by (simp add: wired_def)
    from tls_of_update [OF this, of "x\<lparr>ty_notify := True, ty_settled := True\<rparr>"] D Tls_Notify show ?thesis
      by (auto simp: q stream_notify_def wired_def Let_def)
  next
    case (Tls_Readable rs err)
    have r: "\<forall>ys \<in> set rs. ys \<noteq> [] \<and> length ys \<le> 16384" "length (ty_input x) + length (concat rs) \<le> 2 ^ 62"
      using assms(2) Tls_Readable by simp_all
    obtain b where b: "ssl_read_loop s 0 rs err = Some (s\<lparr>sm_input := b, sm_ssl_state := err\<rparr>, word_of_nat (length (concat rs)))"
      "holds b (ty_input x @ concat rs)"
      using ssl_read_loop_ok [of s "ty_input x" rs 0 err] D r by auto
    have n: "word_of_nat (length (concat rs)) \<noteq> (0 :: u64) \<longleftrightarrow> concat rs \<noteq> []"
      using r(2) unat_of_nat_64 [of "length (concat rs)"] by (auto simp: word_unat_eq_iff)
    have "wired a (s\<lparr>sm_input := b, sm_ssl_state := err\<rparr>) w" using D by (simp add: wired_def)
    from tls_of_update [OF this, of "tls_spec (Tls_Readable rs err) x"] b(2) D
    obtain d w' where "stream_ssl_update a (s\<lparr>sm_input := b, sm_ssl_state := err\<rparr>) w =
        Some (s\<lparr>sm_input := b, sm_ssl_state := err, sm_descriptor := d\<rparr>, w')"
      "tls_of a (s\<lparr>sm_input := b, sm_ssl_state := err, sm_descriptor := d\<rparr>, w', ty_traffic (tls_spec (Tls_Readable rs err) x))
         (tls_spec (Tls_Readable rs err) x)"
      by auto
    moreover have "tls_step a (Tls_Readable rs err) (s, w, t) = Some (s\<lparr>sm_input := b, sm_ssl_state := err, sm_descriptor := d\<rparr>, w',
        ty_traffic (tls_spec (Tls_Readable rs err) x))"
      using calculation(1) b(1) D n by (simp add: stream_ssl_callback_def stream_ssl_read_def del: concat_eq_Nil_conv)
    ultimately show ?thesis using Tls_Readable q by blast
  next
    case (Tls_Flush r)
    then have "ssl_answer r (ty_output x)" using assms(2) by simp
    then show ?thesis using assms(1) unfolding Tls_Flush q by (intro tls_step_write(1))
  next
    case (Tls_Writable r)
    then have "ssl_answer r (ty_output x)" using assms(2) by simp
    then show ?thesis using assms(1) unfolding Tls_Writable q by (intro tls_step_write(2))
  qed
qed

lemma tls_run_ok:
  "tls_of a q x \<Longrightarrow> tls_calls_allowed cs x \<Longrightarrow> \<exists>q'. tls_run a cs q = Some q' \<and> tls_of a q' (fold tls_spec cs x)"
proof (induction cs arbitrary: q x)
  case (Cons c cs)
  then obtain r where "tls_step a c q = Some r" "tls_of a r (tls_spec c x)" using tls_step_ok [of a q x c] by auto
  then show ?case using Cons.IH [of r "tls_spec c x"] Cons.prems(2) by simp
qed simp

primrec tls_put_text :: "tls_call list \<Rightarrow> string" where
  "tls_put_text [] = []"
| "tls_put_text (c # cs) = (case c of Tls_Put xs \<Rightarrow> xs | _ \<Rightarrow> []) @ tls_put_text cs"

primrec tls_received_text :: "tls_call list \<Rightarrow> string" where
  "tls_received_text [] = []"
| "tls_received_text (c # cs) = (case c of Tls_Readable rs err \<Rightarrow> concat rs | _ \<Rightarrow> []) @ tls_received_text cs"

lemma tls_write_sends:
  "tr_sent (ty_traffic (tls_write r notify ev x)) @ ty_output (tls_write r notify ev x) = tr_sent (ty_traffic x) @ ty_output x"
  "tr_consumed (ty_traffic (tls_write r notify ev x)) = tr_consumed (ty_traffic x)" "ty_input (tls_write r notify ev x) = ty_input x"
  by (simp_all add: noted_def tls_noted_def tls_write_def)

lemma append_chain: "us @ vs = xs @ ys @ zs \<Longrightarrow> xs @ ys = as @ bs @ cs \<Longrightarrow> us @ vs = as @ bs @ cs @ zs"
  by (metis append.assoc)

lemma tls_fold_conserves:
  "tr_sent (ty_traffic (fold tls_spec cs x)) @ ty_output (fold tls_spec cs x) = tr_sent (ty_traffic x) @ ty_output x @ tls_put_text cs \<and>
   tr_consumed (ty_traffic (fold tls_spec cs x)) @ ty_input (fold tls_spec cs x) =
     tr_consumed (ty_traffic x) @ ty_input x @ tls_received_text cs"
proof (induction cs arbitrary: x)
  case (Cons c cs)
  have "tr_sent (ty_traffic (tls_spec c x)) @ ty_output (tls_spec c x) =
      tr_sent (ty_traffic x) @ ty_output x @ (case c of Tls_Put xs \<Rightarrow> xs | _ \<Rightarrow> [])"
    by (cases c) (simp_all add: tls_write_sends noted_def)
  moreover have "tr_consumed (ty_traffic (tls_spec c x)) @ ty_input (tls_spec c x) =
      tr_consumed (ty_traffic x) @ ty_input x @ (case c of Tls_Readable rs err \<Rightarrow> concat rs | _ \<Rightarrow> [])"
    by (cases c) (simp_all add: tls_write_sends noted_def)
  ultimately show ?case using Cons.IH [of "tls_spec c x"] by (auto intro: append_chain simp del: tls_spec.simps)
qed simp

text \<open>
  A write that was answered by an error is repeated with the same bytes, to which more may have been appended;
  one that took a part is continued with the rest.
\<close>

definition still_to_send :: "string \<times> (int + nat) \<Rightarrow> string" where
  "still_to_send u = drop (ssl_taken (snd u)) (fst u)"

definition repeats :: "(string \<times> (int + nat)) list \<Rightarrow> bool" where
  "repeats us \<longleftrightarrow> successively (\<lambda>u v. prefix (still_to_send u) (fst v)) us"

definition tls_repeats :: "tls_duplex \<Rightarrow> bool" where
  "tls_repeats x \<longleftrightarrow> repeats (tr_writes (ty_traffic x)) \<and>
     (tr_writes (ty_traffic x) \<noteq> [] \<longrightarrow> prefix (still_to_send (last (tr_writes (ty_traffic x)))) (ty_output x))"

lemma tls_write_repeats: "tls_repeats x \<Longrightarrow> length (ty_output x) < 2 ^ 31 \<Longrightarrow> tls_repeats (tls_write r notify ev x)"
  by (auto simp: tls_repeats_def repeats_def tls_write_def tls_noted_def noted_def still_to_send_def successively_append_iff
      ssl_given_all)

lemma tls_spec_repeats: "tls_repeats x \<Longrightarrow> length (ty_output x) < 2 ^ 31 \<Longrightarrow> tls_repeats (tls_spec c x)"
proof (cases c)
  case (Tls_Put xs)
  then show "tls_repeats x \<Longrightarrow> tls_repeats (tls_spec c x)" by (auto simp: tls_repeats_def)
qed (auto simp: tls_write_repeats, auto simp: tls_repeats_def noted_def)

lemma tls_fold_repeats:
  "tls_repeats x \<Longrightarrow> length (ty_output x) + length (tls_put_text cs) < 2 ^ 31 \<Longrightarrow> tls_repeats (fold tls_spec cs x)"
proof (induction cs arbitrary: x)
  case (Cons c cs)
  have "length (ty_output (tls_spec c x)) + length (tls_put_text cs) \<le> length (ty_output x) + length (tls_put_text (c # cs))"
    by (cases c) (simp_all add: tls_write_def)
  then have "length (ty_output (tls_spec c x)) + length (tls_put_text cs) < 2 ^ 31" using Cons.prems(2) by linarith
  moreover have "tls_repeats (tls_spec c x)" using Cons.prems by (intro tls_spec_repeats) simp_all
  ultimately show ?case using Cons.IH [of "tls_spec c x"] by simp
qed simp

text \<open>A stream over OpenSSL that has just been constructed and opened for reading as the file descriptor 5.\<close>

definition fresh_tls_traffic :: tls_traffic where
  "fresh_tls_traffic = \<lparr>tr_sent = [], tr_consumed = [], tr_events = [], tr_writes = []\<rparr>"

definition fresh_tls_duplex :: tls_duplex where
  "fresh_tls_duplex = \<lparr>ty_input = [], ty_output = [], ty_notify = False, ty_error = 0, ty_settled = False, ty_traffic = fresh_tls_traffic\<rparr>"

lemma stream_ssl_open_ok:
  assumes "0 \<le> fd" "rc_interest w fd = None" "\<forall>fd m. rc_interest w fd \<noteq> Some (m, a)"
  shows "\<exists>s w'. stream_open a (stream_construct a callback state) fd bits (0, True) (Some True) w = Some (s, w') \<and>
    tls_of a (s, w', fresh_tls_traffic) fresh_tls_duplex"
proof -
  obtain s w' where s: "stream_open a (stream_construct a callback state) fd bits (0, True) (Some True) w = Some (s, w')"
    "wired a s w'" "ssl_activated w'" "sm_ssl s = Live_Ssl" "sm_input s = buffer_construct" "sm_output s = buffer_construct"
    "\<not> sm_notify s" "sm_ssl_state s = 0"
    using stream_ssl_opened [OF assms, of callback state bits] by blast
  then show ?thesis by (intro exI [of _ s] exI [of _ w']) (simp add: tls_of_def fresh_tls_duplex_def holds_empty)
qed

text \<open>
  C40. A stream over OpenSSL transmits its text exactly: whatever the history of calls and events, with buffers of up
  to \<open>2^62\<close> bytes, and whatever OpenSSL answers (it takes and delivers at least one byte and no more than it is asked, or
  reports an error), no call accesses memory out of bounds, the bytes that \<open>SSL_write\<close> took followed by
  the output buffer are the text that was written, the bytes consumed followed by the input buffer
  are what \<open>SSL_read\<close> delivered, and unless text was put since the last call that sets the mask, the kernel
  watches for output if and only if OpenSSL wants to write, bytes are left, or a notification was requested.
  The length of the output is converted to \<open>int\<close> for \<open>SSL_write\<close>; as long as less than \<open>2^31\<close> bytes are put,
  a write that could not be done is repeated with the same bytes, as OpenSSL demands.
\<close>

theorem tls_conserves:
  assumes "0 \<le> fd" "rc_interest w fd = None" "\<forall>fd m. rc_interest w fd \<noteq> Some (m, a)"
    "stream_open a (stream_construct a callback state) fd bits (0, True) (Some True) w = Some (s, w1)"
    "tls_calls_allowed cs fresh_tls_duplex"
  shows "\<exists>s' w' t inp out. tls_run a cs (s, w1, fresh_tls_traffic) = Some (s', w', t) \<and>
    holds (sm_input s') inp \<and> holds (sm_output s') out \<and>
    tr_sent t @ out = tls_put_text cs \<and> tr_consumed t @ inp = tls_received_text cs \<and>
    (length (tls_put_text cs) < 2 ^ 31 \<longrightarrow> repeats (tr_writes t)) \<and>
    (ty_settled (fold tls_spec cs fresh_tls_duplex) \<longrightarrow>
      watched_for EPOLLOUT s' w' = (sm_ssl_state s' = SSL_ERROR_WANT_WRITE \<or> out \<noteq> [] \<or> sm_notify s'))"
proof -
  let ?x = "fold tls_spec cs fresh_tls_duplex"
  have "tls_of a (s, w1, fresh_tls_traffic) fresh_tls_duplex"
    using stream_ssl_open_ok [OF assms(1-3), of callback state bits] assms(4) by auto
  from tls_run_ok [OF this assms(5)] obtain s' w' t where
    r: "tls_run a cs (s, w1, fresh_tls_traffic) = Some (s', w', t)" "tls_of a (s', w', t) ?x"
    by (metis prod_cases3)
  have "tls_repeats ?x" if "length (tls_put_text cs) < 2 ^ 31"
    using that by (intro tls_fold_repeats) (simp_all add: tls_repeats_def repeats_def fresh_tls_duplex_def fresh_tls_traffic_def)
  then have "length (tls_put_text cs) < 2 ^ 31 \<longrightarrow> repeats (tr_writes t)" using r(2) by (simp add: tls_repeats_def tls_of_def)
  then show ?thesis using r tls_fold_conserves [of cs fresh_tls_duplex]
    by (intro exI [of _ s'] exI [of _ w'] exI [of _ t] exI [of _ "ty_input ?x"] exI [of _ "ty_output ?x"])
      (simp add: tls_of_def tls_wants_def fresh_tls_duplex_def fresh_tls_traffic_def)
qed

theorem tls_conserves_witness:
  "\<exists>s w s' w' t inp out.
     stream_open 1 (stream_construct 1 (None :: nat option) 0) 5 STREAM_READ (0, True) (Some True) fresh_reactor = Some (s, w) \<and>
     tls_run 1 [Tls_Put ''hello'', Tls_Flush (Inl 3), Tls_Readable [''ab'', ''c''] 2, Tls_Put ''!'', Tls_Writable (Inr 2), Tls_Consume 1]
       (s, w, fresh_tls_traffic) = Some (s', w', t) \<and>
     holds (sm_input s') inp \<and> holds (sm_output s') out \<and> tr_sent t @ out = ''hello!'' \<and> tr_consumed t @ inp = ''abc'' \<and>
     repeats (tr_writes t) \<and> watched_for EPOLLOUT s' w' = (sm_ssl_state s' = SSL_ERROR_WANT_WRITE \<or> out \<noteq> [] \<or> sm_notify s')"
proof -
  let ?cs = "[Tls_Put ''hello'', Tls_Flush (Inl 3), Tls_Readable [''ab'', ''c''] 2, Tls_Put ''!'', Tls_Writable (Inr 2), Tls_Consume 1]"
  have fd: "0 \<le> (5 :: int)" "rc_interest fresh_reactor 5 = None" "\<forall>fd m. rc_interest fresh_reactor fd \<noteq> Some (m, 1)" by (simp_all add: fresh_reactor_def)
  obtain s w where s: "stream_open 1 (stream_construct 1 (None :: nat option) 0) 5 STREAM_READ (0, True) (Some True) fresh_reactor = Some (s, w)"
    using stream_ssl_open_ok [OF fd, of "None :: nat option" 0 STREAM_READ] by blast
  have ok: "tls_calls_allowed ?cs fresh_tls_duplex" by (simp add: fresh_tls_duplex_def tls_write_def ssl_given_all)
  have put: "tls_put_text ?cs = ''hello!''" "tls_received_text ?cs = ''abc''" by simp_all
  have short: "length ''hello!'' < (2 :: nat) ^ 31" by simp
  note H = tls_conserves [OF fd s ok, unfolded put]
  have settled: "ty_settled (fold tls_spec ?cs fresh_tls_duplex)" by (simp add: fresh_tls_duplex_def tls_write_def)
  obtain s' w' t inp out where "tls_run 1 ?cs (s, w, fresh_tls_traffic) = Some (s', w', t)" "holds (sm_input s') inp"
    "holds (sm_output s') out" "tr_sent t @ out = ''hello!''" "tr_consumed t @ inp = ''abc''" "repeats (tr_writes t)"
    "watched_for EPOLLOUT s' w' = (sm_ssl_state s' = SSL_ERROR_WANT_WRITE \<or> out \<noteq> [] \<or> sm_notify s')"
    using H settled short by blast
  then show ?thesis using s by blast
qed

end
