(* ===== verification/Server_Safety.thy ===== *)
theory Server_Safety
  imports Server Stream_Tls
begin

text \<open>
  The HTTP server never uses memory it has freed, counts its references exactly and returns from
  every event, whatever well-behaved program answers the requests.
\<close>

section \<open>The invariant\<close>

definition connected :: "server_world \<Rightarrow> nat \<Rightarrow> server_request \<Rightarrow> bool" where
  "connected w a r \<longleftrightarrow> wired a (sr_stream r) w \<and> secured (sr_stream r) w \<and>
     (\<exists>inp out. holds (sm_input (sr_stream r)) inp \<and> holds (sm_output (sr_stream r)) out \<and> length inp < 2 ^ 31 \<and>
       (inp = [] \<or> last inp \<noteq> CHR '' '') \<and> length out \<le> 2 ^ 62 \<and>
       (sr_event_triggered r \<longrightarrow> fst (sr_data r) + unat (snd (sr_data r)) = length inp))"

lemma wired_input [simp]: "wired a (s\<lparr>sm_input := b\<rparr>) w = wired a s w"
  by (simp add: wired_def)

lemma secured_simps [simp]:
  "secured (s\<lparr>sm_input := b\<rparr>) w = secured s w" "secured (s\<lparr>sm_output := b\<rparr>) w = secured s w"
  "secured (s\<lparr>sm_descriptor := d\<rparr>) w = secured s w" "secured (s\<lparr>sm_notify := n\<rparr>) w = secured s w"
  for w :: server_world
  by (simp_all add: secured_def)

lemma secured_world [simp]:
  "secured s (w\<lparr>sv_log := l\<rparr>) = secured s w" "secured s (w\<lparr>sv_writes := ws\<rparr>) = secured s w" "secured s (w\<lparr>sv_sent := t\<rparr>) = secured s w"
  for w :: server_world
  by (simp_all add: secured_def)

lemma connectedI:
  assumes "wired a (sr_stream r) w" "secured (sr_stream r) w" "holds (sm_input (sr_stream r)) inp" "holds (sm_output (sr_stream r)) out" "length inp < 2 ^ 31"
    "inp = [] \<or> last inp \<noteq> CHR '' ''" "length out \<le> 2 ^ 62"
    "sr_event_triggered r \<Longrightarrow> fst (sr_data r) + unat (snd (sr_data r)) = length inp"
  shows "connected w a r"
  using assms unfolding connected_def by blast

text \<open>
  The references to a request are those of the program, \<open>x\<close> of running functions, and one of the
  connection itself until it is closed.
\<close>

definition request_ok :: "nat \<Rightarrow> server_world \<Rightarrow> nat \<Rightarrow> server_request \<Rightarrow> bool" where
  "request_ok x w a r \<longleftrightarrow>
     unat (sr_ref r) = sv_held w a + x + (if sr_state r \<noteq> SERVER_REQUEST_CLOSED then 1 else 0) \<and> sr_ref r \<noteq> 0 \<and>
     sv_held w a \<le> 2 ^ 62 + (if sr_state r = SERVER_REQUEST_HANDLING \<or> sr_state r = SERVER_REQUEST_CLOSED then 1 else 0) \<and>
     x \<le> 4 \<and> (sr_event_triggered r \<longrightarrow> 0 < x) \<and>
     (if sr_state r \<noteq> SERVER_REQUEST_CLOSED then connected w a r
      else \<not> descriptor_is_open (sm_descriptor (sr_stream r)) \<and> forgotten w a)"

definition server_inv :: "(nat \<Rightarrow> nat) \<Rightarrow> server_world \<Rightarrow> bool" where
  "server_inv X w \<longleftrightarrow> distinct (sv_order w) \<and> set (sv_order w) = dom (sv_requests w) \<and> (\<forall>a. write_answers (sv_writes w a)) \<and>
     (\<forall>a. case sv_requests w a of None \<Rightarrow> sv_held w a = 0 \<and> X a = 0 | Some r \<Rightarrow> request_ok (X a) w a r)"

text \<open>What an operation on the request \<open>a\<close> leaves alone.\<close>

definition touches :: "nat \<Rightarrow> server_world \<Rightarrow> server_world \<Rightarrow> bool" where
  "touches a w w' \<longleftrightarrow> (\<forall>b. b \<noteq> a \<longrightarrow> sv_requests w' b = sv_requests w b \<and> sv_held w' b = sv_held w b) \<and>
     (\<forall>b. write_answers (sv_writes w b) \<longrightarrow> write_answers (sv_writes w' b)) \<and> (ssl_activated w \<longrightarrow> ssl_activated w') \<and> fades w w' \<and>
     (\<forall>fd m b. b \<noteq> a \<longrightarrow> rc_interest w' fd = Some (m, b) \<longleftrightarrow> rc_interest w fd = Some (m, b))"

lemma touches_refl: "touches a w w"
  by (simp add: touches_def)

lemma touches_trans: "touches a u v \<Longrightarrow> touches a v w \<Longrightarrow> touches a u w"
  using fades_trans [of u v w] by (simp add: touches_def)

lemma spares_fields:
  fixes w w' :: server_world
  assumes "spares a w w'"
  shows "sv_requests w' = sv_requests w" "sv_order w' = sv_order w" "sv_held w' = sv_held w" "sv_writes w' = sv_writes w"
    "sv_sent w' = sv_sent w" "sv_log w' = sv_log w"
  using assms by (cases w, cases w', simp add: spares_def)+

lemma touches_spares: "spares a w w' \<Longrightarrow> touches a w w'"
  using spares_fields [of a w w'] spares_ssl [of a w w'] by (simp add: touches_def spares_def)

lemma wired_kept:
  assumes "wired b s w" "b \<noteq> a" "touches a w w'"
  shows "wired b s w'"
  using assms by (simp add: wired_def touches_def)

lemma secured_kept: "secured s w \<Longrightarrow> touches a w w' \<Longrightarrow> secured s w'"
  by (auto simp: secured_def touches_def)

lemma forgotten_kept: "forgotten w b \<Longrightarrow> b \<noteq> a \<Longrightarrow> touches a w w' \<Longrightarrow> forgotten w' b"
  using silent_fades [of w b w'] by (simp add: forgotten_def touches_def)

lemma request_ok_kept:
  assumes "request_ok x w b r" "b \<noteq> a" "touches a w w'"
  shows "request_ok x w' b r"
  using assms wired_kept [OF _ assms(2,3)] secured_kept [OF _ assms(3)] forgotten_kept [OF _ assms(2,3)]
  by (auto simp: request_ok_def connected_def touches_def)

lemma server_invD:
  assumes "server_inv X w"
  shows "distinct (sv_order w)" "set (sv_order w) = dom (sv_requests w)" "write_answers (sv_writes w a)"
    "sv_requests w a = None \<Longrightarrow> sv_held w a = 0 \<and> X a = 0" "sv_requests w a = Some r \<Longrightarrow> request_ok (X a) w a r"
proof -
  have "case sv_requests w a of None \<Rightarrow> sv_held w a = 0 \<and> X a = 0 | Some r \<Rightarrow> request_ok (X a) w a r"
    using assms unfolding server_inv_def by blast
  then show "sv_requests w a = None \<Longrightarrow> sv_held w a = 0 \<and> X a = 0" "sv_requests w a = Some r \<Longrightarrow> request_ok (X a) w a r"
    by simp_all
qed (use assms in \<open>auto simp: server_inv_def\<close>)

lemma inv_touch:
  assumes inv: "server_inv X w" and t: "touches a w w'" and order: "sv_order w' = sv_order w"
    and r: "sv_requests w a \<noteq> None" "sv_requests w' a = Some r'" "request_ok x w' a r'"
  shows "server_inv (X(a := x)) w'"
  unfolding server_inv_def
proof (intro conjI allI)
  have "dom (sv_requests w') = dom (sv_requests w)" using t r unfolding touches_def dom_def by force
  then show "set (sv_order w') = dom (sv_requests w')" using server_invD(2) [OF inv] order by simp
  show "case sv_requests w' b of None \<Rightarrow> sv_held w' b = 0 \<and> (X(a := x)) b = 0 | Some r \<Rightarrow> request_ok ((X(a := x)) b) w' b r" for b
  proof (cases "b = a")
    case True
    then show ?thesis using r by simp
  next
    case False
    then show ?thesis
      using t server_invD(4,5) [OF inv] request_ok_kept [OF _ False t] by (auto simp: touches_def split: option.splits)
  qed
  show "write_answers (sv_writes w' b)" for b using server_invD(3) [OF inv] t by (simp add: touches_def)
qed (use server_invD(1) [OF inv] order in simp)

lemma inv_remove:
  assumes inv: "server_inv X w" and t: "touches a w w'" and order: "sv_order w' = remove1 a (sv_order w)"
    and r: "sv_requests w' a = None" "sv_held w' a = 0"
  shows "server_inv (X(a := 0)) w'"
  unfolding server_inv_def
proof (intro conjI allI)
  note D = server_invD [OF inv]
  have "dom (sv_requests w') = dom (sv_requests w) - {a}" using t r by (auto simp: touches_def) (metis option.distinct(1))+
  then show "set (sv_order w') = dom (sv_requests w')" using D(1,2) order by simp
  show "case sv_requests w' b of None \<Rightarrow> sv_held w' b = 0 \<and> (X(a := 0)) b = 0 | Some r \<Rightarrow> request_ok ((X(a := 0)) b) w' b r" for b
  proof (cases "b = a")
    case False
    then show ?thesis
      using t D(4,5) request_ok_kept [OF _ False t] by (auto simp: touches_def split: option.splits)
  qed (use r in simp)
  show "write_answers (sv_writes w' b)" for b using D(3) t by (simp add: touches_def)
  show "distinct (sv_order w')" using D(1) order by simp
qed

lemma forgotten_simps [simp]:
  "forgotten (put_request a r w) = forgotten w" "forgotten (set_held a f w) = forgotten w" "forgotten (w\<lparr>sv_log := l\<rparr>) = forgotten w"
  "forgotten (w\<lparr>sv_writes := ws\<rparr>) = forgotten w" "forgotten (w\<lparr>sv_sent := t\<rparr>) = forgotten w"
  "forgotten (w\<lparr>sv_requests := m\<rparr>) = forgotten w" "forgotten (w\<lparr>sv_held := h\<rparr>) = forgotten w" "forgotten (w\<lparr>sv_order := xs\<rparr>) = forgotten w"
  by (simp_all add: fun_eq_iff forgotten_def silent_def put_request_def set_held_def)

lemma fades_simps [simp]:
  "fades u (put_request a r w) = fades u w" "fades u (set_held a f w) = fades u w" "fades u (w\<lparr>sv_log := l\<rparr>) = fades u w"
  "fades u (w\<lparr>sv_writes := ws\<rparr>) = fades u w" "fades u (w\<lparr>sv_sent := t\<rparr>) = fades u w"
  "fades u (w\<lparr>sv_requests := m\<rparr>) = fades u w" "fades u (w\<lparr>sv_held := h\<rparr>) = fades u w" "fades u (w\<lparr>sv_order := xs\<rparr>) = fades u w"
  by (simp_all add: fades_def put_request_def set_held_def)

lemma put_request_simps [simp]:
  "sv_requests (put_request a r w) = (sv_requests w)(a \<mapsto> r)" "sv_order (put_request a r w) = sv_order w"
  "sv_held (put_request a r w) = sv_held w" "sv_writes (put_request a r w) = sv_writes w" "sv_sent (put_request a r w) = sv_sent w"
  "sv_log (put_request a r w) = sv_log w" "rc_interest (put_request a r w) = rc_interest w"
  "ssl_activated (put_request a r w) = ssl_activated w" "secured s (put_request a r w) = secured s w"
  "put_request a r (put_request a r' w) = put_request a r w"
  by (simp_all add: put_request_def secured_def)

lemma set_held_simps [simp]:
  "sv_requests (set_held a f w) = sv_requests w" "sv_order (set_held a f w) = sv_order w"
  "sv_held (set_held a f w) = (sv_held w)(a := f (sv_held w a))" "sv_writes (set_held a f w) = sv_writes w"
  "rc_interest (set_held a f w) = rc_interest w" "ssl_activated (set_held a f w) = ssl_activated w" "secured s (set_held a f w) = secured s w"
  by (simp_all add: set_held_def secured_def)

lemma update_request_some [simp]: "sv_requests w a = Some r \<Longrightarrow> update_request a f w = Some (put_request a (f r) w)"
  by (simp add: update_request_def)

lemma touches_put [simp]: "touches a w (put_request a r w)" "touches a w (set_held a f w)"
  by (simp_all add: touches_def)

lemma request_ok_put [simp]: "request_ok x (put_request a r w) b = request_ok x w b"
  by (simp add: fun_eq_iff request_ok_def connected_def wired_def)

lemma inv_put:
  assumes "server_inv X w" "sv_requests w a = Some r" "request_ok x w a r'"
  shows "server_inv (X(a := x)) (put_request a r' w)"
  by (rule inv_touch [OF assms(1)]) (use assms in simp_all)

lemma inv_exists: "server_inv X w \<Longrightarrow> 0 < X a \<or> 0 < sv_held w a \<Longrightarrow> \<exists>r. sv_requests w a = Some r"
  using server_invD(4) [of X w a] by (cases "sv_requests w a") auto

section \<open>What running functions leave alone\<close>

definition trig :: "server_world \<Rightarrow> nat \<Rightarrow> bool" where
  "trig w a \<longleftrightarrow> (\<exists>r. sv_requests w a = Some r \<and> sr_event_triggered r)"

text \<open>
  A request that is freed leaves nothing behind in the reactor; what is watched for other handlers is left alone.
\<close>

definition tidy :: "server_world \<Rightarrow> server_world \<Rightarrow> bool" where
  "tidy w w' \<longleftrightarrow> fades w w' \<and> (\<forall>a. sv_requests w a \<noteq> None \<and> sv_requests w' a = None \<longrightarrow> forgotten w' a) \<and>
     (\<forall>a fd m. sv_requests w a = None \<and> sv_requests w' a = None \<longrightarrow> rc_interest w' fd = Some (m, a) \<longleftrightarrow> rc_interest w fd = Some (m, a))"

lemma tidy_refl [simp]: "tidy w w"
  unfolding tidy_def by simp (metis option.distinct(1))

lemma tidy_fades: "tidy w w' \<Longrightarrow> fades w w'"
  by (simp add: tidy_def)

lemma tidy_trans:
  assumes "tidy u v" "tidy v w" "dom (sv_requests v) \<subseteq> dom (sv_requests u)" "dom (sv_requests w) \<subseteq> dom (sv_requests v)"
  shows "tidy u w"
proof -
  have d: "sv_requests u a = None \<Longrightarrow> sv_requests v a = None" "sv_requests v a = None \<Longrightarrow> sv_requests w a = None" for a
    using assms(3,4) by (auto simp: dom_def subset_iff)
  have "forgotten v a \<Longrightarrow> sv_requests v a = None \<Longrightarrow> forgotten w a" for a
    using assms(2) d(2) silent_fades [of v a w] by (simp add: tidy_def forgotten_def)
  then show ?thesis using assms(1,2) d fades_trans [of u v w] unfolding tidy_def by metis
qed

lemma tidy_new: "touches a w w' \<Longrightarrow> sv_requests w' a \<noteq> None \<Longrightarrow> tidy w w'"
  unfolding tidy_def touches_def by metis

lemma tidy_touches: "touches a w w' \<Longrightarrow> sv_requests w a \<noteq> None \<Longrightarrow> (sv_requests w' a = None \<Longrightarrow> forgotten w' a) \<Longrightarrow> tidy w w'"
  unfolding tidy_def touches_def by metis

text \<open>
  No request appears. Outside of \<open>A\<close>, the same requests are being updated, at the same
  place of their input; none of them has been told to wait for more data.
\<close>

definition keeps :: "nat set \<Rightarrow> server_world \<Rightarrow> server_world \<Rightarrow> bool" where
  "keeps A w w' \<longleftrightarrow> dom (sv_requests w') \<subseteq> dom (sv_requests w) \<and> tidy w w' \<and>
     (\<forall>a. a \<notin> A \<longrightarrow> trig w' a = trig w a \<and>
       (\<forall>r r'. sv_requests w a = Some r \<and> sr_event_triggered r \<and> sv_requests w' a = Some r' \<longrightarrow>
          sr_data r' = sr_data r \<and> (sr_state r \<noteq> SERVER_REQUEST_NEED_MORE_DATA \<longrightarrow> sr_state r' \<noteq> SERVER_REQUEST_NEED_MORE_DATA)))"

definition calm :: "nat set \<Rightarrow> (nat \<Rightarrow> nat) \<Rightarrow> server_world \<Rightarrow> bool" where
  "calm A X w \<longleftrightarrow> (\<forall>a. a \<notin> A \<longrightarrow>
     (if trig w a then 0 < X a \<and> X a \<le> 2 \<and> (\<forall>r. sv_requests w a = Some r \<longrightarrow> sr_state r \<noteq> SERVER_REQUEST_NEED_MORE_DATA)
      else X a = 0))"

definition untriggered :: "server_world \<Rightarrow> nat set" where
  "untriggered w = {a \<in> dom (sv_requests w). \<not> trig w a}"

lemma keeps_trig: "keeps A w w' \<Longrightarrow> a \<notin> A \<Longrightarrow> trig w' a = trig w a"
  by (simp add: keeps_def)

lemma keeps_request:
  "keeps A w w' \<Longrightarrow> a \<notin> A \<Longrightarrow> sv_requests w a = Some r \<Longrightarrow> sr_event_triggered r \<Longrightarrow> sv_requests w' a = Some r' \<Longrightarrow>
   sr_data r' = sr_data r \<and> (sr_state r \<noteq> SERVER_REQUEST_NEED_MORE_DATA \<longrightarrow> sr_state r' \<noteq> SERVER_REQUEST_NEED_MORE_DATA)"
  unfolding keeps_def by blast

lemma keeps_dom: "keeps A w w' \<Longrightarrow> dom (sv_requests w') \<subseteq> dom (sv_requests w)"
  by (simp add: keeps_def)

lemma keeps_tidy: "keeps A w w' \<Longrightarrow> tidy w w'"
  by (simp add: keeps_def)

text \<open>What a call leaves behind of the requests that were there before.\<close>

definition shrinks :: "server_world \<Rightarrow> server_world \<Rightarrow> bool" where
  "shrinks w w' \<longleftrightarrow> tidy w w' \<and> dom (sv_requests w') \<subseteq> dom (sv_requests w)"

lemma shrinks_refl: "shrinks w w"
  by (simp add: shrinks_def)

lemma shrinks_trans: "shrinks u v \<Longrightarrow> shrinks v w \<Longrightarrow> shrinks u w"
  using tidy_trans [of u v w] unfolding shrinks_def by blast

lemma keeps_shrinks: "keeps A w w' \<Longrightarrow> shrinks w w'"
  by (simp add: shrinks_def keeps_tidy keeps_dom)

lemma touches_shrinks: "touches a w w' \<Longrightarrow> sv_requests w a \<noteq> None \<Longrightarrow> sv_requests w' a \<noteq> None \<Longrightarrow> shrinks w w'"
  using tidy_new [of a w w'] unfolding shrinks_def touches_def by (simp add: dom_def subset_iff) metis

lemma keeps_refl: "keeps A w w"
  unfolding keeps_def by (metis option.inject order_refl tidy_refl)

lemma keeps_mono: "keeps A w w' \<Longrightarrow> A \<subseteq> B \<Longrightarrow> keeps B w w'"
  unfolding keeps_def by blast

lemma keeps_trans:
  assumes "keeps A u v" "keeps A v w"
  shows "keeps A u w"
  unfolding keeps_def
proof (intro conjI allI impI)
  show "dom (sv_requests w) \<subseteq> dom (sv_requests u)" using keeps_dom [OF assms(1)] keeps_dom [OF assms(2)] by blast
  show "tidy u w" by (rule tidy_trans [OF keeps_tidy [OF assms(1)] keeps_tidy [OF assms(2)] keeps_dom [OF assms(1)] keeps_dom [OF assms(2)]])
  fix a assume a: "a \<notin> A"
  show "trig w a = trig u a" using keeps_trig [OF assms(1) a] keeps_trig [OF assms(2) a] by simp
  fix r r' assume r: "sv_requests u a = Some r \<and> sr_event_triggered r \<and> sv_requests w a = Some r'"
  then have "trig u a" by (auto simp: trig_def)
  then have "trig v a" using keeps_trig [OF assms(1) a] by simp
  then obtain s where s: "sv_requests v a = Some s" "sr_event_triggered s" by (auto simp: trig_def)
  have "sr_data s = sr_data r \<and> (sr_state r \<noteq> SERVER_REQUEST_NEED_MORE_DATA \<longrightarrow> sr_state s \<noteq> SERVER_REQUEST_NEED_MORE_DATA)"
    using keeps_request [OF assms(1) a] r s by blast
  moreover have "sr_data r' = sr_data s \<and> (sr_state s \<noteq> SERVER_REQUEST_NEED_MORE_DATA \<longrightarrow> sr_state r' \<noteq> SERVER_REQUEST_NEED_MORE_DATA)"
    using keeps_request [OF assms(2) a] r s by blast
  ultimately show "sr_data r' = sr_data r" "sr_state r \<noteq> SERVER_REQUEST_NEED_MORE_DATA \<Longrightarrow> sr_state r' \<noteq> SERVER_REQUEST_NEED_MORE_DATA"
    by simp_all
qed

lemma keeps_touches:
  assumes "touches a w w'" "sv_requests w a \<noteq> None" "sv_requests w' a = None \<Longrightarrow> forgotten w' a"
  shows "keeps {a} w w'"
  unfolding keeps_def
proof (intro conjI)
  show "tidy w w'" by (rule tidy_touches [OF assms])
qed (use assms(1,2) in \<open>unfold touches_def trig_def dom_def, force+\<close>)

lemma keeps_at:
  assumes "keeps {a} w w'" "trig w' a = trig w a"
    "\<And>r r'. sv_requests w a = Some r \<Longrightarrow> sr_event_triggered r \<Longrightarrow> sv_requests w' a = Some r' \<Longrightarrow>
       sr_data r' = sr_data r \<and> (sr_state r \<noteq> SERVER_REQUEST_NEED_MORE_DATA \<longrightarrow> sr_state r' \<noteq> SERVER_REQUEST_NEED_MORE_DATA)"
  shows "keeps {} w w'"
  unfolding keeps_def
proof (intro conjI allI impI)
  show "dom (sv_requests w') \<subseteq> dom (sv_requests w)" by (rule keeps_dom [OF assms(1)])
  show "tidy w w'" by (rule keeps_tidy [OF assms(1)])
  fix b
  show "trig w' b = trig w b" using assms(2) keeps_trig [OF assms(1)] by (cases "b = a") simp_all
  fix r r' assume r: "sv_requests w b = Some r \<and> sr_event_triggered r \<and> sv_requests w' b = Some r'"
  have "sr_data r' = sr_data r \<and> (sr_state r \<noteq> SERVER_REQUEST_NEED_MORE_DATA \<longrightarrow> sr_state r' \<noteq> SERVER_REQUEST_NEED_MORE_DATA)"
    using assms(3) keeps_request [OF assms(1)] r by (cases "b = a") blast+
  then show "sr_data r' = sr_data r" "sr_state r \<noteq> SERVER_REQUEST_NEED_MORE_DATA \<Longrightarrow> sr_state r' \<noteq> SERVER_REQUEST_NEED_MORE_DATA"
    by simp_all
qed

lemma calm_keeps: "calm A X w \<Longrightarrow> keeps A w w' \<Longrightarrow> calm A X w'"
proof -
  assume c: "calm A X w" and k: "keeps A w w'"
  show "calm A X w'"
    unfolding calm_def
  proof (intro allI impI)
    fix a assume a: "a \<notin> A"
    show "if trig w' a then 0 < X a \<and> X a \<le> 2 \<and> (\<forall>r. sv_requests w' a = Some r \<longrightarrow> sr_state r \<noteq> SERVER_REQUEST_NEED_MORE_DATA)
      else X a = 0"
    proof (cases "trig w' a")
      case True
      then have t: "trig w a" using keeps_trig [OF k a] by simp
      then obtain r where r: "sv_requests w a = Some r" "sr_event_triggered r" by (auto simp: trig_def)
      then have "0 < X a \<and> X a \<le> 2 \<and> sr_state r \<noteq> SERVER_REQUEST_NEED_MORE_DATA" using c a t by (simp add: calm_def)
      moreover have "sr_state r' \<noteq> SERVER_REQUEST_NEED_MORE_DATA" if "sv_requests w' a = Some r'" for r'
        using keeps_request [OF k a r that] calculation by simp
      ultimately show ?thesis using True by simp
    next
      case False
      then show ?thesis using c a keeps_trig [OF k a] by (simp add: calm_def)
    qed
  qed
qed

lemma untriggered_keeps: "keeps A w w' \<Longrightarrow> (\<And>a. a \<in> A \<Longrightarrow> trig w' a) \<Longrightarrow> untriggered w' \<subseteq> untriggered w"
  unfolding untriggered_def using keeps_dom [of A w w'] keeps_trig [of A w w'] by blast

lemma finite_untriggered: "server_inv X w \<Longrightarrow> finite (untriggered w)"
  using server_invD(2) [of X w] finite_set [of "sv_order w"] by (simp add: untriggered_def)

lemma untriggered_card:
  assumes "server_inv X w" "keeps A w w'" "\<And>a. a \<in> A \<Longrightarrow> trig w' a"
  shows "card (untriggered w') \<le> card (untriggered w)"
  by (rule card_mono [OF finite_untriggered [OF assms(1)] untriggered_keeps [OF assms(2,3)]])

section \<open>References\<close>

lemma connected_simps [simp]:
  "connected w a (r\<lparr>sr_ref := n\<rparr>) = connected w a r" "connected w a (r\<lparr>sr_state := st\<rparr>) = connected w a r"
  by (simp_all add: connected_def)

lemma request_ok_hold:
  assumes "request_ok x w a r" "x \<le> 3"
  shows "request_ok (Suc x) w a (r\<lparr>sr_ref := sr_ref r + 1\<rparr>)"
proof -
  have "unat (sr_ref r) \<le> 2 ^ 62 + 6" using assms by (simp add: request_ok_def split: if_splits)
  then have "unat (sr_ref r + 1) = unat (sr_ref r) + 1" by (simp add: unat_add_64)
  then have "unat (sr_ref r + 1) = unat (sr_ref r) + 1" "sr_ref r + 1 \<noteq> 0" by (simp_all add: word_unat_eq_iff)
  then show ?thesis using assms by (simp add: request_ok_def)
qed

lemma request_ok_release:
  assumes "request_ok (Suc x) w a r" "sr_event_triggered r \<Longrightarrow> 0 < x" "sr_ref r - 1 \<noteq> 0"
  shows "request_ok x w a (r\<lparr>sr_ref := sr_ref r - 1\<rparr>)"
proof -
  have "1 \<le> unat (sr_ref r)" using assms(1) by (simp add: request_ok_def)
  then have "unat (sr_ref r - 1) = unat (sr_ref r) - 1" by (simp add: unat_diff_64)
  then show ?thesis using assms by (auto simp: request_ok_def)
qed

lemma hold_ok:
  assumes "server_inv X w" "sv_requests w a = Some r" "X a \<le> 3"
  shows "\<exists>w'. server_hold a w = Some w' \<and> w' = put_request a (r\<lparr>sr_ref := sr_ref r + 1\<rparr>) w \<and> server_inv (X(a := Suc (X a))) w'"
  using inv_put [OF assms(1,2) request_ok_hold [OF server_invD(5) [OF assms(1,2)] assms(3)]] assms(2)
  by (simp add: server_hold_def)

lemma keeps_put:
  assumes "sv_requests w a = Some r" "sr_event_triggered r' = sr_event_triggered r" "sr_event_triggered r \<Longrightarrow> sr_data r' = sr_data r"
    "sr_event_triggered r \<Longrightarrow> sr_state r \<noteq> SERVER_REQUEST_NEED_MORE_DATA \<Longrightarrow> sr_state r' \<noteq> SERVER_REQUEST_NEED_MORE_DATA"
  shows "keeps {} w (put_request a r' w)"
  by (rule keeps_at [where a = a, OF keeps_touches]) (use assms in \<open>simp_all add: trig_def\<close>)

lemma release_ok:
  assumes inv: "server_inv X w" and x: "X a = Suc x" and t: "trig w a \<Longrightarrow> 0 < x"
  shows "\<exists>w'. server_release a w = Some w' \<and> server_inv (X(a := x)) w' \<and> keeps {} w w'"
proof -
  obtain r where r: "sv_requests w a = Some r" using inv_exists [OF inv, of a] x by auto
  have ok: "request_ok (Suc x) w a r" using server_invD(5) [OF inv r] x by simp
  have t': "sr_event_triggered r \<Longrightarrow> 0 < x" using t r by (simp add: trig_def)
  define r' where "r' = r\<lparr>sr_ref := sr_ref r - 1\<rparr>"
  show ?thesis
  proof (cases "sr_ref r - 1 = 0")
    case False
    have "server_release a w = Some (put_request a r' w)"
      using r False by (simp add: server_release_def r'_def)
    moreover have "server_inv (X(a := x)) (put_request a r' w)"
      unfolding r'_def by (rule inv_put [OF inv r request_ok_release [OF ok t' False]])
    moreover have "keeps {} w (put_request a r' w)" by (rule keeps_put [OF r]) (simp_all add: r'_def)
    ultimately show ?thesis by blast
  next
    case True
    then have "sr_ref r = 1" by (metis add_diff_cancel_right' add_0_left diff_add_cancel)
    then have z: "sv_held w a = 0" "x = 0" "sr_state r = SERVER_REQUEST_CLOSED" "\<not> descriptor_is_open (sm_descriptor (sr_stream r))"
      "forgotten w a" using ok by (auto simp: request_ok_def split: if_splits)
    then obtain s where s: "stream_destruct a (sr_stream r) (put_request a r' w) = Some (s, put_request a r' w)"
      using stream_destruct_closed [of "sr_stream r" a "put_request a r' w"] by blast
    define w' where "w' = (put_request a r' w)\<lparr>sv_requests := (sv_requests w)(a := None), sv_order := remove1 a (sv_order w)\<rparr>"
    have run: "server_release a w = Some w'"
      using r True s by (simp add: server_release_def r'_def [symmetric]) (simp add: r'_def w'_def)
    have tw: "touches a w w'" by (simp add: touches_def w'_def put_request_def)
    have "server_inv (X(a := 0)) w'"
      by (rule inv_remove [OF inv tw]) (simp_all add: w'_def z)
    moreover have "keeps {} w w'"
    proof (rule keeps_at [OF keeps_touches [OF tw]])
      show "trig w' a = trig w a" using t z by (auto simp: trig_def w'_def)
    qed (use r z in \<open>simp_all add: w'_def\<close>)
    ultimately show ?thesis using run z(2) by blast
  qed
qed

lemma give_ok:
  assumes inv: "server_inv X w" and h: "0 < sv_held w a" and x: "X a \<le> 3"
  shows "server_inv (X(a := Suc (X a))) (set_held a (\<lambda>n. n - 1) w)"
proof -
  obtain r where r: "sv_requests w a = Some r" using inv_exists [OF inv, of a] h by auto
  have "request_ok (Suc (X a)) (set_held a (\<lambda>n. n - 1) w) a r"
    using server_invD(5) [OF inv r] h x by (auto simp: request_ok_def connected_def wired_def split: if_splits)
  then show ?thesis using r by (intro inv_touch [OF inv]) simp_all
qed

lemma keeps_same:
  assumes "sv_requests w' = sv_requests w" "fades w w'" "rc_interest w' = rc_interest w"
  shows "keeps {} w w'"
proof -
  have "tidy w w'" using assms unfolding tidy_def by metis
  then show ?thesis using assms(1) unfolding keeps_def trig_def by (metis option.inject order_refl)
qed

lemma calm_same: "calm A X w \<Longrightarrow> sv_requests w' = sv_requests w \<Longrightarrow> calm A X w'"
  unfolding calm_def trig_def by (erule ssubst) assumption

lemma release_state:
  assumes "server_release a w = Some w'" "sv_requests w' a = Some r'"
  shows "\<exists>r. sv_requests w a = Some r \<and> sr_state r' = sr_state r"
  using assms by (auto simp: server_release_def update_request_def split: bind_splits if_splits prod.splits)

text \<open>Closing, also right after a change of the streams of the request that the invariant does not cover.\<close>

lemma close_ok:
  assumes inv: "server_inv X w0" and t: "touches a w0 w" "sv_order w = sv_order w0" "sv_held w a = sv_held w0 a"
    and r0: "sv_requests w0 a = Some r0" and r: "sv_requests w a = Some r"
    and same: "sr_ref r = sr_ref r0" "sr_event_triggered r = sr_event_triggered r0" "sr_data r = sr_data r0"
    and st: "sr_state r \<noteq> SERVER_REQUEST_CLOSED" "sr_state r0 \<noteq> SERVER_REQUEST_CLOSED"
    and str: "wired a (sr_stream r) w" "secured (sr_stream r) w" and x: "X a \<le> 3"
  shows "\<exists>w'. server_close a w = Some w' \<and> server_inv X w' \<and> keeps {} w0 w' \<and>
    (\<forall>r'. sv_requests w' a = Some r' \<longrightarrow> sr_state r' = SERVER_REQUEST_CLOSED)"
proof -
  obtain s w1 where s: "stream_close a (sr_stream r) w = Some (s, w1)" "\<not> descriptor_is_open (sm_descriptor s)"
    "spares a w w1" "forgotten w1 a" using stream_close_any [OF str] by blast
  note F = spares_fields [OF s(3)]
  define r' where "r' = r\<lparr>sr_stream := s, sr_state := SERVER_REQUEST_CLOSED\<rparr>"
  define w2 where "w2 = put_request a r' w1"
  have t2: "touches a w0 w2"
    unfolding w2_def by (rule touches_trans [OF t(1) touches_trans [OF touches_spares [OF s(3)] touches_put(1)]])
  have "request_ok (Suc (X a)) w2 a r'"
    using server_invD(5) [OF inv r0] same st s(2,4) x t(3) F by (auto simp: request_ok_def r'_def w2_def split: if_splits)
  then have inv2: "server_inv (X(a := Suc (X a))) w2"
    by (intro inv_touch [OF inv t2]) (simp_all add: w2_def F t(2) r0)
  have k: "keeps {} w0 w2"
  proof (rule keeps_at [OF keeps_touches [OF t2]])
    show "trig w2 a = trig w0 a" by (simp add: trig_def w2_def r'_def same r0)
  qed (use r0 same in \<open>auto simp: w2_def r'_def\<close>)
  have "trig w2 a \<Longrightarrow> 0 < X a"
    using server_invD(5) [OF inv r0] by (simp add: trig_def w2_def r'_def same request_ok_def)
  from release_ok [where a = a and x = "X a", OF inv2 _ this] obtain w3 where w3: "server_release a w2 = Some w3" "server_inv X w3" "keeps {} w2 w3"
    by auto
  have "server_close a w = Some w3" using r st s(1) w3(1) by (simp add: server_close_def w2_def r'_def)
  moreover have "sr_state r3 = SERVER_REQUEST_CLOSED" if "sv_requests w3 a = Some r3" for r3
    using release_state [OF w3(1) that] by (auto simp: w2_def r'_def)
  ultimately show ?thesis using w3(2) keeps_trans [OF k w3(3)] by blast
qed

section \<open>Responses\<close>

lemma request_write_ok:
  assumes "sv_requests w a = Some r" "holds (sm_output (sr_stream r)) out" "29 \<le> length (ev_date env)"
    "length out + length (response_text status (server_date (ev_date env)) type body) \<le> 2 ^ 63"
  shows "\<exists>b. request_write env a status type body w = Some (put_request a (r\<lparr>sr_stream := (sr_stream r)\<lparr>sm_output := b\<rparr>\<rparr>) w) \<and>
    holds b (out @ response_text status (server_date (ev_date env)) type body)"
proof -
  have "length (server_date (ev_date env)) = 29" using assms(3) by (simp add: server_date_def)
  moreover have "unat (buf_size (sm_output (sr_stream r))) = length out" using holds_size [OF assms(2)] by (simp add: buffer_size_def)
  ultimately show ?thesis
    using http_write_response_ok [of "sm_output (sr_stream r)" "server_date (ev_date env)" status type body] assms
    by (auto simp: request_write_def holds_def)
qed

text \<open>The date is there, and \<open>SSL_write\<close> takes no more than it is given, and something unless it reports an error.\<close>

definition sound_system :: "environment \<Rightarrow> bool" where
  "sound_system env \<longleftrightarrow> 29 \<le> length (ev_date env) \<and> (\<forall>w a r n. sv_requests w a = Some r \<longrightarrow> ev_ssl_write env w a = Inr n \<longrightarrow>
     0 < n \<and> n \<le> ssl_length (buffer_size (sm_output (sr_stream r))))"

lemma sound_answer:
  assumes "sound_system env" "sv_requests w a = Some r" "holds (sm_output (sr_stream r)) out"
  shows "ssl_answer (ev_ssl_write env w a) out"
proof (cases "ev_ssl_write env w a")
  case (Inr n)
  then have "0 < n \<and> n \<le> ssl_length (buffer_size (sm_output (sr_stream r)))" using assms(1,2) unfolding sound_system_def by blast
  then show ?thesis using Inr holds_given [OF assms(3)] by simp
qed simp

lemma request_flush_ok:
  assumes "sv_requests w a = Some r" "wired a (sr_stream r) w" "secured (sr_stream r) w"
    "holds (sm_output (sr_stream r)) out" "write_answers (sv_writes w a)" "sound_system env"
  shows "\<exists>w' s n. request_flush env a w = Some w' \<and> touches a w w' \<and> sv_order w' = sv_order w \<and> sv_held w' = sv_held w \<and>
    sv_requests w' = (sv_requests w)(a \<mapsto> r\<lparr>sr_stream := s\<rparr>) \<and>
    wired a s w' \<and> secured s w' \<and> sm_input s = sm_input (sr_stream r) \<and> sm_ssl s = sm_ssl (sr_stream r) \<and> holds (sm_output s) (drop n out) \<and>
    sv_sent w' = (sv_sent w)(a := sv_sent w a @ take n out) \<and> sv_log w' = sv_log w"
proof -
  obtain s w1 n rs where f: "stream_flush a (sv_writes w a) (ev_ssl_write env w a) (sr_stream r) w = Some (s, w1, take n out, rs)"
    "flushed a out n (sr_stream r) s w w1" "write_answers rs"
    using stream_flush_any [OF assms(2-5) sound_answer [OF assms(6,1,4)]] by blast
  note f2 = f(2) [unfolded flushed_def]
  then have sp: "spares a w w1" by simp
  note F = spares_fields [OF sp] spares_ssl [OF sp]
  define w' where "w' = put_request a (r\<lparr>sr_stream := s\<rparr>)
    (w1\<lparr>sv_sent := (sv_sent w1)(a := sv_sent w1 a @ take n out), sv_writes := (sv_writes w1)(a := rs)\<rparr>)"
  have "request_flush env a w = Some w'" using assms(1) f(1) by (simp add: request_flush_def w'_def)
  moreover have "touches a w w'"
    using touches_spares [OF sp] f(3) F(4) by (auto simp: touches_def w'_def put_request_def)
  moreover have "wired a s w'" "secured s w'" using f2 F assms(3) by (simp_all add: wired_def secured_def w'_def)
  ultimately show ?thesis
    using f2 F by (intro exI [of _ w'] exI [of _ s] exI [of _ n]) (simp add: w'_def put_request_def)
qed

lemma connectedD:
  assumes "server_inv X w" "sv_requests w a = Some r" "sr_state r \<noteq> SERVER_REQUEST_CLOSED"
  shows "wired a (sr_stream r) w" "secured (sr_stream r) w"
    "\<exists>inp out. holds (sm_input (sr_stream r)) inp \<and> holds (sm_output (sr_stream r)) out \<and> length inp < 2 ^ 31 \<and>
       (inp = [] \<or> last inp \<noteq> CHR '' '') \<and> length out \<le> 2 ^ 62 \<and>
       (sr_event_triggered r \<longrightarrow> fst (sr_data r) + unat (snd (sr_data r)) = length inp)"
  using server_invD(5) [OF assms(1,2)] assms(3) by (auto simp: request_ok_def connected_def)

lemma bad_request_length:
  assumes "29 \<le> length (ev_date env)"
  shows "length (response_text ''400 Bad Request'' (server_date (ev_date env)) [] []) \<le> 2 ^ 62"
  using length_decimal_le [of 0 0] assms by (simp add: response_text_def field_text_def crlf_def server_date_def)

lemma bad_request_ok:
  assumes inv: "server_inv X w" and x: "X a = Suc x" "X a \<le> 3" and t: "trig w a \<Longrightarrow> 0 < x" and sys: "sound_system env"
  shows "\<exists>w'. server_bad_request env a w = Some w' \<and> server_inv (X(a := x)) w' \<and> keeps {} w w' \<and>
    (\<forall>r'. sv_requests w' a = Some r' \<longrightarrow> sr_state r' = SERVER_REQUEST_CLOSED)"
proof -
  obtain r where r: "sv_requests w a = Some r" using inv_exists [OF inv, of a] x by auto
  show ?thesis
  proof (cases "sr_state r = SERVER_REQUEST_CLOSED")
    case True
    from release_ok [OF inv x(1) t] obtain w' where
      w': "server_release a w = Some w'" "server_inv (X(a := x)) w'" "keeps {} w w'" by blast
    then show ?thesis using r True release_state [OF w'(1)] by (auto simp: server_bad_request_def)
  next
    case False
    note C = connectedD [OF inv r False]
    have date: "29 \<le> length (ev_date env)" using sys by (simp add: sound_system_def)
    obtain out where out: "holds (sm_output (sr_stream r)) out" "length out \<le> 2 ^ 62" using C(3) by blast
    have len: "length out + length (response_text ''400 Bad Request'' (server_date (ev_date env)) [] []) \<le> 2 ^ 63"
      using bad_request_length [OF date] out(2) by simp
    obtain b where b: "request_write env a ''400 Bad Request'' [] [] w = Some (put_request a (r\<lparr>sr_stream := (sr_stream r)\<lparr>sm_output := b\<rparr>\<rparr>) w)"
      "holds b (out @ response_text ''400 Bad Request'' (server_date (ev_date env)) [] [])"
      using request_write_ok [OF r out(1) date len] by blast
    define r1 where "r1 = r\<lparr>sr_stream := (sr_stream r)\<lparr>sm_output := b\<rparr>\<rparr>"
    have r1: "sv_requests (put_request a r1 w) a = Some r1" "wired a (sr_stream r1) (put_request a r1 w)" "secured (sr_stream r1) (put_request a r1 w)"
      "holds (sm_output (sr_stream r1)) (out @ response_text ''400 Bad Request'' (server_date (ev_date env)) [] [])"
      "write_answers (sv_writes (put_request a r1 w) a)"
      using C(1,2) b(2) server_invD(3) [OF inv] by (simp_all add: r1_def wired_def)
    obtain w2 s2 where w2: "request_flush env a (put_request a r1 w) = Some w2" "touches a (put_request a r1 w) w2"
      "sv_order w2 = sv_order w" "sv_held w2 = sv_held w" "sv_requests w2 a = Some (r1\<lparr>sr_stream := s2\<rparr>)" "wired a s2 w2" "secured s2 w2"
      using request_flush_ok [OF r1 sys] by (metis fun_upd_same put_request_simps(2,3))
    have t2: "touches a w w2" by (rule touches_trans [OF touches_put(1) w2(2)])
    obtain w3 where w3: "server_close a w2 = Some w3" "server_inv X w3" "keeps {} w w3"
      "\<And>r'. sv_requests w3 a = Some r' \<Longrightarrow> sr_state r' = SERVER_REQUEST_CLOSED"
      using close_ok [OF inv t2 w2(3) _ r w2(5)] w2(4,6,7) x(2) False by (auto simp: r1_def)
    have "trig w3 a \<Longrightarrow> 0 < x" using t keeps_trig [OF w3(3), of a] by simp
    from release_ok [OF w3(2) x(1) this] obtain w4 where
      w4: "server_release a w3 = Some w4" "server_inv (X(a := x)) w4" "keeps {} w3 w4" by blast
    have "server_bad_request env a w = Some w4"
      using r False b(1) w2(1) w3(1) w4(1) by (simp add: server_bad_request_def r1_def [symmetric])
    moreover have "sr_state r' = SERVER_REQUEST_CLOSED" if "sv_requests w4 a = Some r'" for r'
      using release_state [OF w4(1) that] w3(4) by auto
    ultimately show ?thesis using w4(2) keeps_trans [OF w3(3) w4(3)] by blast
  qed
qed

section \<open>Programs\<close>

text \<open>
  A program may call an operation on a request when it owns a reference to it; it does not hold
  more than \<open>2^62\<close> references to one request and does not have more than \<open>2^62\<close> bytes of output
  waiting. Each of its decisions may inspect the state to find out.
\<close>

definition room :: "environment \<Rightarrow> server_world \<Rightarrow> nat \<Rightarrow> string \<Rightarrow> string \<Rightarrow> string \<Rightarrow> bool" where
  "room env w a status type body \<longleftrightarrow> (\<forall>r. sv_requests w a = Some r \<longrightarrow>
     unat (buffer_size (sm_output (sr_stream r))) + length (response_text status (server_date (ev_date env)) type body) \<le> 2 ^ 62)"

primrec action_allowed :: "environment \<Rightarrow> server_world \<Rightarrow> action \<Rightarrow> bool" where
  "action_allowed env w (Hold a) \<longleftrightarrow> 0 < sv_held w a \<and> sv_held w a < 2 ^ 62"
| "action_allowed env w (Release a) \<longleftrightarrow> 0 < sv_held w a"
| "action_allowed env w (Respond a status type body) \<longleftrightarrow> 0 < sv_held w a \<and> room env w a status type body"
| "action_allowed env w (Reply_Ok a type body) \<longleftrightarrow> 0 < sv_held w a \<and> room env w a ''200 OK'' type body"
| "action_allowed env w (Not_Found a) \<longleftrightarrow> 0 < sv_held w a \<and> room env w a ''404 Not Found'' [] []"
| "action_allowed env w (Bad_Request a) \<longleftrightarrow> 0 < sv_held w a"
| "action_allowed env w (Hang_Up a) \<longleftrightarrow> 0 < sv_held w a"

definition decisions_allowed :: "environment \<Rightarrow> decision list \<Rightarrow> bool" where
  "decisions_allowed env fs \<longleftrightarrow> (\<forall>f \<in> set fs. \<forall>w x. f w = Some x \<longrightarrow> action_allowed env w x)"

definition well_behaved_program :: "environment \<Rightarrow> bool" where
  "well_behaved_program env \<longleftrightarrow> sound_system env \<and> (\<forall>w a. decisions_allowed env (ev_program env w a))"

text \<open>What \<open>server_request_update\<close> is relied on for, when at most \<open>n\<close> requests are not being updated.\<close>

definition updates :: "nat \<Rightarrow> (nat \<Rightarrow> server_world \<Rightarrow> server_world option) \<Rightarrow> bool" where
  "updates n upd \<longleftrightarrow> (\<forall>X w a. server_inv X w \<and> calm {a} X w \<and> sv_requests w a \<noteq> None \<and> \<not> trig w a \<and> X a \<le> 1 \<and>
     card (untriggered w) \<le> n \<longrightarrow> (\<exists>w'. upd a w = Some w' \<and> server_inv X w' \<and> keeps {} w w'))"

lemma updatesD:
  assumes "updates n upd" "server_inv X w" "calm {a} X w" "sv_requests w a \<noteq> None" "\<not> trig w a" "X a \<le> 1" "card (untriggered w) \<le> n"
  shows "\<exists>w'. upd a w = Some w' \<and> server_inv X w' \<and> keeps {} w w'"
  using assms unfolding updates_def by blast

lemma calm_bound: "calm {} X w \<Longrightarrow> X a \<le> 2 \<and> (trig w a \<longrightarrow> 0 < X a) \<and> (\<not> trig w a \<longrightarrow> X a = 0)"
  unfolding calm_def by (metis empty_iff le0)

lemma calm_upd: "calm {} X w \<Longrightarrow> calm {a} (X(a := x)) w"
  by (simp add: calm_def)

lemma flush_ok:
  assumes inv: "server_inv X w" and r: "sv_requests w a = Some r" "sr_state r \<noteq> SERVER_REQUEST_CLOSED" and sys: "sound_system env"
  shows "\<exists>w'. request_flush env a w = Some w' \<and> server_inv X w' \<and> keeps {} w w'"
proof -
  note C = connectedD [OF inv r]
  obtain inp out where io: "holds (sm_input (sr_stream r)) inp" "holds (sm_output (sr_stream r)) out" "length inp < 2 ^ 31"
    "inp = [] \<or> last inp \<noteq> CHR '' ''" "length out \<le> 2 ^ 62"
    "sr_event_triggered r \<longrightarrow> fst (sr_data r) + unat (snd (sr_data r)) = length inp" using C(3) by blast
  obtain w' s n where w': "request_flush env a w = Some w'" "touches a w w'" "sv_order w' = sv_order w" "sv_held w' = sv_held w"
    "sv_requests w' = (sv_requests w)(a \<mapsto> r\<lparr>sr_stream := s\<rparr>)"
    "wired a s w'" "secured s w'" "sm_input s = sm_input (sr_stream r)" "holds (sm_output s) (drop n out)"
    using request_flush_ok [OF r(1) C(1,2) io(2) server_invD(3) [OF inv] sys] by blast
  define r' where "r' = r\<lparr>sr_stream := s\<rparr>"
  have "connected w' a r'"
    unfolding connected_def using io w'(6-9)
    by (intro conjI exI [of _ inp] exI [of _ "drop n out"]) (simp_all add: r'_def)
  then have "request_ok (X a) w' a r'"
    using server_invD(5) [OF inv r(1)] r(2) w'(4) by (simp add: request_ok_def r'_def)
  then have "server_inv (X(a := X a)) w'"
    using r w'(5) by (intro inv_touch [OF inv w'(2,3)]) (simp_all add: r'_def)
  moreover have "keeps {} w w'"
    by (rule keeps_at [OF keeps_touches [OF w'(2)]]) (use r w'(5) in \<open>auto simp: trig_def\<close>)
  ultimately show ?thesis using w'(1) by simp
qed

lemma request_written:
  assumes inv: "server_inv X w" and r: "sv_requests w a = Some r" "sr_state r \<noteq> SERVER_REQUEST_CLOSED"
    and date: "29 \<le> length (ev_date env)" and rm: "room env w a status type body"
  shows "\<exists>b out. request_write env a status type body w = Some (put_request a (r\<lparr>sr_stream := (sr_stream r)\<lparr>sm_output := b\<rparr>\<rparr>) w) \<and>
    holds b out \<and> length out \<le> 2 ^ 62"
proof -
  obtain out where out: "holds (sm_output (sr_stream r)) out" using connectedD(3) [OF inv r] by blast
  then have len: "length out + length (response_text status (server_date (ev_date env)) type body) \<le> 2 ^ 62"
    using rm r(1) holds_size by (simp add: room_def)
  then have "length out + length (response_text status (server_date (ev_date env)) type body) \<le> 2 ^ 63" by simp
  from request_write_ok [OF r(1) out date this] len show ?thesis by (metis length_append)
qed

lemma respond_ok:
  assumes upd: "updates n upd" and inv: "server_inv (X(a := Suc (X a))) w" and calm: "calm {} X w" and card: "card (untriggered w) \<le> n"
    and sys: "sound_system env" and rm: "room env w a status type body"
    and held: "sv_held w a \<le> 2 ^ 62"
  shows "\<exists>w'. server_respond_with upd env a status type body w = Some w' \<and> server_inv X w' \<and> keeps {} w w'"
proof -
  note B = calm_bound [OF calm, of a]
  have date: "29 \<le> length (ev_date env)" using sys by (simp add: sound_system_def)
  obtain r where r: "sv_requests w a = Some r" using inv_exists [OF inv, of a] by auto
  have finish: "\<exists>w2. server_release a w1 = Some w2 \<and> server_inv X w2 \<and> keeps {} w w2"
    if w1: "server_inv (X(a := Suc (X a))) w1" "keeps {} w w1" for w1
  proof -
    have "trig w1 a \<Longrightarrow> 0 < X a" using B keeps_trig [OF w1(2), of a] by simp
    then obtain w2 where "server_release a w1 = Some w2" "server_inv X w2" "keeps {} w1 w2"
      using release_ok [where a = a and x = "X a", OF w1(1)] by auto
    then show ?thesis using keeps_trans [OF w1(2)] by blast
  qed
  show ?thesis
  proof (cases "sr_state r = SERVER_REQUEST_CLOSED")
    case True
    then show ?thesis using finish [OF inv keeps_refl] r by (simp add: server_respond_with_def)
  next
    case False
    note ok = server_invD(5) [OF inv r]
    obtain b out where b: "request_write env a status type body w = Some (put_request a (r\<lparr>sr_stream := (sr_stream r)\<lparr>sm_output := b\<rparr>\<rparr>) w)"
      "holds b out" "length out \<le> 2 ^ 62" using request_written [OF inv r False date rm] by blast
    define r1 where "r1 st = r\<lparr>sr_stream := (sr_stream r)\<lparr>sm_output := b\<rparr>, sr_state := st\<rparr>" for st
    have ok1: "request_ok (Suc (X a)) w a (r1 st)" if "st = SERVER_REQUEST_READ \<or> st = SERVER_REQUEST_NEED_MORE_DATA" for st
    proof -
      have "connected w a (r1 st)"
        using connectedD [OF inv r False] b(2,3) unfolding connected_def wired_def r1_def by fastforce
      then show ?thesis using ok False held that by (auto simp: request_ok_def r1_def)
    qed
    show ?thesis
    proof (cases "sr_event_triggered r")
      case True
      have "server_inv (X(a := Suc (X a))) (put_request a (r1 SERVER_REQUEST_READ) w)"
        using inv_put [OF inv r ok1] by simp
      moreover have "keeps {} w (put_request a (r1 SERVER_REQUEST_READ) w)"
        by (rule keeps_put [OF r]) (simp_all add: r1_def)
      ultimately show ?thesis
        using finish r False True b(1) by (simp add: server_respond_with_def r1_def)
    next
      case nt: False
      then have z: "X a = 0" "\<not> trig w a" using B r by (simp_all add: trig_def)
      define w1 where "w1 = put_request a (r1 SERVER_REQUEST_NEED_MORE_DATA) w"
      have inv1: "server_inv (X(a := 1)) w1" using inv_put [OF inv r ok1] z by (simp add: w1_def)
      have r1: "sv_requests w1 a = Some (r1 SERVER_REQUEST_NEED_MORE_DATA)" by (simp add: w1_def)
      have o1: "holds (sm_output (sr_stream (r1 SERVER_REQUEST_NEED_MORE_DATA))) out" using b(2) by (simp add: r1_def)
      have open1: "sr_state (r1 SERVER_REQUEST_NEED_MORE_DATA) \<noteq> SERVER_REQUEST_CLOSED" by (simp add: r1_def)
      obtain w2 where w2: "request_flush env a w1 = Some w2" "server_inv (X(a := 1)) w2" "keeps {} w1 w2"
        using flush_ok [OF inv1 r1 open1 sys] by auto
      have k1: "keeps {} w w1" unfolding w1_def by (rule keeps_put [OF r]) (simp_all add: r1_def nt)
      have k2: "keeps {} w w2" by (rule keeps_trans [OF k1 w2(3)])
      have "calm {a} (X(a := 1)) w2" by (rule calm_upd [OF calm_keeps [OF calm k2]])
      moreover have "\<not> trig w2 a" using keeps_trig [OF k2] z(2) by simp
      moreover have "card (untriggered w2) \<le> n" using untriggered_card [OF inv k2] card by simp
      moreover have "sv_requests w2 a \<noteq> None" using inv_exists [OF w2(2), of a] by auto
      ultimately obtain w3 where w3: "upd a w2 = Some w3" "server_inv (X(a := 1)) w3" "keeps {} w2 w3"
        using updatesD [where a = a, OF upd w2(2)] by auto
      then show ?thesis
        using finish [OF _ keeps_trans [OF k2 w3(3)]] z(1) r False nt b(1) w2(1)
        by (simp add: server_respond_with_def r1_def w1_def)
    qed
  qed
qed

lemma set_held_facts [simp]:
  "trig (set_held a f w) = trig w" "untriggered (set_held a f w) = untriggered w" "room env (set_held a f w) = room env w"
  by (simp_all add: fun_eq_iff trig_def untriggered_def room_def)

lemma held_bound: "server_inv X w \<Longrightarrow> sv_held w a - 1 \<le> 2 ^ 62"
  using server_invD(4,5) [of X w a] by (cases "sv_requests w a") (auto simp: request_ok_def split: if_splits)

text \<open>A reference of the program becomes one of the function it calls.\<close>

lemma given_ok:
  assumes inv: "server_inv X w" and calm: "calm {} X w" and h: "0 < sv_held w a"
  shows "server_inv (X(a := Suc (X a))) (set_held a (\<lambda>n. n - 1) w)" "calm {} X (set_held a (\<lambda>n. n - 1) w)"
    "keeps {} w (set_held a (\<lambda>n. n - 1) w)" "sv_held (set_held a (\<lambda>n. n - 1) w) a \<le> 2 ^ 62"
  using give_ok [OF inv h] calm_bound [OF calm, of a] calm_same [OF calm] keeps_same held_bound [OF inv, of a] by simp_all

lemma program_hold_ok:
  assumes inv: "server_inv X w" and calm: "calm {} X w" and r: "sv_requests w a = Some r" and h: "sv_held w a < 2 ^ 62"
  shows "\<exists>w'. perform_with upd env (Hold a) w = Some w' \<and> server_inv X w' \<and> keeps {} w w'"
proof -
  define w' where "w' = set_held a Suc (put_request a (r\<lparr>sr_ref := sr_ref r + 1\<rparr>) w)"
  note ok = server_invD(5) [OF inv r]
  have "request_ok (Suc (X a)) w a (r\<lparr>sr_ref := sr_ref r + 1\<rparr>)"
    using request_ok_hold [OF ok] calm_bound [OF calm, of a] by simp
  then have "request_ok (X a) w' a (r\<lparr>sr_ref := sr_ref r + 1\<rparr>)"
    using ok h by (auto simp: w'_def request_ok_def connected_def wired_def)
  moreover have t: "touches a w w'" unfolding w'_def by (rule touches_trans [OF touches_put])
  ultimately have "server_inv (X(a := X a)) w'" using r by (intro inv_touch [OF inv t]) (simp_all add: w'_def)
  moreover have "keeps {} w (put_request a (r\<lparr>sr_ref := sr_ref r + 1\<rparr>) w)" by (rule keeps_put [OF r]) simp_all
  then have "keeps {} w w'" unfolding w'_def by (rule keeps_trans) (rule keeps_same, simp_all)
  moreover have "perform_with upd env (Hold a) w = Some w'" using r by (simp add: server_hold_def w'_def)
  ultimately show ?thesis by (intro exI [of _ w']) simp
qed

lemma performed_ok:
  assumes upd: "updates n upd" and inv: "server_inv X w" and calm: "calm {} X w" and card: "card (untriggered w) \<le> n"
    and sys: "sound_system env" and allowed: "action_allowed env w x"
  shows "\<exists>w'. perform_with upd env x w = Some w' \<and> server_inv X w' \<and> keeps {} w w'"
proof -
  note G = given_ok [OF inv calm]
  have respond: "\<exists>w'. server_respond_with upd env a status type body (set_held a (\<lambda>n. n - 1) w) = Some w' \<and> server_inv X w' \<and> keeps {} w w'"
    if "0 < sv_held w a" "room env w a status type body" for a status type body
    using respond_ok [OF upd G(1,2) [OF that(1)] _ sys _ G(4) [OF that(1)], of status type body] that(2) card
      keeps_trans [OF G(3) [OF that(1)]] by fastforce
  show ?thesis
  proof (cases x)
    case (Hold a)
    then obtain r where "sv_requests w a = Some r" using inv_exists [OF inv, of a] allowed by auto
    then show ?thesis using program_hold_ok [OF inv calm] Hold allowed by simp
  next
    case (Release a)
    then have h: "0 < sv_held w a" using allowed by simp
    have "trig (set_held a (\<lambda>n. n - 1) w) a \<Longrightarrow> 0 < X a" using calm_bound [OF calm, of a] by simp
    from release_ok [where a = a and x = "X a", OF G(1) [OF h] _ this] show ?thesis
      using Release keeps_trans [OF G(3) [OF h]] by auto
  next
    case (Bad_Request a)
    then have h: "0 < sv_held w a" using allowed by simp
    have "trig (set_held a (\<lambda>n. n - 1) w) a \<Longrightarrow> 0 < X a" "X a \<le> 2" using calm_bound [OF calm, of a] by simp_all
    from bad_request_ok [where a = a and x = "X a", OF G(1) [OF h] _ _ this(1) sys] this(2) show ?thesis
      using Bad_Request keeps_trans [OF G(3) [OF h]] by auto
  next
    case (Hang_Up a)
    then obtain r where r: "sv_requests w a = Some r" using inv_exists [OF inv, of a] allowed by auto
    show ?thesis
    proof (cases "sr_state r = SERVER_REQUEST_CLOSED")
      case True
      then show ?thesis using Hang_Up r inv keeps_refl by (simp add: server_close_def)
    next
      case False
      note C = connectedD(1,2) [OF inv r False]
      have "X a \<le> 3" using calm_bound [OF calm, of a] by simp
      then show ?thesis using close_ok [OF inv touches_refl _ _ r r _ _ _ False False C] Hang_Up by auto
    qed
  qed (use respond allowed in \<open>simp_all\<close>)
qed

lemma actions_ok:
  assumes upd: "updates n upd" and sys: "sound_system env"
  shows "server_inv X w \<Longrightarrow> calm {} X w \<Longrightarrow> card (untriggered w) \<le> n \<Longrightarrow> decisions_allowed env fs \<Longrightarrow>
    \<exists>w'. actions_with upd env fs w = Some w' \<and> server_inv X w' \<and> keeps {} w w'"
proof (induction fs arbitrary: w)
  case Nil
  then show ?case using keeps_refl by simp
next
  case (Cons f fs)
  have fs: "decisions_allowed env fs" "\<And>x. f w = Some x \<Longrightarrow> action_allowed env w x"
    using Cons.prems(4) by (auto simp: decisions_allowed_def)
  obtain w1 where w1: "(case f w of None \<Rightarrow> Some w | Some x \<Rightarrow> perform_with upd env x w) = Some w1" "server_inv X w1" "keeps {} w w1"
    using performed_ok [OF upd Cons.prems(1-3) sys fs(2)] Cons.prems(1) keeps_refl by (cases "f w") auto
  have "card (untriggered w1) \<le> n" using untriggered_card [OF Cons.prems(1) w1(3)] Cons.prems(3) by simp
  from Cons.IH [OF w1(2) calm_keeps [OF Cons.prems(2) w1(3)] this fs(1)] show ?case
    using w1(1) keeps_trans [OF w1(3)] by auto
qed

section \<open>Reading\<close>

lemma stream_memory_text:
  assumes h: "holds (sm_input s) inp"
  shows "take (length inp) (stream_memory junk s) = inp" "length inp \<le> length (stream_memory junk s)"
proof -
  note D = holds_data [OF h]
  show "take (length inp) (stream_memory junk s) = inp"
  proof (rule nth_equalityI)
    show l: "length (take (length inp) (stream_memory junk s)) = length inp" using D(2) by (simp add: stream_memory_def Let_def min_absorb2)
    fix i assume "i < length (take (length inp) (stream_memory junk s))"
    then have i: "i < length inp" using l by simp
    then have "buf_data (sm_input s) ! i = Some (inp ! i)" using D(1) by (metis nth_map nth_take)
    then show "take (length inp) (stream_memory junk s) ! i = inp ! i" using i D(2) by (simp add: stream_memory_def Let_def)
  qed
  show "length inp \<le> length (stream_memory junk s)" using D(2) by (simp add: stream_memory_def Let_def)
qed

lemma input_text:
  assumes h: "holds (sm_input (sr_stream r)) inp" and n: "off + n = length inp"
  shows "take n (drop off (input_memory env r)) = drop off inp" "n \<le> length (drop off (input_memory env r))"
proof -
  note T = stream_memory_text [OF h, of "ev_junk env", folded input_memory_def]
  have "take (off + n) (input_memory env r) = inp" using T(1) n by simp
  then have "drop off (take (off + n) (input_memory env r)) = drop off inp" by simp
  then show "take n (drop off (input_memory env r)) = drop off inp" by (simp add: drop_take)
  show "n \<le> length (drop off (input_memory env r))" using T(2) n by simp
qed

lemma input_guarded:
  assumes h: "holds (sm_input (sr_stream r)) inp" and n: "off + n = length inp" and l: "inp = [] \<or> last inp \<noteq> CHR '' ''"
  shows "guarded (drop off (input_memory env r)) n"
proof (cases "n = 0")
  case False
  let ?t = "drop off (input_memory env r)"
  note T = input_text [OF h n, of env]
  have "?t ! (n - 1) = take n ?t ! (n - 1)" using False by simp
  also have "\<dots> = drop off inp ! (n - 1)" using T(1) by simp
  also have "\<dots> = inp ! (off + (n - 1))" using n by simp
  also have "\<dots> = last inp" using n False by (subst last_conv_nth) auto
  finally have "?t ! (n - 1) = last inp" .
  moreover have "inp \<noteq> []" using n False by auto
  ultimately show ?thesis using l T(2) by (simp add: guarded_def)
qed (simp add: guarded_def)

lemma parse_ok:
  assumes "guarded s n" "n < 2 ^ 31"
  obtains "http_read_request_data sse s n mx = Some (-1, None)"
  | "http_read_request_data sse s n mx = Some (-2, None)"
  | m q where "http_read_request_data sse s n mx = Some (int m, Some q)" "0 < m" "m \<le> n" "request_inside m mx q"
proof -
  obtain k q where k: "http_read_request_data sse s n mx = Some (k, q)"
    "case q of None \<Rightarrow> k = -1 \<or> k = -2 | Some q \<Rightarrow> 0 < k \<and> k \<le> int n \<and> request_inside (nat k) mx q"
    using request_parsed [OF assms, of sse mx] unfolding http_read_request_data_def by blast
  show thesis
  proof (cases q)
    case None
    then show ?thesis using k that(1,2) by auto
  next
    case (Some q')
    then show ?thesis using k that(3) [of "nat k" q'] by auto
  qed
qed

lemma state_ok:
  assumes "server_inv X w" "sv_requests w a = Some r" "sr_state r = SERVER_REQUEST_READ"
    "st = SERVER_REQUEST_NEED_MORE_DATA \<or> st = SERVER_REQUEST_HANDLING"
  shows "server_inv X (put_request a (r\<lparr>sr_state := st\<rparr>) w)"
  using inv_put [OF assms(1,2), of "X a" "r\<lparr>sr_state := st\<rparr>"] server_invD(5) [OF assms(1,2)] assms(3,4)
  by (auto simp: request_ok_def)

text \<open>One round of the loop of \<open>server_request_update\<close>: it ends the loop or consumes input.\<close>

definition advances :: "nat \<Rightarrow> server_world \<Rightarrow> server_world \<Rightarrow> bool" where
  "advances a w w' \<longleftrightarrow> (\<exists>r r'. sv_requests w a = Some r \<and> sv_requests w' a = Some r' \<and> sr_event_triggered r' \<and>
     (sr_state r' = SERVER_REQUEST_READ \<longrightarrow> unat (snd (sr_data r')) < unat (snd (sr_data r))))"

lemma calm_put:
  assumes "calm {} X w" "sv_requests w a = Some r" "sr_event_triggered r" "sr_event_triggered r'" "sr_state r' \<noteq> SERVER_REQUEST_NEED_MORE_DATA"
  shows "calm {} X (put_request a r' w)"
  using assms by (auto simp: calm_def trig_def)

lemma calm_at:
  assumes "calm {a} X w" "sv_requests w a = Some r" "sr_event_triggered r" "sr_state r \<noteq> SERVER_REQUEST_NEED_MORE_DATA" "0 < X a" "X a \<le> 2"
  shows "calm {} X w"
  unfolding calm_def
proof (intro allI impI)
  fix b
  show "if trig w b then 0 < X b \<and> X b \<le> 2 \<and> (\<forall>r. sv_requests w b = Some r \<longrightarrow> sr_state r \<noteq> SERVER_REQUEST_NEED_MORE_DATA)
    else X b = 0"
    using assms by (cases "b = a") (auto simp: calm_def trig_def)
qed

lemma request_stays:
  assumes "keeps {} w w'" "server_inv X w'" "sv_requests w a = Some r" "sr_event_triggered r"
  obtains r' where "sv_requests w' a = Some r'" "sr_event_triggered r'" "sr_data r' = sr_data r"
proof -
  have "trig w' a" using keeps_trig [OF assms(1), of a] assms(3,4) by (simp add: trig_def)
  then obtain r' where "sv_requests w' a = Some r'" "sr_event_triggered r'" by (auto simp: trig_def)
  then show thesis using keeps_request [OF assms(1) _ assms(3,4)] that by blast
qed

lemma rejected_ok:
  assumes sys: "sound_system env" and inv: "server_inv X w" and calm: "calm {} X w"
    and r: "sv_requests w a = Some r" "sr_state r = SERVER_REQUEST_READ" "sr_event_triggered r"
  shows "\<exists>w'. do { w \<leftarrow> update_request a (\<lambda>r. r\<lparr>sr_state := SERVER_REQUEST_HANDLING\<rparr>) w; w \<leftarrow> server_hold a w; server_bad_request env a w }
      = Some w' \<and> server_inv X w' \<and> keeps {a} w w' \<and> advances a w w'"
proof -
  define r1 where "r1 = r\<lparr>sr_state := SERVER_REQUEST_HANDLING\<rparr>"
  define w1 where "w1 = put_request a r1 w"
  have inv1: "server_inv X w1" using state_ok [OF inv r(1,2)] by (simp add: w1_def r1_def)
  have r1: "sv_requests w1 a = Some r1" "sr_event_triggered r1" by (simp_all add: w1_def r1_def r(3))
  have x: "0 < X a" "X a \<le> 2" using calm_bound [OF calm, of a] r by (auto simp: trig_def)
  obtain w2 where w2: "server_hold a w1 = Some w2" "w2 = put_request a (r1\<lparr>sr_ref := sr_ref r1 + 1\<rparr>) w1"
    "server_inv (X(a := Suc (X a))) w2" using hold_ok [OF inv1 r1(1)] x(2) by auto
  obtain w3 where w3: "server_bad_request env a w2 = Some w3" "server_inv X w3" "keeps {} w2 w3"
    "\<And>r'. sv_requests w3 a = Some r' \<Longrightarrow> sr_state r' = SERVER_REQUEST_CLOSED"
    using bad_request_ok [where a = a and x = "X a", OF w2(3) _ _ _ sys] x by auto
  obtain r3 where "sv_requests w3 a = Some r3" "sr_event_triggered r3"
    by (rule request_stays [OF w3(3,2), of a "r1\<lparr>sr_ref := sr_ref r1 + 1\<rparr>"]) (use w2(2) r1 in auto)
  then have "advances a w w3" using r(1) w3(4) by (auto simp: advances_def)
  moreover have "keeps {a} w w2"
    using r(1) by (intro keeps_touches) (simp_all add: w2(2) w1_def)
  then have "keeps {a} w w3" using keeps_trans keeps_mono [OF w3(3)] by blast
  ultimately show ?thesis using r(1) w2(1) w3(1,2) by (simp add: w1_def r1_def)
qed

lemma dispatched_ok:
  assumes upd: "updates n upd" and wb: "well_behaved_program env" and inv: "server_inv X w" and calm: "calm {} X w"
    and card: "card (untriggered w) \<le> n"
    and r: "sv_requests w a = Some r" "sr_state r = SERVER_REQUEST_READ" "sr_event_triggered r"
    and m: "0 < m" "m \<le> unat (snd (sr_data r))"
  shows "\<exists>w'. do { w \<leftarrow> update_request a (\<lambda>r. r\<lparr>sr_state := SERVER_REQUEST_HANDLING\<rparr>) w; w \<leftarrow> server_hold a w;
      w \<leftarrow> update_request a (\<lambda>r. r\<lparr>sr_data := (fst (sr_data r) + m, snd (sr_data r) - word_of_int (int m))\<rparr>) w;
      request_dispatch upd env a text q w } = Some w' \<and> server_inv X w' \<and> keeps {a} w w' \<and> advances a w w'"
proof -
  note ok = server_invD(5) [OF inv r(1)]
  have x: "0 < X a" "X a \<le> 2" using calm_bound [OF calm, of a] r by (auto simp: trig_def)
  define left where "left = snd (sr_data r) - word_of_int (int m)"
  have "m < 18446744073709551616" using m(2) unat_less_64 [of "snd (sr_data r)"] by linarith
  then have left: "unat left = unat (snd (sr_data r)) - m" using m(2) by (simp add: left_def unat_diff_64 unat_of_nat_64)
  define r1 where "r1 = r\<lparr>sr_state := SERVER_REQUEST_HANDLING, sr_ref := sr_ref r + 1, sr_data := (fst (sr_data r) + m, left)\<rparr>"
  define call where "call = \<lparr>dp_request = a, dp_method = slice text (rq_method q) (rq_method_len q),
    dp_target = slice text (rq_path q) (rq_path_len q), dp_fields = map (read_field text) (rq_headers q)\<rparr>"
  define w1 where "w1 = set_held a Suc ((put_request a r1 w)\<lparr>sv_log := sv_log w @ [call]\<rparr>)"
  have t: "touches a w w1" by (simp add: w1_def touches_def put_request_def set_held_def)
  have r1: "sv_requests w1 a = Some r1" "sr_event_triggered r1" by (simp_all add: w1_def r1_def r(3))
  have "connected w1 a r1"
    using connectedD [OF inv r(1)] r(2) left m unfolding connected_def wired_def
    by (fastforce simp: r1_def w1_def r(3))
  then have "request_ok (X a) w1 a r1"
    using ok request_ok_hold [OF ok] x r(2) by (simp add: request_ok_def r1_def w1_def)
  then have "server_inv (X(a := X a)) w1" using r1(1) r(1) by (intro inv_touch [OF inv t]) (simp_all add: w1_def)
  then have inv1: "server_inv X w1" by simp
  have "calm {} X (put_request a r1 w)" by (rule calm_put [OF calm r(1,3)]) (simp_all add: r1_def r(3))
  then have calm1: "calm {} X w1" by (rule calm_same) (simp add: w1_def)
  have k1: "keeps {a} w w1" using r(1) r1(1) by (intro keeps_touches [OF t]) simp_all
  have "card (untriggered w1) \<le> n" using untriggered_card [OF inv k1] r1 card by (force simp: trig_def)
  moreover have "decisions_allowed env (ev_program env w1 a)" "sound_system env"
    using wb by (simp_all add: well_behaved_program_def)
  ultimately obtain w2 where w2: "actions_with upd env (ev_program env w1 a) w1 = Some w2" "server_inv X w2" "keeps {} w1 w2"
    using actions_ok [OF upd _ inv1 calm1] by blast
  obtain r2 where "sv_requests w2 a = Some r2" "sr_event_triggered r2" "sr_data r2 = sr_data r1"
    by (rule request_stays [OF w2(3,2) r1])
  then have "advances a w w2" using r(1) left m by (simp add: advances_def r1_def)
  moreover have "keeps {a} w w2" using keeps_trans [OF k1] keeps_mono [OF w2(3)] by blast
  moreover have "request_dispatch upd env a text q (put_request a r1 w) = Some w2"
    using w2(1) by (simp add: request_dispatch_def w1_def call_def)
  ultimately show ?thesis using r(1) w2(2) by (simp add: server_hold_def r1_def left_def)
qed

lemma read_ok:
  assumes upd: "updates n upd" and wb: "well_behaved_program env" and inv: "server_inv X w" and calm: "calm {} X w"
    and card: "card (untriggered w) \<le> n"
    and r: "sv_requests w a = Some r" "sr_state r = SERVER_REQUEST_READ" "sr_event_triggered r"
  shows "\<exists>w'. server_request_read_with upd env a w = Some w' \<and> server_inv X w' \<and> keeps {a} w w' \<and> advances a w w'"
proof -
  have sys: "sound_system env" using wb by (simp add: well_behaved_program_def)
  obtain off n' where d: "sr_data r = (off, n')" by (cases "sr_data r")
  obtain inp where inp: "holds (sm_input (sr_stream r)) inp" "length inp < 2 ^ 31" "inp = [] \<or> last inp \<noteq> CHR '' ''"
    "off + unat n' = length inp" using connectedD(3) [OF inv r(1)] r d by auto
  let ?text = "drop off (input_memory env r)"
  let ?more = "put_request a (r\<lparr>sr_state := SERVER_REQUEST_NEED_MORE_DATA\<rparr>) w"
  have more: "server_inv X ?more \<and> keeps {a} w ?more \<and> advances a w ?more"
    using state_ok [OF inv r(1,2)] keeps_touches [of a w ?more] r by (simp add: advances_def)
  show ?thesis
  proof (cases "n' = 0")
    case True
    then show ?thesis using more r(1) d by (simp add: server_request_read_with_def)
  next
    case False
    have "unat n' < 2 ^ 31" using inp(2,4) by simp
    then consider (rejected) "http_read_request_data (ev_sse env) ?text (unat n') 16 = Some (-1, None)"
      | (partial) "http_read_request_data (ev_sse env) ?text (unat n') 16 = Some (-2, None)"
      | (accepted) m q where "http_read_request_data (ev_sse env) ?text (unat n') 16 = Some (int m, Some q)" "0 < m" "m \<le> unat n'"
      using parse_ok [OF input_guarded [OF inp(1,4,3), of env], of "ev_sse env" 16] by blast
    then show ?thesis
    proof cases
      case rejected
      then show ?thesis using rejected_ok [OF sys inv calm r] False r(1) d by (simp add: server_request_read_with_def)
    next
      case partial
      then show ?thesis using more False r(1) d by (simp add: server_request_read_with_def)
    next
      case (accepted m q)
      have "m \<le> unat (snd (sr_data r))" using accepted(3) d by simp
      from dispatched_ok [OF upd wb inv calm card r accepted(2) this, of ?text q] accepted(1) show ?thesis
        using False r(1) d by (simp add: server_request_read_with_def server_hold_def)
    qed
  qed
qed

section \<open>Updates\<close>

lemma loop_ok:
  assumes upd: "updates n upd" and wb: "well_behaved_program env" and x: "0 < X a" "X a \<le> 2"
  shows "server_inv X w \<Longrightarrow> calm {a} X w \<Longrightarrow> card (untriggered w) \<le> n \<Longrightarrow> sv_requests w a = Some r \<Longrightarrow> sr_event_triggered r \<Longrightarrow>
    \<exists>w'. read_loop (server_request_read_with upd env a) a w = Some w' \<and> server_inv X w' \<and> keeps {a} w w' \<and> trig w' a"
proof (induction "unat (snd (sr_data r))" arbitrary: w r rule: less_induct)
  case less
  show ?case
  proof (cases "sr_state r = SERVER_REQUEST_READ")
    case False
    then have "read_loop (server_request_read_with upd env a) a w = Some w" using less.prems(4) by (subst read_loop.simps) simp
    then show ?thesis using less.prems keeps_refl by (auto simp: trig_def)
  next
    case True
    have "calm {} X w" using calm_at [OF less.prems(2,4,5) _ x] True by simp
    from read_ok [OF upd wb less.prems(1) this less.prems(3,4) True less.prems(5)] obtain w1 where
      w1: "server_request_read_with upd env a w = Some w1" "server_inv X w1" "keeps {a} w w1" "advances a w w1" by blast
    obtain r1 where r1: "sv_requests w1 a = Some r1" "sr_event_triggered r1"
      "sr_state r1 = SERVER_REQUEST_READ \<longrightarrow> unat (snd (sr_data r1)) < unat (snd (sr_data r))"
      using w1(4) less.prems(4) by (auto simp: advances_def)
    have run: "read_loop (server_request_read_with upd env a) a w = read_loop (server_request_read_with upd env a) a w1"
      using less.prems(4) True w1(1) by (subst read_loop.simps) simp
    show ?thesis
    proof (cases "sr_state r1 = SERVER_REQUEST_READ")
      case False
      then have "read_loop (server_request_read_with upd env a) a w1 = Some w1" using r1(1) by (subst read_loop.simps) simp
      then show ?thesis using run w1(2,3) r1 by (auto simp: trig_def)
    next
      case True
      have "trig w1 b" if "b \<in> {a}" for b using that r1 by (simp add: trig_def)
      from untriggered_card [OF less.prems(1) w1(3) this] have "card (untriggered w1) \<le> n" using less.prems(3) by simp
      from less.hyps [OF _ w1(2) calm_keeps [OF less.prems(2) w1(3)] this r1(1,2)] r1(3) True show ?thesis
        using run keeps_trans [OF w1(3)] by auto
    qed
  qed
qed

lemma finish_ok:
  assumes inv: "server_inv X w" and r: "sv_requests w a = Some r" "sr_event_triggered r" "sr_state r \<noteq> SERVER_REQUEST_CLOSED"
    and sys: "sound_system env"
  shows "\<exists>w' s. stream_consume (sr_stream r) (buf_size (sm_input (sr_stream r)) - snd (sr_data r)) = Some s \<and>
    do { w \<leftarrow> request_flush env a (put_request a (r\<lparr>sr_stream := s\<rparr>) w); update_request a (\<lambda>r. r\<lparr>sr_event_triggered := False\<rparr>) w } = Some w' \<and>
    server_inv X w' \<and> keeps {a} w w' \<and> \<not> trig w' a"
proof -
  note C = connectedD [OF inv r(1,3)]
  obtain inp out where io: "holds (sm_input (sr_stream r)) inp" "holds (sm_output (sr_stream r)) out" "length inp < 2 ^ 31"
    "inp = [] \<or> last inp \<noteq> CHR '' ''" "length out \<le> 2 ^ 62" "fst (sr_data r) + unat (snd (sr_data r)) = length inp"
    using C(3) r(2) by blast
  let ?n = "buf_size (sm_input (sr_stream r)) - snd (sr_data r)"
  have n: "unat ?n = fst (sr_data r)" using holds_size [OF io(1)] io(6) by (simp add: unat_diff_64 buffer_size_def)
  obtain b where b: "stream_consume (sr_stream r) ?n = Some ((sr_stream r)\<lparr>sm_input := b\<rparr>)" "holds b (drop (fst (sr_data r)) inp)"
    using stream_consume_ok [OF io(1), of ?n] n io(6) by auto
  define r1 where "r1 = r\<lparr>sr_stream := (sr_stream r)\<lparr>sm_input := b\<rparr>\<rparr>"
  have r1: "sv_requests (put_request a r1 w) a = Some r1" "wired a (sr_stream r1) (put_request a r1 w)" "secured (sr_stream r1) (put_request a r1 w)"
    "holds (sm_output (sr_stream r1)) out" "write_answers (sv_writes (put_request a r1 w) a)"
    using C(1,2) io(2) server_invD(3) [OF inv] by (simp_all add: r1_def wired_def)
  obtain w2 s2 n where w2: "request_flush env a (put_request a r1 w) = Some w2" "touches a (put_request a r1 w) w2"
    "sv_order w2 = sv_order w" "sv_held w2 = sv_held w" "sv_requests w2 a = Some (r1\<lparr>sr_stream := s2\<rparr>)"
    "wired a s2 w2" "secured s2 w2" "sm_input s2 = sm_input (sr_stream r1)" "holds (sm_output s2) (drop n out)"
    using request_flush_ok [OF r1 sys] by (metis fun_upd_same put_request_simps(2,3,4))
  define r3 where "r3 = r1\<lparr>sr_stream := s2, sr_event_triggered := False\<rparr>"
  define w3 where "w3 = put_request a r3 w2"
  have t: "touches a w w3"
    unfolding w3_def by (rule touches_trans [OF touches_put(1) touches_trans [OF w2(2) touches_put(1)]])
  have "last (drop (fst (sr_data r)) inp) = last inp" if "drop (fst (sr_data r)) inp \<noteq> []"
    using that by (intro last_drop) simp
  then have "connected w3 a r3"
    unfolding connected_def using io w2(6-9) b(2)
    by (intro conjI exI [of _ "drop (fst (sr_data r)) inp"] exI [of _ "drop n out"])
      (auto simp: r3_def r1_def w3_def wired_def)
  moreover have "sr_ref r3 = sr_ref r" "sr_state r3 = sr_state r" "\<not> sr_event_triggered r3"
    "sv_held w3 = sv_held w" by (simp_all add: r3_def r1_def w3_def w2(4))
  ultimately have "request_ok (X a) w3 a r3"
    using server_invD(5) [OF inv r(1)] r(3) by (simp add: request_ok_def)
  then have "server_inv (X(a := X a)) w3"
    using r(1) w2(3) by (intro inv_touch [OF inv t]) (simp_all add: w3_def)
  moreover have "keeps {a} w w3" using r(1) by (intro keeps_touches [OF t]) (simp_all add: w3_def)
  moreover have "\<not> trig w3 a" by (simp add: trig_def w3_def r3_def)
  ultimately show ?thesis
    using b(1) w2(1,5) by (intro exI [of _ w3] exI [of _ "(sr_stream r)\<lparr>sm_input := b\<rparr>"]) (simp add: r1_def w3_def r3_def)
qed

lemma updates_depth:
  assumes wb: "well_behaved_program env"
  shows "updates n (server_request_update_depth n env)"
proof (induction n)
  case 0
  have "a \<in> untriggered w" if "sv_requests w a \<noteq> None" "\<not> trig w a" for w a using that by (auto simp: untriggered_def)
  then show ?case using finite_untriggered card_0_eq unfolding updates_def by blast
next
  case (Suc n)
  show ?case
    unfolding updates_def
  proof (intro allI impI, elim conjE)
    fix X w a
    assume inv: "server_inv X w" and calm: "calm {a} X w" and ex: "sv_requests w a \<noteq> None" and nt: "\<not> trig w a"
      and x: "X a \<le> 1" and card: "card (untriggered w) \<le> Suc n"
    obtain r where r: "sv_requests w a = Some r" using ex by auto
    show "\<exists>w'. server_request_update_depth (Suc n) env a w = Some w' \<and> server_inv X w' \<and> keeps {} w w'"
    proof (cases "sr_state r \<noteq> SERVER_REQUEST_NEED_MORE_DATA \<or> buf_size (sm_input (sr_stream r)) = 0")
      case True
      then show ?thesis using r inv keeps_refl by simp
    next
      case False
      define r1 where "r1 = r\<lparr>sr_ref := sr_ref r + 1, sr_event_triggered := True,
        sr_data := (0, buf_size (sm_input (sr_stream r))), sr_state := SERVER_REQUEST_READ\<rparr>"
      define w1 where "w1 = put_request a r1 w"
      define Y where "Y = X(a := Suc (X a))"
      have y: "0 < Y a" "Y a \<le> 2" using x by (simp_all add: Y_def)
      have "connected w a r1"
        using connectedD [OF inv r] False holds_size unfolding connected_def
        by (fastforce simp: r1_def buffer_size_def)
      then have "request_ok (Y a) w a r1"
        using request_ok_hold [OF server_invD(5) [OF inv r]] x False by (simp add: request_ok_def r1_def Y_def)
      from inv_put [OF inv r this] have inv1: "server_inv Y w1" by (simp add: w1_def Y_def)
      have r1: "sv_requests w1 a = Some r1" "sr_event_triggered r1" by (simp_all add: w1_def r1_def)
      have k1: "keeps {a} w w1" using r unfolding w1_def by (intro keeps_touches) simp_all
      have calm1: "calm {a} Y w1" using calm_keeps [OF calm k1] by (simp add: calm_def Y_def)
      have "untriggered w1 \<subseteq> untriggered w - {a}"
        using untriggered_keeps [OF k1] r1 by (auto simp: trig_def untriggered_def)
      moreover have "a \<in> untriggered w" using r nt by (auto simp: untriggered_def)
      ultimately have "card (untriggered w1) < card (untriggered w)"
        using finite_untriggered [OF inv] by (intro psubset_card_mono) auto
      then have "card (untriggered w1) \<le> n" using card by simp
      from loop_ok [OF Suc.IH wb y inv1 calm1 this r1] obtain w2 where w2:
        "read_loop (server_request_read_with (server_request_update_depth n env) env a) a w1 = Some w2"
        "server_inv Y w2" "keeps {a} w1 w2" "trig w2 a" by blast
      then obtain r2 where r2: "sv_requests w2 a = Some r2" "sr_event_triggered r2" by (auto simp: trig_def)
      have "\<exists>w3. do {
          w \<leftarrow> (if sr_state r2 \<noteq> SERVER_REQUEST_CLOSED then do {
                s \<leftarrow> stream_consume (sr_stream r2) (buf_size (sm_input (sr_stream r2)) - snd (sr_data r2));
                request_flush env a (put_request a (r2\<lparr>sr_stream := s\<rparr>) w2) }
              else Some w2);
          update_request a (\<lambda>r. r\<lparr>sr_event_triggered := False\<rparr>) w } = Some w3 \<and> server_inv Y w3 \<and> keeps {a} w2 w3 \<and> \<not> trig w3 a"
      proof (cases "sr_state r2 = SERVER_REQUEST_CLOSED")
        case True
        let ?w3 = "put_request a (r2\<lparr>sr_event_triggered := False\<rparr>) w2"
        have "request_ok (Y a) w2 a (r2\<lparr>sr_event_triggered := False\<rparr>)"
          using server_invD(5) [OF w2(2) r2(1)] True by (simp add: request_ok_def)
        from inv_put [OF w2(2) r2(1) this] keeps_touches [of a w2 ?w3] show ?thesis
          using r2 True by (intro exI [of _ ?w3]) (simp add: trig_def)
      next
        case False
        from finish_ok [OF w2(2) r2 False, of env] wb [unfolded well_behaved_program_def] show ?thesis using False by auto
      qed
      then obtain w3 where w3: "do {
          w \<leftarrow> (if sr_state r2 \<noteq> SERVER_REQUEST_CLOSED then do {
                s \<leftarrow> stream_consume (sr_stream r2) (buf_size (sm_input (sr_stream r2)) - snd (sr_data r2));
                request_flush env a (put_request a (r2\<lparr>sr_stream := s\<rparr>) w2) }
              else Some w2);
          update_request a (\<lambda>r. r\<lparr>sr_event_triggered := False\<rparr>) w } = Some w3" "server_inv Y w3" "keeps {a} w2 w3" "\<not> trig w3 a"
        by blast
      obtain w4 where w4: "server_release a w3 = Some w4" "server_inv X w4" "keeps {} w3 w4"
        using release_ok [where a = a and x = "X a", OF w3(2)] w3(4) by (auto simp: Y_def)
      have "keeps {a} w w4"
        by (rule keeps_trans [OF k1 keeps_trans [OF w2(3) keeps_trans [OF w3(3) keeps_mono [OF w4(3)]]]]) simp
      then have "keeps {} w w4"
        by (rule keeps_at) (use nt w3(4) keeps_trig [OF w4(3), of a] r in \<open>auto simp: trig_def\<close>)
      moreover have "server_request_update_depth (Suc n) env a w = Some w4"
      proof -
        obtain w' where w': "(if sr_state r2 \<noteq> SERVER_REQUEST_CLOSED then do {
                s \<leftarrow> stream_consume (sr_stream r2) (buf_size (sm_input (sr_stream r2)) - snd (sr_data r2));
                request_flush env a (put_request a (r2\<lparr>sr_stream := s\<rparr>) w2) }
              else Some w2) = Some w'" "update_request a (\<lambda>r. r\<lparr>sr_event_triggered := False\<rparr>) w' = Some w3"
          using w3(1) by (auto split: bind_splits)
        show ?thesis
          using r False w2(1) r2(1) w' w4(1) by (simp add: server_hold_def w1_def r1_def)
      qed
      ultimately show ?thesis using w4(2) by blast
    qed
  qed
qed

section \<open>Events\<close>

text \<open>
  What happens to a server in the loop: a connection is accepted, as the list item \<open>a\<close> with a file
  descriptor; reads on a connection deliver data; the system takes output; the peer hangs up; the
  program acts by itself; the system decides what the coming calls of \<open>write\<close> will answer. The
  first four happen to plain connections and to those over OpenSSL.
\<close>

datatype server_event =
    Connects nat int
  | Arrives nat "string list"
  | Drains nat
  | Hangs nat
  | Connects_Tls nat int
  | Arrives_Tls nat "string list" int
  | Drains_Tls nat
  | Hangs_Tls nat
  | Decides "decision list"
  | Expects nat "write_answer list"

primrec server_step :: "environment \<Rightarrow> server_event \<Rightarrow> server_world \<Rightarrow> server_world option" where
  "server_step env (Connects a fd) w = server_socket_accept a fd w"
| "server_step env (Arrives a rs) w = connection_event env a DESCRIPTOR_READ rs w"
| "server_step env (Drains a) w = connection_event env a DESCRIPTOR_WRITE [] w"
| "server_step env (Hangs a) w = connection_event env a DESCRIPTOR_CLOSE [] w"
| "server_step env (Connects_Tls a fd) w = server_ssl_accept a fd True w"
| "server_step env (Arrives_Tls a rs err) w = connection_tls_event env a DESCRIPTOR_READ (rs, err) w"
| "server_step env (Drains_Tls a) w = connection_tls_event env a DESCRIPTOR_WRITE ([], 0) w"
| "server_step env (Hangs_Tls a) w = connection_tls_event env a DESCRIPTOR_CLOSE ([], 0) w"
| "server_step env (Decides fs) w = actions_with (server_request_update env) env fs w"
| "server_step env (Expects a rs) w = Some (w\<lparr>sv_writes := (sv_writes w)(a := rs)\<rparr>)"

primrec server_run :: "environment \<Rightarrow> server_event list \<Rightarrow> server_world \<Rightarrow> server_world option" where
  "server_run env [] w = Some w"
| "server_run env (e # es) w = do { w \<leftarrow> server_step env e w; server_run env es w }"

text \<open>
  A new connection is at an address and has a file descriptor that nothing else uses. Events happen on open
  descriptors only. Less than 2 GiB of input wait on a connection, so that the parser's answer, an \<open>int\<close>, can be
  the length of a request.
\<close>

definition live :: "server_world \<Rightarrow> nat \<Rightarrow> bool" where
  "live w a \<longleftrightarrow> (case sv_requests w a of None \<Rightarrow> False | Some r \<Rightarrow> sr_state r \<noteq> SERVER_REQUEST_CLOSED)"

definition live_as :: "ssl_pointer \<Rightarrow> server_world \<Rightarrow> nat \<Rightarrow> bool" where
  "live_as p w a \<longleftrightarrow> (case sv_requests w a of None \<Rightarrow> False | Some r \<Rightarrow> sr_state r \<noteq> SERVER_REQUEST_CLOSED \<and> sm_ssl (sr_stream r) = p)"

definition fresh_connection :: "nat \<Rightarrow> int \<Rightarrow> server_world \<Rightarrow> bool" where
  "fresh_connection a fd w \<longleftrightarrow> sv_requests w a = None \<and> 0 \<le> fd \<and> rc_interest w fd = None \<and>
     (\<forall>(m, b) \<in> ran (rc_interest w). b \<noteq> a)"

lemma fresh_connectionD:
  assumes "fresh_connection a fd w"
  shows "sv_requests w a = None" "0 \<le> fd" "rc_interest w fd = None" "\<forall>fd m. rc_interest w fd \<noteq> Some (m, a)"
  using assms by (auto simp: fresh_connection_def ran_def)

definition input_room :: "server_world \<Rightarrow> nat \<Rightarrow> nat \<Rightarrow> bool" where
  "input_room w a n \<longleftrightarrow> (\<forall>r. sv_requests w a = Some r \<longrightarrow> unat (buffer_size (sm_input (sr_stream r))) + n < 2 ^ 31)"

primrec event_possible :: "environment \<Rightarrow> server_event \<Rightarrow> server_world \<Rightarrow> bool" where
  "event_possible env (Connects a fd) w \<longleftrightarrow> fresh_connection a fd w"
| "event_possible env (Arrives a rs) w \<longleftrightarrow> live_as No_Ssl w a \<and> read_answers rs \<and> input_room w a (length (delivered rs))"
| "event_possible env (Drains a) w \<longleftrightarrow> live_as No_Ssl w a"
| "event_possible env (Hangs a) w \<longleftrightarrow> live_as No_Ssl w a"
| "event_possible env (Connects_Tls a fd) w \<longleftrightarrow> fresh_connection a fd w"
| "event_possible env (Arrives_Tls a rs err) w \<longleftrightarrow> live_as Live_Ssl w a \<and> (\<forall>xs \<in> set rs. xs \<noteq> [] \<and> length xs \<le> 16384) \<and>
     input_room w a (length (concat rs))"
| "event_possible env (Drains_Tls a) w \<longleftrightarrow> live_as Live_Ssl w a"
| "event_possible env (Hangs_Tls a) w \<longleftrightarrow> live_as Live_Ssl w a"
| "event_possible env (Decides fs) w \<longleftrightarrow> decisions_allowed env fs"
| "event_possible env (Expects a rs) w \<longleftrightarrow> True"

primrec events_possible :: "environment \<Rightarrow> server_event list \<Rightarrow> server_world \<Rightarrow> bool" where
  "events_possible env [] w \<longleftrightarrow> True"
| "events_possible env (e # es) w \<longleftrightarrow> event_possible env e w \<and>
     (case server_step env e w of None \<Rightarrow> True | Some w' \<Rightarrow> events_possible env es w')"

text \<open>
  Two of these events bring out defects of the code: behind input that ends in a space the parser reads on
  (\<open>request_line_overread\<close>), and a write that fails otherwise than with \<open>EAGAIN\<close>, as it does when the peer
  has reset the connection, fails an assertion (\<open>stream_socket_write_fails\<close>).
\<close>

definition ends_in_space :: "string \<Rightarrow> bool" where
  "ends_in_space xs \<longleftrightarrow> xs \<noteq> [] \<and> last xs = CHR '' ''"

fun provokes :: "server_event \<Rightarrow> bool" where
  "provokes (Arrives a rs) \<longleftrightarrow> ends_in_space (delivered rs)"
| "provokes (Arrives_Tls a rs err) \<longleftrightarrow> ends_in_space (concat rs)"
| "provokes (Expects a rs) \<longleftrightarrow> Broken \<in> set rs"
| "provokes e \<longleftrightarrow> False"

definition event_allowed :: "environment \<Rightarrow> server_event \<Rightarrow> server_world \<Rightarrow> bool" where
  "event_allowed env e w \<longleftrightarrow> event_possible env e w \<and> \<not> provokes e"

lemma event_allowed_simps [simp]:
  "event_allowed env (Connects a fd) w \<longleftrightarrow> fresh_connection a fd w"
  "event_allowed env (Arrives a rs) w \<longleftrightarrow> live_as No_Ssl w a \<and> read_answers rs \<and> input_room w a (length (delivered rs)) \<and>
     \<not> ends_in_space (delivered rs)"
  "event_allowed env (Drains a) w \<longleftrightarrow> live_as No_Ssl w a"
  "event_allowed env (Hangs a) w \<longleftrightarrow> live_as No_Ssl w a"
  "event_allowed env (Connects_Tls a fd) w \<longleftrightarrow> fresh_connection a fd w"
  "event_allowed env (Arrives_Tls a rs err) w \<longleftrightarrow> live_as Live_Ssl w a \<and> (\<forall>xs \<in> set rs. xs \<noteq> [] \<and> length xs \<le> 16384) \<and>
     input_room w a (length (concat rs)) \<and> \<not> ends_in_space (concat rs)"
  "event_allowed env (Drains_Tls a) w \<longleftrightarrow> live_as Live_Ssl w a"
  "event_allowed env (Hangs_Tls a) w \<longleftrightarrow> live_as Live_Ssl w a"
  "event_allowed env (Decides fs) w \<longleftrightarrow> decisions_allowed env fs"
  "event_allowed env (Expects a ws) w \<longleftrightarrow> write_answers ws"
  by (simp_all add: event_allowed_def write_answers_def)

lemma card_untriggered_le: "server_inv X w \<Longrightarrow> card (untriggered w) \<le> length (sv_order w)"
  using card_mono [OF finite_set, of "untriggered w" "sv_order w"] card_length [of "sv_order w"] server_invD(2) [of X w]
  by (fastforce simp: untriggered_def)

lemma updates_all:
  assumes "well_behaved_program env"
  shows "updates n (server_request_update env)"
  unfolding updates_def server_request_update_def
  using updates_depth [OF assms] card_untriggered_le le_SucI unfolding updates_def by meson

lemma calm_idle: "server_inv (\<lambda>_. 0) w \<Longrightarrow> calm A (\<lambda>_. 0) w"
  using server_invD(5) [of "\<lambda>_. 0" w] by (fastforce simp: calm_def trig_def request_ok_def)

lemma idle_update:
  assumes "well_behaved_program env" "server_inv (\<lambda>_. 0) w" "sv_requests w a \<noteq> None"
  shows "\<exists>w'. server_request_update env a w = Some w' \<and> server_inv (\<lambda>_. 0) w' \<and> shrinks w w'"
proof -
  have "\<not> trig w a" using server_invD(5) [OF assms(2)] by (fastforce simp: trig_def request_ok_def)
  then show ?thesis
    using updatesD [OF updates_all [OF assms(1)] assms(2) calm_idle [OF assms(2)] assms(3), of "card (untriggered w)"] keeps_shrinks by blast
qed

lemma idle_actions:
  assumes "well_behaved_program env" "server_inv (\<lambda>_. 0) w" "decisions_allowed env fs"
  shows "\<exists>w'. actions_with (server_request_update env) env fs w = Some w' \<and> server_inv (\<lambda>_. 0) w' \<and> shrinks w w'"
  using actions_ok [OF updates_all [OF assms(1)] _ assms(2) calm_idle [OF assms(2)] order_refl assms(3)] assms(1) keeps_shrinks
  unfolding well_behaved_program_def by blast

lemma inv_add:
  assumes inv: "server_inv X w" and t: "touches a w w'" and order: "sv_order w' = sv_order w @ [a]"
    and r: "sv_requests w a = None" "sv_requests w' a = Some r" "request_ok 0 w' a r"
  shows "server_inv X w'"
  unfolding server_inv_def
proof (intro conjI allI)
  note D = server_invD [OF inv]
  have "dom (sv_requests w') = insert a (dom (sv_requests w))" using t r unfolding touches_def dom_def by force
  then show "set (sv_order w') = dom (sv_requests w')" using D(2) order by auto
  show "case sv_requests w' b of None \<Rightarrow> sv_held w' b = 0 \<and> X b = 0 | Some r \<Rightarrow> request_ok (X b) w' b r" for b
  proof (cases "b = a")
    case True
    then show ?thesis using r D(4) [OF r(1)] by simp
  next
    case False
    then show ?thesis
      using t D(4,5) request_ok_kept [OF _ False t] by (auto simp: touches_def split: option.splits)
  qed
  show "write_answers (sv_writes w' b)" for b using D(3) t by (simp add: touches_def)
  have "a \<notin> set (sv_order w)" using D(2) r(1) by (simp add: domIff)
  then show "distinct (sv_order w')" using D(1) order by simp
qed

text \<open>A new connection, of either kind.\<close>

definition accepted :: "nat \<Rightarrow> server_world \<Rightarrow> server_world \<Rightarrow> bool" where
  "accepted a w w' \<longleftrightarrow> tidy w w' \<and> dom (sv_requests w') = insert a (dom (sv_requests w))"

lemma accepted_put:
  assumes "touches a w w1" "sv_requests w1 = sv_requests w"
  shows "accepted a w (put_request a r w1)"
  using tidy_new [OF touches_trans [OF assms(1) touches_put(1)]] assms(2) by (simp add: accepted_def)

lemma new_request_ok:
  assumes inv: "server_inv X w" and a: "sv_requests w a = None" and t: "touches a w w1" "sv_order w1 = sv_order w @ [a]" "sv_held w1 = sv_held w"
    and s: "wired a s w1" "secured s w1" "holds (sm_input s) []" "holds (sm_output s) []"
  shows "server_inv X (put_request a (new_request a s) w1)"
proof -
  let ?r = "new_request a s" and ?w = "put_request a (new_request a s) w1"
  have t': "touches a w ?w" by (rule touches_trans [OF t(1) touches_put(1)])
  have "connected w1 a ?r"
    unfolding connected_def using s
    by (intro conjI exI [of _ "[]"]) (simp_all add: new_request_def wired_def)
  then have "request_ok 0 ?w a ?r"
    using server_invD(4) [OF inv a] t(3) by (simp add: request_ok_def new_request_def)
  then show ?thesis using t(2) by (intro inv_add [OF inv t' _ a]) simp_all
qed

lemma accept_ok:
  assumes inv: "server_inv X w" and a: "sv_requests w a = None"
    and fd: "0 \<le> fd" "rc_interest w fd = None" "\<forall>fd m. rc_interest w fd \<noteq> Some (m, a)"
  shows "\<exists>w'. server_socket_accept a fd w = Some w' \<and> server_inv X w' \<and> accepted a w w'"
proof -
  let ?w = "w\<lparr>sv_order := sv_order w @ [a]\<rparr>"
  let ?s = "stream_construct a (Some ()) a"
  have "rc_interest ?w fd = None" "\<forall>fd m. rc_interest ?w fd \<noteq> Some (m, a)" "sm_ssl ?s = No_Ssl"
    using fd(2,3) by (simp_all add: stream_construct_def)
  from stream_socket_open_ok [OF fd(1) this, of STREAM_READ True] obtain s w1 where
    w1: "stream_open a ?s fd STREAM_READ (0, True) None ?w = Some (s, w1)" "wired a s w1" "spares a ?w w1"
    and s: "sm_ssl s = No_Ssl" "sm_input s = buffer_construct" "sm_output s = buffer_construct"
    by (auto simp: stream_construct_def)
  note F = spares_fields [OF w1(3), simplified]
  have "fades w w1" using w1(3) by (simp add: spares_def fades_def)
  then have t: "touches a w w1" using touches_spares [OF w1(3)] F by (simp add: touches_def)
  have "server_inv X (put_request a (new_request a s) w1)"
    using F w1(2) s by (intro new_request_ok [OF inv a t]) (simp_all add: secured_def holds_empty)
  then show ?thesis using w1(1) accepted_put [OF t F(1)] by (simp add: server_socket_accept_def)
qed

lemma accept_tls_ok:
  assumes inv: "server_inv X w" and a: "sv_requests w a = None"
    and fd: "0 \<le> fd" "rc_interest w fd = None" "\<forall>fd m. rc_interest w fd \<noteq> Some (m, a)"
  shows "\<exists>w'. server_ssl_accept a fd True w = Some w' \<and> server_inv X w' \<and> accepted a w w'"
proof -
  let ?w = "w\<lparr>sv_order := sv_order w @ [a]\<rparr>"
  let ?s = "stream_construct a (Some ()) a"
  have "rc_interest ?w fd = None" "\<forall>fd m. rc_interest ?w fd \<noteq> Some (m, a)" using fd(2,3) by simp_all
  from stream_ssl_opened [OF fd(1) this, of "Some ()" a STREAM_READ] obtain s w1 where
    w1: "stream_open a ?s fd STREAM_READ (0, True) (Some True) ?w = Some (s, w1)" "wired a s w1" "ssl_activated w1"
      "spares a (?w\<lparr>ssl_activated := True\<rparr>) w1"
    and s: "sm_ssl s = Live_Ssl" "sm_input s = buffer_construct" "sm_output s = buffer_construct"
    by blast
  note F = spares_fields [OF w1(4), simplified]
  have "fades w w1" using w1(4) by (simp add: spares_def fades_def)
  then have t: "touches a w w1" using touches_spares [OF w1(4)] F w1(3) by (simp add: touches_def)
  have "server_inv X (put_request a (new_request a s) w1)"
    using F w1(2,3) s by (intro new_request_ok [OF inv a t]) (simp_all add: secured_def holds_empty)
  then show ?thesis using w1(1) accepted_put [OF t F(1)] by (simp add: server_ssl_accept_def)
qed

lemma liveE:
  assumes "live w a"
  obtains r where "sv_requests w a = Some r" "sr_state r \<noteq> SERVER_REQUEST_CLOSED"
  using assms by (auto simp: live_def split: option.splits)

lemma live_asE:
  assumes "live_as p w a"
  obtains r where "sv_requests w a = Some r" "sr_state r \<noteq> SERVER_REQUEST_CLOSED" "sm_ssl (sr_stream r) = p"
  using assms by (auto simp: live_as_def split: option.splits)

text \<open>What the callback of a stream leaves in the world before it dispatches its event.\<close>

definition connection_world :: "nat \<Rightarrow> server_request \<Rightarrow> unit stream \<Rightarrow> string \<Rightarrow> write_answer list \<Rightarrow> server_world \<Rightarrow> server_world" where
  "connection_world a r s sent rs w = put_request a (r\<lparr>sr_stream := s\<rparr>)
     (w\<lparr>sv_sent := (sv_sent w)(a := sv_sent w a @ sent), sv_writes := (sv_writes w)(a := rs)\<rparr>)"

lemma connection_world_simps [simp]:
  "sv_requests (connection_world a r s sent rs w) = (sv_requests w)(a \<mapsto> r\<lparr>sr_stream := s\<rparr>)"
  "sv_order (connection_world a r s sent rs w) = sv_order w" "sv_held (connection_world a r s sent rs w) = sv_held w"
  "rc_interest (connection_world a r s sent rs w) = rc_interest w"
  "wired b t (connection_world a r s sent rs w) = wired b t w" "secured t (connection_world a r s sent rs w) = secured t w"
  by (simp_all add: connection_world_def wired_def)

lemma touches_connection: "write_answers rs \<Longrightarrow> touches a w (connection_world a r s sent rs w)"
  by (simp add: touches_def connection_world_def put_request_def)

lemma connection_event_run:
  assumes "sv_requests w a = Some r" "stream_socket_callback a type reads (sv_writes w a) (sr_stream r) w = Some (s, w1, sent, rs, ev)"
  shows "connection_event env a type reads w = (case ev of None \<Rightarrow> Some (connection_world a r s sent rs w1)
    | Some t \<Rightarrow> server_request_callback env a t (connection_world a r s sent rs w1))"
  using assms by (cases ev) (simp_all add: connection_event_def connection_world_def Let_def)

lemma connection_tls_event_run:
  assumes "sv_requests w a = Some r" "stream_ssl_callback a type reads (ev_ssl_write env w a) (sr_stream r) w = Some (s, w1, sent, ev)"
  shows "connection_tls_event env a type reads w = (case ev of None \<Rightarrow> Some (connection_world a r s sent (sv_writes w1 a) w1)
    | Some t \<Rightarrow> server_request_callback env a t (connection_world a r s sent (sv_writes w1 a) w1))"
  using assms by (cases ev) (simp_all add: connection_tls_event_def connection_world_def Let_def)

lemma connection_kept:
  assumes inv: "server_inv (\<lambda>_. 0) w" and r: "sv_requests w a = Some r" "sr_state r \<noteq> SERVER_REQUEST_CLOSED"
    and s: "wired a s w1" "secured s w1" "spares a w w1" "write_answers rs" "holds (sm_input s) inp" "holds (sm_output s) out"
    and len: "length inp < 2 ^ 31" "inp = [] \<or> last inp \<noteq> CHR '' ''" "length out \<le> 2 ^ 62"
  shows "server_inv (\<lambda>_. 0) (connection_world a r s sent rs w1) \<and> shrinks w (connection_world a r s sent rs w1)"
proof -
  note F = spares_fields [OF s(3)] and ok = server_invD(5) [OF inv r(1)]
  let ?w = "connection_world a r s sent rs w1" and ?r = "r\<lparr>sr_stream := s\<rparr>"
  have t: "touches a w ?w" by (rule touches_trans [OF touches_spares [OF s(3)] touches_connection [OF s(4)]])
  have "\<not> sr_event_triggered r" using ok by (auto simp: request_ok_def)
  then have "connected ?w a ?r"
    using s len by (intro connectedI [where inp = inp and out = out]) simp_all
  then have "request_ok 0 ?w a ?r" using ok r(2) F by (simp add: request_ok_def)
  then have "server_inv ((\<lambda>_. 0)(a := 0)) ?w" using r(1) F by (intro inv_touch [OF inv t]) simp_all
  then show ?thesis using touches_shrinks [OF t] r(1) by (simp add: fun_upd_idem)
qed

lemma connection_lost:
  assumes inv: "server_inv (\<lambda>_. 0) w" and r: "sv_requests w a = Some r" "sr_state r \<noteq> SERVER_REQUEST_CLOSED"
    and s: "wired a s w1" "secured s w1" "spares a w w1" "write_answers rs" and type: "type \<noteq> STREAM_READ"
  shows "\<exists>w'. server_request_callback env a type (connection_world a r s sent rs w1) = Some w' \<and> server_inv (\<lambda>_. 0) w' \<and> shrinks w w' \<and>
    (\<forall>r'. sv_requests w' a = Some r' \<longrightarrow> sr_state r' = SERVER_REQUEST_CLOSED)"
proof -
  note F = spares_fields [OF s(3)]
  define w2 where "w2 = connection_world a r s sent rs w1"
  have tw: "touches a w w2"
    unfolding w2_def by (rule touches_trans [OF touches_spares [OF s(3)] touches_connection [OF s(4)]])
  have "\<exists>w'. server_close a w2 = Some w' \<and> server_inv (\<lambda>_. 0) w' \<and> keeps {} w w' \<and>
      (\<forall>r'. sv_requests w' a = Some r' \<longrightarrow> sr_state r' = SERVER_REQUEST_CLOSED)"
    by (rule close_ok [where r = "r\<lparr>sr_stream := s\<rparr>", OF inv tw _ _ r(1)]) (use s r F in \<open>simp_all add: w2_def\<close>)
  then show ?thesis using type keeps_shrinks [of "{}" w] by (auto simp: w2_def server_request_callback_def)
qed

lemma connection_read:
  assumes wb: "well_behaved_program env" and inv: "server_inv (\<lambda>_. 0) (connection_world a r s sent rs w1)"
  shows "\<exists>w'. server_request_callback env a STREAM_READ (connection_world a r s sent rs w1) = Some w' \<and>
    server_inv (\<lambda>_. 0) w' \<and> shrinks (connection_world a r s sent rs w1) w'"
  using idle_update [OF wb inv, of a] by (simp add: server_request_callback_def)

text \<open>The buffers of an open connection when no function is running.\<close>

lemma connection_buffers:
  assumes "server_inv X w" "sv_requests w a = Some r" "sr_state r \<noteq> SERVER_REQUEST_CLOSED"
  obtains inp out where "holds (sm_input (sr_stream r)) inp" "holds (sm_output (sr_stream r)) out" "length inp < 2 ^ 31"
    "inp = [] \<or> last inp \<noteq> CHR '' ''" "length out \<le> 2 ^ 62"
  using connectedD(3) [OF assms] by blast

lemma stream_types: "(STREAM_WRITE :: nat) \<noteq> STREAM_READ" "(STREAM_CLOSE :: nat) \<noteq> STREAM_READ"
  by (simp_all add: STREAM_WRITE_def STREAM_READ_def STREAM_CLOSE_def DESCRIPTOR_WRITE_def DESCRIPTOR_READ_def DESCRIPTOR_CLOSE_def)

lemma arrives_ok:
  assumes wb: "well_behaved_program env" and inv: "server_inv (\<lambda>_. 0) w" and ev: "event_allowed env (Arrives a reads) w"
  shows "\<exists>w'. server_step env (Arrives a reads) w = Some w' \<and> server_inv (\<lambda>_. 0) w' \<and> shrinks w w'"
proof -
  obtain r where r: "sv_requests w a = Some r" "sr_state r \<noteq> SERVER_REQUEST_CLOSED" using ev by (auto elim: live_asE)
  note C = connectedD(1,2) [OF inv r]
  obtain inp out where io: "holds (sm_input (sr_stream r)) inp" "holds (sm_output (sr_stream r)) out" "length inp < 2 ^ 31"
    "inp = [] \<or> last inp \<noteq> CHR '' ''" "length out \<le> 2 ^ 62" by (rule connection_buffers [OF inv r])
  have len: "length inp + length (delivered reads) < 2 ^ 31" using ev r(1) holds_size [OF io(1)] by (simp add: input_room_def)
  have "length inp + length (delivered reads) \<le> 2 ^ 62" "read_answers reads" using len ev by simp_all
  from socket_readable [OF io(1) this(2,1), of a "sv_writes w a" w] obtain b where b: "stream_socket_callback a DESCRIPTOR_READ reads (sv_writes w a) (sr_stream r) w =
      Some ((sr_stream r)\<lparr>sm_input := b\<rparr>, w, [], sv_writes w a, if delivered reads \<noteq> [] then Some STREAM_READ else None)"
    "holds b (inp @ delivered reads)" by blast
  let ?w = "connection_world a r ((sr_stream r)\<lparr>sm_input := b\<rparr>) [] (sv_writes w a) w"
  have k: "server_inv (\<lambda>_. 0) ?w \<and> shrinks w ?w"
    by (rule connection_kept [OF inv r, where inp = "inp @ delivered reads" and out = out])
      (use io C b(2) len ev server_invD(3) [OF inv] in \<open>auto simp: spares_refl last_append ends_in_space_def\<close>)
  then show ?thesis using connection_event_run [OF r(1) b(1), of env] connection_read [OF wb, of a r] shrinks_trans [of w ?w]
    by auto blast
qed

lemma arrives_tls_ok:
  assumes wb: "well_behaved_program env" and inv: "server_inv (\<lambda>_. 0) w" and ev: "event_allowed env (Arrives_Tls a reads err) w"
  shows "\<exists>w'. server_step env (Arrives_Tls a reads err) w = Some w' \<and> server_inv (\<lambda>_. 0) w' \<and> shrinks w w'"
proof -
  obtain r where r: "sv_requests w a = Some r" "sr_state r \<noteq> SERVER_REQUEST_CLOSED" and l: "sm_ssl (sr_stream r) = Live_Ssl"
    using ev by (auto elim: live_asE)
  note C = connectedD(1,2) [OF inv r]
  have act: "ssl_activated w" using C(2) l by (simp add: secured_def)
  obtain inp out where io: "holds (sm_input (sr_stream r)) inp" "holds (sm_output (sr_stream r)) out" "length inp < 2 ^ 31"
    "inp = [] \<or> last inp \<noteq> CHR '' ''" "length out \<le> 2 ^ 62" by (rule connection_buffers [OF inv r])
  have len: "length inp + length (concat reads) < 2 ^ 31" using ev r(1) holds_size [OF io(1)] by (simp add: input_room_def)
  have "\<forall>zs \<in> set reads. zs \<noteq> [] \<and> length zs \<le> 16384" "length inp + length (concat reads) \<le> 2 ^ 62" using len ev by simp_all
  from ssl_readable [OF C(1) act l io(1,2) this, of err "ev_ssl_write env w a"] obtain s w1 where
    b: "stream_ssl_callback a DESCRIPTOR_READ (reads, err) (ev_ssl_write env w a) (sr_stream r) w =
      Some (s, w1, [], if concat reads \<noteq> [] then Some STREAM_READ else None)"
    and s: "holds (sm_input s) (inp @ concat reads)" "sm_output s = sm_output (sr_stream r)" "sm_ssl s = Live_Ssl" "wired a s w1" "spares a w w1"
    using l by auto
  have sec: "secured s w1" using s(3) act spares_ssl [OF s(5)] by (simp add: secured_def)
  let ?w = "connection_world a r s [] (sv_writes w1 a) w1"
  have k: "server_inv (\<lambda>_. 0) ?w \<and> shrinks w ?w"
    by (rule connection_kept [OF inv r s(4) sec s(5) _ s(1), where out = out])
      (use io s(2) len ev server_invD(3) [OF inv] spares_fields(4) [OF s(5)] in \<open>auto simp: last_append ends_in_space_def simp del: concat_eq_Nil_conv\<close>)
  then show ?thesis using connection_tls_event_run [OF r(1) b] connection_read [OF wb, of a r] shrinks_trans [of w ?w]
    by (auto simp del: concat_eq_Nil_conv) blast
qed

lemma drains_ok:
  assumes inv: "server_inv (\<lambda>_. 0) w" and ev: "live_as No_Ssl w a"
  shows "\<exists>w'. server_step env (Drains a) w = Some w' \<and> server_inv (\<lambda>_. 0) w' \<and> shrinks w w'"
proof -
  obtain r where r: "sv_requests w a = Some r" "sr_state r \<noteq> SERVER_REQUEST_CLOSED" using ev by (auto elim: live_asE)
  note C = connectedD(1,2) [OF inv r]
  obtain inp out where io: "holds (sm_input (sr_stream r)) inp" "holds (sm_output (sr_stream r)) out" "length inp < 2 ^ 31"
    "inp = [] \<or> last inp \<noteq> CHR '' ''" "length out \<le> 2 ^ 62" by (rule connection_buffers [OF inv r])
  let ?n = "taken out (sv_writes w a)"
  obtain b d w1 rs where cb: "stream_socket_callback a DESCRIPTOR_WRITE [] (sv_writes w a) (sr_stream r) w =
      Some ((sr_stream r)\<lparr>sm_output := b, sm_notify := False, sm_descriptor := d\<rparr>, w1, take ?n out, rs,
        if drop ?n out = [] \<or> sm_notify (sr_stream r) then Some STREAM_WRITE else None)"
    "write_answers rs" "holds b (drop ?n out)" "wired a ((sr_stream r)\<lparr>sm_output := b, sm_notify := False, sm_descriptor := d\<rparr>) w1"
    "spares a w w1"
    using socket_writable [OF C(1) io(2) server_invD(3) [OF inv], of "[]"] by blast
  let ?s = "(sr_stream r)\<lparr>sm_output := b, sm_notify := False, sm_descriptor := d\<rparr>"
  have sec: "secured ?s w1" using C(2) spares_ssl [OF cb(5)] by (simp add: secured_def)
  have "server_inv (\<lambda>_. 0) (connection_world a r ?s (take ?n out) rs w1) \<and> shrinks w (connection_world a r ?s (take ?n out) rs w1)"
    by (rule connection_kept [OF inv r cb(4) sec cb(5,2), where inp = inp and out = "drop ?n out"]) (use io cb(3) in simp_all)
  with connection_lost [OF inv r cb(4) sec cb(5,2) stream_types(1), of env] show ?thesis
    using connection_event_run [OF r(1) cb(1), of env] by (cases "drop ?n out = [] \<or> sm_notify (sr_stream r)") auto
qed

lemma drains_tls_ok:
  assumes sys: "sound_system env" and inv: "server_inv (\<lambda>_. 0) w" and ev: "live_as Live_Ssl w a"
  shows "\<exists>w'. server_step env (Drains_Tls a) w = Some w' \<and> server_inv (\<lambda>_. 0) w' \<and> shrinks w w' \<and>
    (\<forall>r. sv_requests w a = Some r \<longrightarrow> \<not> sm_notify (sr_stream r) \<longrightarrow> live w' a)"
proof -
  obtain r where r: "sv_requests w a = Some r" "sr_state r \<noteq> SERVER_REQUEST_CLOSED" and l: "sm_ssl (sr_stream r) = Live_Ssl"
    using ev by (auto elim: live_asE)
  note C = connectedD(1,2) [OF inv r]
  have act: "ssl_activated w" using C(2) l by (simp add: secured_def)
  obtain inp out where io: "holds (sm_input (sr_stream r)) inp" "holds (sm_output (sr_stream r)) out" "length inp < 2 ^ 31"
    "inp = [] \<or> last inp \<noteq> CHR '' ''" "length out \<le> 2 ^ 62" by (rule connection_buffers [OF inv r])
  let ?n = "ssl_taken (ev_ssl_write env w a)"
  obtain s w1 e where cb: "stream_ssl_callback a DESCRIPTOR_WRITE ([], 0) (ev_ssl_write env w a) (sr_stream r) w = Some (s, w1, take ?n out, e)"
    "flushed a out ?n (sr_stream r) s w w1" "e = None \<or> e = Some STREAM_WRITE \<and> sm_notify (sr_stream r)"
    using ssl_writable [OF C(1) act l io(2) sound_answer [OF sys r(1) io(2)], of "([], 0)"] by blast
  then have s: "wired a s w1" "spares a w w1" "holds (sm_input s) inp" "holds (sm_output s) (drop ?n out)" "sm_ssl s = Live_Ssl"
    using io(1) l by (simp_all add: flushed_def)
  have sec: "secured s w1" using s(5) act spares_ssl [OF s(2)] by (simp add: secured_def)
  have ans: "write_answers (sv_writes w1 a)" using server_invD(3) [OF inv] spares_fields(4) [OF s(2)] by simp
  have "server_inv (\<lambda>_. 0) (connection_world a r s (take ?n out) (sv_writes w1 a) w1) \<and>
      shrinks w (connection_world a r s (take ?n out) (sv_writes w1 a) w1)"
    by (rule connection_kept [OF inv r s(1) sec s(2) ans s(3,4) io(3,4)]) (use io(5) in simp)
  with connection_lost [OF inv r s(1) sec s(2) ans stream_types(1), of env "take ?n out"] show ?thesis
    using connection_tls_event_run [OF r(1) cb(1)] cb(3) r by (auto simp: live_def)
qed

lemma hangs_ok:
  assumes inv: "server_inv (\<lambda>_. 0) w" and r: "sv_requests w a = Some r" "sr_state r \<noteq> SERVER_REQUEST_CLOSED"
  shows "\<exists>w'. server_step env (Hangs a) w = Some w' \<and> server_inv (\<lambda>_. 0) w' \<and> shrinks w w'"
    "\<exists>w'. server_step env (Hangs_Tls a) w = Some w' \<and> server_inv (\<lambda>_. 0) w' \<and> shrinks w w'"
proof -
  note C = connectedD(1,2) [OF inv r]
  have cb: "stream_socket_callback a DESCRIPTOR_CLOSE [] (sv_writes w a) (sr_stream r) w =
      Some (sr_stream r, w, [], sv_writes w a, Some STREAM_CLOSE)"
    "stream_ssl_callback a DESCRIPTOR_CLOSE ([], 0) (ev_ssl_write env w a) (sr_stream r) w = Some (sr_stream r, w, [], Some STREAM_CLOSE)"
    by (simp_all add: stream_socket_callback_def stream_ssl_callback_def STREAM_CLOSE_def DESCRIPTOR_CLOSE_def DESCRIPTOR_READ_def DESCRIPTOR_WRITE_def)
  note L = connection_lost [OF inv r C spares_refl server_invD(3) [OF inv] stream_types(2), of env "[]" a]
  show "\<exists>w'. server_step env (Hangs a) w = Some w' \<and> server_inv (\<lambda>_. 0) w' \<and> shrinks w w'"
    using connection_event_run [OF r(1) cb(1), of env] L by auto
  show "\<exists>w'. server_step env (Hangs_Tls a) w = Some w' \<and> server_inv (\<lambda>_. 0) w' \<and> shrinks w w'"
    using connection_tls_event_run [OF r(1) cb(2)] L by auto
qed

primrec newcomer :: "server_event \<Rightarrow> nat set" where
  "newcomer (Connects a fd) = {a}"
| "newcomer (Arrives a rs) = {}"
| "newcomer (Drains a) = {}"
| "newcomer (Hangs a) = {}"
| "newcomer (Connects_Tls a fd) = {a}"
| "newcomer (Arrives_Tls a rs err) = {}"
| "newcomer (Drains_Tls a) = {}"
| "newcomer (Hangs_Tls a) = {}"
| "newcomer (Decides fs) = {}"
| "newcomer (Expects a rs) = {}"

lemma server_step_ok:
  assumes wb: "well_behaved_program env" and inv: "server_inv (\<lambda>_. 0) w" and ev: "event_allowed env e w"
  shows "\<exists>w'. server_step env e w = Some w' \<and> server_inv (\<lambda>_. 0) w' \<and> tidy w w' \<and>
    dom (sv_requests w') \<subseteq> dom (sv_requests w) \<union> newcomer e"
proof (cases e)
  case (Connects a fd)
  then have "fresh_connection a fd w" using ev by simp
  from accept_ok [OF inv fresh_connectionD [OF this]] Connects show ?thesis by (auto simp: accepted_def)
next
  case (Arrives a rs)
  then show ?thesis using arrives_ok [OF wb inv, of a rs] ev by (auto simp: shrinks_def)
next
  case (Drains a)
  then show ?thesis using drains_ok [OF inv, of a] ev by (auto simp: shrinks_def)
next
  case (Hangs a)
  then obtain r where "sv_requests w a = Some r" "sr_state r \<noteq> SERVER_REQUEST_CLOSED" using ev by (auto elim: live_asE)
  then show ?thesis using hangs_ok(1) [OF inv] Hangs by (auto simp: shrinks_def)
next
  case (Connects_Tls a fd)
  then have "fresh_connection a fd w" using ev by simp
  from accept_tls_ok [OF inv fresh_connectionD [OF this]] Connects_Tls show ?thesis by (auto simp: accepted_def)
next
  case (Arrives_Tls a rs err)
  then show ?thesis using arrives_tls_ok [OF wb inv, of a rs err] ev by (auto simp: shrinks_def)
next
  case (Drains_Tls a)
  then show ?thesis using drains_tls_ok [OF _ inv, of env a] wb ev by (auto simp: well_behaved_program_def shrinks_def)
next
  case (Hangs_Tls a)
  then obtain r where "sv_requests w a = Some r" "sr_state r \<noteq> SERVER_REQUEST_CLOSED" using ev by (auto elim: live_asE)
  then show ?thesis using hangs_ok(2) [OF inv] Hangs_Tls by (auto simp: shrinks_def)
next
  case (Decides fs)
  then show ?thesis using idle_actions [OF wb inv] ev by (auto simp: shrinks_def)
next
  case (Expects a rs)
  let ?w = "w\<lparr>sv_writes := (sv_writes w)(a := rs)\<rparr>"
  have "request_ok 0 ?w b r = request_ok 0 w b r" for b r by (simp add: request_ok_def connected_def wired_def)
  then have "case sv_requests ?w b of None \<Rightarrow> sv_held ?w b = 0 \<and> (0 :: nat) = 0 | Some r \<Rightarrow> request_ok 0 ?w b r" for b
    using server_invD(4,5) [OF inv, of b] by (cases "sv_requests w b") simp_all
  then have "server_inv (\<lambda>_. 0) ?w" using server_invD(1-3) [OF inv] Expects ev unfolding server_inv_def by simp
  moreover have "tidy w ?w" using keeps_tidy [OF keeps_same [of ?w w]] by simp
  ultimately show ?thesis using Expects by simp
qed

lemma server_run_ok:
  "well_behaved_program env \<Longrightarrow> server_inv (\<lambda>_. 0) w \<Longrightarrow> events_possible env es w \<Longrightarrow>
   \<exists>w'. server_run env (takeWhile (\<lambda>e. \<not> provokes e) es) w = Some w' \<and> server_inv (\<lambda>_. 0) w'"
proof (induction es arbitrary: w)
  case (Cons e es)
  show ?case
  proof (cases "provokes e")
    case False
    then have "event_allowed env e w" using Cons.prems(3) by (simp add: event_allowed_def)
    from server_step_ok [OF Cons.prems(1,2) this] obtain w1 where w1: "server_step env e w = Some w1" "server_inv (\<lambda>_. 0) w1"
      by blast
    then show ?thesis using False Cons.IH [OF Cons.prems(1) w1(2)] Cons.prems(3) by simp
  qed (use Cons.prems(2) in simp)
qed simp

text \<open>A server without connections.\<close>

definition empty_world :: server_world where
  "empty_world = \<lparr>rc_epoll_fd = 3, rc_active = True, rc_descriptors = 0, rc_time = 0, rc_event = 0, rc_event_end = 0,
     rc_batch = [], rc_interest = Map.empty, ssl_activated = False, sv_requests = Map.empty, sv_order = [], sv_held = \<lambda>_. 0,
     sv_writes = \<lambda>_. [], sv_sent = \<lambda>_. [], sv_log = []\<rparr>"

lemma empty_world_inv: "server_inv (\<lambda>_. 0) empty_world"
  by (simp add: server_inv_def empty_world_def write_answers_def)

text \<open>
  C3. A server runs without failing up to the first event that provokes one of two defects of the code, and to
  the end if none does: a read that delivers text ending in a space, behind which the parser reads out of bounds
  (\<open>request_line_overread\<close>), and a write that fails otherwise than with \<open>EAGAIN\<close>, whose assertion
  fails (\<open>stream_socket_write_fails\<close>). Whatever else happens - connections (in unused memory, on unused
  descriptors, for which \<open>SSL_new\<close> succeeds), input (less than 2 GiB of it waiting on a connection), output, hang-ups, in any order - and
  whatever a well-behaved program does with the requests it is given, at once or later, from
  inside of other requests or by itself: up to there no operation uses a request that has been freed,
  accesses a buffer out of bounds or fails an assertion, every event is handled in finitely many steps, and
  in between the counter of every request is the number of references the program holds
  plus one while the connection is open. A request is freed exactly when nobody refers to it.
\<close>

theorem server_safe:
  assumes "well_behaved_program env" "server_inv (\<lambda>_. 0) w" "events_possible env es w"
  shows "\<exists>w'. server_run env (takeWhile (\<lambda>e. \<not> provokes e) es) w = Some w' \<and> server_inv (\<lambda>_. 0) w' \<and>
    (\<forall>a. case sv_requests w' a of
       None \<Rightarrow> sv_held w' a = 0
     | Some r \<Rightarrow> unat (sr_ref r) = sv_held w' a + (if sr_state r = SERVER_REQUEST_CLOSED then 0 else 1) \<and> 0 < unat (sr_ref r))"
proof -
  obtain w' where w': "server_run env (takeWhile (\<lambda>e. \<not> provokes e) es) w = Some w'" "server_inv (\<lambda>_. 0) w'" using server_run_ok [OF assms] by blast
  have "case sv_requests w' a of
       None \<Rightarrow> sv_held w' a = 0
     | Some r \<Rightarrow> unat (sr_ref r) = sv_held w' a + (if sr_state r = SERVER_REQUEST_CLOSED then 0 else 1) \<and> 0 < unat (sr_ref r)" for a
    using server_invD(4,5) [OF w'(2), of a]
    by (cases "sv_requests w' a") (auto simp: request_ok_def word_unat_eq_iff)
  then show ?thesis using w' by blast
qed

text \<open>A program that answers every request at once, if there is room for the answer.\<close>

definition base_environment :: environment where
  "base_environment = \<lparr>ev_program = \<lambda>_ _. [], ev_date = ''Thu, 01 Jan 1970 00:00:00 GMT'' @ [CHR 0x00], ev_sse = True,
     ev_junk = \<lambda>_. CHR 0x00, ev_ssl_write = \<lambda>_ _. Inl 0\<rparr>"

definition greeter :: environment where
  "greeter = base_environment\<lparr>ev_program := \<lambda>_ a. [\<lambda>w.
     (let x = Reply_Ok a ''text/plain'' ''hello'' in if action_allowed base_environment w x then Some x else None)]\<rparr>"

lemma greeter_well_behaved: "well_behaved_program greeter"
proof -
  have "room greeter = room base_environment" by (simp add: fun_eq_iff room_def greeter_def)
  then show ?thesis
    by (simp add: well_behaved_program_def decisions_allowed_def sound_system_def greeter_def Let_def split: if_splits)
      (simp add: base_environment_def)
qed

theorem server_safe_witness:
  "\<exists>w'. server_run greeter [Connects 1 5, Expects 1 [Room 100, Again], Arrives 1 [''GET / HTTP/1.0'' @ crlf @ crlf]] empty_world = Some w' \<and>
    (case sv_requests w' 1 of
       None \<Rightarrow> sv_held w' 1 = 0
     | Some r \<Rightarrow> unat (sr_ref r) = sv_held w' 1 + (if sr_state r = SERVER_REQUEST_CLOSED then 0 else 1) \<and> 0 < unat (sr_ref r))"
proof -
  let ?es = "[Connects 1 5, Expects 1 [Room 100, Again], Arrives 1 [''GET / HTTP/1.0'' @ crlf @ crlf]]"
  have all: "takeWhile (\<lambda>e. \<not> provokes e) ?es = ?es" by (simp add: ends_in_space_def crlf_def)
  have "events_possible greeter ?es empty_world"
    by (simp add: fresh_connection_def empty_world_def server_socket_accept_def new_request_def stream_open_def stream_construct_def stream_socket_open_def
        descriptor_open_def reactor_add_def put_request_def live_as_def input_room_def read_answers_def write_answers_def
        STREAM_RECEIVE_SIZE_def crlf_def buffer_construct_def buffer_size_def Let_def split: option.split)
  from server_safe [OF greeter_well_behaved empty_world_inv this] show ?thesis unfolding all by blast
qed

section \<open>Shutting down\<close>

text \<open>
  C31. \<open>server_shutdown\<close> gives up the reference of every connection but leaves the connection open.
  When the program still holds a reference to its request and the peer hangs up afterwards, the
  reference is given up a second time: the request is freed while the program holds it, and
  the call with which the program gives back its reference uses freed memory.
\<close>

theorem server_shutdown_dangles:
  assumes inv: "server_inv (\<lambda>_. 0) w" and r: "sv_requests w a = Some r" "sr_state r \<noteq> SERVER_REQUEST_CLOSED"
    and one: "sv_order w = [a]" "sv_held w a = 1"
    and se: "\<not> se_is_open se" "\<not> descriptor_is_open (tm_descriptor (se_timer se))"
  shows "\<exists>w1 w2. server_shutdown t d se w = Some (se, w1) \<and> live w1 a \<and> sv_held w1 a = 1 \<and>
    connection_event env a DESCRIPTOR_CLOSE [] w1 = Some w2 \<and> connection_tls_event env a DESCRIPTOR_CLOSE ([], 0) w1 = Some w2 \<and>
    sv_requests w2 a = None \<and> sv_held w2 a = 1 \<and> server_respond env a status type body w2 = None \<and> server_release a w2 = None"
proof -
  note C = connectedD(1,2) [OF inv r]
  have ref: "unat (sr_ref r) = 2" using server_invD(5) [OF inv r(1)] r(2) one(2) by (simp add: request_ok_def)
  then have ref: "sr_ref r = 2" by (simp add: word_unat_eq_iff)
  define r1 where "r1 = r\<lparr>sr_ref := 1\<rparr>"
  define w1 where "w1 = put_request a r1 w"
  have "server_release a w = Some w1" using r(1) ref by (simp add: server_release_def w1_def r1_def)
  then have down: "server_shutdown t d se w = Some (se, w1)"
    using se one(1) by (simp add: server_shutdown_def timer_clear_def descriptor_close_def)
  have str: "wired a (sr_stream r1) w1" "secured (sr_stream r1) w1" using C by (simp_all add: r1_def w1_def wired_def)
  obtain s w2 where s: "stream_close a (sr_stream r1) (connection_world a r1 (sr_stream r1) [] (sv_writes w1 a) w1) = Some (s, w2)"
    "\<not> descriptor_is_open (sm_descriptor s)" "spares a (connection_world a r1 (sr_stream r1) [] (sv_writes w1 a) w1) w2"
    using stream_close_any [of a "sr_stream r1" "connection_world a r1 (sr_stream r1) [] (sv_writes w1 a) w1"] str by auto
  note F = spares_fields [OF s(3)]
  define r2 where "r2 = r1\<lparr>sr_stream := s, sr_state := SERVER_REQUEST_CLOSED, sr_ref := 0\<rparr>"
  obtain s' where s': "stream_destruct a s (put_request a r2 w2) = Some (s', put_request a r2 w2)"
    using stream_destruct_closed [OF s(2), of a "put_request a r2 w2"] by blast
  define w3 where "w3 = (put_request a r2 w2)\<lparr>sv_requests := (sv_requests (put_request a r2 w2))(a := None),
    sv_order := remove1 a (sv_order (put_request a r2 w2))\<rparr>"
  have rel: "server_release a (put_request a (r1\<lparr>sr_stream := s, sr_state := SERVER_REQUEST_CLOSED\<rparr>) w2) = Some w3"
    using s' by (simp add: server_release_def r2_def r1_def w3_def)
  have cb: "stream_socket_callback a DESCRIPTOR_CLOSE [] (sv_writes w1 a) (sr_stream r1) w1 =
      Some (sr_stream r1, w1, [], sv_writes w1 a, Some STREAM_CLOSE)"
    "stream_ssl_callback a DESCRIPTOR_CLOSE ([], 0) (ev_ssl_write env w1 a) (sr_stream r1) w1 = Some (sr_stream r1, w1, [], Some STREAM_CLOSE)"
    by (simp_all add: stream_socket_callback_def stream_ssl_callback_def STREAM_CLOSE_def DESCRIPTOR_CLOSE_def DESCRIPTOR_READ_def DESCRIPTOR_WRITE_def)
  have at: "sv_requests w1 a = Some r1" by (simp add: w1_def)
  from connection_event_run [OF at cb(1), of env] connection_tls_event_run [OF at cb(2)]
  have run: "connection_event env a DESCRIPTOR_CLOSE [] w1 = Some w3" "connection_tls_event env a DESCRIPTOR_CLOSE ([], 0) w1 = Some w3"
    using stream_types(2) s(1) rel r(2) by (simp_all add: server_request_callback_def server_close_def r1_def)
  have "sv_requests w3 a = None" "sv_held w3 a = 1" using one(2) F by (simp_all add: w3_def w1_def)
  moreover have "live w1 a" "sv_held w1 a = 1" using r(2) one(2) by (simp_all add: live_def w1_def r1_def)
  ultimately show ?thesis using down run
    by (intro exI [of _ w1] exI [of _ w3]) (simp add: server_respond_def server_respond_with_def server_release_def update_request_def)
qed

lemma held_world: "\<exists>w r. server_inv (\<lambda>_. 0) w \<and> sv_requests w 1 = Some r \<and> sr_state r \<noteq> SERVER_REQUEST_CLOSED \<and>
  sv_order w = [1] \<and> sv_held w 1 = 1"
proof -
  have "sv_requests empty_world 1 = None" "rc_interest empty_world 5 = None" "\<forall>fd m. rc_interest empty_world fd \<noteq> Some (m, 1)"
    by (simp_all add: empty_world_def)
  from accept_ok [OF empty_world_inv this(1) _ this(2,3)] obtain w where
    w: "server_socket_accept 1 5 empty_world = Some w" "server_inv (\<lambda>_. 0) w" by auto
  then have o: "sv_order w = [1]" "sv_held w 1 = 0"
    by (auto simp: server_socket_accept_def empty_world_def stream_open_def stream_socket_open_def descriptor_open_def reactor_add_def
        put_request_def Let_def)
  obtain r where r: "sv_requests w 1 = Some r" "sr_state r = SERVER_REQUEST_NEED_MORE_DATA"
    using w(1) by (auto simp: server_socket_accept_def empty_world_def stream_open_def stream_socket_open_def descriptor_open_def
        reactor_add_def put_request_def new_request_def Let_def)
  let ?w = "set_held 1 Suc (put_request 1 (r\<lparr>sr_ref := sr_ref r + 1\<rparr>) w)"
  have "sv_held w 1 < 2 ^ 62" using o(2) by simp
  from program_hold_ok [OF w(2) calm_idle [OF w(2)] r(1) this] r(1) have "server_inv (\<lambda>_. 0) ?w"
    by (simp add: server_hold_def)
  then show ?thesis
    using o r by (intro exI [of _ ?w] exI [of _ "r\<lparr>sr_ref := sr_ref r + 1\<rparr>"]) simp
qed

theorem server_shutdown_dangles_witness:
  "\<exists>se w w1 w2. server_inv (\<lambda>_. 0) w \<and> server_shutdown 2 3 se w = Some (se, w1) \<and>
    connection_event greeter 1 DESCRIPTOR_CLOSE [] w1 = Some w2 \<and> sv_requests w2 1 = None \<and> sv_held w2 1 = 1 \<and> server_release 1 w2 = None"
proof -
  obtain w r where w: "server_inv (\<lambda>_. 0) w" "sv_requests w 1 = Some r" "sr_state r \<noteq> SERVER_REQUEST_CLOSED"
    "sv_order w = [1]" "sv_held w 1 = 1" using held_world by blast
  define se where "se = fst (server_construct 2 3 None 0 empty_world)"
  have "\<not> se_is_open se" "\<not> descriptor_is_open (tm_descriptor (se_timer se))"
    by (simp_all add: se_def server_construct_def timer_construct_def descriptor_construct_def descriptor_is_open_def Let_def)
  from server_shutdown_dangles [OF w this, of 2 3 greeter] w(1) show ?thesis by blast
qed

end
