(* ===== verification/Server_Answers.thy ===== *)
theory Server_Answers
  imports Server_Safety
begin

text \<open>
  What the server does for its clients: a program that answers at once, requests that arrive one
  after the other on a connection in arbitrary pieces, and the answers that are sent.
\<close>

section \<open>Requests and answers\<close>

type_synonym plain_request = "string \<times> string \<times> http_field list"

text \<open>A request without a body, as bytes and as the program gets it.\<close>

definition plain_request :: "plain_request \<Rightarrow> bool" where
  "plain_request q \<longleftrightarrow> plain_token (fst q) \<and> plain_token (fst (snd q)) \<and> (\<forall>f \<in> set (snd (snd q)). plain_field f) \<and> length (snd (snd q)) \<le> 16"

definition head_text :: "plain_request \<Rightarrow> string" where
  "head_text q = request_text (fst q) (fst (snd q)) (snd (snd q))"






section \<open>Parsing\<close>

lemma head_parsed:
  assumes q: "plain_request q" and s: "take n s = head_text q @ rest" "n \<le> length s" and n: "n < 2 ^ 31"
  shows "\<exists>r. http_read_request_data sse s n 16 = Some (int (length (head_text q)), Some r) \<and>
    slice s (rq_method r) (rq_method_len r) = fst q \<and> slice s (rq_path r) (rq_path_len r) = fst (snd q) \<and>
    map (read_field s) (rq_headers r) = snd (snd q)"
proof -
  have s1: "s = request_text (fst q) (fst (snd q)) (snd (snd q)) @ (rest @ drop n s)"
    using s(1) append_take_drop_id [of n s] by (simp add: head_text_def)
  have n1: "length (head_text q) \<le> n" using arg_cong [OF s(1), of length] s(2) by simp
  have "length (request_text (fst q) (fst (snd q)) (snd (snd q))) \<le> n" using n1 by (simp add: head_text_def)
  from request_complete [OF _ _ _ _ s1 this s(2), of 16 sse] q obtain r where
    r: "parse_request sse s n 0 16 = Some (Inr (length (head_text q), r))" "slice s (rq_method r) (rq_method_len r) = fst q"
      "slice s (rq_path r) (rq_path_len r) = fst (snd q)" "map (read_field s) (rq_headers r) = snd (snd q)"
    unfolding plain_request_def head_text_def by blast
  have "length (head_text q) < 2 ^ 31" using n n1 by simp
  then have "http_read_request_data sse s n 16 = Some (int (length (head_text q)), Some r)"
    using r(1) by (simp add: http_read_request_data_def phr_parse_request_def entry_point_def to_int_small)
  then show ?thesis using r(2-4) by blast
qed

text \<open>\<open>http_read_request\<close> on a stream whose input begins with a complete request.\<close>

lemma http_read_request_complete:
  assumes q: "plain_request q" and s: "holds (sm_input s) (head_text q @ rest)" and n: "length (head_text q @ rest) < 2 ^ 31"
  shows "\<exists>r. http_read_request sse junk s 16 = Some (int (length (head_text q)), Some r) \<and>
    slice (stream_memory junk s) (rq_method r) (rq_method_len r) = fst q \<and>
    slice (stream_memory junk s) (rq_path r) (rq_path_len r) = fst (snd q) \<and>
    map (read_field (stream_memory junk s)) (rq_headers r) = snd (snd q)"
proof -
  note T = stream_memory_text [OF s, of junk]
  have "unat (buf_size (sm_input s)) = length (head_text q @ rest)" using holds_size [OF s] by (simp add: buffer_size_def)
  then show ?thesis using head_parsed [OF q T n, of sse] by (simp add: http_read_request_def)
qed


section \<open>One request\<close>

lemma set_held_back [simp]: "set_held a (\<lambda>n. n - Suc 0) (set_held a Suc w) = w"
  by (simp add: set_held_def)

lemma put_request_held: "put_request a r (set_held b f w) = set_held b f (put_request a r w)"
  by (simp add: put_request_def set_held_def)



section \<open>Many requests\<close>





text \<open>An open connection between two events, plain or encrypted, with its unread input and its unsent output.\<close>

definition idle_connection :: "bool \<Rightarrow> nat \<Rightarrow> string \<Rightarrow> string \<Rightarrow> server_world \<Rightarrow> bool" where
  "idle_connection tls a inp out w \<longleftrightarrow> write_answers (sv_writes w a) \<and>
     (\<exists>r. sv_requests w a = Some r \<and> sr_state r = SERVER_REQUEST_NEED_MORE_DATA \<and> \<not> sr_event_triggered r \<and> sr_ref r = 1 \<and>
       wired a (sr_stream r) w \<and> sm_ssl (sr_stream r) = (if tls then Live_Ssl else No_Ssl) \<and> secured (sr_stream r) w \<and>
       holds (sm_input (sr_stream r)) inp \<and> holds (sm_output (sr_stream r)) out)"


section \<open>Arrivals in pieces\<close>





definition connects_as :: "bool \<Rightarrow> nat \<Rightarrow> int \<Rightarrow> server_event" where
  "connects_as tls a fd = (if tls then Connects_Tls a fd else Connects a fd)"






lemma new_idle:
  assumes a: "write_answers (sv_writes w a)" "sv_writes w1 = sv_writes w"
    and s: "wired a s w1" "sm_ssl s = (if tls then Live_Ssl else No_Ssl)" "secured s w1" "sm_input s = buffer_construct" "sm_output s = buffer_construct"
  shows "idle_connection tls a [] [] (put_request a (new_request a s) w1)"
  using assms by (simp add: idle_connection_def new_request_def wired_def holds_empty)

lemma connection_accepted:
  assumes fresh: "fresh_connection a fd w" and a: "write_answers (sv_writes w a)"
  shows "\<exists>w'. server_step env (connects_as tls a fd) w = Some w' \<and> idle_connection tls a [] [] w' \<and> sv_sent w' = sv_sent w \<and>
    sv_log w' = sv_log w \<and> sv_writes w' = sv_writes w"
proof (cases tls)
  case False
  note fd = fresh_connectionD [OF fresh]
  let ?w = "w\<lparr>sv_order := sv_order w @ [a]\<rparr>"
  let ?s = "stream_construct a (Some ()) a"
  have "rc_interest ?w fd = None" "\<forall>fd m. rc_interest ?w fd \<noteq> Some (m, a)" "sm_ssl ?s = No_Ssl" using fd(3,4) by (simp_all add: stream_construct_def)
  from stream_socket_open_ok [OF fd(2) this, of STREAM_READ True] obtain s w1 where
    w1: "stream_open a ?s fd STREAM_READ (0, True) None ?w = Some (s, w1)" "wired a s w1" "spares a ?w w1"
    and s: "sm_ssl s = No_Ssl" "sm_input s = buffer_construct" "sm_output s = buffer_construct"
    by (auto simp: stream_construct_def)
  note F = spares_fields [OF w1(3), simplified]
  have "idle_connection tls a [] [] (put_request a (new_request a s) w1)"
    by (rule new_idle [OF a]) (use F w1(2) s False in \<open>simp_all add: secured_def\<close>)
  then show ?thesis using w1(1) F False by (simp add: connects_as_def server_socket_accept_def)
next
  case True
  note fd = fresh_connectionD [OF fresh]
  let ?w = "w\<lparr>sv_order := sv_order w @ [a]\<rparr>"
  let ?s = "stream_construct a (Some ()) a"
  have "rc_interest ?w fd = None" "\<forall>fd m. rc_interest ?w fd \<noteq> Some (m, a)" using fd(3,4) by simp_all
  from stream_ssl_opened [OF fd(2) this, of "Some ()" a STREAM_READ] obtain s w1 where
    w1: "stream_open a ?s fd STREAM_READ (0, True) (Some True) ?w = Some (s, w1)" "wired a s w1" "ssl_activated w1"
      "spares a (?w\<lparr>ssl_activated := True\<rparr>) w1"
    and s: "sm_ssl s = Live_Ssl" "sm_input s = buffer_construct" "sm_output s = buffer_construct"
    by blast
  note F = spares_fields [OF w1(4), simplified]
  have "idle_connection tls a [] [] (put_request a (new_request a s) w1)"
    by (rule new_idle [OF a]) (use F w1(2,3) s True in \<open>simp_all add: secured_def\<close>)
  then show ?thesis using w1(1) F True by (simp add: connects_as_def server_ssl_accept_def)
qed







section \<open>Output that has to wait\<close>

lemma server_close_sent:
  assumes run: "server_close a w = Some w'" and r: "sv_requests w a = Some r" "sr_state r \<noteq> SERVER_REQUEST_CLOSED"
    and str: "wired a (sr_stream r) w" "secured (sr_stream r) w"
  shows "sv_sent w' = sv_sent w"
proof -
  obtain s w1 where s: "stream_close a (sr_stream r) w = Some (s, w1)" "\<not> descriptor_is_open (sm_descriptor s)" "spares a w w1"
    using stream_close_any [OF str] by blast
  note F = spares_fields [OF s(3)]
  have D: "stream_destruct a s v = Some (s'', v') \<Longrightarrow> v' = v" for v v' :: server_world and s''
    using stream_destruct_closed [OF s(2), of a v] by auto
  then show ?thesis
    using run r s(1) F by (auto simp: server_close_def server_release_def split: if_splits bind_splits dest!: D)
qed

text \<open>
  C32. On a plain connection, when the system could not take all of an answer at once, the server hangs up as soon as it has
  taken the rest: the writable event that empties the output buffer is dispatched to the
  request, which treats every event but input as the end of the connection. The answer has been
  written completely, but the client can send no further request, and requests that are already waiting are
  dropped.
\<close>

theorem server_closes_drained:
  assumes inv: "server_inv (\<lambda>_. 0) w" and r: "sv_requests w a = Some r" "sr_state r \<noteq> SERVER_REQUEST_CLOSED" "sm_ssl (sr_stream r) = No_Ssl"
    and out: "holds (sm_output (sr_stream r)) out" "taken out (sv_writes w a) = length out"
  shows "\<exists>w'. server_step env (Drains a) w = Some w' \<and> sv_sent w' a = sv_sent w a @ out \<and> \<not> live w' a"
proof -
  note C = connectedD(1,2) [OF inv r(1,2)]
  obtain b d w1 rs where cb: "stream_socket_callback a DESCRIPTOR_WRITE [] (sv_writes w a) (sr_stream r) w =
      Some ((sr_stream r)\<lparr>sm_output := b, sm_notify := False, sm_descriptor := d\<rparr>, w1, out, rs, Some STREAM_WRITE)"
    "write_answers rs" "wired a ((sr_stream r)\<lparr>sm_output := b, sm_notify := False, sm_descriptor := d\<rparr>) w1" "spares a w w1"
    using socket_writable [OF C(1) out(1) server_invD(3) [OF inv, of a], of "[]"] out(2) by auto
  let ?s = "(sr_stream r)\<lparr>sm_output := b, sm_notify := False, sm_descriptor := d\<rparr>"
  define w2 where "w2 = connection_world a r ?s out rs w1"
  have sec: "secured ?s w1" using r(3) by (simp add: secured_def)
  have run: "server_step env (Drains a) w = server_close a w2"
    using connection_event_run [OF r(1) cb(1), of env] stream_types(1) by (simp add: server_request_callback_def w2_def)
  obtain w' where w': "server_step env (Drains a) w = Some w'" "\<And>r'. sv_requests w' a = Some r' \<Longrightarrow> sr_state r' = SERVER_REQUEST_CLOSED"
    using connection_lost [OF inv r(1,2) cb(3) sec cb(4,2) stream_types(1), of env out] connection_event_run [OF r(1) cb(1), of env] by auto
  have "sv_sent w' = sv_sent w2"
    by (rule server_close_sent [where r = "r\<lparr>sr_stream := ?s\<rparr>"]) (use w'(1) run r(2) cb(3) sec in \<open>simp_all add: w2_def\<close>)
  then have "sv_sent w' a = sv_sent w a @ out" using spares_fields(5) [OF cb(4)] by (simp add: w2_def connection_world_def)
  moreover have "\<not> live w' a" using w'(2) by (auto simp: live_def split: option.splits)
  ultimately show ?thesis using w'(1) by blast
qed

lemma waiting_world: "\<exists>w r. server_inv (\<lambda>_. 0) w \<and> sv_requests w 1 = Some r \<and> sr_state r \<noteq> SERVER_REQUEST_CLOSED \<and> sm_ssl (sr_stream r) = No_Ssl \<and>
  holds (sm_output (sr_stream r)) ''hello'' \<and> sv_writes w 1 = [Room 10] \<and> sv_sent w 1 = []"
proof -
  let ?w0 = "empty_world\<lparr>sv_writes := (sv_writes empty_world)(1 := [Room 10])\<rparr>"
  have inv0: "server_inv (\<lambda>_. 0) ?w0" using server_step_ok [OF greeter_well_behaved empty_world_inv, of "Expects 1 [Room 10]"]
    by (simp add: write_answers_def)
  have w0: "fresh_connection 1 5 ?w0" "write_answers (sv_writes ?w0 1)" "sv_sent ?w0 1 = []"
    by (simp_all add: fresh_connection_def empty_world_def write_answers_def)
  obtain w1 where w1: "server_socket_accept 1 5 ?w0 = Some w1" "server_inv (\<lambda>_. 0) w1"
    using accept_ok [OF inv0 fresh_connectionD [OF w0(1)]] by auto
  from connection_accepted [where tls = False and env = greeter, OF w0(1,2)] w1(1) have idle: "idle_connection False 1 [] [] w1" "sv_sent w1 = sv_sent ?w0" "sv_writes w1 = sv_writes ?w0"
    by (auto simp: connects_as_def)
  obtain r where r: "sv_requests w1 1 = Some r" "sr_state r = SERVER_REQUEST_NEED_MORE_DATA" "wired 1 (sr_stream r) w1"
    "holds (sm_input (sr_stream r)) []" "holds (sm_output (sr_stream r)) []" "\<not> sr_event_triggered r" "sm_ssl (sr_stream r) = No_Ssl" "secured (sr_stream r) w1"
    using idle(1) by (auto simp: idle_connection_def)
  obtain b where b: "stream_write (sr_stream r) ''hello'' = Some ((sr_stream r)\<lparr>sm_output := b\<rparr>)" "holds b ([] @ ''hello'')"
    using stream_write_ok [OF r(5), of "''hello''"] by auto
  define r1 where "r1 = r\<lparr>sr_stream := (sr_stream r)\<lparr>sm_output := b\<rparr>\<rparr>"
  have "connected w1 1 r1"
    by (rule connectedI [where inp = "[]" and out = "''hello''"]) (use r b(2) in \<open>simp_all add: r1_def wired_def\<close>)
  then have "request_ok 0 w1 1 r1" using server_invD(5) [OF w1(2) r(1)] r(2) by (simp add: request_ok_def r1_def)
  from inv_put [OF w1(2) r(1) this] have "server_inv (\<lambda>_. 0) (put_request 1 r1 w1)" by (simp add: fun_upd_idem)
  moreover have "sv_writes w1 1 = [Room 10]" using idle(3) by simp
  ultimately show ?thesis
    using idle(2) r(2,7) b(2) w0(3) by (intro exI [of _ "put_request 1 r1 w1"] exI [of _ r1]) (simp add: r1_def)
qed

theorem server_closes_drained_witness:
  "\<exists>w w'. server_inv (\<lambda>_. 0) w \<and> live w 1 \<and> server_step greeter (Drains 1) w = Some w' \<and> sv_sent w' 1 = ''hello'' \<and> \<not> live w' 1"
proof -
  obtain w r where w: "server_inv (\<lambda>_. 0) w" "sv_requests w 1 = Some r" "sr_state r \<noteq> SERVER_REQUEST_CLOSED"
    "sm_ssl (sr_stream r) = No_Ssl" "holds (sm_output (sr_stream r)) ''hello''" "sv_writes w 1 = [Room 10]" "sv_sent w 1 = []"
    using waiting_world by blast
  have "taken ''hello'' (sv_writes w 1) = length ''hello''" using w(6) by simp
  from server_closes_drained [OF w(1-5) this, of greeter] w show ?thesis by (auto simp: live_def)
qed

end
