(* ===== verification/Server_Loop.thy ===== *)
theory Server_Loop
  imports Server_Safety
begin

text \<open>
  The HTTP server inside of the event loop: the handlers of \<^verbatim>\<open>core.c\<close> are the epoll handlers of the
  descriptors of the server (its listening socket, its timer, and the streams of its connections), called through
  \<open>descriptor_callback\<close> as in \<^verbatim>\<open>descriptor.c\<close>, and handlers of the program. What the system answers is a
  function of the world at the time of the call. The world of the loop is that of the server with the
  server itself and the array of the date.
\<close>

section \<open>The world\<close>

record loop_world = server_world +
  lw_server :: server
  lw_date :: string

definition in_server :: "(server_world \<Rightarrow> server_world option) \<Rightarrow> loop_world \<Rightarrow> loop_world option" where
  "in_server f w = map_option (\<lambda>v. server_world.extend v (server_world.more w)) (f (server_world.truncate w))"

text \<open>
  What \<open>read\<close>, \<open>SSL_read\<close> and \<open>write\<close> answer on a connection, what \<open>accept4\<close> answers until it fails
  (with the address of the new list item, and whether \<open>SSL_new\<close> succeeds), the expirations read from the
  timer, the time of day; the addresses of the handlers of the program and what they do.
\<close>

record system =
  sy_reads :: "server_world \<Rightarrow> nat \<Rightarrow> string list"
  sy_tls_reads :: "server_world \<Rightarrow> nat \<Rightarrow> string list \<times> int"
  sy_writes :: "server_world \<Rightarrow> nat \<Rightarrow> write_answer list"
  sy_accepts :: "server_world \<Rightarrow> (nat \<times> int \<times> bool) list"
  sy_ticks :: "server_world \<Rightarrow> u64 list"
  sy_time :: "server_world \<Rightarrow> broken_time"
  sy_own :: "nat \<Rightarrow> bool"
  sy_decides :: "server_world \<Rightarrow> nat \<Rightarrow> decision list"

section \<open>The callbacks\<close>

definition system_writes :: "system \<Rightarrow> server_world \<Rightarrow> server_world" where
  "system_writes sys w = w\<lparr>sv_writes := sy_writes sys w\<rparr>"

definition connection_call :: "system \<Rightarrow> environment \<Rightarrow> stream_callback \<Rightarrow> reactor_event \<Rightarrow> server_world \<Rightarrow> server_world option" where
  "connection_call sys env c ev w =
     (let a = re_state ev; type = re_type ev; w = system_writes sys w in
      case c of
        Socket_Callback \<Rightarrow> connection_event env a type (if type = DESCRIPTOR_READ then sy_reads sys w a else []) w
      | Ssl_Callback \<Rightarrow> connection_tls_event env a type (if type = DESCRIPTOR_READ then sy_tls_reads sys w a else ([], 0)) w)"

definition listener_call :: "system \<Rightarrow> server_callback \<Rightarrow> reactor_event \<Rightarrow> server_world \<Rightarrow> server_world option" where
  "listener_call sys c ev w =
     (if re_type ev = DESCRIPTOR_READ then
        (case c of
           Socket_Descriptor_Callback \<Rightarrow> server_socket_descriptor_callback (map (\<lambda>(a, fd, created). (a, fd)) (sy_accepts sys w)) w
         | Ssl_Descriptor_Callback \<Rightarrow> server_ssl_descriptor_callback (sy_accepts sys w) w)
      else None)"

definition date_call :: "system \<Rightarrow> environment \<Rightarrow> unit \<Rightarrow> reactor_event \<Rightarrow> loop_world \<Rightarrow> loop_world option" where
  "date_call sys env c ev w =
     map_option (\<lambda>env. w\<lparr>lw_date := ev_date env\<rparr>) (server_timer_callback (re_type ev) (sy_time sys (server_world.truncate w)) env)"

definition timer_call :: "system \<Rightarrow> environment \<Rightarrow> unit \<Rightarrow> reactor_event \<Rightarrow> loop_world \<Rightarrow> loop_world option" where
  "timer_call sys env c ev w =
     (case timer_callback (sy_ticks sys (server_world.truncate w)) of
        None \<Rightarrow> None
      | Some (type, n) \<Rightarrow> reactor_dispatch (date_call sys env) (tm_handler (se_timer (lw_server w))) type (unat n) w)"

definition own_call :: "system \<Rightarrow> environment \<Rightarrow> nat \<Rightarrow> server_world \<Rightarrow> server_world option" where
  "own_call sys env a w =
     (let w = system_writes sys w in actions_with (server_request_update env) env (sy_decides sys w a) w)"

text \<open>
  \<open>d\<close> and \<open>t\<close> are the addresses of the descriptor and of the timer inside of the server; every other
  address is that of the descriptor in the stream of a request, which is read when its event is dispatched.
\<close>

definition current :: "environment \<Rightarrow> loop_world \<Rightarrow> environment" where
  "current env w = env\<lparr>ev_date := lw_date w\<rparr>"

definition loop_dispatch :: "system \<Rightarrow> environment \<Rightarrow> nat \<Rightarrow> nat \<Rightarrow> nat \<Rightarrow> nat \<Rightarrow> loop_world \<Rightarrow> loop_world option" where
  "loop_dispatch sys env d t a type w =
     (if a = d then reactor_dispatch (\<lambda>c ev. in_server (listener_call sys c ev)) (de_handler (se_descriptor (lw_server w))) type 0 w
      else if a = t then reactor_dispatch (timer_call sys env) (de_handler (tm_descriptor (se_timer (lw_server w)))) type 0 w
      else do {
        r \<leftarrow> sv_requests w a;
        reactor_dispatch (\<lambda>c ev. in_server (connection_call sys (current env w) c ev)) (de_handler (sm_descriptor (sr_stream r))) type 0 w })"

definition loop_signal :: "system \<Rightarrow> environment \<Rightarrow> nat \<Rightarrow> nat \<Rightarrow> nat \<Rightarrow> nat \<Rightarrow> u32 \<Rightarrow> nat \<Rightarrow> loop_world \<Rightarrow> loop_world option" where
  "loop_signal sys env d t a i events type w = do {
     e \<leftarrow> event_at w i;
     (if ev_events e AND events \<noteq> 0 then loop_dispatch sys env d t a type w else Some w) }"

datatype loop_callback = Descriptor_Callback | Own_Callback

definition loop_call :: "system \<Rightarrow> environment \<Rightarrow> nat \<Rightarrow> nat \<Rightarrow> loop_callback \<Rightarrow> reactor_event \<Rightarrow> loop_world \<Rightarrow> loop_world option" where
  "loop_call sys env d t c ev w =
     (case c of
        Descriptor_Callback \<Rightarrow>
          (if re_type ev = REACTOR_EPOLL_EVENT then do {
             w \<leftarrow> loop_signal sys env d t (re_state ev) (re_data ev) EPOLLIN DESCRIPTOR_READ w;
             w \<leftarrow> loop_signal sys env d t (re_state ev) (re_data ev) EPOLLOUT DESCRIPTOR_WRITE w;
             loop_signal sys env d t (re_state ev) (re_data ev) (NOT (EPOLLIN OR EPOLLOUT)) DESCRIPTOR_CLOSE w }
           else None)
      | Own_Callback \<Rightarrow> in_server (own_call sys (current env w) (re_state ev)) w)"

definition loop_handler_of :: "unit handler \<Rightarrow> loop_callback handler" where
  "loop_handler_of h = \<lparr>h_callback = map_option (\<lambda>_. Descriptor_Callback) (h_callback h), h_state = h_state h\<rparr>"

definition loop_handler :: "system \<Rightarrow> nat \<Rightarrow> nat \<Rightarrow> loop_world \<Rightarrow> nat \<Rightarrow> loop_callback handler option" where
  "loop_handler sys d t w a =
     (if a = d then Some (loop_handler_of (de_epoll_handler (se_descriptor (lw_server w))))
      else if a = t then Some (loop_handler_of (de_epoll_handler (tm_descriptor (se_timer (lw_server w)))))
      else if sy_own sys a then Some \<lparr>h_callback = Some Own_Callback, h_state = a\<rparr>
      else map_option (\<lambda>r. loop_handler_of (de_epoll_handler (sm_descriptor (sr_stream r)))) (sv_requests w a))"

definition server_turns :: "system \<Rightarrow> environment \<Rightarrow> nat \<Rightarrow> nat \<Rightarrow> (nat \<Rightarrow> loop_world \<Rightarrow> nat epoll_result) \<Rightarrow> loop_world \<Rightarrow> nat
    \<Rightarrow> loop_world option" where
  "server_turns sys env d t wait = reactor_turns (loop_call sys env d t) (loop_handler sys d t) wait 0"

section \<open>The invariant\<close>

definition others :: "system \<Rightarrow> nat \<Rightarrow> nat \<Rightarrow> nat set" where
  "others sys d t = insert d (insert t (Collect (sy_own sys)))"

text \<open>The handlers of the server itself are not requests, and only they and requests are known to the reactor.\<close>

definition undisturbed :: "nat set \<Rightarrow> server_world \<Rightarrow> bool" where
  "undisturbed S w \<longleftrightarrow> (\<forall>a. sv_requests w a = None \<longrightarrow> a \<notin> S \<longrightarrow> forgotten w a) \<and> (\<forall>a\<in>S. sv_requests w a = None)"

definition listening :: "nat \<Rightarrow> nat \<Rightarrow> server \<Rightarrow> bool" where
  "listening d t se \<longleftrightarrow>
     de_epoll_handler (se_descriptor se) = \<lparr>h_callback = Some (), h_state = d\<rparr> \<and>
     de_epoll_handler (tm_descriptor (se_timer se)) = \<lparr>h_callback = Some (), h_state = t\<rparr>"

definition loop_inv :: "system \<Rightarrow> nat \<Rightarrow> nat \<Rightarrow> loop_world \<Rightarrow> bool" where
  "loop_inv sys d t w \<longleftrightarrow> server_inv (\<lambda>_. 0) (server_world.truncate w) \<and> undisturbed (others sys d t) (server_world.truncate w) \<and>
     listening d t (lw_server w) \<and> 29 \<le> length (lw_date w)"

text \<open>
  What is relied on: the program keeps its contract; the system answers as it is documented to; a new list item
  is at an address that is not in use, and an accepted file descriptor is one that is not open; a timer that is
  reported readable delivers positive numbers of expirations, at least one; less than 2 GiB of input wait on a connection.
\<close>

primrec accepts_allowed :: "nat set \<Rightarrow> bool \<Rightarrow> (nat \<times> int \<times> bool) list \<Rightarrow> server_world \<Rightarrow> bool" where
  "accepts_allowed S tls [] w \<longleftrightarrow> True"
| "accepts_allowed S tls (x # xs) w \<longleftrightarrow> fst x \<notin> S \<and> sv_requests w (fst x) = None \<and> 0 \<le> fst (snd x) \<and>
     rc_interest w (fst (snd x)) = None \<and> (tls \<longrightarrow> snd (snd x)) \<and>
     (case (if tls then server_ssl_accept (fst x) (fst (snd x)) True w else server_socket_accept (fst x) (fst (snd x)) w) of
        None \<Rightarrow> True | Some w' \<Rightarrow> accepts_allowed S tls xs w')"

definition plain_input :: "server_world \<Rightarrow> nat \<Rightarrow> string list \<Rightarrow> bool" where
  "plain_input w a rs \<longleftrightarrow> read_answers rs \<and>
     (delivered rs \<noteq> [] \<longrightarrow> input_room w a (length (delivered rs)))"

definition tls_input :: "server_world \<Rightarrow> nat \<Rightarrow> string list \<Rightarrow> bool" where
  "tls_input w a rs \<longleftrightarrow> (\<forall>xs \<in> set rs. xs \<noteq> [] \<and> length xs \<le> 16384) \<and>
     (concat rs \<noteq> [] \<longrightarrow> input_room w a (length (concat rs)))"

definition ticks :: "u64 list \<Rightarrow> bool" where
  "ticks ns \<longleftrightarrow> ns \<noteq> [] \<and> (\<forall>n \<in> set ns. n \<noteq> 0) \<and> sum_list (map unat ns) < 2 ^ 64"

definition sound_answers :: "system \<Rightarrow> nat \<Rightarrow> nat \<Rightarrow> bool" where
  "sound_answers sys d t \<longleftrightarrow>
     (\<forall>w a. plain_input w a (sy_reads sys w a)) \<and> (\<forall>w a. tls_input w a (fst (sy_tls_reads sys w a))) \<and>
     (\<forall>w. ticks (sy_ticks sys w)) \<and>
     (\<forall>w tls. accepts_allowed (others sys d t) tls (sy_accepts sys w) w) \<and>
     (\<forall>w. tm_wday (sy_time sys w) < 7 \<and> tm_mon (sy_time sys w) < 12 \<and> 1000 \<le> tm_year (sy_time sys w) \<and> tm_year (sy_time sys w) < 10000)"

text \<open>
  The system does not provoke the two defects of \<open>provokes\<close>: no read delivers text that ends in a space, and no
  write fails otherwise than with \<open>EAGAIN\<close>.
\<close>

definition gentle_system :: "system \<Rightarrow> bool" where
  "gentle_system sys \<longleftrightarrow> (\<forall>w a. \<not> ends_in_space (delivered (sy_reads sys w a)) \<and> \<not> ends_in_space (concat (fst (sy_tls_reads sys w a))) \<and>
     write_answers (sy_writes sys w a))"

definition sound_setting :: "system \<Rightarrow> environment \<Rightarrow> nat \<Rightarrow> nat \<Rightarrow> bool" where
  "sound_setting sys env d t \<longleftrightarrow> well_behaved_program env \<and> (\<forall>w a. decisions_allowed env (sy_decides sys w a)) \<and>
     sound_answers sys d t \<and> d \<noteq> t \<and> \<not> sy_own sys d \<and> \<not> sy_own sys t"

definition gentle_setting :: "system \<Rightarrow> environment \<Rightarrow> nat \<Rightarrow> nat \<Rightarrow> bool" where
  "gentle_setting sys env d t \<longleftrightarrow> sound_setting sys env d t \<and> gentle_system sys"

text \<open>
  \<open>epoll_wait\<close> is interrupted or reports at most 32 events, of handlers that it watches something for; on the
  listening socket and on the timer it reports nothing but input.
\<close>

definition sound_wait :: "nat \<Rightarrow> nat \<Rightarrow> loop_world \<Rightarrow> nat epoll_result \<Rightarrow> bool" where
  "sound_wait d t w result \<longleftrightarrow> (case result of Interrupted \<Rightarrow> True | Failed \<Rightarrow> False
     | Ready events \<Rightarrow> length events \<le> REACTOR_MAX_EVENTS \<and>
         (\<forall>(m, a) \<in> set events. (\<exists>fd n. rc_interest w fd = Some (n, a)) \<and> (a = d \<or> a = t \<longrightarrow> m = EPOLLIN)))"

section \<open>Operations of the server in the world of the loop\<close>

lemma truncate_simps [simp]:
  "rc_interest (server_world.truncate w) = rc_interest w" "rc_batch (server_world.truncate w) = rc_batch w"
  "rc_event (server_world.truncate w) = rc_event w" "rc_event_end (server_world.truncate w) = rc_event_end w"
  "ssl_activated (server_world.truncate w) = ssl_activated w" "sv_requests (server_world.truncate w) = sv_requests w"
  "sv_order (server_world.truncate w) = sv_order w" "sv_held (server_world.truncate w) = sv_held w"
  "sv_writes (server_world.truncate w) = sv_writes w"
  by (simp_all add: server_world.defs)

lemma extend_simps [simp]:
  "rc_interest (server_world.extend v m) = rc_interest v" "rc_batch (server_world.extend v m) = rc_batch v"
  "rc_event (server_world.extend v m) = rc_event v" "rc_event_end (server_world.extend v m) = rc_event_end v"
  "sv_requests (server_world.extend v m) = sv_requests v" "server_world.truncate (server_world.extend v m) = v"
  "server_world.more (server_world.extend v m) = m"
  by (simp_all add: server_world.defs)

lemma extend_server [simp]:
  "lw_server (server_world.extend v (server_world.more w)) = lw_server w"
  "lw_date (server_world.extend v (server_world.more w)) = lw_date w" for w :: loop_world
  by (cases w, simp add: server_world.defs)+

lemma truncate_updates [simp]:
  "server_world.truncate (w\<lparr>lw_date := x\<rparr>) = server_world.truncate w" for w :: loop_world
  by (cases w) (simp add: server_world.defs)

text \<open>The reactor moves on: nothing that was forgotten is recalled.\<close>

lemma inv_reactor:
  assumes inv: "server_inv X w" and un: "undisturbed S w"
    and same: "rc_interest w' = rc_interest w" "ssl_activated w' = ssl_activated w" "sv_requests w' = sv_requests w"
      "sv_order w' = sv_order w" "sv_held w' = sv_held w" "\<And>a. write_answers (sv_writes w' a)"
    and f: "\<And>a. forgotten w a \<Longrightarrow> forgotten w' a"
  shows "server_inv X w'" "undisturbed S w'"
proof -
  have "request_ok x w' a r" if "request_ok x w a r" for x a r
    using that f same by (auto simp: request_ok_def connected_def wired_def secured_def)
  then have "case sv_requests w' a of None \<Rightarrow> sv_held w' a = 0 \<and> X a = 0 | Some r \<Rightarrow> request_ok (X a) w' a r" for a
    using server_invD(4,5) [OF inv, of a] same by (cases "sv_requests w a") simp_all
  then show "server_inv X w'" using server_invD(1,2) [OF inv] same unfolding server_inv_def by simp
  show "undisturbed S w'" using un f same unfolding undisturbed_def by simp
qed

lemma undisturbed_tidy:
  assumes "undisturbed S w" "tidy w w'" "dom (sv_requests w') \<subseteq> dom (sv_requests w) \<union> N" "N \<inter> S = {}"
  shows "undisturbed S w'"
  unfolding undisturbed_def
proof (intro conjI allI impI ballI)
  fix a
  assume a: "sv_requests w' a = None" "a \<notin> S"
  show "forgotten w' a"
  proof (cases "sv_requests w a")
    case None
    then have "forgotten w a" using assms(1) a by (simp add: undisturbed_def)
    then show ?thesis using assms(2) None a(1) silent_fades [of w a w'] unfolding tidy_def forgotten_def by simp
  next
    case (Some r)
    then show ?thesis using assms(2) a(1) unfolding tidy_def by simp
  qed
next
  fix a
  assume a: "a \<in> S"
  then have "a \<notin> dom (sv_requests w)" "a \<notin> N" using assms(1,4) by (auto simp: undisturbed_def)
  then show "sv_requests w' a = None" using assms(3) by blast
qed

definition advanced :: "system \<Rightarrow> nat \<Rightarrow> nat \<Rightarrow> loop_world \<Rightarrow> loop_world \<Rightarrow> bool" where
  "advanced sys d t w w' \<longleftrightarrow> loop_inv sys d t w' \<and> fades w w'"

lemma advanced_refl: "loop_inv sys d t w \<Longrightarrow> advanced sys d t w w"
  by (simp add: advanced_def)

lemma advanced_trans: "advanced sys d t u v \<Longrightarrow> advanced sys d t v w \<Longrightarrow> advanced sys d t u w"
  using fades_trans [of u v w] by (simp add: advanced_def)

lemma in_server_ok:
  assumes inv: "loop_inv sys d t w"
    and f: "\<exists>v. f (server_world.truncate w) = Some v \<and> server_inv (\<lambda>_. 0) v \<and> undisturbed (others sys d t) v \<and>
      fades (server_world.truncate w) v"
  shows "\<exists>w'. in_server f w = Some w' \<and> advanced sys d t w w'"
proof -
  obtain v where v: "f (server_world.truncate w) = Some v" "server_inv (\<lambda>_. 0) v" "undisturbed (others sys d t) v"
    "fades (server_world.truncate w) v" using f by auto
  moreover have "fades w (server_world.extend v (server_world.more w))" using v(4) by (simp add: fades_def)
  ultimately show ?thesis using inv by (simp add: in_server_def advanced_def loop_inv_def)
qed

lemma in_server_shrinks:
  assumes inv: "loop_inv sys d t w"
    and f: "\<exists>v. f (server_world.truncate w) = Some v \<and> server_inv (\<lambda>_. 0) v \<and> shrinks (server_world.truncate w) v"
  shows "\<exists>w'. in_server f w = Some w' \<and> advanced sys d t w w'"
proof -
  obtain v where v: "f (server_world.truncate w) = Some v" "server_inv (\<lambda>_. 0) v" "shrinks (server_world.truncate w) v" using f by blast
  then have "undisturbed (others sys d t) v" "fades (server_world.truncate w) v"
    using undisturbed_tidy [of "others sys d t" "server_world.truncate w" v "{}"] inv by (auto simp: loop_inv_def shrinks_def tidy_fades)
  then show ?thesis using in_server_ok [OF inv, of f] v by blast
qed

section \<open>The callbacks keep the invariant\<close>

lemma response_text_date: "length x = length y \<Longrightarrow> length (response_text status x type body) = length (response_text status y type body)"
  by (simp add: response_text_def field_text_def)

lemma well_behaved_date:
  assumes "well_behaved_program env" "29 \<le> length x"
  shows "well_behaved_program (env\<lparr>ev_date := x\<rparr>)" "decisions_allowed (env\<lparr>ev_date := x\<rparr>) fs = decisions_allowed env fs"
proof -
  have "29 \<le> length (ev_date env)" using assms(1) by (simp add: well_behaved_program_def sound_system_def)
  then have "length (server_date x) = length (server_date (ev_date env))" using assms(2) by (simp add: server_date_def)
  then have "length (response_text s (server_date x) ty b) = length (response_text s (server_date (ev_date env)) ty b)" for s ty b
    by (rule response_text_date)
  then have room: "room (env\<lparr>ev_date := x\<rparr>) = room env" by (simp add: fun_eq_iff room_def)
  have "action_allowed (env\<lparr>ev_date := x\<rparr>) w act = action_allowed env w act" for w act by (cases act) (simp_all add: room)
  then have d: "decisions_allowed (env\<lparr>ev_date := x\<rparr>) fs = decisions_allowed env fs" for fs by (simp add: decisions_allowed_def)
  then show "decisions_allowed (env\<lparr>ev_date := x\<rparr>) fs = decisions_allowed env fs" .
  show "well_behaved_program (env\<lparr>ev_date := x\<rparr>)"
    using assms d by (simp add: well_behaved_program_def sound_system_def)
qed

lemma system_writes_ok:
  assumes "server_inv (\<lambda>_. 0) w" "\<forall>a. write_answers (sy_writes sys w a)"
  shows "server_inv (\<lambda>_. 0) (system_writes sys w)" "shrinks w (system_writes sys w)"
    "sv_requests (system_writes sys w) = sv_requests w"
proof -
  have "request_ok x (system_writes sys w) a r = request_ok x w a r" for x a r
    by (simp add: system_writes_def request_ok_def connected_def wired_def)
  then have "case sv_requests (system_writes sys w) a of None \<Rightarrow> sv_held (system_writes sys w) a = 0 \<and> (0 :: nat) = 0
      | Some r \<Rightarrow> request_ok 0 (system_writes sys w) a r" for a
    using server_invD(4,5) [OF assms(1), of a] by (cases "sv_requests w a") (simp_all add: system_writes_def)
  then show "server_inv (\<lambda>_. 0) (system_writes sys w)"
    using server_invD(1,2) [OF assms(1)] assms(2) unfolding server_inv_def by (simp add: system_writes_def)
  show "shrinks w (system_writes sys w)"
    by (rule keeps_shrinks [where A = "{}", OF keeps_same]) (simp_all add: system_writes_def)
qed (simp add: system_writes_def)

lemma descriptor_types: "DESCRIPTOR_WRITE \<noteq> (DESCRIPTOR_READ :: nat)" "DESCRIPTOR_CLOSE \<noteq> (DESCRIPTOR_READ :: nat)"
  by (simp_all add: DESCRIPTOR_WRITE_def DESCRIPTOR_READ_def DESCRIPTOR_CLOSE_def)

lemma connection_call_ok:
  assumes wb: "well_behaved_program env" and sound: "sound_answers sys d t" and gentle: "gentle_system sys"
    and inv: "server_inv (\<lambda>_. 0) w" and r: "sv_requests w a = Some r" "sr_state r \<noteq> SERVER_REQUEST_CLOSED"
    and type: "type = DESCRIPTOR_READ \<or> type = DESCRIPTOR_WRITE \<or> type = DESCRIPTOR_CLOSE"
  shows "\<exists>c. de_handler (sm_descriptor (sr_stream r)) = \<lparr>h_callback = Some c, h_state = a\<rparr> \<and>
    (\<exists>w'. connection_call sys env c \<lparr>re_type = type, re_state = a, re_data = 0\<rparr> w = Some w' \<and> server_inv (\<lambda>_. 0) w' \<and> shrinks w w')"
proof -
  let ?v = "system_writes sys w"
  have writes: "\<forall>b. write_answers (sy_writes sys w b)" using gentle by (simp add: gentle_system_def)
  note V = system_writes_ok [OF inv writes]
  have step: "\<exists>w'. server_step env e ?v = Some w' \<and> server_inv (\<lambda>_. 0) w' \<and> shrinks w w'"
    if "event_allowed env e ?v" "newcomer e = {}" for e
    using server_step_ok [OF wb V(1) that(1)] that(2) shrinks_trans [OF V(2)] by (auto simp: shrinks_def)
  have plain: "plain_input ?v a (sy_reads sys ?v a)" and tls: "tls_input ?v a (fst (sy_tls_reads sys ?v a))"
    using sound by (simp_all add: sound_answers_def)
  have spaces: "\<not> ends_in_space (delivered (sy_reads sys ?v a))" "\<not> ends_in_space (concat (fst (sy_tls_reads sys ?v a)))"
    using gentle by (simp_all add: gentle_system_def)
  have room: "input_room ?v a 0"
    using connectedD(3) [OF inv r] holds_size r(1) V(3) by (fastforce simp: input_room_def)
  note C = connectedD(1,2) [OF inv r]
  from C(2) have "sm_ssl (sr_stream r) = No_Ssl \<or> sm_ssl (sr_stream r) = Live_Ssl" by (auto simp: secured_def)
  then show ?thesis
  proof
    assume no: "sm_ssl (sr_stream r) = No_Ssl"
    then have "live_as No_Ssl ?v a" using r V(3) by (simp add: live_as_def)
    then have "event_allowed env (Arrives a (sy_reads sys ?v a)) ?v" "event_allowed env (Drains a) ?v" "event_allowed env (Hangs a) ?v"
      using plain spaces(1) room by (auto simp: plain_input_def)
    from step [OF this(1)] step [OF this(2)] step [OF this(3)]
    have "\<exists>w'. connection_call sys env Socket_Callback \<lparr>re_type = type, re_state = a, re_data = 0\<rparr> w = Some w' \<and>
        server_inv (\<lambda>_. 0) w' \<and> shrinks w w'"
      using type descriptor_types by (auto simp: connection_call_def Let_def)
    then show ?thesis using C(1) no by (simp add: wired_def stream_handlers_def)
  next
    assume live: "sm_ssl (sr_stream r) = Live_Ssl"
    obtain rs err where reads: "sy_tls_reads sys ?v a = (rs, err)" by (cases "sy_tls_reads sys ?v a")
    have "live_as Live_Ssl ?v a" using live r V(3) by (simp add: live_as_def)
    then have "event_allowed env (Arrives_Tls a rs err) ?v" "event_allowed env (Drains_Tls a) ?v" "event_allowed env (Hangs_Tls a) ?v"
      using tls spaces(2) reads room by (cases "concat rs = []", simp_all add: tls_input_def del: concat_eq_Nil_conv)
    from step [OF this(1)] step [OF this(2)] step [OF this(3)]
    have "\<exists>w'. connection_call sys env Ssl_Callback \<lparr>re_type = type, re_state = a, re_data = 0\<rparr> w = Some w' \<and>
        server_inv (\<lambda>_. 0) w' \<and> shrinks w w'"
      using type descriptor_types reads by (auto simp: connection_call_def Let_def)
    then show ?thesis using C(1) live by (simp add: wired_def stream_handlers_def)
  qed
qed

lemma own_call_ok:
  assumes wb: "well_behaved_program env" and gentle: "gentle_system sys"
    and inv: "server_inv (\<lambda>_. 0) w" and dec: "\<forall>w. decisions_allowed env (sy_decides sys w a)"
  shows "\<exists>w'. own_call sys env a w = Some w' \<and> server_inv (\<lambda>_. 0) w' \<and> shrinks w w'"
proof -
  let ?v = "system_writes sys w"
  have writes: "\<forall>b. write_answers (sy_writes sys w b)" using gentle by (simp add: gentle_system_def)
  note V = system_writes_ok [OF inv writes]
  have "event_allowed env (Decides (sy_decides sys ?v a)) ?v" using dec by simp
  from server_step_ok [OF wb V(1) this] show ?thesis
    using shrinks_trans [OF V(2)] by (auto simp: own_call_def Let_def shrinks_def)
qed

text \<open>The accepted connections are at addresses of their own.\<close>

lemma fresh_undisturbed:
  assumes "undisturbed S w" "a \<notin> S" "sv_requests w a = None" "0 \<le> fd" "rc_interest w fd = None"
  shows "fresh_connection a fd w"
  using assms by (auto simp: undisturbed_def fresh_connection_def forgotten_def ran_def)

lemma accepted_undisturbed: "undisturbed S w \<Longrightarrow> accepted a w w' \<Longrightarrow> a \<notin> S \<Longrightarrow> undisturbed S w'"
  using undisturbed_tidy [of S w w' "{a}"] by (auto simp: accepted_def)

lemma socket_accepts_ok:
  assumes "server_inv X w" "undisturbed S w" "accepts_allowed S False xs w"
  shows "\<exists>w'. server_socket_descriptor_callback (map (\<lambda>(a, fd, created). (a, fd)) xs) w = Some w' \<and> server_inv X w' \<and>
    undisturbed S w' \<and> fades w w'"
  using assms
proof (induction xs arbitrary: w)
  case (Cons x xs)
  obtain a fd c where x: "x = (a, fd, c)" by (cases x)
  then have "fresh_connection a fd w" using fresh_undisturbed [OF Cons.prems(2)] Cons.prems(3) by simp
  from accept_ok [OF Cons.prems(1) fresh_connectionD [OF this]] obtain v where
    v: "server_socket_accept a fd w = Some v" "server_inv X v" "accepted a w v" by blast
  have "undisturbed S v" using accepted_undisturbed [OF Cons.prems(2) v(3)] Cons.prems(3) x by simp
  moreover have "accepts_allowed S False xs v" using Cons.prems(3) v(1) x by simp
  ultimately obtain w' where "server_socket_descriptor_callback (map (\<lambda>(a, fd, created). (a, fd)) xs) v = Some w'" "server_inv X w'"
    "undisturbed S w'" "fades v w'" using Cons.IH [OF v(2)] by blast
  then show ?case using v(1,3) x fades_trans [of w v w'] by (auto simp: accepted_def tidy_fades)
qed simp

lemma ssl_accepts_ok:
  assumes "server_inv X w" "undisturbed S w" "accepts_allowed S True xs w"
  shows "\<exists>w'. server_ssl_descriptor_callback xs w = Some w' \<and> server_inv X w' \<and> undisturbed S w' \<and> fades w w'"
  using assms
proof (induction xs arbitrary: w)
  case (Cons x xs)
  obtain a fd c where x: "x = (a, fd, c)" by (cases x)
  then have "fresh_connection a fd w" using fresh_undisturbed [OF Cons.prems(2)] Cons.prems(3) by simp
  from accept_tls_ok [OF Cons.prems(1) fresh_connectionD [OF this]] obtain v where
    v: "server_ssl_accept a fd True w = Some v" "server_inv X v" "accepted a w v" by blast
  have "undisturbed S v" using accepted_undisturbed [OF Cons.prems(2) v(3)] Cons.prems(3) x by simp
  moreover have "accepts_allowed S True xs v" using Cons.prems(3) v(1) x by simp
  ultimately obtain w' where "server_ssl_descriptor_callback xs v = Some w'" "server_inv X w'"
    "undisturbed S w'" "fades v w'" using Cons.IH [OF v(2)] by blast
  then show ?case using v(1,3) x Cons.prems(3) fades_trans [of w v w'] by (auto simp: accepted_def tidy_fades)
qed simp

lemma listener_call_ok:
  assumes "sound_answers sys d t" "server_inv (\<lambda>_. 0) w" "undisturbed (others sys d t) w"
  shows "\<exists>w'. listener_call sys c \<lparr>re_type = DESCRIPTOR_READ, re_state = s, re_data = n\<rparr> w = Some w' \<and> server_inv (\<lambda>_. 0) w' \<and>
    undisturbed (others sys d t) w' \<and> fades w w'"
proof -
  have "accepts_allowed (others sys d t) tls (sy_accepts sys w) w" for tls using assms(1) by (simp add: sound_answers_def)
  then show ?thesis
    using socket_accepts_ok [OF assms(2,3)] ssl_accepts_ok [OF assms(2,3)] by (cases c) (simp_all add: listener_call_def)
qed

text \<open>The timer refreshes the date.\<close>

lemma timer_ticks:
  assumes "ticks ns"
  shows "\<exists>n. timer_callback ns = Some (TIMER_EXPIRATION, n)"
proof -
  have "unat (expirations_loop 0 ns) = sum_list (map unat ns)" using expirations_sum [of 0 ns] assms by (simp add: ticks_def)
  moreover have "sum_list (map unat ns) \<noteq> 0" using assms by (cases ns) (auto simp: ticks_def unat_eq_zero)
  ultimately show ?thesis by (auto simp: timer_callback_def Let_def)
qed

lemma timer_call_ok:
  assumes sound: "sound_answers sys d t" and inv: "loop_inv sys d t w"
  shows "\<exists>w'. timer_call sys env c ev w = Some w' \<and> advanced sys d t w w'"
proof -
  have "ticks (sy_ticks sys (server_world.truncate w))" using sound by (simp add: sound_answers_def)
  from timer_ticks [OF this] obtain n where tick: "timer_callback (sy_ticks sys (server_world.truncate w)) = Some (TIMER_EXPIRATION, n)"
    by blast
  show ?thesis
  proof (cases "h_callback (tm_handler (se_timer (lw_server w)))")
    case None
    then show ?thesis using tick advanced_refl [OF inv] by (simp add: timer_call_def reactor_dispatch_def)
  next
    case (Some u)
    let ?tm = "sy_time sys (server_world.truncate w)"
    have "tm_wday ?tm < 7" "tm_mon ?tm < 12" "1000 \<le> tm_year ?tm" "tm_year ?tm < 10000" using sound by (simp_all add: sound_answers_def)
    from server_date_written [OF this] obtain date where date: "server_date_update ?tm = Some date" "length date = 29" by blast
    have "advanced sys d t w (w\<lparr>lw_date := date\<rparr>)" using inv date(2) by (simp add: advanced_def loop_inv_def fades_def)
    then show ?thesis
      using Some tick date(1)
      by (simp add: timer_call_def date_call_def server_timer_callback_def reactor_dispatch_def)
  qed
qed

lemma loop_invD:
  assumes "loop_inv sys d t w"
  shows "server_inv (\<lambda>_. 0) (server_world.truncate w)" "undisturbed (others sys d t) (server_world.truncate w)"
    "listening d t (lw_server w)" "29 \<le> length (lw_date w)"
  using assms by (simp_all add: loop_inv_def)

text \<open>A handler that has an event to come is there.\<close>

lemma forgotten_truncate [simp]: "forgotten (server_world.truncate w) a = forgotten w a" for w :: loop_world
  by (simp add: forgotten_def silent_def)

lemma request_there:
  assumes inv: "loop_inv sys d t w" and a: "\<not> forgotten w a" "a \<notin> others sys d t"
  obtains r where "sv_requests w a = Some r" "sr_state r \<noteq> SERVER_REQUEST_CLOSED"
    "de_epoll_handler (sm_descriptor (sr_stream r)) = \<lparr>h_callback = Some (), h_state = a\<rparr>"
proof -
  note I = loop_invD(1,2) [OF inv]
  obtain r where r: "sv_requests w a = Some r" using I(2) a by (auto simp: undisturbed_def)
  have r': "sv_requests (server_world.truncate w) a = Some r" using r by simp
  have "sr_state r \<noteq> SERVER_REQUEST_CLOSED"
    using server_invD(5) [OF I(1) r'] a(1) by (auto simp: request_ok_def)
  moreover from this have "wired a (sr_stream r) (server_world.truncate w)" by (rule connectedD(1) [OF I(1) r'])
  ultimately show thesis using that r by (simp add: wired_def stream_handlers_def)
qed

lemma connection_dispatch_ok:
  assumes set: "gentle_setting sys env d t" and inv: "loop_inv sys d t w"
    and a: "\<not> forgotten w a" "a \<notin> others sys d t"
    and type: "type = DESCRIPTOR_READ \<or> type = DESCRIPTOR_WRITE \<or> type = DESCRIPTOR_CLOSE"
  shows "\<exists>w'. loop_dispatch sys env d t a type w = Some w' \<and> advanced sys d t w w'"
proof -
  have sound: "sound_answers sys d t" and gentle: "gentle_system sys" and "well_behaved_program env" using set by (simp_all add: gentle_setting_def sound_setting_def)
  then have wb: "well_behaved_program (current env w)" using well_behaved_date loop_invD(4) [OF inv] by (simp add: current_def)
  obtain r where r: "sv_requests w a = Some r" "sr_state r \<noteq> SERVER_REQUEST_CLOSED" by (rule request_there [OF inv a])
  then have r': "sv_requests (server_world.truncate w) a = Some r" by simp
  from connection_call_ok [OF wb sound gentle loop_invD(1) [OF inv] r' r(2) type] obtain c where
    c: "de_handler (sm_descriptor (sr_stream r)) = \<lparr>h_callback = Some c, h_state = a\<rparr>"
      "\<exists>v. connection_call sys (current env w) c \<lparr>re_type = type, re_state = a, re_data = 0\<rparr> (server_world.truncate w) = Some v \<and>
        server_inv (\<lambda>_. 0) v \<and> shrinks (server_world.truncate w) v" by blast
  have "a \<noteq> d" "a \<noteq> t" using a(2) by (simp_all add: others_def)
  then show ?thesis using in_server_shrinks [where f = "connection_call sys (current env w) c \<lparr>re_type = type, re_state = a, re_data = 0\<rparr>", OF inv c(2)] r(1) c(1)
    by (simp add: loop_dispatch_def reactor_dispatch_def)
qed

lemma own_dispatch_ok:
  assumes set: "gentle_setting sys env d t" and inv: "loop_inv sys d t w"
  shows "\<exists>w'. in_server (own_call sys (current env w) a) w = Some w' \<and> advanced sys d t w w'"
proof -
  have gentle: "gentle_system sys" and wb: "well_behaved_program env" and dec: "\<forall>w a. decisions_allowed env (sy_decides sys w a)"
    using set by (simp_all add: gentle_setting_def sound_setting_def)
  have "well_behaved_program (current env w)" "\<forall>v. decisions_allowed (current env w) (sy_decides sys v a)"
    using well_behaved_date [OF wb loop_invD(4) [OF inv]] dec by (simp_all add: current_def)
  from own_call_ok [OF this(1) gentle loop_invD(1) [OF inv] this(2)] show ?thesis by (rule in_server_shrinks [OF inv])
qed

lemma server_dispatch_ok:
  assumes set: "gentle_setting sys env d t" and inv: "loop_inv sys d t w" and a: "a = d \<or> a = t"
  shows "\<exists>w'. loop_dispatch sys env d t a DESCRIPTOR_READ w = Some w' \<and> advanced sys d t w w'"
proof -
  have sound: "sound_answers sys d t" using set by (simp add: gentle_setting_def sound_setting_def)
  have listen: "\<exists>w'. in_server (listener_call sys c \<lparr>re_type = DESCRIPTOR_READ, re_state = s, re_data = n\<rparr>) w = Some w' \<and> advanced sys d t w w'" for c s n
    by (rule in_server_ok [where f = "listener_call sys c \<lparr>re_type = DESCRIPTOR_READ, re_state = s, re_data = n\<rparr>", OF inv listener_call_ok [OF sound loop_invD(1,2) [OF inv]]])
  show ?thesis
  proof (cases "a = d")
    case True
    then show ?thesis using listen advanced_refl [OF inv]
      by (cases "h_callback (de_handler (se_descriptor (lw_server w)))") (simp_all add: loop_dispatch_def reactor_dispatch_def)
  next
    case False
    then have t: "a = t" "t \<noteq> d" using a by auto
    then show ?thesis using timer_call_ok [OF sound inv] advanced_refl [OF inv]
      by (cases "h_callback (de_handler (tm_descriptor (se_timer (lw_server w))))") (simp_all add: loop_dispatch_def reactor_dispatch_def)
  qed
qed

section \<open>A batch of events\<close>

definition quiet :: "nat \<Rightarrow> nat \<Rightarrow> nat epoll_event \<Rightarrow> bool" where
  "quiet d t e \<longleftrightarrow> (\<forall>a. ev_ptr e = Some a \<longrightarrow> a = d \<or> a = t \<longrightarrow> ev_events e = EPOLLIN)"

definition server_pending :: "system \<Rightarrow> nat \<Rightarrow> nat \<Rightarrow> nat \<Rightarrow> loop_world \<Rightarrow> bool" where
  "server_pending sys d t i w \<longleftrightarrow> loop_inv sys d t w \<and> rc_event w = i \<and> i \<le> rc_event_end w \<and>
     length (rc_batch w) = rc_event_end w \<and> (\<forall>j < rc_event_end w. quiet d t (rc_batch w ! j))"

lemma server_pending_advanced:
  assumes "server_pending sys d t i w" "advanced sys d t w w'"
  shows "server_pending sys d t i w'"
proof -
  have "quiet d t (rc_batch w' ! j)" if "j < rc_event_end w" for j
  proof -
    have "quiet d t (rc_batch w ! j)" "j < length (rc_batch w)" using assms(1) that by (simp_all add: server_pending_def)
    moreover from this(2) have "rc_batch w' ! j = rc_batch w ! j \<or> rc_batch w' ! j = blank_event"
      using assms(2) by (simp add: advanced_def fades_def)
    ultimately show ?thesis by (auto simp: quiet_def blank_event_def)
  qed
  then show ?thesis using assms by (simp add: server_pending_def advanced_def fades_def)
qed

text \<open>The event for \<open>a\<close> at \<open>i\<close>, unless it was blanked.\<close>

definition faded :: "nat \<Rightarrow> nat \<Rightarrow> loop_world \<Rightarrow> bool" where
  "faded a i w \<longleftrightarrow> ev_ptr (rc_batch w ! i) = Some a \<or> rc_batch w ! i = blank_event"

lemma input_only: "EPOLLIN AND EPOLLOUT = 0" "EPOLLIN AND NOT (EPOLLIN OR EPOLLOUT) = 0"
  by (simp_all add: EPOLLIN_def EPOLLOUT_def)

lemma loop_signal_ok:
  assumes set: "gentle_setting sys env d t" and p: "server_pending sys d t i w" "i < rc_event_end w"
    and a: "faded a i w" "a \<notin> Collect (sy_own sys)"
    and bits: "(bits, type) \<in> {(EPOLLIN, DESCRIPTOR_READ), (EPOLLOUT, DESCRIPTOR_WRITE), (NOT (EPOLLIN OR EPOLLOUT), DESCRIPTOR_CLOSE)}"
  shows "\<exists>w'. loop_signal sys env d t a i bits type w = Some w' \<and> server_pending sys d t i w' \<and> i < rc_event_end w' \<and> faded a i w' \<and>
    rc_event_end w' = rc_event_end w"
proof -
  let ?e = "rc_batch w ! i"
  have at: "event_at w i = Some ?e" using p by (simp add: event_at_def server_pending_def)
  have inv: "loop_inv sys d t w" using p(1) by (simp add: server_pending_def)
  show ?thesis
  proof (cases "ev_events ?e AND bits = 0")
    case True
    then show ?thesis using at p a(1) by (simp add: loop_signal_def)
  next
    case False
    then have ptr: "ev_ptr ?e = Some a" using a(1) by (auto simp: faded_def blank_event_def)
    have "\<exists>w'. loop_dispatch sys env d t a type w = Some w' \<and> advanced sys d t w w'"
    proof (cases "a = d \<or> a = t")
      case True
      then have "ev_events ?e = EPOLLIN" using p ptr unfolding server_pending_def quiet_def by blast
      then have "type = DESCRIPTOR_READ" using False bits input_only by auto
      then show ?thesis using server_dispatch_ok [OF set inv True] by simp
    next
      case other: False
      have "\<not> forgotten w a" using ptr p unfolding forgotten_def silent_def server_pending_def by auto
      moreover have "a \<notin> others sys d t" using other a(2) by (simp add: others_def)
      ultimately show ?thesis using connection_dispatch_ok [OF set inv] bits by blast
    qed
    then obtain w' where w': "loop_dispatch sys env d t a type w = Some w'" "advanced sys d t w w'" by blast
    have f: "fades w w'" using w'(2) by (simp add: advanced_def)
    have "i < length (rc_batch w)" using p by (simp add: server_pending_def)
    then have "faded a i w'" using a(1) f unfolding faded_def fades_def by metis
    moreover have "rc_event_end w' = rc_event_end w" using f by (simp add: fades_def)
    ultimately show ?thesis using at False w'(1) p(2) server_pending_advanced [OF p(1) w'(2)] by (simp add: loop_signal_def)
  qed
qed

lemma loop_call_ok:
  assumes set: "gentle_setting sys env d t" and p: "server_pending sys d t i w" "i < rc_event_end w"
    and h: "handler_at (loop_handler sys d t) w (ev_ptr (rc_batch w ! i)) = Some h"
  shows "\<exists>w'. reactor_dispatch (loop_call sys env d t) h REACTOR_EPOLL_EVENT i w = Some w' \<and> server_pending sys d t i w' \<and>
    rc_event_end w' = rc_event_end w"
proof -
  have inv: "loop_inv sys d t w" using p(1) by (simp add: server_pending_def)
  have ends: "\<exists>w'. f = Some w' \<and> server_pending sys d t i w' \<and> rc_event_end w' = rc_event_end w"
    if "\<exists>w'. f = Some w' \<and> advanced sys d t w w'" for f
    using that server_pending_advanced [OF p(1)] by (auto simp: advanced_def fades_def)
  show ?thesis
  proof (cases "ev_ptr (rc_batch w ! i)")
    case None
    then show ?thesis using h p(1) by (auto simp: handler_at_def reactor_handler_default_def reactor_dispatch_def)
  next
    case (Some a)
    then have h': "loop_handler sys d t w a = Some h" using h by (simp add: handler_at_def)
    show ?thesis
    proof (cases "sy_own sys a")
      case True
      then have "a \<noteq> d" "a \<noteq> t" using set by (auto simp: gentle_setting_def sound_setting_def)
      then have "h = \<lparr>h_callback = Some Own_Callback, h_state = a\<rparr>" using h' True by (simp add: loop_handler_def)
      then show ?thesis using ends [OF own_dispatch_ok [OF set inv, of a]] by (simp add: reactor_dispatch_def loop_call_def)
    next
      case own: False
      have "h = \<lparr>h_callback = Some Descriptor_Callback, h_state = a\<rparr>"
      proof (cases "a = d \<or> a = t")
        case True
        then show ?thesis using h' loop_invD(3) [OF inv] by (auto simp: loop_handler_def listening_def loop_handler_of_def split: if_splits)
      next
        case False
        have "\<not> forgotten w a" using Some p unfolding forgotten_def silent_def server_pending_def by auto
        moreover have "a \<notin> others sys d t" using False own by (simp add: others_def)
        ultimately obtain r where "sv_requests w a = Some r"
          "de_epoll_handler (sm_descriptor (sr_stream r)) = \<lparr>h_callback = Some (), h_state = a\<rparr>" by (rule request_there [OF inv])
        then show ?thesis using h' False own by (simp add: loop_handler_def loop_handler_of_def)
      qed
      moreover have "faded a i w" using Some by (simp add: faded_def)
      with loop_signal_ok [OF set p, of a EPOLLIN DESCRIPTOR_READ] own obtain w1 where
        w1: "loop_signal sys env d t a i EPOLLIN DESCRIPTOR_READ w = Some w1" "server_pending sys d t i w1" "i < rc_event_end w1"
          "faded a i w1" "rc_event_end w1 = rc_event_end w" by auto
      from loop_signal_ok [OF set this(2-4), of EPOLLOUT DESCRIPTOR_WRITE] own obtain w2 where
        w2: "loop_signal sys env d t a i EPOLLOUT DESCRIPTOR_WRITE w1 = Some w2" "server_pending sys d t i w2" "i < rc_event_end w2"
          "faded a i w2" "rc_event_end w2 = rc_event_end w" using w1(5) by auto
      from loop_signal_ok [OF set this(2-4), of "NOT (EPOLLIN OR EPOLLOUT)" DESCRIPTOR_CLOSE] own obtain w3 where
        "loop_signal sys env d t a i (NOT (EPOLLIN OR EPOLLOUT)) DESCRIPTOR_CLOSE w2 = Some w3" "server_pending sys d t i w3"
          "rc_event_end w3 = rc_event_end w" using w2(5) by auto
      ultimately show ?thesis using w1(1) w2(1) by (simp add: reactor_dispatch_def loop_call_def)
    qed
  qed
qed

text \<open>The reactor counts on, and takes up the next batch.\<close>

lemma loop_inv_reactor:
  assumes inv: "loop_inv sys d t w" and same: "rc_interest w' = rc_interest w" "ssl_activated w' = ssl_activated w"
      "sv_requests w' = sv_requests w" "sv_order w' = sv_order w" "sv_held w' = sv_held w" "sv_writes w' = sv_writes w"
      "lw_server w' = lw_server w" "lw_date w' = lw_date w"
    and f: "\<And>a. forgotten w a \<Longrightarrow> forgotten w' a"
  shows "loop_inv sys d t w'"
proof -
  note I = loop_invD [OF inv]
  have "write_answers (sv_writes (server_world.truncate w') a)" for a using server_invD(3) [OF I(1)] same by simp
  with inv_reactor [of _ "server_world.truncate w" _ "server_world.truncate w'", OF I(1,2)] same f
  show ?thesis using I(3,4) by (simp add: loop_inv_def)
qed

lemma server_pending_next:
  assumes p: "server_pending sys d t i w" and i: "i < rc_event_end w"
  shows "server_pending sys d t (Suc i) (w\<lparr>rc_event := rc_event w + 1\<rparr>)"
proof -
  have "loop_inv sys d t (w\<lparr>rc_event := rc_event w + 1\<rparr>)"
    by (rule loop_inv_reactor [of _ _ _ w]) (use p in \<open>simp_all add: server_pending_def forgotten_def silent_def\<close>)
  then show ?thesis using p i by (simp add: server_pending_def)
qed

interpretation server_loop: reactor_handlers "loop_call sys env d t" "loop_handler sys d t"
  "\<lambda>i w. gentle_setting sys env d t \<and> server_pending sys d t i w" for sys env d t
proof unfold_locales
  fix i w
  assume P: "gentle_setting sys env d t \<and> server_pending sys d t i w"
  then show "rc_event w = i \<and> i \<le> rc_event_end w \<and> length (rc_batch w) = rc_event_end w" by (simp add: server_pending_def)
  assume i: "i < rc_event_end w"
  show "\<exists>h. handler_at (loop_handler sys d t) w (ev_ptr (rc_batch w ! i)) = Some h"
  proof (cases "ev_ptr (rc_batch w ! i)")
    case (Some a)
    have inv: "loop_inv sys d t w" using P by (simp add: server_pending_def)
    have "\<exists>h. loop_handler sys d t w a = Some h"
    proof (cases "a \<in> others sys d t")
      case True
      then show ?thesis by (auto simp: loop_handler_def others_def)
    next
      case False
      have "\<not> forgotten w a" using Some P i unfolding forgotten_def silent_def server_pending_def by auto
      then obtain r where "sv_requests w a = Some r" by (rule request_there [OF inv _ False])
      then show ?thesis by (simp add: loop_handler_def)
    qed
    then show ?thesis using Some by (simp add: handler_at_def)
  qed (simp add: handler_at_def)
  fix h
  assume "handler_at (loop_handler sys d t) w (ev_ptr (rc_batch w ! i)) = Some h"
  with loop_call_ok [of sys env d t i w h] P i obtain w' where
    "reactor_dispatch (loop_call sys env d t) h REACTOR_EPOLL_EVENT i w = Some w'" "server_pending sys d t i w'"
    "rc_event_end w' = rc_event_end w" by blast
  then show "\<exists>w'. reactor_dispatch (loop_call sys env d t) h REACTOR_EPOLL_EVENT i w = Some w' \<and> rc_event_end w' = rc_event_end w \<and>
      gentle_setting sys env d t \<and> server_pending sys d t (Suc i) (w'\<lparr>rc_event := rc_event w' + 1\<rparr>)"
    using server_pending_next [of sys d t i w'] P i by auto
qed

section \<open>Turns of the loop\<close>

lemma server_once_ok:
  assumes set: "gentle_setting sys env d t" and inv: "loop_inv sys d t w" and wait: "sound_wait d t w result"
  shows "\<exists>w'. reactor_loop_once (loop_call sys env d t) (loop_handler sys d t) result w = Some w' \<and> loop_inv sys d t w'"
proof (cases result)
  case Interrupted
  have "loop_inv sys d t (w\<lparr>rc_time := 0\<rparr>)"
    by (rule loop_inv_reactor [OF inv]) (simp_all add: forgotten_def silent_def)
  then show ?thesis using Interrupted by (simp add: reactor_loop_once_def)
next
  case (Ready events)
  let ?w = "w\<lparr>rc_time := 0, rc_event := 0, rc_event_end := length events, rc_batch := map (\<lambda>(m, a). \<lparr>ev_events = m, ev_ptr = Some a\<rparr>) events\<rparr>"
  have ready: "length events \<le> REACTOR_MAX_EVENTS" "\<And>m a. (m, a) \<in> set events \<Longrightarrow> \<exists>fd n. rc_interest w fd = Some (n, a)"
    "\<And>m a. (m, a) \<in> set events \<Longrightarrow> a = d \<or> a = t \<Longrightarrow> m = EPOLLIN" using wait Ready by (auto simp: sound_wait_def)
  have at: "rc_batch ?w ! j = \<lparr>ev_events = fst (events ! j), ev_ptr = Some (snd (events ! j))\<rparr>" "(fst (events ! j), snd (events ! j)) \<in> set events"
    if "j < length events" for j using that by (simp_all add: case_prod_beta)
  have "forgotten ?w a" if "forgotten w a" for a
  proof -
    have "ev_ptr (rc_batch ?w ! j) \<noteq> Some a" if "j < length events" for j
      using at(1) [OF that] ready(2) [OF at(2) [OF that]] \<open>forgotten w a\<close> by (auto simp: forgotten_def)
    then show ?thesis using that by (simp add: forgotten_def silent_def)
  qed
  then have "loop_inv sys d t ?w" by (intro loop_inv_reactor [OF inv]) simp_all
  moreover have "quiet d t (rc_batch ?w ! j)" if "j < length events" for j
    using at(1) [OF that] ready(3) [OF at(2) [OF that]] by (auto simp: quiet_def)
  ultimately have "server_pending sys d t 0 ?w" by (simp add: server_pending_def)
  with server_loop.batch_ends [of sys env d t 0 ?w] set obtain w' where
    "batch_loop (loop_call sys env d t) (loop_handler sys d t) ?w = Some w'" "server_pending sys d t (rc_event_end w') w'" by blast
  then show ?thesis using Ready ready(1) by (simp add: reactor_loop_once_def server_pending_def)
qed (use wait in \<open>simp add: sound_wait_def\<close>)

lemma server_turns_ok:
  assumes "gentle_setting sys env d t" "loop_inv sys d t w" "\<forall>k w. sound_wait d t w (wait k w)"
  shows "\<exists>w'. server_turns sys env d t wait w n = Some w' \<and> loop_inv sys d t w'"
proof (induction n)
  case 0
  then show ?case using assms(2) by (simp add: server_turns_def)
next
  case (Suc n)
  then obtain v where v: "server_turns sys env d t wait w n = Some v" "loop_inv sys d t v" by blast
  have "sound_wait d t v (wait n v)" using assms(3) by blast
  from server_once_ok [OF assms(1) v(2) this] show ?case using v(1) by (simp add: server_turns_def)
qed

text \<open>A server that has just been opened, in a reactor that knows nothing but handlers of the program.\<close>

definition vacant :: "system \<Rightarrow> server_world \<Rightarrow> bool" where
  "vacant sys w \<longleftrightarrow> sv_requests w = Map.empty \<and> sv_held w = (\<lambda>_. 0) \<and> (\<forall>a. write_answers (sv_writes w a)) \<and>
     (\<forall>a. \<not> sy_own sys a \<longrightarrow> forgotten w a)"

definition loop_start :: "server \<Rightarrow> string \<Rightarrow> server_world \<Rightarrow> loop_world" where
  "loop_start se date w = server_world.extend w (loop_world.fields se date)"

lemma loop_start_simps [simp]:
  "server_world.truncate (loop_start se date w) = w" "lw_server (loop_start se date w) = se" "lw_date (loop_start se date w) = date"
  by (simp_all add: loop_start_def server_world.defs loop_world.defs)

lemma server_opened:
  assumes fds: "0 \<le> timer_fd" "0 \<le> fd" "timer_fd \<noteq> fd" "rc_interest w timer_fd = None" "rc_interest w fd = None"
    and start: "server_construct t d callback state w = (se0, w0)"
  shows "\<exists>se w1. server_open t d timer_fd fd ctx se0 w0 = Some (se, w1) \<and> listening d t se \<and> sv_order w1 = [] \<and>
    sv_requests w1 = sv_requests w \<and> sv_held w1 = sv_held w \<and> sv_writes w1 = sv_writes w \<and>
    (\<forall>a. silent w1 a = silent w a) \<and> (\<forall>g m a. rc_interest w1 g = Some (m, a) \<longrightarrow> a = t \<or> a = d \<or> rc_interest w g = Some (m, a))"
proof -
  have neq: "timer_fd \<noteq> -1" "fd \<noteq> timer_fd" using fds by auto
  define se1 where "se1 = se0\<lparr>se_ssl_ctx := ctx\<rparr>"
  have run: "server_open t d timer_fd fd ctx se0 w0 = map_option (\<lambda>(se, w). (se\<lparr>se_is_open := True\<rparr>, w))
      (server_open_with (if ctx then Ssl_Descriptor_Callback else Socket_Descriptor_Callback) t d timer_fd fd se1 w0)"
    using start by (cases ctx)
      (auto simp: server_open_def server_ssl_open_def server_socket_open_def se1_def server_construct_def Let_def split: bind_splits)
  show ?thesis
    unfolding run using start fds neq
    by (auto simp: server_open_with_def timer_set_def server_construct_def timer_construct_def descriptor_construct_def descriptor_fd_def
        descriptor_open_def reactor_add_def reactor_handler_construct_def se1_def listening_def silent_def Let_def)
qed

lemma server_started:
  assumes "vacant sys w" "0 \<le> timer_fd" "0 \<le> fd" "timer_fd \<noteq> fd" "rc_interest w timer_fd = None" "rc_interest w fd = None"
    "server_construct t d callback state w = (se0, w0)" "29 \<le> length date" "\<not> sy_own sys d" "\<not> sy_own sys t"
  shows "\<exists>se w1. server_open t d timer_fd fd ctx se0 w0 = Some (se, w1) \<and> loop_inv sys d t (loop_start se date w1)"
proof -
  obtain se w1 where w1: "server_open t d timer_fd fd ctx se0 w0 = Some (se, w1)" "listening d t se" "sv_order w1 = []"
    "sv_requests w1 = sv_requests w" "sv_held w1 = sv_held w" "sv_writes w1 = sv_writes w"
    "\<forall>a. silent w1 a = silent w a" "\<forall>g m a. rc_interest w1 g = Some (m, a) \<longrightarrow> a = t \<or> a = d \<or> rc_interest w g = Some (m, a)"
    using server_opened [OF assms(2-7)] by blast
  have "server_inv (\<lambda>_. 0) w1" using assms(1) w1(3-6) by (simp add: server_inv_def vacant_def)
  moreover have "forgotten w1 a" if "a \<notin> others sys d t" for a
  proof -
    have "forgotten w a" "a \<noteq> d" "a \<noteq> t" using that assms(1) by (simp_all add: others_def vacant_def)
    then show ?thesis using w1(7,8) unfolding forgotten_def by blast
  qed
  then have "undisturbed (others sys d t) w1" using assms(1) w1(4) by (simp add: undisturbed_def vacant_def)
  ultimately have "loop_inv sys d t (loop_start se date w1)" using w1(2) assms(8) by (simp add: loop_inv_def)
  then show ?thesis using w1(1) by blast
qed

text \<open>What the invariant says of every address.\<close>

definition accounted :: "system \<Rightarrow> nat \<Rightarrow> nat \<Rightarrow> loop_world \<Rightarrow> bool" where
  "accounted sys d t w \<longleftrightarrow> (\<forall>a. case sv_requests w a of
     None \<Rightarrow> sv_held w a = 0 \<and> (a \<in> others sys d t \<or> forgotten w a)
   | Some r \<Rightarrow> 0 < unat (sr_ref r) \<and>
       (if sr_state r = SERVER_REQUEST_CLOSED then unat (sr_ref r) = sv_held w a \<and> forgotten w a
        else unat (sr_ref r) = sv_held w a + 1 \<and> wired a (sr_stream r) w))"

lemma wired_truncate [simp]: "wired a s (server_world.truncate w) = wired a s w" for w :: loop_world
  by (simp add: wired_def)

lemma loop_accounted:
  assumes "loop_inv sys d t w"
  shows "accounted sys d t w"
  unfolding accounted_def
proof
  fix a
  note I = loop_invD(1,2) [OF assms]
  show "case sv_requests w a of None \<Rightarrow> sv_held w a = 0 \<and> (a \<in> others sys d t \<or> forgotten w a)
   | Some r \<Rightarrow> 0 < unat (sr_ref r) \<and>
       (if sr_state r = SERVER_REQUEST_CLOSED then unat (sr_ref r) = sv_held w a \<and> forgotten w a
        else unat (sr_ref r) = sv_held w a + 1 \<and> wired a (sr_stream r) w)"
  proof (cases "sv_requests w a")
    case None
    then show ?thesis using I(2) server_invD(4) [OF I(1), of a] by (auto simp: undisturbed_def)
  next
    case (Some r)
    then have "sv_requests (server_world.truncate w) a = Some r" by simp
    from server_invD(5) [OF I(1) this] show ?thesis
      using Some by (auto simp: request_ok_def connected_def word_unat_eq_iff split: if_splits)
  qed
qed

text \<open>
  C5. The server inside of the event loop: a server is constructed and opened, and then the loop turns, any number of
  times. Whatever \<open>epoll_wait\<close> reports of the listening socket, the timer, the connections and the handlers of
  the program, in whatever order inside of a batch, and whatever a well-behaved program does meanwhile with its requests: as long
  as no read delivers text that ends in a space and no write fails otherwise than with \<open>EAGAIN\<close> (the two defects of the
  code that \<open>server_safe\<close> names), less than 2 GiB of input wait on a connection, the listening socket and the timer report
  nothing but input, a timer that is reported delivers at least one expiration, \<open>SSL_new\<close> succeeds, and a new connection
  is given memory and a file descriptor that nothing else uses, every turn ends without failing, no event is given to a request that has been freed or to a new connection in its place,
  every request is counted exactly, and the reactor has forgotten every address that is no longer in use.
\<close>

theorem server_loop_safe:
  assumes "sound_setting sys env d t" "gentle_system sys" "vacant sys w" "\<forall>k w. sound_wait d t w (wait k w)"
    and "0 \<le> timer_fd" "0 \<le> fd" "timer_fd \<noteq> fd" "rc_interest w timer_fd = None" "rc_interest w fd = None"
    and "server_construct t d callback state w = (se0, w0)" "29 \<le> length date"
  shows "\<exists>se w1. server_open t d timer_fd fd ctx se0 w0 = Some (se, w1) \<and>
    (\<forall>n. \<exists>w'. server_turns sys env d t wait (loop_start se date w1) n = Some w' \<and>
      (\<forall>a. case sv_requests w' a of
         None \<Rightarrow> sv_held w' a = 0 \<and> (a \<in> others sys d t \<or> forgotten w' a)
       | Some r \<Rightarrow> 0 < unat (sr_ref r) \<and>
           (if sr_state r = SERVER_REQUEST_CLOSED then unat (sr_ref r) = sv_held w' a \<and> forgotten w' a
            else unat (sr_ref r) = sv_held w' a + 1 \<and> wired a (sr_stream r) w')))"
proof -
  have own: "\<not> sy_own sys d" "\<not> sy_own sys t" using assms(1) by (simp_all add: sound_setting_def)
  have set: "gentle_setting sys env d t" using assms(1,2) by (simp add: gentle_setting_def)
  obtain se w1 where w1: "server_open t d timer_fd fd ctx se0 w0 = Some (se, w1)" "loop_inv sys d t (loop_start se date w1)"
    using server_started [OF assms(3,5-11) own] by blast
  have "\<exists>w'. server_turns sys env d t wait (loop_start se date w1) n = Some w' \<and> loop_inv sys d t w'" for n
    by (rule server_turns_ok [OF set w1(2) assms(4)])
  moreover have "accounted sys d t w'" if "loop_inv sys d t w'" for w' by (rule loop_accounted [OF that])
  ultimately show ?thesis using w1(1) unfolding accounted_def by blast
qed

text \<open>
  A system in which a client connects as the request at the address 10 and keeps asking for the same page, as far as
  there is room, while the timer ticks.
\<close>

definition busy_system :: system where
  "busy_system = \<lparr>sy_reads = \<lambda>w a. (case sv_requests w a of None \<Rightarrow> []
       | Some r \<Rightarrow> if unat (buffer_size (sm_input (sr_stream r))) + 18 < 2 ^ 31 then [''GET / HTTP/1.0'' @ crlf @ crlf] else []),
     sy_tls_reads = \<lambda>_ _. ([], 2), sy_writes = \<lambda>_ _. [Room 100, Again],
     sy_accepts = \<lambda>w. if sv_requests w 10 = None \<and> rc_interest w 7 = None then [(10, 7, True)] else [],
     sy_ticks = \<lambda>_. [1], sy_time = \<lambda>_. \<lparr>tm_wday = 0, tm_mday = 6, tm_mon = 10, tm_year = 1994, tm_hour = 8, tm_min = 49, tm_sec = 37\<rparr>,
     sy_own = \<lambda>_. False, sy_decides = \<lambda>_ _. []\<rparr>"

definition busy_wait :: "nat \<Rightarrow> loop_world \<Rightarrow> nat epoll_result" where
  "busy_wait k w = Ready (
     (case rc_interest w 5 of Some (m, a) \<Rightarrow> if a = 2 then [(EPOLLIN, 2)] else [] | None \<Rightarrow> []) @
     (case rc_interest w 6 of Some (m, a) \<Rightarrow> if a = 3 then [(EPOLLIN, 3)] else [] | None \<Rightarrow> []) @
     (case rc_interest w 7 of Some (m, a) \<Rightarrow> if a = 10 then [(EPOLLIN OR EPOLLOUT, 10)] else [] | None \<Rightarrow> []))"

lemma busy_wait_sound: "sound_wait 3 2 w (busy_wait k w)"
  by (auto simp: sound_wait_def busy_wait_def REACTOR_MAX_EVENTS_def split: option.splits if_splits)

lemma busy_setting: "sound_setting busy_system greeter 3 2"
proof -
  have page: "last (''GET / HTTP/1.0'' @ crlf @ crlf) \<noteq> CHR '' ''" "length (''GET / HTTP/1.0'' @ crlf @ crlf) = 18"
    by (simp_all add: crlf_def)
  have "plain_input w a (sy_reads busy_system w a)" for w a
    by (cases "sv_requests w a")
      (simp_all add: plain_input_def busy_system_def read_answers_def input_room_def STREAM_RECEIVE_SIZE_def page(2) crlf_def)
  moreover have "tls_input w a (fst (sy_tls_reads busy_system w a))" for w a
    by (simp add: tls_input_def busy_system_def input_room_def)
  moreover have "accepts_allowed (others busy_system 3 2) tls (sy_accepts busy_system w) w" for tls w
    by (simp add: others_def busy_system_def split: option.split)
  ultimately have "sound_answers busy_system 3 2"
    unfolding sound_answers_def by (simp add: busy_system_def ticks_def)
  then show ?thesis using greeter_well_behaved by (simp add: sound_setting_def decisions_allowed_def busy_system_def)
qed

lemma busy_gentle: "gentle_system busy_system"
  by (simp add: gentle_system_def busy_system_def ends_in_space_def write_answers_def crlf_def split: option.split)

theorem server_loop_safe_witness:
  "\<exists>se w1. server_open 2 3 5 6 False (fst (server_construct 2 3 None 0 empty_world)) (snd (server_construct 2 3 None 0 empty_world)) = Some (se, w1) \<and>
    (\<forall>n. \<exists>w'. server_turns busy_system greeter 3 2 busy_wait (loop_start se (replicate 30 CHR 0x00) w1) n = Some w' \<and>
      (sv_requests w' 10 = None \<longrightarrow> forgotten w' 10))"
proof -
  have start: "vacant busy_system empty_world" "rc_interest empty_world 5 = None" "rc_interest empty_world 6 = None"
    by (simp_all add: vacant_def empty_world_def write_answers_def forgotten_def silent_def)
  have "29 \<le> length (replicate 30 (CHR 0x00))" by simp
  note S = server_loop_safe [where wait = busy_wait and ctx = False and callback = None and state = 0,
    OF busy_setting busy_gentle start(1) _ _ _ _ start(2,3) prod.collapse [symmetric] this]
  have wait: "\<forall>k w. sound_wait 3 2 w (busy_wait k w)" using busy_wait_sound by blast
  obtain se w1 where w1: "server_open 2 3 5 6 False (fst (server_construct 2 3 None 0 empty_world)) (snd (server_construct 2 3 None 0 empty_world)) = Some (se, w1)"
    "\<And>n. \<exists>w'. server_turns busy_system greeter 3 2 busy_wait (loop_start se (replicate 30 CHR 0x00) w1) n = Some w' \<and>
      accounted busy_system 3 2 w'"
    using S [OF wait] unfolding accounted_def by auto
  have "10 \<notin> others busy_system 3 2" by (simp add: others_def busy_system_def)
  then have "accounted busy_system 3 2 w' \<Longrightarrow> sv_requests w' 10 = None \<longrightarrow> forgotten w' 10" for w'
    unfolding accounted_def by (auto dest!: spec [of _ 10])
  then show ?thesis using w1 by blast
qed

end
