(* ===== verification/Notify.thy ===== *)
theory Notify
  imports Descriptor Linked_List
begin

text \<open>
  \<^verbatim>\<open>src/reactor/notify.c\<close>: watching files with \<open>inotify\<close>. A notifier keeps a list of entries, one
  for every watch, on the heap of \<open>Linked_List\<close>; its callback reads records from the inotify
  descriptor, finds the entry of each, and dispatches an event with the path of the entry.

  The program may do anything with the notifier while it handles an event, destroying it and
  freeing its memory included: then the flag \<open>cancel\<close>, a local variable of the callback that
  \<open>notify_destruct\<close> reaches through a pointer, makes the callback return without touching the
  notifier again. What the system calls answer is an argument. A failed assertion, a read outside
  of the records and an access to a freed notifier or entry are \<^term>\<open>None\<close>.
\<close>

section \<open>The state\<close>

text \<open>A watch descriptor is an \<open>int\<close>, here its 32 bits.\<close>

record notify_entry =
  ne_id :: u32
  ne_path :: string

record notify_event =
  ny_id :: u32
  ny_path :: string
  ny_name :: string
  ny_mask :: u32

text \<open>
  \<open>no_address\<close> is the address of the embedded descriptor, \<open>no_entries\<close> that of the sentinel of the
  list. \<open>no_cancel\<close> says whether the pointer \<open>cancel\<close> is set; it then points to \<open>nw_cancel\<close>.
\<close>

record 'c notify =
  no_handler :: "'c handler"
  no_descriptor :: "unit descriptor"
  no_entries :: addr
  no_errors :: u64
  no_cancel :: bool
  no_address :: nat

record notify_world = "nat reactor" +
  nw_object :: "nat notify option"
  nw_heap :: "notify_entry heap"
  nw_cancel :: bool
  nw_freed :: "string list"
  nw_watched :: "(u32 \<times> string \<times> u32) list"
  nw_log :: "notify_event list"

section \<open>Operations\<close>

definition notify_construct :: "nat \<Rightarrow> addr \<Rightarrow> nat option \<Rightarrow> nat \<Rightarrow> unit descriptor \<Rightarrow> notify_world \<Rightarrow> notify_world" where
  "notify_construct a l callback state memory w =
     w\<lparr>nw_object := Some \<lparr>no_handler = reactor_handler_construct callback state,
         no_descriptor = descriptor_construct a (Some ()) a memory, no_entries = l, no_errors = 0,
         no_cancel = False, no_address = a\<rparr>,
       nw_heap := list_construct (nw_heap w) l\<rparr>"

definition notify_clear :: "notify_world \<Rightarrow> notify_world option" where
  "notify_clear w = do {
     n \<leftarrow> nw_object w;
     (d, w) \<leftarrow> descriptor_close (no_address n) (no_descriptor n) w;
     Some (w\<lparr>nw_object := Some (n\<lparr>no_descriptor := d\<rparr>)\<rparr>) }"

text \<open>\<open>fd\<close> and \<open>wd\<close> are the answers of \<open>inotify_init1\<close> and \<open>inotify_add_watch\<close>, \<open>new\<close> that of the allocator.\<close>

definition notify_watch :: "int \<Rightarrow> u32 \<Rightarrow> addr \<Rightarrow> string \<Rightarrow> u32 \<Rightarrow> notify_world \<Rightarrow> (u32 \<times> notify_world) option" where
  "notify_watch fd wd new path bits w = do {
     n \<leftarrow> nw_object w;
     w \<leftarrow> (if \<not> descriptor_is_open (no_descriptor n)
        then (if fd \<noteq> -1 then do {
            (d, w) \<leftarrow> descriptor_open (no_address n) (no_descriptor n) fd DESCRIPTOR_READ w;
            Some (w\<lparr>nw_object := Some (n\<lparr>no_descriptor := d\<rparr>)\<rparr>) }
          else None)
        else Some w);
     (if 0 \<le> sint wd then do {
        (h, e) \<leftarrow> list_push_back (nw_heap w) (no_entries n) \<lparr>ne_id = wd, ne_path = path\<rparr> new;
        Some (wd, w\<lparr>nw_heap := h, nw_watched := nw_watched w @ [(wd, path, bits)]\<rparr>) }
      else Some (wd, w)) }"

text \<open>The memory the release callback frees.\<close>

definition notify_release_entry :: "notify_entry \<Rightarrow> string" where
  "notify_release_entry e = ne_path e"

definition notify_destruct :: "notify_world \<Rightarrow> notify_world option" where
  "notify_destruct w = do {
     w \<leftarrow> notify_clear w;
     n \<leftarrow> nw_object w;
     (h, released) \<leftarrow> list_destruct (nw_heap w) (no_entries n) True;
     let w = w\<lparr>nw_heap := h, nw_freed := nw_freed w @ map notify_release_entry released\<rparr>;
     Some (if no_cancel n then w\<lparr>nw_cancel := True, nw_object := Some (n\<lparr>no_cancel := False\<rparr>)\<rparr> else w) }"

section \<open>The program\<close>

datatype notify_action =
    Watch_Path int u32 addr string u32
  | Clear_Watches
  | Destruct_Notify
  | Free_Notify

primrec notify_perform :: "notify_action \<Rightarrow> notify_world \<Rightarrow> notify_world option" where
  "notify_perform (Watch_Path fd wd new path bits) w = map_option snd (notify_watch fd wd new path bits w)"
| "notify_perform Clear_Watches w = notify_clear w"
| "notify_perform Destruct_Notify w = notify_destruct w"
| "notify_perform Free_Notify w = (if nw_object w = None then None else Some (w\<lparr>nw_object := None\<rparr>))"

primrec notify_actions :: "notify_action list \<Rightarrow> notify_world \<Rightarrow> notify_world option" where
  "notify_actions [] w = Some w"
| "notify_actions (x # xs) w = do { w \<leftarrow> notify_perform x w; notify_actions xs w }"

text \<open>What a callback does, as a function of its state, the event and the whole world.\<close>

type_synonym notify_user = "nat \<Rightarrow> nat \<Rightarrow> notify_event \<Rightarrow> notify_world \<Rightarrow> notify_action list"

definition notify_dispatch :: "notify_user \<Rightarrow> nat handler \<Rightarrow> notify_event \<Rightarrow> notify_world \<Rightarrow> notify_world option" where
  "notify_dispatch user handler event w = (let w = w\<lparr>nw_log := nw_log w @ [event]\<rparr> in
     case h_callback handler of None \<Rightarrow> Some w | Some c \<Rightarrow> notify_actions (user c (h_state handler) event w) w)"

section \<open>The callback\<close>

text \<open>A field of \<open>struct inotify_event\<close>, on a little endian machine, and a string in the buffer.\<close>

definition load32 :: "string \<Rightarrow> nat \<Rightarrow> u32 option" where
  "load32 buf p = map_option (\<lambda>cs. word_of_nat (foldr (\<lambda>c v. of_char c + 256 * v) cs 0)) (mem_read buf p 4)"

definition c_string :: "string \<Rightarrow> nat \<Rightarrow> string option" where
  "c_string buf p = (if CHR 0x00 \<in> set (drop p buf) then Some (takeWhile (\<lambda>c. c \<noteq> CHR 0x00) (drop p buf)) else None)"

text \<open>
  The search starts at the front of the list and asserts that it does not get back to the
  sentinel. An empty list has no front: the search reads the sentinel itself, then fails.
\<close>

partial_function (option) entry_find :: "notify_entry heap \<Rightarrow> addr \<Rightarrow> u32 \<Rightarrow> addr \<Rightarrow> addr option" where
  "entry_find h l wd e = do {
     it \<leftarrow> h e;
     x \<leftarrow> nd_object it;
     (if ne_id x \<noteq> wd then do {
        e \<leftarrow> list_next h e;
        (if e \<noteq> list_end l then entry_find h l wd e else None) }
      else Some e) }"

text \<open>The records from position \<open>p\<close> on; the answer says whether the callback has to return at once.\<close>

function events_loop :: "notify_user \<Rightarrow> string \<Rightarrow> nat \<Rightarrow> notify_world \<Rightarrow> (notify_world \<times> bool) option" where
  "events_loop user buf p w = (if p < length buf then do {
     wd \<leftarrow> load32 buf p;
     n \<leftarrow> nw_object w;
     e \<leftarrow> list_front (nw_heap w) (no_entries n);
     e \<leftarrow> entry_find (nw_heap w) (no_entries n) wd e;
     x \<leftarrow> Option.bind (nw_heap w e) nd_object;
     bits \<leftarrow> load32 buf (p + 4);
     len \<leftarrow> load32 buf (p + 12);
     name \<leftarrow> (if len \<noteq> 0 then c_string buf (p + 16) else Some []);
     w \<leftarrow> notify_dispatch user (no_handler n) \<lparr>ny_id = ne_id x, ny_path = ne_path x, ny_name = name, ny_mask = bits\<rparr> w;
     (if nw_cancel w then Some (w, True) else events_loop user buf (p + 16 + unat len) w) }
   else Some (w, False))"
  by pat_completeness auto
termination by (relation "measure (\<lambda>(user, buf, p, w). length buf - p)") auto

declare events_loop.simps [simp del]

text \<open>\<open>reads\<close> are the buffers the reads fill; the one behind them fails with \<open>EAGAIN\<close>, on a closed descriptor with \<open>EBADF\<close>.\<close>

primrec notify_read_loop :: "notify_user \<Rightarrow> string list \<Rightarrow> notify_world \<Rightarrow> (notify_world \<times> bool) option" where
  "notify_read_loop user [] w = do {
     n \<leftarrow> nw_object w;
     (if descriptor_is_open (no_descriptor n) then Some (w, False) else None) }"
| "notify_read_loop user (buf # reads) w = do {
     n \<leftarrow> nw_object w;
     (if descriptor_is_open (no_descriptor n) then do {
        (w, returned) \<leftarrow> events_loop user buf 0 w;
        (if returned then Some (w, True) else notify_read_loop user reads w) }
      else None) }"

definition notify_callback :: "notify_user \<Rightarrow> string list \<Rightarrow> notify_world \<Rightarrow> notify_world option" where
  "notify_callback user reads w = do {
     n \<leftarrow> nw_object w;
     (w, returned) \<leftarrow> notify_read_loop user reads (w\<lparr>nw_object := Some (n\<lparr>no_cancel := True\<rparr>), nw_cancel := False\<rparr>);
     (if returned then Some w else do {
        n \<leftarrow> nw_object w;
        Some (w\<lparr>nw_object := Some (n\<lparr>no_cancel := False\<rparr>)\<rparr>) }) }"

section \<open>The records of the kernel\<close>

record inotify_event =
  iv_wd :: u32
  iv_mask :: u32
  iv_cookie :: u32
  iv_name :: string
  iv_pad :: nat

definition store32 :: "u32 \<Rightarrow> string" where
  "store32 v = map (\<lambda>k. char_of (unat v div k)) [1, 256, 65536, 16777216]"

definition inotify_bytes :: "inotify_event \<Rightarrow> string" where
  "inotify_bytes ev = store32 (iv_wd ev) @ store32 (iv_mask ev) @ store32 (iv_cookie ev) @
     store32 (word_of_nat (length (iv_name ev) + iv_pad ev)) @ iv_name ev @ replicate (iv_pad ev) (CHR 0x00)"

definition inotify_valid :: "inotify_event \<Rightarrow> bool" where
  "inotify_valid ev \<longleftrightarrow> CHR 0x00 \<notin> set (iv_name ev) \<and> (iv_pad ev = 0 \<longrightarrow> iv_name ev = []) \<and> length (iv_name ev) + iv_pad ev < 2 ^ 32"

lemma length_store32 [simp]: "length (store32 v) = 4"
  by (simp add: store32_def)

lemma load_store32: "word_of_nat (foldr (\<lambda>c v. of_char c + 256 * v) (store32 v) 0) = v"
proof -
  have step: "m mod 256 + 256 * (m div 256) = m" for m :: nat by simp
  let ?n = "unat v"
  have "?n div 16777216 mod 256 = ?n div 16777216"
    using unat_less_32 [of v] by (intro mod_less) (simp add: less_mult_imp_div_less)
  then have "foldr (\<lambda>c v. of_char c + 256 * v) (store32 v) 0 =
      ?n mod 256 + 256 * (?n div 256 mod 256 + 256 * (?n div 256 div 256 mod 256 + 256 * (?n div 256 div 256 div 256)))"
    by (simp add: store32_def div_mult2_eq [symmetric])
  also have "\<dots> = ?n" by (simp only: step)
  finally show ?thesis by simp
qed

section \<open>Reading the records\<close>

lemma load32_at: "load32 (xs @ store32 v @ ys) (length xs) = Some v"
  using load_store32 [of v] by (simp add: load32_def mem_read_ok)

lemma record_fields:
  assumes "inotify_valid ev" "buf = pre @ inotify_bytes ev @ post"
  shows "load32 buf (length pre) = Some (iv_wd ev)" "load32 buf (length pre + 4) = Some (iv_mask ev)"
    "load32 buf (length pre + 12) = Some (word_of_nat (length (iv_name ev) + iv_pad ev))"
    "length (iv_name ev) + iv_pad ev \<noteq> 0 \<Longrightarrow> c_string buf (length pre + 16) = Some (iv_name ev)"
    "length (inotify_bytes ev) = 16 + (length (iv_name ev) + iv_pad ev)"
proof -
  let ?l = "word_of_nat (length (iv_name ev) + iv_pad ev) :: u32"
  let ?t = "iv_name ev @ replicate (iv_pad ev) (CHR 0x00)"
  show "load32 buf (length pre) = Some (iv_wd ev)"
    using load32_at [of pre "iv_wd ev"] by (simp add: assms(2) inotify_bytes_def)
  show "load32 buf (length pre + 4) = Some (iv_mask ev)"
    using load32_at [of "pre @ store32 (iv_wd ev)" "iv_mask ev"] by (simp add: assms(2) inotify_bytes_def)
  show "load32 buf (length pre + 12) = Some ?l"
    using load32_at [of "pre @ store32 (iv_wd ev) @ store32 (iv_mask ev) @ store32 (iv_cookie ev)" ?l]
    by (simp add: assms(2) inotify_bytes_def)
  have d: "drop (length pre + 16) buf = ?t @ post" by (simp add: assms(2) inotify_bytes_def)
  show "c_string buf (length pre + 16) = Some (iv_name ev)" if ne: "length (iv_name ev) + iv_pad ev \<noteq> 0"
  proof -
    obtain k where k: "iv_pad ev = Suc k" using ne assms(1) by (cases "iv_pad ev") (auto simp: inotify_valid_def)
    have "takeWhile (\<lambda>c. c \<noteq> CHR 0x00) (?t @ post) = iv_name ev"
      using assms(1) k by (subst append_assoc, subst takeWhile_append2) (auto simp: inotify_valid_def)
    then show ?thesis using k by (simp add: c_string_def d)
  qed
  show "length (inotify_bytes ev) = 16 + (length (iv_name ev) + iv_pad ev)" by (simp add: inotify_bytes_def)
qed

lemma entry_find_ok:
  assumes "ring h l (us @ xs)" "map (object_of h) xs = map Some es" "xs \<noteq> []"
  shows "entry_find h l wd (hd xs) = map_option fst (find (\<lambda>p. ne_id (snd p) = wd) (zip xs es))"
  using assms
proof (induction xs arbitrary: us es)
  case (Cons a xs)
  obtain x ps where es: "es = x # ps" using Cons.prems(2) by (cases es) auto
  obtain it where it: "h a = Some it" "nd_object it = Some x"
    using Cons.prems(2) es by (cases "h a") (auto simp: object_of_def)
  have "chain h a xs l" using Cons.prems(1) by (simp add: ring_def chain_append)
  then have n: "list_next h a = Some (hd (xs @ [l]))" by (rule chain_first)
  show ?case
  proof (cases "xs = []")
    case True
    then show ?thesis using it n es by (subst entry_find.simps) (simp add: list_end_def)
  next
    case False
    have "hd xs \<noteq> l" using False Cons.prems(1) by (cases xs) (auto simp: ring_def)
    moreover have "entry_find h l wd (hd xs) = map_option fst (find (\<lambda>p. ne_id (snd p) = wd) (zip xs ps))"
      using Cons.IH [of "us @ [a]" ps] Cons.prems False es by simp
    ultimately show ?thesis using it n es False by (subst entry_find.simps) (simp add: list_end_def)
  qed
qed simp

text \<open>The entry of a watch descriptor is the first one with it.\<close>

definition entry_of :: "notify_entry list \<Rightarrow> u32 \<Rightarrow> notify_entry option" where
  "entry_of es wd = find (\<lambda>e. ne_id e = wd) es"

lemma zip_find:
  "length xs = length es \<Longrightarrow> find (\<lambda>e. P e) es = Some x \<Longrightarrow> \<exists>a. find (\<lambda>p. P (snd p)) (zip xs es) = Some (a, x) \<and> (a, x) \<in> set (zip xs es)"
  by (induction xs es rule: list_induct2) (auto split: if_splits)

lemma zip_find_None: "length xs = length es \<Longrightarrow> find (\<lambda>e. P e) es = None \<Longrightarrow> find (\<lambda>p. P (snd p)) (zip xs es) = None"
  by (induction xs es rule: list_induct2) (auto split: if_splits)

lemma find_entry:
  assumes rep: "list_rep h l xs es" "es \<noteq> []"
  shows "do { e \<leftarrow> list_front h l; e \<leftarrow> entry_find h l wd e; Option.bind (h e) nd_object } = entry_of es wd"
proof -
  have len: "length xs = length es" and r: "ring h l ([] @ xs)" and m: "map (object_of h) xs = map Some es" and ne: "xs \<noteq> []"
    using list_repD [OF rep(1)] rep by (auto simp: list_rep_def)
  have f: "list_front h l = Some (hd xs)" using list_front_ok [of h l xs] r ne by simp
  note e = entry_find_ok [OF r m ne, of wd]
  show ?thesis
  proof (cases "entry_of es wd")
    case None
    then show ?thesis using zip_find_None [OF len, of "\<lambda>e. ne_id e = wd"] f e by (simp add: entry_of_def)
  next
    case (Some x)
    then obtain a where a: "find (\<lambda>p. ne_id (snd p) = wd) (zip xs es) = Some (a, x)" "(a, x) \<in> set (zip xs es)"
      using zip_find [OF len, of "\<lambda>e. ne_id e = wd"] by (auto simp: entry_of_def)
    then have "object_of h a = Some x" using m len by (auto simp: set_zip map_eq_conv list_eq_iff_nth_eq)
    then show ?thesis using f e a(1) Some by (simp add: object_of_def)
  qed
qed

section \<open>What the program may do\<close>

text \<open>
  While it handles an event a program may watch fs paths, and may destroy the notifier and then
  free it. It may not stop all watches, see \<open>notify_clear_fails\<close>.
\<close>

primrec notify_allowed :: "notify_action \<Rightarrow> notify_world \<Rightarrow> bool" where
  "notify_allowed (Watch_Path fd wd new path bits) w \<longleftrightarrow> nw_object w \<noteq> None \<and> \<not> nw_cancel w \<and> nw_heap w new = None"
| "notify_allowed Clear_Watches w \<longleftrightarrow> False"
| "notify_allowed Destruct_Notify w \<longleftrightarrow> nw_object w \<noteq> None \<and> \<not> nw_cancel w"
| "notify_allowed Free_Notify w \<longleftrightarrow> nw_object w \<noteq> None \<and> nw_cancel w"

primrec actions_allowed :: "notify_action list \<Rightarrow> notify_world \<Rightarrow> bool" where
  "actions_allowed [] w \<longleftrightarrow> True"
| "actions_allowed (x # xs) w \<longleftrightarrow> notify_allowed x w \<and> (\<forall>w'. notify_perform x w = Some w' \<longrightarrow> actions_allowed xs w')"

definition notify_polite :: "notify_user \<Rightarrow> bool" where
  "notify_polite user \<longleftrightarrow> (\<forall>c s ev w. actions_allowed (user c s ev w) w)"

text \<open>
  During the callback the notifier is either in use, with entries \<open>es\<close>, or destroyed: then its
  entries are freed, their paths too, and the descriptor \<open>fd\<close> is closed. \<open>ps\<close> are the paths freed
  and \<open>i\<close> the interest list of the kernel before.
\<close>

definition handling :: "int \<Rightarrow> (int \<rightharpoonup> u32 \<times> nat) \<Rightarrow> string list \<Rightarrow> notify_entry list \<Rightarrow> notify_world \<Rightarrow> bool" where
  "handling fd i ps es w \<longleftrightarrow> \<not> nw_cancel w \<and> nw_freed w = ps \<and> rc_interest w = i \<and> i fd \<noteq> None \<and> 0 \<le> fd \<and>
     (\<exists>n xs. nw_object w = Some n \<and> no_cancel n \<and> de_fd (no_descriptor n) = fd \<and> list_rep (nw_heap w) (no_entries n) xs es)"

definition gone :: "int \<Rightarrow> (int \<rightharpoonup> u32 \<times> nat) \<Rightarrow> string list \<Rightarrow> notify_entry list \<Rightarrow> notify_world \<Rightarrow> bool" where
  "gone fd i ps es w \<longleftrightarrow> nw_cancel w \<and> nw_freed w = ps @ map ne_path es \<and> rc_interest w = i(fd := None)"

lemma watch_ok:
  assumes "handling fd i ps es w" "nw_heap w new = None"
  shows "\<exists>w' fs. notify_watch fd' wd new path bits w = Some (wd, w') \<and> handling fd i ps (es @ fs) w' \<and> nw_log w' = nw_log w"
proof -
  obtain n xs where n: "nw_object w = Some n" "no_cancel n" "de_fd (no_descriptor n) = fd" "list_rep (nw_heap w) (no_entries n) (xs @ []) (es @ [])"
    using assms(1) by (auto simp: handling_def)
  have len: "length xs = length es" using list_repD(3) [OF n(4)] by simp
  have op: "descriptor_is_open (no_descriptor n)" using assms(1) n(3) by (simp add: handling_def descriptor_is_open_def)
  obtain h where h: "list_push_back (nw_heap w) (no_entries n) \<lparr>ne_id = wd, ne_path = path\<rparr> new = Some (h, new)"
    "list_rep h (no_entries n) (xs @ [new]) (es @ [\<lparr>ne_id = wd, ne_path = path\<rparr>])"
    using list_insert_ok [OF n(4) len assms(2), of "\<lparr>ne_id = wd, ne_path = path\<rparr>"] by (auto simp: list_push_back_def list_end_def)
  show ?thesis
  proof (cases "0 \<le> sint wd")
    case True
    let ?w = "w\<lparr>nw_heap := h, nw_watched := nw_watched w @ [(wd, path, bits)]\<rparr>"
    have "notify_watch fd' wd new path bits w = Some (wd, ?w)" using n(1) op h(1) True by (simp add: notify_watch_def)
    moreover have "handling fd i ps (es @ [\<lparr>ne_id = wd, ne_path = path\<rparr>]) ?w" using assms(1) n h(2) by (auto simp: handling_def)
    ultimately show ?thesis by (intro exI [of _ ?w] exI [of _ "[\<lparr>ne_id = wd, ne_path = path\<rparr>]"]) simp
  next
    case False
    then have "notify_watch fd' wd new path bits w = Some (wd, w)" using n(1) op by (simp add: notify_watch_def)
    then show ?thesis using assms(1) by (intro exI [of _ w] exI [of _ "[]"]) simp
  qed
qed

lemma destruct_ok:
  assumes "handling fd i ps es w"
  shows "\<exists>w'. notify_destruct w = Some w' \<and> gone fd i ps es w' \<and> nw_log w' = nw_log w"
proof -
  obtain n xs where n: "nw_object w = Some n" "no_cancel n" "de_fd (no_descriptor n) = fd" "list_rep (nw_heap w) (no_entries n) xs es"
    and i: "nw_freed w = ps" "rc_interest w = i" "i fd \<noteq> None" "0 \<le> fd"
    using assms by (auto simp: handling_def)
  obtain h where h: "list_destruct (nw_heap w) (no_entries n) True = Some (h, es)"
    using list_destruct_ok [OF n(4), of True] by auto
  show ?thesis
    using n(1-3) i h
    by (auto simp: notify_destruct_def notify_clear_def descriptor_close_def descriptor_is_open_def reactor_delete_def gone_def
        notify_release_entry_def)
qed

lemma perform_allowed:
  assumes "handling fd i ps es w \<or> gone fd i ps es w" "notify_allowed x w"
  shows "\<exists>w' fs. notify_perform x w = Some w' \<and> (handling fd i ps (es @ fs) w' \<or> gone fd i ps (es @ fs) w') \<and> nw_log w' = nw_log w"
proof (cases x)
  case (Watch_Path fd' wd new path bits)
  then have "handling fd i ps es w" "nw_heap w new = None" using assms by (auto simp: gone_def)
  from watch_ok [OF this, of fd' wd path bits] show ?thesis unfolding Watch_Path by force
next
  case Destruct_Notify
  then have "handling fd i ps es w" using assms by (auto simp: gone_def)
  from destruct_ok [OF this] show ?thesis unfolding Destruct_Notify by (metis append_Nil2 notify_perform.simps(3))
next
  case Free_Notify
  then have "gone fd i ps es w" "nw_object w \<noteq> None" using assms by (auto simp: handling_def)
  then show ?thesis unfolding Free_Notify by (intro exI [of _ "w\<lparr>nw_object := None\<rparr>"] exI [of _ "[]"]) (simp add: gone_def)
qed (use assms in simp)

lemma notify_actions_allowed:
  "handling fd i ps es w \<or> gone fd i ps es w \<Longrightarrow> actions_allowed xs w \<Longrightarrow>
   \<exists>w' fs. notify_actions xs w = Some w' \<and> (handling fd i ps (es @ fs) w' \<or> gone fd i ps (es @ fs) w') \<and> nw_log w' = nw_log w"
proof (induction xs arbitrary: w es)
  case Nil
  then show ?case by (intro exI [of _ w] exI [of _ "[]"]) simp
next
  case (Cons x xs)
  obtain w1 fs where w1: "notify_perform x w = Some w1" "handling fd i ps (es @ fs) w1 \<or> gone fd i ps (es @ fs) w1" "nw_log w1 = nw_log w"
    using perform_allowed [OF Cons.prems(1), of x] Cons.prems(2) by auto
  from Cons.IH [OF w1(2)] Cons.prems(2) w1(1) obtain w' gs where "notify_actions xs w1 = Some w'"
    "handling fd i ps (es @ fs @ gs) w' \<or> gone fd i ps (es @ fs @ gs) w'" "nw_log w' = nw_log w" using w1(3) by auto
  then show ?case using w1(1) by auto
qed

section \<open>The callback meets its specification\<close>

definition notified :: "notify_entry list \<Rightarrow> inotify_event \<Rightarrow> notify_event" where
  "notified es ev = \<lparr>ny_id = iv_wd ev, ny_path = ne_path (the (entry_of es (iv_wd ev))), ny_name = iv_name ev, ny_mask = iv_mask ev\<rparr>"

lemma entry_of_more: "entry_of es wd = Some x \<Longrightarrow> entry_of (es @ fs) wd = Some x \<and> ne_id x = wd"
  unfolding entry_of_def by (induction es) (auto split: if_splits)

lemma entry_of_distinct: "distinct (map ne_id es) \<Longrightarrow> x \<in> set es \<Longrightarrow> entry_of es (ne_id x) = Some x"
  unfolding entry_of_def by (induction es) auto

lemma notified_path: "distinct (map ne_id es) \<Longrightarrow> x \<in> set es \<Longrightarrow> ne_id x = iv_wd ev \<Longrightarrow> ny_path (notified es ev) = ne_path x"
  using entry_of_distinct [of es x] by (simp add: notified_def)

lemma dispatch_notify_ok:
  assumes "handling fd i ps es w" "notify_polite user"
  shows "\<exists>w' fs. notify_dispatch user handler ev w = Some w' \<and>
    (handling fd i ps (es @ fs) w' \<or> gone fd i ps (es @ fs) w') \<and> nw_log w' = nw_log w @ [ev]"
proof -
  let ?w = "w\<lparr>nw_log := nw_log w @ [ev]\<rparr>"
  have h: "handling fd i ps es ?w" using assms(1) by (simp add: handling_def)
  show ?thesis
  proof (cases "h_callback handler")
    case None
    then show ?thesis using h by (intro exI [of _ ?w] exI [of _ "[]"]) (simp add: notify_dispatch_def)
  next
    case (Some c)
    then show ?thesis using notify_actions_allowed [OF disjI1 [OF h], of "user c (h_state handler) ev ?w"] assms(2)
      by (simp add: notify_dispatch_def notify_polite_def Let_def)
  qed
qed

lemma entry_of_kept: "\<forall>ev \<in> A. entry_of es (iv_wd ev) \<noteq> None \<Longrightarrow> ev \<in> A \<Longrightarrow> notified (es @ fs) ev = notified es ev"
  using entry_of_more by (fastforce simp: notified_def)

lemma events_loop_step:
  assumes v: "inotify_valid ev" and x: "entry_of es (iv_wd ev) = Some x"
    and n: "nw_object w = Some n" "list_rep (nw_heap w) (no_entries n) xs es" and b: "buf = pre @ inotify_bytes ev @ post"
  shows "events_loop user buf (length pre) w = do {
      w \<leftarrow> notify_dispatch user (no_handler n) (notified es ev) w;
      (if nw_cancel w then Some (w, True) else events_loop user buf (length (pre @ inotify_bytes ev)) w) }"
proof -
  note f = record_fields [OF v b]
  have id: "ne_id x = iv_wd ev" using entry_of_more [OF x] by blast
  have es: "es \<noteq> []" using x by (auto simp: entry_of_def)
  obtain a e where a: "list_front (nw_heap w) (no_entries n) = Some a" "entry_find (nw_heap w) (no_entries n) (iv_wd ev) a = Some e"
    "Option.bind (nw_heap w e) nd_object = Some x"
    using find_entry [OF n(2) es, of "iv_wd ev"] unfolding x bind_eq_Some_conv by blast
  then obtain it where it: "nw_heap w e = Some it" "nd_object it = Some x" unfolding bind_eq_Some_conv by blast
  define len where "len = (word_of_nat (length (iv_name ev) + iv_pad ev) :: u32)"
  have len: "unat len = length (iv_name ev) + iv_pad ev"
    unfolding len_def using v by (intro unat_of_nat_32) (simp add: inotify_valid_def)
  have name: "(if len \<noteq> 0 then c_string buf (length pre + 16) else Some []) = Some (iv_name ev)"
  proof (cases "length (iv_name ev) + iv_pad ev = 0")
    case True
    then show ?thesis by (simp add: len_def)
  next
    case False
    then have "len \<noteq> 0" using len by (metis unat_0)
    then show ?thesis using f(4) [OF False] by simp
  qed
  have p: "length pre < length buf" "length (pre @ inotify_bytes ev) = length pre + 16 + unat len" using b f(5) len by simp_all
  have ev: "\<lparr>ny_id = ne_id x, ny_path = ne_path x, ny_name = iv_name ev, ny_mask = iv_mask ev\<rparr> = notified es ev"
    by (simp add: notified_def x id)
  show ?thesis
    unfolding p(2) events_loop.simps [of user buf "length pre" w] f(1,2) f(3) [folded len_def]
    using p(1) n(1) a(1,2) it ev by (simp add: name)
qed

lemma events_loop_ok:
  assumes user: "notify_polite user"
  shows "handling fd i ps es w \<Longrightarrow> \<forall>ev \<in> set evs. inotify_valid ev \<and> entry_of es (iv_wd ev) \<noteq> None \<Longrightarrow>
    \<exists>w' b k fs. events_loop user (pre @ concat (map inotify_bytes evs)) (length pre) w = Some (w', b) \<and> k \<le> length evs \<and>
      nw_log w' = nw_log w @ map (notified es) (take k evs) \<and>
      (if b then gone fd i ps (es @ fs) w' \<and> 0 < k else handling fd i ps (es @ fs) w' \<and> k = length evs)"
proof (induction evs arbitrary: pre es w)
  case Nil
  then show ?case by (intro exI [of _ w] exI [of _ False] exI [of _ 0] exI [of _ "[]"]) (simp add: events_loop.simps)
next
  case (Cons ev evs)
  let ?buf = "pre @ concat (map inotify_bytes (ev # evs))"
  obtain x where x: "entry_of es (iv_wd ev) = Some x" using Cons.prems(2) by auto
  obtain n xs where n: "nw_object w = Some n" "list_rep (nw_heap w) (no_entries n) xs es" using Cons.prems(1) by (auto simp: handling_def)
  obtain w1 fs where w1: "notify_dispatch user (no_handler n) (notified es ev) w = Some w1"
    "handling fd i ps (es @ fs) w1 \<or> gone fd i ps (es @ fs) w1" "nw_log w1 = nw_log w @ [notified es ev]"
    using dispatch_notify_ok [OF Cons.prems(1) user, of "no_handler n" "notified es ev"] by blast
  have run: "events_loop user ?buf (length pre) w =
      (if nw_cancel w1 then Some (w1, True) else events_loop user ?buf (length (pre @ inotify_bytes ev)) w1)"
    using events_loop_step [OF _ x n, of ?buf pre "concat (map inotify_bytes evs)" user] Cons.prems(2) w1(1) by simp
  show ?case
  proof (cases "nw_cancel w1")
    case True
    then have "gone fd i ps (es @ fs) w1" using w1(2) by (auto simp: handling_def)
    then show ?thesis using run True w1(3) by (intro exI [of _ w1] exI [of _ True] exI [of _ "Suc 0"] exI [of _ fs]) simp
  next
    case False
    then have h: "handling fd i ps (es @ fs) w1" using w1(2) by (auto simp: gone_def)
    have known: "\<forall>ev \<in> set evs. entry_of es (iv_wd ev) \<noteq> None" using Cons.prems(2) by simp
    have "\<forall>ev \<in> set evs. inotify_valid ev \<and> entry_of (es @ fs) (iv_wd ev) \<noteq> None"
      using Cons.prems(2) entry_of_more by fastforce
    from Cons.IH [OF h this, of "pre @ inotify_bytes ev"] obtain w' b k gs where
      l: "events_loop user ?buf (length (pre @ inotify_bytes ev)) w1 = Some (w', b)" "k \<le> length evs"
      "nw_log w' = nw_log w1 @ map (notified (es @ fs)) (take k evs)"
      "if b then gone fd i ps ((es @ fs) @ gs) w' \<and> 0 < k else handling fd i ps ((es @ fs) @ gs) w' \<and> k = length evs"
      by (auto simp only: append_assoc list.map concat.simps)
    have "map (notified (es @ fs)) (take k evs) = map (notified es) (take k evs)"
      using entry_of_kept [OF known] by (auto dest: in_set_takeD)
    then show ?thesis using run False w1(3) l
      by (intro exI [of _ w'] exI [of _ b] exI [of _ "Suc k"] exI [of _ "fs @ gs"]) (simp only: if_False take_Suc_Cons list.map append_assoc append_Cons append_Nil list.size, simp)
  qed
qed

lemma read_loop_ok:
  assumes user: "notify_polite user"
  shows "handling fd i ps es w \<Longrightarrow> \<forall>ev \<in> set (concat evss). inotify_valid ev \<and> entry_of es (iv_wd ev) \<noteq> None \<Longrightarrow>
    \<exists>w' b k fs. notify_read_loop user (map (\<lambda>evs. concat (map inotify_bytes evs)) evss) w = Some (w', b) \<and> k \<le> length (concat evss) \<and>
      nw_log w' = nw_log w @ map (notified es) (take k (concat evss)) \<and>
      (if b then gone fd i ps (es @ fs) w' \<and> 0 < k else handling fd i ps (es @ fs) w' \<and> k = length (concat evss))"
proof (induction evss arbitrary: es w)
  case Nil
  then show ?case
    by (intro exI [of _ w] exI [of _ False] exI [of _ 0] exI [of _ "[]"]) (auto simp: handling_def descriptor_is_open_def)
next
  case (Cons evs evss)
  obtain n where n: "nw_object w = Some n" "descriptor_is_open (no_descriptor n)"
    using Cons.prems(1) by (auto simp: handling_def descriptor_is_open_def)
  have "\<forall>ev \<in> set evs. inotify_valid ev \<and> entry_of es (iv_wd ev) \<noteq> None" using Cons.prems(2) by simp
  from events_loop_ok [OF user Cons.prems(1) this, where pre = "[]"] obtain w1 b k fs where
    l: "events_loop user (concat (map inotify_bytes evs)) 0 w = Some (w1, b)" "k \<le> length evs"
    "nw_log w1 = nw_log w @ map (notified es) (take k evs)"
    "if b then gone fd i ps (es @ fs) w1 \<and> 0 < k else handling fd i ps (es @ fs) w1 \<and> k = length evs" by auto
  show ?case
  proof (cases b)
    case True
    then show ?thesis using n l by (intro exI [of _ w1] exI [of _ True] exI [of _ k] exI [of _ fs]) simp
  next
    case False
    have known: "\<forall>ev \<in> set (concat evss). entry_of es (iv_wd ev) \<noteq> None" using Cons.prems(2) by auto
    have "\<forall>ev \<in> set (concat evss). inotify_valid ev \<and> entry_of (es @ fs) (iv_wd ev) \<noteq> None"
      using Cons.prems(2) entry_of_more by fastforce
    from Cons.IH [OF _ this, of w1] False l(4) obtain w' b' k' gs where
      r: "notify_read_loop user (map (\<lambda>evs. concat (map inotify_bytes evs)) evss) w1 = Some (w', b')" "k' \<le> length (concat evss)"
      "nw_log w' = nw_log w1 @ map (notified (es @ fs)) (take k' (concat evss))"
      "if b' then gone fd i ps ((es @ fs) @ gs) w' \<and> 0 < k' else handling fd i ps ((es @ fs) @ gs) w' \<and> k' = length (concat evss)" by auto
    have "map (notified (es @ fs)) (take k' (concat evss)) = map (notified es) (take k' (concat evss))"
      using entry_of_kept [OF known] by (auto dest: in_set_takeD)
    then show ?thesis using n l(1-3) False l(4) r
      by (intro exI [of _ w'] exI [of _ b'] exI [of _ "length evs + k'"] exI [of _ "fs @ gs"]) (simp split: if_splits)
  qed
qed

text \<open>A notifier outside of its callback, with entries \<open>es\<close>, open on \<open>fd\<close>.\<close>

definition watching :: "int \<Rightarrow> notify_entry list \<Rightarrow> notify_world \<Rightarrow> bool" where
  "watching fd es w \<longleftrightarrow> rc_interest w fd \<noteq> None \<and> 0 \<le> fd \<and>
     (\<exists>n xs. nw_object w = Some n \<and> \<not> no_cancel n \<and> de_fd (no_descriptor n) = fd \<and> list_rep (nw_heap w) (no_entries n) xs es)"

lemma callback_start:
  assumes "watching fd es w" "nw_object w = Some n"
  shows "handling fd (rc_interest w) (nw_freed w) es (w\<lparr>nw_object := Some (n\<lparr>no_cancel := True\<rparr>), nw_cancel := False\<rparr>)"
  using assms by (auto simp: watching_def handling_def)

lemma notify_callback_ok:
  assumes "watching fd es w" "notify_polite user"
    and "\<forall>ev \<in> set (concat evss). inotify_valid ev \<and> entry_of es (iv_wd ev) \<noteq> None"
  shows "\<exists>w' k fs. notify_callback user (map (\<lambda>evs. concat (map inotify_bytes evs)) evss) w = Some w' \<and>
    nw_log w' = nw_log w @ map (notified es) (take k (concat evss)) \<and>
    (if nw_cancel w' then nw_freed w' = nw_freed w @ map ne_path (es @ fs) \<and> rc_interest w' = (rc_interest w)(fd := None) \<and> 0 < k
     else watching fd (es @ fs) w' \<and> take k (concat evss) = concat evss)"
proof -
  obtain n where n: "nw_object w = Some n" using assms(1) by (auto simp: watching_def)
  let ?w = "w\<lparr>nw_object := Some (n\<lparr>no_cancel := True\<rparr>), nw_cancel := False\<rparr>"
  from read_loop_ok [OF assms(2) callback_start [OF assms(1) n] assms(3)] obtain w1 b k fs where
    l: "notify_read_loop user (map (\<lambda>evs. concat (map inotify_bytes evs)) evss) ?w = Some (w1, b)"
    "nw_log w1 = nw_log w @ map (notified es) (take k (concat evss))"
    "if b then gone fd (rc_interest w) (nw_freed w) (es @ fs) w1 \<and> 0 < k
     else handling fd (rc_interest w) (nw_freed w) (es @ fs) w1 \<and> k = length (concat evss)" by auto
  show ?thesis
  proof (cases b)
    case True
    then show ?thesis using n l by (intro exI [of _ w1] exI [of _ k] exI [of _ fs]) (simp add: notify_callback_def gone_def)
  next
    case False
    then obtain m xs where m: "nw_object w1 = Some m" "de_fd (no_descriptor m) = fd" "list_rep (nw_heap w1) (no_entries m) xs (es @ fs)"
      "\<not> nw_cancel w1" "rc_interest w1 = rc_interest w" "rc_interest w fd \<noteq> None" "0 \<le> fd" "k = length (concat evss)"
      using l(3) by (auto simp: handling_def)
    let ?w' = "w1\<lparr>nw_object := Some (m\<lparr>no_cancel := False\<rparr>)\<rparr>"
    have "watching fd (es @ fs) ?w'" using m by (auto simp: watching_def)
    then show ?thesis using n l(1,2) False m
      by (intro exI [of _ ?w'] exI [of _ k] exI [of _ fs]) (simp add: notify_callback_def)
  qed
qed

text \<open>
  C9. When every record the kernel wrote names a watch that is in the list of the notifier - the record of an overflow, which
  names -1, does not, and makes the callback fail (\<open>notify_unknown_fails\<close>) - the callback decodes the records and dispatches
  their events in order, each once, with the name in the record and the path of the first entry in the list
  that has the number of the watch. That is the path of the watch itself when the numbers are distinct; after \<open>notify_clear\<close>
  they need not be (\<open>notify_stale_path\<close>). This holds whatever the program
  does meanwhile, short of stopping all watches (\<open>notify_clear_fails\<close>): it may watch more paths, and it may destroy the notifier
  and free its memory.
  Then no further event is dispatched, every path and entry has been freed, the descriptor is
  closed, and the freed memory is not touched again; else all events have been dispatched.
\<close>

theorem notify_delivers:
  assumes "watching fd es w" "notify_polite user"
    and "\<forall>ev \<in> set (concat evss). inotify_valid ev \<and> entry_of es (iv_wd ev) \<noteq> None"
  shows "\<exists>w' k fs. notify_callback user (map (\<lambda>evs. concat (map inotify_bytes evs)) evss) w = Some w' \<and>
    nw_log w' = nw_log w @ map (notified es) (take k (concat evss)) \<and>
    (if nw_cancel w' then nw_freed w' = nw_freed w @ map ne_path (es @ fs) \<and> rc_interest w' = (rc_interest w)(fd := None) \<and> 0 < k
     else watching fd (es @ fs) w' \<and> take k (concat evss) = concat evss) \<and>
    (distinct (map ne_id es) \<longrightarrow> (\<forall>ev \<in> set (concat evss). \<forall>x \<in> set es. ne_id x = iv_wd ev \<longrightarrow> ny_path (notified es ev) = ne_path x))"
  using notify_callback_ok [OF assms] notified_path by blast

text \<open>A notifier that watches two paths, and a program that destroys it on the first event.\<close>

definition two_watches :: notify_world where
  "two_watches = \<lparr>rc_epoll_fd = 3, rc_active = True, rc_descriptors = 1, rc_time = 0, rc_event = 0, rc_event_end = 0, rc_batch = [],
     rc_interest = [4 \<mapsto> (0, 50)],
     nw_object = Some \<lparr>no_handler = \<lparr>h_callback = Some 0, h_state = 0\<rparr>,
       no_descriptor = \<lparr>de_handler = reactor_handler_default, de_epoll_handler = reactor_handler_default, de_fd = 4, de_mask = 1\<rparr>,
       no_entries = 1, no_errors = 0, no_cancel = False, no_address = 50\<rparr>,
     nw_heap = [1 \<mapsto> \<lparr>nd_next = 2, nd_previous = 3, nd_object = None\<rparr>,
       2 \<mapsto> \<lparr>nd_next = 3, nd_previous = 1, nd_object = Some \<lparr>ne_id = 1, ne_path = ''/a''\<rparr>\<rparr>,
       3 \<mapsto> \<lparr>nd_next = 1, nd_previous = 2, nd_object = Some \<lparr>ne_id = 2, ne_path = ''/b''\<rparr>\<rparr>],
     nw_cancel = False, nw_freed = [], nw_watched = [], nw_log = []\<rparr>"

definition two_entries :: "notify_entry list" where
  "two_entries = [\<lparr>ne_id = 1, ne_path = ''/a''\<rparr>, \<lparr>ne_id = 2, ne_path = ''/b''\<rparr>]"

definition destroying_user :: notify_user where
  "destroying_user c s ev w = (if nw_object w = None \<or> nw_cancel w then [] else [Destruct_Notify])"

lemma two_watches_ok: "watching 4 two_entries two_watches"
  unfolding watching_def two_watches_def two_entries_def
  by (simp, rule exI [of _ "[2, 3]"])
    (simp add: list_rep_def ring_def list_next_def list_previous_def object_of_def)

theorem notify_delivers_witness:
  "\<exists>w' k. notify_callback destroying_user [inotify_bytes \<lparr>iv_wd = 2, iv_mask = 8, iv_cookie = 0, iv_name = ''x'', iv_pad = 3\<rparr>] two_watches = Some w' \<and>
    nw_log w' = map (notified two_entries) (take k [\<lparr>iv_wd = 2, iv_mask = 8, iv_cookie = 0, iv_name = ''x'', iv_pad = 3\<rparr>])"
proof -
  let ?ev = "\<lparr>iv_wd = 2, iv_mask = 8, iv_cookie = 0, iv_name = ''x'', iv_pad = 3\<rparr>"
  have "notify_polite destroying_user" by (simp add: notify_polite_def destroying_user_def)
  moreover have "\<forall>ev \<in> set (concat [[?ev]]). inotify_valid ev \<and> entry_of two_entries (iv_wd ev) \<noteq> None"
    by (simp add: inotify_valid_def entry_of_def two_entries_def)
  ultimately show ?thesis
    using notify_delivers [OF two_watches_ok, of destroying_user "[[?ev]]"] by (simp add: two_watches_def) blast
qed

text \<open>
  A record whose watch descriptor is not in the list, such as the -1 the kernel writes when
  its queue of events has overflowed, makes the callback fail its assertion, whatever the program does.
\<close>

theorem notify_unknown_fails:
  assumes "watching fd es w" "es \<noteq> []" "inotify_valid ev" "entry_of es (iv_wd ev) = None"
  shows "notify_callback user ((inotify_bytes ev @ rest) # reads) w = None"
proof -
  obtain n xs where n: "nw_object w = Some n" "descriptor_is_open (no_descriptor n)" "list_rep (nw_heap w) (no_entries n) xs es"
    using assms(1) by (auto simp: watching_def descriptor_is_open_def)
  let ?w = "w\<lparr>nw_object := Some (n\<lparr>no_cancel := True\<rparr>), nw_cancel := False\<rparr>"
  let ?buf = "[] @ inotify_bytes ev @ rest"
  note f = record_fields [OF assms(3) refl [of ?buf]]
  have "do { e \<leftarrow> list_front (nw_heap w) (no_entries n); e \<leftarrow> entry_find (nw_heap w) (no_entries n) (iv_wd ev) e;
      Option.bind (nw_heap w e) nd_object } = None"
    using find_entry [OF n(3) assms(2), of "iv_wd ev"] assms(4) by simp
  moreover have "0 < length ?buf" using f(5) by simp
  ultimately have "events_loop user ?buf 0 ?w = None"
    using f(1) n(1) by (subst events_loop.simps) (auto simp: bind_eq_None_conv split: Option.bind_split)
  then show ?thesis using n(1,2) by (simp add: notify_callback_def)
qed

theorem notify_unknown_fails_witness:
  "notify_callback destroying_user [inotify_bytes \<lparr>iv_wd = -1, iv_mask = 0x4000, iv_cookie = 0, iv_name = [], iv_pad = 0\<rparr> @ []] two_watches = None"
  by (rule notify_unknown_fails [OF two_watches_ok]) (simp_all add: two_entries_def inotify_valid_def entry_of_def)

text \<open>A notifier from its construction on: the first watch opens it.\<close>

lemma construct_watch:
  assumes "0 \<le> fd" "rc_interest w fd = None" "0 \<le> sint wd" "new \<noteq> l" "nw_heap w new = None"
  shows "\<exists>w'. notify_watch fd wd new path bits (notify_construct a l callback state memory w) = Some (wd, w') \<and>
    watching fd [\<lparr>ne_id = wd, ne_path = path\<rparr>] w'"
proof -
  let ?x = "\<lparr>ne_id = wd, ne_path = path\<rparr>"
  have "list_rep (list_construct (nw_heap w) l) l ([] @ []) ([] @ [])" using list_construct_rep by simp
  moreover have "list_construct (nw_heap w) l new = None" using assms(4,5) by (simp add: list_construct_def)
  ultimately obtain h where "list_push_back (list_construct (nw_heap w) l) l ?x new = Some (h, new)" "list_rep h l [new] [?x]"
    using list_insert_ok [of "list_construct (nw_heap w) l" l "[]" "[]" "[]" "[]" new ?x] by (auto simp: list_push_back_def list_end_def)
  then show ?thesis
    using assms(1-3)
    by (auto simp: notify_watch_def notify_construct_def descriptor_construct_def descriptor_is_open_def descriptor_open_def
        reactor_add_def watching_def Let_def intro!: exI [of _ "[new]"])
qed

text \<open>Stopping all watches closes the descriptor and keeps the entries.\<close>

lemma clear_watch:
  assumes "watching fd es w" "0 \<le> fd'" "rc_interest w fd' = None" "0 \<le> sint wd" "nw_heap w new = None"
  shows "\<exists>w1 w2. notify_clear w = Some w1 \<and> notify_watch fd' wd new path bits w1 = Some (wd, w2) \<and>
    watching fd' (es @ [\<lparr>ne_id = wd, ne_path = path\<rparr>]) w2 \<and> nw_log w2 = nw_log w"
proof -
  let ?x = "\<lparr>ne_id = wd, ne_path = path\<rparr>"
  obtain n xs where n: "nw_object w = Some n" "\<not> no_cancel n" "de_fd (no_descriptor n) = fd" "list_rep (nw_heap w) (no_entries n) (xs @ []) (es @ [])"
    and fd: "0 \<le> fd" "rc_interest w fd \<noteq> None" "fd' \<noteq> fd"
    using assms(1,3) by (auto simp: watching_def intro: that)
  have len: "length xs = length es" using list_repD(3) [OF n(4)] by simp
  obtain h where h: "list_push_back (nw_heap w) (no_entries n) ?x new = Some (h, new)" "list_rep h (no_entries n) (xs @ [new]) (es @ [?x])"
    using list_insert_ok [OF n(4) len assms(5), of ?x] by (auto simp: list_push_back_def list_end_def)
  obtain w1 where w1: "notify_clear w = Some w1" "nw_heap w1 = nw_heap w" "nw_log w1 = nw_log w"
    "rc_interest w1 = (rc_interest w)(fd := None)" "nw_object w1 = Some (n\<lparr>no_descriptor := (no_descriptor n)\<lparr>de_fd := -1, de_mask := 0\<rparr>\<rparr>)"
    using n fd by (simp add: notify_clear_def descriptor_close_def descriptor_is_open_def reactor_delete_def)
  show ?thesis
    using n(2) w1 h assms(2-4) fd(3)
    by (auto simp: notify_watch_def descriptor_is_open_def descriptor_open_def reactor_add_def watching_def Let_def intro!: exI [of _ "xs @ [new]"])
qed

text \<open>
  C34. After all watches were stopped the entries of the old ones are still in the list. The kernel
  numbers the watches of the new descriptor from 1 again, so an event of a new watch is reported with
  the path of the old watch of the same number.
\<close>

theorem notify_stale_path:
  assumes "watching fd es w" "entry_of es wd = Some x" "0 \<le> sint wd"
    and "0 \<le> fd'" "rc_interest w fd' = None" "nw_heap w new = None" "inotify_valid ev" "iv_wd ev = wd"
  shows "\<exists>w1 w2 w3. notify_clear w = Some w1 \<and> notify_watch fd' wd new path bits w1 = Some (wd, w2) \<and>
    notify_callback (\<lambda>c s ev w. []) [inotify_bytes ev] w2 = Some w3 \<and> map ny_path (nw_log w3) = map ny_path (nw_log w) @ [ne_path x]"
proof -
  obtain w1 w2 where w: "notify_clear w = Some w1" "notify_watch fd' wd new path bits w1 = Some (wd, w2)"
    "watching fd' (es @ [\<lparr>ne_id = wd, ne_path = path\<rparr>]) w2" "nw_log w2 = nw_log w"
    using clear_watch [OF assms(1,4,5,3,6)] by blast
  let ?es = "es @ [\<lparr>ne_id = wd, ne_path = path\<rparr>]"
  have x: "entry_of ?es wd = Some x" using entry_of_more [OF assms(2)] by simp
  have "notify_polite (\<lambda>c s ev w. [])" by (simp add: notify_polite_def)
  moreover have "\<forall>ev' \<in> set (concat [[ev]]). inotify_valid ev' \<and> entry_of ?es (iv_wd ev') \<noteq> None" using assms(7,8) x by simp
  ultimately obtain w3 k where w3: "notify_callback (\<lambda>c s ev w. []) [inotify_bytes ev] w2 = Some w3"
    "nw_log w3 = nw_log w2 @ map (notified ?es) (take k [ev])" "if nw_cancel w3 then 0 < k else take k [ev] = [ev]"
    using notify_callback_ok [OF w(3), of "\<lambda>c s ev w. []" "[[ev]]"] by (simp only: concat.simps list.map append_Nil2) metis
  have "take k [ev] = [ev]" using w3(3) by (cases k) (auto split: if_splits)
  then have "map ny_path (nw_log w3) = map ny_path (nw_log w) @ [ne_path x]"
    using w3(2) w(4) x assms(8) by (simp add: notified_def)
  then show ?thesis using w(1,2) w3(1) by blast
qed

theorem notify_stale_path_witness:
  "\<exists>w1 w2 w3. notify_clear two_watches = Some w1 \<and> notify_watch 7 1 9 ''/c'' 8 w1 = Some (1, w2) \<and>
    notify_callback (\<lambda>c s ev w. []) [inotify_bytes \<lparr>iv_wd = 1, iv_mask = 8, iv_cookie = 0, iv_name = [], iv_pad = 0\<rparr>] w2 = Some w3 \<and>
    map ny_path (nw_log w3) = [''/a'']"
  using notify_stale_path [OF two_watches_ok, of 1 "\<lparr>ne_id = 1, ne_path = ''/a''\<rparr>" 7 9
      "\<lparr>iv_wd = 1, iv_mask = 8, iv_cookie = 0, iv_name = [], iv_pad = 0\<rparr>" "''/c''" 8]
  by (simp add: two_watches_def two_entries_def entry_of_def inotify_valid_def)

text \<open>
  A program that stops all watches while it handles an event makes the callback fail its assertion: it reads from the
  descriptor -1, and the read does not fail with \<open>EAGAIN\<close>.
\<close>

lemma notify_clear_fails:
  assumes "watching fd es w" "nw_object w = Some n" "h_callback (no_handler n) \<noteq> None"
    and "inotify_valid ev" "entry_of es (iv_wd ev) \<noteq> None"
  shows "notify_callback (\<lambda>c s ev w. [Clear_Watches]) (inotify_bytes ev # reads) w = None"
proof -
  let ?n = "n\<lparr>no_cancel := True\<rparr>"
  let ?w = "w\<lparr>nw_object := Some ?n, nw_cancel := False\<rparr>"
  obtain xs where n: "de_fd (no_descriptor n) = fd" "list_rep (nw_heap w) (no_entries n) xs es" "0 \<le> fd" "rc_interest w fd \<noteq> None"
    using assms(1,2) by (auto simp: watching_def)
  obtain x where x: "entry_of es (iv_wd ev) = Some x" using assms(5) by blast
  obtain c where c: "h_callback (no_handler n) = Some c" using assms(3) by blast
  have rep: "list_rep (nw_heap ?w) (no_entries ?n) xs es" "nw_object ?w = Some ?n" using n by simp_all
  have run: "events_loop (\<lambda>c s ev w. [Clear_Watches]) (inotify_bytes ev) 0 ?w = do {
      w \<leftarrow> notify_dispatch (\<lambda>c s ev w. [Clear_Watches]) (no_handler ?n) (notified es ev) ?w;
      (if nw_cancel w then Some (w, True)
       else events_loop (\<lambda>c s ev w. [Clear_Watches]) (inotify_bytes ev) (length (inotify_bytes ev)) w) }"
    using events_loop_step [OF assms(4) x rep(2,1), of "inotify_bytes ev" "[]" "[]" "\<lambda>c s ev w. [Clear_Watches]"]
    by (simp only: append_Nil append_Nil2 list.size(3) simp_thms)
  obtain w1 where w1: "notify_dispatch (\<lambda>c s ev w. [Clear_Watches]) (no_handler ?n) (notified es ev) ?w = Some w1"
    "\<not> nw_cancel w1" "nw_object w1 = Some (?n\<lparr>no_descriptor := (no_descriptor n)\<lparr>de_fd := -1, de_mask := 0\<rparr>\<rparr>)"
    using n c by (simp add: notify_dispatch_def Let_def notify_clear_def descriptor_close_def descriptor_is_open_def reactor_delete_def)
  have "events_loop (\<lambda>c s ev w. [Clear_Watches]) (inotify_bytes ev) 0 ?w = Some (w1, False)"
    unfolding run w1(1) using w1(2) by (simp add: events_loop.simps)
  moreover have "notify_read_loop (\<lambda>c s ev w. [Clear_Watches]) reads w1 = None"
    using w1(3) by (cases reads) (simp_all add: descriptor_is_open_def)
  ultimately show ?thesis using assms(2) n by (simp add: notify_callback_def descriptor_is_open_def)
qed

end
