(* ===== verification/Async.thy ===== *)
theory Async
  imports Timer
begin

text \<open>
  \<^verbatim>\<open>src/reactor/async.c\<close>: calls that run in a thread of their own and report to the event loop
  through an \<open>event\<close>. The thread and the program run at the same time, so the theory is a step
  relation: a world is the reactor together with the \<open>async\<close> object, the event descriptors of the
  kernel with their counters, and the threads, and every move of it is a stretch of code between two
  accesses to what they share. \<open>async_cancel\<close> is two moves, because a thread can run between the one
  that closes the event and the one that cancels the thread.

  The callback of the program is an argument, in three parts: what it reads when the thread enters it
  (\<open>ho_enter\<close>), what it does to the state of the program when the thread leaves it
  (\<open>ho_leave\<close>), and what it does on \<open>ASYNC_DONE\<close> (\<open>ho_done\<close>). That state is the \<open>more\<close> part of the world.
  A failed assertion, an access to a freed object, and \<open>pthread_cancel\<close> on a detached
  thread that has ended, are \<^term>\<open>None\<close>.
\<close>

section \<open>The state\<close>

definition ASYNC_CALL :: nat where "ASYNC_CALL = 0"
definition ASYNC_DONE :: nat where "ASYNC_DONE = 1"

text \<open>\<open>as_thread\<close> is \<^term>\<open>None\<close> for 0; \<open>as_address\<close> is the address of the embedded descriptor.\<close>

record async =
  as_handler :: "nat handler"
  as_thread :: "nat option"
  as_event :: "unit event"
  as_address :: nat

text \<open>Where a thread is: not started, in the callback, behind it, behind the test of the event, at its end.\<close>

datatype 'l phase = Created | Calling "'l option" | Called_Back | Signalling | Ended

record 'l thread =
  th_phase :: "'l phase"
  th_cancelled :: bool

datatype async_occurrence = Call_Left nat | Done_Dispatched

record 'l async_world = "nat reactor" +
  aw_object :: "async option"
  aw_counters :: "int \<rightharpoonup> u64"
  aw_threads :: "nat \<rightharpoonup> 'l thread"
  aw_cancelling :: bool
  aw_log :: "async_occurrence list"

record ('l, 'z) async_hooks =
  ho_enter :: "nat \<Rightarrow> nat \<Rightarrow> 'z \<Rightarrow> 'l option"
  ho_leave :: "'l \<Rightarrow> 'z \<Rightarrow> 'z option"
  ho_done :: "nat \<Rightarrow> reactor_event \<Rightarrow> 'z \<Rightarrow> 'z option"

lemma async_more_simps [simp]:
  "async_world.more (async_world.more_update f w) = f (async_world.more w)"
  "async_world.more_update f (async_world.more_update g w) = async_world.more_update (\<lambda>z. f (g z)) w"
  by (cases w; simp)+

section \<open>The code\<close>

abbreviation async_fd :: "async \<Rightarrow> int" where "async_fd a \<equiv> descriptor_fd (en_descriptor (as_event a))"

definition async_construct :: "nat \<Rightarrow> nat option \<Rightarrow> nat \<Rightarrow> unit event \<Rightarrow> ('l, 'z) async_world_scheme \<Rightarrow> ('l, 'z) async_world_scheme" where
  "async_construct address callback state memory w =
     w\<lparr>aw_object := Some \<lparr>as_handler = reactor_handler_construct callback state, as_thread = None,
         as_event = event_construct address (Some ()) address memory, as_address = address\<rparr>\<rparr>"

text \<open>\<open>fd\<close> is the answer of \<open>eventfd\<close>, \<open>t\<close> the new thread and \<open>e\<close> the answer of \<open>pthread_create\<close>.\<close>

definition async_call :: "int \<Rightarrow> nat \<Rightarrow> int \<Rightarrow> ('l, 'z) async_world_scheme \<Rightarrow> ('l, 'z) async_world_scheme option" where
  "async_call fd t e w = do {
     a \<leftarrow> aw_object w;
     (ev, w) \<leftarrow> event_open (as_address a) fd (as_event a) w;
     let w = w\<lparr>aw_object := Some (a\<lparr>as_event := ev, as_thread := Some t\<rparr>), aw_counters := (aw_counters w)(fd \<mapsto> 0)\<rparr>;
     (if e = 0 then Some (w\<lparr>aw_threads := (aw_threads w)(t \<mapsto> \<lparr>th_phase = Created, th_cancelled = False\<rparr>)\<rparr>) else None) }"

text \<open>The two halves of \<open>async_cancel\<close>, inside of the test whether the event is open.\<close>

definition async_cancel_event :: "('l, 'z) async_world_scheme \<Rightarrow> ('l, 'z) async_world_scheme option" where
  "async_cancel_event w = do {
     a \<leftarrow> aw_object w;
     (if event_is_open (as_event a) then do {
        (ev, w) \<leftarrow> event_close (as_address a) (as_event a) w;
        Some (w\<lparr>aw_object := Some (a\<lparr>as_event := ev\<rparr>), aw_counters := (aw_counters w)(async_fd a := None), aw_cancelling := True\<rparr>) }
      else Some w) }"

definition async_cancel_thread :: "('l, 'z) async_world_scheme \<Rightarrow> ('l, 'z) async_world_scheme option" where
  "async_cancel_thread w = do {
     a \<leftarrow> aw_object w;
     (case as_thread a of
        None \<Rightarrow> Some (w\<lparr>aw_cancelling := False\<rparr>)
      | Some t \<Rightarrow> do {
          th \<leftarrow> aw_threads w t;
          (if th_phase th = Ended then None
           else Some (w\<lparr>aw_threads := (aw_threads w)(t \<mapsto> th\<lparr>th_cancelled := True\<rparr>),
                        aw_object := Some (a\<lparr>as_thread := None\<rparr>), aw_cancelling := False\<rparr>)) }) }"

definition async_cancel :: "('l, 'z) async_world_scheme \<Rightarrow> ('l, 'z) async_world_scheme option" where
  "async_cancel w = do {
     w \<leftarrow> async_cancel_event w;
     (if aw_cancelling w then async_cancel_thread w else Some w) }"

definition async_destruct :: "('l, 'z) async_world_scheme \<Rightarrow> ('l, 'z) async_world_scheme option" where
  "async_destruct w = do {
     w \<leftarrow> async_cancel w;
     a \<leftarrow> aw_object w;
     (ev, w) \<leftarrow> event_destruct (as_address a) (as_event a) w;
     Some (w\<lparr>aw_object := Some (a\<lparr>as_event := ev\<rparr>)\<rparr>) }"

definition async_callback :: "('l, 'z) async_hooks \<Rightarrow> nat \<Rightarrow> ('l, 'z) async_world_scheme \<Rightarrow> ('l, 'z) async_world_scheme option" where
  "async_callback hooks type w = do {
     a \<leftarrow> aw_object w;
     (if type = EVENT_SIGNAL then do {
        w \<leftarrow> async_cancel (w\<lparr>aw_object := Some (a\<lparr>as_thread := None\<rparr>)\<rparr>);
        a \<leftarrow> aw_object w;
        z \<leftarrow> reactor_dispatch (ho_done hooks) (as_handler a) ASYNC_DONE 0 (async_world.more w);
        Some (async_world.more_update (\<lambda>_. z) (w\<lparr>aw_log := aw_log w @ [Done_Dispatched]\<rparr>)) }
      else None) }"

text \<open>\<open>event_callback\<close> takes the signal from the counter, which counts down by one (\<open>EFD_SEMAPHORE\<close>).\<close>

definition async_deliver :: "('l, 'z) async_hooks \<Rightarrow> ('l, 'z) async_world_scheme \<Rightarrow> ('l, 'z) async_world_scheme option" where
  "async_deliver hooks w = do {
     a \<leftarrow> aw_object w;
     c \<leftarrow> aw_counters w (async_fd a);
     (type, count) \<leftarrow> event_callback DESCRIPTOR_READ (if c \<noteq> 0 then Some 1 else None);
     async_callback hooks type (w\<lparr>aw_counters := (aw_counters w)(async_fd a \<mapsto> c - 1)\<rparr>) }"

text \<open>\<open>async_thread\<close>, from one access to the next.\<close>

definition set_phase :: "nat \<Rightarrow> 'l phase \<Rightarrow> ('l, 'z) async_world_scheme \<Rightarrow> ('l, 'z) async_world_scheme option" where
  "set_phase t ph w = do {
     th \<leftarrow> aw_threads w t;
     Some (w\<lparr>aw_threads := (aw_threads w)(t \<mapsto> th\<lparr>th_phase := ph\<rparr>)\<rparr>) }"

definition thread_enter :: "('l, 'z) async_hooks \<Rightarrow> nat \<Rightarrow> ('l, 'z) async_world_scheme \<Rightarrow> ('l, 'z) async_world_scheme option" where
  "thread_enter hooks t w = do {
     a \<leftarrow> aw_object w;
     (case h_callback (as_handler a) of
        None \<Rightarrow> set_phase t (Calling None) w
      | Some c \<Rightarrow> do {
          l \<leftarrow> ho_enter hooks c (h_state (as_handler a)) (async_world.more w);
          set_phase t (Calling (Some l)) w }) }"

definition thread_leave :: "('l, 'z) async_hooks \<Rightarrow> nat \<Rightarrow> ('l, 'z) async_world_scheme \<Rightarrow> ('l, 'z) async_world_scheme option" where
  "thread_leave hooks t w = do {
     th \<leftarrow> aw_threads w t;
     z \<leftarrow> (case th_phase th of Calling (Some l) \<Rightarrow> ho_leave hooks l (async_world.more w) | _ \<Rightarrow> Some (async_world.more w));
     set_phase t Called_Back (async_world.more_update (\<lambda>_. z) (w\<lparr>aw_log := aw_log w @ [Call_Left t]\<rparr>)) }"

definition thread_test :: "nat \<Rightarrow> ('l, 'z) async_world_scheme \<Rightarrow> ('l, 'z) async_world_scheme option" where
  "thread_test t w = do {
     a \<leftarrow> aw_object w;
     set_phase t (if event_is_open (as_event a) then Signalling else Ended) w }"

definition thread_signal :: "nat \<Rightarrow> ('l, 'z) async_world_scheme \<Rightarrow> ('l, 'z) async_world_scheme option" where
  "thread_signal t w = do {
     a \<leftarrow> aw_object w;
     c \<leftarrow> aw_counters w (async_fd a);
     c \<leftarrow> event_signal (as_event a) c;
     set_phase t Ended (w\<lparr>aw_counters := (aw_counters w)(async_fd a \<mapsto> c)\<rparr>) }"

section \<open>The moves\<close>

text \<open>
  Moves of the program: it starts a call, cancels it, frees the closed object, and works on its own
  state. Moves of the loop: it delivers the signal. Moves of a thread; a thread that has been
  cancelled ends at the next cancellation point, which is in the callback or the \<open>write\<close> of the signal.
\<close>

datatype 'z async_act =
    Call_Async int nat
  | Cancel_Begins
  | Cancel_Ends
  | Free_Async
  | Client 'z
  | Deliver
  | Enter nat
  | Leave nat
  | Test nat
  | Signal nat
  | Stop nat

definition async_is_open :: "('l, 'z) async_world_scheme \<Rightarrow> bool" where
  "async_is_open w = (case aw_object w of None \<Rightarrow> False | Some a \<Rightarrow> event_is_open (as_event a))"

definition phase_of :: "('l, 'z) async_world_scheme \<Rightarrow> nat \<Rightarrow> 'l phase option" where
  "phase_of w t = map_option th_phase (aw_threads w t)"

definition is_cancelled :: "('l, 'z) async_world_scheme \<Rightarrow> nat \<Rightarrow> bool" where
  "is_cancelled w t = (case aw_threads w t of None \<Rightarrow> False | Some th \<Rightarrow> th_cancelled th)"

fun is_calling :: "'l phase option \<Rightarrow> bool" where
  "is_calling (Some (Calling l)) = True"
| "is_calling _ = False"

primrec async_enabled :: "'z async_act \<Rightarrow> ('l, 'z) async_world_scheme \<Rightarrow> bool" where
  "async_enabled (Call_Async fd t) w = (\<not> aw_cancelling w \<and> aw_object w \<noteq> None \<and> 0 \<le> fd \<and> rc_interest w fd = None \<and> aw_threads w t = None)"
| "async_enabled Cancel_Begins w = (\<not> aw_cancelling w \<and> aw_object w \<noteq> None)"
| "async_enabled Cancel_Ends w = aw_cancelling w"
| "async_enabled Free_Async w = (\<not> aw_cancelling w \<and> aw_object w \<noteq> None \<and> \<not> async_is_open w)"
| "async_enabled (Client z) w = (\<not> aw_cancelling w)"
| "async_enabled Deliver w = (\<not> aw_cancelling w \<and> async_is_open w \<and>
     (case aw_object w of None \<Rightarrow> False | Some a \<Rightarrow> (case aw_counters w (async_fd a) of None \<Rightarrow> False | Some c \<Rightarrow> c \<noteq> 0)))"
| "async_enabled (Enter t) w = (phase_of w t = Some Created)"
| "async_enabled (Leave t) w = is_calling (phase_of w t)"
| "async_enabled (Test t) w = (phase_of w t = Some Called_Back)"
| "async_enabled (Signal t) w = (phase_of w t = Some Signalling \<and> \<not> is_cancelled w t)"
| "async_enabled (Stop t) w = (is_cancelled w t \<and> (is_calling (phase_of w t) \<or> phase_of w t = Some Signalling))"

primrec async_move :: "('l, 'z) async_hooks \<Rightarrow> 'z async_act \<Rightarrow> ('l, 'z) async_world_scheme \<Rightarrow> ('l, 'z) async_world_scheme option" where
  "async_move hooks (Call_Async fd t) w = async_call fd t 0 w"
| "async_move hooks Cancel_Begins w = async_cancel_event w"
| "async_move hooks Cancel_Ends w = async_cancel_thread w"
| "async_move hooks Free_Async w = Some (w\<lparr>aw_object := None\<rparr>)"
| "async_move hooks (Client z) w = Some (async_world.more_update (\<lambda>_. z) w)"
| "async_move hooks Deliver w = async_deliver hooks w"
| "async_move hooks (Enter t) w = thread_enter hooks t w"
| "async_move hooks (Leave t) w = thread_leave hooks t w"
| "async_move hooks (Test t) w = thread_test t w"
| "async_move hooks (Signal t) w = thread_signal t w"
| "async_move hooks (Stop t) w = set_phase t Ended w"

definition system_move :: "'z async_act \<Rightarrow> bool" where
  "system_move m \<longleftrightarrow> (case m of Call_Async fd t \<Rightarrow> False | Cancel_Begins \<Rightarrow> False | Cancel_Ends \<Rightarrow> False | Free_Async \<Rightarrow> False | Client z \<Rightarrow> False | _ \<Rightarrow> True)"

text \<open>The worlds that moves of a kind lead to.\<close>

inductive async_reaches :: "('l, 'z) async_hooks \<Rightarrow> ('z async_act \<Rightarrow> ('l, 'z) async_world_scheme \<Rightarrow> bool) \<Rightarrow>
    ('l, 'z) async_world_scheme \<Rightarrow> ('l, 'z) async_world_scheme \<Rightarrow> bool" for hooks kind where
  start: "async_reaches hooks kind w w"
| move: "async_reaches hooks kind w w' \<Longrightarrow> kind m w' \<Longrightarrow> async_enabled m w' \<Longrightarrow> async_move hooks m w' = Some w'' \<Longrightarrow>
    async_reaches hooks kind w w''"

inductive_cases async_reachesE: "async_reaches hooks kind w w'"

text \<open>Whatever the order in which threads and loop run, a world with the property is reached, and no move fails.\<close>

inductive inevitable :: "('l, 'z) async_hooks \<Rightarrow> (('l, 'z) async_world_scheme \<Rightarrow> bool) \<Rightarrow> ('l, 'z) async_world_scheme \<Rightarrow> bool"
  for hooks goal where
  now: "goal w \<Longrightarrow> inevitable hooks goal w"
| later: "\<exists>m. system_move m \<and> async_enabled m w \<Longrightarrow>
    (\<And>m. system_move m \<Longrightarrow> async_enabled m w \<Longrightarrow> \<exists>w'. async_move hooks m w = Some w' \<and> inevitable hooks goal w') \<Longrightarrow>
    inevitable hooks goal w"

text \<open>A patient program starts no call, cancels nothing and touches nothing of its own while a call runs.\<close>

definition patient :: "'z async_act \<Rightarrow> ('l, 'z) async_world_scheme \<Rightarrow> bool" where
  "patient m w \<longleftrightarrow> (case m of Call_Async fd t \<Rightarrow> \<not> async_is_open w | Cancel_Begins \<Rightarrow> \<not> async_is_open w | Client z \<Rightarrow> \<not> async_is_open w | _ \<Rightarrow> True)"

lemma is_calling_iff: "is_calling x \<longleftrightarrow> (\<exists>l. x = Some (Calling l))"
  by (cases x rule: is_calling.cases) simp_all

text \<open>The history of a patient program whose calls ran in the threads \<open>ts\<close>.\<close>

definition past :: "nat list \<Rightarrow> async_occurrence list" where
  "past ts = concat (map (\<lambda>t. [Call_Left t, Done_Dispatched]) ts)"

section \<open>The interface to the callback\<close>

text \<open>
  What a callback has to keep to: when a call starts the state of the program is \<open>ready\<close>, the
  callback then returns and leaves it \<open>finished\<close>, and on \<open>ASYNC_DONE\<close> it makes it \<open>rest\<close>.
\<close>

locale async_client =
  fixes hooks :: "('l, 'z) async_hooks" and handler :: "nat handler"
    and ready :: "'z \<Rightarrow> bool" and entered :: "'l option \<Rightarrow> 'z \<Rightarrow> bool" and finished :: "'z \<Rightarrow> bool" and rest :: "'z \<Rightarrow> bool"
  assumes enters: "h_callback handler = Some c \<Longrightarrow> ready z \<Longrightarrow> \<exists>l. ho_enter hooks c (h_state handler) z = Some l \<and> entered (Some l) z"
    and default_enters: "h_callback handler = None \<Longrightarrow> ready z \<Longrightarrow> entered None z"
    and leaves: "entered (Some l) z \<Longrightarrow> \<exists>z'. ho_leave hooks l z = Some z' \<and> finished z'"
    and default_leaves: "entered None z \<Longrightarrow> finished z"
    and dones: "finished z \<Longrightarrow> \<exists>z'. reactor_dispatch (ho_done hooks) handler ASYNC_DONE 0 z = Some z' \<and> rest z'"
begin

text \<open>
  \<open>ts\<close> are the threads whose calls are done. \<open>pace\<close> relates the phase of the running thread to the counter of the event, the state of the program and the log.
\<close>

fun pace :: "'l phase \<Rightarrow> u64 \<Rightarrow> 'z \<Rightarrow> async_occurrence list \<Rightarrow> nat \<Rightarrow> bool" where
  "pace Created c z log t = (c = 0 \<and> ready z \<and> log = [])"
| "pace (Calling l) c z log t = (c = 0 \<and> entered l z \<and> log = [])"
| "pace Called_Back c z log t = (c = 0 \<and> finished z \<and> log = [Call_Left t])"
| "pace Signalling c z log t = (c = 0 \<and> finished z \<and> log = [Call_Left t])"
| "pace Ended c z log t = (c = 1 \<and> finished z \<and> log = [Call_Left t])"

definition quiet :: "nat list \<Rightarrow> ('l, 'z) async_world_scheme \<Rightarrow> bool" where
  "quiet ts w \<longleftrightarrow> \<not> aw_cancelling w \<and> (\<forall>a. aw_object w = Some a \<longrightarrow> as_handler a = handler \<and> \<not> event_is_open (as_event a)) \<and>
     (\<forall>t th. aw_threads w t = Some th \<longrightarrow> th_phase th = Ended \<and> \<not> th_cancelled th) \<and> aw_log w = past ts"

definition settled :: "nat list \<Rightarrow> ('l, 'z) async_world_scheme \<Rightarrow> bool" where
  "settled ts w \<longleftrightarrow> quiet ts w \<and> rest (async_world.more w) \<and> aw_object w \<noteq> None"

definition running :: "nat list \<Rightarrow> nat \<Rightarrow> ('l, 'z) async_world_scheme \<Rightarrow> bool" where
  "running ts t w \<longleftrightarrow> \<not> aw_cancelling w \<and>
     (\<exists>a ph c log. aw_object w = Some a \<and> as_handler a = handler \<and> as_thread a = Some t \<and> event_is_open (as_event a) \<and>
        rc_interest w (async_fd a) \<noteq> None \<and> aw_counters w (async_fd a) = Some c \<and>
        aw_threads w t = Some \<lparr>th_phase = ph, th_cancelled = False\<rparr> \<and> pace ph c (async_world.more w) log t \<and> aw_log w = past ts @ log) \<and>
     (\<forall>t' th. t' \<noteq> t \<longrightarrow> aw_threads w t' = Some th \<longrightarrow> th_phase th = Ended \<and> \<not> th_cancelled th)"

definition async_inv :: "('l, 'z) async_world_scheme \<Rightarrow> bool" where
  "async_inv w \<longleftrightarrow> (\<exists>ts. quiet ts w \<or> (\<exists>t. running ts t w))"

text \<open>The program keeps to the interface: it starts a call when its state is ready.\<close>

definition keeps_to :: "'z async_act \<Rightarrow> ('l, 'z) async_world_scheme \<Rightarrow> bool" where
  "keeps_to m w \<longleftrightarrow> patient m w \<and> (\<forall>fd t. m = Call_Async fd t \<longrightarrow> ready (async_world.more w))"

lemma call_running:
  assumes "quiet ts w" "aw_object w \<noteq> None" "0 \<le> fd" "rc_interest w fd = None" "ready (async_world.more w)"
  shows "\<exists>w'. async_call fd t 0 w = Some w' \<and> running ts t w' \<and> phase_of w' t = Some Created"
proof -
  obtain a where a: "aw_object w = Some a" "as_handler a = handler" "\<not> event_is_open (as_event a)"
    using assms(1,2) by (auto simp: quiet_def)
  then show ?thesis
    using assms
    by (auto simp: async_call_def event_open_def descriptor_open_def reactor_add_def Let_def running_def quiet_def event_is_open_def
        descriptor_is_open_def descriptor_fd_def phase_of_def)
qed

lemma quiet_moves:
  assumes "quiet ts w" "keeps_to m w" "async_enabled m w"
  shows "\<exists>w'. async_move hooks m w = Some w' \<and> (quiet ts w' \<or> (\<exists>t. running ts t w'))"
proof (cases m)
  case (Call_Async fd t)
  then have "aw_object w \<noteq> None" "0 \<le> fd" "rc_interest w fd = None" "ready (async_world.more w)"
    using assms(2,3) by (simp_all add: keeps_to_def)
  from call_running [OF assms(1) this, of t] show ?thesis using Call_Async by auto
next
  case Free_Async
  then show ?thesis using assms(1) by (simp add: quiet_def)
next
  case Cancel_Begins
  then show ?thesis using assms(1,3) by (auto simp: quiet_def async_cancel_event_def)
next
  case (Client z)
  then show ?thesis using assms(1) by (simp add: quiet_def)
qed (use assms in \<open>auto simp: quiet_def async_is_open_def phase_of_def is_cancelled_def is_calling_iff split: option.splits\<close>)

lemma set_phase_running:
  assumes "running ts t w" "aw_object w = Some a" "aw_counters w (async_fd a) = Some c" "pace ph c (async_world.more w) log t"
    and "aw_log w = past ts @ log"
  shows "\<exists>w'. set_phase t ph w = Some w' \<and> running ts t w'"
  using assms by (auto simp: running_def set_phase_def)

lemma not_cancelled: "running ts t w \<Longrightarrow> \<not> is_cancelled w t'"
  by (cases "t' = t") (auto simp: running_def is_cancelled_def split: option.splits)

lemma deliver_quiet:
  assumes "running ts t w" "async_enabled Deliver w"
  shows "\<exists>w'. async_deliver hooks w = Some w' \<and> settled (ts @ [t]) w'"
proof -
  obtain a ph c log where a: "aw_object w = Some a" "as_handler a = handler" "as_thread a = Some t" "event_is_open (as_event a)"
    "rc_interest w (async_fd a) \<noteq> None" "aw_counters w (async_fd a) = Some c"
    "aw_threads w t = Some \<lparr>th_phase = ph, th_cancelled = False\<rparr>" "pace ph c (async_world.more w) log t" "aw_log w = past ts @ log"
    "\<not> aw_cancelling w"
    and others: "\<forall>t' th. t' \<noteq> t \<longrightarrow> aw_threads w t' = Some th \<longrightarrow> th_phase th = Ended \<and> \<not> th_cancelled th"
    using assms(1) unfolding running_def by blast
  have c: "c = 1" "ph = Ended" "finished (async_world.more w)" "log = [Call_Left t]"
    using assms(2) a(1,6,8) by (auto elim: pace.elims)
  then obtain z' where z': "reactor_dispatch (ho_done hooks) handler ASYNC_DONE 0 (async_world.more w) = Some z'" "rest z'"
    using dones by blast
  have "\<forall>t' th. aw_threads w t' = Some th \<longrightarrow> th_phase th = Ended \<and> \<not> th_cancelled th"
  proof (intro allI impI)
    fix t' th assume "aw_threads w t' = Some th"
    then show "th_phase th = Ended \<and> \<not> th_cancelled th" using a(7) c(2) others by (cases "t' = t") auto
  qed
  then show ?thesis
    using a c z'
    by (auto simp: async_deliver_def event_callback_def async_callback_def async_cancel_def async_cancel_event_def async_cancel_thread_def
        event_close_def event_is_open_def descriptor_close_def reactor_delete_def settled_def quiet_def past_def descriptor_is_open_def descriptor_fd_def Let_def)
qed

lemma running_moves:
  assumes "running ts t w" "keeps_to m w" "async_enabled m w"
  shows "\<exists>w'. async_move hooks m w = Some w' \<and> (running ts t w' \<or> settled (ts @ [t]) w')"
proof -
  obtain a ph c log where a: "aw_object w = Some a" "as_handler a = handler" "as_thread a = Some t" "event_is_open (as_event a)"
    "rc_interest w (async_fd a) \<noteq> None" "aw_counters w (async_fd a) = Some c"
    "aw_threads w t = Some \<lparr>th_phase = ph, th_cancelled = False\<rparr>" "pace ph c (async_world.more w) log t" "aw_log w = past ts @ log"
    "\<not> aw_cancelling w"
    and others: "\<forall>t' th. t' \<noteq> t \<longrightarrow> aw_threads w t' = Some th \<longrightarrow> th_phase th = Ended \<and> \<not> th_cancelled th"
    using assms(1) unfolding running_def by blast
  have op: "async_is_open w" using a(1,4) by (simp add: async_is_open_def)
  have only: "t' = t" if "phase_of w t' = Some p" "p \<noteq> Ended" for t' p
    using that others by (auto simp: phase_of_def)
  show ?thesis
  proof (cases m)
    case (Enter t')
    then have t: "t' = t" "ph = Created" using assms(3) only a(7) by (auto simp: phase_of_def)
    show ?thesis
    proof (cases "h_callback handler")
      case None
      then have "pace (Calling None) c (async_world.more w) log t" using a(8) t(2) default_enters by simp
      from set_phase_running [OF assms(1) a(1,6) this a(9)] show ?thesis using Enter t(1) a(1,2) None by (auto simp: thread_enter_def)
    next
      case (Some cb)
      then obtain l where l: "ho_enter hooks cb (h_state handler) (async_world.more w) = Some l" "entered (Some l) (async_world.more w)"
        using enters [OF Some] a(8) t(2) by auto
      then have "pace (Calling (Some l)) c (async_world.more w) log t" using a(8) t(2) by simp
      from set_phase_running [OF assms(1) a(1,6) this a(9)] show ?thesis
        using Enter t(1) a(1,2) Some l(1) by (auto simp: thread_enter_def)
    qed
  next
    case (Leave t')
    then obtain l where "phase_of w t' = Some (Calling l)" using assms(3) by (auto simp: is_calling_iff)
    then have t: "t' = t" "ph = Calling l" using only [of t' "Calling l"] a(7) by (auto simp: phase_of_def)
    let ?z = "async_world.more w"
    have l: "entered l ?z" "log = []" "c = 0" using a(8) t(2) by simp_all
    have "\<exists>z'. (case l of None \<Rightarrow> Some ?z | Some l \<Rightarrow> ho_leave hooks l ?z) = Some z' \<and> finished z'"
      using l(1) by (cases l) (auto dest: leaves default_leaves)
    then obtain z' where z': "(case l of None \<Rightarrow> Some ?z | Some l \<Rightarrow> ho_leave hooks l ?z) = Some z'" "finished z'" by blast
    let ?w = "async_world.more_update (\<lambda>_. z') (w\<lparr>aw_log := aw_log w @ [Call_Left t]\<rparr>)"
    have "thread_leave hooks t w = set_phase t Called_Back ?w"
      using a(7) t(2) z'(1) by (cases l) (simp_all add: thread_leave_def)
    moreover have "\<exists>w'. set_phase t Called_Back ?w = Some w' \<and> running ts t w'"
      using a l z' others by (auto simp: running_def set_phase_def)
    ultimately show ?thesis using Leave t(1) by auto
  next
    case (Test t')
    then have t: "t' = t" "ph = Called_Back" using assms(3) only a(7) by (auto simp: phase_of_def)
    then have "pace Signalling c (async_world.more w) log t" using a(8) by simp
    from set_phase_running [OF assms(1) a(1,6) this a(9)] show ?thesis using Test t(1) a(1,4) by (auto simp: thread_test_def)
  next
    case (Signal t')
    then have t: "t' = t" "ph = Signalling" using assms(3) only [of t' Signalling] a(7) by (auto simp: phase_of_def)
    then have "c = 0" using a(8) by simp
    then have "event_signal (as_event a) c = Some 1"
      using a(4) by (simp add: event_signal_def event_is_open_def descriptor_is_open_def descriptor_fd_def)
    then have "\<exists>w'. thread_signal t w = Some w' \<and> running ts t w'"
      using a t(2) others by (auto simp: running_def set_phase_def thread_signal_def)
    then show ?thesis using Signal t(1) by auto
  next
    case Deliver
    then have "\<exists>w'. async_deliver hooks w = Some w' \<and> settled (ts @ [t]) w'" using deliver_quiet [OF assms(1)] assms(3) by simp
    then show ?thesis using Deliver by auto
  qed (use assms(2,3) op a(10) not_cancelled [OF assms(1)] in \<open>auto simp: keeps_to_def patient_def\<close>)
qed

lemma async_inv_move:
  assumes "async_inv w" "keeps_to m w" "async_enabled m w"
  shows "\<exists>w'. async_move hooks m w = Some w' \<and> async_inv w'"
  using assms(1) quiet_moves [OF _ assms(2,3)] running_moves [OF _ assms(2,3)] unfolding async_inv_def settled_def by metis

lemma async_inv_reaches: "async_reaches hooks keeps_to w w' \<Longrightarrow> async_inv w \<Longrightarrow> async_inv w'"
proof (induction rule: async_reaches.induct)
  case (move w w' m w'')
  then show ?case using async_inv_move [of w' m] by auto
qed

text \<open>How many moves a call still needs.\<close>

fun phase_rank :: "'l phase \<Rightarrow> nat" where
  "phase_rank Created = 5"
| "phase_rank (Calling l) = 4"
| "phase_rank Called_Back = 3"
| "phase_rank Signalling = 2"
| "phase_rank Ended = 1"

definition call_rank :: "nat \<Rightarrow> ('l, 'z) async_world_scheme \<Rightarrow> nat" where
  "call_rank t w = (case phase_of w t of None \<Rightarrow> 0 | Some ph \<Rightarrow> phase_rank ph)"

lemma system_keeps_to: "system_move m \<Longrightarrow> keeps_to m w"
  by (cases m) (simp_all add: system_move_def keeps_to_def patient_def)

lemma set_phase_phase: "set_phase t ph w = Some w' \<Longrightarrow> phase_of w' t = Some ph"
  by (auto simp: set_phase_def phase_of_def bind_eq_Some_conv)

lemma quiet_running: "quiet ts w \<Longrightarrow> running ts' t w \<Longrightarrow> False"
  by (auto simp: quiet_def running_def)

lemma move_rank:
  assumes "running ts t w" "system_move m" "async_enabled m w" "async_move hooks m w = Some w'" "running ts t w'"
  shows "call_rank t w' < call_rank t w"
proof -
  have only: "t' = t" if "phase_of w t' = Some p" "p \<noteq> Ended" for t' p
    using that assms(1) by (fastforce simp: running_def phase_of_def)
  show ?thesis
  proof (cases m)
    case (Enter t')
    then have "t' = t" "phase_of w t = Some Created" using only [of t' Created] assms(3) by auto
    then show ?thesis using Enter assms(4)
      by (auto simp: thread_enter_def call_rank_def dest!: set_phase_phase split: option.splits Option.bind_splits)
  next
    case (Leave t')
    then obtain l where l: "phase_of w t' = Some (Calling l)" using assms(3) by (auto simp: is_calling_iff)
    then have "t' = t" using only by blast
    then show ?thesis using l Leave assms(4) by (auto simp: thread_leave_def call_rank_def dest!: set_phase_phase split: Option.bind_splits)
  next
    case (Test t')
    then have "t' = t" "phase_of w t = Some Called_Back" using only [of t' Called_Back] assms(3) by auto
    then show ?thesis using Test assms(4)
      by (auto simp: thread_test_def call_rank_def dest!: set_phase_phase split: option.splits Option.bind_splits if_splits)
  next
    case (Signal t')
    then have "t' = t" "phase_of w t = Some Signalling" using only [of t' Signalling] assms(3) by auto
    then show ?thesis using Signal assms(4) by (auto simp: thread_signal_def call_rank_def dest!: set_phase_phase split: Option.bind_splits)
  next
    case Deliver
    then show ?thesis using deliver_quiet [OF assms(1)] assms(3-5) quiet_running unfolding settled_def by fastforce
  next
    case (Stop t')
    then show ?thesis using not_cancelled [OF assms(1)] assms(3) by simp
  qed (use assms(2) in \<open>simp_all add: system_move_def\<close>)
qed

lemma running_log: "running ts t w \<Longrightarrow> async_is_open w \<and> (aw_log w = past ts \<or> aw_log w = past ts @ [Call_Left t])"
proof -
  assume "running ts t w"
  then obtain a ph c log where a: "aw_object w = Some a" "event_is_open (as_event a)" "pace ph c (async_world.more w) log t" "aw_log w = past ts @ log"
    unfolding running_def by blast
  then show ?thesis by (cases ph) (auto simp: async_is_open_def)
qed

lemma running_enabled: "running ts t w \<Longrightarrow> \<exists>m. system_move m \<and> async_enabled m w"
proof -
  assume "running ts t w"
  then obtain a ph c log where a: "aw_object w = Some a" "event_is_open (as_event a)" "aw_counters w (async_fd a) = Some c"
    "aw_threads w t = Some \<lparr>th_phase = ph, th_cancelled = False\<rparr>" "pace ph c (async_world.more w) log t" "\<not> aw_cancelling w"
    unfolding running_def by blast
  show ?thesis
  proof (cases ph)
    case Created
    then show ?thesis using a(4) by (intro exI [of _ "Enter t"]) (simp add: system_move_def phase_of_def)
  next
    case (Calling l)
    then show ?thesis using a(4) by (intro exI [of _ "Leave t"]) (simp add: system_move_def phase_of_def)
  next
    case Called_Back
    then show ?thesis using a(4) by (intro exI [of _ "Test t"]) (simp add: system_move_def phase_of_def)
  next
    case Signalling
    then show ?thesis using a(4) by (intro exI [of _ "Signal t"]) (simp add: system_move_def phase_of_def is_cancelled_def)
  next
    case Ended
    then show ?thesis using a by (intro exI [of _ Deliver]) (simp add: system_move_def async_is_open_def)
  qed
qed

lemma running_done:
  "running ts t w \<Longrightarrow> inevitable hooks (settled (ts @ [t])) w"
proof (induction "call_rank t w" arbitrary: w rule: less_induct)
  case less
  show ?case
  proof (rule inevitable.later [OF running_enabled [OF less.prems]])
    fix m assume m: "system_move m" "async_enabled m w"
    from running_moves [OF less.prems system_keeps_to [OF m(1)] m(2)] obtain w' where
      w': "async_move hooks m w = Some w'" "running ts t w' \<or> settled (ts @ [t]) w'" by blast
    then have "inevitable hooks (settled (ts @ [t])) w'"
      using less.hyps [OF move_rank [OF less.prems m w'(1)]] inevitable.now by blast
    then show "\<exists>w'. async_move hooks m w = Some w' \<and> inevitable hooks (settled (ts @ [t])) w'" using w'(1) by blast
  qed
qed

end

lemma inevitable_mono:
  assumes "inevitable hooks P w" "\<And>w. P w \<Longrightarrow> Q w"
  shows "inevitable hooks Q w"
  using assms(1)
proof (induction rule: inevitable.induct)
  case (now w)
  then show ?case using assms(2) by (intro inevitable.now) blast
next
  case (later w)
  show ?case by (rule inevitable.later [OF later.hyps]) (use later.IH in blast)
qed

section \<open>Calls of callbacks that return\<close>

text \<open>The interface holds for every callback whose parts return, whatever they do to the state of the program.\<close>

definition total_hooks :: "(nat \<Rightarrow> nat \<Rightarrow> 'z \<Rightarrow> 'l) \<Rightarrow> ('l \<Rightarrow> 'z \<Rightarrow> 'z) \<Rightarrow> (nat \<Rightarrow> reactor_event \<Rightarrow> 'z \<Rightarrow> 'z) \<Rightarrow> ('l, 'z) async_hooks" where
  "total_hooks f g h = \<lparr>ho_enter = \<lambda>c s z. Some (f c s z), ho_leave = \<lambda>l z. Some (g l z), ho_done = \<lambda>c ev z. Some (h c ev z)\<rparr>"

interpretation total: async_client "total_hooks f g h" handler "\<lambda>_. True" "\<lambda>_ _. True" "\<lambda>_. True" "\<lambda>_. True"
  for f :: "nat \<Rightarrow> nat \<Rightarrow> 'z \<Rightarrow> 'l" and g h handler
  by unfold_locales (auto simp: total_hooks_def reactor_dispatch_def split: option.splits)

text \<open>A world without calls, as \<open>async_construct\<close> finds it.\<close>

definition no_calls :: "('l, 'z) async_world_scheme \<Rightarrow> bool" where
  "no_calls w \<longleftrightarrow> \<not> aw_cancelling w \<and> aw_threads w = Map.empty \<and> aw_log w = []"

lemma total_keeps_to: "total.keeps_to = patient"
  by (intro ext) (simp add: total.keeps_to_def)

lemma constructed_quiet:
  assumes "no_calls w"
  shows "total.quiet (reactor_handler_construct callback state) [] (async_construct a callback state memory w)"
  using assms by (simp add: no_calls_def total.quiet_def async_construct_def event_construct_def event_is_open_def past_def
      descriptor_construct_def descriptor_is_open_def)

lemma patient_inv:
  assumes "no_calls w" "async_reaches (total_hooks f g h) patient (async_construct a callback state memory w) w'"
  shows "total.async_inv (reactor_handler_construct callback state) w'"
  using total.async_inv_reaches [of f g h _ w', unfolded total_keeps_to, OF assms(2)] constructed_quiet [OF assms(1)]
  unfolding total.async_inv_def by blast

text \<open>
  C6. A program that waits for the end of a call before it starts the next one, cancels or frees
  is safe, in whatever order its thread and the event loop run: no assertion fails, no
  freed object is used and no thread is cancelled. The calls are strictly one behind the other, each runs the callback
  once in its thread, and each is reported as done once, after the callback has returned.
\<close>

theorem async_calls_once:
  assumes "no_calls w" "async_reaches (total_hooks f g h) patient (async_construct a callback state memory w) w'"
  shows "(\<forall>m. patient m w' \<and> async_enabled m w' \<longrightarrow> async_move (total_hooks f g h) m w' \<noteq> None) \<and>
    (\<exists>ts. aw_log w' = past ts \<and> (\<forall>t th. aw_threads w' t = Some th \<and> \<not> async_is_open w' \<longrightarrow> th_phase th = Ended) \<or>
      (\<exists>t. aw_log w' = past ts @ [Call_Left t] \<and> async_is_open w'))"
proof -
  let ?h = "reactor_handler_construct callback state"
  note inv = patient_inv [OF assms]
  have "async_move (total_hooks f g h) m w' \<noteq> None" if "patient m w'" "async_enabled m w'" for m
    using total.async_inv_move [of ?h w' m f g h] inv that unfolding total_keeps_to by auto
  moreover have "\<exists>ts. aw_log w' = past ts \<and> (\<forall>t th. aw_threads w' t = Some th \<and> \<not> async_is_open w' \<longrightarrow> th_phase th = Ended) \<or>
      (\<exists>t. aw_log w' = past ts @ [Call_Left t] \<and> async_is_open w')"
    using inv unfolding total.async_inv_def
  proof (elim exE disjE)
    fix ts assume "total.quiet ?h ts w'"
    then show ?thesis by (intro exI [of _ ts]) (auto simp: total.quiet_def)
  next
    fix ts t assume r: "total.running ?h ts t w'"
    then show ?thesis using total.running_log [OF r] by auto
  qed
  ultimately show ?thesis by blast
qed

text \<open>A world in which a call to a callback that does nothing is in its thread.\<close>

definition bare_world :: "(unit, unit) async_world_scheme" where
  "bare_world = \<lparr>rc_epoll_fd = 3, rc_active = True, rc_descriptors = 0, rc_time = 0, rc_event = 0, rc_event_end = 0, rc_batch = [],
     rc_interest = Map.empty, aw_object = None, aw_counters = Map.empty, aw_threads = Map.empty, aw_cancelling = False, aw_log = [], \<dots> = ()\<rparr>"

definition idle_event :: "unit event" where
  "idle_event = \<lparr>en_handler = reactor_handler_default,
     en_descriptor = \<lparr>de_handler = reactor_handler_default, de_epoll_handler = reactor_handler_default, de_fd = -1, de_mask = 0\<rparr>\<rparr>"

abbreviation idle_hooks :: "(unit, unit) async_hooks" where
  "idle_hooks \<equiv> total_hooks (\<lambda>c s z. ()) (\<lambda>l z. z) (\<lambda>c ev z. z)"

definition called_world :: "(unit, unit) async_world_scheme" where
  "called_world = the (async_call 4 7 0 (async_construct 1 (Some 0) 0 idle_event bare_world))"

lemma bare_world_no_calls: "no_calls bare_world"
  by (simp add: no_calls_def bare_world_def)

lemma called_world_reached:
  "async_reaches idle_hooks patient (async_construct 1 (Some 0) 0 idle_event bare_world) called_world" "async_is_open called_world"
proof -
  let ?w = "async_construct 1 (Some 0) 0 idle_event bare_world"
  have closed: "\<not> async_is_open ?w"
    by (simp add: async_is_open_def async_construct_def event_construct_def event_is_open_def descriptor_construct_def descriptor_is_open_def)
  have call: "\<exists>w'. async_call 4 7 0 ?w = Some w' \<and> async_is_open w'"
    by (simp add: async_call_def async_construct_def bare_world_def event_open_def descriptor_open_def reactor_add_def Let_def
        async_is_open_def event_is_open_def descriptor_is_open_def)
  then have "async_move idle_hooks (Call_Async 4 7) ?w = Some called_world" by (auto simp: called_world_def)
  moreover have "async_enabled (Call_Async 4 7 :: unit async_act) ?w" by (simp add: async_construct_def bare_world_def)
  moreover have "patient (Call_Async 4 7 :: unit async_act) ?w" using closed by (simp add: patient_def)
  ultimately show "async_reaches idle_hooks patient ?w called_world"
    using async_reaches.move [OF async_reaches.start, of patient "Call_Async 4 7"] by blast
  show "async_is_open called_world" using call by (auto simp: called_world_def)
qed

theorem async_calls_once_witness:
  "async_move idle_hooks (Enter 7) called_world \<noteq> None"
proof -
  have "async_enabled (Enter 7 :: unit async_act) called_world"
    by (simp add: called_world_def async_call_def async_construct_def bare_world_def event_open_def descriptor_open_def reactor_add_def Let_def
        phase_of_def)
  moreover have "patient (Enter 7 :: unit async_act) called_world" by (simp add: patient_def)
  ultimately show ?thesis
    using async_calls_once [OF bare_world_no_calls called_world_reached(1)] by blast
qed

text \<open>
  C7. Every call of a patient program ends: in whatever order the thread and the loop run from
  here, no move fails, and the world is reached in which the callback has returned once, the call has
  been reported as done, and the event is closed.
\<close>

theorem async_done_inevitable:
  assumes "no_calls w" "async_reaches (total_hooks f g h) patient (async_construct a callback state memory w) w'" "async_is_open w'"
  shows "\<exists>ts t. (aw_log w' = past ts \<or> aw_log w' = past ts @ [Call_Left t]) \<and>
    inevitable (total_hooks f g h) (\<lambda>v. aw_log v = past (ts @ [t]) \<and> \<not> async_is_open v) w'"
proof -
  let ?h = "reactor_handler_construct callback state"
  have closed: "\<not> async_is_open v \<and> aw_log v = past ts" if "total.quiet ?h ts v" for ts and v :: "('a, 'b) async_world_scheme"
    using that by (auto simp: total.quiet_def async_is_open_def split: option.splits)
  then obtain ts t where r: "total.running ?h ts t w'"
    using patient_inv [OF assms(1,2)] assms(3) unfolding total.async_inv_def by blast
  from total.running_done [OF this] have "inevitable (total_hooks f g h) (\<lambda>v. aw_log v = past (ts @ [t]) \<and> \<not> async_is_open v) w'"
    by (rule inevitable_mono) (use closed in \<open>auto simp: total.settled_def\<close>)
  then show ?thesis using total.running_log [OF r] by blast
qed

theorem async_done_inevitable_witness:
  "\<exists>ts t. inevitable idle_hooks (\<lambda>v. aw_log v = past (ts @ [t]) \<and> \<not> async_is_open v) called_world"
  using async_done_inevitable [OF bare_world_no_calls called_world_reached] by blast

section \<open>Cancelling\<close>

lemma set_phase_frame: "set_phase t ph w = Some w' \<Longrightarrow> aw_object w' = aw_object w \<and> aw_log w' = aw_log w"
  by (auto simp: set_phase_def bind_eq_Some_conv)

text \<open>A thread does not change the object, and reports no call as done.\<close>

lemma thread_frame:
  assumes "async_move hooks m w = Some w'" "m = Enter t \<or> m = Leave t \<or> m = Test t \<or> m = Signal t \<or> m = Stop t"
  shows "aw_object w' = aw_object w \<and> (aw_log w' = aw_log w \<or> aw_log w' = aw_log w @ [Call_Left t])"
  using assms(2)
proof (elim disjE)
  assume "m = Enter t"
  then show ?thesis using assms(1) by (auto simp: thread_enter_def bind_eq_Some_conv dest!: set_phase_frame split: option.splits)
next
  assume "m = Leave t"
  then show ?thesis using assms(1) by (auto simp: thread_leave_def bind_eq_Some_conv dest!: set_phase_frame)
next
  assume "m = Test t"
  then show ?thesis using assms(1) by (auto simp: thread_test_def bind_eq_Some_conv dest!: set_phase_frame)
next
  assume "m = Signal t"
  then show ?thesis using assms(1) by (auto simp: thread_signal_def bind_eq_Some_conv dest!: set_phase_frame)
next
  assume "m = Stop t"
  then show ?thesis using assms(1) by (auto dest!: set_phase_frame)
qed

lemma cancel_thread_frame:
  assumes "async_cancel_thread w = Some w'" "aw_object w = Some a"
  shows "(\<exists>x. aw_object w' = Some (a\<lparr>as_thread := x\<rparr>)) \<and> aw_log w' = aw_log w"
proof (cases "as_thread a")
  case None
  then have "a\<lparr>as_thread := None\<rparr> = a" by (cases a) simp
  then show ?thesis using assms None by (auto simp: async_cancel_thread_def intro: exI [of _ None])
next
  case (Some t)
  then show ?thesis using assms by (auto simp: async_cancel_thread_def bind_eq_Some_conv split: if_splits)
qed

lemma closed_move:
  assumes "\<not> async_is_open w" "async_enabled m w" "async_move hooks m w = Some w'" "\<forall>fd t. m \<noteq> Call_Async fd t"
  shows "\<not> async_is_open w' \<and> count_list (aw_log w') Done_Dispatched = count_list (aw_log w) Done_Dispatched"
proof -
  have kept: ?thesis if "aw_object w' = aw_object w" "aw_log w' = aw_log w \<or> aw_log w' = aw_log w @ [Call_Left t]" for t
    using that assms(1) by (auto simp: async_is_open_def)
  show ?thesis
  proof (cases m)
    case Cancel_Begins
    then have "w' = w" using assms(1,3) by (cases "aw_object w") (simp_all add: async_cancel_event_def async_is_open_def)
    then show ?thesis using assms(1) by simp
  next
    case Cancel_Ends
    then obtain a where a: "aw_object w = Some a" using assms(3) by (cases "aw_object w") (simp_all add: async_cancel_thread_def)
    then show ?thesis using cancel_thread_frame [of w w' a] assms(1,3) Cancel_Ends by (auto simp: async_is_open_def)
  next
    case (Leave t)
    then show ?thesis using kept thread_frame [OF assms(3)] by blast
  next
    case (Enter t)
    then show ?thesis using kept thread_frame [OF assms(3)] by blast
  next
    case (Test t)
    then show ?thesis using kept thread_frame [OF assms(3)] by blast
  next
    case (Signal t)
    then show ?thesis using kept thread_frame [OF assms(3)] by blast
  next
    case (Stop t)
    then show ?thesis using kept thread_frame [OF assms(3)] by blast
  next
    case Free_Async
    then show ?thesis using assms(3) by (auto simp: async_is_open_def)
  next
    case (Client z)
    then show ?thesis using assms(1,3) by (auto simp: async_is_open_def)
  next
    case Deliver
    then show ?thesis using assms(1,2) by simp
  next
    case (Call_Async fd t)
    then show ?thesis using assms(4) by simp
  qed
qed

lemma closed_silent:
  "async_reaches hooks (\<lambda>m v. \<forall>fd t. m \<noteq> Call_Async fd t) w w' \<Longrightarrow> \<not> async_is_open w \<Longrightarrow>
   \<not> async_is_open w' \<and> count_list (aw_log w') Done_Dispatched = count_list (aw_log w) Done_Dispatched"
proof (induction rule: async_reaches.induct)
  case (move w w' m w'')
  then show ?case using closed_move [of w' m hooks w''] by simp
qed simp

lemma cancel_closes:
  assumes "async_cancel w = Some w'"
  shows "\<not> async_is_open w' \<and> aw_log w' = aw_log w"
proof -
  obtain w1 where w1: "async_cancel_event w = Some w1" "(if aw_cancelling w1 then async_cancel_thread w1 else Some w1) = Some w'"
    using assms by (auto simp: async_cancel_def bind_eq_Some_conv)
  obtain a where "aw_object w = Some a" using w1(1) by (auto simp: async_cancel_event_def bind_eq_Some_conv)
  then obtain b where b: "aw_object w1 = Some b" "\<not> event_is_open (as_event b)" "aw_log w1 = aw_log w"
    using w1(1) by (auto simp: async_cancel_event_def event_close_def descriptor_close_def event_is_open_def descriptor_is_open_def
        reactor_delete_def bind_eq_Some_conv Let_def split: if_splits)
  show ?thesis
  proof (cases "aw_cancelling w1")
    case True
    then show ?thesis using w1(2) b cancel_thread_frame [OF _ b(1)] by (auto simp: async_is_open_def)
  next
    case False
    then show ?thesis using w1(2) b by (auto simp: async_is_open_def)
  qed
qed

text \<open>
  C30. After \<open>async_cancel\<close> the call is not reported as done any more, whatever its thread does,
  until the program starts another call.
\<close>

theorem async_cancel_silent:
  assumes "async_cancel w = Some w1" "async_reaches hooks (\<lambda>m v. \<forall>fd t. m \<noteq> Call_Async fd t) w1 w2"
  shows "count_list (aw_log w2) Done_Dispatched = count_list (aw_log w) Done_Dispatched \<and> \<not> async_is_open w2"
proof -
  have "\<not> async_is_open w1 \<and> aw_log w1 = aw_log w" using cancel_closes [OF assms(1)] .
  then show ?thesis using closed_silent [OF assms(2)] by simp
qed

theorem async_cancel_silent_witness:
  "\<exists>w1. async_cancel called_world = Some w1 \<and> count_list (aw_log w1) Done_Dispatched = 0"
proof -
  have "\<exists>w1. async_cancel called_world = Some w1 \<and> aw_log called_world = []"
    by (simp add: called_world_def async_call_def async_construct_def bare_world_def event_construct_def event_open_def descriptor_construct_def
        descriptor_open_def reactor_add_def Let_def async_cancel_def async_cancel_event_def async_cancel_thread_def event_is_open_def
        descriptor_is_open_def event_close_def descriptor_close_def reactor_delete_def)
  then obtain w1 where w1: "async_cancel called_world = Some w1" "aw_log called_world = []" by blast
  have "async_reaches idle_hooks (\<lambda>m v. \<forall>fd t. m \<noteq> Call_Async fd t) w1 w1" by (rule async_reaches.start)
  from async_cancel_silent [OF w1(1) this] show ?thesis using w1 by simp
qed


primrec async_run :: "('l, 'z) async_hooks \<Rightarrow> 'z async_act list \<Rightarrow> ('l, 'z) async_world_scheme \<Rightarrow> ('l, 'z) async_world_scheme option" where
  "async_run hooks [] w = Some w"
| "async_run hooks (m # ms) w = (if async_enabled m w then do { w \<leftarrow> async_move hooks m w; async_run hooks ms w } else None)"

text \<open>The move fails in the world that the moves before it lead to.\<close>

definition fails_after :: "('l, 'z) async_hooks \<Rightarrow> 'z async_act list \<Rightarrow> 'z async_act \<Rightarrow> ('l, 'z) async_world_scheme \<Rightarrow> bool" where
  "fails_after hooks ms m w \<longleftrightarrow> (case async_run hooks ms w of None \<Rightarrow> False | Some v \<Rightarrow> async_enabled m v \<and> async_move hooks m v = None)"

text \<open>
  C33. \<open>async_cancel\<close> is not safe while a call runs. Three runs, each a legal use of the functions by the program:
  the thread tests the event, the event is closed and the thread signals it, which fails its
  assertion; the thread ends before the program cancels it, so that \<open>pthread_cancel\<close> is given
  a thread that does not exist any more; and the program frees the cancelled object
  while the thread has not reached a cancellation point, and the thread then reads it.
\<close>

theorem async_cancel_races:
  assumes "no_calls w" "0 \<le> fd" "rc_interest w fd = None"
  shows "fails_after (total_hooks f g h) [Call_Async fd t, Enter t, Leave t, Test t, Cancel_Begins] (Signal t) (async_construct a callback state memory w) \<and>
    fails_after (total_hooks f g h) [Call_Async fd t, Enter t, Leave t, Test t, Signal t, Cancel_Begins] Cancel_Ends (async_construct a callback state memory w) \<and>
    fails_after (total_hooks f g h) [Call_Async fd t, Enter t, Cancel_Begins, Cancel_Ends, Free_Async, Leave t] (Test t) (async_construct a callback state memory w)"
proof -
  note defs = async_call_def async_construct_def event_construct_def event_open_def descriptor_construct_def descriptor_open_def
    reactor_add_def Let_def async_cancel_event_def async_cancel_thread_def event_is_open_def descriptor_is_open_def event_close_def
    descriptor_close_def reactor_delete_def thread_enter_def thread_leave_def thread_test_def thread_signal_def set_phase_def
    phase_of_def is_cancelled_def async_is_open_def total_hooks_def event_signal_def descriptor_fd_def no_calls_def fails_after_def
    reactor_handler_construct_def reactor_handler_default_def
  have "fails_after (total_hooks f g h) [Call_Async fd t, Enter t, Leave t, Test t, Cancel_Begins] (Signal t) (async_construct a callback state memory w)"
    using assms by (cases callback) (simp_all add: defs)
  moreover have "fails_after (total_hooks f g h) [Call_Async fd t, Enter t, Leave t, Test t, Signal t, Cancel_Begins] Cancel_Ends (async_construct a callback state memory w)"
    using assms by (cases callback) (simp_all add: defs)
  moreover have "fails_after (total_hooks f g h) [Call_Async fd t, Enter t, Cancel_Begins, Cancel_Ends, Free_Async, Leave t] (Test t) (async_construct a callback state memory w)"
    using assms by (cases callback) (simp_all add: defs)
  ultimately show ?thesis by blast
qed

theorem async_cancel_races_witness:
  "fails_after idle_hooks [Call_Async 4 7, Enter 7, Leave 7, Test 7, Cancel_Begins] (Signal 7)
     (async_construct 1 (Some 0) 0 idle_event bare_world)"
  using async_cancel_races [OF bare_world_no_calls, of 4] by (simp add: bare_world_def)

end
