(* ===== verification/Net.thy ===== *)
theory Net
  imports Prelude
begin

text \<open>
  \<^verbatim>\<open>src/reactor/net.c\<close>: addresses, sockets and TLS contexts. The kernel and the C library are
  seen through the resources they hand out: the lists of addresses that are allocated, the open
  sockets and what they are set up for, and the TLS contexts. What the calls answer is an argument;
  a call on a descriptor that is not open fails, as documented. A failed assertion and an access to
  a list of addresses that has been freed are \<^term>\<open>None\<close>.
\<close>

section \<open>Addresses\<close>

text \<open>The first entry of the list, which is the only one the library reads.\<close>

record addrinfo =
  ai_flags :: u32
  ai_family :: u32
  ai_socktype :: u32
  ai_protocol :: u32
  ai_addr :: string

datatype socket_state = Unbound | Bound string | Listening string int | Connecting string

record socket =
  so_family :: u32
  so_type :: u32
  so_protocol :: u32
  so_options :: "(nat \<times> nat) set"
  so_state :: socket_state

record ssl_ctx =
  ctx_certificate :: "string option"
  ctx_private_key :: "string option"

record net =
  nt_addrinfos :: "nat \<rightharpoonup> addrinfo"
  nt_sockets :: "int \<rightharpoonup> socket"
  nt_contexts :: "nat \<rightharpoonup> ssl_ctx"

definition AI_PASSIVE :: u32 where "AI_PASSIVE = 1"
definition SOCK_NONBLOCK :: u32 where "SOCK_NONBLOCK = 0x800"
definition SOL_SOCKET :: nat where "SOL_SOCKET = 1"
definition SO_REUSEADDR :: nat where "SO_REUSEADDR = 2"
definition SO_REUSEPORT :: nat where "SO_REUSEPORT = 15"
definition INT_MAX :: int where "INT_MAX = 0x7FFFFFFF"

text \<open>\<open>freeaddrinfo\<close> of the C library accepts the null pointer.\<close>

definition freeaddrinfo :: "nat option \<Rightarrow> ('z) net_scheme \<Rightarrow> 'z net_scheme option" where
  "freeaddrinfo p w = (case p of
     None \<Rightarrow> Some w
   | Some a \<Rightarrow> if nt_addrinfos w a \<noteq> None then Some (w\<lparr>nt_addrinfos := (nt_addrinfos w)(a := None)\<rparr>) else None)"

record hints =
  hi_family :: u32
  hi_socktype :: u32
  hi_flags :: u32

text \<open>
  \<open>getaddrinfo\<close> answers an error code, and on success the list, which it allocates at an
  address of its choice.
\<close>

type_synonym lookup = "string option \<Rightarrow> string option \<Rightarrow> hints \<Rightarrow> int \<times> (nat \<times> addrinfo) option"

definition net_resolve :: "lookup \<Rightarrow> string option \<Rightarrow> string option \<Rightarrow> u32 \<Rightarrow> u32 \<Rightarrow> u32 \<Rightarrow> 'z net_scheme
    \<Rightarrow> (nat option \<times> 'z net_scheme) option" where
  "net_resolve getaddrinfo host serv family type flags w =
     (case getaddrinfo host serv \<lparr>hi_family = family, hi_socktype = type, hi_flags = flags\<rparr> of (e, answer) \<Rightarrow>
      let w = (case answer of None \<Rightarrow> w | Some (a, ai) \<Rightarrow> w\<lparr>nt_addrinfos := (nt_addrinfos w)(a \<mapsto> ai)\<rparr>);
          addrinfo = map_option fst answer in
      if e \<noteq> 0 then do { w \<leftarrow> freeaddrinfo addrinfo w; Some (None, w) }
      else Some (addrinfo, w))"

section \<open>Sockets\<close>

record net_answers =
  an_socket :: int
  an_bind :: bool
  an_listen :: bool
  an_connect :: bool
  an_close :: bool

definition on_socket :: "int \<Rightarrow> bool \<Rightarrow> (socket \<Rightarrow> socket) \<Rightarrow> 'z net_scheme \<Rightarrow> int \<times> 'z net_scheme" where
  "on_socket fd ok f w = (case nt_sockets w fd of
     None \<Rightarrow> (-1, w)
   | Some s \<Rightarrow> if ok then (0, w\<lparr>nt_sockets := (nt_sockets w)(fd \<mapsto> f s)\<rparr>) else (-1, w))"

definition sys_socket :: "int \<Rightarrow> u32 \<Rightarrow> u32 \<Rightarrow> u32 \<Rightarrow> 'z net_scheme \<Rightarrow> int \<times> 'z net_scheme" where
  "sys_socket fd family type protocol w =
     (fd, if fd = -1 then w else w\<lparr>nt_sockets := (nt_sockets w)(fd \<mapsto>
        \<lparr>so_family = family, so_type = type, so_protocol = protocol, so_options = {}, so_state = Unbound\<rparr>)\<rparr>)"

definition sys_setsockopt :: "int \<Rightarrow> nat \<Rightarrow> nat \<Rightarrow> 'z net_scheme \<Rightarrow> int \<times> 'z net_scheme" where
  "sys_setsockopt fd level option = on_socket fd True (\<lambda>s. s\<lparr>so_options := insert (level, option) (so_options s)\<rparr>)"

definition sys_bind :: "bool \<Rightarrow> int \<Rightarrow> string \<Rightarrow> 'z net_scheme \<Rightarrow> int \<times> 'z net_scheme" where
  "sys_bind ok fd address = on_socket fd ok (\<lambda>s. s\<lparr>so_state := Bound address\<rparr>)"

definition sys_listen :: "bool \<Rightarrow> int \<Rightarrow> int \<Rightarrow> 'z net_scheme \<Rightarrow> int \<times> 'z net_scheme" where
  "sys_listen ok fd backlog = on_socket fd ok (\<lambda>s. case so_state s of Bound address \<Rightarrow> s\<lparr>so_state := Listening address backlog\<rparr> | _ \<Rightarrow> s)"

definition sys_connect :: "bool \<Rightarrow> int \<Rightarrow> string \<Rightarrow> 'z net_scheme \<Rightarrow> int \<times> 'z net_scheme" where
  "sys_connect ok fd address = on_socket fd ok (\<lambda>s. s\<lparr>so_state := Connecting address\<rparr>)"

definition sys_close :: "bool \<Rightarrow> int \<Rightarrow> 'z net_scheme \<Rightarrow> int \<times> 'z net_scheme" where
  "sys_close ok fd w = (if nt_sockets w fd = None \<or> \<not> ok then (-1, w) else (0, w\<lparr>nt_sockets := (nt_sockets w)(fd := None)\<rparr>))"

definition net_socket :: "net_answers \<Rightarrow> nat option \<Rightarrow> 'z net_scheme \<Rightarrow> (int \<times> 'z net_scheme) option" where
  "net_socket answers addrinfo w = (case addrinfo of None \<Rightarrow> Some (-1, w) | Some a \<Rightarrow> do {
     ai \<leftarrow> nt_addrinfos w a;
     (let (fd, w) = sys_socket (an_socket answers) (ai_family ai) (ai_socktype ai OR SOCK_NONBLOCK) (ai_protocol ai) w in do {
        (fd, w) \<leftarrow> (if ai_flags ai AND AI_PASSIVE \<noteq> 0
           then (let (_, w) = sys_setsockopt fd SOL_SOCKET SO_REUSEADDR w;
                     (_, w) = sys_setsockopt fd SOL_SOCKET SO_REUSEPORT w;
                     (e, w) = sys_bind (an_bind answers) fd (ai_addr ai) w in
                 if e = -1 then (let (e, w) = sys_close (an_close answers) fd w in
                   if e = 0 then Some (-1, w) else None)
                 else (let (e, w) = sys_listen (an_listen answers) fd INT_MAX w in
                   if e = 0 then Some (fd, w) else None))
           else (let (_, w) = sys_connect (an_connect answers) fd (ai_addr ai) w in Some (fd, w)));
        w \<leftarrow> freeaddrinfo (Some a) w;
        Some (fd, w) }) })"

section \<open>TLS contexts\<close>

record ssl_answers =
  an_new :: "nat option"
  an_certificate :: int
  an_private_key :: int

definition SSL_CTX_free :: "nat \<Rightarrow> 'z net_scheme \<Rightarrow> 'z net_scheme" where
  "SSL_CTX_free ctx w = w\<lparr>nt_contexts := (nt_contexts w)(ctx := None)\<rparr>"

definition net_ssl_server_context :: "ssl_answers \<Rightarrow> string \<Rightarrow> string \<Rightarrow> 'z net_scheme \<Rightarrow> (nat option \<times> 'z net_scheme) option" where
  "net_ssl_server_context answers certificate private_key w = do {
     ctx \<leftarrow> an_new answers;
     (let load = \<lambda>ok f w. if ok = 1 then w\<lparr>nt_contexts := (nt_contexts w)(ctx := map_option f (nt_contexts w ctx))\<rparr> else w;
          w = w\<lparr>nt_contexts := (nt_contexts w)(ctx \<mapsto> \<lparr>ctx_certificate = None, ctx_private_key = None\<rparr>)\<rparr>;
          e = an_certificate answers;
          w = load e (\<lambda>c. c\<lparr>ctx_certificate := Some certificate\<rparr>) w in
      if e \<noteq> 1 then Some (None, SSL_CTX_free ctx w)
      else (let e = an_private_key answers;
                w = load e (\<lambda>c. c\<lparr>ctx_private_key := Some private_key\<rparr>) w in
            if e \<noteq> 1 then Some (None, SSL_CTX_free ctx w)
            else Some (Some ctx, w))) }"

section \<open>What a socket is set up for\<close>

text \<open>The socket a caller asks for: it listens on a passive address with its port and address reusable, and connects to an active one.\<close>

definition socket_for :: "bool \<Rightarrow> addrinfo \<Rightarrow> socket" where
  "socket_for ok ai = \<lparr>so_family = ai_family ai, so_type = ai_socktype ai OR SOCK_NONBLOCK, so_protocol = ai_protocol ai,
     so_options = (if ai_flags ai AND AI_PASSIVE \<noteq> 0 then {(SOL_SOCKET, SO_REUSEADDR), (SOL_SOCKET, SO_REUSEPORT)} else {}),
     so_state = (if ai_flags ai AND AI_PASSIVE \<noteq> 0 then Listening (ai_addr ai) INT_MAX
                 else if ok then Connecting (ai_addr ai) else Unbound)\<rparr>"

lemmas socket_calls = sys_socket_def sys_setsockopt_def sys_bind_def sys_listen_def sys_connect_def sys_close_def on_socket_def

text \<open>
  C29. \<open>net_socket\<close> keeps account of its resources, whatever \<open>socket\<close>, \<open>bind\<close>, \<open>listen\<close>, \<open>connect\<close> and \<open>close\<close> answer.
  On an address to listen on it fails an assertion exactly when there is no socket, when \<open>listen\<close> fails on the bound socket, or
  when \<open>close\<close> fails on one that could not be bound. Otherwise it frees the list of addresses it is given, and either returns
  a new socket, set up for that address, or -1, without leaving a socket open behind it, when there is no
  socket or it could not be bound. No other socket and no other list is touched. (\<open>setsockopt\<close>, whose
  answer the code ignores, is taken to succeed on an open socket.)
\<close>

theorem net_socket_accounts:
  assumes "nt_addrinfos w a = Some ai" "nt_sockets w (an_socket answers) = None"
  shows "if ai_flags ai AND AI_PASSIVE \<noteq> 0 \<and>
       (an_socket answers = -1 \<or> (if an_bind answers then \<not> an_listen answers else \<not> an_close answers))
    then net_socket answers (Some a) w = None
    else \<exists>fd w'. net_socket answers (Some a) w = Some (fd, w') \<and>
      nt_addrinfos w' = (nt_addrinfos w)(a := None) \<and>
      (if an_socket answers = -1 \<or> ai_flags ai AND AI_PASSIVE \<noteq> 0 \<and> \<not> an_bind answers then fd = -1 \<and> nt_sockets w' = nt_sockets w
       else fd = an_socket answers \<and> nt_sockets w' = (nt_sockets w)(fd \<mapsto> socket_for (an_connect answers) ai))"
proof (cases "an_socket answers = -1")
  case True
  then show ?thesis using assms by (simp add: net_socket_def socket_calls freeaddrinfo_def)
next
  case new: False
  show ?thesis
  proof (cases "ai_flags ai AND AI_PASSIVE \<noteq> 0")
    case True
    then show ?thesis
      using assms new by (simp add: net_socket_def socket_calls socket_for_def freeaddrinfo_def insert_commute fun_upd_idem)
  next
    case False
    then show ?thesis
      using assms new by (simp add: net_socket_def socket_calls socket_for_def freeaddrinfo_def)
  qed
qed

theorem net_socket_accounts_witness:
  "\<exists>w'. net_socket \<lparr>an_socket = 4, an_bind = True, an_listen = True, an_connect = True, an_close = True\<rparr> (Some 9)
      \<lparr>nt_addrinfos = [9 \<mapsto> \<lparr>ai_flags = 1, ai_family = 2, ai_socktype = 1, ai_protocol = 6, ai_addr = ''x''\<rparr>],
       nt_sockets = Map.empty, nt_contexts = Map.empty\<rparr> = Some (4, w') \<and>
    map_option so_state (nt_sockets w' 4) = Some (Listening ''x'' 0x7FFFFFFF)"
  using net_socket_accounts [of "\<lparr>nt_addrinfos = [9 \<mapsto> \<lparr>ai_flags = 1, ai_family = 2, ai_socktype = 1, ai_protocol = 6, ai_addr = ''x''\<rparr>],
       nt_sockets = Map.empty, nt_contexts = Map.empty\<rparr>" 9 "\<lparr>ai_flags = 1, ai_family = 2, ai_socktype = 1, ai_protocol = 6, ai_addr = ''x''\<rparr>"
     "\<lparr>an_socket = 4, an_bind = True, an_listen = True, an_connect = True, an_close = True\<rparr>"]
  by (auto simp: socket_for_def AI_PASSIVE_def INT_MAX_def)

text \<open>
  When the system has no socket left, \<open>net_socket\<close> reports -1 for an address to connect to, but
  for one to listen on it closes the descriptor -1 and fails its own assertion.
\<close>

theorem net_socket_exhausted:
  assumes "nt_addrinfos w a = Some ai" "an_socket answers = -1" "nt_sockets w (-1) = None"
  shows "net_socket answers (Some a) w =
    (if ai_flags ai AND AI_PASSIVE \<noteq> 0 then None else Some (-1, w\<lparr>nt_addrinfos := (nt_addrinfos w)(a := None)\<rparr>))"
  using assms by (simp add: net_socket_def socket_calls freeaddrinfo_def)

theorem net_socket_exhausted_witness:
  "net_socket \<lparr>an_socket = -1, an_bind = False, an_listen = True, an_connect = False, an_close = True\<rparr> (Some 9)
      \<lparr>nt_addrinfos = [9 \<mapsto> \<lparr>ai_flags = 1, ai_family = 2, ai_socktype = 1, ai_protocol = 6, ai_addr = ''x''\<rparr>],
       nt_sockets = Map.empty, nt_contexts = Map.empty\<rparr> = None"
  using net_socket_exhausted [of "\<lparr>nt_addrinfos = [9 \<mapsto> \<lparr>ai_flags = 1, ai_family = 2, ai_socktype = 1, ai_protocol = 6, ai_addr = ''x''\<rparr>],
       nt_sockets = Map.empty, nt_contexts = Map.empty\<rparr>" 9 "\<lparr>ai_flags = 1, ai_family = 2, ai_socktype = 1, ai_protocol = 6, ai_addr = ''x''\<rparr>"
     "\<lparr>an_socket = -1, an_bind = False, an_listen = True, an_connect = False, an_close = True\<rparr>"]
  by (simp add: AI_PASSIVE_def)

text \<open>A lookup that fails leaves nothing allocated; one that succeeds hands the list to the caller.\<close>

lemma net_resolve_accounts:
  assumes "getaddrinfo host serv \<lparr>hi_family = family, hi_socktype = type, hi_flags = flags\<rparr> = (e, answer)"
    and "\<And>a ai. answer = Some (a, ai) \<Longrightarrow> nt_addrinfos w a = None"
  shows "net_resolve getaddrinfo host serv family type flags w =
    Some (if e = 0 then (map_option fst answer,
        case answer of None \<Rightarrow> w | Some (a, ai) \<Rightarrow> w\<lparr>nt_addrinfos := (nt_addrinfos w)(a \<mapsto> ai)\<rparr>)
      else (None, w))"
proof -
  have "w\<lparr>nt_addrinfos := (nt_addrinfos w)(a := None)\<rparr> = w" if "nt_addrinfos w a = None" for a
    using that by (simp add: fun_upd_idem)
  then show ?thesis
    using assms by (auto simp: net_resolve_def freeaddrinfo_def split: option.splits)
qed

text \<open>A context that is returned holds both files; when one cannot be loaded nothing stays allocated.\<close>

lemma net_ssl_server_context_accounts:
  assumes "an_new answers = Some ctx" "nt_contexts w ctx = None"
  shows "net_ssl_server_context answers certificate private_key w =
    Some (if an_certificate answers = 1 \<and> an_private_key answers = 1
      then (Some ctx, w\<lparr>nt_contexts := (nt_contexts w)(ctx \<mapsto> \<lparr>ctx_certificate = Some certificate, ctx_private_key = Some private_key\<rparr>)\<rparr>)
      else (None, w))"
proof -
  have "w\<lparr>nt_contexts := (nt_contexts w)(ctx := None)\<rparr> = w" using assms(2) by (simp add: fun_upd_idem)
  then show ?thesis using assms(1) by (auto simp: net_ssl_server_context_def SSL_CTX_free_def Let_def)
qed

end
