(* ===== verification/Resolver.thy ===== *)
theory Resolver
  imports Async Net
begin

text \<open>
  \<^verbatim>\<open>src/reactor/resolver.c\<close>: name lookups, which run \<open>net_resolve\<close> in the thread of an \<open>async\<close> call.
  The resolver is the program of \<open>Async\<close>: its state is the \<open>more\<close> part of the world, and its
  callback gives the three parts that a thread and the loop run. It owns two copied strings and the
  list of addresses; \<open>rs_strings\<close> and \<open>rs_net\<close> are what is allocated, so that a use of freed
  memory and a second \<open>free\<close> are \<^term>\<open>None\<close>, and a leak can be seen.
\<close>

section \<open>The state\<close>

definition RESOLVER_SUCCESS :: nat where "RESOLVER_SUCCESS = 0"
definition RESOLVER_FAILURE :: nat where "RESOLVER_FAILURE = 1"

text \<open>\<open>rs_alive\<close> says that the memory of the resolver has not been freed; \<open>rs_reported\<close> is what its handler was called with.\<close>

record resolver =
  rs_alive :: bool
  rs_handler :: "nat handler"
  rs_host :: "nat option"
  rs_service :: "nat option"
  rs_family :: u32
  rs_type :: u32
  rs_protocol :: u32
  rs_flags :: u32
  rs_addrinfo :: "nat option"
  rs_strings :: "nat \<rightharpoonup> string"
  rs_net :: net
  rs_reported :: "reactor_event list"

text \<open>The arguments of \<open>net_resolve\<close>, which the thread reads before it calls it.\<close>

record resolve_args =
  ra_host :: "nat option"
  ra_service :: "nat option"
  ra_family :: u32
  ra_type :: u32
  ra_flags :: u32

type_synonym resolver_world = "(resolve_args, resolver) async_world_scheme"

section \<open>The code\<close>

definition resolver_enter :: "nat \<Rightarrow> nat \<Rightarrow> resolver \<Rightarrow> resolve_args option" where
  "resolver_enter c s z =
     (if rs_alive z then Some \<lparr>ra_host = rs_host z, ra_service = rs_service z, ra_family = rs_family z, ra_type = rs_type z, ra_flags = rs_flags z\<rparr>
      else None)"

definition read_string :: "nat option \<Rightarrow> (nat \<rightharpoonup> string) \<Rightarrow> string option option" where
  "read_string p strings = (case p of None \<Rightarrow> Some None | Some a \<Rightarrow> map_option Some (strings a))"

definition resolver_leave :: "lookup \<Rightarrow> resolve_args \<Rightarrow> resolver \<Rightarrow> resolver option" where
  "resolver_leave getaddrinfo l z = do {
     host \<leftarrow> read_string (ra_host l) (rs_strings z);
     service \<leftarrow> read_string (ra_service l) (rs_strings z);
     (ai, net) \<leftarrow> net_resolve getaddrinfo host service (ra_family l) (ra_type l) (ra_flags l) (rs_net z);
     (if rs_alive z then Some (z\<lparr>rs_addrinfo := ai, rs_net := net\<rparr>) else None) }"

definition resolver_callback :: "nat \<Rightarrow> reactor_event \<Rightarrow> resolver \<Rightarrow> resolver option" where
  "resolver_callback c ev z =
     (if rs_alive z
      then reactor_dispatch (\<lambda>c ev z. Some (z\<lparr>rs_reported := rs_reported z @ [ev]\<rparr>)) (rs_handler z)
        (if rs_addrinfo z \<noteq> None then RESOLVER_SUCCESS else RESOLVER_FAILURE)
        (case rs_addrinfo z of None \<Rightarrow> 0 | Some a \<Rightarrow> a) z
      else None)"

definition resolver_hooks :: "lookup \<Rightarrow> (resolve_args, resolver) async_hooks" where
  "resolver_hooks getaddrinfo = \<lparr>ho_enter = resolver_enter, ho_leave = resolver_leave getaddrinfo, ho_done = resolver_callback\<rparr>"

text \<open>\<open>strings\<close> and \<open>net\<close> are what is allocated when the resolver is constructed.\<close>

definition resolver_construct :: "nat \<Rightarrow> nat option \<Rightarrow> nat \<Rightarrow> nat \<Rightarrow> unit event \<Rightarrow> (nat \<rightharpoonup> string) \<Rightarrow> net \<Rightarrow> resolver_world \<Rightarrow> resolver_world" where
  "resolver_construct address callback state self memory strings net w =
     async_construct address (Some 0) self memory (async_world.more_update (\<lambda>_.
       \<lparr>rs_alive = True, rs_handler = reactor_handler_construct callback state, rs_host = None, rs_service = None, rs_family = 0, rs_type = 0,
        rs_protocol = 0, rs_flags = 0, rs_addrinfo = None, rs_strings = strings, rs_net = net, rs_reported = []\<rparr>) w)"

definition free_string :: "nat option \<Rightarrow> (nat \<rightharpoonup> string) \<Rightarrow> (nat \<rightharpoonup> string) option" where
  "free_string p strings = (case p of None \<Rightarrow> Some strings | Some a \<Rightarrow> if strings a \<noteq> None then Some (strings(a := None)) else None)"

definition resolver_clear :: "resolver \<Rightarrow> resolver option" where
  "resolver_clear z = do {
     net \<leftarrow> (if rs_addrinfo z \<noteq> None then freeaddrinfo (rs_addrinfo z) (rs_net z) else Some (rs_net z));
     strings \<leftarrow> free_string (rs_host z) (rs_strings z);
     strings \<leftarrow> free_string (rs_service z) strings;
     Some (z\<lparr>rs_net := net, rs_strings := strings, rs_addrinfo := None, rs_host := None, rs_service := None\<rparr>) }"

definition resolver_cancel :: "resolver_world \<Rightarrow> resolver_world option" where
  "resolver_cancel w = do {
     w \<leftarrow> async_cancel w;
     z \<leftarrow> resolver_clear (async_world.more w);
     Some (async_world.more_update (\<lambda>_. z) w) }"

definition resolver_destruct :: "resolver_world \<Rightarrow> resolver_world option" where
  "resolver_destruct w = do {
     w \<leftarrow> async_destruct w;
     z \<leftarrow> resolver_clear (async_world.more w);
     Some (async_world.more_update (\<lambda>_. z) w) }"

text \<open>What is looked up, with the addresses \<open>strdup\<close> answers for the two copies.\<close>

record query =
  qu_host :: "string option"
  qu_service :: "string option"
  qu_host_at :: nat
  qu_service_at :: nat
  qu_family :: u32
  qu_type :: u32
  qu_protocol :: u32
  qu_flags :: u32

definition resolver_lookup :: "query \<Rightarrow> int \<Rightarrow> nat \<Rightarrow> resolver_world \<Rightarrow> resolver_world option" where
  "resolver_lookup q fd t w = do {
     w \<leftarrow> resolver_cancel w;
     let z = async_world.more w;
     let z = (case qu_host q of None \<Rightarrow> z
       | Some host \<Rightarrow> z\<lparr>rs_host := Some (qu_host_at q), rs_strings := (rs_strings z)(qu_host_at q \<mapsto> host)\<rparr>);
     let z = (case qu_service q of None \<Rightarrow> z
       | Some service \<Rightarrow> z\<lparr>rs_service := Some (qu_service_at q), rs_strings := (rs_strings z)(qu_service_at q \<mapsto> service)\<rparr>);
     let z = z\<lparr>rs_family := qu_family q, rs_type := qu_type q, rs_protocol := qu_protocol q, rs_flags := qu_flags q\<rparr>;
     async_call fd t 0 (async_world.more_update (\<lambda>_. z) w) }"

section \<open>The stages of a lookup\<close>

text \<open>
  \<open>S\<close> and \<open>A\<close> are the strings and address lists of the rest of the program. The copies of the
  query, and the lists \<open>getaddrinfo\<close> allocates, are none of them.
\<close>

definition query_strings :: "query \<Rightarrow> nat \<rightharpoonup> string" where
  "query_strings q = (\<lambda>a. if a = qu_service_at q \<and> qu_service q \<noteq> None then qu_service q
     else if a = qu_host_at q then qu_host q else None)"

definition fresh_query :: "(nat \<rightharpoonup> string) \<Rightarrow> query \<Rightarrow> bool" where
  "fresh_query S q \<longleftrightarrow> S (qu_host_at q) = None \<and> S (qu_service_at q) = None \<and> qu_host_at q \<noteq> qu_service_at q"

definition fresh_lists :: "(nat \<rightharpoonup> addrinfo) \<Rightarrow> lookup \<Rightarrow> bool" where
  "fresh_lists A getaddrinfo \<longleftrightarrow> (\<forall>host service hints e a ai. getaddrinfo host service hints = (e, Some (a, ai)) \<longrightarrow> A a = None)"

definition query_answer :: "lookup \<Rightarrow> query \<Rightarrow> (nat \<times> addrinfo) option" where
  "query_answer getaddrinfo q =
     (case getaddrinfo (qu_host q) (qu_service q) \<lparr>hi_family = qu_family q, hi_socktype = qu_type q, hi_flags = qu_flags q\<rparr> of
        (e, answer) \<Rightarrow> if e = 0 then answer else None)"

definition asked :: "lookup \<Rightarrow> (nat \<rightharpoonup> string) \<Rightarrow> (nat \<rightharpoonup> addrinfo) \<Rightarrow> query \<Rightarrow> resolver \<Rightarrow> bool" where
  "asked getaddrinfo S A q z \<longleftrightarrow> rs_alive z \<and> h_callback (rs_handler z) \<noteq> None \<and> fresh_query S q \<and> fresh_lists A getaddrinfo \<and>
     rs_host z = map_option (\<lambda>_. qu_host_at q) (qu_host q) \<and> rs_service z = map_option (\<lambda>_. qu_service_at q) (qu_service q) \<and>
     rs_family z = qu_family q \<and> rs_type z = qu_type q \<and> rs_flags z = qu_flags q \<and> rs_strings z = S ++ query_strings q"

definition pending :: "lookup \<Rightarrow> (nat \<rightharpoonup> string) \<Rightarrow> (nat \<rightharpoonup> addrinfo) \<Rightarrow> query \<Rightarrow> reactor_event list \<Rightarrow> nat handler \<Rightarrow> resolver \<Rightarrow> bool" where
  "pending getaddrinfo S A q R h z \<longleftrightarrow> asked getaddrinfo S A q z \<and> rs_addrinfo z = None \<and> nt_addrinfos (rs_net z) = A \<and>
     rs_reported z = R \<and> rs_handler z = h"

definition looking_up :: "lookup \<Rightarrow> (nat \<rightharpoonup> string) \<Rightarrow> (nat \<rightharpoonup> addrinfo) \<Rightarrow> query \<Rightarrow> reactor_event list \<Rightarrow> nat handler \<Rightarrow> nat
    \<Rightarrow> resolve_args option \<Rightarrow> resolver \<Rightarrow> bool" where
  "looking_up getaddrinfo S A q R h self l z \<longleftrightarrow> pending getaddrinfo S A q R h z \<and> l \<noteq> None \<and> resolver_enter 0 self z = l"

definition answered :: "lookup \<Rightarrow> (nat \<rightharpoonup> string) \<Rightarrow> (nat \<rightharpoonup> addrinfo) \<Rightarrow> query \<Rightarrow> reactor_event list \<Rightarrow> nat handler \<Rightarrow> resolver \<Rightarrow> bool" where
  "answered getaddrinfo S A q R h z \<longleftrightarrow> asked getaddrinfo S A q z \<and> rs_addrinfo z = map_option fst (query_answer getaddrinfo q) \<and>
     nt_addrinfos (rs_net z) = (case query_answer getaddrinfo q of None \<Rightarrow> A | Some (a, ai) \<Rightarrow> A(a \<mapsto> ai)) \<and> rs_reported z = R \<and> rs_handler z = h"

definition report :: "nat handler \<Rightarrow> (nat \<times> addrinfo) option \<Rightarrow> reactor_event" where
  "report h answer = \<lparr>re_type = (if answer = None then RESOLVER_FAILURE else RESOLVER_SUCCESS), re_state = h_state h,
     re_data = (case answer of None \<Rightarrow> 0 | Some (a, ai) \<Rightarrow> a)\<rparr>"

lemma read_query:
  assumes "fresh_query S q"
  shows "read_string (map_option (\<lambda>_. qu_host_at q) (qu_host q)) (S ++ query_strings q) = Some (qu_host q)"
    and "read_string (map_option (\<lambda>_. qu_service_at q) (qu_service q)) (S ++ query_strings q) = Some (qu_service q)"
  using assms by (auto simp: read_string_def query_strings_def fresh_query_def map_add_def split: option.splits)

lemma free_query:
  assumes "fresh_query S q"
  shows "\<exists>s. free_string (map_option (\<lambda>_. qu_host_at q) (qu_host q)) (S ++ query_strings q) = Some s \<and>
    free_string (map_option (\<lambda>_. qu_service_at q) (qu_service q)) s = Some S"
proof -
  define s where "s = (if qu_host q = None then S ++ query_strings q else (S ++ query_strings q)(qu_host_at q := None))"
  have "free_string (map_option (\<lambda>_. qu_host_at q) (qu_host q)) (S ++ query_strings q) = Some s"
    using assms by (auto simp: s_def free_string_def query_strings_def fresh_query_def map_add_def split: option.splits)
  moreover have "free_string (map_option (\<lambda>_. qu_service_at q) (qu_service q)) s = Some S"
    using assms by (auto simp: s_def free_string_def query_strings_def fresh_query_def map_add_def fun_eq_iff split: option.splits)
  ultimately show ?thesis by blast
qed

lemma resolve_query:
  assumes "fresh_lists A getaddrinfo" "nt_addrinfos net = A"
  shows "\<exists>net'. net_resolve getaddrinfo (qu_host q) (qu_service q) (qu_family q) (qu_type q) (qu_flags q) net =
      Some (map_option fst (query_answer getaddrinfo q), net') \<and>
    nt_addrinfos net' = (case query_answer getaddrinfo q of None \<Rightarrow> A | Some (a, ai) \<Rightarrow> A(a \<mapsto> ai))"
proof -
  obtain e answer where g: "getaddrinfo (qu_host q) (qu_service q) \<lparr>hi_family = qu_family q, hi_socktype = qu_type q, hi_flags = qu_flags q\<rparr> = (e, answer)"
    by (cases "getaddrinfo (qu_host q) (qu_service q) \<lparr>hi_family = qu_family q, hi_socktype = qu_type q, hi_flags = qu_flags q\<rparr>")
  have "nt_addrinfos net a = None" if "answer = Some (a, ai)" for a ai
    using assms g that unfolding fresh_lists_def by metis
  note n = net_resolve_accounts [of getaddrinfo "qu_host q" "qu_service q" "qu_family q" "qu_type q" "qu_flags q" e answer net, OF g this]
  show ?thesis
    using n assms(2) g by (auto simp: query_answer_def split: option.splits)
qed

lemma clear_answered:
  assumes "answered getaddrinfo S A q R h z"
  shows "\<exists>z'. resolver_clear z = Some z' \<and> rs_strings z' = S \<and> nt_addrinfos (rs_net z') = A"
proof -
  have d: "fresh_query S q" "fresh_lists A getaddrinfo" "rs_host z = map_option (\<lambda>_. qu_host_at q) (qu_host q)"
    "rs_service z = map_option (\<lambda>_. qu_service_at q) (qu_service q)" "rs_strings z = S ++ query_strings q"
    "rs_addrinfo z = map_option fst (query_answer getaddrinfo q)"
    "nt_addrinfos (rs_net z) = (case query_answer getaddrinfo q of None \<Rightarrow> A | Some (a, ai) \<Rightarrow> A(a \<mapsto> ai))"
    using assms by (auto simp: answered_def asked_def)
  obtain s where s: "free_string (rs_host z) (rs_strings z) = Some s" "free_string (rs_service z) s = Some S"
    using free_query [OF d(1)] d(3-5) by auto
  obtain net' where "(if rs_addrinfo z \<noteq> None then freeaddrinfo (rs_addrinfo z) (rs_net z) else Some (rs_net z)) = Some net'"
    "nt_addrinfos net' = A"
  proof (cases "query_answer getaddrinfo q")
    case None
    then show thesis using d(6,7) that by simp
  next
    case (Some x)
    obtain a ai where x: "x = (a, ai)" by (cases x)
    obtain host service hints where "getaddrinfo host service hints = (0, Some (a, ai))"
      using Some x by (auto simp: query_answer_def split: prod.splits if_splits)
    then have "A a = None" using d(2) unfolding fresh_lists_def by metis
    then show thesis using d(6,7) Some x that by (auto simp: freeaddrinfo_def fun_upd_idem)
  qed
  then show ?thesis using s by (auto simp: resolver_clear_def)
qed

text \<open>The resolver keeps to the interface of \<open>Async\<close>.\<close>

interpretation query: async_client "resolver_hooks getaddrinfo" "reactor_handler_construct (Some 0) self"
    "pending getaddrinfo S A q R h"
    "looking_up getaddrinfo S A q R h self"
    "answered getaddrinfo S A q R h" "answered getaddrinfo S A q (R @ [report h (query_answer getaddrinfo q)]) h"
  for getaddrinfo self S A q R h
proof unfold_locales
  fix c z assume "h_callback (reactor_handler_construct (Some 0) self :: nat handler) = Some c" "pending getaddrinfo S A q R h z"
  then show "\<exists>l. ho_enter (resolver_hooks getaddrinfo) c (h_state (reactor_handler_construct (Some 0) self :: nat handler)) z = Some l \<and>
      looking_up getaddrinfo S A q R h self (Some l) z"
    by (auto simp: looking_up_def resolver_hooks_def reactor_handler_construct_def resolver_enter_def pending_def asked_def)
next
  fix l z assume "looking_up getaddrinfo S A q R h self (Some l) z"
  then have p: "pending getaddrinfo S A q R h z" and l: "l = \<lparr>ra_host = rs_host z, ra_service = rs_service z, ra_family = rs_family z,
      ra_type = rs_type z, ra_flags = rs_flags z\<rparr>" by (auto simp: looking_up_def resolver_enter_def split: if_splits)
  have f: "fresh_query S q" "fresh_lists A getaddrinfo" "nt_addrinfos (rs_net z) = A" using p by (simp_all add: pending_def asked_def)
  obtain net' where n: "net_resolve getaddrinfo (qu_host q) (qu_service q) (qu_family q) (qu_type q) (qu_flags q) (rs_net z) =
      Some (map_option fst (query_answer getaddrinfo q), net')"
    "nt_addrinfos net' = (case query_answer getaddrinfo q of None \<Rightarrow> A | Some (a, ai) \<Rightarrow> A(a \<mapsto> ai))"
    using resolve_query [OF f(2,3)] by blast
  show "\<exists>z'. ho_leave (resolver_hooks getaddrinfo) l z = Some z' \<and> answered getaddrinfo S A q R h z'"
    using p n read_query [OF f(1)] by (auto simp: resolver_hooks_def resolver_leave_def l pending_def asked_def answered_def)
next
  fix z assume a: "answered getaddrinfo S A q R h z"
  then obtain c where c: "h_callback h = Some c" by (auto simp: answered_def asked_def)
  show "\<exists>z'. reactor_dispatch (ho_done (resolver_hooks getaddrinfo)) (reactor_handler_construct (Some 0) self) ASYNC_DONE 0 z = Some z' \<and>
      answered getaddrinfo S A q (R @ [report h (query_answer getaddrinfo q)]) h z'"
    using a c
    by (cases "query_answer getaddrinfo q")
      (auto simp: resolver_hooks_def reactor_dispatch_def reactor_handler_construct_def resolver_callback_def answered_def asked_def report_def)
qed (auto simp: reactor_handler_construct_def looking_up_def)

text \<open>A resolver between two lookups: it owns what it has to free, and nothing else.\<close>

definition resolver_idle :: "nat \<Rightarrow> (nat \<rightharpoonup> string) \<Rightarrow> (nat \<rightharpoonup> addrinfo) \<Rightarrow> nat list \<Rightarrow> resolver_world \<Rightarrow> bool" where
  "resolver_idle self S A ts w \<longleftrightarrow> aw_object w \<noteq> None \<and> query.quiet self ts w \<and> rs_alive (async_world.more w) \<and>
     (\<exists>z. resolver_clear (async_world.more w) = Some z \<and> rs_strings z = S \<and> nt_addrinfos (rs_net z) = A)"

lemma lookup_running:
  assumes "resolver_idle self S A ts w" "fresh_query S q" "fresh_lists A getaddrinfo" "h_callback (rs_handler (async_world.more w)) \<noteq> None"
    and "0 \<le> fd" "rc_interest w fd = None" "aw_threads w t = None"
  shows "\<exists>w'. resolver_lookup q fd t w = Some w' \<and>
    query.running self getaddrinfo S A q (rs_reported (async_world.more w)) (rs_handler (async_world.more w)) ts t w' \<and>
    phase_of w' t = Some Created"
proof -
  obtain a where a: "aw_object w = Some a" and q: "query.quiet self ts w" using assms(1) by (auto simp: resolver_idle_def)
  then have closed: "\<not> event_is_open (as_event a)" "\<not> aw_cancelling w" by (auto simp: query.quiet_def)
  obtain z where z: "resolver_clear (async_world.more w) = Some z" "rs_strings z = S" "nt_addrinfos (rs_net z) = A" "rs_alive (async_world.more w)"
    using assms(1) by (auto simp: resolver_idle_def)
  have z': "rs_alive z" "rs_handler z = rs_handler (async_world.more w)" "rs_reported z = rs_reported (async_world.more w)"
    "rs_addrinfo z = None" "rs_host z = None" "rs_service z = None"
    using z(1,4) by (auto simp: resolver_clear_def bind_eq_Some_conv)
  let ?w = "async_world.more_update (\<lambda>_. z) w"
  have cancel: "resolver_cancel w = Some ?w"
    using a closed z(1) by (simp add: resolver_cancel_def async_cancel_def async_cancel_event_def)
  define z1 where "z1 = (case qu_host q of None \<Rightarrow> z | Some host \<Rightarrow> z\<lparr>rs_host := Some (qu_host_at q), rs_strings := (rs_strings z)(qu_host_at q \<mapsto> host)\<rparr>)"
  define z2 where "z2 = (case qu_service q of None \<Rightarrow> z1 | Some service \<Rightarrow> z1\<lparr>rs_service := Some (qu_service_at q), rs_strings := (rs_strings z1)(qu_service_at q \<mapsto> service)\<rparr>)"
  define z3 where "z3 = z2\<lparr>rs_family := qu_family q, rs_type := qu_type q, rs_protocol := qu_protocol q, rs_flags := qu_flags q\<rparr>"
  have strings: "rs_strings z3 = S ++ query_strings q"
    using z(2) assms(2)
    by (auto simp: z3_def z2_def z1_def query_strings_def fresh_query_def map_add_def fun_eq_iff split: option.splits)
  have p: "pending getaddrinfo S A q (rs_reported (async_world.more w)) (rs_handler (async_world.more w)) z3"
    using strings z(3) z' assms(2-4)
    by (auto simp: pending_def asked_def z3_def z2_def z1_def split: option.splits)
  let ?v = "async_world.more_update (\<lambda>_. z3) w"
  have run: "resolver_lookup q fd t w = async_call fd t 0 ?v"
    unfolding resolver_lookup_def cancel
    by (cases "qu_host q"; cases "qu_service q") (simp_all add: Let_def z1_def z2_def z3_def)
  have "query.quiet self ts ?v" using q by (simp add: query.quiet_def)
  then have "query.quiet self ts ?v" .
  from query.call_running [OF this, of fd getaddrinfo S A q "rs_reported (async_world.more w)" "rs_handler (async_world.more w)" t]
  show ?thesis using a assms(5,6) p unfolding run by simp
qed

text \<open>
  C8. A lookup is answered: in whatever order the thread and the loop run, no move fails and the
  handler is called exactly once, with success and the list of addresses that \<open>getaddrinfo\<close> answers for exactly
  this query, or with failure. The resolver then owns the list and its two strings, and nothing
  that belongs to the rest of the program has been touched.
\<close>

theorem resolver_reports:
  assumes "resolver_idle self S A ts w" "fresh_query S q" "fresh_lists A getaddrinfo" "h_callback (rs_handler (async_world.more w)) \<noteq> None"
    and "0 \<le> fd" "rc_interest w fd = None" "aw_threads w t = None"
  shows "\<exists>w'. resolver_lookup q fd t w = Some w' \<and>
    inevitable (resolver_hooks getaddrinfo) (\<lambda>v.
      rs_reported (async_world.more v) = rs_reported (async_world.more w) @ [report (rs_handler (async_world.more w)) (query_answer getaddrinfo q)] \<and>
      nt_addrinfos (rs_net (async_world.more v)) = (case query_answer getaddrinfo q of None \<Rightarrow> A | Some (a, ai) \<Rightarrow> A(a \<mapsto> ai)) \<and>
      resolver_idle self S A (ts @ [t]) v) w'"
proof -
  let ?R = "rs_reported (async_world.more w)" and ?h = "rs_handler (async_world.more w)"
  obtain w' where w': "resolver_lookup q fd t w = Some w'" "query.running self getaddrinfo S A q ?R ?h ts t w'"
    using lookup_running [OF assms] by blast
  have "inevitable (resolver_hooks getaddrinfo) (\<lambda>v. rs_reported (async_world.more v) = ?R @ [report ?h (query_answer getaddrinfo q)] \<and>
      nt_addrinfos (rs_net (async_world.more v)) = (case query_answer getaddrinfo q of None \<Rightarrow> A | Some (a, ai) \<Rightarrow> A(a \<mapsto> ai)) \<and>
      resolver_idle self S A (ts @ [t]) v) w'"
  proof (rule inevitable_mono [OF query.running_done [OF w'(2)]])
    fix v assume "query.settled self getaddrinfo S A q ?R ?h (ts @ [t]) v"
    then have v: "query.quiet self (ts @ [t]) v" "aw_object v \<noteq> None"
      "answered getaddrinfo S A q (?R @ [report ?h (query_answer getaddrinfo q)]) ?h (async_world.more v)"
      by (simp_all add: query.settled_def)
    then show "rs_reported (async_world.more v) = ?R @ [report ?h (query_answer getaddrinfo q)] \<and>
        nt_addrinfos (rs_net (async_world.more v)) = (case query_answer getaddrinfo q of None \<Rightarrow> A | Some (a, ai) \<Rightarrow> A(a \<mapsto> ai)) \<and>
        resolver_idle self S A (ts @ [t]) v"
      using clear_answered [OF v(3)] by (simp add: resolver_idle_def answered_def asked_def)
  qed
  then show ?thesis using w'(1) by blast
qed

lemma resolver_idle_construct:
  assumes "no_calls w"
  shows "resolver_idle self strings (nt_addrinfos net) [] (resolver_construct address callback state self memory strings net w)"
  using assms by (simp add: resolver_idle_def resolver_construct_def async_construct_def event_construct_def descriptor_construct_def
      query.quiet_def no_calls_def event_is_open_def descriptor_is_open_def past_def resolver_clear_def free_string_def)

definition resolver_start :: resolver_world where
  "resolver_start = resolver_construct 1 (Some 9) 5 0 idle_event Map.empty \<lparr>nt_addrinfos = Map.empty, nt_sockets = Map.empty, nt_contexts = Map.empty\<rparr>
     \<lparr>rc_epoll_fd = 3, rc_active = True, rc_descriptors = 0, rc_time = 0, rc_event = 0, rc_event_end = 0, rc_batch = [],
      rc_interest = Map.empty, aw_object = None, aw_counters = Map.empty, aw_threads = Map.empty, aw_cancelling = False, aw_log = [],
      \<dots> = \<lparr>rs_alive = False, rs_handler = reactor_handler_default, rs_host = None, rs_service = None, rs_family = 0, rs_type = 0,
        rs_protocol = 0, rs_flags = 0, rs_addrinfo = None, rs_strings = Map.empty,
        rs_net = \<lparr>nt_addrinfos = Map.empty, nt_sockets = Map.empty, nt_contexts = Map.empty\<rparr>, rs_reported = []\<rparr>\<rparr>"

definition one_query :: query where
  "one_query = \<lparr>qu_host = Some ''localhost'', qu_service = Some ''http'', qu_host_at = 20, qu_service_at = 21, qu_family = 0, qu_type = 1,
     qu_protocol = 0, qu_flags = 0\<rparr>"

definition one_answer :: lookup where
  "one_answer host service hints = (if host = Some ''localhost''
     then (0, Some (30, \<lparr>ai_flags = 0, ai_family = 2, ai_socktype = 1, ai_protocol = 6, ai_addr = ''127.0.0.1''\<rparr>)) else (-2, None))"

lemma resolver_start_idle: "resolver_idle 0 Map.empty Map.empty [] resolver_start"
  unfolding resolver_start_def
  by (rule resolver_idle_construct [where net = "\<lparr>nt_addrinfos = Map.empty, nt_sockets = Map.empty, nt_contexts = Map.empty\<rparr>", simplified])
    (simp add: no_calls_def)

lemma resolver_start_fields:
  "rc_interest resolver_start = Map.empty" "aw_threads resolver_start = Map.empty" "rs_reported (async_world.more resolver_start) = []"
  "rs_handler (async_world.more resolver_start) = \<lparr>h_callback = Some 9, h_state = 5\<rparr>"
  by (simp_all add: resolver_start_def resolver_construct_def async_construct_def reactor_handler_construct_def)

theorem resolver_reports_witness:
  "\<exists>w'. resolver_lookup one_query 4 7 resolver_start = Some w' \<and>
    inevitable (resolver_hooks one_answer) (\<lambda>v. rs_reported (async_world.more v) = [\<lparr>re_type = RESOLVER_SUCCESS, re_state = 5, re_data = 30\<rparr>]) w'"
proof -
  have "fresh_query Map.empty one_query" "fresh_lists Map.empty one_answer" by (simp_all add: fresh_query_def fresh_lists_def one_query_def)
  from resolver_reports [OF resolver_start_idle this, of 4 7] obtain w' where w': "resolver_lookup one_query 4 7 resolver_start = Some w'"
    "inevitable (resolver_hooks one_answer) (\<lambda>v.
      rs_reported (async_world.more v) = [report \<lparr>h_callback = Some 9, h_state = 5\<rparr> (query_answer one_answer one_query)] \<and>
      nt_addrinfos (rs_net (async_world.more v)) = (case query_answer one_answer one_query of None \<Rightarrow> Map.empty | Some (a, ai) \<Rightarrow> [a \<mapsto> ai]) \<and>
      resolver_idle 0 Map.empty Map.empty ([] @ [7]) v) w'"
    by (auto simp: resolver_start_fields)
  have "report \<lparr>h_callback = Some 9, h_state = 5\<rparr> (query_answer one_answer one_query) = \<lparr>re_type = RESOLVER_SUCCESS, re_state = 5, re_data = 30\<rparr>"
    by (simp add: report_def query_answer_def one_answer_def one_query_def)
  then show ?thesis using w'(1) inevitable_mono [OF w'(2)] by auto
qed

text \<open>
  Destroying a resolver between two lookups frees exactly what it owns: its strings and its
  list of addresses are freed once each, and what belongs to the rest of the program stays.
\<close>

theorem resolver_destruct_frees:
  assumes "resolver_idle self S A ts w"
  shows "\<exists>w'. resolver_destruct w = Some w' \<and> rs_strings (async_world.more w') = S \<and> nt_addrinfos (rs_net (async_world.more w')) = A"
proof -
  obtain a where a: "aw_object w = Some a" "\<not> event_is_open (as_event a)" "\<not> aw_cancelling w"
    using assms by (auto simp: resolver_idle_def query.quiet_def)
  then show ?thesis
    using assms
    by (auto simp: resolver_idle_def resolver_destruct_def async_destruct_def async_cancel_def async_cancel_event_def event_destruct_def event_close_def)
qed

theorem resolver_destruct_frees_witness:
  "\<exists>w'. resolver_destruct resolver_start = Some w' \<and> rs_strings (async_world.more w') = Map.empty"
  using resolver_destruct_frees [OF resolver_start_idle] by blast

text \<open>
  Cancelling a lookup while its thread is in \<open>getaddrinfo\<close> frees the strings the thread has been given:
  when it returns without having come to a cancellation point it has read freed memory.
\<close>

theorem resolver_cancel_uses_freed:
  assumes "resolver_idle self S A ts w" "fresh_query S q" "fresh_lists A getaddrinfo" "h_callback (rs_handler (async_world.more w)) \<noteq> None"
    and "0 \<le> fd" "rc_interest w fd = None" "aw_threads w t = None" "qu_host q \<noteq> None"
  shows "\<exists>w1 w2 w3. resolver_lookup q fd t w = Some w1 \<and> async_move (resolver_hooks getaddrinfo) (Enter t) w1 = Some w2 \<and>
    resolver_cancel w2 = Some w3 \<and> async_enabled (Leave t) w3 \<and> async_move (resolver_hooks getaddrinfo) (Leave t) w3 = None"
proof -
  let ?R = "rs_reported (async_world.more w)" and ?h = "rs_handler (async_world.more w)"
  obtain w1 where w1: "resolver_lookup q fd t w = Some w1" "query.running self getaddrinfo S A q ?R ?h ts t w1" "phase_of w1 t = Some Created"
    using lookup_running [OF assms(1-7)] by blast
  from w1(2) obtain a ph c log where a: "aw_object w1 = Some a" "as_handler a = reactor_handler_construct (Some 0) self" "as_thread a = Some t"
    "event_is_open (as_event a)" "rc_interest w1 (async_fd a) \<noteq> None" "aw_threads w1 t = Some \<lparr>th_phase = ph, th_cancelled = False\<rparr>"
    and pace: "query.pace getaddrinfo S A q ?R ?h self ph c (async_world.more w1) log t"
    unfolding query.running_def by blast
  have ph: "ph = Created" using w1(3) a(6) by (simp add: phase_of_def)
  then have pending: "pending getaddrinfo S A q ?R ?h (async_world.more w1)" using pace by simp
  let ?z = "async_world.more w1"
  have z: "rs_alive ?z" "fresh_query S q" "rs_host ?z = map_option (\<lambda>_. qu_host_at q) (qu_host q)"
    "rs_service ?z = map_option (\<lambda>_. qu_service_at q) (qu_service q)" "rs_strings ?z = S ++ query_strings q" "rs_addrinfo ?z = None"
    using pending by (simp_all add: pending_def asked_def)
  obtain l where l: "resolver_enter 0 self ?z = Some l" "ra_host l = Some (qu_host_at q)"
    using z(1,3) assms(8) by (auto simp: resolver_enter_def)
  let ?w2 = "w1\<lparr>aw_threads := (aw_threads w1)(t \<mapsto> \<lparr>th_phase = Calling (Some l), th_cancelled = False\<rparr>)\<rparr>"
  have w2: "async_move (resolver_hooks getaddrinfo) (Enter t) w1 = Some ?w2"
    using a(1,2,6) ph l(1) by (simp add: thread_enter_def set_phase_def resolver_hooks_def reactor_handler_construct_def)
  obtain s where "free_string (rs_host ?z) (rs_strings ?z) = Some s" "free_string (rs_service ?z) s = Some S"
    using free_query [OF z(2)] z(3-5) by auto
  then obtain z' where z': "resolver_clear ?z = Some z'" "rs_strings z' = S" using z(6) by (auto simp: resolver_clear_def)
  obtain w3 where w3: "resolver_cancel ?w2 = Some w3" "async_world.more w3 = z'"
    "aw_threads w3 t = Some \<lparr>th_phase = Calling (Some l), th_cancelled = True\<rparr>"
    using a(1,3-5) z'(1)
    by (auto simp: resolver_cancel_def async_cancel_def async_cancel_event_def async_cancel_thread_def event_close_def descriptor_close_def
        event_is_open_def descriptor_is_open_def reactor_delete_def descriptor_fd_def Let_def)
  have "async_enabled (Leave t) w3" using w3(3) by (simp add: phase_of_def)
  moreover have "read_string (ra_host l) S = None" using l(2) z(2) by (simp add: read_string_def fresh_query_def)
  then have "async_move (resolver_hooks getaddrinfo) (Leave t) w3 = None"
    using w3(2,3) z'(2) by (simp add: thread_leave_def resolver_hooks_def resolver_leave_def)
  ultimately show ?thesis using w1(1) w2 w3(1) by blast
qed

theorem resolver_cancel_uses_freed_witness:
  "\<exists>w1 w2 w3. resolver_lookup one_query 4 7 resolver_start = Some w1 \<and> async_move (resolver_hooks one_answer) (Enter 7) w1 = Some w2 \<and>
    resolver_cancel w2 = Some w3 \<and> async_move (resolver_hooks one_answer) (Leave 7) w3 = None"
proof -
  have "fresh_query Map.empty one_query" "fresh_lists Map.empty one_answer" by (simp_all add: fresh_query_def fresh_lists_def one_query_def)
  from resolver_cancel_uses_freed [OF resolver_start_idle this, of 4 7] show ?thesis
    by (simp add: resolver_start_fields one_query_def) blast
qed

end
