(* ===== verification/Responder.thy ===== *)
theory Responder
  imports Http Stream
begin

text \<open>
  \<^verbatim>\<open>src/example/responder.c\<close>: nine ways to write the same response into the output buffer of a stream, which
  the program compares by speed; here they are compared by what they write. The date is the text of the global
  array, which ends with a zero byte, and so do the other strings. The measurements are not modelled.
\<close>

section \<open>Pushing\<close>

text \<open>The first \<open>n\<close> bytes of a string and its zero byte.\<close>

definition string_bytes_at :: "string \<Rightarrow> nat \<Rightarrow> string option" where
  "string_bytes_at xs n = (if n \<le> length xs + 1 then Some (take n (xs @ [CHR 0x00])) else None)"

definition push :: "cursor \<Rightarrow> string \<Rightarrow> nat \<Rightarrow> cursor option" where
  "push base text n = do { xs \<leftarrow> string_bytes_at text n; pointer_push base xs }"

definition pushs :: "cursor \<Rightarrow> string \<Rightarrow> cursor option" where
  "pushs base text = push base text (length text)"

definition pushc :: "cursor \<Rightarrow> char \<Rightarrow> cursor option" where
  "pushc p c = pointer_push_byte p c"

definition pushf2 :: "cursor \<Rightarrow> string \<Rightarrow> nat \<Rightarrow> string \<Rightarrow> nat \<Rightarrow> cursor option" where
  "pushf2 p name name_len val value_len = do {
     p \<leftarrow> push p name name_len;
     p \<leftarrow> pushc p (CHR '':'');
     p \<leftarrow> pushc p (CHR '' '');
     p \<leftarrow> push p val value_len;
     p \<leftarrow> pushc p (CHR 0x0D);
     pushc p (CHR 0x0A) }"

definition pushf :: "cursor \<Rightarrow> string \<Rightarrow> string \<Rightarrow> cursor option" where
  "pushf p name val = (let name_len = length name; value_len = length val in do {
     p \<leftarrow> push p name name_len;
     p \<leftarrow> pushc p (CHR '':'');
     p \<leftarrow> pushc p (CHR '' '');
     p \<leftarrow> push p val value_len;
     p \<leftarrow> pushc p (CHR 0x0D);
     pushc p (CHR 0x0A) })"

primrec pusharray :: "cursor \<Rightarrow> (string \<times> string) list \<Rightarrow> cursor option" where
  "pusharray p [] = Some p"
| "pusharray p (x # xs) = do { p \<leftarrow> pushf p (fst x) (snd x); pusharray p xs }"

text \<open>The cursor moves by the length of the numeral, which is then printed backwards from there.\<close>

definition push_length :: "cursor \<Rightarrow> u32 \<Rightarrow> cursor option" where
  "push_length p n = (let p = pointer_move p (unat (utility_u32_len n)) in do {
     q \<leftarrow> utility_u32_sprint n p;
     Some (fst q, snd p) })"

definition reply :: "buffer \<Rightarrow> u64 \<Rightarrow> (cursor \<Rightarrow> cursor option) \<Rightarrow> buffer option" where
  "reply out n f = (let (out, base) = stream_allocate out n in do {
     p \<leftarrow> f (buf_data out, base);
     Some (out\<lparr>buf_data := fst p\<rparr>) })"

definition size_of :: "string \<Rightarrow> u32" where
  "size_of text = ucast (text_size text)"

section \<open>The writers\<close>

definition header_text :: string where
  "header_text = ''HTTP/1.1 200 OK'' @ crlf @ ''Server: reactor'' @ crlf @ ''Date: Mon, 06 Dec 2021 19:08:57 GMT'' @ crlf @
     ''Content-Type: text/plain'' @ crlf @ ''Content-Length: ''"

definition t1 :: "string \<Rightarrow> buffer \<Rightarrow> string \<Rightarrow> buffer option" where
  "t1 date out text = (let whole = header_text @ ''13'' @ crlf @ crlf @ ''Hello, World!''; (out, base) = stream_allocate out (text_size whole) in do {
     d \<leftarrow> mem_write (buf_data out) base (map Some whole);
     xs \<leftarrow> string_bytes_at date 29;
     d \<leftarrow> mem_write d (base + 40) (map Some xs);
     Some (out\<lparr>buf_data := d\<rparr>) })"

definition t2 :: "string \<Rightarrow> buffer \<Rightarrow> string \<Rightarrow> buffer option" where
  "t2 date out text = (let body_size = text_size text; length_size = utility_u32_len (size_of text);
       (out, base) = stream_allocate out (113 + length_size + 4 + body_size) in do {
     xs \<leftarrow> string_bytes_at header_text 113;
     d \<leftarrow> mem_write (buf_data out) base (map Some xs);
     xs \<leftarrow> string_bytes_at date 29;
     d \<leftarrow> mem_write d (base + 40) (map Some xs);
     q \<leftarrow> utility_u32_sprint (size_of text) (d, base + 113 + unat length_size);
     d \<leftarrow> mem_write (fst q) (base + 113 + unat length_size) (map Some (crlf @ crlf));
     d \<leftarrow> mem_write d (base + 113 + unat length_size + 4) (map Some text);
     Some (out\<lparr>buf_data := d\<rparr>) })"

definition t3 :: "string \<Rightarrow> buffer \<Rightarrow> string \<Rightarrow> buffer option" where
  "t3 date out text = (let body_size = text_size text; length_size = utility_u32_len (size_of text);
       (out, base) = stream_allocate out (113 + length_size + 4 + body_size) in do {
     p \<leftarrow> push (buf_data out, base) header_text 113;
     xs \<leftarrow> string_bytes_at date 29;
     d \<leftarrow> mem_write (fst p) (base + 40) (map Some xs);
     q \<leftarrow> utility_u32_sprint (size_of text) (d, snd p + unat length_size);
     p \<leftarrow> push (fst q, snd p) (crlf @ crlf) 4;
     p \<leftarrow> push p text (unat body_size);
     Some (out\<lparr>buf_data := fst p\<rparr>) })"

definition t4 :: "string \<Rightarrow> buffer \<Rightarrow> string \<Rightarrow> buffer option" where
  "t4 date out text = reply out 132 (\<lambda>p. do {
     p \<leftarrow> pushs p (''HTTP/1.1 200 OK'' @ crlf @ ''Server: reactor'' @ crlf @ ''Date: '');
     p \<leftarrow> pushs p date;
     p \<leftarrow> pushs p (crlf @ ''Content-Type: text/plain'' @ crlf @ ''Content-Length: '');
     p \<leftarrow> push_length p (size_of text);
     p \<leftarrow> pushs p (crlf @ crlf);
     push p text (unat (text_size text)) })"

definition t5 :: "string \<Rightarrow> buffer \<Rightarrow> string \<Rightarrow> buffer option" where
  "t5 date out text = reply out 132 (\<lambda>p. do {
     p \<leftarrow> pushs p (''HTTP/1.1 200 OK'' @ crlf);
     p \<leftarrow> pushf p ''Server'' ''reactor'';
     p \<leftarrow> pushf p ''Date'' date;
     p \<leftarrow> pushf p ''Content-Type'' ''text/plain'';
     p \<leftarrow> pushs p ''Content-Length: '';
     p \<leftarrow> push_length p (size_of text);
     p \<leftarrow> pushs p (crlf @ crlf);
     pushs p text })"

text \<open>\<open>t6\<close> pushes 17 bytes of a text of 16 characters.\<close>

definition t6 :: "string \<Rightarrow> buffer \<Rightarrow> string \<Rightarrow> buffer option" where
  "t6 date out text = reply out 132 (\<lambda>p. do {
     p \<leftarrow> push p (''HTTP/1.1 200 OK'' @ crlf) 17;
     p \<leftarrow> pushf2 p ''Server'' 6 ''reactor'' 7;
     p \<leftarrow> pushf2 p ''Date'' 4 date 29;
     p \<leftarrow> pushf2 p ''Content-Type'' 12 ''text/plain'' 10;
     p \<leftarrow> push p ''Content-Length: '' 17;
     p \<leftarrow> push_length p (size_of text);
     p \<leftarrow> push p (crlf @ crlf) 4;
     push p text (unat (text_size text)) })"

definition t7 :: "string \<Rightarrow> buffer \<Rightarrow> string \<Rightarrow> buffer option" where
  "t7 date out text = reply out 132 (\<lambda>p. do {
     p \<leftarrow> pushs p (''HTTP/1.1 200 OK'' @ crlf);
     p \<leftarrow> pusharray p [(''Server'', ''reactor''), (''Date'', date), (''Content-Type'', ''text/plain'')];
     p \<leftarrow> pushs p ''Content-Length: '';
     p \<leftarrow> push_length p (size_of text);
     p \<leftarrow> pushs p (crlf @ crlf);
     pushs p text })"

definition push_standard_200_header :: "string \<Rightarrow> cursor \<Rightarrow> cursor option" where
  "push_standard_200_header date p = do {
     p \<leftarrow> push p (''HTTP/1.1 200 OK'' @ crlf) (length (''HTTP/1.1 200 OK'' @ crlf));
     p \<leftarrow> pushf2 p ''Server'' 6 ''reactor'' 7;
     pushf2 p ''Date'' 4 date 29 }"

definition push_body :: "cursor \<Rightarrow> string \<Rightarrow> nat \<Rightarrow> string \<Rightarrow> u64 \<Rightarrow> cursor option" where
  "push_body p type type_len text text_len = do {
     p \<leftarrow> pushf2 p ''Content-Type'' 12 type type_len;
     p \<leftarrow> push p ''Content-Length: '' (length ''Content-Length: '');
     p \<leftarrow> push_length p (ucast text_len);
     p \<leftarrow> push p (crlf @ crlf) 4;
     push p text (unat text_len) }"

definition t8 :: "string \<Rightarrow> buffer \<Rightarrow> string \<Rightarrow> u64 \<Rightarrow> buffer option" where
  "t8 date out text text_len = reply out 132 (\<lambda>p. do {
     p \<leftarrow> push_standard_200_header date p;
     push_body p ''text/plain'' (length ''test/plain'') text text_len })"

definition segment_push_200 :: "string \<Rightarrow> cursor \<Rightarrow> cursor option" where
  "segment_push_200 date p = do {
     p \<leftarrow> pointer_push p (''HTTP/1.1 200 OK'' @ crlf);
     p \<leftarrow> http_field_push p (http_field_construct ''Server'' ''reactor'');
     xs \<leftarrow> string_bytes_at date 29;
     http_field_push p (http_field_construct ''Date'' xs) }"

definition segment_push_body :: "cursor \<Rightarrow> string \<Rightarrow> string \<Rightarrow> cursor option" where
  "segment_push_body p type body = do {
     p \<leftarrow> http_field_push p (http_field_construct ''Content-Type'' type);
     p \<leftarrow> pointer_push p ''Content-Length: '';
     p \<leftarrow> push_length p (size_of body);
     p \<leftarrow> pointer_push p (crlf @ crlf);
     pointer_push p body }"

definition segment_measure :: "string \<Rightarrow> buffer \<Rightarrow> string \<Rightarrow> buffer option" where
  "segment_measure date out text = reply out 132 (\<lambda>p. do {
     p \<leftarrow> segment_push_200 date p;
     segment_push_body p ''text/plain'' text })"

section \<open>What they write\<close>

lemma writes_pushed [writes_intro]:
  "writes (\<lambda>p. pushs p xs) xs" "writes (\<lambda>p. pushc p c) [c]" "writes (\<lambda>p. pushf p x y) (x @ [CHR '':''] @ [CHR '' ''] @ y @ [CHR 0x0D] @ [CHR 0x0A])"
proof -
  have p: "writes (\<lambda>p. push p xs (length xs)) xs" for xs using writes_push [of xs] by (simp add: push_def string_bytes_at_def)
  then show "writes (\<lambda>p. pushs p xs) xs" by (simp add: pushs_def)
  show c: "writes (\<lambda>p. pushc p c) [c]" for c using writes_byte [of c] by (simp add: pushc_def)
  show "writes (\<lambda>p. pushf p x y) (x @ [CHR '':''] @ [CHR '' ''] @ y @ [CHR 0x0D] @ [CHR 0x0A])"
    unfolding pushf_def Let_def by (intro p c writes_bind)
qed

lemma writes_push_size: "n \<le> length xs + 1 \<Longrightarrow> writes (\<lambda>p. push p xs n) (take n (xs @ [CHR 0x00]))"
  using writes_push by (simp add: push_def string_bytes_at_def)

lemma writes_pushf2:
  assumes "n \<le> length x + 1" "k \<le> length y + 1"
  shows "writes (\<lambda>p. pushf2 p x n y k) (take n (x @ [CHR 0x00]) @ [CHR '':''] @ [CHR '' ''] @ take k (y @ [CHR 0x00]) @ [CHR 0x0D] @ [CHR 0x0A])"
  unfolding pushf2_def by (intro writes_push_size assms writes_bind writes_pushed)

lemma writes_length [writes_intro]: "writes (\<lambda>p. push_length p n) (decimal (unat n))"
  unfolding writes_def
proof (intro allI impI)
  fix p xs k
  assume p: "cursor_at p xs k \<and> length (decimal (unat n)) \<le> k"
  let ?d = "decimal (unat n)"
  have b: "take (length xs) (fst p) = xs" "snd p = length xs" "length xs + k = length (fst p)" using p by (auto simp: cursor_at_def)
  have l: "unat (utility_u32_len n) = length ?d" by (rule utility_u32_len_decimal)
  have "utility_u32_sprint n (fst p, snd p + length ?d) = Some (put_before ?d (fst p, snd p + length ?d))"
    by (rule utility_u32_sprint_ok) (use b p in simp_all)
  then have "push_length p n = Some (xs @ map Some ?d @ drop (length xs + length ?d) (fst p), length xs + length ?d)"
    using b by (simp add: push_length_def pointer_move_def l put_before_def)
  moreover have "cursor_at (xs @ map Some ?d @ drop (length xs + length ?d) (fst p), length xs + length ?d) (xs @ map Some ?d) (k - length ?d)"
    using b p by (simp add: cursor_at_def)
  ultimately show "\<exists>q. push_length p n = Some q \<and> cursor_at q (xs @ map Some ?d) (k - length ?d)" by blast
qed

text \<open>The response the library would write, for a text of 13 characters.\<close>

definition answer :: "string \<Rightarrow> string \<Rightarrow> string" where
  "answer date text = response_text ''200 OK'' date ''text/plain'' text"

lemma decimal_13: "decimal 13 = ''13''"
  by (simp add: decimal.simps digit_char_def) code_simp

lemma answer_pieces:
  assumes "length text = 13"
  shows "answer date text = ''HTTP/1.1 200 OK'' @ crlf @ ''Server: reactor'' @ crlf @ ''Date: '' @ date @ crlf @
    ''Content-Type: text/plain'' @ crlf @ ''Content-Length: 13'' @ crlf @ crlf @ text"
  using assms decimal_13 by (simp add: answer_def response_text_def field_text_def)

lemma answer_length: "length date = 29 \<Longrightarrow> length text = 13 \<Longrightarrow> length (answer date text) = 132"
  by (simp add: answer_pieces crlf_def)

lemma sizes:
  assumes "length text = 13"
  shows "unat (text_size text) = 13" "decimal (unat (size_of text)) = ''13''" "decimal (unat (ucast (text_size text) :: u32)) = ''13''"
    "unat (utility_u32_len (size_of text)) = 2"
proof -
  have "unat (size_of text) = 13" using assms by (simp add: size_of_def text_size_def)
  then show "decimal (unat (size_of text)) = ''13''" "decimal (unat (ucast (text_size text) :: u32)) = ''13''"
    "unat (utility_u32_len (size_of text)) = 2" using decimal_13 by (simp_all add: size_of_def utility_u32_len_decimal)
qed (use assms in \<open>simp add: text_size_def\<close>)

definition appends :: "buffer \<Rightarrow> string \<Rightarrow> buffer option \<Rightarrow> bool" where
  "appends out ys result \<longleftrightarrow> (\<exists>out'. result = Some out' \<and> buffer_inv out' \<and> buffer_cells out' = buffer_cells out @ map Some ys)"

lemma reply_appends:
  assumes "writes f ys" "ys = zs" "buffer_inv out" "unat (buf_size out) + 132 \<le> 2 ^ 63" "length zs = 132"
  shows "appends out zs (reply out 132 f)"
proof -
  have n: "unat (132 :: u64) = length ys" "unat (buf_size out) + length ys \<le> 2 ^ 63" using assms by simp_all
  show ?thesis
    by (rule writer_ok [OF assms(3,1) n]) (use assms(2) in \<open>simp add: appends_def reply_def\<close>)
qed

lemma t4_appends:
  assumes "buffer_inv out" "unat (buf_size out) + 132 \<le> 2 ^ 63" "length date = 29" "length text = 13"
  shows "appends out (answer date text) (t4 date out text)"
  unfolding t4_def
proof (rule reply_appends [OF _ _ assms(1,2) answer_length [OF assms(3,4)]])
  show "writes (\<lambda>p. do {
     p \<leftarrow> pushs p (''HTTP/1.1 200 OK'' @ crlf @ ''Server: reactor'' @ crlf @ ''Date: '');
     p \<leftarrow> pushs p date;
     p \<leftarrow> pushs p (crlf @ ''Content-Type: text/plain'' @ crlf @ ''Content-Length: '');
     p \<leftarrow> push_length p (size_of text);
     p \<leftarrow> pushs p (crlf @ crlf);
     push p text (unat (text_size text)) })
    ((''HTTP/1.1 200 OK'' @ crlf @ ''Server: reactor'' @ crlf @ ''Date: '') @ date @
      (crlf @ ''Content-Type: text/plain'' @ crlf @ ''Content-Length: '') @ decimal (unat (size_of text)) @ (crlf @ crlf) @
      take (unat (text_size text)) (text @ [CHR 0x00]))"
    by (intro writes_intro writes_push_size) (simp add: assms(4) sizes)
qed (simp add: answer_pieces assms(4) sizes)

lemma t5_appends:
  assumes "buffer_inv out" "unat (buf_size out) + 132 \<le> 2 ^ 63" "length date = 29" "length text = 13"
  shows "appends out (answer date text) (t5 date out text)"
  unfolding t5_def
  by (rule reply_appends [OF _ _ assms(1,2) answer_length [OF assms(3,4)]], (rule writes_intro)+)
    (simp add: answer_pieces assms(4) sizes crlf_def)

lemma t7_appends:
  assumes "buffer_inv out" "unat (buf_size out) + 132 \<le> 2 ^ 63" "length date = 29" "length text = 13"
  shows "appends out (answer date text) (t7 date out text)"
  unfolding t7_def pusharray.simps fst_conv snd_conv
  by (rule reply_appends [OF _ _ assms(1,2) answer_length [OF assms(3,4)]], (rule writes_intro)+)
    (simp add: answer_pieces assms(4) sizes crlf_def)

lemma writes_push_whole: "n = length xs \<Longrightarrow> writes (\<lambda>p. push p xs n) xs"
  using writes_push_size [of n xs] by simp

lemma writes_pushf2_whole: "n = length x \<Longrightarrow> k = length y \<Longrightarrow> writes (\<lambda>p. pushf2 p x n y k) (field_text (x, y))"
  using writes_pushf2 [of n x k y] by (simp add: field_text_def crlf_def)

lemma t8_appends:
  assumes "buffer_inv out" "unat (buf_size out) + 132 \<le> 2 ^ 63" "length date = 29" "length text = 13"
  shows "appends out (answer date text) (t8 date out text (text_size text))"
  unfolding t8_def push_standard_200_header_def push_body_def
  by (rule reply_appends [OF _ _ assms(1,2) answer_length [OF assms(3,4)]],
      (rule writes_bind writes_pushed writes_length | (rule writes_pushf2_whole, simp, simp add: assms(3)) |
        (rule writes_push_whole, simp add: assms(4) sizes crlf_def))+)
    (simp add: answer_pieces assms(4) sizes field_text_def crlf_def)

lemma segment_appends:
  assumes "buffer_inv out" "unat (buf_size out) + 132 \<le> 2 ^ 63" "length date = 29" "length text = 13"
  shows "appends out (answer date text) (segment_measure date out text)"
proof -
  have date: "string_bytes_at date 29 = Some date" using assms(3) by (simp add: string_bytes_at_def)
  show ?thesis
    unfolding segment_measure_def segment_push_200_def segment_push_body_def date Option.bind.bind_lunit
    by (rule reply_appends [OF _ _ assms(1,2) answer_length [OF assms(3,4)]], (rule writes_intro)+)
      (simp add: answer_pieces assms(4) sizes field_text_def http_field_construct_def crlf_def)
qed

text \<open>The writers that do not use a cursor: the cells that were allocated, between the old ones and the rest of the block.\<close>

lemma allocated:
  assumes "buffer_inv out" "unat (buf_size out) + unat n \<le> 2 ^ 63"
  obtains out' ys zs where "stream_allocate out n = (out', length (buffer_cells out))" "buf_data out' = buffer_cells out @ ys @ zs"
    "length ys = unat n" "\<And>us. length us = unat n \<Longrightarrow>
      buffer_inv (out'\<lparr>buf_data := buffer_cells out @ us @ zs\<rparr>) \<and> buffer_cells (out'\<lparr>buf_data := buffer_cells out @ us @ zs\<rparr>) = buffer_cells out @ us"
proof -
  let ?s = "unat (buf_size out)"
  have s: "unat (buf_size out + n) = ?s + unat n" using assms(2) by (simp add: unat_add_64)
  have l: "length (buffer_cells out) = ?s" using assms(1) by simp
  define out' where "out' = buffer_resize out (buf_size out + n)"
  have r: "buffer_inv out'" "buf_size out' = buf_size out + n"
    "take ?s (buffer_cells out') = take (?s + unat n) (buffer_cells out)"
    using buffer_resize_ok [OF assms(1), of "buf_size out + n"] s assms(2) by (simp_all add: out'_def)
  have cap: "length (buf_data out') = unat (buf_capacity out')" "?s + unat n \<le> unat (buf_capacity out')"
    using r(1,2) s by (simp_all add: buffer_inv_def)
  have "take ?s (buf_data out') = buffer_cells out" using r(2,3) s l cap by (simp add: buffer_cells_def)
  then have "buf_data out' = buffer_cells out @ take (unat n) (drop ?s (buf_data out')) @ drop (unat n) (drop ?s (buf_data out'))"
    by (metis append_take_drop_id)
  moreover have "buffer_inv (out'\<lparr>buf_data := buffer_cells out @ us @ drop (unat n) (drop ?s (buf_data out'))\<rparr>) \<and>
      buffer_cells (out'\<lparr>buf_data := buffer_cells out @ us @ drop (unat n) (drop ?s (buf_data out'))\<rparr>) = buffer_cells out @ us"
    if "length us = unat n" for us
    using r(1,2) s cap l that by (simp add: buffer_inv_def buffer_cells_def)
  moreover have "stream_allocate out n = (out', length (buffer_cells out))"
    by (simp add: stream_allocate_def buffer_size_def out'_def l Let_def)
  moreover have "length (take (unat n) (drop ?s (buf_data out'))) = unat n" using cap by simp
  ultimately show thesis using that by blast
qed

lemma mem_write_inside: "k = length xs \<Longrightarrow> length us = length ys \<Longrightarrow> mem_write (xs @ us @ zs) k ys = Some (xs @ ys @ zs)"
  by (simp add: mem_write_def)

definition before_date :: string where "before_date = ''HTTP/1.1 200 OK'' @ crlf @ ''Server: reactor'' @ crlf @ ''Date: ''"

definition behind_date :: string where "behind_date = crlf @ ''Content-Type: text/plain'' @ crlf @ ''Content-Length: ''"

lemma header_pieces:
  "header_text = before_date @ ''Mon, 06 Dec 2021 19:08:57 GMT'' @ behind_date" "length before_date = 40" "length behind_date = 44"
  by (simp_all add: header_text_def before_date_def behind_date_def crlf_def)

lemma answer_around_date: "length text = 13 \<Longrightarrow> answer date text = before_date @ date @ behind_date @ ''13'' @ crlf @ crlf @ text"
  by (simp add: answer_pieces before_date_def behind_date_def)

lemma date_bytes: "length date = 29 \<Longrightarrow> string_bytes_at date 29 = Some date"
  by (simp add: string_bytes_at_def)

lemma mem_write_at: "b = xs @ us @ zs \<Longrightarrow> k = length xs \<Longrightarrow> length us = length ys \<Longrightarrow> mem_write b k ys = Some (xs @ ys @ zs)"
  by (simp add: mem_write_def)

lemma sprint_at:
  assumes "b = xs @ us @ zs" "k = length xs + length us" "length us = length (decimal (unat n))"
  shows "utility_u32_sprint n (b, k) = Some (xs @ map Some (decimal (unat n)) @ zs, length xs)"
  using assms utility_u32_sprint_ok [of n k b] by (simp add: put_before_def)

lemma t1_appends:
  assumes "buffer_inv out" "unat (buf_size out) + 132 \<le> 2 ^ 63" "length date = 29"
  shows "appends out (answer date ''Hello, World!'') (t1 date out text)"
proof -
  let ?rest = "''13'' @ crlf @ crlf @ ''Hello, World!''" and ?old = "''Mon, 06 Dec 2021 19:08:57 GMT''"
  let ?whole = "header_text @ ?rest" and ?xs = "buffer_cells out"
  have n: "length ?whole = 132" "unat (text_size ?whole) = 132" by (simp_all add: header_pieces text_size_def crlf_def)
  have room: "unat (buf_size out) + unat (text_size ?whole) \<le> 2 ^ 63" using assms(2) n(2) by simp
  obtain out' ys zs where
    a: "stream_allocate out (text_size ?whole) = (out', length ?xs)" "buf_data out' = ?xs @ ys @ zs" "length ys = 132"
    and fits: "\<And>us. length us = 132 \<Longrightarrow> buffer_inv (out'\<lparr>buf_data := ?xs @ us @ zs\<rparr>) \<and> buffer_cells (out'\<lparr>buf_data := ?xs @ us @ zs\<rparr>) = ?xs @ us"
    by (rule allocated [OF assms(1) room]) (use n(2) in auto)
  have w1: "mem_write (buf_data out') (length ?xs) (map Some ?whole) = Some (?xs @ map Some ?whole @ zs)"
    by (rule mem_write_at [OF a(2)]) (simp_all only: a(3) length_map n)
  have "mem_write (?xs @ map Some ?whole @ zs) (length ?xs + 40) (map Some date) =
      Some ((?xs @ map Some before_date) @ map Some date @ map Some (behind_date @ ?rest) @ zs)"
    by (rule mem_write_at [where us = "map Some ?old"]) (simp_all add: header_pieces assms(3))
  then have w2: "mem_write (?xs @ map Some ?whole @ zs) (length ?xs + 40) (map Some date) =
      Some (?xs @ map Some (answer date ''Hello, World!'') @ zs)"
    by (simp add: answer_around_date)
  have "length (map Some (answer date ''Hello, World!'')) = 132" using answer_length [OF assms(3), of "''Hello, World!''"] by simp
  from fits [OF this] show ?thesis
    unfolding appends_def t1_def Let_def a(1) prod.case w1 date_bytes [OF assms(3)] Option.bind.bind_lunit w2 by simp
qed

lemma tailored_size:
  assumes "unat (buf_size out) + length text + 127 \<le> 2 ^ 63"
  shows "unat (113 + utility_u32_len (size_of text) + 4 + text_size text) = 113 + length (decimal (length text mod 2 ^ 32)) + 4 + length text"
    "unat (size_of text) = length text mod 2 ^ 32"
proof -
  have l: "length text < 18446744073709551616" using assms by simp
  have s: "unat (size_of text) = length text mod 2 ^ 32"
    using l by (simp add: size_of_def text_size_def unsigned_ucast_eq unsigned_of_nat take_bit_eq_mod mod_mod_cancel)
  then show "unat (size_of text) = length text mod 2 ^ 32" .
  let ?d = "decimal (length text mod 2 ^ 32)"
  have u: "utility_u32_len (size_of text) = word_of_nat (length ?d)"
    using length_decimal_32 [of "size_of text"] s by (simp add: word_unat_eq_iff utility_u32_len_decimal unat_of_nat_64)
  have "113 + utility_u32_len (size_of text) + 4 + text_size text = word_of_nat (113 + length ?d + 4 + length text)"
    by (simp add: u text_size_def)
  moreover have "113 + length ?d + 4 + length text < 18446744073709551616"
    using assms length_decimal_32 [of "size_of text"] s by simp
  ultimately show "unat (113 + utility_u32_len (size_of text) + 4 + text_size text) = 113 + length ?d + 4 + length text"
    using unat_of_nat_64 by metis
qed

lemma split_cells: "length ys = m + n \<Longrightarrow> \<exists>us vs. ys = us @ vs \<and> length us = m \<and> length vs = n"
  by (metis add_diff_cancel_left' append_take_drop_id diff_le_self length_drop length_take min_absorb2 le_add1)

text \<open>What \<open>t2\<close> and \<open>t3\<close> allocate.\<close>

lemma tailored_room:
  assumes "buffer_inv out" "unat (buf_size out) + length text + 127 \<le> 2 ^ 63"
  obtains out' ys zs where
    "stream_allocate out (113 + utility_u32_len (size_of text) + 4 + text_size text) = (out', length (buffer_cells out))"
    "buf_data out' = buffer_cells out @ ys @ zs" "length ys = 113 + length (decimal (length text mod 2 ^ 32)) + 4 + length text"
    "\<And>us. length us = 113 + length (decimal (length text mod 2 ^ 32)) + 4 + length text \<Longrightarrow>
      buffer_inv (out'\<lparr>buf_data := buffer_cells out @ us @ zs\<rparr>) \<and>
      buffer_cells (out'\<lparr>buf_data := buffer_cells out @ us @ zs\<rparr>) = buffer_cells out @ us"
proof -
  note sz = tailored_size [OF assms(2)]
  have "length (decimal (length text mod 2 ^ 32)) \<le> 10" using length_decimal_32 [of "size_of text"] sz(2) by simp
  then have "unat (buf_size out) + unat (113 + utility_u32_len (size_of text) + 4 + text_size text) \<le> 2 ^ 63"
    unfolding sz(1) using assms(2) by simp
  from allocated [OF assms(1) this, unfolded sz(1)] show thesis using that by metis
qed

lemma header_length: "length header_text = 113"
  by (simp add: header_pieces)

lemma header_bytes: "string_bytes_at header_text 113 = Some header_text"
  by (simp add: string_bytes_at_def header_pieces)

lemma text_memory: "length text < 18446744073709551616 \<Longrightarrow> unat (text_size text) = length text"
  by (simp add: text_size_def unat_of_nat_64)

lemma date_replaced:
  assumes "length date = 29"
  shows "mem_write (xs @ map Some header_text @ zs) (length xs + 40) (map Some date) = Some (xs @ map Some (before_date @ date @ behind_date) @ zs)"
  using mem_write_at [of _ "xs @ map Some before_date" "map Some ''Mon, 06 Dec 2021 19:08:57 GMT''" "map Some behind_date @ zs" "length xs + 40" "map Some date"]
    assms by (simp add: header_pieces)

text \<open>\<open>t2\<close> is exact for every text.\<close>

lemma t2_appends:
  assumes "buffer_inv out" "unat (buf_size out) + length text + 127 \<le> 2 ^ 63" "length date = 29"
  shows "appends out (answer date text) (t2 date out text)"
proof -
  let ?d = "decimal (length text mod 2 ^ 32)" and ?xs = "buffer_cells out" and ?h = "before_date @ date @ behind_date"
  note sz = tailored_size [OF assms(2)]
  have ul: "unat (utility_u32_len (size_of text)) = length ?d" by (simp add: utility_u32_len_decimal sz(2))
  obtain out' ys zs where
    a: "stream_allocate out (113 + utility_u32_len (size_of text) + 4 + text_size text) = (out', length ?xs)"
      "buf_data out' = ?xs @ ys @ zs" "length ys = 113 + length ?d + 4 + length text"
    and fits: "\<And>us. length us = 113 + length ?d + 4 + length text \<Longrightarrow>
      buffer_inv (out'\<lparr>buf_data := ?xs @ us @ zs\<rparr>) \<and> buffer_cells (out'\<lparr>buf_data := ?xs @ us @ zs\<rparr>) = ?xs @ us"
    by (rule tailored_room [OF assms(1,2)], rule that)
  obtain u y4 where u: "ys = u @ y4" "length u = 113 + length ?d + 4" "length y4 = length text" using split_cells [OF a(3)] by blast
  obtain v y3 where v: "u = v @ y3" "length v = 113 + length ?d" "length y3 = 4" using split_cells [OF u(2)] by blast
  obtain y1 y2 where y: "v = y1 @ y2" "length y1 = 113" "length y2 = length ?d" using split_cells [OF v(2)] by blast
  have w1: "mem_write (buf_data out') (length ?xs) (map Some header_text) = Some (?xs @ map Some header_text @ (y2 @ y3 @ y4 @ zs))"
    by (rule mem_write_at [where us = y1]) (simp_all add: a(2) u v y header_pieces)
  have h: "length ?h = 113" using assms(3) by (simp add: header_pieces)
  have w3: "utility_u32_sprint (size_of text) (?xs @ map Some ?h @ (y2 @ y3 @ y4 @ zs), length ?xs + 113 + length ?d) =
      Some ((?xs @ map Some ?h) @ map Some ?d @ (y3 @ y4 @ zs), length (?xs @ map Some ?h))"
    using sprint_at [of "?xs @ map Some ?h @ (y2 @ y3 @ y4 @ zs)" "?xs @ map Some ?h" y2 "y3 @ y4 @ zs" "length ?xs + 113 + length ?d" "size_of text"]
      h y(3) by (simp add: sz(2))
  have w4: "mem_write ((?xs @ map Some ?h) @ map Some ?d @ (y3 @ y4 @ zs)) (length ?xs + 113 + length ?d) (map Some (crlf @ crlf)) =
      Some ((?xs @ map Some ?h @ map Some ?d) @ map Some (crlf @ crlf) @ (y4 @ zs))"
    by (rule mem_write_at [where us = y3]) (use h v(3) in \<open>simp_all add: crlf_def\<close>)
  have w5: "mem_write ((?xs @ map Some ?h @ map Some ?d) @ map Some (crlf @ crlf) @ (y4 @ zs)) (length ?xs + 113 + length ?d + 4) (map Some text) =
      Some ((?xs @ map Some ?h @ map Some ?d @ map Some (crlf @ crlf)) @ map Some text @ zs)"
    by (rule mem_write_at [where us = y4]) (use h u(3) in \<open>simp_all add: crlf_def\<close>)
  have whole: "answer date text = ?h @ ?d @ crlf @ crlf @ text"
    by (simp add: answer_def response_text_def field_text_def before_date_def behind_date_def)
  have "length (map Some (answer date text)) = 113 + length ?d + 4 + length text" using assms(3) h by (simp add: whole crlf_def)
  from fits [OF this] show ?thesis
    unfolding appends_def t2_def Let_def a(1) prod.case header_bytes w1 date_bytes [OF assms(3)] Option.bind.bind_lunit
      date_replaced [OF assms(3)] ul w3 fst_conv w4 w5
    by (simp add: whole)
qed

text \<open>
  \<open>t3\<close> prints the length, and then writes the end of the header over it, because its cursor does not move: the
  response has no length, and the last cells of the output are left over.
\<close>

lemma t3_loses_length:
  assumes "buffer_inv out" "unat (buf_size out) + length text + 127 \<le> 2 ^ 63" "length date = 29"
  shows "\<exists>out' rest. t3 date out text = Some out' \<and> length rest = length (decimal (length text mod 2 ^ 32)) \<and>
    buffer_cells out' = buffer_cells out @ map Some (before_date @ date @ behind_date @ crlf @ crlf @ text) @ rest"
proof -
  let ?d = "decimal (length text mod 2 ^ 32)" and ?xs = "buffer_cells out" and ?h = "before_date @ date @ behind_date"
  note sz = tailored_size [OF assms(2)]
  have l: "unat (text_size text) = length text" using assms(2) by (intro text_memory) simp
  have ul: "unat (utility_u32_len (size_of text)) = length ?d" by (simp add: utility_u32_len_decimal sz(2))
  obtain out' ys zs where
    a: "stream_allocate out (113 + utility_u32_len (size_of text) + 4 + text_size text) = (out', length ?xs)"
      "buf_data out' = ?xs @ ys @ zs" "length ys = 113 + length ?d + 4 + length text"
    and fits: "\<And>us. length us = 113 + length ?d + 4 + length text \<Longrightarrow>
      buffer_inv (out'\<lparr>buf_data := ?xs @ us @ zs\<rparr>) \<and> buffer_cells (out'\<lparr>buf_data := ?xs @ us @ zs\<rparr>) = ?xs @ us"
    by (rule tailored_room [OF assms(1,2)], rule that)
  have "length ys = 113 + (length ?d + (4 + length text))" using a(3) by simp
  then obtain y1 v where y: "ys = y1 @ v" "length y1 = 113" "length v = length ?d + (4 + length text)" using split_cells by blast
  obtain y2 y3 where v: "v = y2 @ y3" "length y2 = length ?d" "length y3 = 4 + length text" using split_cells [OF y(3)] by blast
  have h: "length ?h = 113" using assms(3) by (simp add: header_pieces)
  let ?r = "map Some ?d @ y3"
  have "length ?r = 4 + (length text + length ?d)" using v(3) by simp
  then obtain r1 r' where r: "?r = r1 @ r'" "length r1 = 4" "length r' = length text + length ?d" using split_cells by blast
  obtain r2 rest where r': "r' = r2 @ rest" "length r2 = length text" "length rest = length ?d" using split_cells [OF r(3)] by blast
  have w1: "push (buf_data out', length ?xs) header_text 113 = Some (?xs @ map Some header_text @ (y2 @ y3 @ zs), length ?xs + 113)"
  proof -
    have "mem_write (buf_data out') (length ?xs) (map Some header_text) = Some (?xs @ map Some header_text @ (y2 @ y3 @ zs))"
      by (rule mem_write_at [where us = y1]) (simp_all add: a(2) y v header_length)
    then show ?thesis by (simp add: push_def header_bytes pointer_push_def pointer_move_def header_length)
  qed
  have w3: "utility_u32_sprint (size_of text) (?xs @ map Some ?h @ (y2 @ y3 @ zs), length ?xs + 113 + length ?d) =
      Some ((?xs @ map Some ?h) @ map Some ?d @ (y3 @ zs), length (?xs @ map Some ?h))"
    using sprint_at [of "?xs @ map Some ?h @ (y2 @ y3 @ zs)" "?xs @ map Some ?h" y2 "y3 @ zs" "length ?xs + 113 + length ?d" "size_of text"]
      h v(2) by (simp add: sz(2))
  have regroup: "(?xs @ map Some ?h) @ map Some ?d @ (y3 @ zs) = (?xs @ map Some ?h) @ r1 @ (r2 @ rest @ zs)"
    using r(1) r'(1) by (metis append.assoc)
  have w4: "push ((?xs @ map Some ?h) @ r1 @ (r2 @ rest @ zs), length ?xs + 113) (crlf @ crlf) 4 =
      Some ((?xs @ map Some ?h) @ map Some (crlf @ crlf) @ (r2 @ rest @ zs), length ?xs + 117)"
    using mem_write_at [of _ "?xs @ map Some ?h" r1 "r2 @ rest @ zs" "length ?xs + 113" "map Some (crlf @ crlf)"] h r(2)
    by (simp add: push_def string_bytes_at_def pointer_push_def pointer_move_def crlf_def)
  have w5: "push ((?xs @ map Some ?h) @ map Some (crlf @ crlf) @ (r2 @ rest @ zs), length ?xs + 117) text (length text) =
      Some ((?xs @ map Some ?h @ map Some (crlf @ crlf)) @ map Some text @ (rest @ zs), length ?xs + 117 + length text)"
    using mem_write_at [of _ "?xs @ map Some ?h @ map Some (crlf @ crlf)" r2 "rest @ zs" "length ?xs + 117" "map Some text"] h r'(2)
    by (simp add: push_def string_bytes_at_def pointer_push_def pointer_move_def crlf_def)
  let ?us = "map Some (?h @ crlf @ crlf @ text) @ rest"
  have "length ?us = 113 + length ?d + 4 + length text" using h r'(3) by (simp add: crlf_def)
  note filled = fits [OF this]
  have "t3 date out text = Some (out'\<lparr>buf_data := ?xs @ ?us @ zs\<rparr>)"
    unfolding t3_def Let_def a(1) prod.case w1 date_bytes [OF assms(3)] Option.bind.bind_lunit fst_conv snd_conv
      date_replaced [OF assms(3)] ul w3 regroup w4 l w5 by simp
  then show ?thesis using filled r'(3) by (intro exI [of _ "out'\<lparr>buf_data := ?xs @ ?us @ zs\<rparr>"] exI [of _ rest]) simp
qed

lemma take_behind: "take (length xs + n) (xs @ map Some ys) = xs @ map Some (take n ys)"
  by (simp add: take_map)

text \<open>\<open>t6\<close> writes one byte more than it allocates, the zero byte of the field name.\<close>

lemma t6_overruns:
  assumes "buffer_inv out" "unat (buf_size out) + 132 \<le> 2 ^ 63" "length date = 29" "length text = 13"
    and "unat (buf_size out) + 133 \<le> length (buf_data (fst (stream_allocate out 132)))"
  shows "\<exists>out'. t6 date out text = Some out' \<and>
    buffer_cells out' = buffer_cells out @ map Some (before_date @ date @ behind_date @ [CHR 0x00] @ ''13'' @ crlf @ crlf @ butlast text)"
proof -
  let ?xs = "buffer_cells out" and ?ys = "before_date @ date @ behind_date @ [CHR 0x00] @ ''13'' @ crlf @ crlf @ text"
  define f where "f = (\<lambda>p. do {
     p \<leftarrow> push p (''HTTP/1.1 200 OK'' @ crlf) 17;
     p \<leftarrow> pushf2 p ''Server'' 6 ''reactor'' 7;
     p \<leftarrow> pushf2 p ''Date'' 4 date 29;
     p \<leftarrow> pushf2 p ''Content-Type'' 12 ''text/plain'' 10;
     p \<leftarrow> push p ''Content-Length: '' 17;
     p \<leftarrow> push_length p (size_of text);
     p \<leftarrow> push p (crlf @ crlf) 4;
     push p text (unat (text_size text)) })"
  have "writes f ((''HTTP/1.1 200 OK'' @ crlf) @ field_text (''Server'', ''reactor'') @ field_text (''Date'', date) @
      field_text (''Content-Type'', ''text/plain'') @ take 17 (''Content-Length: '' @ [CHR 0x00]) @ decimal (unat (size_of text)) @ (crlf @ crlf) @ text)"
    unfolding f_def
    by ((rule writes_bind writes_length | (rule writes_pushf2_whole, simp, simp add: assms(3)) |
        (rule writes_push_whole, simp add: assms(4) sizes crlf_def; fail) | (rule writes_push_size, simp; fail))+)
  then have w: "writes f ?ys" by (simp add: field_text_def before_date_def behind_date_def sizes assms(4))
  have ly: "length ?ys = 133" using assms(3,4) by (simp add: header_pieces crlf_def)
  have "unat (buf_size out) + unat (132 :: u64) \<le> 2 ^ 63" using assms(2) by simp
  from allocated [OF assms(1) this] obtain out' ys zs where a: "stream_allocate out 132 = (out', length ?xs)" "buf_data out' = ?xs @ ys @ zs"
    "length ys = 132" and fits: "\<And>us. length us = 132 \<Longrightarrow>
      buffer_inv (out'\<lparr>buf_data := ?xs @ us @ zs\<rparr>) \<and> buffer_cells (out'\<lparr>buf_data := ?xs @ us @ zs\<rparr>) = ?xs @ us" by auto
  have lx: "length ?xs = unat (buf_size out)" using assms(1) by simp
  have "1 \<le> length zs" using assms(5) a lx by simp
  then have "cursor_at (buf_data out', length ?xs) ?xs (132 + length zs)" "length ?ys \<le> 132 + length zs"
    using a(2,3) ly by (simp_all add: cursor_at_def)
  then obtain q where q: "f (buf_data out', length ?xs) = Some q" "cursor_at q (?xs @ map Some ?ys) (132 + length zs - length ?ys)"
    using w unfolding writes_def by blast
  have size: "unat (buf_size out') = length ?xs + 132"
  proof -
    have "length (buffer_cells (out'\<lparr>buf_data := ?xs @ ys @ zs\<rparr>)) = length (?xs @ ys)" using fits [OF a(3)] by metis
    moreover have "buffer_inv (out'\<lparr>buf_data := ?xs @ ys @ zs\<rparr>)" using fits [OF a(3)] by blast
    ultimately show ?thesis using a(3) by simp
  qed
  have "snd q = length ?xs + 133" using q(2) ly unfolding cursor_at_def length_append length_map by simp
  moreover have "take (snd q) (fst q) = ?xs @ map Some ?ys" using q(2) unfolding cursor_at_def by blast
  ultimately have whole: "take (length ?xs + 133) (fst q) = ?xs @ map Some ?ys" by simp
  have "take (length ?xs + 132) (fst q) = take (length ?xs + 132) (take (length ?xs + 133) (fst q))" by (simp add: min_def)
  also have "\<dots> = take (length ?xs + 132) (?xs @ map Some ?ys)" unfolding whole ..
  also have "\<dots> = ?xs @ map Some (take 132 ?ys)" by (rule take_behind)
  also have "take 132 ?ys = before_date @ date @ behind_date @ [CHR 0x00] @ ''13'' @ crlf @ crlf @ butlast text"
  proof -
    have "take 132 ?ys = butlast ?ys" unfolding butlast_conv_take ly by simp
    also have "\<dots> = before_date @ date @ behind_date @ [CHR 0x00] @ ''13'' @ crlf @ crlf @ butlast text"
      using assms(4) by (auto simp: butlast_append crlf_def)
    finally show ?thesis .
  qed
  finally have "buffer_cells (out'\<lparr>buf_data := fst q\<rparr>) = ?xs @ map Some (before_date @ date @ behind_date @ [CHR 0x00] @ ''13'' @ crlf @ crlf @ butlast text)"
    using size by (simp add: buffer_cells_def)
  moreover have "t6 date out text = Some (out'\<lparr>buf_data := fst q\<rparr>)"
  proof -
    have "t6 date out text = reply out 132 f" unfolding t6_def f_def ..
    then show ?thesis using q(1) a(1) by (simp add: reply_def)
  qed
  ultimately show ?thesis by blast
qed

text \<open>
  C22. Seven of the nine writers of the example are equivalent to the library's \<open>http_write_response\<close>: for a text of
  13 characters they append the same bytes to the output, although they allocate, copy and print in
  different ways. The first one does so for the text it is made for.
\<close>

theorem responder_equivalent:
  assumes "buffer_inv out" "unat (buf_size out) + 140 \<le> 2 ^ 63" "length date = 29" "length text = 13"
  shows "\<exists>cells. map_option buffer_cells (http_write_response out ''200 OK'' date ''text/plain'' text) = Some cells \<and>
    map_option buffer_cells (t2 date out text) = Some cells \<and> map_option buffer_cells (t4 date out text) = Some cells \<and>
    map_option buffer_cells (t5 date out text) = Some cells \<and> map_option buffer_cells (t7 date out text) = Some cells \<and>
    map_option buffer_cells (t8 date out text (text_size text)) = Some cells \<and>
    map_option buffer_cells (segment_measure date out text) = Some cells \<and>
    (text = ''Hello, World!'' \<longrightarrow> map_option buffer_cells (t1 date out text) = Some cells)"
proof -
  have room: "unat (buf_size out) + 132 \<le> 2 ^ 63" "unat (buf_size out) + length text + 127 \<le> 2 ^ 63" using assms(2,4) by simp_all
  note A = assms(1) room(1) assms(3,4)
  have cells: "map_option buffer_cells r = Some (buffer_cells out @ map Some (answer date text))" if "appends out (answer date text) r" for r
    using that by (auto simp: appends_def)
  have "unat (buf_size out) + length (answer date text) \<le> 2 ^ 63" using answer_length [OF assms(3,4)] room(1) by simp
  then have "appends out (answer date text) (http_write_response out ''200 OK'' date ''text/plain'' text)"
    using http_write_response_ok [OF assms(1,3), of "''200 OK''" "''text/plain''" "text"] by (simp add: answer_def appends_def)
  then have "map_option buffer_cells (http_write_response out ''200 OK'' date ''text/plain'' text) = Some (buffer_cells out @ map Some (answer date text))"
    by (rule cells)
  moreover have "text = ''Hello, World!'' \<longrightarrow> map_option buffer_cells (t1 date out text) = Some (buffer_cells out @ map Some (answer date text))"
    using t1_appends [OF A(1-3), of "text"] by (auto simp: appends_def)
  ultimately show ?thesis
    using cells [OF t2_appends [OF A(1) room(2) A(3)]] cells [OF t4_appends [OF A]] cells [OF t5_appends [OF A]] cells [OF t7_appends [OF A]]
      cells [OF t8_appends [OF A]] cells [OF segment_appends [OF A]] by blast
qed

theorem responder_equivalent_witness:
  "\<exists>cells. map_option buffer_cells (http_write_response buffer_construct ''200 OK'' ''Mon, 06 Dec 2021 19:08:57 GMT'' ''text/plain'' ''Hello, World!'') = Some cells \<and>
    map_option buffer_cells (t1 ''Mon, 06 Dec 2021 19:08:57 GMT'' buffer_construct ''Hello, World!'') = Some cells \<and>
    map_option buffer_cells (t7 ''Mon, 06 Dec 2021 19:08:57 GMT'' buffer_construct ''Hello, World!'') = Some cells"
  using responder_equivalent [of buffer_construct "''Mon, 06 Dec 2021 19:08:57 GMT''" "''Hello, World!''"]
  by (auto simp: buffer_construct_def buffer_inv_def)

section \<open>Measuring\<close>

text \<open>
  \<open>n\<close> calls on a stream that was never opened; \<open>start\<close> and \<open>stop\<close> are what the time stamp counter reads. The result is what is
  printed behind the name. Every measurement begins and ends with an output buffer without memory.
\<close>

primrec measure_loop :: "nat \<Rightarrow> (buffer \<Rightarrow> buffer option) \<Rightarrow> buffer \<Rightarrow> buffer option" where
  "measure_loop 0 f out = Some out"
| "measure_loop (Suc n) f out = do { out \<leftarrow> f out; measure_loop n f (buffer_clear out) }"

definition average :: "u64 \<Rightarrow> u64 \<Rightarrow> int \<Rightarrow> u64 option" where
  "average start stop n = (if n = 0 then None else Some ((stop - start) div word_of_int n))"

definition measure :: "int \<Rightarrow> (buffer \<Rightarrow> string \<Rightarrow> buffer option) \<Rightarrow> u64 \<Rightarrow> u64 \<Rightarrow> nat \<Rightarrow> (nat, 'z) ssl_reactor_scheme
    \<Rightarrow> (u64 \<times> (nat, 'z) ssl_reactor_scheme) option" where
  "measure n f start stop a w = (let s = (stream_construct a None 0 :: nat stream) in do {
     out \<leftarrow> measure_loop (nat n) (\<lambda>out. f out ''Hello, World!'') (sm_output s);
     (s, w) \<leftarrow> stream_destruct a (s\<lparr>sm_output := out\<rparr>) w;
     t \<leftarrow> average start stop n;
     Some (t, w) })"

definition measure2 :: "int \<Rightarrow> (buffer \<Rightarrow> string \<Rightarrow> u64 \<Rightarrow> buffer option) \<Rightarrow> u64 \<Rightarrow> u64 \<Rightarrow> nat \<Rightarrow> (nat, 'z) ssl_reactor_scheme
    \<Rightarrow> (u64 \<times> (nat, 'z) ssl_reactor_scheme) option" where
  "measure2 n f start stop a w = (let s = (stream_construct a None 0 :: nat stream) in do {
     out \<leftarrow> measure_loop (nat n) (\<lambda>out. f out ''Hello, World!'' (text_size ''Hello, World!'')) (sm_output s);
     (s, w) \<leftarrow> stream_destruct a (s\<lparr>sm_output := out\<rparr>) w;
     t \<leftarrow> average start stop n;
     Some (t, w) })"

definition measure3 :: "int \<Rightarrow> (buffer \<Rightarrow> string \<Rightarrow> buffer option) \<Rightarrow> u64 \<Rightarrow> u64 \<Rightarrow> nat \<Rightarrow> (nat, 'z) ssl_reactor_scheme
    \<Rightarrow> (u64 \<times> (nat, 'z) ssl_reactor_scheme) option" where
  "measure3 n f start stop a w = (let s = (stream_construct a None 0 :: nat stream) in do {
     out \<leftarrow> measure_loop (nat n) (\<lambda>out. f out ''Hello, World!'') (buffer_resize (sm_output s) 4096);
     (s, w) \<leftarrow> stream_destruct a (s\<lparr>sm_output := out\<rparr>) w;
     t \<leftarrow> average start stop n;
     Some (t, w) })"

text \<open>The main program; \<open>tsc\<close> are the readings of the counter, in order. It constructs no reactor.\<close>

definition responder_main :: "string \<Rightarrow> (nat \<Rightarrow> u64) \<Rightarrow> nat \<Rightarrow> (nat, 'z) ssl_reactor_scheme \<Rightarrow> (string \<times> u64) list option" where
  "responder_main date tsc a w = do {
     (n1, w) \<leftarrow> measure 10000000 (t1 date) (tsc 0) (tsc 1) a w;
     (n2, w) \<leftarrow> measure 10000000 (t2 date) (tsc 2) (tsc 3) a w;
     (n3, w) \<leftarrow> measure 10000000 (t3 date) (tsc 4) (tsc 5) a w;
     (n4, w) \<leftarrow> measure 10000000 (t4 date) (tsc 6) (tsc 7) a w;
     (n5, w) \<leftarrow> measure 10000000 (t5 date) (tsc 8) (tsc 9) a w;
     (n6, w) \<leftarrow> measure 10000000 (t6 date) (tsc 10) (tsc 11) a w;
     (n7, w) \<leftarrow> measure2 10000000 (t8 date) (tsc 12) (tsc 13) a w;
     (n8, w) \<leftarrow> measure 10000000 (t7 date) (tsc 14) (tsc 15) a w;
     (n9, w) \<leftarrow> measure3 10000000 (segment_measure date) (tsc 16) (tsc 17) a w;
     Some [(''memcpy'', n1), (''tailored'', n2), (''push'', n3), (''push2'', n4), (''push3'', n5), (''push4'', n6),
       (''push5'', n7), (''push array'', n8), (''segment'', n9)] }"

lemma measure_loop_from_empty:
  "(\<exists>out. f buffer_construct = Some out) \<Longrightarrow> \<exists>out. measure_loop n f buffer_construct = Some out"
  by (induction n) (auto simp: buffer_clear_def)

lemma measure_loop_ends:
  "\<lbrakk>\<exists>out. f buffer_construct = Some out; \<exists>out'. f out = Some out'\<rbrakk> \<Longrightarrow> \<exists>out'. measure_loop n f out = Some out'"
  using measure_loop_from_empty [where f = f] by (cases n) (auto simp: buffer_clear_def)

lemma output_constructed: "sm_output (stream_construct a callback state) = buffer_construct"
  by (simp add: stream_construct_def)

lemma never_opened: "\<exists>s'. stream_destruct a (stream_construct a None 0 \<lparr>sm_output := out\<rparr>) w = Some (s', w)"
  by (rule stream_destruct_closed) (simp add: stream_construct_def descriptor_construct_def descriptor_is_open_def)

lemma measure_ends:
  assumes "\<exists>out. f buffer_construct ''Hello, World!'' = Some out"
  shows "measure n f start stop a w = map_option (\<lambda>t. (t, w)) (average start stop n)"
proof -
  obtain out where "measure_loop (nat n) (\<lambda>out. f out ''Hello, World!'') buffer_construct = Some out"
    using measure_loop_from_empty [where f = "\<lambda>out. f out ''Hello, World!''", OF assms] by blast
  moreover obtain s' :: "nat stream" where "stream_destruct a (stream_construct a None 0 \<lparr>sm_output := out\<rparr>) w = Some (s', w)"
    using never_opened by blast
  ultimately show ?thesis by (cases "average start stop n") (simp_all add: measure_def output_constructed)
qed

lemma measure2_ends:
  assumes "\<exists>out. f buffer_construct ''Hello, World!'' (text_size ''Hello, World!'') = Some out"
  shows "measure2 n f start stop a w = map_option (\<lambda>t. (t, w)) (average start stop n)"
  using measure_ends [of "\<lambda>out text. f out text (text_size text)" n start stop a w] assms by (simp add: measure_def measure2_def)

lemma measure3_ends:
  assumes "\<exists>out. f buffer_construct ''Hello, World!'' = Some out" "\<exists>out. f (buffer_resize buffer_construct 4096) ''Hello, World!'' = Some out"
  shows "measure3 n f start stop a w = map_option (\<lambda>t. (t, w)) (average start stop n)"
proof -
  obtain out where "measure_loop (nat n) (\<lambda>out. f out ''Hello, World!'') (buffer_resize buffer_construct 4096) = Some out"
    using measure_loop_ends [where f = "\<lambda>out. f out ''Hello, World!''", OF assms] by blast
  moreover obtain s' :: "nat stream" where "stream_destruct a (stream_construct a None 0 \<lparr>sm_output := out\<rparr>) w = Some (s', w)"
    using never_opened by blast
  ultimately show ?thesis by (cases "average start stop n") (simp_all add: measure3_def output_constructed)
qed

lemma empty_room:
  "buffer_inv buffer_construct" "unat (buf_size buffer_construct) = 0" "length (buf_data (fst (stream_allocate buffer_construct 132))) = 256"
  by (simp, simp add: buffer_construct_def, code_simp)

text \<open>
  The program runs to its end without an access outside of a block: also \<open>t6\<close> does, because a block of 132 bytes
  is rounded up to 256. What it prints are the averages.
\<close>

lemma responder_main_ends:
  assumes "length date = 29"
  shows "responder_main date tsc a w =
    Some (zip [''memcpy'', ''tailored'', ''push'', ''push2'', ''push3'', ''push4'', ''push5'', ''push array'', ''segment'']
      (map (\<lambda>k. (tsc (2 * k + 1) - tsc (2 * k)) div 10000000) [0..<9]))"
proof -
  have t: "length ''Hello, World!'' = 13" by simp
  have room: "unat (buf_size buffer_construct) + 132 \<le> 2 ^ 63" "unat (buf_size buffer_construct) + length ''Hello, World!'' + 127 \<le> 2 ^ 63"
    "unat (buf_size buffer_construct) + 133 \<le> length (buf_data (fst (stream_allocate buffer_construct 132)))"
    by (simp_all add: empty_room)
  note A = empty_room(1) room(1) assms t
  have wide: "buffer_inv (buffer_resize buffer_construct 4096)" "unat (buf_size (buffer_resize buffer_construct 4096)) + 132 \<le> 2 ^ 63"
    using buffer_resize_ok [OF empty_room(1), of 4096] by simp_all
  have m: "measure 10000000 f x y a w = Some ((y - x) div 10000000, w)" if "\<exists>out. f buffer_construct ''Hello, World!'' = Some out" for f x y
    using measure_ends [where f = f and n = 10000000 and start = x and stop = y and a = a and w = w, OF that] by (simp add: average_def)
  have m2: "measure2 10000000 (t8 date) x y a w = Some ((y - x) div 10000000, w)" for x y
    using measure2_ends [of "t8 date" 10000000 x y a w] t8_appends [OF A] by (auto simp: average_def appends_def)
  have m3: "measure3 10000000 (segment_measure date) x y a w = Some ((y - x) div 10000000, w)" for x y
    using measure3_ends [of "segment_measure date" 10000000 x y a w] segment_appends [OF A] segment_appends [OF wide assms t]
    by (auto simp: average_def appends_def)
  have ends: "\<exists>out. t1 date buffer_construct ''Hello, World!'' = Some out" "\<exists>out. t2 date buffer_construct ''Hello, World!'' = Some out"
    "\<exists>out. t3 date buffer_construct ''Hello, World!'' = Some out" "\<exists>out. t4 date buffer_construct ''Hello, World!'' = Some out"
    "\<exists>out. t5 date buffer_construct ''Hello, World!'' = Some out" "\<exists>out. t6 date buffer_construct ''Hello, World!'' = Some out"
    "\<exists>out. t7 date buffer_construct ''Hello, World!'' = Some out"
    using t1_appends [OF A(1-3)] t2_appends [OF A(1) room(2) A(3)] t3_loses_length [OF A(1) room(2) A(3)] t4_appends [OF A] t5_appends [OF A]
      t6_overruns [OF A(1) room(1) A(3,4) room(3)] t7_appends [OF A] unfolding appends_def by blast+
  have "[0..<9] = [0, 1, 2, 3, 4, 5, 6, 7, 8 :: nat]" by code_simp
  then show ?thesis by (simp add: responder_main_def m m2 m3 ends)
qed

end
