(* ===== verification/Relay.thy ===== *)
theory Relay
  imports Stream Data
begin

text \<open>
  \<^verbatim>\<open>src/example/descriptor.c\<close> and \<^verbatim>\<open>src/example/fd.c\<close>: two programs that copy the standard input to the standard
  output, one over descriptors and one over the reactor alone. Their functions are the same up to the calls
  that say what is watched; these calls are the record \<open>relay_ops\<close>, and the locale \<open>relay_watch\<close> states
  what the functions rely on. The world is the reactor with the struct of the program, the answers the system is
  going to give, and what has been read and written so far.
\<close>

section \<open>The program\<close>

text \<open>An answer of \<open>read\<close>: some bytes, none at the end of the file; \<open>EAGAIN\<close>; or another error. Behind the answers it is \<open>EAGAIN\<close>.\<close>

datatype read_answer = Delivers string | Not_Yet | Unreadable

record relay = "nat reactor" +
  ry_base :: u64
  ry_buffer :: string
  ry_remaining :: data
  ry_incoming :: "read_answer list"
  ry_room :: "write_answer list"
  ry_got :: string
  ry_sent :: string

record 'w relay_ops =
  op_input :: "'w \<Rightarrow> int"
  op_output :: "'w \<Rightarrow> int"
  op_close :: "'w \<Rightarrow> 'w option"
  op_drain :: "'w \<Rightarrow> 'w option"
  op_resume :: "'w \<Rightarrow> 'w option"

definition next_read :: "int \<Rightarrow> 'z relay_scheme \<Rightarrow> read_answer \<times> 'z relay_scheme" where
  "next_read fd w = (if fd \<noteq> 0 then (Unreadable, w) else
     (case ry_incoming w of [] \<Rightarrow> (Not_Yet, w) | r # rs \<Rightarrow> (r, w\<lparr>ry_incoming := rs\<rparr>)))"

definition next_write :: "int \<Rightarrow> 'z relay_scheme \<Rightarrow> write_answer \<times> 'z relay_scheme" where
  "next_write fd w = (if fd \<noteq> 1 then (Broken, w) else
     (case ry_room w of [] \<Rightarrow> (Again, w) | r # rs \<Rightarrow> (r, w\<lparr>ry_room := rs\<rparr>)))"

text \<open>The struct at the start: its buffer is at \<open>base\<close>, and everything is zero.\<close>

definition relay_zero :: "nat reactor \<Rightarrow> u64 \<Rightarrow> read_answer list \<Rightarrow> write_answer list \<Rightarrow> relay" where
  "relay_zero r base reads room = reactor.extend r (relay.fields base (replicate 4096 (CHR 0x00)) data_null reads room [] [])"

text \<open>The bytes of the buffer that a view shows.\<close>

definition view_text :: "data \<Rightarrow> 'z relay_scheme \<Rightarrow> string option" where
  "view_text d w = (let k = unat (data_base d - ry_base w); n = unat (data_size d) in
     if k + n \<le> length (ry_buffer w) then Some (take n (drop k (ry_buffer w))) else None)"

definition fill :: "'z relay_scheme relay_ops \<Rightarrow> 'z relay_scheme \<Rightarrow> (int \<times> 'z relay_scheme) option" where
  "fill ops w = (let (r, w) = next_read (op_input ops w) w in
     case r of
       Delivers xs \<Rightarrow>
         if xs = [] then do { w \<leftarrow> op_close ops w; Some (-1, w) }
         else if length xs \<le> length (ry_buffer w) then do {
           w \<leftarrow> op_drain ops (w\<lparr>ry_buffer := xs @ drop (length xs) (ry_buffer w), ry_got := ry_got w @ xs,
             ry_remaining := data_construct (ry_base w) (word_of_nat (length xs))\<rparr>);
           Some (0, w) }
         else None
     | Not_Yet \<Rightarrow> Some (-1, w)
     | Unreadable \<Rightarrow> None)"

definition flush :: "'z relay_scheme relay_ops \<Rightarrow> 'z relay_scheme \<Rightarrow> (int \<times> 'z relay_scheme) option" where
  "flush ops w = (let (r, w) = next_write (op_output ops w) w in
     case r of
       Room k \<Rightarrow> (let d = ry_remaining w; n = min k (unat (data_size d)) in do {
         xs \<leftarrow> view_text d w;
         (if 0 < n then
            (let w = w\<lparr>ry_sent := ry_sent w @ take n xs,
               ry_remaining := data_select d (word_of_nat n) (data_size d - word_of_nat n)\<rparr> in
             if data_size (ry_remaining w) = 0 then do { w \<leftarrow> op_resume ops w; Some (0, w) } else Some (0, w))
          else None) })
     | Again \<Rightarrow> Some (-1, w)
     | Broken \<Rightarrow> None)"

partial_function (option) relay_input :: "'z relay_scheme relay_ops \<Rightarrow> 'z relay_scheme \<Rightarrow> 'z relay_scheme option" where
  "relay_input ops w =
     (if data_size (ry_remaining w) = 0 then do {
        (e, w) \<leftarrow> fill ops w;
        (if e = -1 then Some w else do {
          (e, w) \<leftarrow> flush ops w;
          (if e = -1 then Some w else relay_input ops w) }) }
      else Some w)"

partial_function (option) relay_output :: "'z relay_scheme relay_ops \<Rightarrow> 'z relay_scheme \<Rightarrow> 'z relay_scheme option" where
  "relay_output ops w =
     (if data_size (ry_remaining w) \<noteq> 0 then do {
        (e, w) \<leftarrow> flush ops w;
        (if e = -1 then Some w else relay_output ops w) }
      else Some w)"

section \<open>Over the reactor\<close>

text \<open>The handlers are at the addresses 0 and 1.\<close>

datatype relay_callback = Input | Output

record fd_relay = relay +
  fr_input :: "relay_callback handler"
  fr_output :: "relay_callback handler"

definition fd_close :: "fd_relay \<Rightarrow> fd_relay option" where
  "fd_close w = do { w \<leftarrow> reactor_delete 0 0 w; reactor_delete 1 1 w }"

definition fd_drain :: "fd_relay \<Rightarrow> fd_relay option" where
  "fd_drain w = do { w \<leftarrow> reactor_modify 0 0 0 w; reactor_modify 1 1 (EPOLLOUT OR EPOLLET) w }"

definition fd_resume :: "fd_relay \<Rightarrow> fd_relay option" where
  "fd_resume w = do { w \<leftarrow> reactor_modify 0 0 (EPOLLIN OR EPOLLET) w; reactor_modify 1 1 0 w }"

definition fd_ops :: "fd_relay relay_ops" where
  "fd_ops = \<lparr>op_input = (\<lambda>_. 0), op_output = (\<lambda>_. 1), op_close = fd_close, op_drain = fd_drain, op_resume = fd_resume\<rparr>"

definition fd_fill :: "fd_relay \<Rightarrow> (int \<times> fd_relay) option" where "fd_fill = fill fd_ops"
definition fd_flush :: "fd_relay \<Rightarrow> (int \<times> fd_relay) option" where "fd_flush = flush fd_ops"
definition fd_input :: "fd_relay \<Rightarrow> fd_relay option" where "fd_input = relay_input fd_ops"
definition fd_output :: "fd_relay \<Rightarrow> fd_relay option" where "fd_output = relay_output fd_ops"

lemma fd_input_code: "fd_input w =
     (if data_size (ry_remaining w) = 0 then do {
        (e, w) \<leftarrow> fd_fill w;
        (if e = -1 then Some w else do {
          (e, w) \<leftarrow> fd_flush w;
          (if e = -1 then Some w else fd_input w) }) }
      else Some w)"
  unfolding fd_input_def fd_fill_def fd_flush_def by (subst relay_input.simps) simp

lemma fd_output_code: "fd_output w =
     (if data_size (ry_remaining w) \<noteq> 0 then do {
        (e, w) \<leftarrow> fd_flush w;
        (if e = -1 then Some w else fd_output w) }
      else Some w)"
  unfolding fd_output_def fd_flush_def by (subst relay_output.simps) simp

definition fd_call :: "relay_callback \<Rightarrow> reactor_event \<Rightarrow> fd_relay \<Rightarrow> fd_relay option" where
  "fd_call c ev w = (case c of Input \<Rightarrow> fd_input w | Output \<Rightarrow> fd_output w)"

definition fd_handler :: "fd_relay \<Rightarrow> nat \<Rightarrow> relay_callback handler option" where
  "fd_handler w a = (if a = 0 then Some (fr_input w) else if a = 1 then Some (fr_output w) else None)"

text \<open>
  The struct is at \<open>state\<close>. \<open>epoll_fd\<close> is what \<open>epoll_create1\<close> answers, \<open>wait k\<close> is the \<open>k\<close>th answer
  of \<open>epoll_wait\<close>; the descriptor of the reactor can be closed.
\<close>

definition fd_start :: "int \<Rightarrow> u64 \<Rightarrow> nat \<Rightarrow> read_answer list \<Rightarrow> write_answer list \<Rightarrow> fd_relay option" where
  "fd_start epoll_fd base state reads room = do {
     r \<leftarrow> reactor_construct epoll_fd;
     w \<leftarrow> reactor_add 0 0 EPOLLIN (relay.extend (relay_zero r base reads room)
       (fd_relay.fields (reactor_handler_construct (Some Input) state) (reactor_handler_construct (Some Output) state)));
     reactor_add 1 1 EPOLLOUT w }"

definition fd_main :: "int \<Rightarrow> u64 \<Rightarrow> nat \<Rightarrow> read_answer list \<Rightarrow> write_answer list \<Rightarrow> (nat \<Rightarrow> fd_relay \<Rightarrow> nat epoll_result) \<Rightarrow> fd_relay option" where
  "fd_main epoll_fd base state reads room wait = do {
     w \<leftarrow> fd_start epoll_fd base state reads room;
     w \<leftarrow> reactor_loop fd_call fd_handler wait 0 w;
     reactor_destruct 0 w }"

section \<open>Over descriptors\<close>

record descriptor_relay = relay +
  dr_input :: "relay_callback descriptor"
  dr_output :: "relay_callback descriptor"

definition relay_close :: "descriptor_relay \<Rightarrow> descriptor_relay option" where
  "relay_close w = do {
     (d, w) \<leftarrow> descriptor_close 0 (dr_input w) w;
     w \<leftarrow> Some (w\<lparr>dr_input := d\<rparr>);
     (d, w) \<leftarrow> descriptor_close 1 (dr_output w) w;
     Some (w\<lparr>dr_output := d\<rparr>) }"

definition relay_masks :: "u32 \<Rightarrow> u32 \<Rightarrow> descriptor_relay \<Rightarrow> descriptor_relay option" where
  "relay_masks m n w = do {
     (d, w) \<leftarrow> descriptor_mask 0 (dr_input w) m w;
     w \<leftarrow> Some (w\<lparr>dr_input := d\<rparr>);
     (d, w) \<leftarrow> descriptor_mask 1 (dr_output w) n w;
     Some (w\<lparr>dr_output := d\<rparr>) }"

definition descriptor_ops :: "descriptor_relay relay_ops" where
  "descriptor_ops = \<lparr>op_input = (\<lambda>w. descriptor_fd (dr_input w)), op_output = (\<lambda>w. descriptor_fd (dr_output w)),
     op_close = relay_close, op_drain = relay_masks 0 DESCRIPTOR_WRITE, op_resume = relay_masks DESCRIPTOR_READ 0\<rparr>"

definition relay_call :: "relay_callback \<Rightarrow> reactor_event \<Rightarrow> descriptor_relay \<Rightarrow> descriptor_relay option" where
  "relay_call c ev w = (case c of Input \<Rightarrow> relay_input descriptor_ops w | Output \<Rightarrow> relay_output descriptor_ops w)"

text \<open>\<open>descriptor_callback\<close> of \<^verbatim>\<open>src/reactor/descriptor.c\<close> in this world.\<close>

definition relay_dispatch :: "nat \<Rightarrow> nat \<Rightarrow> descriptor_relay \<Rightarrow> descriptor_relay option" where
  "relay_dispatch a type w =
     reactor_dispatch relay_call (de_handler (if a = 0 then dr_input w else dr_output w)) type 0 w"

definition relay_signal :: "nat \<Rightarrow> nat \<Rightarrow> u32 \<Rightarrow> nat \<Rightarrow> descriptor_relay \<Rightarrow> descriptor_relay option" where
  "relay_signal a i events type w = do {
     e \<leftarrow> event_at w i;
     (if ev_events e AND events \<noteq> 0 then relay_dispatch a type w else Some w) }"

definition relay_epoll :: "unit \<Rightarrow> reactor_event \<Rightarrow> descriptor_relay \<Rightarrow> descriptor_relay option" where
  "relay_epoll c ev w =
     (if re_type ev = REACTOR_EPOLL_EVENT then do {
        w \<leftarrow> relay_signal (re_state ev) (re_data ev) EPOLLIN DESCRIPTOR_READ w;
        w \<leftarrow> relay_signal (re_state ev) (re_data ev) EPOLLOUT DESCRIPTOR_WRITE w;
        relay_signal (re_state ev) (re_data ev) (NOT (EPOLLIN OR EPOLLOUT)) DESCRIPTOR_CLOSE w }
      else None)"

definition relay_handler :: "descriptor_relay \<Rightarrow> nat \<Rightarrow> unit handler option" where
  "relay_handler w a = (if a = 0 then Some (de_epoll_handler (dr_input w))
     else if a = 1 then Some (de_epoll_handler (dr_output w)) else None)"

definition blank_descriptor :: "relay_callback descriptor" where
  "blank_descriptor = \<lparr>de_handler = reactor_handler_default, de_epoll_handler = reactor_handler_default, de_fd = 0, de_mask = 0\<rparr>"

definition relay_start :: "int \<Rightarrow> u64 \<Rightarrow> nat \<Rightarrow> read_answer list \<Rightarrow> write_answer list \<Rightarrow> descriptor_relay option" where
  "relay_start epoll_fd base state reads room = do {
     r \<leftarrow> reactor_construct epoll_fd;
     w \<leftarrow> Some (relay.extend (relay_zero r base reads room)
       (descriptor_relay.fields (descriptor_construct 0 (Some Input) state blank_descriptor)
          (descriptor_construct 1 (Some Output) state blank_descriptor)));
     (d, w) \<leftarrow> descriptor_open 0 (dr_input w) 0 DESCRIPTOR_READ w;
     w \<leftarrow> Some (w\<lparr>dr_input := d\<rparr>);
     (d, w) \<leftarrow> descriptor_open 1 (dr_output w) 1 DESCRIPTOR_READ w;
     Some (w\<lparr>dr_output := d\<rparr>) }"

definition relay_main :: "int \<Rightarrow> u64 \<Rightarrow> nat \<Rightarrow> read_answer list \<Rightarrow> write_answer list \<Rightarrow> (nat \<Rightarrow> descriptor_relay \<Rightarrow> nat epoll_result)
    \<Rightarrow> descriptor_relay option" where
  "relay_main epoll_fd base state reads room wait = do {
     w \<leftarrow> relay_start epoll_fd base state reads room;
     w \<leftarrow> reactor_loop relay_epoll relay_handler wait 0 w;
     reactor_destruct 0 w }"

section \<open>The interface to what is watched\<close>

datatype phase = Filling | Draining | Ended

text \<open>What the calls that change the masks leave alone.\<close>

definition carries :: "'z relay_scheme \<Rightarrow> 'z relay_scheme \<Rightarrow> bool" where
  "carries w w' \<longleftrightarrow> ry_base w' = ry_base w \<and> ry_buffer w' = ry_buffer w \<and> ry_remaining w' = ry_remaining w \<and>
     ry_incoming w' = ry_incoming w \<and> ry_room w' = ry_room w \<and> ry_got w' = ry_got w \<and> ry_sent w' = ry_sent w \<and>
     rc_active w' = rc_active w \<and> fades w w'"

text \<open>The text that the answers of \<open>read\<close> deliver, up to the end of the file.\<close>

fun arriving :: "read_answer list \<Rightarrow> string" where
  "arriving [] = []"
| "arriving (Delivers xs # rs) = (if xs = [] then [] else xs @ arriving rs)"
| "arriving (_ # rs) = arriving rs"

definition sound_reads :: "read_answer list \<Rightarrow> bool" where
  "sound_reads rs \<longleftrightarrow> (\<forall>r \<in> set rs. case r of Delivers xs \<Rightarrow> length xs \<le> 4096 | Not_Yet \<Rightarrow> True | Unreadable \<Rightarrow> False)"

definition sound_writes :: "write_answer list \<Rightarrow> bool" where
  "sound_writes rs \<longleftrightarrow> (\<forall>r \<in> set rs. case r of Room k \<Rightarrow> 0 < k | Again \<Rightarrow> True | Broken \<Rightarrow> False)"

definition takes :: "write_answer list \<Rightarrow> nat" where
  "takes rs = length (filter (\<lambda>r. r \<noteq> Again) rs)"

definition holding :: "'z relay_scheme \<Rightarrow> bool" where
  "holding w \<longleftrightarrow> data_size (ry_remaining w) \<noteq> 0"

definition unsent :: "'z relay_scheme \<Rightarrow> string" where
  "unsent w = (if holding w then the (view_text (ry_remaining w) w) else [])"

text \<open>The answers are sound, and what has been read is what has been written and what the view shows.\<close>

definition stocked :: "'z relay_scheme \<Rightarrow> bool" where
  "stocked w \<longleftrightarrow> sound_reads (ry_incoming w) \<and> sound_writes (ry_room w) \<and> length (ry_buffer w) = 4096 \<and>
     (holding w \<longrightarrow> view_text (ry_remaining w) w \<noteq> None) \<and> ry_got w = ry_sent w @ unsent w"

text \<open>The answers suffice: the file ends, and every byte may need a call of \<open>write\<close> of its own.\<close>

definition finishes :: "'z relay_scheme \<Rightarrow> bool" where
  "finishes w \<longleftrightarrow> Delivers [] \<in> set (ry_incoming w) \<and> length (unsent w @ arriving (ry_incoming w)) \<le> takes (ry_room w)"

definition relay_inv :: "(phase \<Rightarrow> 'z relay_scheme \<Rightarrow> bool) \<Rightarrow> bool \<Rightarrow> string \<Rightarrow> 'z relay_scheme \<Rightarrow> bool" where
  "relay_inv phase live whole w \<longleftrightarrow> stocked w \<and>
     (if phase Ended w then \<not> holding w \<and> ry_got w = whole \<and> silent w 0 \<and> silent w 1
      else phase (if holding w then Draining else Filling) w \<and> ry_got w @ arriving (ry_incoming w) = whole \<and> (live \<longrightarrow> finishes w))"

definition answers :: "'z relay_scheme \<Rightarrow> nat" where
  "answers w = length (ry_incoming w) + length (ry_room w)"

definition advances :: "(phase \<Rightarrow> 'z relay_scheme \<Rightarrow> bool) \<Rightarrow> bool \<Rightarrow> string \<Rightarrow> 'z relay_scheme \<Rightarrow> 'z relay_scheme \<Rightarrow> bool" where
  "advances phase live whole w w' \<longleftrightarrow> relay_inv phase live whole w' \<and> fades w w' \<and> rc_active w' = rc_active w \<and>
     (answers w' < answers w \<or> w' = w)"

lemma advances_trans:
  "advances phase live whole u v \<Longrightarrow> advances phase live whole v w \<Longrightarrow> advances phase live whole u w"
  unfolding advances_def using fades_trans by fastforce

lemma advances_refl: "relay_inv phase live whole w \<Longrightarrow> advances phase live whole w w"
  by (simp add: advances_def)

lemma carriesD:
  assumes "carries w w'"
  shows "stocked w' = stocked w" "holding w' = holding w" "finishes w' = finishes w" "answers w' = answers w" "ry_got w' = ry_got w"
    "ry_incoming w' = ry_incoming w" "unsent w' = unsent w"
proof -
  have same: "view_text d w' = view_text d w" "holding w' = holding w" for d using assms by (simp_all add: carries_def view_text_def holding_def Let_def)
  then have "unsent w' = unsent w" using assms by (simp add: unsent_def carries_def)
  then show "stocked w' = stocked w" "holding w' = holding w" "finishes w' = finishes w" "answers w' = answers w" "ry_got w' = ry_got w"
    "ry_incoming w' = ry_incoming w" "unsent w' = unsent w"
    using assms same by (simp_all add: carries_def stocked_def finishes_def answers_def)
qed

lemma relay_invD:
  assumes "relay_inv phase live whole w" "\<not> phase Ended w"
  shows "stocked w" "ry_got w @ arriving (ry_incoming w) = whole" "live \<longrightarrow> finishes w"
  using assms by (simp_all add: relay_inv_def)

lemma view_length: "view_text d w = Some xs \<Longrightarrow> length xs = unat (data_size d)"
  by (auto simp: view_text_def Let_def split: if_splits)

lemma view_select:
  assumes "view_text d w = Some xs" "length (ry_buffer w) = 4096" "m \<le> unat (data_size d)"
  shows "view_text (data_select d (word_of_nat m) (data_size d - word_of_nat m)) w = Some (drop m xs)"
    "unat (data_size (data_select d (word_of_nat m) (data_size d - word_of_nat m))) = length (drop m xs)"
proof -
  let ?k = "unat (data_base d - ry_base w)" and ?n = "unat (data_size d)"
  have v: "?k + ?n \<le> 4096" "xs = take ?n (drop ?k (ry_buffer w))"
    using assms(1,2) by (auto simp: view_text_def Let_def split: if_splits)
  have m: "unat (word_of_nat m :: u64) = m" using v(1) assms(3) by (simp add: unat_of_nat_64)
  have sz: "unat (data_size d - word_of_nat m) = ?n - m" using assms(3) m by (simp add: unat_sub_if')
  have assoc: "data_base d + word_of_nat m - ry_base w = (data_base d - ry_base w) + word_of_nat m" by (simp add: algebra_simps)
  have at: "unat (data_base d + word_of_nat m - ry_base w) = ?k + m"
    unfolding assoc using m v(1) assms(3) by (simp add: unat_add_64)
  show "view_text (data_select d (word_of_nat m) (data_size d - word_of_nat m)) w = Some (drop m xs)"
    using v assms(2,3) at sz
    by (simp add: view_text_def Let_def data_select_def data_construct_def data_base_def data_size_def drop_take add.commute)
  show "unat (data_size (data_select d (word_of_nat m) (data_size d - word_of_nat m))) = length (drop m xs)"
    using v assms(2) sz by (simp add: data_select_def data_construct_def data_size_def)
qed

locale relay_watch =
  fixes ops :: "'z relay_scheme relay_ops" and phase :: "phase \<Rightarrow> 'z relay_scheme \<Rightarrow> bool"
  assumes one_phase: "phase p w \<Longrightarrow> phase q w \<Longrightarrow> p = q"
    and same_phase: "phase p w \<Longrightarrow> rc_interest w' = rc_interest w \<Longrightarrow> rc_descriptors w' = rc_descriptors w \<Longrightarrow>
      relay.more w' = relay.more w \<Longrightarrow> phase p w'"
    and files: "phase p w \<Longrightarrow> p \<noteq> Ended \<Longrightarrow> op_input ops w = 0 \<and> op_output ops w = 1"
    and drains: "phase Filling w \<Longrightarrow> \<exists>w'. op_drain ops w = Some w' \<and> phase Draining w' \<and> carries w w'"
    and resumes: "phase Draining w \<Longrightarrow> \<exists>w'. op_resume ops w = Some w' \<and> phase Filling w' \<and> carries w w'"
    and closes: "phase Filling w \<Longrightarrow> \<exists>w'. op_close ops w = Some w' \<and> phase Ended w' \<and> carries w w' \<and> silent w' 0 \<and> silent w' 1"
    and counted: "phase p w \<Longrightarrow> rc_descriptors w = 0 \<longleftrightarrow> p = Ended"
    and input_watched: "phase Filling w \<Longrightarrow> \<exists>n. rc_interest w 0 = Some (n, 0) \<and> n AND (EPOLLIN OR EPOLLOUT) \<noteq> 0"
    and output_watched: "phase Draining w \<Longrightarrow> \<exists>n. rc_interest w 1 = Some (n, 1) \<and> n AND (EPOLLIN OR EPOLLOUT) \<noteq> 0"
    and known: "phase p w \<Longrightarrow> rc_interest w fd = Some (n, a) \<Longrightarrow> (a = 0 \<or> a = 1) \<and> p \<noteq> Ended"
begin

text \<open>What \<open>read\<close> has put into the buffer, and what \<open>write\<close> has taken out of it.\<close>

lemma delivered_stock:
  assumes inv: "relay_inv phase live whole w" "\<not> phase Ended w" "\<not> holding w" and r: "ry_incoming w = Delivers xs # rs" "xs \<noteq> []"
    and u: "u = w\<lparr>ry_incoming := rs, ry_buffer := xs @ drop (length xs) (ry_buffer w), ry_got := ry_got w @ xs,
      ry_remaining := data_construct (ry_base w) (word_of_nat (length xs))\<rparr>"
  shows "length xs \<le> length (ry_buffer w)" "holding u" "stocked u" "ry_got u @ arriving (ry_incoming u) = whole" "live \<longrightarrow> finishes u"
proof -
  note I = relay_invD [OF inv(1,2)]
  have l: "length xs \<le> 4096" using I(1) r(1) by (simp add: stocked_def sound_reads_def)
  then show "length xs \<le> length (ry_buffer w)" using I(1) by (simp add: stocked_def)
  have n: "unat (word_of_nat (length xs) :: u64) = length xs" using l by (simp add: unat_of_nat_64)
  have shown: "view_text (ry_remaining u) u = Some xs" "holding u"
    using n r(2) I(1) l
    by (auto simp: u view_text_def data_construct_def data_base_def data_size_def holding_def stocked_def Let_def unat_eq_0)
  then show "holding u" by simp
  have text_left: "unsent u = xs" using shown by (simp add: unsent_def)
  have "sound_reads rs" using I(1) r(1) by (simp add: stocked_def sound_reads_def)
  then show "stocked u" using I(1) inv(3) shown text_left l by (simp add: stocked_def) (simp add: u unsent_def holding_def)
  show "ry_got u @ arriving (ry_incoming u) = whole" using I(2) r by (simp add: u)
  show "live \<longrightarrow> finishes u" using I(3) r inv(3) unfolding finishes_def text_left by (auto simp: u unsent_def)
qed

lemma taken_stock:
  assumes inv: "relay_inv phase live whole w" "\<not> phase Ended w" "holding w" and r: "ry_room w = Room k # rs"
    and m: "m = min k (unat (data_size (ry_remaining w)))"
    and u: "u = w\<lparr>ry_room := rs, ry_sent := ry_sent w @ take m (unsent w),
      ry_remaining := data_select (ry_remaining w) (word_of_nat m) (data_size (ry_remaining w) - word_of_nat m)\<rparr>"
  shows "view_text (ry_remaining w) w = Some (unsent w)" "0 < m" "stocked u" "ry_got u @ arriving (ry_incoming u) = whole" "live \<longrightarrow> finishes u"
proof -
  let ?d = "ry_remaining w"
  note I = relay_invD [OF inv(1,2)]
  show xs: "view_text ?d w = Some (unsent w)" using I(1) inv(3) by (auto simp: stocked_def unsent_def)
  have "0 < k" using I(1) r by (simp add: stocked_def sound_writes_def)
  then show m': "0 < m" using inv(3) by (auto simp: m holding_def unat_gt_0)
  have le: "m \<le> unat (data_size ?d)" by (simp add: m)
  have lx: "length (unsent w) = unat (data_size ?d)" by (rule view_length [OF xs])
  have "view_text (ry_remaining u) u = view_text (data_select ?d (word_of_nat m) (data_size ?d - word_of_nat m)) w"
    "ry_remaining u = data_select ?d (word_of_nat m) (data_size ?d - word_of_nat m)"
    by (simp_all add: u view_text_def Let_def)
  then have rest: "view_text (ry_remaining u) u = Some (drop m (unsent w))" "unat (data_size (ry_remaining u)) = length (drop m (unsent w))"
    using view_select [OF xs _ le] I(1) by (simp_all add: stocked_def)
  have text_left: "unsent u = drop m (unsent w)" using rest by (auto simp: unsent_def holding_def)
  have "sound_writes rs" using I(1) r by (simp add: stocked_def sound_writes_def)
  then show "stocked u" using I(1) rest text_left by (simp add: stocked_def) (simp add: u)
  show "ry_got u @ arriving (ry_incoming u) = whole" using I(2) by (simp add: u)
  show "live \<longrightarrow> finishes u" using I(3) r m' lx le unfolding finishes_def text_left by (auto simp: u takes_def)
qed

text \<open>An answer that changes nothing but the number of answers.\<close>

lemma would_block:
  assumes inv: "relay_inv phase live whole w" "\<not> phase Ended w"
    and v: "v = w\<lparr>ry_incoming := rs\<rparr> \<and> ry_incoming w = Not_Yet # rs \<or> v = w\<lparr>ry_room := qs\<rparr> \<and> ry_room w = Again # qs"
  shows "advances phase live whole w v \<and> answers v < answers w"
proof -
  note I = relay_invD [OF inv]
  have same: "view_text d v = view_text d w" "holding v = holding w" for d using v by (auto simp: view_text_def holding_def Let_def)
  then have uns: "unsent v = unsent w" using v by (auto simp: unsent_def)
  have "stocked v" using I(1) same uns v by (auto simp: stocked_def sound_reads_def sound_writes_def)
  moreover have "live \<longrightarrow> finishes v" using I(3) v uns by (auto simp: finishes_def takes_def)
  moreover have p: "phase p v = phase p w" for p using same_phase [of p w v] same_phase [of p v w] v by auto
  moreover have "ry_got v @ arriving (ry_incoming v) = whole" using I(2) v by auto
  ultimately have "relay_inv phase live whole v" using inv same unfolding relay_inv_def by simp
  then show ?thesis using v by (auto simp: advances_def fades_def answers_def)
qed

lemma fill_step:
  assumes inv: "relay_inv phase live whole w" and p: "phase Filling w"
  shows "\<exists>e w'. fill ops w = Some (e, w') \<and> advances phase live whole w w' \<and>
    (e = -1 \<and> (w' = w \<longrightarrow> ry_incoming w = []) \<or> e = 0 \<and> phase Draining w' \<and> answers w' < answers w)"
proof (cases "ry_incoming w")
  case Nil
  then show ?thesis using advances_refl [OF inv] files [OF p] by (simp add: fill_def next_read_def)
next
  case (Cons r rs)
  have n: "\<not> phase Ended w" "\<not> holding w" using one_phase [OF p, of Ended] one_phase [OF p, of Draining] inv
    by (auto simp: relay_inv_def split: if_splits)
  note I = relay_invD [OF inv n(1)]
  define v where "v = w\<lparr>ry_incoming := rs\<rparr>"
  have answered: "next_read (op_input ops w) w = (r, v)" using files [OF p] Cons by (simp add: next_read_def v_def)
  have less: "answers v < answers w" using Cons by (simp add: answers_def v_def)
  have neq: "u \<noteq> w" if "answers u < answers w" for u :: "'z relay_scheme" using that by auto
  show ?thesis
  proof (cases r)
    case Not_Yet
    then have "advances phase live whole w v" using would_block [OF inv n(1), of v rs] Cons by (simp add: v_def)
    then show ?thesis using answered Not_Yet neq [OF less] by (simp add: fill_def)
  next
    case Unreadable
    then show ?thesis using I(1) Cons by (simp add: stocked_def sound_reads_def)
  next
    case (Delivers xs)
    show ?thesis
    proof (cases "xs = []")
      case True
      have "phase Filling v" by (rule same_phase [OF p]) (simp_all add: v_def)
      from closes [OF this] obtain w' where w': "op_close ops v = Some w'" "phase Ended w'" "carries v w'" "silent w' 0" "silent w' 1" by blast
      have "stocked v" using I(1) n(2) Cons by (simp add: stocked_def v_def holding_def unsent_def sound_reads_def)
      then have "relay_inv phase live whole w'"
        using w' n(2) I(2) Cons Delivers True carriesD [OF w'(3)] by (simp add: relay_inv_def v_def holding_def)
      moreover have "fades w w'" "rc_active w' = rc_active w" using w'(3) by (auto simp: carries_def v_def fades_def)
      ultimately show ?thesis using answered Delivers True w'(1) neq less carriesD(4) [OF w'(3)] by (simp add: fill_def advances_def)
    next
      case False
      define u where "u = w\<lparr>ry_incoming := rs, ry_buffer := xs @ drop (length xs) (ry_buffer w), ry_got := ry_got w @ xs,
        ry_remaining := data_construct (ry_base w) (word_of_nat (length xs))\<rparr>"
      note D = delivered_stock [OF inv n Cons [unfolded Delivers] False u_def]
      have pu: "phase Filling u" by (rule same_phase [OF p]) (simp_all add: u_def)
      obtain w' where w': "op_drain ops u = Some w'" "phase Draining w'" "carries u w'" using drains [OF pu] by blast
      then have "relay_inv phase live whole w'"
        using D(2-5) carriesD [OF w'(3)] one_phase [OF w'(2), of Ended] by (auto simp: relay_inv_def)
      moreover have "fades w w'" "rc_active w' = rc_active w" using w'(3) by (auto simp: carries_def u_def fades_def)
      moreover have "answers w' < answers w" using less carriesD(4) [OF w'(3)] by (simp add: answers_def u_def v_def)
      ultimately show ?thesis using answered Delivers False w'(1,2) D(1) by (simp add: fill_def advances_def u_def v_def)
    qed
  qed
qed

lemma flush_step:
  assumes inv: "relay_inv phase live whole w" and p: "phase Draining w"
  shows "\<exists>e w'. flush ops w = Some (e, w') \<and> advances phase live whole w w' \<and> \<not> phase Ended w' \<and>
    (e = -1 \<and> (w' = w \<longrightarrow> ry_room w = []) \<or> e = 0 \<and> answers w' < answers w)"
proof (cases "ry_room w")
  case Nil
  then show ?thesis using advances_refl [OF inv] files [OF p] one_phase [OF p, of Ended] by (auto simp: flush_def next_write_def)
next
  case (Cons r rs)
  have n: "\<not> phase Ended w" "holding w" using one_phase [OF p, of Ended] one_phase [OF p, of Filling] inv
    by (auto simp: relay_inv_def split: if_splits)
  define v where "v = w\<lparr>ry_room := rs\<rparr>"
  have answered: "next_write (op_output ops w) w = (r, v)" using files [OF p] Cons by (simp add: next_write_def v_def)
  have less: "answers v < answers w" using Cons by (simp add: answers_def v_def)
  show ?thesis
  proof (cases r)
    case Again
    then have "advances phase live whole w v" using would_block [OF inv n(1), of v _ rs] Cons by (simp add: v_def)
    moreover have "phase Draining v" by (rule same_phase [OF p]) (simp_all add: v_def)
    ultimately show ?thesis using answered Again less one_phase [of Draining v Ended] by (auto simp: flush_def)
  next
    case Broken
    then show ?thesis using relay_invD(1) [OF inv n(1)] Cons by (simp add: stocked_def sound_writes_def)
  next
    case (Room k)
    let ?d = "ry_remaining w"
    define m where "m = min k (unat (data_size ?d))"
    define u where "u = w\<lparr>ry_room := rs, ry_sent := ry_sent w @ take m (unsent w),
      ry_remaining := data_select ?d (word_of_nat m) (data_size ?d - word_of_nat m)\<rparr>"
    note T = taken_stock [OF inv n Cons [unfolded Room] m_def u_def]
    have pu: "phase Draining u" by (rule same_phase [OF p]) (simp_all add: u_def)
    have au: "answers u < answers w" using less by (simp add: answers_def u_def v_def)
    have "view_text ?d v = view_text ?d w" by (simp add: view_text_def v_def Let_def)
    then have "view_text ?d v = Some (unsent w)" using T(1) by simp
    then have step: "flush ops w = (if data_size (ry_remaining u) = 0 then do { w \<leftarrow> op_resume ops u; Some (0, w) } else Some (0, u))"
      using answered Room T(2) by (simp add: flush_def Let_def v_def m_def [symmetric]) (simp add: u_def v_def m_def)
    show ?thesis
    proof (cases "holding u")
      case True
      then have "relay_inv phase live whole u" using T(3-5) pu one_phase [OF pu, of Ended] by (auto simp: relay_inv_def)
      then have "advances phase live whole w u" using au by (simp add: advances_def u_def fades_def)
      then show ?thesis using step True au one_phase [OF pu, of Ended] by (auto simp: holding_def)
    next
      case False
      obtain w' where w': "op_resume ops u = Some w'" "phase Filling w'" "carries u w'" using resumes [OF pu] by blast
      have "relay_inv phase live whole w'"
        using T(3-5) False carriesD [OF w'(3)] w'(2) one_phase [OF w'(2), of Ended] by (auto simp: relay_inv_def)
      moreover have "fades w w'" "rc_active w' = rc_active w" using w'(3) by (auto simp: carries_def u_def fades_def)
      moreover have "answers w' < answers w" using au carriesD(4) [OF w'(3)] by simp
      moreover have "flush ops w = Some (0, w')" using step False w'(1) by (simp add: holding_def)
      ultimately show ?thesis using one_phase [OF w'(2), of Ended] by (auto simp: advances_def)
    qed
  qed
qed

lemma phase_of_holding:
  "relay_inv phase live whole w \<Longrightarrow> holding w \<Longrightarrow> phase Draining w"
  "relay_inv phase live whole w \<Longrightarrow> \<not> holding w \<Longrightarrow> phase Filling w \<or> phase Ended w"
  "relay_inv phase live whole w \<Longrightarrow> phase Draining w \<Longrightarrow> holding w"
  "relay_inv phase live whole w \<Longrightarrow> phase Filling w \<Longrightarrow> \<not> holding w"
  using one_phase unfolding relay_inv_def by (auto split: if_splits)

lemma relay_output_ok:
  assumes "relay_inv phase live whole w"
  shows "\<exists>w'. relay_output ops w = Some w' \<and> advances phase live whole w w' \<and> (holding w \<longrightarrow> w' = w \<longrightarrow> ry_room w = [])"
  using assms
proof (induction "answers w" arbitrary: w rule: less_induct)
  case less
  show ?case
  proof (cases "holding w")
    case False
    then show ?thesis using advances_refl [OF less.prems] by (subst relay_output.simps) (simp add: holding_def)
  next
    case True
    then obtain e v where v: "flush ops w = Some (e, v)" "advances phase live whole w v"
      "e = -1 \<and> (v = w \<longrightarrow> ry_room w = []) \<or> e = 0 \<and> answers v < answers w"
      using flush_step [OF less.prems phase_of_holding(1) [OF less.prems]] by blast
    show ?thesis
    proof (cases "e = -1")
      case True
      then show ?thesis using v \<open>holding w\<close> by (subst relay_output.simps) (auto simp: holding_def)
    next
      case False
      then have e: "e = 0" "answers v < answers w" using v(3) by auto
      have "relay_inv phase live whole v" using v(2) by (simp add: advances_def)
      then obtain w' where w': "relay_output ops v = Some w'" "advances phase live whole v w'" using less.hyps [OF e(2)] by blast
      then have "answers w' \<le> answers v" by (auto simp: advances_def)
      then have "w' \<noteq> w" using e(2) by auto
      then show ?thesis using v(1) w' e(1) \<open>holding w\<close> advances_trans [OF v(2) w'(2)] by (subst relay_output.simps) (simp add: holding_def)
    qed
  qed
qed

lemma relay_input_ok:
  assumes "relay_inv phase live whole w" "\<not> phase Ended w"
  shows "\<exists>w'. relay_input ops w = Some w' \<and> advances phase live whole w w' \<and> (\<not> holding w \<longrightarrow> w' = w \<longrightarrow> ry_incoming w = [])"
  using assms
proof (induction "answers w" arbitrary: w rule: less_induct)
  case less
  note inv = less.prems(1)
  show ?case
  proof (cases "holding w")
    case True
    then show ?thesis using advances_refl [OF inv] by (subst relay_input.simps) (simp add: holding_def)
  next
    case empty: False
    then have p: "phase Filling w" using phase_of_holding(2) [OF inv] less.prems(2) by blast
    obtain e v where v: "fill ops w = Some (e, v)" "advances phase live whole w v"
      "e = -1 \<and> (v = w \<longrightarrow> ry_incoming w = []) \<or> e = 0 \<and> phase Draining v \<and> answers v < answers w"
      using fill_step [OF inv p] by blast
    show ?thesis
    proof (cases "e = -1")
      case True
      then show ?thesis using v empty by (subst relay_input.simps) (auto simp: holding_def)
    next
      case False
      then have e: "e = 0" "phase Draining v" "answers v < answers w" using v(3) by auto
      have "relay_inv phase live whole v" using v(2) by (simp add: advances_def)
      then obtain f u where u: "flush ops v = Some (f, u)" "advances phase live whole v u"
        "f = -1 \<or> f = 0 \<and> answers u < answers v" "\<not> phase Ended u" using flush_step [OF _ e(2)] by blast
      have au: "answers u < answers w" using u(2) e(3) by (auto simp: advances_def)
      then have n: "u \<noteq> w" by auto
      note wu = advances_trans [OF v(2) u(2)]
      show ?thesis
      proof (cases "f = -1")
        case True
        then show ?thesis using v(1) u(1) e(1) n wu empty by (subst relay_input.simps) (simp add: holding_def)
      next
        case False
        have iu: "relay_inv phase live whole u" using u(2) by (simp add: advances_def)
        obtain w' where w': "relay_input ops u = Some w'" "advances phase live whole u w'"
          using less.hyps [OF au iu u(4)] by blast
        have "answers w' < answers w" using w'(2) au by (auto simp: advances_def)
        then have "w' \<noteq> w" by auto
        then show ?thesis using v(1) u(1) e(1) False w' empty advances_trans [OF wu w'(2)]
          by (subst relay_input.simps) (simp add: holding_def)
      qed
    qed
  qed
qed

end

section \<open>A program in the event loop\<close>

text \<open>The handler whose event the program waits for.\<close>

definition due_handler :: "'z relay_scheme \<Rightarrow> nat" where
  "due_handler w = (if holding w then 1 else 0)"

definition relay_event :: "nat epoll_event \<Rightarrow> bool" where
  "relay_event e \<longleftrightarrow> e = blank_event \<or> (ev_ptr e = Some 0 \<or> ev_ptr e = Some 1) \<and> ev_events e \<noteq> 0"

text \<open>
  In front of the \<open>i\<close>th event, in a turn that began with \<open>n\<close> answers. When they suffice and the report had the
  event that is waited for, then either one of them has been used, or the program has ended, or the event is still to come.
\<close>

definition relay_pending :: "(phase \<Rightarrow> 'z relay_scheme \<Rightarrow> bool) \<Rightarrow> bool \<Rightarrow> string \<Rightarrow> bool \<Rightarrow> nat \<Rightarrow> nat \<Rightarrow> 'z relay_scheme \<Rightarrow> bool" where
  "relay_pending phase live whole must n i w \<longleftrightarrow> relay_inv phase live whole w \<and> rc_active w \<and> rc_event w = i \<and> i \<le> rc_event_end w \<and>
     length (rc_batch w) = rc_event_end w \<and> (\<forall>j < rc_event_end w. relay_event (rc_batch w ! j)) \<and>
     answers w \<le> n \<and> (must \<longrightarrow> live \<and> (answers w < n \<or> phase Ended w \<or>
        (\<exists>j. i \<le> j \<and> j < rc_event_end w \<and> ev_ptr (rc_batch w ! j) = Some (due_handler w))))"

text \<open>What \<open>epoll_wait\<close> may answer, and an answer that reports everything that is watched for input or output.\<close>

definition sound_report :: "'z relay_scheme \<Rightarrow> nat epoll_result \<Rightarrow> bool" where
  "sound_report w result \<longleftrightarrow> (case result of Interrupted \<Rightarrow> True | Failed \<Rightarrow> False
     | Ready events \<Rightarrow> length events \<le> REACTOR_MAX_EVENTS \<and> (\<forall>(m, a) \<in> set events. m \<noteq> 0 \<and> (\<exists>fd n. rc_interest w fd = Some (n, a))))"

definition full_report :: "'z relay_scheme \<Rightarrow> nat epoll_result \<Rightarrow> bool" where
  "full_report w result \<longleftrightarrow> (\<exists>events. result = Ready events \<and>
     (\<forall>fd \<in> {0, 1}. \<forall>n a. rc_interest w fd = Some (n, a) \<longrightarrow> n AND (EPOLLIN OR EPOLLOUT) \<noteq> 0 \<longrightarrow> a \<in> snd ` set events))"

lemma due_answers:
  assumes "stocked w" "finishes w"
  shows "holding w \<Longrightarrow> ry_room w \<noteq> []" "ry_incoming w \<noteq> []"
proof -
  have "length (unsent w) \<le> takes (ry_room w)" using assms(2) by (simp add: finishes_def)
  moreover have "unsent w \<noteq> []" if h: "holding w"
  proof -
    obtain xs where xs: "view_text (ry_remaining w) w = Some xs" using assms(1) h by (auto simp: stocked_def)
    have "unat (data_size (ry_remaining w)) \<noteq> 0" using h by (simp add: holding_def unat_eq_0)
    moreover have "length xs = unat (data_size (ry_remaining w))" by (rule view_length [OF xs])
    ultimately show ?thesis using xs h by (auto simp: unsent_def)
  qed
  ultimately show "holding w \<Longrightarrow> ry_room w \<noteq> []" by (auto simp: takes_def)
  show "ry_incoming w \<noteq> []" using assms(2) by (auto simp: finishes_def)
qed

definition relay_run :: "'z relay_scheme relay_ops \<Rightarrow> nat \<Rightarrow> 'z relay_scheme \<Rightarrow> 'z relay_scheme option" where
  "relay_run ops a w = (if a = 0 then relay_input ops w else relay_output ops w)"

context relay_watch
begin

lemma run_ok:
  assumes inv: "relay_inv phase live whole w" "\<not> phase Ended w" and a: "a = 0 \<or> a = 1"
  shows "\<exists>w'. relay_run ops a w = Some w' \<and> advances phase live whole w w' \<and> (live \<longrightarrow> a = due_handler w \<longrightarrow> answers w' < answers w)"
proof -
  note I = relay_invD [OF inv]
  have "live \<Longrightarrow> holding w \<Longrightarrow> ry_room w \<noteq> []" "live \<Longrightarrow> ry_incoming w \<noteq> []" using I(3) due_answers [OF I(1)] by blast+
  then show ?thesis
    using relay_input_ok [OF inv] relay_output_ok [OF inv(1)] a by (fastforce simp: relay_run_def due_handler_def advances_def)
qed

lemma relay_inv_moved:
  assumes "relay_inv phase live whole w" "rc_interest w' = rc_interest w" "rc_descriptors w' = rc_descriptors w" "relay.more w' = relay.more w"
    "ry_base w' = ry_base w" "ry_buffer w' = ry_buffer w" "ry_remaining w' = ry_remaining w" "ry_incoming w' = ry_incoming w"
    "ry_room w' = ry_room w" "ry_got w' = ry_got w" "ry_sent w' = ry_sent w" "phase Ended w \<Longrightarrow> silent w' 0 \<and> silent w' 1"
  shows "relay_inv phase live whole w'"
proof -
  have "view_text d w' = view_text d w" "holding w' = holding w" for d using assms by (simp_all add: view_text_def holding_def Let_def)
  moreover from this have "unsent w' = unsent w" using assms by (simp add: unsent_def)
  ultimately have "stocked w' = stocked w" "finishes w' = finishes w" "holding w' = holding w"
    using assms by (simp_all add: stocked_def finishes_def)
  moreover have "phase p w' = phase p w" for p
    using same_phase [of p w w'] same_phase [of p w' w] assms(2-4) by auto
  moreover have "silent w' 0 \<and> silent w' 1" if "phase Ended w" using assms(12) that by blast
  ultimately show ?thesis using assms(1-11) unfolding relay_inv_def by (cases "phase Ended w") simp_all
qed

end

locale relay_program = relay_watch +
  fixes call :: "'c \<Rightarrow> reactor_event \<Rightarrow> 'a relay_scheme \<Rightarrow> 'a relay_scheme option"
    and deref :: "'a relay_scheme \<Rightarrow> nat \<Rightarrow> 'c handler option"
  assumes dispatched: "relay_inv phase live whole w \<Longrightarrow> \<not> phase Ended w \<Longrightarrow> rc_event w = i \<Longrightarrow> i < rc_event_end w \<Longrightarrow>
    i < length (rc_batch w) \<Longrightarrow> ev_ptr (rc_batch w ! i) = Some a \<Longrightarrow> ev_events (rc_batch w ! i) \<noteq> 0 \<Longrightarrow> a = 0 \<or> a = 1 \<Longrightarrow>
    \<exists>h w'. deref w a = Some h \<and> reactor_dispatch call h REACTOR_EPOLL_EVENT i w = Some w' \<and> advances phase live whole w w' \<and>
      (live \<longrightarrow> a = due_handler w \<longrightarrow> answers w' < answers w)"

lemma relay_event_blank: "relay_event blank_event"
  by (simp add: relay_event_def)

lemma relay_events_fade: "fades w w' \<Longrightarrow> length (rc_batch w) = rc_event_end w \<Longrightarrow> \<forall>j < rc_event_end w. relay_event (rc_batch w ! j) \<Longrightarrow>
    \<forall>j < rc_event_end w'. relay_event (rc_batch w' ! j)"
  unfolding fades_def using relay_event_blank by metis


context relay_program
begin

lemma next_event:
  assumes p: "relay_pending phase live whole must n i w" and i: "i < rc_event_end w"
  shows "\<exists>h w'. handler_at deref w (ev_ptr (rc_batch w ! i)) = Some h \<and>
    reactor_dispatch call h REACTOR_EPOLL_EVENT i w = Some w' \<and> advances phase live whole w w' \<and>
    (live \<longrightarrow> ev_ptr (rc_batch w ! i) = Some (due_handler w) \<longrightarrow> answers w' < answers w)"
proof (cases "ev_ptr (rc_batch w ! i)")
  case None
  then show ?thesis using p advances_refl
    by (auto simp: handler_at_def reactor_handler_default_def reactor_dispatch_def relay_pending_def)
next
  case (Some a)
  note P = p [unfolded relay_pending_def]
  have "relay_event (rc_batch w ! i)" using P i by blast
  then have a: "a = 0 \<or> a = 1" "ev_events (rc_batch w ! i) \<noteq> 0" using Some by (auto simp: relay_event_def blank_event_def)
  have "\<not> phase Ended w"
  proof
    assume "phase Ended w"
    then have "silent w 0" "silent w 1" using P by (simp_all add: relay_inv_def)
    then show False using a(1) Some P i by (auto simp: silent_def)
  qed
  then show ?thesis using dispatched [of live whole w i a] P i Some a by (auto simp: handler_at_def)
qed

lemma pending_next:
  assumes p: "relay_pending phase live whole must n i w" and i: "i < rc_event_end w" and w': "advances phase live whole w w'"
    and d: "live \<longrightarrow> ev_ptr (rc_batch w ! i) = Some (due_handler w) \<longrightarrow> answers w' < answers w"
  shows "relay_pending phase live whole must n (Suc i) (w'\<lparr>rc_event := rc_event w' + 1\<rparr>)"
proof -
  note P = p [unfolded relay_pending_def]
  let ?v = "w'\<lparr>rc_event := rc_event w' + 1\<rparr>"
  have a: "relay_inv phase live whole w'" "fades w w'" "rc_active w'" using w' P by (simp_all add: advances_def)
  then have inv: "relay_inv phase live whole ?v"
    by (intro relay_inv_moved [OF a(1)]) (simp_all add: relay_inv_def silent_def)
  have f: "rc_event w' = i" "rc_event_end w' = rc_event_end w" "length (rc_batch w') = rc_event_end w'" using a(2) P by (simp_all add: fades_def)
  have e: "\<forall>j < rc_event_end w'. relay_event (rc_batch w' ! j)" using relay_events_fade [OF a(2)] P by blast
  have "answers ?v \<le> n \<and> (must \<longrightarrow> live \<and>
      (answers ?v < n \<or> phase Ended ?v \<or> (\<exists>j. Suc i \<le> j \<and> j < rc_event_end ?v \<and> ev_ptr (rc_batch ?v ! j) = Some (due_handler ?v))))"
  proof -
    have v: "answers ?v = answers w'" "due_handler ?v = due_handler w'" by (simp_all add: answers_def due_handler_def holding_def)
    have n: "answers w \<le> n" "must \<longrightarrow> live \<and> (answers w < n \<or> phase Ended w \<or>
        (\<exists>j. i \<le> j \<and> j < rc_event_end w \<and> ev_ptr (rc_batch w ! j) = Some (due_handler w)))" using P by simp_all
    show ?thesis
    proof (cases "answers w' < answers w")
      case True
      then show ?thesis using n v by simp
    next
      case False
      then have same: "w' = w" "must \<longrightarrow> ev_ptr (rc_batch w ! i) \<noteq> Some (due_handler w)" using w' d n(2) by (auto simp: advances_def)
      have "phase Ended ?v" if "phase Ended w" by (rule same_phase [OF that]) (simp_all add: same(1))
      moreover have "Suc i \<le> j" if "must" "i \<le> j" "ev_ptr (rc_batch w ! j) = Some (due_handler w)" for j
        using that same(2) by (cases "j = i") auto
      ultimately show ?thesis using n v same(1) by (auto simp del: One_nat_def)
    qed
  qed
  then show ?thesis using inv a(3) f e i P by (auto simp: relay_pending_def)
qed


lemma pending_from:
  assumes inv: "relay_inv phase live whole w" "rc_active w" and r: "sound_report w (Ready events)"
    and n: "answers w \<le> n" "must \<longrightarrow> live \<and> full_report w (Ready events)"
  shows "relay_pending phase live whole must n 0 (w\<lparr>rc_time := 0, rc_event := 0, rc_event_end := length events,
    rc_batch := map (\<lambda>(m, a). \<lparr>ev_events = m, ev_ptr = Some a\<rparr>) events\<rparr>)"
    (is "relay_pending phase live whole must n 0 ?v")
proof -
  have p: "phase Ended w \<or> phase (if holding w then Draining else Filling) w" using inv(1) by (auto simp: relay_inv_def split: if_splits)
  have quiet: "events = []" if "phase Ended w"
  proof (rule ccontr)
    assume "events \<noteq> []"
    then obtain m a where "(m, a) \<in> set events" by (cases events) auto
    then obtain fd k where "rc_interest w fd = Some (k, a)" using r by (auto simp: sound_report_def)
    then show False using known [OF that] by blast
  qed
  have v: "relay_inv phase live whole ?v"
    by (rule relay_inv_moved [OF inv(1)]) (use quiet in \<open>simp_all add: silent_def\<close>)
  have e: "relay_event (rc_batch ?v ! j)" if "j < length events" for j
  proof -
    obtain m a where ma: "events ! j = (m, a)" by (cases "events ! j")
    then have "(m, a) \<in> set events" using that by (metis nth_mem)
    then obtain fd k where "m \<noteq> 0" "rc_interest w fd = Some (k, a)" using r by (auto simp: sound_report_def)
    moreover from this have "a = 0 \<or> a = 1" using p known by blast
    ultimately show ?thesis using ma that by (auto simp: relay_event_def)
  qed
  have "\<exists>j < length events. snd (events ! j) = due_handler w" if "full_report w (Ready events)" "\<not> phase Ended w"
  proof -
    have "\<exists>fd \<in> {0, 1}. \<exists>k. rc_interest w fd = Some (k, due_handler w) \<and> k AND (EPOLLIN OR EPOLLOUT) \<noteq> 0"
      using p that(2) input_watched [of w] output_watched [of w] by (cases "holding w") (auto simp: due_handler_def)
    then have "due_handler w \<in> snd ` set events" using that(1) unfolding full_report_def by fastforce
    then show ?thesis by (metis imageE in_set_conv_nth)
  qed
  note there = this
  have same: "due_handler ?v = due_handler w" "answers ?v = answers w" by (simp_all add: due_handler_def holding_def answers_def)
  have "phase Ended ?v \<or> (\<exists>j. 0 \<le> j \<and> j < rc_event_end ?v \<and> ev_ptr (rc_batch ?v ! j) = Some (due_handler ?v))" if m: must
  proof (cases "phase Ended w")
    case True
    have "phase Ended ?v" by (rule same_phase [OF True]) simp_all
    then show ?thesis by blast
  next
    case False
    then obtain j where j: "j < length events" "snd (events ! j) = due_handler w" using there n(2) m by blast
    then have "ev_ptr (rc_batch ?v ! j) = Some (due_handler ?v)" unfolding same by (simp add: split_beta)
    then show ?thesis using j(1) by (intro disjI2 exI [of _ j]) simp
  qed
  then show ?thesis unfolding relay_pending_def using v e inv(2) n same(2) by simp
qed

end

sublocale relay_program \<subseteq> relay_handlers: reactor_handlers call deref "relay_pending phase live whole must n" for live whole must n
proof unfold_locales
  fix i w
  assume p: "relay_pending phase live whole must n i w"
  note P = p [unfolded relay_pending_def]
  show "rc_event w = i \<and> i \<le> rc_event_end w \<and> length (rc_batch w) = rc_event_end w" using P by blast
  assume i: "i < rc_event_end w"
  obtain h' w' where w': "handler_at deref w (ev_ptr (rc_batch w ! i)) = Some h'" "reactor_dispatch call h' REACTOR_EPOLL_EVENT i w = Some w'"
    "advances phase live whole w w'" "live \<longrightarrow> ev_ptr (rc_batch w ! i) = Some (due_handler w) \<longrightarrow> answers w' < answers w"
    using next_event [OF p i] by blast
  then show "\<exists>h. handler_at deref w (ev_ptr (rc_batch w ! i)) = Some h" by blast
  fix h
  assume "handler_at deref w (ev_ptr (rc_batch w ! i)) = Some h"
  then show "\<exists>w'. reactor_dispatch call h REACTOR_EPOLL_EVENT i w = Some w' \<and> rc_event_end w' = rc_event_end w \<and>
      relay_pending phase live whole must n (Suc i) (w'\<lparr>rc_event := rc_event w' + 1\<rparr>)"
    using w' pending_next [OF p i w'(3,4)] by (auto simp: advances_def fades_def)
qed


context relay_program
begin

text \<open>One turn, and all of them.\<close>

lemma turn_ok:
  assumes inv: "relay_inv phase live whole w" "rc_active w" and r: "sound_report w result"
  shows "\<exists>w'. reactor_loop_once call deref result w = Some w' \<and> relay_inv phase live whole w' \<and> rc_active w' \<and>
    (live \<longrightarrow> answers w' \<le> answers w \<and> (full_report w result \<longrightarrow> answers w' < answers w \<or> phase Ended w'))"
proof (cases result)
  case Interrupted
  have "relay_inv phase live whole (w\<lparr>rc_time := 0\<rparr>)"
    by (rule relay_inv_moved [OF inv(1)]) (use inv(1) in \<open>auto simp: relay_inv_def silent_def\<close>)
  then show ?thesis using inv(2) Interrupted by (simp add: reactor_loop_once_def full_report_def answers_def)
next
  case Failed
  then show ?thesis using r by (simp add: sound_report_def)
next
  case (Ready events)
  define v where "v = w\<lparr>rc_time := 0, rc_event := 0, rc_event_end := length events,
    rc_batch := map (\<lambda>(m, a). \<lparr>ev_events = m, ev_ptr = Some a\<rparr>) events\<rparr>"
  define must where "must = (live \<and> full_report w result)"
  have "relay_pending phase live whole must (answers w) 0 v"
    unfolding v_def by (rule pending_from [OF inv]) (use r Ready in \<open>simp_all add: must_def\<close>)
  then obtain w' where w': "batch_loop call deref v = Some w'" "relay_pending phase live whole must (answers w) (rc_event_end w') w'"
    using relay_handlers.batch_ends by blast
  have "reactor_loop_once call deref result w = Some w'"
    using w'(1) r Ready by (simp add: reactor_loop_once_def v_def sound_report_def Let_def)
  then show ?thesis using w'(2) by (auto simp: relay_pending_def must_def)
qed

lemma all_turns:
  assumes "relay_inv phase live whole w" "rc_active w" "\<forall>k v. sound_report v (wait k v)"
  shows "\<exists>v. reactor_turns call deref wait 0 w k = Some v \<and> relay_inv phase live whole v \<and> rc_active v"
proof (induction k)
  case (Suc k)
  then obtain v where "reactor_turns call deref wait 0 w k = Some v" "relay_inv phase live whole v" "rc_active v" by blast
  then show ?case using turn_ok [of live whole v "wait k v"] assms(3) by auto
qed (use assms in simp)

text \<open>Between two turns some answers are used, or the program has ended on the way.\<close>

lemma turns_use_answers:
  assumes inv: "relay_inv phase True whole w" "rc_active w" and sound: "\<forall>k v. sound_report v (wait k v)"
    and v: "reactor_turns call deref wait 0 w k = Some v" and "k \<le> j"
  shows "\<exists>u. reactor_turns call deref wait 0 w j = Some u \<and> answers u \<le> answers v"
  using \<open>k \<le> j\<close>
proof (induction j rule: dec_induct)
  case (step j)
  then obtain u where u: "reactor_turns call deref wait 0 w j = Some u" "answers u \<le> answers v" by blast
  then have "relay_inv phase True whole u" "rc_active u" using all_turns [OF inv sound, of j] by auto
  then show ?case using turn_ok [of True whole u "wait j u"] sound u by fastforce
qed (use v in simp)

lemma turns_end:
  assumes inv: "relay_inv phase True whole w" "rc_active w" and sound: "\<forall>k v. sound_report v (wait k v)"
    and full: "\<forall>k. \<exists>j \<ge> k. \<forall>v. full_report v (wait j v)"
    and v: "reactor_turns call deref wait 0 w k = Some v"
  shows "\<exists>j y. reactor_turns call deref wait 0 w j = Some y \<and> phase Ended y"
  using v
proof (induction "answers v" arbitrary: k v rule: less_induct)
  case less
  obtain j where j: "k \<le> j" "\<forall>v. full_report v (wait j v)" using full by blast
  obtain u where u: "reactor_turns call deref wait 0 w j = Some u" "answers u \<le> answers v"
    using turns_use_answers [OF inv sound less.prems j(1)] by blast
  then have "relay_inv phase True whole u" "rc_active u" using all_turns [OF inv sound, of j] by auto
  then obtain y where y: "reactor_loop_once call deref (wait j u) u = Some y" "answers y < answers u \<or> phase Ended y"
    using turn_ok [of True whole u "wait j u"] sound j(2) by blast
  then have next_turn: "reactor_turns call deref wait 0 w (Suc j) = Some y" using u(1) by simp
  show ?case
  proof (cases "phase Ended y")
    case True
    then show ?thesis using next_turn by blast
  next
    case False
    then have "answers y < answers v" using y(2) u(2) by simp
    then show ?thesis using less.hyps next_turn by blast
  qed
qed

lemma loop_ends:
  assumes inv: "relay_inv phase True whole w" "rc_active w" and sound: "\<forall>k v. sound_report v (wait k v)"
    and full: "\<forall>k. \<exists>j \<ge> k. \<forall>v. full_report v (wait j v)"
  shows "\<exists>y. reactor_loop call deref wait 0 w = Some y \<and> phase Ended y \<and> ry_sent y = whole"
proof -
  note T = all_turns [OF inv sound]
  define k where "k = (LEAST k. \<exists>y. reactor_turns call deref wait 0 w k = Some y \<and> phase Ended y)"
  have "\<exists>k y. reactor_turns call deref wait 0 w k = Some y \<and> phase Ended y" 
    by (rule turns_end [OF inv sound full, where k = 0 and v = w]) simp
  then have "\<exists>y. reactor_turns call deref wait 0 w k = Some y \<and> phase Ended y" unfolding k_def by (rule LeastI_ex)
  then obtain y where y: "reactor_turns call deref wait 0 w k = Some y" "phase Ended y" by blast
  then have y': "relay_inv phase True whole y" using T [of k] by auto
  have "reactor_loop call deref wait 0 w = Some y"
  proof (rule reactor_loop_stops [OF y(1)])
    show "\<not> (rc_active y \<and> rc_descriptors y \<noteq> 0)" using counted [OF y(2)] by simp
    show "\<forall>i<k. \<forall>v. reactor_turns call deref wait 0 w i = Some v \<longrightarrow> rc_active v \<and> rc_descriptors v \<noteq> 0"
    proof (intro allI impI)
      fix i v
      assume i: "i < k" "reactor_turns call deref wait 0 w i = Some v"
      then have v: "relay_inv phase True whole v" "rc_active v" using T [of i] by auto
      have "\<not> phase Ended v" using not_less_Least i unfolding k_def by blast
      then obtain p where "phase p v" "p \<noteq> Ended" using v(1) unfolding relay_inv_def by (metis phase.distinct(3,5))
      then show "rc_active v \<and> rc_descriptors v \<noteq> 0" using counted v(2) by blast
    qed
  qed
  moreover have "ry_sent y = whole" using y' y(2) by (auto simp: relay_inv_def stocked_def unsent_def)
  ultimately show ?thesis using y(2) by blast
qed

end

section \<open>The two programs keep the interface\<close>

definition fd_phase :: "phase \<Rightarrow> fd_relay \<Rightarrow> bool" where
  "fd_phase p w \<longleftrightarrow> h_callback (fr_input w) = Some Input \<and> h_callback (fr_output w) = Some Output \<and>
     (case p of
        Filling \<Rightarrow> rc_descriptors w = 2 \<and> (\<exists>m n. rc_interest w = [0 \<mapsto> (m, 0), 1 \<mapsto> (n, 1)] \<and> m AND EPOLLIN \<noteq> 0)
      | Draining \<Rightarrow> rc_descriptors w = 2 \<and> rc_interest w = [0 \<mapsto> (0, 0), 1 \<mapsto> (EPOLLOUT OR EPOLLET, 1)]
      | Ended \<Rightarrow> rc_descriptors w = 0 \<and> rc_interest w = Map.empty)"

definition descriptor_phase :: "phase \<Rightarrow> descriptor_relay \<Rightarrow> bool" where
  "descriptor_phase p w \<longleftrightarrow> h_callback (de_handler (dr_input w)) = Some Input \<and> h_callback (de_handler (dr_output w)) = Some Output \<and>
     de_epoll_handler (dr_input w) = \<lparr>h_callback = Some (), h_state = 0\<rparr> \<and> de_epoll_handler (dr_output w) = \<lparr>h_callback = Some (), h_state = 1\<rparr> \<and>
     (case p of
        Ended \<Rightarrow> rc_descriptors w = 0 \<and> rc_interest w = Map.empty
      | _ \<Rightarrow> rc_descriptors w = 2 \<and> de_fd (dr_input w) = 0 \<and> de_fd (dr_output w) = 1 \<and>
          rc_interest w = [0 \<mapsto> (descriptor_events (dr_input w), 0), 1 \<mapsto> (descriptor_events (dr_output w), 1)] \<and>
          (if p = Filling then de_mask (dr_input w) = DESCRIPTOR_READ
           else de_mask (dr_input w) = 0 \<and> de_mask (dr_output w) = DESCRIPTOR_WRITE))"

lemmas epoll_bits = EPOLLIN_def EPOLLOUT_def EPOLLET_def EPOLLHUP_def EPOLLRDHUP_def

lemma more_fields: "relay.more w' = relay.more w \<Longrightarrow> fr_input w' = fr_input w \<and> fr_output w' = fr_output w" for w w' :: fd_relay
  by (cases w; cases w') simp

lemma more_descriptors: "relay.more w' = relay.more w \<Longrightarrow> dr_input w' = dr_input w \<and> dr_output w' = dr_output w" for w w' :: descriptor_relay
  by (cases w; cases w') simp

lemma input_bit: "m AND EPOLLIN \<noteq> 0 \<Longrightarrow> m AND (EPOLLIN OR EPOLLOUT) \<noteq> 0" for m :: u32
  by (auto simp: bit_eq_iff bit_simps)

lemma two_files: "[1 \<mapsto> y, 0 \<mapsto> x] = ([0 \<mapsto> x, 1 \<mapsto> y] :: int \<rightharpoonup> u32 \<times> nat)"
  by (rule fun_upd_twist) simp

lemma interest_at: "f = [0 \<mapsto> x, 1 \<mapsto> y] \<Longrightarrow> f 0 = Some x \<and> f 1 = Some y" for f :: "int \<rightharpoonup> u32 \<times> nat"
  by simp

text \<open>\<open>reactor_delete\<close> for both.\<close>

lemma deleted:
  "rc_interest w fd \<noteq> None \<Longrightarrow> reactor_delete a fd w = Some (w\<lparr>rc_batch := blank_pending a w,
    rc_interest := (rc_interest w)(fd := None), rc_descriptors := rc_descriptors w - 1\<rparr>)"
  by (simp add: reactor_delete_def Let_def)

lemma delete_both:
  assumes "rc_interest w = [0 \<mapsto> (m, 0), 1 \<mapsto> (n, 1)]" "rc_descriptors w = 2"
  obtains v b where "reactor_delete 0 0 w = Some v" "rc_interest v 1 \<noteq> None" "relay.more v = relay.more w"
    "reactor_delete 1 1 v = Some (w\<lparr>rc_batch := b, rc_interest := Map.empty, rc_descriptors := 0\<rparr>)"
    "fades w (w\<lparr>rc_batch := b, rc_interest := Map.empty, rc_descriptors := 0\<rparr>)"
    "silent (w\<lparr>rc_batch := b, rc_interest := Map.empty, rc_descriptors := 0\<rparr>) 0"
    "silent (w\<lparr>rc_batch := b, rc_interest := Map.empty, rc_descriptors := 0\<rparr>) 1"
proof -
  define v where "v = w\<lparr>rc_batch := blank_pending 0 w, rc_interest := [1 \<mapsto> (n, 1)], rc_descriptors := 1\<rparr>"
  have d: "reactor_delete 0 0 w = Some v" using deleted [of w 0 0] assms by (simp add: v_def fun_upd_twist)
  let ?w = "w\<lparr>rc_batch := blank_pending 1 v, rc_interest := Map.empty, rc_descriptors := 0\<rparr>"
  have d': "reactor_delete 1 1 v = Some ?w" using deleted [of v 1 1] by (simp add: v_def)
  note F = reactor_delete_fades [OF d] reactor_delete_fades [OF d']
  show thesis
    by (rule that [OF d _ _ d' fades_trans [OF F(1,3)] silent_fades [OF F(2,3)] F(4)]) (simp_all add: v_def)
qed

interpretation fd_watch: relay_watch fd_ops fd_phase
proof unfold_locales
  fix w w' :: fd_relay and p q fd n a
  show "p = q" if "fd_phase p w" "fd_phase q w"
    using that by (cases p; cases q) (auto simp: fd_phase_def dest!: interest_at split: phase.splits)
  show "fd_phase p w'" if "fd_phase p w" "rc_interest w' = rc_interest w" "rc_descriptors w' = rc_descriptors w" "relay.more w' = relay.more w"
    using that more_fields [OF that(4)] by (cases p) (simp_all add: fd_phase_def)
  show "\<exists>w'. op_drain fd_ops w = Some w' \<and> fd_phase Draining w' \<and> carries w w'" if "fd_phase Filling w"
    using that by (auto simp: fd_ops_def fd_drain_def fd_phase_def reactor_modify_def carries_def fades_def fun_upd_twist)
  show "\<exists>w'. op_resume fd_ops w = Some w' \<and> fd_phase Filling w' \<and> carries w w'" if "fd_phase Draining w"
    using that two_files [of "(EPOLLIN OR EPOLLET, 0)" "(0, 1)"]
    by (auto simp: fd_ops_def fd_resume_def fd_phase_def reactor_modify_def carries_def fades_def) (auto simp: epoll_bits)
  show "\<exists>w'. op_close fd_ops w = Some w' \<and> fd_phase Ended w' \<and> carries w w' \<and> silent w' 0 \<and> silent w' 1" if p: "fd_phase Filling w"
  proof -
    obtain m n where i: "rc_interest w = [0 \<mapsto> (m, 0), 1 \<mapsto> (n, 1)]" "rc_descriptors w = 2" using p by (auto simp: fd_phase_def)
    from delete_both [OF this] obtain v b where v: "reactor_delete 0 0 w = Some v"
      "reactor_delete 1 1 v = Some (w\<lparr>rc_batch := b, rc_interest := Map.empty, rc_descriptors := 0\<rparr>)"
      "fades w (w\<lparr>rc_batch := b, rc_interest := Map.empty, rc_descriptors := 0\<rparr>)"
      "silent (w\<lparr>rc_batch := b, rc_interest := Map.empty, rc_descriptors := 0\<rparr>) 0"
      "silent (w\<lparr>rc_batch := b, rc_interest := Map.empty, rc_descriptors := 0\<rparr>) 1" by blast
    then show ?thesis using p by (simp add: fd_ops_def fd_close_def fd_phase_def carries_def)
  qed
  show "\<exists>n. rc_interest w 0 = Some (n, 0) \<and> n AND (EPOLLIN OR EPOLLOUT) \<noteq> 0" if "fd_phase Filling w"
    using that by (auto simp: fd_phase_def dest: input_bit)
qed (auto simp: fd_ops_def fd_phase_def epoll_bits split: phase.splits if_splits)


interpretation fd_program: relay_program fd_ops fd_phase fd_call fd_handler
proof unfold_locales
  fix live whole i a and w :: fd_relay
  assume inv: "relay_inv fd_phase live whole w" "\<not> fd_phase Ended w" and a: "a = 0 \<or> a = (1 :: nat)"
  have "h_callback (fr_input w) = Some Input" "h_callback (fr_output w) = Some Output"
    using inv by (auto simp: relay_inv_def fd_phase_def split: if_splits)
  then have "\<exists>h. fd_handler w a = Some h \<and> reactor_dispatch fd_call h REACTOR_EPOLL_EVENT i w = relay_run fd_ops a w"
    using a by (auto simp: fd_handler_def reactor_dispatch_def fd_call_def relay_run_def fd_input_def fd_output_def)
  then show "\<exists>h w'. fd_handler w a = Some h \<and> reactor_dispatch fd_call h REACTOR_EPOLL_EVENT i w = Some w' \<and>
      advances fd_phase live whole w w' \<and> (live \<longrightarrow> a = due_handler w \<longrightarrow> answers w' < answers w)"
    using fd_watch.run_ok [OF inv a] by metis
qed

text \<open>\<open>descriptor_mask\<close> for both.\<close>

lemma mask_changed:
  assumes "rc_interest w (de_fd d) = Some (descriptor_events d, a)"
  shows "descriptor_mask a d m w = Some (d\<lparr>de_mask := m\<rparr>,
    w\<lparr>rc_interest := (rc_interest w)(de_fd d \<mapsto> (descriptor_events (d\<lparr>de_mask := m\<rparr>), a))\<rparr>)"
proof (cases "de_mask d = m")
  case True
  then have d: "d\<lparr>de_mask := m\<rparr> = d" by auto
  have i: "(rc_interest w)(de_fd d \<mapsto> (descriptor_events d, a)) = rc_interest w" using assms by (simp add: fun_upd_idem)
  show ?thesis unfolding d i using True by (simp add: descriptor_mask_def)
next
  case False
  then show ?thesis using assms by (simp add: descriptor_mask_def reactor_modify_def Let_def)
qed

definition both_open :: "descriptor_relay \<Rightarrow> bool" where
  "both_open w \<longleftrightarrow> rc_descriptors w = 2 \<and> de_fd (dr_input w) = 0 \<and> de_fd (dr_output w) = 1 \<and>
     rc_interest w = [0 \<mapsto> (descriptor_events (dr_input w), 0), 1 \<mapsto> (descriptor_events (dr_output w), 1)]"

lemma masks_both:
  assumes "both_open w"
  shows "\<exists>i. relay_masks m n w = Some (w\<lparr>rc_interest := i, dr_input := (dr_input w)\<lparr>de_mask := m\<rparr>, dr_output := (dr_output w)\<lparr>de_mask := n\<rparr>\<rparr>) \<and>
    both_open (w\<lparr>rc_interest := i, dr_input := (dr_input w)\<lparr>de_mask := m\<rparr>, dr_output := (dr_output w)\<lparr>de_mask := n\<rparr>\<rparr>)"
proof -
  define v where "v = w\<lparr>rc_interest := (rc_interest w)(0 \<mapsto> (descriptor_events ((dr_input w)\<lparr>de_mask := m\<rparr>), 0)), dr_input := (dr_input w)\<lparr>de_mask := m\<rparr>\<rparr>"
  have "descriptor_mask 0 (dr_input w) m w = Some ((dr_input w)\<lparr>de_mask := m\<rparr>,
      w\<lparr>rc_interest := (rc_interest w)(0 \<mapsto> (descriptor_events ((dr_input w)\<lparr>de_mask := m\<rparr>), 0))\<rparr>)"
    using mask_changed [of w "dr_input w" 0 m] assms by (simp add: both_open_def)
  moreover have "descriptor_mask 1 (dr_output v) n v = Some ((dr_output w)\<lparr>de_mask := n\<rparr>,
      v\<lparr>rc_interest := (rc_interest v)(1 \<mapsto> (descriptor_events ((dr_output w)\<lparr>de_mask := n\<rparr>), 1))\<rparr>)"
    using mask_changed [of v "dr_output w" 1 n] assms by (simp add: both_open_def v_def)
  ultimately have "relay_masks m n w = Some (v\<lparr>rc_interest := (rc_interest v)(1 \<mapsto> (descriptor_events ((dr_output w)\<lparr>de_mask := n\<rparr>), 1)),
      dr_output := (dr_output w)\<lparr>de_mask := n\<rparr>\<rparr>)"
    by (simp add: relay_masks_def v_def)
  then show ?thesis using assms
    by (intro exI [of _ "(rc_interest v)(1 \<mapsto> (descriptor_events ((dr_output w)\<lparr>de_mask := n\<rparr>), 1))"]) (simp add: v_def both_open_def)
qed

lemma descriptor_phase_open:
  "descriptor_phase Filling w \<longleftrightarrow> descriptor_phase Filling w \<and> both_open w" "descriptor_phase Draining w \<longleftrightarrow> descriptor_phase Draining w \<and> both_open w"
  by (auto simp: descriptor_phase_def both_open_def)

interpretation descriptor_watch: relay_watch descriptor_ops descriptor_phase
proof unfold_locales
  fix w w' :: descriptor_relay and p q fd n a
  show "p = q" if "descriptor_phase p w" "descriptor_phase q w"
    using that by (cases p; cases q) (auto simp: descriptor_phase_def DESCRIPTOR_READ_def split: phase.splits)
  show "descriptor_phase p w'" if "descriptor_phase p w" "rc_interest w' = rc_interest w" "rc_descriptors w' = rc_descriptors w" "relay.more w' = relay.more w"
    using that more_descriptors [OF that(4)] by (cases p) (simp_all add: descriptor_phase_def)
  show "\<exists>w'. op_drain descriptor_ops w = Some w' \<and> descriptor_phase Draining w' \<and> carries w w'" if p: "descriptor_phase Filling w"
    using masks_both [of w 0 DESCRIPTOR_WRITE] p descriptor_phase_open(1) [of w]
    by (auto simp: descriptor_ops_def descriptor_phase_def carries_def fades_def both_open_def)
  show "\<exists>w'. op_resume descriptor_ops w = Some w' \<and> descriptor_phase Filling w' \<and> carries w w'" if p: "descriptor_phase Draining w"
    using masks_both [of w DESCRIPTOR_READ 0] p descriptor_phase_open(2) [of w]
    by (auto simp: descriptor_ops_def descriptor_phase_def carries_def fades_def both_open_def)
  show "\<exists>w'. op_close descriptor_ops w = Some w' \<and> descriptor_phase Ended w' \<and> carries w w' \<and> silent w' 0 \<and> silent w' 1" if p: "descriptor_phase Filling w"
  proof -
    have o: "both_open w" using p descriptor_phase_open(1) by blast
    let ?d = "(dr_input w)\<lparr>de_fd := -1, de_mask := 0\<rparr>" and ?e = "(dr_output w)\<lparr>de_fd := -1, de_mask := 0\<rparr>"
    define u where "u = w\<lparr>rc_batch := blank_pending 0 w, rc_interest := [1 \<mapsto> (descriptor_events (dr_output w), 1)], rc_descriptors := 1\<rparr>"
    define v where "v = u\<lparr>dr_input := ?d\<rparr>"
    define x where "x = v\<lparr>rc_batch := blank_pending 1 v, rc_interest := Map.empty, rc_descriptors := 0\<rparr>"
    have d: "reactor_delete 0 0 w = Some u" "reactor_delete 1 1 v = Some x"
      using deleted [of w 0 0] deleted [of v 1 1] o by (simp_all add: both_open_def u_def v_def x_def fun_upd_twist)
    note F = reactor_delete_fades [OF d(1)] reactor_delete_fades [OF d(2)]
    have uv: "fades u v" by (simp add: v_def fades_def)
    have "fades w x" "silent x 0" "silent x 1"
      using fades_trans [OF fades_trans [OF F(1) uv] F(3)] silent_fades [OF silent_fades [OF F(2) uv] F(3)] F(4) by simp_all
    then have "fades w (x\<lparr>dr_output := ?e\<rparr>)" "silent (x\<lparr>dr_output := ?e\<rparr>) 0" "silent (x\<lparr>dr_output := ?e\<rparr>) 1"
      by (simp_all add: fades_def silent_def)
    moreover have "relay_close w = Some (x\<lparr>dr_output := ?e\<rparr>)"
      using o d by (simp add: relay_close_def descriptor_close_def descriptor_is_open_def both_open_def v_def) (simp add: u_def x_def v_def)
    moreover have "descriptor_phase Ended (x\<lparr>dr_output := ?e\<rparr>)" using p by (simp add: descriptor_phase_def x_def v_def u_def)
    ultimately show ?thesis by (simp add: descriptor_ops_def carries_def x_def v_def u_def)
  qed
qed (auto simp: descriptor_ops_def descriptor_phase_def descriptor_fd_def descriptor_events_def DESCRIPTOR_READ_def DESCRIPTOR_WRITE_def epoll_bits split: phase.splits if_splits)

section \<open>Descriptors in the loop\<close>

context relay_watch
begin

lemma sent_so_far:
  assumes "relay_inv phase live whole w"
  shows "prefix (ry_sent w) whole \<and> (rc_descriptors w = 0 \<longrightarrow> ry_sent w = whole)"
proof (cases "phase Ended w")
  case True
  then have "ry_got w = whole" "ry_got w = ry_sent w @ unsent w" "unsent w = []" using assms by (auto simp: relay_inv_def stocked_def unsent_def)
  then show ?thesis by simp
next
  case False
  then have "rc_descriptors w \<noteq> 0" using assms counted [of "if holding w then Draining else Filling" w] by (auto simp: relay_inv_def split: if_splits)
  then show ?thesis using relay_invD [OF assms False] by (auto simp: stocked_def prefix_def)
qed

end


lemma some_bits: "m \<noteq> 0 \<Longrightarrow> m AND EPOLLIN \<noteq> 0 \<or> m AND EPOLLOUT \<noteq> 0 \<or> m AND NOT (EPOLLIN OR EPOLLOUT) \<noteq> 0" for m :: u32
proof (rule ccontr)
  assume m: "m \<noteq> 0" "\<not> (m AND EPOLLIN \<noteq> 0 \<or> m AND EPOLLOUT \<noteq> 0 \<or> m AND NOT (EPOLLIN OR EPOLLOUT) \<noteq> 0)"
  have "m = (m AND EPOLLIN) OR (m AND EPOLLOUT) OR (m AND NOT (EPOLLIN OR EPOLLOUT))"
    by (rule bit_eqI) (auto simp: bit_simps)
  then show False using m by simp
qed

text \<open>One of the three tests: the event is the reported one, or the descriptors have been closed and it is blank.\<close>

lemma relay_signal_ok:
  assumes inv: "relay_inv descriptor_phase live whole w" and i: "rc_event w = i" "i < rc_event_end w" "i < length (rc_batch w)"
    and e: "ev_ptr (rc_batch w ! i) = Some a \<or> rc_batch w ! i = blank_event" and a: "a = 0 \<or> a = 1"
  shows "\<exists>w'. relay_signal a i bits type w = Some w' \<and> advances descriptor_phase live whole w w' \<and>
    (ev_events (rc_batch w ! i) AND bits = 0 \<longrightarrow> w' = w) \<and>
    (live \<longrightarrow> a = due_handler w \<longrightarrow> ev_events (rc_batch w ! i) AND bits \<noteq> 0 \<longrightarrow> answers w' < answers w)"
proof (cases "ev_events (rc_batch w ! i) AND bits = 0")
  case True
  then show ?thesis using i(3) advances_refl [OF inv] by (simp add: relay_signal_def event_at_def)
next
  case False
  then have ptr: "ev_ptr (rc_batch w ! i) = Some a" using e by (auto simp: blank_event_def)
  have n: "\<not> descriptor_phase Ended w"
  proof
    assume "descriptor_phase Ended w"
    then have "silent w a" using inv a by (auto simp: relay_inv_def)
    then show False using ptr i by (auto simp: silent_def)
  qed
  then have "h_callback (de_handler (dr_input w)) = Some Input" "h_callback (de_handler (dr_output w)) = Some Output"
    using inv by (auto simp: relay_inv_def descriptor_phase_def)
  then have "relay_dispatch a type w = relay_run descriptor_ops a w"
    using a by (auto simp: relay_dispatch_def reactor_dispatch_def relay_call_def relay_run_def)
  then have "relay_signal a i bits type w = relay_run descriptor_ops a w" using False i(3) by (simp add: relay_signal_def event_at_def)
  then show ?thesis using descriptor_watch.run_ok [OF inv n a] False by auto
qed

lemma relay_signal_same:
  assumes "advances descriptor_phase live whole w w'" "rc_event w = i" "i < rc_event_end w" "i < length (rc_batch w)"
    "ev_ptr (rc_batch w ! i) = Some a \<or> rc_batch w ! i = blank_event"
  shows "relay_inv descriptor_phase live whole w'" "rc_event w' = i" "i < rc_event_end w'" "i < length (rc_batch w')"
    "ev_ptr (rc_batch w' ! i) = Some a \<or> rc_batch w' ! i = blank_event"
  using assms unfolding advances_def fades_def by auto

interpretation descriptor_program: relay_program descriptor_ops descriptor_phase relay_epoll relay_handler
proof unfold_locales
  fix live whole i a and w :: descriptor_relay
  assume inv: "relay_inv descriptor_phase live whole w" "\<not> descriptor_phase Ended w" and i: "rc_event w = i" "i < rc_event_end w" "i < length (rc_batch w)"
    and e: "ev_ptr (rc_batch w ! i) = Some a" "ev_events (rc_batch w ! i) \<noteq> 0" and a: "a = 0 \<or> a = (1 :: nat)"
  have "relay_handler w a = Some \<lparr>h_callback = Some (), h_state = a\<rparr>"
    using inv a by (auto simp: relay_inv_def descriptor_phase_def relay_handler_def)
  have ptr: "ev_ptr (rc_batch w ! i) = Some a \<or> rc_batch w ! i = blank_event" using e by simp
  obtain u where u: "relay_signal a i EPOLLIN DESCRIPTOR_READ w = Some u" "advances descriptor_phase live whole w u"
    "ev_events (rc_batch w ! i) AND EPOLLIN = 0 \<longrightarrow> u = w"
    "live \<longrightarrow> a = due_handler w \<longrightarrow> ev_events (rc_batch w ! i) AND EPOLLIN \<noteq> 0 \<longrightarrow> answers u < answers w"
    using relay_signal_ok [OF inv(1) i ptr a] by blast
  note U = relay_signal_same [OF u(2) i ptr]
  obtain v where v: "relay_signal a i EPOLLOUT DESCRIPTOR_WRITE u = Some v" "advances descriptor_phase live whole u v"
    "ev_events (rc_batch u ! i) AND EPOLLOUT = 0 \<longrightarrow> v = u"
    "live \<longrightarrow> a = due_handler u \<longrightarrow> ev_events (rc_batch u ! i) AND EPOLLOUT \<noteq> 0 \<longrightarrow> answers v < answers u"
    using relay_signal_ok [OF U a] by blast
  note V = relay_signal_same [OF v(2) U(2-5)]
  obtain w' where w': "relay_signal a i (NOT (EPOLLIN OR EPOLLOUT)) DESCRIPTOR_CLOSE v = Some w'" "advances descriptor_phase live whole v w'"
    "live \<longrightarrow> a = due_handler v \<longrightarrow> ev_events (rc_batch v ! i) AND NOT (EPOLLIN OR EPOLLOUT) \<noteq> 0 \<longrightarrow> answers w' < answers v"
    using relay_signal_ok [OF V a] by blast
  have mono: "answers u \<le> answers w" "answers v \<le> answers u" "answers w' \<le> answers v" using u(2) v(2) w'(2) by (auto simp: advances_def)
  have "answers w' < answers w" if "live" "a = due_handler w"
    using some_bits [OF e(2)] u(3,4) v(3,4) w'(3) mono that by (cases "u = w"; cases "v = u") (auto simp: advances_def)
  moreover have "advances descriptor_phase live whole w w'" using advances_trans [OF advances_trans [OF u(2) v(2)] w'(2)] .
  ultimately show "\<exists>h w'. relay_handler w a = Some h \<and> reactor_dispatch relay_epoll h REACTOR_EPOLL_EVENT i w = Some w' \<and>
      advances descriptor_phase live whole w w' \<and> (live \<longrightarrow> a = due_handler w \<longrightarrow> answers w' < answers w)"
    using \<open>relay_handler w a = _\<close> u(1) v(1) w'(1) by (simp add: reactor_dispatch_def relay_epoll_def)
qed

section \<open>What the programs do\<close>

text \<open>What is asked of the answers: as documented, and, for the end of the program, enough of them.\<close>

definition sound_files :: "read_answer list \<Rightarrow> write_answer list \<Rightarrow> bool" where
  "sound_files reads room \<longleftrightarrow> sound_reads reads \<and> sound_writes room"

definition enough :: "read_answer list \<Rightarrow> write_answer list \<Rightarrow> bool" where
  "enough reads room \<longleftrightarrow> Delivers [] \<in> set reads \<and> length (arriving reads) \<le> takes room"

lemma relay_zero_simps [simp]:
  "ry_base (relay.extend (relay_zero r base reads room) m) = base" "ry_buffer (relay.extend (relay_zero r base reads room) m) = replicate 4096 (CHR 0x00)"
  "ry_remaining (relay.extend (relay_zero r base reads room) m) = data_null" "ry_incoming (relay.extend (relay_zero r base reads room) m) = reads"
  "ry_room (relay.extend (relay_zero r base reads room) m) = room" "ry_got (relay.extend (relay_zero r base reads room) m) = []"
  "ry_sent (relay.extend (relay_zero r base reads room) m) = []" "relay.more (relay.extend (relay_zero r base reads room) m) = m"
  "rc_interest (relay.extend (relay_zero r base reads room) m) = rc_interest r" "rc_descriptors (relay.extend (relay_zero r base reads room) m) = rc_descriptors r"
  "rc_active (relay.extend (relay_zero r base reads room) m) = rc_active r"
  by (simp_all add: relay.defs reactor.defs relay_zero_def)

lemma started:
  assumes "sound_files reads room" "live \<longrightarrow> enough reads room" "phase Filling w" "\<not> phase Ended w"
    "ry_buffer w = replicate 4096 (CHR 0x00)" "ry_remaining w = data_null" "ry_incoming w = reads" "ry_room w = room" "ry_got w = []" "ry_sent w = []"
  shows "relay_inv phase live (arriving reads) w"
proof -
  have "\<not> holding w" using assms(6) by (simp add: holding_def data_null_def data_size_def)
  then show ?thesis using assms by (auto simp: relay_inv_def stocked_def finishes_def unsent_def sound_files_def enough_def)
qed

lemma relay_fields_simps [simp]:
  "fr_input (relay.extend (relay_zero r base reads room) (fd_relay.fields h h')) = h"
  "fr_output (relay.extend (relay_zero r base reads room) (fd_relay.fields h h')) = h'"
  "dr_input (relay.extend (relay_zero r base reads room) (descriptor_relay.fields d d')) = d"
  "dr_output (relay.extend (relay_zero r base reads room) (descriptor_relay.fields d d')) = d'"
  by (simp_all add: relay.defs reactor.defs relay_zero_def fd_relay.defs descriptor_relay.defs)

lemma constructed:
  assumes "epoll_fd \<noteq> -1"
  obtains r :: "nat reactor" where "reactor_construct epoll_fd = Some r" "rc_interest r = Map.empty" "rc_descriptors r = 0" "rc_active r"
  using assms by (simp add: reactor_construct_def)

lemma fd_start_ok:
  assumes "epoll_fd \<noteq> -1" "sound_files reads room" "live \<longrightarrow> enough reads room"
  shows "\<exists>w. fd_start epoll_fd base state reads room = Some w \<and> relay_inv fd_phase live (arriving reads) w \<and> rc_active w"
proof -
  obtain r :: "nat reactor" where r: "reactor_construct epoll_fd = Some r" "rc_interest r = Map.empty" "rc_descriptors r = 0" "rc_active r"
    by (rule constructed [OF assms(1)])
  let ?w = "relay.extend (relay_zero r base reads room)
    (fd_relay.fields (reactor_handler_construct (Some Input) state) (reactor_handler_construct (Some Output) state))"
  let ?v = "?w\<lparr>rc_descriptors := 2, rc_interest := [0 \<mapsto> (EPOLLIN, 0), 1 \<mapsto> (EPOLLOUT, 1)]\<rparr>"
  have "fd_phase Filling ?v" by (auto simp: fd_phase_def reactor_handler_construct_def epoll_bits)
  moreover have "\<not> fd_phase Ended ?v" by (simp add: fd_phase_def)
  ultimately have "relay_inv fd_phase live (arriving reads) ?v" by (rule started [OF assms(2,3)]) simp_all
  moreover have "fd_start epoll_fd base state reads room = Some ?v" using r by (simp add: fd_start_def reactor_add_def)
  ultimately show ?thesis using r(4) by simp
qed

lemma relay_start_ok:
  assumes "epoll_fd \<noteq> -1" "sound_files reads room" "live \<longrightarrow> enough reads room"
  shows "\<exists>w. relay_start epoll_fd base state reads room = Some w \<and> relay_inv descriptor_phase live (arriving reads) w \<and> rc_active w"
proof -
  obtain r :: "nat reactor" where r: "reactor_construct epoll_fd = Some r" "rc_interest r = Map.empty" "rc_descriptors r = 0" "rc_active r"
    by (rule constructed [OF assms(1)])
  let ?d = "(descriptor_construct 0 (Some Input) state blank_descriptor)\<lparr>de_fd := 0, de_mask := DESCRIPTOR_READ\<rparr>"
  let ?e = "(descriptor_construct 1 (Some Output) state blank_descriptor)\<lparr>de_fd := 1, de_mask := DESCRIPTOR_READ\<rparr>"
  let ?w = "relay.extend (relay_zero r base reads room)
    (descriptor_relay.fields (descriptor_construct 0 (Some Input) state blank_descriptor) (descriptor_construct 1 (Some Output) state blank_descriptor))"
  let ?v = "?w\<lparr>rc_descriptors := 2, rc_interest := [0 \<mapsto> (descriptor_events ?d, 0), 1 \<mapsto> (descriptor_events ?e, 1)], dr_input := ?d, dr_output := ?e\<rparr>"
  have "descriptor_phase Filling ?v" by (simp add: descriptor_phase_def descriptor_construct_def reactor_handler_construct_def)
  moreover have "\<not> descriptor_phase Ended ?v" by (simp add: descriptor_phase_def)
  ultimately have "relay_inv descriptor_phase live (arriving reads) ?v" by (rule started [OF assms(2,3)]) simp_all
  moreover have "relay_start epoll_fd base state reads room = Some ?v"
    using r by (simp add: relay_start_def descriptor_open_def reactor_add_def Let_def)
  ultimately show ?thesis using r(4) by simp
qed

text \<open>Without any assumption on the order or the number of the answers every turn ends, and what has been written is an initial part of the input.\<close>

lemma relay_turns_safe:
  assumes "epoll_fd \<noteq> -1" "sound_files reads room" "\<forall>k v. sound_report v (wait k v)" "\<forall>k v. sound_report v (wait' k v)"
  shows "\<exists>w v. fd_start epoll_fd base state reads room = Some w \<and> reactor_turns fd_call fd_handler wait 0 w k = Some v \<and>
      prefix (ry_sent v) (arriving reads) \<and> (rc_descriptors v = 0 \<longrightarrow> ry_sent v = arriving reads)"
    "\<exists>w v. relay_start epoll_fd base state reads room = Some w \<and> reactor_turns relay_epoll relay_handler wait' 0 w k = Some v \<and>
      prefix (ry_sent v) (arriving reads) \<and> (rc_descriptors v = 0 \<longrightarrow> ry_sent v = arriving reads)"
proof -
  obtain v0 where v0: "fd_start epoll_fd base state reads room = Some v0" "relay_inv fd_phase False (arriving reads) v0" "rc_active v0"
    using fd_start_ok [OF assms(1,2), of False] by blast
  show "\<exists>w v. fd_start epoll_fd base state reads room = Some w \<and> reactor_turns fd_call fd_handler wait 0 w k = Some v \<and>
      prefix (ry_sent v) (arriving reads) \<and> (rc_descriptors v = 0 \<longrightarrow> ry_sent v = arriving reads)"
    using fd_program.all_turns [OF v0(2,3) assms(3), of k] v0(1) fd_watch.sent_so_far by blast
  obtain w0 where w0: "relay_start epoll_fd base state reads room = Some w0" "relay_inv descriptor_phase False (arriving reads) w0" "rc_active w0"
    using relay_start_ok [OF assms(1,2), of False] by blast
  show "\<exists>w v. relay_start epoll_fd base state reads room = Some w \<and> reactor_turns relay_epoll relay_handler wait' 0 w k = Some v \<and>
      prefix (ry_sent v) (arriving reads) \<and> (rc_descriptors v = 0 \<longrightarrow> ry_sent v = arriving reads)"
    using descriptor_program.all_turns [OF w0(2,3) assms(4), of k] w0(1) descriptor_watch.sent_so_far by blast
qed

text \<open>
  C19. Both programs copy their input: whatever pieces \<open>read\<close> delivers and \<open>write\<close> takes, and in whatever order events are
  reported, they end, and have then written exactly what was delivered before the end of the file. It is
  relied on that the answers suffice and that again and again everything that is watched is reported.
\<close>

theorem relay_copies:
  assumes "epoll_fd \<noteq> -1" "sound_files reads room" "enough reads room"
    and "\<forall>k v. sound_report v (wait k v)" "\<forall>k. \<exists>j \<ge> k. \<forall>v. full_report v (wait j v)"
    and "\<forall>k v. sound_report v (wait' k v)" "\<forall>k. \<exists>j \<ge> k. \<forall>v. full_report v (wait' j v)"
  shows "\<exists>v w. fd_main epoll_fd base state reads room wait = Some v \<and> ry_sent v = arriving reads \<and>
    relay_main epoll_fd base state reads room wait' = Some w \<and> ry_sent w = arriving reads"
proof -
  obtain v0 where v0: "fd_start epoll_fd base state reads room = Some v0" "relay_inv fd_phase True (arriving reads) v0" "rc_active v0"
    using fd_start_ok [OF assms(1,2), of True] assms(3) by blast
  obtain w0 where w0: "relay_start epoll_fd base state reads room = Some w0" "relay_inv descriptor_phase True (arriving reads) w0" "rc_active w0"
    using relay_start_ok [OF assms(1,2), of True] assms(3) by blast
  show ?thesis
    using fd_program.loop_ends [OF v0(2,3) assms(4,5)] descriptor_program.loop_ends [OF w0(2,3) assms(6,7)] v0(1) w0(1)
    by (auto simp: fd_main_def relay_main_def reactor_destruct_def)
qed

text \<open>The example: everything that is watched is reported in every turn.\<close>

definition report_at :: "'z relay_scheme \<Rightarrow> int \<Rightarrow> (u32 \<times> nat) list" where
  "report_at w fd = (case rc_interest w fd of None \<Rightarrow> [] | Some (n, a) \<Rightarrow> [(1, a)])"

definition full_wait :: "nat \<Rightarrow> 'z relay_scheme \<Rightarrow> nat epoll_result" where
  "full_wait k w = Ready (report_at w 0 @ report_at w 1)"

lemma full_wait_ok: "sound_report w (full_wait k w)" "full_report w (full_wait k w)"
  by (auto simp: sound_report_def full_report_def full_wait_def report_at_def REACTOR_MAX_EVENTS_def split: option.splits)

theorem relay_copies_witness:
  "\<exists>v w. fd_main 3 0x1000 7 [Delivers ''ab'', Not_Yet, Delivers ''c'', Delivers []] [Room 1, Again, Room 5, Room 2] full_wait = Some v \<and>
    ry_sent v = ''abc'' \<and>
    relay_main 3 0x1000 7 [Delivers ''ab'', Not_Yet, Delivers ''c'', Delivers []] [Room 1, Again, Room 5, Room 2] full_wait = Some w \<and>
    ry_sent w = ''abc''"
proof -
  let ?r = "[Delivers ''ab'', Not_Yet, Delivers ''c'', Delivers []]" and ?s = "[Room 1, Again, Room 5, Room 2]"
  have r: "sound_files ?r ?s" "enough ?r ?s" "arriving ?r = ''abc''"
    by (simp_all add: sound_files_def sound_reads_def sound_writes_def enough_def takes_def)
  have s: "\<forall>k v. sound_report v (full_wait k v)" "\<forall>k. \<exists>j \<ge> k. \<forall>v. full_report v (full_wait j v)" using full_wait_ok by blast+
  show ?thesis using relay_copies [OF _ r(1,2) s s, of 3] r(3) by simp
qed

end
