(* ===== verification/Stream_Relay.thy ===== *)
theory Stream_Relay
  imports Stream
begin

text \<open>
  \<^verbatim>\<open>src/example/stream.c\<close>: copies the standard input to the standard output over two streams. The streams are at the
  addresses 0 and 1 of the reactor; what \<open>read\<close> and \<open>write\<close> answer are arguments of each event. The program
  copies everything as long as the output never has to wait; otherwise it loses text, because it closes
  its output on the first event that tells that it can be written.
\<close>

section \<open>The program\<close>

datatype stream_end = Source | Sink

record stream_relay = "nat ssl_reactor" +
  rl_input :: "stream_end stream"
  rl_output :: "stream_end stream"
  rl_sent :: string

definition stream_input :: "write_answer list \<Rightarrow> nat \<Rightarrow> stream_relay \<Rightarrow> stream_relay option" where
  "stream_input writes type w =
     (if type = STREAM_READ then
        (let (d, n) = stream_read (rl_input w) in do {
           cells \<leftarrow> mem_read d 0 (unat n);
           xs \<leftarrow> those cells;
           s \<leftarrow> stream_write (rl_output w) xs;
           (s, w, sent, _) \<leftarrow> stream_flush 1 writes (Inl 0) s w;
           w \<leftarrow> Some (w\<lparr>rl_output := s, rl_sent := rl_sent w @ sent\<rparr>);
           s \<leftarrow> stream_consume (rl_input w) n;
           Some (w\<lparr>rl_input := s\<rparr>) })
      else if type = STREAM_CLOSE then do {
        (s, w) \<leftarrow> stream_close 0 (rl_input w) w;
        w \<leftarrow> Some (w\<lparr>rl_input := s\<rparr>);
        (s, w) \<leftarrow> stream_notify 1 (rl_output w) w;
        Some (w\<lparr>rl_output := s\<rparr>) }
      else Some w)"

definition stream_output :: "stream_relay \<Rightarrow> stream_relay option" where
  "stream_output w = do {
     (s, w) \<leftarrow> stream_close 1 (rl_output w) w;
     Some (w\<lparr>rl_output := s\<rparr>) }"

definition stream_end_call :: "write_answer list \<Rightarrow> stream_end \<Rightarrow> reactor_event \<Rightarrow> stream_relay \<Rightarrow> stream_relay option" where
  "stream_end_call writes c ev w = (case c of Source \<Rightarrow> stream_input writes (re_type ev) w | Sink \<Rightarrow> stream_output w)"

text \<open>An event of the descriptor of one of the streams, and the event it makes the stream dispatch.\<close>

definition hand_on :: "write_answer list \<Rightarrow> stream_end stream \<Rightarrow> nat option \<Rightarrow> stream_relay \<Rightarrow> stream_relay option" where
  "hand_on writes s event w = (case event of None \<Rightarrow> Some w
     | Some type \<Rightarrow> reactor_dispatch (stream_end_call writes) (sm_handler s) type 0 w)"

definition input_event :: "nat \<Rightarrow> string list \<Rightarrow> write_answer list \<Rightarrow> stream_relay \<Rightarrow> stream_relay option" where
  "input_event type reads writes w = do {
     (s, w, _, _, event) \<leftarrow> stream_socket_callback 0 type reads [] (rl_input w) w;
     hand_on writes s event (w\<lparr>rl_input := s\<rparr>) }"

definition output_event :: "write_answer list \<Rightarrow> stream_relay \<Rightarrow> stream_relay option" where
  "output_event writes w = do {
     (s, w, sent, _, event) \<leftarrow> stream_socket_callback 1 DESCRIPTOR_WRITE [] writes (rl_output w) w;
     hand_on [] s event (w\<lparr>rl_output := s, rl_sent := rl_sent w @ sent\<rparr>) }"

datatype relay_step = Arrive "string list" "write_answer list" | Hang | Drain "write_answer list"

primrec stream_relay_step :: "relay_step \<Rightarrow> stream_relay \<Rightarrow> stream_relay option" where
  "stream_relay_step (Arrive reads writes) w = input_event DESCRIPTOR_READ reads writes w"
| "stream_relay_step Hang w = input_event DESCRIPTOR_CLOSE [] [] w"
| "stream_relay_step (Drain writes) w = output_event writes w"

primrec stream_relay_steps :: "relay_step list \<Rightarrow> stream_relay \<Rightarrow> stream_relay option" where
  "stream_relay_steps [] w = Some w"
| "stream_relay_steps (e # es) w = do { w \<leftarrow> stream_relay_step e w; stream_relay_steps es w }"

definition constructed_streams :: "nat reactor \<Rightarrow> nat \<Rightarrow> stream_relay" where
  "constructed_streams r state = ssl_reactor.extend (reactor.extend r (ssl_reactor.fields False) :: nat ssl_reactor)
     (stream_relay.fields (stream_construct 0 (Some Source) state) (stream_construct 1 (Some Sink) state) [])"

text \<open>The start of the program: both files can be examined, and \<open>state\<close> is the address of the struct.\<close>

definition stream_relay_start :: "int \<Rightarrow> nat \<Rightarrow> bool \<Rightarrow> bool \<Rightarrow> stream_relay option" where
  "stream_relay_start epoll_fd state sock sock' = do {
     r \<leftarrow> reactor_construct epoll_fd;
     w \<leftarrow> Some (constructed_streams r state);
     (s, w) \<leftarrow> stream_open 0 (rl_input w) 0 STREAM_READ (0, sock) None w;
     w \<leftarrow> Some (w\<lparr>rl_input := s\<rparr>);
     (s, w) \<leftarrow> stream_open 1 (rl_output w) 1 STREAM_WRITE (0, sock') None w;
     Some (w\<lparr>rl_output := s\<rparr>) }"

section \<open>What it does\<close>

definition ends_here :: "stream_relay \<Rightarrow> bool" where
  "ends_here w \<longleftrightarrow> h_callback (sm_handler (rl_input w)) = Some Source \<and> h_callback (sm_handler (rl_output w)) = Some Sink \<and>
     sm_ssl (rl_input w) = No_Ssl \<and> sm_ssl (rl_output w) = No_Ssl"

text \<open>Both streams are open, or the input has been closed; all that was read is written, and \<open>out\<close> is still to be sent.\<close>

definition relaying :: "bool \<Rightarrow> string \<Rightarrow> stream_relay \<Rightarrow> bool" where
  "relaying hung out w \<longleftrightarrow> ends_here w \<and> wired 1 (rl_output w) w \<and> holds (sm_output (rl_output w)) out \<and> sm_notify (rl_output w) = hung \<and>
     (if hung then \<not> descriptor_is_open (sm_descriptor (rl_input w)) else wired 0 (rl_input w) w \<and> holds (sm_input (rl_input w)) [])"

lemma spares_wired: "wired a s w \<Longrightarrow> spares b w w' \<Longrightarrow> a \<noteq> b \<Longrightarrow> wired a s w'"
  by (auto simp: wired_def spares_def)

lemma spares_same:
  assumes "spares b w w'"
  shows "rl_input w' = rl_input w" "rl_output w' = rl_output w" "rl_sent w' = rl_sent w"
proof -
  have m: "reactor.more w' = reactor.more w" using assms by (simp add: spares_def)
  show "rl_input w' = rl_input w" using m by (cases w; cases w') simp
  show "rl_output w' = rl_output w" using m by (cases w; cases w') simp
  show "rl_sent w' = rl_sent w" using m by (cases w; cases w') simp
qed

lemma wired_fields [simp]:
  "wired a s (w\<lparr>rl_input := x\<rparr>) = wired a s w" "wired a s (w\<lparr>rl_output := x\<rparr>) = wired a s w" "wired a s (w\<lparr>rl_sent := z\<rparr>) = wired a s w"
  by (simp_all add: wired_def)

lemma event_kinds: "STREAM_WRITE \<noteq> (STREAM_READ :: nat)" "STREAM_CLOSE \<noteq> (STREAM_READ :: nat)" "DESCRIPTOR_CLOSE \<noteq> (DESCRIPTOR_READ :: nat)"
    "DESCRIPTOR_CLOSE \<noteq> (DESCRIPTOR_WRITE :: nat)"
  by (simp_all add: STREAM_WRITE_def STREAM_READ_def STREAM_CLOSE_def DESCRIPTOR_WRITE_def DESCRIPTOR_READ_def DESCRIPTOR_CLOSE_def)

text \<open>The callback of the input: everything it has read is written and flushed.\<close>

lemma stream_input_ok:
  assumes w: "ends_here w" "wired 0 (rl_input w) w" "wired 1 (rl_output w) w" "holds (sm_input (rl_input w)) xs"
      "holds (sm_output (rl_output w)) out" "\<not> sm_notify (rl_output w)"
    and len: "length out + length xs \<le> 2 ^ 63" and ws: "write_answers ws" and k: "k = taken (out @ xs) ws"
  shows "\<exists>w'. stream_input ws STREAM_READ w = Some w' \<and> relaying False (drop k (out @ xs)) w' \<and> rl_sent w' = rl_sent w @ take k (out @ xs)"
proof -
  let ?n = "buffer_size (sm_input (rl_input w))"
  have n: "unat ?n = length xs" by (rule holds_size [OF w(4)])
  note H = holds_data [OF w(4)]
  have read: "mem_read (buf_data (sm_input (rl_input w))) 0 (unat ?n) = Some (map Some xs)"
    using H(1,2) n by (simp add: mem_read_ok)
  obtain b where b: "stream_write (rl_output w) xs = Some ((rl_output w)\<lparr>sm_output := b\<rparr>)" "holds b (out @ xs)"
    using stream_write_ok [OF w(5) len] by blast
  let ?s = "(rl_output w)\<lparr>sm_output := b\<rparr>"
  have "wired 1 ?s w" "sm_ssl ?s = No_Ssl" using w(1,3) by (simp_all add: wired_def ends_here_def)
  from stream_flush_ok [OF this, of "out @ xs" ws "Inl 0"] b(2) ws obtain c d v rs' where
    f: "stream_flush 1 ws (Inl 0) ?s w = Some (?s\<lparr>sm_output := c, sm_descriptor := d\<rparr>, v, take k (out @ xs), rs')"
      "holds c (drop k (out @ xs))" "wired 1 (?s\<lparr>sm_output := c, sm_descriptor := d\<rparr>) v" "spares 1 w v"
    unfolding k by auto
  have same: "rl_input v = rl_input w" "rl_sent v = rl_sent w" using spares_same [OF f(4)] by simp_all
  obtain e where e: "stream_consume (rl_input w) ?n = Some ((rl_input w)\<lparr>sm_input := e\<rparr>)" "holds e []"
    using stream_consume_ok [OF w(4), of ?n] n by auto
  have "wired 0 (rl_input w) v" using spares_wired [OF w(2) f(4)] by simp
  then have "wired 0 ((rl_input w)\<lparr>sm_input := e\<rparr>) v" by (simp add: wired_def)
  then show ?thesis
    using read b(1) f(1-3) e same w(1,6)
    by (simp add: stream_input_def stream_read_def buffer_data_def those_map_Some relaying_def ends_here_def Let_def)
qed

lemma arrive_ok:
  assumes w: "relaying False out w" and rs: "read_answers rs" "delivered rs \<noteq> []" "length (delivered rs) \<le> 2 ^ 62"
    and len: "length out + length (delivered rs) \<le> 2 ^ 63" and ws: "write_answers ws" and k: "k = taken (out @ delivered rs) ws"
  shows "\<exists>w'. stream_relay_step (Arrive rs ws) w = Some w' \<and> relaying False (drop k (out @ delivered rs)) w' \<and>
    rl_sent w' = rl_sent w @ take k (out @ delivered rs)"
proof -
  note R = w [unfolded relaying_def, simplified]
  obtain b where b: "stream_socket_callback 0 DESCRIPTOR_READ rs [] (rl_input w) w =
      Some ((rl_input w)\<lparr>sm_input := b\<rparr>, w, [], [], Some STREAM_READ)" "holds b (delivered rs)"
    using socket_readable [of "rl_input w" "[]" rs 0 "[]" w] R rs by auto
  let ?v = "w\<lparr>rl_input := (rl_input w)\<lparr>sm_input := b\<rparr>\<rparr>"
  have "wired 0 ((rl_input w)\<lparr>sm_input := b\<rparr>) w" using R by (simp add: wired_def)
  then have v: "ends_here ?v" "wired 0 (rl_input ?v) ?v" "wired 1 (rl_output ?v) ?v" "holds (sm_input (rl_input ?v)) (delivered rs)"
    "holds (sm_output (rl_output ?v)) out" "\<not> sm_notify (rl_output ?v)"
    using R b(2) by (simp_all add: ends_here_def)
  have "stream_relay_step (Arrive rs ws) w = stream_input ws STREAM_READ ?v"
    using b(1) R by (simp add: input_event_def hand_on_def reactor_dispatch_def stream_end_call_def ends_here_def)
  then show ?thesis using stream_input_ok [OF v len ws k] by simp
qed

text \<open>The end of the input: it is closed, and the output is asked for an event.\<close>

lemma hang_ok:
  assumes w: "relaying False out w"
  shows "\<exists>w'. stream_relay_step Hang w = Some w' \<and> relaying True out w' \<and> rl_sent w' = rl_sent w"
proof -
  note R = w [unfolded relaying_def, simplified]
  have "sm_ssl (rl_input w) = No_Ssl" "wired 0 (rl_input w) w" using R by (simp_all add: ends_here_def)
  from stream_close_ok [OF this(2,1)] obtain s v where
    c: "stream_close 0 (rl_input w) w = Some (s, v)" "\<not> descriptor_is_open (sm_descriptor s)" "sm_ssl s = No_Ssl" "spares 0 w v" by blast
  have h: "sm_handler s = sm_handler (rl_input w)"
    using c(1) \<open>sm_ssl (rl_input w) = No_Ssl\<close> by (auto simp: stream_close_def split: if_splits Option.bind_splits)
  have same: "rl_output v = rl_output w" "rl_sent v = rl_sent w" using spares_same [OF c(4)] by simp_all
  let ?v = "v\<lparr>rl_input := s\<rparr>" and ?o = "(rl_output w)\<lparr>sm_notify := True\<rparr>"
  have "wired 1 (rl_output w) v" using spares_wired [where s = "rl_output w", OF _ c(4)] R by simp
  then have "wired 1 ?o ?v" by (simp add: wired_def stream_handlers_def)
  from stream_socket_update_ok [OF this] obtain d u where
    u: "stream_socket_update 1 ?o ?v = Some (?o\<lparr>sm_descriptor := d\<rparr>, u)" "wired 1 (?o\<lparr>sm_descriptor := d\<rparr>) u" "spares 1 ?v u" by blast
  have keep: "rl_input u = s" "rl_sent u = rl_sent w" using spares_same [OF u(3)] same by simp_all
  have "descriptor_is_open (sm_descriptor (rl_output w))" using R by (simp add: wired_def)
  then have "stream_relay_step Hang w = Some (u\<lparr>rl_output := ?o\<lparr>sm_descriptor := d\<rparr>\<rparr>)"
    using R c(1) same u(1) event_kinds
    by (simp add: input_event_def stream_socket_callback_def hand_on_def reactor_dispatch_def stream_end_call_def ends_here_def
        stream_input_def stream_notify_def)
  moreover have "relaying True out (u\<lparr>rl_output := ?o\<lparr>sm_descriptor := d\<rparr>\<rparr>)"
    using R c(2,3) h keep u(2) by (simp add: relaying_def ends_here_def)
  ultimately show ?thesis using keep by simp
qed

text \<open>
  The output can be written: part of what is held is sent. When nothing is left, or the input is closed, the
  output is closed, and what is left is lost.
\<close>

definition over :: "stream_relay \<Rightarrow> bool" where
  "over w \<longleftrightarrow> ends_here w \<and> \<not> descriptor_is_open (sm_descriptor (rl_output w)) \<and> holds (sm_output (rl_output w)) []"

lemma drain_ok:
  assumes w: "relaying hung out w" and ws: "write_answers ws" and k: "k = taken out ws"
  shows "\<exists>w'. stream_relay_step (Drain ws) w = Some w' \<and> rl_sent w' = rl_sent w @ take k out \<and>
    (if hung \<or> drop k out = [] then over w' else relaying False (drop k out) w') \<and>
    rl_input w' = rl_input w"
proof -
  note R = w [unfolded relaying_def]
  obtain b d v rs' where f: "stream_socket_callback 1 DESCRIPTOR_WRITE [] ws (rl_output w) w =
      Some ((rl_output w)\<lparr>sm_output := b, sm_notify := False, sm_descriptor := d\<rparr>, v, take k out, rs', if drop k out = [] \<or> hung then Some STREAM_WRITE else None)"
    "holds b (drop k out)" "wired 1 ((rl_output w)\<lparr>sm_output := b, sm_notify := False, sm_descriptor := d\<rparr>) v" "spares 1 w v"
    using socket_writable [of 1 "rl_output w" w out ws "[]"] R ws unfolding k by auto
  let ?s = "(rl_output w)\<lparr>sm_output := b, sm_notify := False, sm_descriptor := d\<rparr>"
  let ?v = "v\<lparr>rl_output := ?s, rl_sent := rl_sent w @ take k out\<rparr>"
  have same: "rl_input v = rl_input w" "rl_sent v = rl_sent w" using spares_same [OF f(4)] by simp_all
  show ?thesis
  proof (cases "hung \<or> drop k out = []")
    case False
    then have "stream_relay_step (Drain ws) w = Some ?v" using f(1) same by (simp add: output_event_def hand_on_def)
    moreover have "relaying False (drop k out) ?v" using False R f(2,3) same spares_wired [where s = "rl_input w", OF _ f(4)] by (simp add: relaying_def ends_here_def)
    ultimately show ?thesis using False same by simp
  next
    case True
    have "sm_ssl ?s = No_Ssl" "wired 1 ?s ?v" using R f(3) by (simp_all add: ends_here_def)
    from stream_close_ok [OF this(2,1)] obtain s u where
      c: "stream_close 1 ?s ?v = Some (s, u)" "\<not> descriptor_is_open (sm_descriptor s)" "sm_ssl s = No_Ssl" "spares 1 ?v u" by blast
    have h: "sm_handler s = sm_handler (rl_output w)" "holds (sm_output s) []"
      using c(1) \<open>sm_ssl ?s = No_Ssl\<close> f(3) by (auto simp: stream_close_def wired_def holds_empty split: if_splits Option.bind_splits)
    have keep: "rl_input u = rl_input w" "rl_sent u = rl_sent w @ take k out" using spares_same [OF c(4)] same by simp_all
    have "stream_relay_step (Drain ws) w = Some (u\<lparr>rl_output := s\<rparr>)"
      using True R f(1) same c(1) by (auto simp: output_event_def hand_on_def reactor_dispatch_def stream_end_call_def stream_output_def ends_here_def)
    moreover have "over (u\<lparr>rl_output := s\<rparr>)" using R c(2,3) h keep by (simp add: over_def ends_here_def)
    ultimately show ?thesis using True keep by simp
  qed
qed

lemma stream_relay_start_ok:
  assumes "epoll_fd \<noteq> -1"
  shows "\<exists>w. stream_relay_start epoll_fd state sock sock' = Some w \<and> relaying False [] w \<and> rl_sent w = []"
proof -
  obtain r :: "nat reactor" where r: "reactor_construct epoll_fd = Some r" "rc_interest r = Map.empty"
    using assms by (simp add: reactor_construct_def)
  let ?i = "stream_construct 0 (Some Source) state" and ?o = "stream_construct 1 (Some Sink) state"
  define w where "w = constructed_streams r state"
  have w: "rc_interest w = Map.empty" "rl_input w = ?i" "rl_output w = ?o" "rl_sent w = []"
    using r(2) by (simp_all add: w_def constructed_streams_def reactor.defs ssl_reactor.defs stream_relay.defs)
  have "rc_interest w 0 = None" "\<forall>fd m. rc_interest w fd \<noteq> Some (m, 0)" "sm_ssl ?i = No_Ssl" using w(1) by (simp_all add: stream_construct_def)
  from stream_socket_open_ok [OF _ this, of STREAM_READ sock] obtain d v where
    a: "stream_open 0 ?i 0 STREAM_READ (0, sock) None w = Some (?i\<lparr>sm_is_socket := sock, sm_mask := STREAM_READ, sm_descriptor := d\<rparr>, v)"
      "wired 0 (?i\<lparr>sm_is_socket := sock, sm_mask := STREAM_READ, sm_descriptor := d\<rparr>) v" "spares 0 w v" by auto
  let ?i' = "?i\<lparr>sm_is_socket := sock, sm_mask := STREAM_READ, sm_descriptor := d\<rparr>"
  let ?v = "v\<lparr>rl_input := ?i'\<rparr>"
  have fd: "de_fd d = 0" using a(1) by (auto simp: stream_open_def stream_socket_open_def descriptor_open_def Let_def split: Option.bind_splits
      dest!: arg_cong [where f = "\<lambda>s :: stream_end stream. de_fd (sm_descriptor s)"])
  have others: "\<forall>fd m. rc_interest ?v fd \<noteq> Some (m, 1)" using a(3) w(1) by (auto simp: spares_def)
  moreover have "rc_interest ?v 1 = None"
  proof (rule ccontr)
    assume "rc_interest ?v 1 \<noteq> None"
    then obtain m b where mb: "rc_interest v 1 = Some (m, b)" by auto
    show False
    proof (cases "b = 0")
      case True
      then have "(1 :: int) = de_fd d" using mb a(2) by (auto simp: wired_def)
      then show False using fd by simp
    next
      case False
      then have "rc_interest w 1 = Some (m, b)" using mb a(3) by (auto simp: spares_def)
      then show False using w(1) by simp
    qed
  qed
  moreover have "sm_ssl ?o = No_Ssl" by (simp add: stream_construct_def)
  ultimately obtain e u where
    b: "stream_open 1 ?o 1 STREAM_WRITE (0, sock') None ?v = Some (?o\<lparr>sm_is_socket := sock', sm_mask := STREAM_WRITE, sm_descriptor := e\<rparr>, u)"
      "wired 1 (?o\<lparr>sm_is_socket := sock', sm_mask := STREAM_WRITE, sm_descriptor := e\<rparr>) u" "spares 1 ?v u"
    using stream_socket_open_ok [of 1 ?v 1 ?o STREAM_WRITE sock'] by auto
  let ?o' = "?o\<lparr>sm_is_socket := sock', sm_mask := STREAM_WRITE, sm_descriptor := e\<rparr>"
  have same: "rl_output v = ?o" "rl_input u = ?i'" "rl_sent u = []" using spares_same [OF a(3)] spares_same [OF b(3)] w by simp_all
  have "wired 0 ?i' u" using spares_wired [where s = ?i', OF _ b(3)] a(2) by simp
  then have "relaying False [] (u\<lparr>rl_output := ?o'\<rparr>)"
    using b(2) same by (simp add: relaying_def ends_here_def) (simp add: stream_construct_def reactor_handler_construct_def holds_empty)
  moreover have "stream_relay_start epoll_fd state sock sock' = Some (u\<lparr>rl_output := ?o'\<rparr>)"
    using r(1) a(1) b(1) w same by (simp add: stream_relay_start_def w_def [symmetric])
  ultimately show ?thesis using same by auto
qed

text \<open>
  As long as every flush sends everything, the program copies its input, and at the end both files are closed.
\<close>

definition unhindered :: "(string list \<times> write_answer list) list \<Rightarrow> bool" where
  "unhindered xs \<longleftrightarrow> (\<forall>(rs, ws) \<in> set xs. read_answers rs \<and> delivered rs \<noteq> [] \<and> length (delivered rs) \<le> 2 ^ 62 \<and> write_answers ws \<and>
     taken (delivered rs) ws = length (delivered rs))"

lemma arrivals_copied:
  assumes "relaying False [] w" "unhindered xs"
  shows "\<exists>w'. stream_relay_steps (map (\<lambda>(rs, ws). Arrive rs ws) xs @ es) w = stream_relay_steps es w' \<and> relaying False [] w' \<and>
    rl_sent w' = rl_sent w @ concat (map (\<lambda>(rs, ws). delivered rs) xs)"
  using assms
proof (induction xs arbitrary: w)
  case (Cons x xs)
  obtain rs ws where x: "x = (rs, ws)" by (cases x)
  then have a: "read_answers rs" "delivered rs \<noteq> []" "length (delivered rs) \<le> 2 ^ 62" "write_answers ws"
    "taken (delivered rs) ws = length (delivered rs)" "unhindered xs" using Cons.prems(2) by (auto simp: unhindered_def)
  obtain v where v: "stream_relay_step (Arrive rs ws) w = Some v" "relaying False [] v" "rl_sent v = rl_sent w @ delivered rs"
    using arrive_ok [OF Cons.prems(1) a(1-3) _ a(4) refl] a(3,5) by auto
  show ?case using Cons.IH [OF v(2) a(6)] v(1,3) x by auto
qed auto

lemma stream_relay_copies:
  assumes "epoll_fd \<noteq> -1" "unhindered xs"
  shows "\<exists>w w'. stream_relay_start epoll_fd state sock sock' = Some w \<and>
    stream_relay_steps (map (\<lambda>(rs, ws). Arrive rs ws) xs @ [Hang, Drain []]) w = Some w' \<and> over w' \<and>
    rl_sent w' = concat (map (\<lambda>(rs, ws). delivered rs) xs)"
proof -
  obtain w where w: "stream_relay_start epoll_fd state sock sock' = Some w" "relaying False [] w" "rl_sent w = []"
    using stream_relay_start_ok [OF assms(1)] by blast
  obtain v where v: "stream_relay_steps (map (\<lambda>(rs, ws). Arrive rs ws) xs @ [Hang, Drain []]) w = stream_relay_steps [Hang, Drain []] v"
    "relaying False [] v" "rl_sent v = concat (map (\<lambda>(rs, ws). delivered rs) xs)" 
    using arrivals_copied [OF w(2) assms(2), of "[Hang, Drain []]"] unfolding w(3) by (metis append_Nil)
  obtain u where u: "stream_relay_step Hang v = Some u" "relaying True [] u" "rl_sent u = rl_sent v" using hang_ok [OF v(2)] by blast
  have "write_answers []" by (simp add: write_answers_def)
  from drain_ok [OF u(2) this refl] show ?thesis using w(1) v u by auto
qed

text \<open>
  Otherwise text is lost: when the input ends while some of it is still to be sent, the next event of the
  output closes it whatever \<open>write\<close> has taken; and when the output has been emptied before, it is closed already, and
  the next input makes a write to the closed file fail the assertion.
\<close>

lemma stream_relay_truncates:
  assumes "epoll_fd \<noteq> -1" "read_answers rs" "delivered rs \<noteq> []" "length (delivered rs) \<le> 2 ^ 62" "write_answers ws" "write_answers ws'"
    and k: "k = taken (delivered rs) ws"
  shows "\<exists>w w'. stream_relay_start epoll_fd state sock sock' = Some w \<and>
    stream_relay_steps [Arrive rs ws, Hang, Drain ws'] w = Some w' \<and> over w' \<and>
    rl_sent w' = take k (delivered rs) @ take (taken (drop k (delivered rs)) ws') (drop k (delivered rs))"
proof -
  obtain w where w: "stream_relay_start epoll_fd state sock sock' = Some w" "relaying False [] w" "rl_sent w = []"
    using stream_relay_start_ok [OF assms(1)] by blast
  obtain v where v: "stream_relay_step (Arrive rs ws) w = Some v" "relaying False (drop k (delivered rs)) v" "rl_sent v = take k (delivered rs)"
    using arrive_ok [OF w(2) assms(2-4) _ assms(5), of k] assms(4) k w(3) by auto
  obtain u where u: "stream_relay_step Hang v = Some u" "relaying True (drop k (delivered rs)) u" "rl_sent u = rl_sent v"
    using hang_ok [OF v(2)] by blast
  from drain_ok [OF u(2) assms(6) refl] show ?thesis using w(1) v(1,3) u(1,3) by auto
qed

lemma stream_relay_fails:
  assumes "epoll_fd \<noteq> -1" "read_answers rs" "delivered rs \<noteq> []" "length (delivered rs) \<le> 2 ^ 62" "write_answers ws" "write_answers ws'"
    and all: "taken (drop (taken (delivered rs) ws) (delivered rs)) ws' = length (drop (taken (delivered rs) ws) (delivered rs))"
    and more_input: "read_answers rs'" "delivered rs' \<noteq> []" "length (delivered rs') \<le> 2 ^ 62"
  shows "\<exists>w. stream_relay_start epoll_fd state sock sock' = Some w \<and>
    stream_relay_steps [Arrive rs ws, Drain ws', Arrive rs' [Broken]] w = None"
proof -
  obtain w where w: "stream_relay_start epoll_fd state sock sock' = Some w" "relaying False [] w" "rl_sent w = []"
    using stream_relay_start_ok [OF assms(1)] by blast
  let ?rest = "drop (taken (delivered rs) ws) (delivered rs)"
  obtain v where v: "stream_relay_step (Arrive rs ws) w = Some v" "relaying False ?rest v"
    using arrive_ok [OF w(2) assms(2-4) _ assms(5) refl] assms(4) by auto
  obtain u where u: "stream_relay_step (Drain ws') v = Some u" "over u" "rl_input u = rl_input v"
    using drain_ok [OF v(2) assms(6) refl] all by auto
  have i: "holds (sm_input (rl_input u)) []" "h_callback (sm_handler (rl_input u)) = Some Source" using v(2) u(3) by (simp_all add: relaying_def ends_here_def)
  obtain b where b: "stream_socket_callback 0 DESCRIPTOR_READ rs' [] (rl_input u) u =
      Some ((rl_input u)\<lparr>sm_input := b\<rparr>, u, [], [], Some STREAM_READ)" "holds b (delivered rs')"
    using socket_readable [of "rl_input u" "[]" rs' 0 "[]" u] i(1) more_input by auto
  obtain c where c: "stream_write (rl_output u) (delivered rs') = Some ((rl_output u)\<lparr>sm_output := c\<rparr>)" "holds c (delivered rs')"
    using stream_write_ok [of "rl_output u" "[]" "delivered rs'"] u(2) more_input(3) by (auto simp: over_def)
  have "buffer_size c \<noteq> 0" using holds_size_zero [OF c(2)] more_input(2) by simp
  then have "stream_socket_write ((rl_output u)\<lparr>sm_output := c\<rparr>) [Broken] = None" by (simp add: stream_socket_write_def)
  moreover have "sm_ssl (rl_output u) = No_Ssl" using u(2) by (simp add: over_def ends_here_def)
  moreover have "mem_read (buf_data b) 0 (unat (buffer_size b)) = Some (map Some (delivered rs'))"
    using holds_data [OF b(2)] holds_size [OF b(2)] by (simp add: mem_read_ok)
  ultimately have "stream_relay_step (Arrive rs' [Broken]) u = None"
    using b(1) c(1) i(2)
    by (simp add: input_event_def hand_on_def reactor_dispatch_def stream_end_call_def stream_input_def stream_read_def buffer_data_def
        those_map_Some stream_flush_def)
  then show ?thesis using w(1) v(1) u(1) by auto
qed

end
