(* ===== verification/Spec2Isabelle.thy ===== *)
theory Spec2Isabelle
  imports Utility Vector List_History Mapi Maps Http_Message Dyn_String Chunked Server_Answers Server_Loop Notify Resolver Responder Relay Stream_Relay
begin

text \<open>
  A verification library for libreactor, an event loop with network and HTTP components in C.

  \<^bold>\<open>The program.\<close> \<^verbatim>\<open>src/reactor/core.c\<close> waits for events with \<open>epoll\<close> and dispatches them to
  handlers. \<^verbatim>\<open>descriptor.c\<close> turns them into readable, writable and close events of a file
  descriptor. On descriptors rest \<^verbatim>\<open>timer.c\<close>, \<^verbatim>\<open>event.c\<close>, \<^verbatim>\<open>notify.c\<close> (inotify) and
  \<^verbatim>\<open>stream.c\<close> (buffered input and output, plain or over OpenSSL); on events rests \<^verbatim>\<open>async.c\<close>
  (calls in threads), on it \<^verbatim>\<open>resolver.c\<close>, which calls \<^verbatim>\<open>net.c\<close>. \<^verbatim>\<open>server.c\<close> joins
  descriptor, timer and streams with the HTTP reader and writer of \<^verbatim>\<open>http.c\<close>, which calls the
  parser \<^verbatim>\<open>src/picohttpparser/picohttpparser.c\<close>. Below them are the data structures
  \<^verbatim>\<open>buffer.c\<close>, \<^verbatim>\<open>vector.c\<close>, \<^verbatim>\<open>list.c\<close>, \<^verbatim>\<open>map.c\<close> with its two clients \<^verbatim>\<open>mapi.c\<close> and
  \<^verbatim>\<open>maps.c\<close>, \<^verbatim>\<open>hash.c\<close>, \<^verbatim>\<open>string.c\<close>, \<^verbatim>\<open>data.c\<close>, \<^verbatim>\<open>pointer.c\<close> and \<^verbatim>\<open>utility.c\<close>.

  \<^bold>\<open>Conventions.\<close> A C function is an Isabelle function of the same name (a suffix where HOL has the name)
  that takes the state it changes and returns it. Structures are records, with a prefix
  per record on the fields; \<open>size_t\<close> and the fixed width integers are words and wrap. A memory block is
  a list of cells with bounds-checked accesses (\<open>Prelude\<close>), a heap a partial function from addresses. \<^term>\<open>None\<close>
  stands for undefined behaviour and for a failed assertion, so that \<^term>\<open>Some r\<close> says that neither
  happens. Loops without a structural bound are \<open>partial_function (option)\<close>: there \<^term>\<open>Some r\<close> also says
  that the loop ends. Everything the code asks of the system (what a read delivers, how much a
  write takes, addresses the allocator picks, the program behind a callback) is an argument and is
  arbitrary, within what is documented of it. \<open>malloc\<close> does not fail. Calls of a release callback are logged.

  \<^bold>\<open>Theories and what they show.\<close>

    \<^item> \<open>Prelude\<close>: words, blocks, decimal numerals, the shared collections of rewrite rules.
    \<^item> \<open>Utility\<close>, \<open>Hash\<close>, \<open>Data\<close>: decimal printing; the hash functions never read outside of the
      string; views of memory and the writing cursor.
    \<^item> \<open>Buffer\<close>, \<open>Vector\<close>, \<open>Dyn_String\<close>: for every history of operations within the contract, memory
      safety and equality with editing of lists; every removed object is released once. The contract of
      a growable store is the locale \<open>cell_store\<close>, interpreted on the buffer.
    \<^item> \<open>Linked_List\<close>, \<open>List_History\<close>: rings in a heap, one lemma per operation, and histories of calls.
    \<^item> \<open>Probe_Table\<close>, \<open>Hash_Map\<close>, \<open>Mapi\<close>, \<open>Maps\<close>: open addressing with deletion by shifting. The locale
      \<open>map_callbacks\<close> states the laws of the callbacks \<open>hash\<close>, \<open>set\<close>, \<open>equal\<close>; in it a table is a finite map; both clients
      interpret it. An insertion may enlarge the table, which inserts the elements again: the
      recursion has depth one (\<open>map_insert_depth\<close>), because a table that has just been enlarged has room.
    \<^item> \<open>Picohttpparser\<close>, \<open>Parser_Facts\<close>, \<open>Chunked\<close>: on input that is \<open>guarded\<close> (it does not end in a space, or a byte that is
      not a space can be read behind it) the parsers read inside of the memory, end, do not
      change their answer when more input arrives, and the SSE 4.2 code equals the portable
      code; all of that is one simulation, \<open>simul\<close>. The decoder of the chunked encoding equals an
      automaton over single bytes, and inverts the encoding in whatever pieces the text arrives.
    \<^item> \<open>Http\<close>, \<open>Http_Message\<close>: the writers append exactly the text of a message and allocate
      exactly its size (\<open>writes f xs\<close> composes as the code does); what the client writes the parser reads back.
    \<^item> \<open>Core\<close>, \<open>Descriptor\<close>: the event loop under arbitrary programs of callbacks, which may close and free any
      descriptor, their own included: no handler of a closed descriptor is called, every
      event is delivered, the interest list of the kernel is what the masks say, the loop returns exactly when it should.
      The locale \<open>reactor_handlers\<close> is what the loop needs of its handlers; descriptors interpret it, and so does the server.
    \<^item> \<open>Stream\<close>, \<open>Stream_Tls\<close>, \<open>Timer\<close>, \<open>Net\<close>: a stream, plain or over OpenSSL, is a pair of queues that loses and repeats
      nothing, whatever the system and OpenSSL answer, as long as no write on a socket fails otherwise than with \<open>EAGAIN\<close>. The size
      that is given to \<open>SSL_write\<close> is converted to \<open>int\<close> (\<open>ssl_length\<close>): text is conserved at every size, but writes are repeated as
      OpenSSL wants them only below \<open>2^31\<close> bytes. Timers are armed as requested; sockets and address lists are accounted for.
    \<^item> \<open>Server\<close>, \<open>Server_Safety\<close>, \<open>Server_Answers\<close>: the server, over plain and encrypted connections, under arbitrary well-behaved programs uses no freed
      request and counts references exactly, up to the first event that \<open>provokes\<close> one of two defects: a read whose text ends in a
      space, behind which the parser reads on, or a write that fails otherwise than with \<open>EAGAIN\<close>. Less than 2 GiB of input wait on a
      connection, because the parser answers an \<open>int\<close>. For a program that answers at once, requests in pieces that do not
      end in a space are each dispatched once and answered in order. Reading requests and answering them call each other;
      the recursion has the number of requests as its depth, plus one for each, because every level holds a
      request that no other level holds (\<open>updates_depth\<close>).
    \<^item> \<open>Server_Loop\<close>: the composition of the loop with the server. The world of the loop extends that of the server; the handlers
      are the descriptors of the listening socket, the timer and the connections, called through \<open>descriptor_callback\<close>, and
      handlers of the program. Every turn ends without failing, unless the system provokes one of the two defects (\<open>gentle_system\<close>): the reactor has forgotten every request that is closed
      or freed (\<open>forgotten\<close>: nothing is watched for it and no event of it is pending), also when its address is used again
      inside of the same batch.
    \<^item> \<open>Notify\<close>: the records of the kernel, as bytes, are dispatched as events while the program may
      watch more paths or destroy the notifier, when each names a watch of the list.
    \<^item> \<open>Async\<close>, \<open>Resolver\<close>: a step relation over the interleavings of program, loop and threads. The locale
      \<open>async_client\<close> states what a callback has to keep to; it gives safety by an invariant of the reachable
      worlds, and \<open>inevitable\<close>, which says that every way to go on leads to a goal. It is interpreted on callbacks that
      return, and on the callback of the resolver.
    \<^item> \<open>Responder\<close>: the response writers of \<^verbatim>\<open>src/example/responder.c\<close>, which write by plain copies, by a cursor and by field
      writers; seven of the nine equal \<open>http_write_response\<close>, the other two are wrong (\<open>t3_loses_length\<close>, \<open>t6_overruns\<close>).
    \<^item> \<open>Relay\<close>: \<^verbatim>\<open>src/example/descriptor.c\<close> and \<^verbatim>\<open>src/example/fd.c\<close>, which copy a file over descriptors and over the reactor. The
      locale \<open>relay_watch\<close> states what their functions need of the calls that change the masks, \<open>relay_program\<close> adds the dispatch; both
      programs interpret both, and \<open>relay_program\<close> gives \<open>reactor_handlers\<close>. The invariant says what is read is what is written and
      what is held; the number of answers of the system that are left decreases, so that the programs end.
    \<^item> \<open>Stream_Relay\<close>: \<^verbatim>\<open>src/example/stream.c\<close>, which does the same over streams: it copies its input if the output never has to wait
      (\<open>stream_relay_copies\<close>), and loses text or fails otherwise (\<open>stream_relay_truncates\<close>, \<open>stream_relay_fails\<close>).

  \<^bold>\<open>What the code does not do right.\<close> Some theorems state misbehaviour: \<open>server_closes_drained\<close>,
  \<open>server_shutdown_dangles\<close>, \<open>async_cancel_races\<close>, \<open>resolver_cancel_uses_freed\<close>, \<open>notify_stale_path\<close>,
  \<open>notify_unknown_fails\<close>, \<open>notify_clear_fails\<close>, \<open>net_socket_exhausted\<close>, \<open>stream_socket_write_fails\<close>, \<open>ssl_length_negative\<close>, \<open>string_write_once\<close>, \<open>string_free_equal\<close>,
  \<open>http_length_truncated\<close>, \<open>request_line_overread\<close>, \<open>t3_loses_length\<close>, \<open>t6_overruns\<close>,
  \<open>stream_relay_truncates\<close> and \<open>stream_relay_fails\<close>. The positive theorems name the premise that excludes them.

  \<^bold>\<open>Not modelled.\<close> The other programs under \<^verbatim>\<open>src/example\<close> and the tests. Allocation failure; big endian machines. The
  kernel, the C library, OpenSSL and \<open>pthread\<close> are arguments and documented rules, not programs.
\<close>

end
